(* ===== verification/Prelude.thy ===== *)
theory Prelude
  imports Main "HOL-Library.Word"
begin

text \<open>
  Shared vocabulary of the development: the fixed-width types of \<^verbatim>\<open>CorePch.h\<close>, the
  faults by which C++ code leaves its defined behaviour, the two result types (a call that may
  fault, and a call that moreover may never return), bounds-checked access to a block of memory,
  and the generic lemmas on lists the components share.
\<close>

section \<open>Types of \<^verbatim>\<open>CorePch.h\<close>\<close>

type_synonym byte = "8 word"
type_synonym uint16 = "16 word"
type_synonym uint32 = "32 word"
type_synonym uint64 = "64 word"

text \<open>
  A C++ \<^verbatim>\<open>int\<close> is an HOL \<open>int\<close>; the lemmas of each component show that the values
  stay in this range, so that no signed overflow is hidden.
\<close>

definition in_int32 :: "int \<Rightarrow> bool" where
  "in_int32 i \<longleftrightarrow> - (2 ^ 31) \<le> i \<and> i < 2 ^ 31"

text \<open>The largest \<^verbatim>\<open>int\<close>.\<close>

definition INT_MAX :: int where
  "INT_MAX = 2147483647"

text \<open>The conversion of an \<^verbatim>\<open>int\<close> to \<^verbatim>\<open>size_t\<close> (x64), and back.\<close>

definition size_t_of_int :: "int \<Rightarrow> uint64" where
  "size_t_of_int i = word_of_int i"

definition int_of_size_t :: "uint64 \<Rightarrow> int" where
  "int_of_size_t n = sint (ucast n :: uint32)"

section \<open>Faults and results\<close>

datatype fault =
    OutOfBounds        \<comment> \<open>a read or write outside the memory block\<close>
  | MemcpyOverlap      \<comment> \<open>\<^verbatim>\<open>memcpy\<close> between overlapping regions\<close>
  | NullDeref          \<comment> \<open>a call through a null pointer\<close>
  | Uninitialised      \<comment> \<open>reading memory that was never written\<close>
  | SignedOverflow     \<comment> \<open>an \<^verbatim>\<open>int\<close> computation leaves its range\<close>
  | LengthError        \<comment> \<open>\<^verbatim>\<open>vector::resize\<close> with an impossible size\<close>
  | FatalLog           \<comment> \<open>\<^verbatim>\<open>GOOGLE_LOG(FATAL)\<close> or a failed \<^verbatim>\<open>GOOGLE_CHECK\<close>\<close>
  | BadFunctionCall    \<comment> \<open>calling an empty \<^verbatim>\<open>std::function\<close>\<close>

type_synonym 'a res = "fault + 'a"

text \<open>\<open>None\<close> is a call that never returns.\<close>

type_synonym 'a run = "'a res option"

definition bind_res :: "'a res \<Rightarrow> ('a \<Rightarrow> 'b res) \<Rightarrow> 'b res" where
  "bind_res m f = (case m of Inl e \<Rightarrow> Inl e | Inr x \<Rightarrow> f x)"

definition bind_run :: "'a run \<Rightarrow> ('a \<Rightarrow> 'b run) \<Rightarrow> 'b run" where
  "bind_run m f = (case m of None \<Rightarrow> None | Some (Inl e) \<Rightarrow> Some (Inl e) | Some (Inr x) \<Rightarrow> f x)"

definition ret :: "'a \<Rightarrow> 'a run" where
  "ret x = Some (Inr x)"

lemma bind_res_simps [simp]:
  "bind_res (Inl e) f = Inl e"
  "bind_res (Inr x) f = f x"
  by (simp_all add: bind_res_def)

lemma bind_res_eq_Inr:
  "bind_res m f = Inr y \<longleftrightarrow> (\<exists>x. m = Inr x \<and> f x = Inr y)"
  by (cases m) simp_all

lemma bind_run_simps [simp]:
  "bind_run None f = None"
  "bind_run (Some (Inl e)) f = Some (Inl e)"
  "bind_run (Some (Inr x)) f = f x"
  "bind_run (ret x) f = f x"
  by (simp_all add: bind_run_def ret_def)

lemma ret_eq [simp]: "ret x = ret y \<longleftrightarrow> x = y"
  by (simp add: ret_def)

lemma bind_run_eq_Inr:
  "bind_run m f = Some (Inr y) \<longleftrightarrow> (\<exists>x. m = Some (Inr x) \<and> f x = Some (Inr y))"
  by (auto simp: bind_run_def split: option.splits sum.splits)

lemma bind_run_ret [simp]: "bind_run m ret = m"
  by (auto simp: bind_run_def ret_def split: option.splits sum.splits)

lemma bind_run_assoc: "bind_run (bind_run m f) g = bind_run m (\<lambda>x. bind_run (f x) g)"
  by (auto simp: bind_run_def split: option.splits sum.splits)

text \<open>A recursion may go through \<open>bind_run\<close>.\<close>

lemma bind_run_mono [partial_function_mono]:
  assumes "mono_option m" and "\<And>y. mono_option (\<lambda>f. g y f)"
  shows "mono_option (\<lambda>f. bind_run (m f) (\<lambda>y. g y f))"
proof -
  have "mono_option (\<lambda>f. Option.bind (m f) (case_sum (\<lambda>e. Some (Inl e)) (\<lambda>y. g y f)))"
    using assms(1)
  proof (rule bind_mono)
    fix r show "mono_option (\<lambda>f. case_sum (\<lambda>e. Some (Inl e)) (\<lambda>y. g y f) r)"
      using assms(2) by (cases r) (simp_all add: option.const_mono)
  qed
  moreover have "bind_run (m f) (\<lambda>y. g y f) =
      Option.bind (m f) (case_sum (\<lambda>e. Some (Inl e)) (\<lambda>y. g y f))" for f
    by (auto simp: bind_run_def split: option.split sum.split)
  ultimately show ?thesis by (simp only:)
qed

section \<open>Blocks of memory\<close>

text \<open>
  \<open>window i n xs\<close> is the \<open>n\<close> elements of \<open>xs\<close> from index \<open>i\<close>; \<open>overwrite i ys xs\<close>
  puts \<open>ys\<close> there.
\<close>

definition window :: "nat \<Rightarrow> nat \<Rightarrow> 'a list \<Rightarrow> 'a list" where
  "window i n xs = take n (drop i xs)"

definition overwrite :: "nat \<Rightarrow> 'a list \<Rightarrow> 'a list \<Rightarrow> 'a list" where
  "overwrite i ys xs = take i xs @ ys @ drop (i + length ys) xs"

lemma length_window: "i + n \<le> length xs \<Longrightarrow> length (window i n xs) = n"
  by (simp add: window_def)

lemma length_overwrite [simp]:
  "i + length ys \<le> length xs \<Longrightarrow> length (overwrite i ys xs) = length xs"
  by (simp add: overwrite_def)

lemma window_0 [simp]: "window i 0 xs = []"
  by (simp add: window_def)

lemma drop_window: "drop k (window i n xs) = window (i + k) (n - k) xs"
  by (simp add: window_def drop_take add.commute)

lemma window_append: "window i (m + n) xs = window i m xs @ window (i + m) n xs"
  by (simp add: window_def take_add add.commute)

lemma window_overwrite_same:
  "i \<le> length xs \<Longrightarrow> window i (length ys) (overwrite i ys xs) = ys"
  by (simp add: window_def overwrite_def)

lemma window_overwrite_before:
  assumes "i + n \<le> j" and "j \<le> length xs"
  shows "window i n (overwrite j ys xs) = window i n xs"
proof -
  have "take n (drop i (take j xs)) = take n (drop i xs)"
    using assms by (simp add: drop_take min_def)
  with assms show ?thesis by (simp add: window_def overwrite_def)
qed

lemma window_overwrite_after:
  assumes "j + length ys \<le> i" and "j \<le> length xs"
  shows "window i n (overwrite j ys xs) = window i n xs"
proof -
  obtain d where i: "i = j + length ys + d"
    using assms(1) le_Suc_ex by blast
  have "drop i (overwrite j ys xs) = drop i xs"
    using assms(2) by (simp add: overwrite_def i add.commute add.left_commute)
  then show ?thesis by (simp add: window_def)
qed

text \<open>
  Access through a pointer: a base block and an offset. Reading or writing outside the
  block is a fault, never an unspecified value.
\<close>

definition mem_read :: "'a list \<Rightarrow> int \<Rightarrow> int \<Rightarrow> 'a list res" where
  "mem_read mem i n =
     (if 0 \<le> i \<and> 0 \<le> n \<and> i + n \<le> int (length mem) then Inr (window (nat i) (nat n) mem)
      else Inl OutOfBounds)"

definition mem_write :: "'a list \<Rightarrow> int \<Rightarrow> 'a list \<Rightarrow> 'a list res" where
  "mem_write mem i bs =
     (if 0 \<le> i \<and> i + int (length bs) \<le> int (length mem) then Inr (overwrite (nat i) bs mem)
      else Inl OutOfBounds)"

text \<open>
  \<^verbatim>\<open>memcpy (&mem[dst], &mem[src], n)\<close> inside one block. Zero bytes copy nothing; regions
  that overlap (also a region and itself) are undefined behaviour.
\<close>

definition memcpy_within :: "'a list \<Rightarrow> int \<Rightarrow> int \<Rightarrow> int \<Rightarrow> 'a list res" where
  "memcpy_within mem dst src n =
     (if n = 0 then Inr mem
      else bind_res (mem_read mem src n) (\<lambda>bs.
        if \<bar>dst - src\<bar> < n then Inl MemcpyOverlap else mem_write mem dst bs))"

lemma mem_read_Inr:
  "mem_read mem i n = Inr bs \<longleftrightarrow>
     0 \<le> i \<and> 0 \<le> n \<and> i + n \<le> int (length mem) \<and> bs = window (nat i) (nat n) mem"
  by (auto simp: mem_read_def)

lemma mem_read_length: "mem_read mem i n = Inr bs \<Longrightarrow> int (length bs) = n"
  by (auto simp: mem_read_Inr window_def)

lemma mem_write_length: "mem_write mem i bs = Inr mem' \<Longrightarrow> length mem' = length mem"
  by (auto simp: mem_write_def split: if_splits)

section \<open>Reachable states and inductive invariants\<close>

inductive reachable :: "('s \<Rightarrow> bool) \<Rightarrow> ('s \<Rightarrow> 's \<Rightarrow> bool) \<Rightarrow> 's \<Rightarrow> bool"
  for init :: "'s \<Rightarrow> bool" and step :: "'s \<Rightarrow> 's \<Rightarrow> bool" where
  reachable_init: "init s \<Longrightarrow> reachable init step s"
| reachable_step: "reachable init step s \<Longrightarrow> step s t \<Longrightarrow> reachable init step t"

locale inductive_invariant =
  fixes init :: "'s \<Rightarrow> bool"
    and step :: "'s \<Rightarrow> 's \<Rightarrow> bool"
    and inv :: "'s \<Rightarrow> bool"
  assumes init_law: "init s \<Longrightarrow> inv s"
    and step_law: "inv s \<Longrightarrow> step s t \<Longrightarrow> inv t"
begin

lemma holds_when_reachable: "reachable init step s \<Longrightarrow> inv s"
  by (induction rule: reachable.induct) (blast intro: init_law step_law)+

end

end
