(* ===== verification/Wire_Varint.thy ===== *)
theory Wire_Varint
  imports Prelude
begin

unbundle bit_operations_syntax

text \<open>
  Variable-length integers of the protobuf runtime on the packet path,
  \<^verbatim>\<open>Libraries/Include/google/protobuf\<close>: the readers of \<^verbatim>\<open>parse_context.{h,cc}\<close>, which
  add \<^verbatim>\<open>(byte - 1) << 7 * i\<close> so that each step cancels the continuation bit of the one
  before, the readers of \<^verbatim>\<open>io/coded_stream.cc\<close>, and the writers and size computations of
  \<^verbatim>\<open>io/coded_stream.h\<close>. All are compared with one reference codec. A reader gets the memory
  from its pointer on and returns the number of bytes it moved on, \<open>None\<close> for the null pointer;
  reading past the memory is a fault.
\<close>

section \<open>The reference codec\<close>

fun varint_bytes :: "nat \<Rightarrow> byte list" where
  "varint_bytes n = (if n < 128 then [word_of_nat n] else word_of_nat (n mod 128 + 128) # varint_bytes (n div 128))"

declare varint_bytes.simps [simp del]

fun varint_value :: "nat \<Rightarrow> byte list \<Rightarrow> (nat \<times> nat) option" where
  "varint_value 0 bs = None"
| "varint_value (Suc k) [] = None"
| "varint_value (Suc k) (b # bs) =
     (if b < 128 then Some (1, unat b)
      else map_option (\<lambda>(n, v). (Suc n, unat b - 128 + 128 * v)) (varint_value k bs))"

lemma varint_bytes_not_Nil [simp]: "varint_bytes n \<noteq> []"
  by (simp add: varint_bytes.simps)

lemma unat_small_byte: "n < 128 \<Longrightarrow> unat (word_of_nat n :: byte) = n"
  by (simp add: unat_of_nat)

lemma unat_big_byte: "n < 128 \<Longrightarrow> unat (word_of_nat (n + 128) :: byte) = n + 128"
  by (simp add: unat_of_nat del: of_nat_add)

text \<open>What was encoded is decoded, whatever follows, if the decoder may read enough bytes.\<close>

lemma varint_value_bytes:
  "n < 128 ^ k \<Longrightarrow> 0 < k \<Longrightarrow> varint_value k (varint_bytes n @ rest) = Some (length (varint_bytes n), n)"
proof (induction n arbitrary: k rule: varint_bytes.induct)
  case (1 n)
  then obtain k' where k: "k = Suc k'" by (cases k) auto
  show ?case
  proof (cases "n < 128")
    case True
    then have "(word_of_nat n :: byte) < 128" by (simp add: word_less_nat_alt unat_small_byte)
    with True k show ?thesis by (simp add: varint_bytes.simps unat_small_byte)
  next
    case False
    let ?b = "word_of_nat (n mod 128 + 128) :: byte"
    have b: "unat ?b = n mod 128 + 128" by (rule unat_big_byte) simp
    then have "\<not> ?b < 128" by (simp add: word_less_nat_alt del: of_nat_add)
    moreover have "n div 128 < 128 ^ k'" using 1(2) k by (simp add: less_mult_imp_div_less mult.commute)
    moreover have "0 < k'"
    proof (rule ccontr)
      assume "\<not> 0 < k'"
      with k 1(2) False show False by simp
    qed
    ultimately have "varint_value k (varint_bytes n @ rest) =
        Some (Suc (length (varint_bytes (n div 128))), unat ?b - 128 + 128 * (n div 128))"
      using 1(1) [OF False] False k by (subst varint_bytes.simps) (simp del: of_nat_add)
    also have "unat ?b - 128 + 128 * (n div 128) = n" unfolding b by simp
    finally show ?thesis using False by (subst (2) varint_bytes.simps) simp
  qed
qed

lemma unat_less_256: "unat (b :: byte) < 256"
  using unsigned_less [of b] by simp

lemma varint_value_bound:
  "varint_value k bs = Some (n, v) \<Longrightarrow> 0 < n \<and> n \<le> k \<and> n \<le> length bs \<and> v < 128 ^ n"
proof (induction k bs arbitrary: n v rule: varint_value.induct)
  case (3 k b bs)
  show ?case
  proof (cases "b < 128")
    case True
    with 3 show ?thesis by (auto simp: word_less_nat_alt)
  next
    case False
    with 3(2) obtain m u where m: "varint_value k bs = Some (m, u)" "n = Suc m"
      "v = unat b - 128 + 128 * u" by auto
    have "unat b < 256" by (rule unat_less_256)
    moreover have "u < 128 ^ m" "0 < m" "m \<le> k" "m \<le> length bs" using 3(1) [OF False m(1)] by auto
    ultimately have "unat b - 128 + 128 * u < 128 * 128 ^ m" by linarith
    with m \<open>m \<le> k\<close> \<open>m \<le> length bs\<close> show ?thesis by simp
  qed
qed auto

lemma length_varint_bytes: "n < 128 ^ k \<Longrightarrow> 0 < k \<Longrightarrow> length (varint_bytes n) \<le> k"
  using varint_value_bytes [of n k "[]"] varint_value_bound [of k "varint_bytes n @ []"] by simp

lemma varint_value_more:
  "varint_value k bs = Some r \<Longrightarrow> varint_value k (bs @ rest) = Some r"
  by (induction k bs arbitrary: r rule: varint_value.induct) (auto split: if_splits)

section \<open>Readers of \<^verbatim>\<open>parse_context\<close>\<close>

definition byte_at :: "byte list \<Rightarrow> nat \<Rightarrow> byte res" where
  "byte_at p i = (if i < length p then Inr (p ! i) else Inl OutOfBounds)"

text \<open>The loop shared by the slow paths, \<^verbatim>\<open>for (i = start; i < limit; i++)\<close>.\<close>

function varint_slow :: "nat \<Rightarrow> byte list \<Rightarrow> nat \<Rightarrow> 'w::len word \<Rightarrow> (nat \<times> 'w word) option res" where
  "varint_slow limit p i res =
     (if i < limit then
        bind_res (byte_at p i) (\<lambda>b.
          let byte = ucast b; res' = res + push_bit (7 * i) (byte - 1) in
          if b < 128 then Inr (Some (i + 1, res')) else varint_slow limit p (i + 1) res')
      else Inr None)"
  by auto
termination by (relation "measure (\<lambda>(limit, p, i, res). limit - i)") auto

declare varint_slow.simps [simp del]

text \<open>The bytes of a varint beyond the fifth, which carry no bit of a 32-bit value.\<close>

function varint_skip :: "nat \<Rightarrow> byte list \<Rightarrow> nat \<Rightarrow> 'a \<Rightarrow> (nat \<times> 'a) option res" where
  "varint_skip limit p i res =
     (if i < limit then
        bind_res (byte_at p i) (\<lambda>b.
          if b < 128 then Inr (Some (i + 1, res)) else varint_skip limit p (i + 1) res)
      else Inr None)"
  by auto
termination by (relation "measure (\<lambda>(limit, p, i, res). limit - i)") auto

declare varint_skip.simps [simp del]

function varint_slow32 :: "byte list \<Rightarrow> nat \<Rightarrow> uint32 \<Rightarrow> (nat \<times> uint32) option res" where
  "varint_slow32 p i res =
     (if i < 5 then
        bind_res (byte_at p i) (\<lambda>b.
          let byte = ucast b; res' = res + push_bit (7 * i) (byte - 1) in
          if b < 128 then Inr (Some (i + 1, res')) else varint_slow32 p (i + 1) res')
      else varint_skip 10 p 5 res)"
  by auto
termination by (relation "measure (\<lambda>(p, i, res). 5 - i)") auto

declare varint_slow32.simps [simp del]

definition VarintParseSlow32 :: "byte list \<Rightarrow> uint32 \<Rightarrow> (nat \<times> uint32) option res" where
  "VarintParseSlow32 p res = varint_slow32 p 2 res"

definition VarintParseSlow64 :: "byte list \<Rightarrow> uint32 \<Rightarrow> (nat \<times> uint64) option res" where
  "VarintParseSlow64 p res32 = varint_slow 10 p 2 (ucast res32)"

definition VarintParse64 :: "byte list \<Rightarrow> (nat \<times> uint64) option res" where
  "VarintParse64 p =
     bind_res (byte_at p 0) (\<lambda>b0.
       let res = (ucast b0 :: uint32) in
       if res AND 0x80 = 0 then Inr (Some (1, ucast res))
       else bind_res (byte_at p 1) (\<lambda>b1.
         let byte = (ucast b1 :: uint32); res = res + push_bit 7 (byte - 1) in
         if byte AND 0x80 = 0 then Inr (Some (2, ucast res)) else VarintParseSlow64 p res))"

definition VarintParse32 :: "byte list \<Rightarrow> (nat \<times> uint32) option res" where
  "VarintParse32 p =
     bind_res (byte_at p 0) (\<lambda>b0.
       let res = (ucast b0 :: uint32) in
       if res AND 0x80 = 0 then Inr (Some (1, res))
       else bind_res (byte_at p 1) (\<lambda>b1.
         let byte = (ucast b1 :: uint32); res = res + push_bit 7 (byte - 1) in
         if byte AND 0x80 = 0 then Inr (Some (2, res)) else VarintParseSlow32 p res))"

definition ReadTagFallback :: "byte list \<Rightarrow> uint32 \<Rightarrow> (nat \<times> uint32) option res" where
  "ReadTagFallback p res = varint_slow 5 p 2 res"

definition ReadTag :: "byte list \<Rightarrow> (nat \<times> uint32) option res" where
  "ReadTag p =
     bind_res (byte_at p 0) (\<lambda>b0.
       let res = (ucast b0 :: uint32) in
       if res < 128 then Inr (Some (1, res))
       else bind_res (byte_at p 1) (\<lambda>b1.
         let second = (ucast b1 :: uint32); res = res + push_bit 7 (second - 1) in
         if second < 128 then Inr (Some (2, res)) else ReadTagFallback p res))"

definition kSlopBytes :: int where
  "kSlopBytes = 16"

function read_size_loop :: "byte list \<Rightarrow> nat \<Rightarrow> uint32 \<Rightarrow> (nat \<times> uint32) option res" where
  "read_size_loop p i res =
     (if i < 4 then
        bind_res (byte_at p i) (\<lambda>b.
          let byte = ucast b; res' = res + push_bit (7 * i) (byte - 1) in
          if b < 128 then Inr (Some (i + 1, res')) else read_size_loop p (i + 1) res')
      else
        bind_res (byte_at p 4) (\<lambda>b.
          if 8 \<le> b then Inr None
          else
            let res' = res + push_bit 28 (ucast b - 1) in
            if uint res' > INT_MAX - kSlopBytes then Inr None else Inr (Some (5, res'))))"
  by auto
termination by (relation "measure (\<lambda>(p, i, res). 4 - i)") auto

declare read_size_loop.simps [simp del]

definition ReadSizeFallback :: "byte list \<Rightarrow> uint32 \<Rightarrow> (nat \<times> uint32) option res" where
  "ReadSizeFallback p res = read_size_loop p 1 res"

definition ReadSize :: "byte list \<Rightarrow> (nat \<times> uint32) option res" where
  "ReadSize p =
     bind_res (byte_at p 0) (\<lambda>b0.
       let res = (ucast b0 :: uint32) in
       if res < 128 then Inr (Some (1, res)) else ReadSizeFallback p res)"

section \<open>They all compute the reference value\<close>

lemma push_bit_byte:
  "(word_of_nat (V + 128 ^ i) :: 'w::len word) + push_bit (7 * i) (ucast (b :: byte) - 1) =
     word_of_nat (V + 128 ^ i * unat b)"
proof -
  have u: "(ucast b :: 'w word) = word_of_nat (unat b)" by simp
  have p: "(2 :: 'w word) ^ (7 * i) = word_of_nat (128 ^ i)"
    by (simp add: power_mult)
  show ?thesis
    unfolding push_bit_eq_mult p u by (simp add: algebra_simps)
qed

definition wval :: "nat \<Rightarrow> nat \<Rightarrow> (nat \<times> nat) option \<Rightarrow> (nat \<times> 'w::len word) option" where
  "wval i V d = map_option (\<lambda>(n, v). (i + n, word_of_nat (V + 128 ^ i * v))) d"

lemma wval_cons:
  "wval i V (map_option (\<lambda>(n, v). (Suc n, unat b - 128 + 128 * v)) d) =
    wval (Suc i) (V + 128 ^ i * (unat b - 128)) d"
proof -
  have "V + 128 ^ i * (unat b - 128 + 128 * v) = V + 128 ^ i * (unat b - 128) + 128 ^ Suc i * v" for v
    by (simp add: algebra_simps)
  then show ?thesis by (cases d) (auto simp: wval_def add.assoc simp del: of_nat_add of_nat_mult of_nat_power)
qed

lemma continue_value:
  "\<not> (b :: byte) < 128 \<Longrightarrow> V + 128 ^ i * unat b = V + 128 ^ i * (unat b - 128) + 128 ^ Suc i"
proof -
  assume "\<not> b < 128"
  then have "128 \<le> unat b" by (simp add: word_less_nat_alt)
  then obtain k where "unat b = 128 + k" using le_Suc_ex by blast
  then show ?thesis by (simp add: algebra_simps)
qed

lemma varint_slow_value:
  "i \<le> limit \<Longrightarrow> limit \<le> length p \<Longrightarrow>
    varint_slow limit p i (word_of_nat (V + 128 ^ i) :: 'w::len word) =
      Inr (wval i V (varint_value (limit - i) (drop i p)))"
proof (induction "limit - i" arbitrary: i V)
  case 0
  then show ?case by (simp add: varint_slow.simps wval_def)
next
  case (Suc k)
  then have i: "i < limit" "i < length p" by auto
  then have d: "drop i p = p ! i # drop (Suc i) p" by (simp add: Cons_nth_drop_Suc)
  have k: "limit - i = Suc k" "limit - Suc i = k" using Suc.hyps(2) by auto
  have res: "(word_of_nat (V + 128 ^ i) :: 'w word) + push_bit (7 * i) (ucast (p ! i) - 1) =
      word_of_nat (V + 128 ^ i * unat (p ! i))" by (rule push_bit_byte)
  show ?case
  proof (cases "p ! i < 128")
    case True
    then show ?thesis using i by (subst varint_slow.simps) (simp add: byte_at_def k d res wval_def del: of_nat_add of_nat_mult of_nat_power)
  next
    case False
    have "varint_slow limit p i (word_of_nat (V + 128 ^ i) :: 'w word) =
        varint_slow limit p (Suc i) (word_of_nat (V + 128 ^ i * unat (p ! i)))"
      using i False by (subst varint_slow.simps)
        (simp add: byte_at_def Let_def res del: of_nat_add of_nat_mult of_nat_power)
    also have "\<dots> = Inr (wval (Suc i) (V + 128 ^ i * (unat (p ! i) - 128))
        (varint_value (limit - Suc i) (drop (Suc i) p)))"
      unfolding continue_value [OF False]
      using Suc.hyps(1) [of "Suc i" "V + 128 ^ i * (unat (p ! i) - 128)"] k Suc.prems i by simp
    finally show ?thesis using False by (simp add: k d wval_cons)
  qed
qed

text \<open>Two ways to test the continuation bit.\<close>

lemma bit7_byte: "bit (b :: byte) 7 \<longleftrightarrow> \<not> b < 128"
proof -
  have "bit b 7 \<longleftrightarrow> bit (unat b) 7" by (simp add: bit_unsigned_iff)
  also have "\<dots> \<longleftrightarrow> odd (unat b div 128)" by (simp add: bit_iff_odd)
  also have "\<dots> \<longleftrightarrow> \<not> unat b < 128"
  proof (cases "unat b < 128")
    case False
    with unat_less_256 [of b] have "unat b div 128 = 1" by linarith
    with False show ?thesis by simp
  qed simp
  finally show ?thesis by (simp add: word_less_nat_alt)
qed

lemma and_0x80_byte: "(ucast (b :: byte) :: uint32) AND 0x80 = 0 \<longleftrightarrow> b < 128"
proof -
  have "(ucast b :: uint32) AND 2 ^ 7 = 0 \<longleftrightarrow> \<not> bit (ucast b :: uint32) 7"
    by (rule and_exp_eq_0_iff_not_bit)
  then show ?thesis by (simp add: bit_simps bit7_byte)
qed

lemma unat_ucast_byte: "unat (ucast (b :: byte) :: uint32) = unat b"
  using unat_less_256 [of b] by (simp add: unsigned_ucast_eq take_bit_nat_eq_self)

lemma less_128_byte: "(ucast (b :: byte) :: uint32) < 128 \<longleftrightarrow> b < 128"
  by (simp add: word_less_nat_alt unat_ucast_byte)

lemma ucast_byte: "(ucast (b :: byte) :: 'w::len word) = word_of_nat (unat b)"
  by simp

lemma ucast_word_of_nat:
  assumes "n < 2 ^ 32"
  shows "(ucast (word_of_nat n :: uint32) :: uint64) = word_of_nat n"
proof (rule word_unat_eq_iff [THEN iffD2])
  have "unat (ucast (word_of_nat n :: uint32) :: uint64) = n mod 2 ^ 32"
    by (simp add: unsigned_ucast_eq take_bit_eq_mod unat_of_nat)
  also have "\<dots> = unat (word_of_nat n :: uint64)" using assms by (simp add: unat_of_nat)
  finally show "unat (ucast (word_of_nat n :: uint32) :: uint64) = unat (word_of_nat n :: uint64)" .
qed

lemma ucast_ucast_byte: "(ucast (ucast (b :: byte) :: uint32) :: uint64) = ucast b"
  by (rule bit_word_eqI) (auto simp: bit_simps dest: bit_imp_le_length)

lemma second_byte:
  assumes "\<not> (b0 :: byte) < 128"
  shows "ucast b0 + push_bit 7 (ucast (b1 :: byte) - 1) =
    (word_of_nat (unat b0 - 128 + 128 * unat b1) :: 'w::len word)"
proof -
  have "unat b0 = (unat b0 - 128) + 128 ^ 1" using assms by (simp add: word_less_nat_alt)
  then have "(ucast b0 :: 'w word) = word_of_nat (unat b0 - 128 + 128 ^ 1)"
    using ucast_byte [of b0] by metis
  then show ?thesis
    using push_bit_byte [of "unat b0 - 128" 1 b1, where 'w = 'w]
    by (simp del: of_nat_add of_nat_mult)
qed

lemma two_bytes:
  assumes "2 \<le> length p"
  obtains b0 b1 q where "byte_at p 0 = Inr b0" and "byte_at p 1 = Inr b1" and "p = b0 # b1 # q"
proof -
  from assms obtain b0 b1 q where "p = b0 # b1 # q" by (cases p; cases "tl p") auto
  then show ?thesis by (intro that [of b0 b1 q]) (simp_all add: byte_at_def)
qed

lemma two_more:
  assumes "\<not> (b0 :: byte) < 128" and "\<not> (b1 :: byte) < 128"
  shows "unat b0 - 128 + 128 * unat b1 = (unat b0 - 128 + 128 * (unat b1 - 128)) + 128 ^ 2"
  using continue_value [OF assms(2), of "unat b0 - 128" 1] by simp

lemma wval_two:
  assumes "\<not> (b0 :: byte) < 128" and "\<not> (b1 :: byte) < 128"
  shows "(wval 0 0 (varint_value (Suc (Suc k)) (b0 # b1 # bs)) :: (nat \<times> 'w::len word) option) =
    wval 2 (unat b0 - 128 + 128 * (unat b1 - 128)) (varint_value k bs)"
proof -
  have "(wval 0 0 (varint_value (Suc (Suc k)) (b0 # b1 # bs)) :: (nat \<times> 'w word) option) =
      wval 1 (unat b0 - 128) (varint_value (Suc k) (b1 # bs))"
    using assms(1) wval_cons [of 0 0 b0 "varint_value (Suc k) (b1 # bs)"] by simp
  also have "\<dots> = wval 2 (unat b0 - 128 + 128 ^ 1 * (unat b1 - 128)) (varint_value k bs)"
    using assms(2) wval_cons [of 1 "unat b0 - 128" b1 "varint_value k bs"]
    by (simp add: numeral_2_eq_2)
  finally show ?thesis by simp
qed

lemma slow_after_two:
  assumes "\<not> (b0 :: byte) < 128" and "\<not> (b1 :: byte) < 128" and "p = b0 # b1 # q"
    and "2 \<le> limit" and "limit \<le> length p"
  shows "varint_slow limit p 2 (word_of_nat (unat b0 - 128 + 128 * unat b1) :: 'w::len word) =
    Inr (wval 0 0 (varint_value limit p))"
proof -
  obtain k where k: "limit = Suc (Suc k)" using assms(4) by (metis Suc_le_D numeral_2_eq_2 Suc_le_mono)
  have "varint_slow limit p 2 (word_of_nat (unat b0 - 128 + 128 * unat b1) :: 'w word) =
      Inr (wval 2 (unat b0 - 128 + 128 * (unat b1 - 128)) (varint_value (limit - 2) (drop 2 p)))"
    unfolding two_more [OF assms(1,2)] using assms(4,5) by (intro varint_slow_value)
  also have "\<dots> = Inr (wval 0 0 (varint_value limit p))"
    using wval_two [OF assms(1,2), of k q, where 'w = 'w] assms(3) k by (simp del: varint_value.simps)
  finally show ?thesis .
qed

text \<open>The value of a reader: the reference's, truncated to the width of the result.\<close>

definition varint_word :: "(nat \<times> nat) option \<Rightarrow> (nat \<times> 'w::len word) option" where
  "varint_word d = map_option (\<lambda>(n, v). (n, word_of_nat v)) d"

lemma wval_0: "wval 0 0 d = varint_word d"
  by (simp add: wval_def varint_word_def)

lemma varint_value_1: "b < 128 \<Longrightarrow> 0 < k \<Longrightarrow> varint_value k (b # q) = Some (1, unat b)"
  by (cases k) simp_all

lemma varint_value_2:
  "\<not> b0 < 128 \<Longrightarrow> b1 < 128 \<Longrightarrow> 1 < k \<Longrightarrow>
    varint_value k (b0 # b1 # q) = Some (2, unat b0 - 128 + 128 * unat b1)"
  by (cases k; cases "k - 1") simp_all

lemma VarintParse64_value:
  assumes "10 \<le> length p"
  shows "VarintParse64 p = Inr (varint_word (varint_value 10 p))"
proof -
  obtain b0 b1 q where b: "byte_at p 0 = Inr b0" "byte_at p 1 = Inr b1" and p: "p = b0 # b1 # q"
    by (rule two_bytes [of p]) (use assms in auto)
  show ?thesis
  proof (cases "b0 < 128")
    case True
    then show ?thesis
      using b(1) by (simp add: p VarintParse64_def Let_def and_0x80_byte varint_value_1
          varint_word_def ucast_ucast_byte)
  next
    case f: False
    let ?res = "word_of_nat (unat b0 - 128 + 128 * unat b1) :: uint32"
    have lt: "unat b0 - 128 + 128 * unat b1 < 2 ^ 32"
      using unat_less_256 [of b0] unat_less_256 [of b1] by simp
    show ?thesis
    proof (cases "b1 < 128")
      case True
      have "VarintParse64 p = Inr (Some (2, ucast ?res))"
        using b f True by (simp add: VarintParse64_def Let_def and_0x80_byte second_byte
            del: of_nat_add of_nat_mult)
      moreover have "varint_value 10 p = Some (2, unat b0 - 128 + 128 * unat b1)"
        using f True by (simp add: p varint_value_2)
      ultimately show ?thesis
        by (simp add: varint_word_def ucast_word_of_nat [OF lt] del: of_nat_add of_nat_mult)
    next
      case False
      have "VarintParse64 p = VarintParseSlow64 p ?res"
        using b f False by (simp add: VarintParse64_def Let_def and_0x80_byte second_byte
            del: of_nat_add of_nat_mult)
      then show ?thesis
        using slow_after_two [OF f False p _ assms, where 'w = 64]
        by (simp add: VarintParseSlow64_def ucast_word_of_nat [OF lt] wval_0 del: of_nat_add of_nat_mult)
    qed
  qed
qed

lemma ReadTag_value:
  assumes "5 \<le> length p"
  shows "ReadTag p = Inr (varint_word (varint_value 5 p))"
proof -
  obtain b0 b1 q where b: "byte_at p 0 = Inr b0" "byte_at p 1 = Inr b1" and p: "p = b0 # b1 # q"
    by (rule two_bytes [of p]) (use assms in auto)
  show ?thesis
  proof (cases "b0 < 128")
    case True
    then show ?thesis
      using b(1) by (simp add: p ReadTag_def Let_def less_128_byte varint_value_1 varint_word_def)
  next
    case f: False
    show ?thesis
    proof (cases "b1 < 128")
      case True
      then show ?thesis
        using b f by (simp add: p ReadTag_def Let_def less_128_byte second_byte varint_value_2 varint_word_def
            del: of_nat_add of_nat_mult)
    next
      case False
      have "ReadTag p = ReadTagFallback p (word_of_nat (unat b0 - 128 + 128 * unat b1))"
        using b f False by (simp add: ReadTag_def Let_def less_128_byte second_byte
            del: of_nat_add of_nat_mult)
      then show ?thesis
        using slow_after_two [OF f False p _ assms, where 'w = 32]
        by (simp add: ReadTagFallback_def wval_0)
    qed
  qed
qed

text \<open>The bytes after the fifth only count.\<close>

lemma varint_skip_value:
  "i \<le> limit \<Longrightarrow> limit \<le> length p \<Longrightarrow>
    varint_skip limit p i res = Inr (map_option (\<lambda>(n, v). (i + n, res)) (varint_value (limit - i) (drop i p)))"
proof (induction "limit - i" arbitrary: i)
  case 0
  then show ?case by (simp add: varint_skip.simps)
next
  case (Suc k)
  then have i: "i < limit" "i < length p" by auto
  then have d: "drop i p = p ! i # drop (Suc i) p" by (simp add: Cons_nth_drop_Suc)
  have k: "limit - i = Suc k" "limit - Suc i = k" using Suc.hyps(2) by auto
  show ?case
  proof (cases "p ! i < 128")
    case True
    then show ?thesis using i by (subst varint_skip.simps) (simp add: byte_at_def k d)
  next
    case False
    then have "varint_skip limit p i res = varint_skip limit p (Suc i) res"
      using i by (subst varint_skip.simps) (simp add: byte_at_def)
    also have "\<dots> = Inr (map_option (\<lambda>(n, v). (Suc i + n, res))
        (varint_value (limit - Suc i) (drop (Suc i) p)))"
      using Suc.hyps(1) [of "Suc i"] k Suc.prems i by simp
    finally show ?thesis
      using False by (cases "varint_value k (drop (Suc i) p)") (auto simp: k d)
  qed
qed

lemma wval_high:
  assumes "5 \<le> i"
  shows "(wval i V d :: (nat \<times> uint32) option) = map_option (\<lambda>(n, v). (i + n, word_of_nat V)) d"
proof -
  obtain j where i: "i = 5 + j" using assms le_Suc_ex by blast
  have "(word_of_nat (128 ^ i * v) :: uint32) = 0" for v
  proof -
    have "128 ^ i * v = 2 ^ 32 * (8 * 128 ^ j * v)" by (simp add: i power_add)
    then have "(word_of_nat (128 ^ i * v) :: uint32) = 2 ^ 32 * word_of_nat (8 * 128 ^ j * v)"
      by (metis of_nat_mult of_nat_numeral of_nat_power)
    also have "(2 :: uint32) ^ 32 = 0" by simp
    finally show ?thesis by simp
  qed
  then show ?thesis by (simp add: wval_def)
qed

lemma varint_slow32_value:
  "i \<le> 5 \<Longrightarrow> 10 \<le> length p \<Longrightarrow>
    varint_slow32 p i (word_of_nat (V + 128 ^ i)) = Inr (wval i V (varint_value (10 - i) (drop i p)))"
proof (induction "5 - i" arbitrary: i V)
  case 0
  then have i: "i = 5" by simp
  have "(word_of_nat (V + 128 ^ 5) :: uint32) = word_of_nat V"
    by simp
  then show ?case
    using 0 varint_skip_value [of 5 10 p "word_of_nat V :: uint32"]
    by (subst varint_slow32.simps) (simp add: i wval_high del: of_nat_add)
next
  case (Suc k)
  then have i: "i < 5" "i < length p" by auto
  then have d: "drop i p = p ! i # drop (Suc i) p" by (simp add: Cons_nth_drop_Suc)
  have m: "10 - i = Suc (9 - i)" "10 - Suc i = 9 - i" using i by arith+
  have res: "(word_of_nat (V + 128 ^ i) :: uint32) + push_bit (7 * i) (ucast (p ! i) - 1) =
      word_of_nat (V + 128 ^ i * unat (p ! i))" by (rule push_bit_byte)
  show ?case
  proof (cases "p ! i < 128")
    case True
    then show ?thesis
      using i by (subst varint_slow32.simps)
        (simp add: byte_at_def m d res wval_def del: of_nat_add of_nat_mult of_nat_power)
  next
    case False
    have "varint_slow32 p i (word_of_nat (V + 128 ^ i)) =
        varint_slow32 p (Suc i) (word_of_nat (V + 128 ^ i * unat (p ! i)))"
      using i False by (subst varint_slow32.simps)
        (simp add: byte_at_def Let_def res del: of_nat_add of_nat_mult of_nat_power)
    also have "\<dots> = Inr (wval (Suc i) (V + 128 ^ i * (unat (p ! i) - 128))
        (varint_value (10 - Suc i) (drop (Suc i) p)))"
      unfolding continue_value [OF False]
      using Suc.hyps(1) [of "Suc i" "V + 128 ^ i * (unat (p ! i) - 128)"] Suc.hyps(2) Suc.prems i
      by simp
    finally show ?thesis using False by (simp add: m d wval_cons)
  qed
qed

lemma VarintParse32_value:
  assumes "10 \<le> length p"
  shows "VarintParse32 p = Inr (varint_word (varint_value 10 p))"
proof -
  obtain b0 b1 q where b: "byte_at p 0 = Inr b0" "byte_at p 1 = Inr b1" and p: "p = b0 # b1 # q"
    by (rule two_bytes [of p]) (use assms in auto)
  show ?thesis
  proof (cases "b0 < 128")
    case True
    then show ?thesis
      using b(1) by (simp add: p VarintParse32_def Let_def and_0x80_byte varint_value_1 varint_word_def)
  next
    case f: False
    show ?thesis
    proof (cases "b1 < 128")
      case True
      then show ?thesis
        using b f by (simp add: p VarintParse32_def Let_def and_0x80_byte second_byte varint_value_2
            varint_word_def del: of_nat_add of_nat_mult)
    next
      case False
      have "VarintParse32 p = varint_slow32 p 2 (word_of_nat (unat b0 - 128 + 128 * unat b1))"
        using b f False by (simp add: VarintParse32_def VarintParseSlow32_def Let_def and_0x80_byte
            second_byte del: of_nat_add of_nat_mult)
      also have "\<dots> = Inr (wval 2 (unat b0 - 128 + 128 * (unat b1 - 128)) (varint_value 8 q))"
        unfolding two_more [OF f False]
        using varint_slow32_value [of 2 p "unat b0 - 128 + 128 * (unat b1 - 128)"] assms
        by (simp add: p)
      also have "\<dots> = Inr (wval 0 0 (varint_value (Suc (Suc 8)) p))"
        unfolding p wval_two [OF f False] ..
      finally show ?thesis by (simp add: wval_0)
    qed
  qed
qed

text \<open>
  A size is refused when it is absurdly large, and by the fifth byte when it would not fit an
  \<^verbatim>\<open>int\<close>.
\<close>

definition size_limit :: "(nat \<times> nat) option \<Rightarrow> (nat \<times> nat) option" where
  "size_limit d = Option.bind d (\<lambda>(n, v). if int v \<le> INT_MAX - kSlopBytes then Some (n, v) else None)"

definition size_result :: "nat \<Rightarrow> nat \<Rightarrow> (nat \<times> nat) option \<Rightarrow> (nat \<times> uint32) option" where
  "size_result i V d = varint_word (size_limit (map_option (\<lambda>(n, v). (i + n, V + 128 ^ i * v)) d))"

lemma size_result_cons:
  "size_result i V (map_option (\<lambda>(n, v). (Suc n, unat b - 128 + 128 * v)) d) =
    size_result (Suc i) (V + 128 ^ i * (unat b - 128)) d"
proof -
  have "V + 128 ^ i * (unat b - 128 + 128 * v) = V + 128 ^ i * (unat b - 128) + 128 ^ Suc i * v" for v
    by (simp add: algebra_simps)
  then show ?thesis by (cases d) (auto simp: size_result_def add.assoc simp del: power_Suc)
qed

lemma read_size_loop_value:
  "i \<le> 4 \<Longrightarrow> 5 \<le> length p \<Longrightarrow> V < 128 ^ i \<Longrightarrow>
    read_size_loop p i (word_of_nat (V + 128 ^ i)) = Inr (size_result i V (varint_value (5 - i) (drop i p)))"
proof (induction "4 - i" arbitrary: i V)
  case 0
  then have i: "i = 4" by simp
  have "drop 4 p = p ! 4 # drop (Suc 4) p"
    by (rule Cons_nth_drop_Suc [symmetric]) (use 0(3) in simp)
  then have d: "drop 4 p = p ! 4 # drop 5 p" by simp
  let ?b = "unat (p ! 4)"
  have res: "(word_of_nat (V + 128 ^ 4) :: uint32) + push_bit 28 (ucast (p ! 4) - 1) =
      word_of_nat (V + 128 ^ 4 * ?b)"
    using push_bit_byte [of V 4 "p ! 4", where 'w = 32] by simp
  have val: "varint_value (5 - i) (drop i p) = (if p ! 4 < 128 then Some (1, ?b) else None)"
    by (simp add: i d)
  show ?case
  proof (cases "8 \<le> p ! 4")
    case True
    then have "8 \<le> ?b" by (simp add: word_le_nat_alt)
    then have "8 * 128 ^ 4 \<le> V + 128 ^ 4 * ?b" by simp
    then have "int (8 * 128 ^ 4) \<le> int (V + 128 ^ 4 * ?b)" by (simp only: of_nat_le_iff)
    then have "\<not> int (V + 128 ^ 4 * ?b) \<le> INT_MAX - kSlopBytes"
      unfolding INT_MAX_def kSlopBytes_def by simp
    with True 0 show ?thesis
      unfolding val by (subst read_size_loop.simps)
        (simp add: i byte_at_def size_result_def size_limit_def varint_word_def)
  next
    case False
    then have "?b < 8" by (simp add: word_le_nat_alt)
    then have small: "p ! 4 < 128" "V + 128 ^ 4 * ?b < 2 ^ 31"
      using 0 i by (auto simp: word_less_nat_alt)
    then have u: "uint (word_of_nat (V + 128 ^ 4 * ?b) :: uint32) = int (V + 128 ^ 4 * ?b)"
      by (simp add: uint_nat unat_of_nat del: of_nat_add of_nat_mult of_nat_power)
    have "read_size_loop p 4 (word_of_nat (V + 128 ^ 4)) =
        (if int (V + 128 ^ 4 * ?b) > INT_MAX - kSlopBytes then Inr None
         else Inr (Some (5, word_of_nat (V + 128 ^ 4 * ?b))))"
      using False 0(3) res u by (subst read_size_loop.simps)
        (simp add: byte_at_def Let_def del: of_nat_add of_nat_mult of_nat_power)
    then show ?thesis
      unfolding val using small(1)
      by (simp add: i size_result_def size_limit_def varint_word_def not_le
          del: of_nat_add of_nat_mult of_nat_power)
  qed
next
  case (Suc k)
  then have i: "i < 4" "i < length p" by auto
  then have d: "drop i p = p ! i # drop (Suc i) p" by (simp add: Cons_nth_drop_Suc)
  have m: "5 - i = Suc (4 - i)" "5 - Suc i = 4 - i" using i by arith+
  have res: "(word_of_nat (V + 128 ^ i) :: uint32) + push_bit (7 * i) (ucast (p ! i) - 1) =
      word_of_nat (V + 128 ^ i * unat (p ! i))" by (rule push_bit_byte)
  show ?case
  proof (cases "p ! i < 128")
    case True
    then have b: "unat (p ! i) \<le> 127" by (simp add: word_less_nat_alt)
    then have "128 ^ i * unat (p ! i) \<le> 128 ^ i * 127" by (rule mult_le_mono2)
    then have "V + 128 ^ i * unat (p ! i) < 128 ^ i + 128 ^ i * 127"
      using Suc.prems(3) by (rule add_less_le_mono [rotated])
    then have "V + 128 ^ i * unat (p ! i) < 128 ^ Suc i" by simp
    also have "(128 :: nat) ^ Suc i \<le> 128 ^ 4" using i by (intro power_increasing) auto
    finally have "int (V + 128 ^ i * unat (p ! i)) \<le> INT_MAX - kSlopBytes"
      by (simp add: INT_MAX_def kSlopBytes_def del: of_nat_add of_nat_mult of_nat_power)
    with True show ?thesis
      using i by (subst read_size_loop.simps)
        (simp add: byte_at_def m d res size_result_def size_limit_def varint_word_def
          del: of_nat_add of_nat_mult of_nat_power)
  next
    case False
    then have b: "unat (p ! i) - 128 \<le> 127" using unat_less_256 [of "p ! i"] by simp
    have "read_size_loop p i (word_of_nat (V + 128 ^ i)) =
        read_size_loop p (Suc i) (word_of_nat (V + 128 ^ i * unat (p ! i)))"
      using i False by (subst read_size_loop.simps)
        (simp add: byte_at_def Let_def res del: of_nat_add of_nat_mult of_nat_power)
    also have "\<dots> = Inr (size_result (Suc i) (V + 128 ^ i * (unat (p ! i) - 128))
        (varint_value (5 - Suc i) (drop (Suc i) p)))"
    proof -
      have "128 ^ i * (unat (p ! i) - 128) \<le> 128 ^ i * 127" using b by (rule mult_le_mono2)
      then have "V + 128 ^ i * (unat (p ! i) - 128) < 128 ^ i + 128 ^ i * 127"
        using Suc.prems(3) by (rule add_less_le_mono [rotated])
      then have "V + 128 ^ i * (unat (p ! i) - 128) < 128 ^ Suc i" by simp
      then show ?thesis
        unfolding continue_value [OF False]
        using Suc.hyps(1) [of "Suc i" "V + 128 ^ i * (unat (p ! i) - 128)"] Suc.hyps(2) Suc.prems i
        by (simp del: power_Suc)
    qed
    finally show ?thesis using False by (simp add: m d size_result_cons)
  qed
qed

lemma ReadSize_value:
  assumes "5 \<le> length p"
  shows "ReadSize p = Inr (varint_word (size_limit (varint_value 5 p)))"
proof -
  obtain b0 b1 q where b: "byte_at p 0 = Inr b0" and p: "p = b0 # b1 # q"
    by (rule two_bytes [of p]) (use assms in auto)
  show ?thesis
  proof (cases "b0 < 128")
    case True
    have "int (unat b0) \<le> INT_MAX - kSlopBytes"
      using unat_less_256 [of b0] unfolding INT_MAX_def kSlopBytes_def by linarith
    with True show ?thesis
      using b by (simp add: p ReadSize_def Let_def less_128_byte varint_value_1 varint_word_def
          size_limit_def)
  next
    case False
    then have u: "unat b0 = (unat b0 - 128) + 128 ^ 1" by (simp add: word_less_nat_alt)
    have lt: "unat b0 - 128 < 128 ^ 1" using unat_less_256 [of b0] by simp
    have "ReadSize p = read_size_loop p 1 (word_of_nat (unat b0))"
      using b False by (simp add: ReadSize_def ReadSizeFallback_def Let_def less_128_byte)
    also have "\<dots> = Inr (size_result 1 (unat b0 - 128) (varint_value 4 (b1 # q)))"
      using read_size_loop_value [of 1 p, OF _ assms lt, folded u] by (simp add: p)
    also have "\<dots> = Inr (size_result 0 0 (varint_value 5 p))"
    proof -
      have "varint_value 5 p = map_option (\<lambda>(n, v). (Suc n, unat b0 - 128 + 128 * v)) (varint_value 4 (b1 # q))"
        using False varint_value.simps(3) [of 4 b0 "b1 # q"] by (simp add: p)
      then show ?thesis using size_result_cons [of 0 0 b0 "varint_value 4 (b1 # q)"] by simp
    qed
    finally show ?thesis
      by (cases "varint_value 5 p") (auto simp: size_result_def)
  qed
qed

end
