(* ===== verification/Wire_Writers.thy ===== *)
theory Wire_Writers
  imports Wire_Varint
begin

unbundle bit_operations_syntax

text \<open>
  The writing side of the variable-length integers: \<^verbatim>\<open>io/coded_stream.{h,cc}\<close> and
  \<^verbatim>\<open>parse_context.cc\<close> write through a pointer, first the seven low bits and afterwards
  the continuation bit of the byte before; the size of an integer is computed in advance from its
  highest bit (\<^verbatim>\<open>stubs/port.h\<close>). Also the tags and the zigzag mapping of
  \<^verbatim>\<open>wire_format_lite.h\<close>, and fixed-width integers. A target is a block of memory and an
  offset.
\<close>

section \<open>Writing through a pointer\<close>

definition store :: "nat \<Rightarrow> byte \<Rightarrow> byte list \<Rightarrow> byte list res" where
  "store p b m = (if p < length m then Inr (m[p := b]) else Inl OutOfBounds)"

definition store_or :: "nat \<Rightarrow> byte \<Rightarrow> byte list \<Rightarrow> byte list res" where
  "store_or p b m = bind_res (byte_at m p) (\<lambda>a. store p (a OR b) m)"

lemma unat_shift7: "unat (drop_bit 7 (value :: 'w::len word)) = unat value div 128"
  by (simp only: unat_drop_bit_eq) (simp add: drop_bit_eq_div)

text \<open>The \<^verbatim>\<open>do while\<close> loop at the end of the writers; \<open>T\<close> is the type of the value.\<close>

function varint_loop :: "'w::len word \<Rightarrow> nat \<Rightarrow> byte list \<Rightarrow> (nat \<times> byte list) res" where
  "varint_loop value ptr m =
     bind_res (store_or (ptr - 1) 0x80 m) (\<lambda>m1.
       let value' = drop_bit 7 value in
       bind_res (store ptr (ucast value') m1) (\<lambda>m2.
         if 0x80 \<le> unat value' then varint_loop value' (ptr + 1) m2 else Inr (ptr + 1, m2)))"
  by auto
termination by (relation "measure (\<lambda>(value, ptr, m). unat value)") (auto simp: unat_shift7)

declare varint_loop.simps [simp del]

definition UnsafeVarint :: "'w::len word \<Rightarrow> nat \<Rightarrow> byte list \<Rightarrow> (nat \<times> byte list) res" where
  "UnsafeVarint value ptr m =
     bind_res (store ptr (ucast value) m) (\<lambda>m1.
       if unat value < 0x80 then Inr (ptr + 1, m1)
       else
         bind_res (store_or ptr 0x80 m1) (\<lambda>m2.
           let value1 = drop_bit 7 value in
           bind_res (store (ptr + 1) (ucast value1) m2) (\<lambda>m3.
             if unat value1 < 0x80 then Inr (ptr + 2, m3) else varint_loop value1 (ptr + 2) m3)))"

definition WriteVarint32ToArrayOutOfLineHelper :: "uint32 \<Rightarrow> nat \<Rightarrow> byte list \<Rightarrow> (nat \<times> byte list) res" where
  "WriteVarint32ToArrayOutOfLineHelper value target m =
     bind_res (store_or target 0x80 m) (\<lambda>m2.
       let value1 = drop_bit 7 value in
       bind_res (store (target + 1) (ucast value1) m2) (\<lambda>m3.
         if unat value1 < 0x80 then Inr (target + 2, m3) else varint_loop value1 (target + 2) m3))"

definition WriteVarint32ToArrayOutOfLine :: "uint32 \<Rightarrow> nat \<Rightarrow> byte list \<Rightarrow> (nat \<times> byte list) res" where
  "WriteVarint32ToArrayOutOfLine value target m =
     bind_res (store target (ucast value) m) (\<lambda>m1.
       if unat value < 0x80 then Inr (target + 1, m1)
       else WriteVarint32ToArrayOutOfLineHelper value target m1)"

text \<open>\<^verbatim>\<open>WriteVarint32ToArray\<close> and \<^verbatim>\<open>WriteTagToArray\<close>, \<^verbatim>\<open>WriteVarint64ToArray\<close>.\<close>

definition WriteVarint32ToArray :: "uint32 \<Rightarrow> nat \<Rightarrow> byte list \<Rightarrow> (nat \<times> byte list) res" where
  "WriteVarint32ToArray value target m = UnsafeVarint value target m"

definition WriteVarint64ToArray :: "uint64 \<Rightarrow> nat \<Rightarrow> byte list \<Rightarrow> (nat \<times> byte list) res" where
  "WriteVarint64ToArray value target m = UnsafeVarint value target m"

function UnsafeWriteSize :: "uint32 \<Rightarrow> nat \<Rightarrow> byte list \<Rightarrow> (nat \<times> byte list) res" where
  "UnsafeWriteSize value ptr m =
     (if 0x80 \<le> unat value then
        bind_res (store ptr (ucast (value OR 0x80)) m) (\<lambda>m1.
          UnsafeWriteSize (drop_bit 7 value) (ptr + 1) m1)
      else bind_res (store ptr (ucast value) m) (\<lambda>m1. Inr (ptr + 1, m1)))"
  by auto
termination by (relation "measure (\<lambda>(value, ptr, m). unat value)") (auto simp: unat_shift7)

declare UnsafeWriteSize.simps [simp del]

text \<open>\<^verbatim>\<open>WriteVarint(uint64_t, std::string*)\<close> appends.\<close>

function WriteVarint :: "uint64 \<Rightarrow> byte list \<Rightarrow> byte list" where
  "WriteVarint val s =
     (if 128 \<le> unat val then WriteVarint (drop_bit 7 val) (s @ [ucast (val OR 0x80)])
      else s @ [ucast val])"
  by auto
termination by (relation "measure (\<lambda>(val, s). unat val)") (auto simp: unat_shift7)

declare WriteVarint.simps [simp del]

section \<open>All writers write the reference encoding\<close>

lemma or_0x80:
  "(word_of_nat n :: byte) OR 0x80 = word_of_nat (n mod 128 + 128)"
proof -
  have "\<not> bit (n mod 2 ^ 7) 7" by (simp add: bit_iff_odd)
  then have "n mod 128 + 128 = set_bit 7 (n mod 2 ^ 7)" by (simp add: set_bit_eq)
  also have "n mod 2 ^ 7 = take_bit 7 n" by (simp add: take_bit_eq_mod)
  finally have e: "n mod 128 + 128 = set_bit 7 (take_bit 7 n)" .
  have "(word_of_nat n :: byte) OR 2 ^ 7 = word_of_nat (set_bit 7 (take_bit 7 n))"
    by (rule bit_word_eqI, auto simp only: bit_or_iff bit_of_nat_iff bit_set_bit_iff bit_take_bit_iff
        bit_exp_iff len_num0 len_num1 len_bit0 possible_bit_word possible_bit_nat)
  with e show ?thesis by simp
qed

lemma ucast_to_byte: "(ucast (v :: 'w::len word) :: byte) = word_of_nat (unat v)"
  by simp

lemma varint_bytes_cons:
  "128 \<le> n \<Longrightarrow> varint_bytes n = (word_of_nat n OR 0x80) # varint_bytes (n div 128)"
  by (subst varint_bytes.simps) (simp add: or_0x80)

lemma varint_bytes_one: "n < 128 \<Longrightarrow> varint_bytes n = [word_of_nat n]"
  by (simp add: varint_bytes.simps)

text \<open>
  \<open>put p bs m\<close>: the bytes \<open>bs\<close> stored at \<open>p\<close> and the pointer moved behind them, a fault if
  they do not fit.
\<close>

definition put :: "nat \<Rightarrow> byte list \<Rightarrow> byte list \<Rightarrow> (nat \<times> byte list) res" where
  "put p bs m = (if p + length bs \<le> length m then Inr (p + length bs, overwrite p bs m) else Inl OutOfBounds)"

lemma overwrite_cons:
  "p < length m \<Longrightarrow> overwrite p (b # bs) m = overwrite (p + 1) bs (m[p := b])"
  by (simp add: overwrite_def upd_conv_take_nth_drop min_def ac_simps)

lemma put_cons:
  "bind_res (store p b m) (\<lambda>m1. put (p + 1) bs m1) = put p (b # bs) m"
  by (auto simp: store_def put_def overwrite_cons)

lemma put_one: "bind_res (store p b m) (\<lambda>m1. Inr (p + 1, m1)) = put p [b] m"
  by (auto simp: store_def put_def overwrite_def upd_conv_take_nth_drop)

text \<open>Turning on the bit of the byte just written, and going on, is writing the byte with the bit.\<close>

lemma store_then_or:
  "bind_res (store p a m) (\<lambda>m1. bind_res (store_or p b m1) f) = bind_res (store p (a OR b) m) f"
  by (auto simp: store_def store_or_def byte_at_def)

lemma varint_loop_put:
  "0x80 \<le> unat v \<Longrightarrow>
    bind_res (store p (ucast v) m) (\<lambda>m1. varint_loop v (p + 1) m1) =
      put p (varint_bytes (unat v)) m"
proof (induction "unat v" arbitrary: v p m rule: less_induct)
  case less
  let ?w = "drop_bit 7 v"
  have "bind_res (store p (ucast v) m) (\<lambda>m1. varint_loop v (p + 1) m1) =
      bind_res (store p (ucast v OR 0x80) m) (\<lambda>m1. bind_res (store (p + 1) (ucast ?w) m1) (\<lambda>m2.
        if 0x80 \<le> unat ?w then varint_loop ?w (p + 1 + 1) m2 else Inr (p + 1 + 1, m2)))"
    by (subst varint_loop.simps) (simp add: store_then_or Let_def)
  also have "\<dots> = bind_res (store p (ucast v OR 0x80) m) (\<lambda>m1. put (p + 1) (varint_bytes (unat ?w)) m1)"
  proof (cases "0x80 \<le> unat ?w")
    case True
    have "unat ?w < unat v" using less.prems by (simp add: unat_shift7)
    then show ?thesis using less.hyps [OF _ True] True by simp
  next
    case False
    then have "varint_bytes (unat ?w) = [ucast ?w]" by (simp add: varint_bytes_one)
    with False show ?thesis by (simp add: put_one [symmetric])
  qed
  also have "\<dots> = put p (varint_bytes (unat v)) m"
    unfolding put_cons using less.prems by (simp add: varint_bytes_cons unat_shift7)
  finally show ?case .
qed

lemma or_0x80_ucast:
  assumes "8 \<le> LENGTH('w)"
  shows "(ucast (v OR 0x80 :: 'w::len word) :: byte) = ucast v OR 0x80"
proof -
  have "(ucast (v OR 2 ^ 7) :: byte) = ucast v OR 2 ^ 7"
    using assms by (intro bit_word_eqI) (auto simp: bit_simps dest: bit_imp_le_length)
  then show ?thesis by simp
qed

lemma UnsafeVarint_put: "UnsafeVarint v p m = put p (varint_bytes (unat v)) m"
proof (cases "unat v < 0x80")
  case True
  then show ?thesis
    using put_one [of p "ucast v" m] by (simp add: UnsafeVarint_def varint_bytes_one)
next
  case False
  let ?w = "drop_bit 7 v"
  have "UnsafeVarint v p m = bind_res (store p (ucast v OR 0x80) m) (\<lambda>m1.
      bind_res (store (p + 1) (ucast ?w) m1) (\<lambda>m3.
        if unat ?w < 0x80 then Inr (p + 2, m3) else varint_loop ?w (p + 2) m3))"
    using False by (simp add: UnsafeVarint_def store_then_or Let_def)
  also have "\<dots> = bind_res (store p (ucast v OR 0x80) m) (\<lambda>m1. put (p + 1) (varint_bytes (unat ?w)) m1)"
  proof (cases "unat ?w < 0x80")
    case True
    then have "varint_bytes (unat ?w) = [ucast ?w]" by (simp add: varint_bytes_one)
    with True show ?thesis by (simp add: put_one [symmetric])
  next
    case False
    then show ?thesis using varint_loop_put [of ?w "p + 1"] by simp
  qed
  also have "\<dots> = put p (varint_bytes (unat v)) m"
    unfolding put_cons using False by (simp add: varint_bytes_cons unat_shift7)
  finally show ?thesis .
qed

lemma OutOfLine_put:
  "WriteVarint32ToArrayOutOfLine v p m = put p (varint_bytes (unat v)) m"
  unfolding UnsafeVarint_put [symmetric]
  unfolding WriteVarint32ToArrayOutOfLine_def WriteVarint32ToArrayOutOfLineHelper_def UnsafeVarint_def ..

lemma UnsafeWriteSize_put: "UnsafeWriteSize v p m = put p (varint_bytes (unat v)) m"
proof (induction v p m rule: UnsafeWriteSize.induct)
  case (1 v p m)
  show ?case
  proof (cases "0x80 \<le> unat v")
    case True
    have "UnsafeWriteSize (drop_bit 7 v) (p + 1) = put (p + 1) (varint_bytes (unat (drop_bit 7 v)))"
      by (rule ext) (rule 1 [OF True])
    then have "UnsafeWriteSize v p m = bind_res (store p (ucast v OR 0x80) m) (\<lambda>m1.
        put (p + 1) (varint_bytes (unat (drop_bit 7 v))) m1)"
      using True by (subst UnsafeWriteSize.simps) (simp add: or_0x80_ucast)
    also have "\<dots> = put p (varint_bytes (unat v)) m"
      unfolding put_cons using True by (simp add: varint_bytes_cons unat_shift7)
    finally show ?thesis .
  next
    case False
    then show ?thesis
      using put_one [of p "ucast v" m] by (subst UnsafeWriteSize.simps) (simp add: varint_bytes_one)
  qed
qed

lemma WriteVarint_bytes: "WriteVarint v s = s @ varint_bytes (unat v)"
proof (induction v s rule: WriteVarint.induct)
  case (1 v s)
  then show ?case
    by (subst WriteVarint.simps) (simp add: varint_bytes_cons varint_bytes_one or_0x80_ucast unat_shift7)
qed

section \<open>Sizes\<close>

text \<open>The compiler's \<^verbatim>\<open>_BitScanReverse\<close>: the position of the highest bit.\<close>

fun BitScanReverse :: "nat \<Rightarrow> nat" where
  "BitScanReverse n = (if n < 2 then 0 else Suc (BitScanReverse (n div 2)))"

declare BitScanReverse.simps [simp del]

definition Log2FloorNonZero :: "uint32 \<Rightarrow> uint32" where
  "Log2FloorNonZero n = word_of_nat (BitScanReverse (unat n))"

definition Log2FloorNonZero64 :: "uint64 \<Rightarrow> uint32" where
  "Log2FloorNonZero64 n = word_of_nat (BitScanReverse (unat n))"

text \<open>The portable version: a binary search over the shifts 16, 8, 4, 2, 1.\<close>

definition log2_step :: "nat \<Rightarrow> int \<times> uint32 \<Rightarrow> int \<times> uint32" where
  "log2_step i st =
     (case st of (log, n) \<Rightarrow>
        let shift = 2 ^ i; x = drop_bit shift n in
        if x \<noteq> 0 then (log + int shift, x) else (log, n))"

definition Log2FloorNonZero_Portable :: "uint32 \<Rightarrow> int" where
  "Log2FloorNonZero_Portable n = (if n = 0 then - 1 else fst (fold log2_step [4, 3, 2, 1, 0] (0, n)))"

definition Log2FloorNonZero64_Portable :: "uint64 \<Rightarrow> int" where
  "Log2FloorNonZero64_Portable n =
     (let topbits = (ucast (drop_bit 32 n) :: uint32) in
      if topbits = 0 then uint (Log2FloorNonZero (ucast n)) else 32 + uint (Log2FloorNonZero topbits))"

definition VarintSize32 :: "uint32 \<Rightarrow> nat" where
  "VarintSize32 v = (let log2value = Log2FloorNonZero (v OR 1) in unat ((log2value * 9 + 73) div 64))"

definition VarintSize32PlusOne :: "uint32 \<Rightarrow> nat" where
  "VarintSize32PlusOne v = (let log2value = Log2FloorNonZero (v OR 1) in unat ((log2value * 9 + 73 + 64) div 64))"

definition VarintSize64 :: "uint64 \<Rightarrow> nat" where
  "VarintSize64 v = (let log2value = Log2FloorNonZero64 (v OR 1) in unat ((log2value * 9 + 73) div 64))"

definition VarintSize64PlusOne :: "uint64 \<Rightarrow> nat" where
  "VarintSize64PlusOne v = (let log2value = Log2FloorNonZero64 (v OR 1) in unat ((log2value * 9 + 73 + 64) div 64))"

lemma BitScanReverse_bound: "0 < n \<Longrightarrow> 2 ^ BitScanReverse n \<le> n \<and> n < 2 * 2 ^ BitScanReverse n"
proof (induction n rule: BitScanReverse.induct)
  case (1 n)
  show ?case
  proof (cases "n < 2")
    case False
    then have "2 ^ BitScanReverse (n div 2) \<le> n div 2 \<and> n div 2 < 2 * 2 ^ BitScanReverse (n div 2)"
      using 1 by simp
    with False show ?thesis by (subst (1 2) BitScanReverse.simps) auto
  qed (use 1 in \<open>simp add: BitScanReverse.simps\<close>)
qed

lemma BitScanReverse_unique: "2 ^ k \<le> n \<Longrightarrow> n < 2 * 2 ^ k \<Longrightarrow> BitScanReverse n = k"
proof -
  assume a: "2 ^ k \<le> n" "n < 2 * 2 ^ k"
  have "0 < (2 :: nat) ^ k" by simp
  with a(1) have "0 < n" by linarith
  note b = BitScanReverse_bound [OF this]
  have "(2 :: nat) ^ k < 2 ^ Suc (BitScanReverse n)" "(2 :: nat) ^ BitScanReverse n < 2 ^ Suc k"
    using a b by (simp_all only: power_Suc) linarith+
  then have "k < Suc (BitScanReverse n)" "BitScanReverse n < Suc k"
    by (simp_all only: power_strict_increasing_iff)
  then show "BitScanReverse n = k" by simp
qed

lemma BitScanReverse_less: "0 < n \<Longrightarrow> n < 2 ^ k \<Longrightarrow> BitScanReverse n < k"
proof -
  assume "0 < n" "n < 2 ^ k"
  then have "(2 :: nat) ^ BitScanReverse n < 2 ^ k" using BitScanReverse_bound [of n] by linarith
  then show ?thesis by simp
qed

lemma BitScanReverse_shift:
  assumes "0 < n div 2 ^ j"
  shows "BitScanReverse n = BitScanReverse (n div 2 ^ j) + j"
proof (rule BitScanReverse_unique)
  let ?k = "BitScanReverse (n div 2 ^ j)"
  note b = BitScanReverse_bound [OF assms]
  have "2 ^ ?k * 2 ^ j \<le> n div 2 ^ j * 2 ^ j" using b by (intro mult_le_mono1) simp
  also have "\<dots> \<le> n" by simp
  finally show "2 ^ (?k + j) \<le> n" by (simp add: power_add)
  have "n < 2 ^ j * (n div 2 ^ j + 1)"
    using dividend_less_div_times [of "2 ^ j" n] by (simp add: algebra_simps)
  also have "\<dots> \<le> 2 ^ j * (2 * 2 ^ ?k)" using b by (intro mult_le_mono2) simp
  finally show "n < 2 * 2 ^ (?k + j)" by (simp add: power_add ac_simps)
qed

lemma length_varint_bytes_log: "length (varint_bytes n) = BitScanReverse n div 7 + 1"
proof (induction n rule: varint_bytes.induct)
  case (1 n)
  show ?case
  proof (cases "n < 128")
    case True
    then have "BitScanReverse n < 7"
      using BitScanReverse_less [of n 7] by (cases "n = 0") (auto simp: BitScanReverse.simps)
    with True show ?thesis by (simp add: varint_bytes_one)
  next
    case False
    then have "BitScanReverse n = BitScanReverse (n div 128) + 7"
      using BitScanReverse_shift [of n 7] by simp
    with False 1 show ?thesis by (simp add: varint_bytes_cons)
  qed
qed

lemma BitScanReverse_half: "m div 2 = n div 2 \<Longrightarrow> BitScanReverse m = BitScanReverse n"
  by (subst (1 2) BitScanReverse.simps) auto

lemma BitScanReverse_or_1: "BitScanReverse (unat (v OR 1 :: 'w::len word)) = BitScanReverse (unat v)"
proof (rule BitScanReverse_half)
  have "unat (v OR 1) = unat v OR 1" by (simp only: unsigned_or_eq unsigned_1)
  then show "unat (v OR 1) div 2 = unat v div 2" by (simp add: or_Suc_0_eq)
qed

lemma size_formula:
  assumes "l < (64 :: nat)"
  shows "(l * 9 + 73) div 64 = l div 7 + 1"
proof -
  have "list_all (\<lambda>l :: nat. (l * 9 + 73) div 64 = l div 7 + 1) [0..<64]" by code_simp
  with assms show ?thesis by (simp only: list_all_iff set_upt atLeastLessThan_iff)
qed

lemma size_word:
  assumes "l < 64"
  shows "unat ((word_of_nat l * 9 + 73 :: uint32) div 64) = l div 7 + 1"
    and "unat ((word_of_nat l * 9 + 73 + 64 :: uint32) div 64) = l div 7 + 2"
proof -
  have w: "unat (word_of_nat m div 64 :: uint32) = m div 64" if "m < 1000" for m
  proof -
    have "unat (word_of_nat m :: uint32) = m" using that by (simp add: unat_of_nat)
    then show ?thesis by (simp only: unat_div_distrib) simp
  qed
  have e: "(word_of_nat l * 9 + 73 :: uint32) = word_of_nat (l * 9 + 73)" by simp
  have "unat (word_of_nat (l * 9 + 73) div 64 :: uint32) = (l * 9 + 73) div 64"
    by (rule w) (use assms in simp)
  then show "unat ((word_of_nat l * 9 + 73 :: uint32) div 64) = l div 7 + 1"
    unfolding e size_formula [OF assms] .
  have e2: "(word_of_nat l * 9 + 73 + 64 :: uint32) = word_of_nat (l * 9 + 73 + 64)" by simp
  have "(l * 9 + 73 + 64) div 64 = (l * 9 + 73) div 64 + 1" by (rule div_add_self2) simp
  moreover have "unat (word_of_nat (l * 9 + 73 + 64) div 64 :: uint32) = (l * 9 + 73 + 64) div 64"
    by (rule w) (use assms in simp)
  ultimately show "unat ((word_of_nat l * 9 + 73 + 64 :: uint32) div 64) = l div 7 + 2"
    unfolding e2 size_formula [OF assms] by simp
qed

lemma BitScanReverse_word: "LENGTH('w) \<le> 64 \<Longrightarrow> BitScanReverse (unat (v :: 'w::len word)) < 64"
proof (cases "unat v = 0")
  case False
  assume "LENGTH('w) \<le> 64"
  moreover have "BitScanReverse (unat v) < LENGTH('w)"
    by (rule BitScanReverse_less) (use False unsigned_less [of v] in auto)
  ultimately show ?thesis by simp
qed (simp add: BitScanReverse.simps)

lemma VarintSize32_length: "VarintSize32 v = length (varint_bytes (unat v))"
  and VarintSize32PlusOne_length: "VarintSize32PlusOne v = length (varint_bytes (unat v)) + 1"
  using size_word [OF BitScanReverse_word [of v]]
  by (simp_all only: VarintSize32_def VarintSize32PlusOne_def Let_def Log2FloorNonZero_def
      BitScanReverse_or_1 length_varint_bytes_log) simp_all

lemma VarintSize64_length: "VarintSize64 v = length (varint_bytes (unat v))"
  and VarintSize64PlusOne_length: "VarintSize64PlusOne v = length (varint_bytes (unat v)) + 1"
  using size_word [OF BitScanReverse_word [of v]]
  by (simp_all only: VarintSize64_def VarintSize64PlusOne_def Let_def Log2FloorNonZero64_def
      BitScanReverse_or_1 length_varint_bytes_log) simp_all

text \<open>The portable search finds the highest bit, and ends with the asserted 1.\<close>

lemma log2_step_value:
  assumes "n \<noteq> 0" and "unat n < 2 ^ 2 ^ Suc i" and "log2_step i (log, n) = (log', n')"
  shows "log' + int (BitScanReverse (unat n')) = log + int (BitScanReverse (unat n))"
    and "n' \<noteq> 0" and "unat n' < 2 ^ 2 ^ i"
proof -
  let ?x = "drop_bit (2 ^ i) n"
  have x: "unat ?x = unat n div 2 ^ 2 ^ i"
    by (subst unat_drop_bit_eq) (rule drop_bit_eq_div)
  have "?x = 0 \<longleftrightarrow> unat n < 2 ^ 2 ^ i"
    by (simp only: unat_eq_zero [symmetric] x div_eq_0_iff) simp
  moreover have "unat ?x < 2 ^ 2 ^ i"
    unfolding x using assms(2) by (simp add: less_mult_imp_div_less power_add [symmetric] mult_2)
  moreover have "?x \<noteq> 0 \<Longrightarrow> BitScanReverse (unat n) = BitScanReverse (unat ?x) + 2 ^ i"
    unfolding x by (rule BitScanReverse_shift) (simp only: unat_eq_zero [symmetric] x neq0_conv)
  ultimately show "log' + int (BitScanReverse (unat n')) = log + int (BitScanReverse (unat n))"
      and "n' \<noteq> 0" and "unat n' < 2 ^ 2 ^ i"
    using assms(1,3) by (auto simp: log2_step_def Let_def split: if_splits)
qed

lemma log2_portable:
  assumes "n \<noteq> 0"
  shows "Log2FloorNonZero_Portable n = uint (Log2FloorNonZero n)"
    and "snd (fold log2_step [4, 3, 2, 1, 0] (0, n)) = 1"
proof -
  have "unat n < 2 ^ 2 ^ Suc 4" using unsigned_less [of n] by simp
  obtain l4 n4 where s4: "log2_step 4 (0, n) = (l4, n4)" by fastforce
  note r4 = log2_step_value [OF assms \<open>unat n < 2 ^ 2 ^ Suc 4\<close> s4]
  obtain l3 n3 where s3: "log2_step 3 (l4, n4) = (l3, n3)" by fastforce
  note r3 = log2_step_value [OF r4(2) _ s3, simplified, OF r4(3) [simplified]]
  obtain l2 n2 where s2: "log2_step 2 (l3, n3) = (l2, n2)" by fastforce
  note r2 = log2_step_value [OF r3(2) _ s2, simplified, OF r3(3)]
  obtain l1 n1 where s1: "log2_step 1 (l2, n2) = (l1, n1)" by fastforce
  note r1 = log2_step_value [OF r2(2) _ s1, simplified, OF r2(3)]
  obtain l0 n0 where s0: "log2_step 0 (l1, n1) = (l0, n0)" by fastforce
  note r0 = log2_step_value [OF r1(2) _ s0, simplified, OF r1(3)]
  have "unat n0 \<noteq> 0" using r0(2) by (simp add: unat_eq_zero)
  with r0(3) have "unat n0 = 1" by simp
  then have n0: "n0 = 1" by (simp add: word_unat_eq_iff)
  have l0: "l0 = int (BitScanReverse (unat n))"
    using r0(1) r1(1) r2(1) r3(1) r4(1) n0 by (simp add: BitScanReverse.simps)
  have f: "fold log2_step [4, 3, 2, 1, 0] (0, n) = (l0, n0)"
    by (simp only: fold_simps s4 s3 s2 s1 s0)
  show "snd (fold log2_step [4, 3, 2, 1, 0] (0, n)) = 1" unfolding f n0 by simp
  have "BitScanReverse (unat n) < 64" by (rule BitScanReverse_word) simp
  then show "Log2FloorNonZero_Portable n = uint (Log2FloorNonZero n)"
    unfolding Log2FloorNonZero_Portable_def f
    using assms l0 by (simp add: Log2FloorNonZero_def uint_nat unat_of_nat)
qed

section \<open>Tags, zigzag, fixed widths\<close>

datatype WireType =
    WIRETYPE_VARINT | WIRETYPE_FIXED64 | WIRETYPE_LENGTH_DELIMITED
  | WIRETYPE_START_GROUP | WIRETYPE_END_GROUP | WIRETYPE_FIXED32

definition wire_code :: "WireType \<Rightarrow> uint32" where
  "wire_code t =
     (case t of WIRETYPE_VARINT \<Rightarrow> 0 | WIRETYPE_FIXED64 \<Rightarrow> 1 | WIRETYPE_LENGTH_DELIMITED \<Rightarrow> 2
      | WIRETYPE_START_GROUP \<Rightarrow> 3 | WIRETYPE_END_GROUP \<Rightarrow> 4 | WIRETYPE_FIXED32 \<Rightarrow> 5)"

definition kTagTypeBits :: nat where "kTagTypeBits = 3"
definition kTagTypeMask :: uint32 where "kTagTypeMask = 7"

definition MakeTag :: "int \<Rightarrow> WireType \<Rightarrow> uint32" where
  "MakeTag field_number ty = push_bit 3 (word_of_int field_number) OR wire_code ty"

text \<open>The cast of a number that is no \<^verbatim>\<open>WireType\<close> gives a value of the enumeration none of the cases has.\<close>

definition GetTagWireType :: "uint32 \<Rightarrow> WireType option" where
  "GetTagWireType tag =
     (let c = tag AND kTagTypeMask in
      if c = 0 then Some WIRETYPE_VARINT
      else if c = 1 then Some WIRETYPE_FIXED64
      else if c = 2 then Some WIRETYPE_LENGTH_DELIMITED
      else if c = 3 then Some WIRETYPE_START_GROUP
      else if c = 4 then Some WIRETYPE_END_GROUP
      else if c = 5 then Some WIRETYPE_FIXED32
      else None)"

definition GetTagFieldNumber :: "uint32 \<Rightarrow> int" where
  "GetTagFieldNumber tag = uint (drop_bit kTagTypeBits tag)"

text \<open>A signed number is the word of its two's complement; \<^verbatim>\<open>n >> 31\<close> is the arithmetic shift.\<close>

definition ZigZagEncode32 :: "uint32 \<Rightarrow> uint32" where
  "ZigZagEncode32 n = push_bit 1 n XOR signed_drop_bit 31 n"

definition ZigZagDecode32 :: "uint32 \<Rightarrow> uint32" where
  "ZigZagDecode32 n = drop_bit 1 n XOR (NOT (n AND 1) + 1)"

definition ZigZagEncode64 :: "uint64 \<Rightarrow> uint64" where
  "ZigZagEncode64 n = push_bit 1 n XOR signed_drop_bit 63 n"

definition ZigZagDecode64 :: "uint64 \<Rightarrow> uint64" where
  "ZigZagDecode64 n = drop_bit 1 n XOR (NOT (n AND 1) + 1)"

lemma MakeTag_parts:
  assumes "0 \<le> n" and "n < 2 ^ 29"
  shows "GetTagWireType (MakeTag n ty) = Some ty" and "GetTagFieldNumber (MakeTag n ty) = n"
proof -
  have low: "push_bit 3 (word_of_int n :: uint32) AND 7 = 0"
  proof -
    have "push_bit 3 (word_of_int n :: uint32) AND mask 3 = 0"
      by (rule bit_word_eqI) (auto simp: bit_simps)
    then show ?thesis by (simp add: mask_eq_exp_minus_1)
  qed
  have "MakeTag n ty AND 7 = wire_code ty AND 7"
    by (simp only: MakeTag_def bit.conj_disj_distrib2 low) simp
  then show "GetTagWireType (MakeTag n ty) = Some ty"
    by (cases ty) (simp_all add: GetTagWireType_def kTagTypeMask_def wire_code_def)
  have "drop_bit 3 (MakeTag n ty) = drop_bit 3 (push_bit 3 (word_of_int n :: uint32))"
    by (cases ty) (simp_all only: MakeTag_def drop_bit_or wire_code_def WireType.case, simp_all)
  also have "\<dots> = word_of_int n"
  proof -
    have "take_bit 29 n = n" using assms by (simp add: take_bit_int_eq_self)
    then have "bit n i \<Longrightarrow> i < 29" for i by (metis bit_take_bit_iff)
    then show ?thesis by (intro bit_word_eqI) (auto simp: bit_simps)
  qed
  finally show "GetTagFieldNumber (MakeTag n ty) = n"
    using assms by (simp add: GetTagFieldNumber_def kTagTypeBits_def unsigned_of_int take_bit_int_eq_self)
qed

lemma not_and_one: "NOT (n AND 1) + 1 = (if odd n then - 1 else (0 :: 'w::len word))"
  by (simp add: and_one_eq minus_eq_not_plus_1 [symmetric] odd_iff_mod_2_eq_one)

text \<open>Zigzag is a bijection between the words, both ways.\<close>

lemma zigzag_word:
  assumes "1 < LENGTH('w)"
  shows "(let m = push_bit 1 n XOR signed_drop_bit (LENGTH('w) - 1) n in
      drop_bit 1 m XOR (NOT (m AND 1) + 1)) = (n :: 'w::len word)"
proof -
  let ?s = "signed_drop_bit (LENGTH('w) - 1) n" and ?m = "push_bit 1 n XOR signed_drop_bit (LENGTH('w) - 1) n"
  have s: "bit ?s i \<longleftrightarrow> i < LENGTH('w) \<and> bit n (LENGTH('w) - 1)" for i
    using assms by (cases i) (auto simp: bit_signed_drop_bit_iff dest: bit_imp_le_length)
  have odd: "odd ?m \<longleftrightarrow> bit n (LENGTH('w) - 1)"
    using s [of 0] assms by (simp only: bit_0 [symmetric] bit_xor_iff bit_push_bit_iff) auto
  have "NOT (?m AND 1) + 1 = ?s"
    unfolding not_and_one odd
    by (rule bit_word_eqI) (cases "bit n (LENGTH('w) - 1)", simp_all only: s if_True if_False, simp_all)
  moreover have "drop_bit 1 ?m XOR ?s = n"
  proof (rule bit_word_eqI)
    fix i assume i: "i < LENGTH('w)"
    show "bit (drop_bit 1 ?m XOR ?s) i = bit n i"
    proof (cases "Suc i < LENGTH('w)")
      case True
      then show ?thesis using i by (simp only: bit_xor_iff bit_drop_bit_eq comp_def bit_push_bit_iff s) auto
    next
      case False
      with i have "i = LENGTH('w) - 1" by simp
      then show ?thesis
        using False i by (simp only: bit_xor_iff bit_drop_bit_eq comp_def bit_push_bit_iff s)
          (auto dest: bit_imp_le_length)
    qed
  qed
  ultimately show ?thesis by (simp add: Let_def)
qed

lemma ZigZag_decode_encode:
  "ZigZagDecode32 (ZigZagEncode32 n) = n" "ZigZagDecode64 (ZigZagEncode64 m) = m"
  using zigzag_word [of n] zigzag_word [of m]
  by (simp_all add: ZigZagDecode32_def ZigZagEncode32_def ZigZagDecode64_def ZigZagEncode64_def Let_def)

text \<open>Fixed-width integers are little endian.\<close>

definition le_bytes :: "nat \<Rightarrow> 'w::len word \<Rightarrow> byte list" where
  "le_bytes n w = map (\<lambda>i. ucast (drop_bit (8 * i) w)) [0..<n]"

fun le_value :: "byte list \<Rightarrow> nat" where
  "le_value [] = 0"
| "le_value (b # bs) = unat b + 256 * le_value bs"

definition WriteLittleEndian32ToArray :: "uint32 \<Rightarrow> nat \<Rightarrow> byte list \<Rightarrow> (nat \<times> byte list) res" where
  "WriteLittleEndian32ToArray v target m = put target (le_bytes 4 v) m"

definition WriteLittleEndian64ToArray :: "uint64 \<Rightarrow> nat \<Rightarrow> byte list \<Rightarrow> (nat \<times> byte list) res" where
  "WriteLittleEndian64ToArray v target m = put target (le_bytes 8 v) m"

definition UnalignedLoad32 :: "byte list \<Rightarrow> uint32 res" where
  "UnalignedLoad32 p = bind_res (mem_read p 0 4) (\<lambda>bs. Inr (word_of_nat (le_value bs)))"

definition UnalignedLoad64 :: "byte list \<Rightarrow> uint64 res" where
  "UnalignedLoad64 p = bind_res (mem_read p 0 8) (\<lambda>bs. Inr (word_of_nat (le_value bs)))"

lemma length_le_bytes [simp]: "length (le_bytes n w) = n"
  by (simp add: le_bytes_def)

lemma le_value_bytes: "le_value (le_bytes n w) = unat w mod 256 ^ n"
proof (induction n arbitrary: w)
  case (Suc n)
  have "le_bytes (Suc n) w = ucast w # le_bytes n (drop_bit 8 w)"
    unfolding le_bytes_def upt_conv_Cons [OF zero_less_Suc] map_Suc_upt [symmetric] list.map map_map comp_def
    by (simp only: mult_0_right drop_bit_0 id_apply) (simp add: drop_bit_drop_bit algebra_simps)
  moreover have "unat (drop_bit 8 w) = unat w div 256"
    by (subst unat_drop_bit_eq) (simp add: drop_bit_eq_div)
  ultimately show ?case
    by (simp add: Suc unsigned_ucast_eq take_bit_eq_mod mod_mult2_eq)
qed (simp add: le_bytes_def)

end
