(* ===== verification/Eps_Output.thy ===== *)
theory Eps_Output
  imports Wire_Writers
begin

unbundle bit_operations_syntax

text \<open>
  \<^verbatim>\<open>EpsCopyOutputStream\<close> of \<^verbatim>\<open>io/coded_stream.{h,cc}\<close>: the output stream all messages are
  serialized to. A writer may write \<^verbatim>\<open>kSlopBytes\<close> bytes behind the end of the current buffer
  without asking; a patch buffer of twice that size carries the bytes over to the next block of the
  underlying \<^verbatim>\<open>ZeroCopyOutputStream\<close>, or takes what is written after an error. Serializing to an
  array has no stream at all. A pointer is a block and an offset in it; the underlying stream hands
  out blocks of the sizes it is given and fails when they are used up.
\<close>

datatype blk = Patch | Block nat

type_synonym ptr = "blk \<times> nat"

definition SLOP :: nat where "SLOP = 16"

record eps_out =
  eo_end :: ptr
  eo_buffer_end :: "ptr option"
  eo_buffer :: "byte list"
  eo_stream :: "nat list option"
  eo_blocks :: "byte list list"
  eo_had_error :: bool

section \<open>Memory\<close>

definition block_of :: "eps_out \<Rightarrow> blk \<Rightarrow> byte list" where
  "block_of s b =
     (case b of Patch \<Rightarrow> eo_buffer s
      | Block i \<Rightarrow> if i < length (eo_blocks s) then eo_blocks s ! i else [])"

definition set_block :: "blk \<Rightarrow> byte list \<Rightarrow> eps_out \<Rightarrow> eps_out" where
  "set_block b m s =
     (case b of Patch \<Rightarrow> s\<lparr>eo_buffer := m\<rparr> | Block i \<Rightarrow> s\<lparr>eo_blocks := (eo_blocks s)[i := m]\<rparr>)"

text \<open>Running a writer of an array on the block of a pointer.\<close>

definition at_ptr ::
    "(nat \<Rightarrow> byte list \<Rightarrow> (nat \<times> byte list) res) \<Rightarrow> ptr \<Rightarrow> eps_out \<Rightarrow> (ptr \<times> eps_out) res" where
  "at_ptr f p s =
     bind_res (f (snd p) (block_of s (fst p))) (\<lambda>(o', m). Inr ((fst p, o'), set_block (fst p) m s))"

definition read_ptr :: "ptr \<Rightarrow> nat \<Rightarrow> eps_out \<Rightarrow> byte list res" where
  "read_ptr p n s = mem_read (block_of s (fst p)) (int (snd p)) (int n)"

text \<open>\<^verbatim>\<open>memcpy\<close> of bytes to a pointer, and the pointer behind them.\<close>

definition copy_to :: "byte list \<Rightarrow> ptr \<Rightarrow> eps_out \<Rightarrow> (ptr \<times> eps_out) res" where
  "copy_to bs = at_ptr (\<lambda>i m. put i bs m)"

definition ptr_plus :: "ptr \<Rightarrow> nat \<Rightarrow> ptr" where
  "ptr_plus p n = (fst p, snd p + n)"

section \<open>The stream\<close>

text \<open>The constructors: an array, and a stream.\<close>

definition EpsCopyOutputStream_array :: "byte list \<Rightarrow> nat \<Rightarrow> eps_out" where
  "EpsCopyOutputStream_array a n =
     \<lparr>eo_end = (Block 0, n), eo_buffer_end = None, eo_buffer = replicate 32 0, eo_stream = None,
      eo_blocks = [a], eo_had_error = False\<rparr>"

definition EpsCopyOutputStream_stream :: "nat list \<Rightarrow> ptr \<times> eps_out" where
  "EpsCopyOutputStream_stream sizes =
     ((Patch, 0),
      \<lparr>eo_end = (Patch, 0), eo_buffer_end = Some (Patch, 0), eo_buffer = replicate 32 0,
       eo_stream = Some sizes, eo_blocks = [], eo_had_error = False\<rparr>)"

definition SetInitialBuffer :: "ptr \<Rightarrow> nat \<Rightarrow> eps_out \<Rightarrow> ptr \<times> eps_out" where
  "SetInitialBuffer p n s =
     (if n > SLOP then (p, s\<lparr>eo_end := ptr_plus p (n - SLOP), eo_buffer_end := None\<rparr>)
      else ((Patch, 0), s\<lparr>eo_end := (Patch, n), eo_buffer_end := Some p\<rparr>))"

text \<open>\<^verbatim>\<open>Error\<close> redirects all writing to the patch buffer.\<close>

definition Eps_Error :: "eps_out \<Rightarrow> ptr \<times> eps_out" where
  "Eps_Error s = ((Patch, 0), s\<lparr>eo_had_error := True, eo_end := (Patch, SLOP)\<rparr>)"

text \<open>\<^verbatim>\<open>do { stream_->Next } while (size == 0)\<close>.\<close>

fun stream_next :: "nat list \<Rightarrow> (nat \<times> nat list) option" where
  "stream_next [] = None"
| "stream_next (n # ns) = (if n = 0 then stream_next ns else Some (n, ns))"

definition Eps_Next :: "eps_out \<Rightarrow> (ptr \<times> eps_out) res" where
  "Eps_Next s =
     (case eo_stream s of
        None \<Rightarrow> Inr (Eps_Error s)
      | Some sizes \<Rightarrow>
          (case eo_buffer_end s of
             Some be \<Rightarrow>
               bind_res (read_ptr (Patch, 0) (snd (eo_end s)) s) (\<lambda>bs.
                 bind_res (copy_to bs be s) (\<lambda>(_, s1).
                   case stream_next sizes of
                     None \<Rightarrow> Inr (Eps_Error (s1\<lparr>eo_stream := Some []\<rparr>))
                   | Some (n, rest) \<Rightarrow>
                       let p = (Block (length (eo_blocks s1)), 0);
                           s2 = s1\<lparr>eo_stream := Some rest, eo_blocks := eo_blocks s1 @ [replicate n 0]\<rparr> in
                       bind_res (read_ptr (eo_end s2) SLOP s2) (\<lambda>slop.
                         if n > SLOP then
                           bind_res (copy_to slop p s2) (\<lambda>(_, s3).
                             Inr (p, s3\<lparr>eo_end := ptr_plus p (n - SLOP), eo_buffer_end := None\<rparr>))
                         else
                           bind_res (copy_to slop (Patch, 0) s2) (\<lambda>(_, s3).
                             Inr ((Patch, 0), s3\<lparr>eo_buffer_end := Some p, eo_end := (Patch, n)\<rparr>)))))
           | None \<Rightarrow>
               bind_res (read_ptr (eo_end s) SLOP s) (\<lambda>slop.
                 bind_res (copy_to slop (Patch, 0) s) (\<lambda>(_, s1).
                   Inr ((Patch, 0), s1\<lparr>eo_buffer_end := Some (eo_end s1), eo_end := (Patch, SLOP)\<rparr>)))))"

definition ptr_ge :: "ptr \<Rightarrow> ptr \<Rightarrow> bool" where
  "ptr_ge p q \<longleftrightarrow> snd q \<le> snd p"

partial_function (option) EnsureSpaceFallback :: "ptr \<Rightarrow> eps_out \<Rightarrow> (ptr \<times> eps_out) run" where
  "EnsureSpaceFallback p s =
     (if eo_had_error s then ret ((Patch, 0), s)
      else
        (case Eps_Next s of
           Inl e \<Rightarrow> Some (Inl e)
         | Inr (q, s1) \<Rightarrow>
             let p1 = ptr_plus q (snd p - snd (eo_end s)) in
             if ptr_ge p1 (eo_end s1) then EnsureSpaceFallback p1 s1 else ret (p1, s1)))"

definition EnsureSpace :: "ptr \<Rightarrow> eps_out \<Rightarrow> (ptr \<times> eps_out) run" where
  "EnsureSpace p s = (if ptr_ge p (eo_end s) then EnsureSpaceFallback p s else ret (p, s))"

text \<open>The pointer of \<^verbatim>\<open>Flush\<close> is local; it returns the bytes left in the buffer.\<close>

partial_function (option) Flush :: "ptr \<Rightarrow> eps_out \<Rightarrow> (int \<times> eps_out) run" where
  "Flush p s =
     (case eo_buffer_end s of
        Some be \<Rightarrow>
          if snd (eo_end s) < snd p then
            (case Eps_Next s of
               Inl e \<Rightarrow> Some (Inl e)
             | Inr (q, s1) \<Rightarrow>
                 if eo_had_error s1 then ret (0, s1)
                 else Flush (ptr_plus q (snd p - snd (eo_end s))) s1)
          else
            Some (bind_res (read_ptr (Patch, 0) (snd p) s) (\<lambda>bs.
              bind_res (copy_to bs be s) (\<lambda>(be', s1).
                Inr (int (snd (eo_end s1)) - int (snd p), s1\<lparr>eo_buffer_end := Some be'\<rparr>))))
      | None \<Rightarrow> ret (int (snd (eo_end s)) + int SLOP - int (snd p), s\<lparr>eo_buffer_end := Some p\<rparr>))"

text \<open>\<^verbatim>\<open>BackUp\<close> gives the last bytes of the last block back.\<close>

definition stream_back_up :: "nat \<Rightarrow> eps_out \<Rightarrow> eps_out" where
  "stream_back_up n s =
     (case rev (eo_blocks s) of
        [] \<Rightarrow> s
      | b # bs \<Rightarrow> s\<lparr>eo_blocks := rev (take (length b - n) b # bs)\<rparr>)"

definition Trim :: "ptr \<Rightarrow> eps_out \<Rightarrow> (ptr \<times> eps_out) run" where
  "Trim p s =
     (if eo_had_error s then ret (p, s)
      else bind_run (Flush p s) (\<lambda>(n, s1).
        if eo_stream s1 = None then Some (Inl NullDeref)
        else
          let s2 = stream_back_up (nat n) s1 in
          ret ((Patch, 0), s2\<lparr>eo_buffer_end := Some (Patch, 0), eo_end := (Patch, 0)\<rparr>)))"

text \<open>After \<^verbatim>\<open>Flush\<close> \<^verbatim>\<open>buffer_end_\<close> is the start of the remaining space.\<close>

definition FlushAndResetBuffer :: "ptr \<Rightarrow> eps_out \<Rightarrow> (ptr \<times> eps_out) run" where
  "FlushAndResetBuffer p s =
     (if eo_had_error s then ret ((Patch, 0), s)
      else bind_run (Flush p s) (\<lambda>(n, s1).
        if eo_had_error s1 then ret ((Patch, 0), s1)
        else case eo_buffer_end s1 of
            None \<Rightarrow> Some (Inl NullDeref)
          | Some be \<Rightarrow> ret (SetInitialBuffer be (nat n) s1)))"

definition GetDirectBufferForNBytesAndAdvance ::
    "nat \<Rightarrow> ptr \<Rightarrow> eps_out \<Rightarrow> (ptr option \<times> ptr \<times> eps_out) run" where
  "GetDirectBufferForNBytesAndAdvance want p s =
     (if eo_had_error s then ret (None, (Patch, 0), s)
      else bind_run (Flush p s) (\<lambda>(n, s1).
        if eo_had_error s1 then ret (None, (Patch, 0), s1)
        else case eo_buffer_end s1 of
            None \<Rightarrow> Some (Inl NullDeref)
          | Some be \<Rightarrow>
              if int want \<le> n then ret (Some be, SetInitialBuffer (ptr_plus be want) (nat n - want) s1)
              else ret (None, SetInitialBuffer be (nat n) s1)))"

section \<open>Writing\<close>

definition GetSize :: "ptr \<Rightarrow> eps_out \<Rightarrow> int" where
  "GetSize p s = int (snd (eo_end s)) + int SLOP - int (snd p)"

partial_function (option) WriteRawFallback :: "byte list \<Rightarrow> ptr \<Rightarrow> eps_out \<Rightarrow> (ptr \<times> eps_out) run" where
  "WriteRawFallback data p s =
     (let n = GetSize p s in
      if n < int (length data) then
        (case copy_to (take (nat n) data) p s of
           Inl e \<Rightarrow> Some (Inl e)
         | Inr (p1, s1) \<Rightarrow>
             bind_run (EnsureSpaceFallback p1 s1) (\<lambda>(p2, s2). WriteRawFallback (drop (nat n) data) p2 s2))
      else Some (copy_to data p s))"

definition WriteRaw :: "byte list \<Rightarrow> ptr \<Rightarrow> eps_out \<Rightarrow> (ptr \<times> eps_out) run" where
  "WriteRaw data p s =
     (if int (snd (eo_end s)) - int (snd p) < int (length data) then WriteRawFallback data p s
      else Some (copy_to data p s))"

definition TagSize :: "uint32 \<Rightarrow> nat" where
  "TagSize tag =
     (if tag < 2 ^ 7 then 1 else if tag < 2 ^ 14 then 2 else if tag < 2 ^ 21 then 3
      else if tag < 2 ^ 28 then 4 else 5)"

definition WriteTag :: "uint32 \<Rightarrow> uint32 \<Rightarrow> ptr \<Rightarrow> eps_out \<Rightarrow> (ptr \<times> eps_out) res" where
  "WriteTag num wt = at_ptr (UnsafeVarint (push_bit 3 num OR wt))"

definition WriteLengthDelim :: "uint32 \<Rightarrow> uint32 \<Rightarrow> ptr \<Rightarrow> eps_out \<Rightarrow> (ptr \<times> eps_out) res" where
  "WriteLengthDelim num n p s =
     bind_res (WriteTag num 2 p s) (\<lambda>(p1, s1). at_ptr (UnsafeWriteSize n) p1 s1)"

definition WriteStringOutline :: "uint32 \<Rightarrow> byte list \<Rightarrow> ptr \<Rightarrow> eps_out \<Rightarrow> (ptr \<times> eps_out) run" where
  "WriteStringOutline num str p s =
     bind_run (EnsureSpace p s) (\<lambda>(p1, s1).
       bind_run (Some (WriteLengthDelim num (word_of_nat (length str)) p1 s1)) (\<lambda>(p2, s2). WriteRaw str p2 s2))"

definition WriteString :: "uint32 \<Rightarrow> byte list \<Rightarrow> ptr \<Rightarrow> eps_out \<Rightarrow> (ptr \<times> eps_out) run" where
  "WriteString num str p s =
     (let n = int (length str) in
      if 128 \<le> n \<or>
         int (snd (eo_end s)) - int (snd p) + 16 - int (TagSize (push_bit 3 num)) - 1 < n
      then WriteStringOutline num str p s
      else
        Some (bind_res (at_ptr (UnsafeVarint (push_bit 3 num OR 2)) p s) (\<lambda>(p1, s1).
          bind_res (copy_to [word_of_nat (length str)] p1 s1) (\<lambda>(p2, s2).
            copy_to str p2 s2))))"

end
