(* ===== verification/Unknown_Fields.thy ===== *)
theory Unknown_Fields
  imports Eps_Output
begin

unbundle bit_operations_syntax

text \<open>
  \<^verbatim>\<open>UnknownFieldSet\<close> (\<^verbatim>\<open>unknown_field_set.{h,cc}\<close>), the only content of the two
  messages of the program, with its operations, and its size and serialization
  (\<^verbatim>\<open>wire_format.cc\<close>). A vector of fields is a list; indices are checked.
\<close>

section \<open>The set\<close>

datatype unknown_field =
    TYPE_VARINT uint32 uint64
  | TYPE_FIXED32 uint32 uint32
  | TYPE_FIXED64 uint32 uint64
  | TYPE_LENGTH_DELIMITED uint32 "byte list"
  | TYPE_GROUP uint32 "unknown_field list"

type_synonym fields = "unknown_field list"

fun field_number :: "unknown_field \<Rightarrow> uint32" where
  "field_number (TYPE_VARINT n _) = n"
| "field_number (TYPE_FIXED32 n _) = n"
| "field_number (TYPE_FIXED64 n _) = n"
| "field_number (TYPE_LENGTH_DELIMITED n _) = n"
| "field_number (TYPE_GROUP n _) = n"

definition AddVarint :: "uint32 \<Rightarrow> uint64 \<Rightarrow> fields \<Rightarrow> fields" where
  "AddVarint number v fs = fs @ [TYPE_VARINT number v]"

definition AddFixed32 :: "uint32 \<Rightarrow> uint32 \<Rightarrow> fields \<Rightarrow> fields" where
  "AddFixed32 number v fs = fs @ [TYPE_FIXED32 number v]"

definition AddFixed64 :: "uint32 \<Rightarrow> uint64 \<Rightarrow> fields \<Rightarrow> fields" where
  "AddFixed64 number v fs = fs @ [TYPE_FIXED64 number v]"

text \<open>
  These two return a pointer to the new string or set; the caller's changes through it are the
  second argument.
\<close>

definition AddLengthDelimited :: "uint32 \<Rightarrow> byte list \<Rightarrow> fields \<Rightarrow> fields" where
  "AddLengthDelimited number str fs = fs @ [TYPE_LENGTH_DELIMITED number str]"

definition AddGroup :: "uint32 \<Rightarrow> fields \<Rightarrow> fields \<Rightarrow> fields" where
  "AddGroup number g fs = fs @ [TYPE_GROUP number g]"

text \<open>Copying a field copies the string or, field by field, the group it points to.\<close>

fun DeepCopy :: "unknown_field \<Rightarrow> unknown_field" and InternalMergeFrom :: "fields \<Rightarrow> fields \<Rightarrow> fields" where
  "DeepCopy (TYPE_GROUP n g) = TYPE_GROUP n (InternalMergeFrom [] g)"
| "DeepCopy (TYPE_LENGTH_DELIMITED n str) = TYPE_LENGTH_DELIMITED n str"
| "DeepCopy (TYPE_VARINT n v) = TYPE_VARINT n v"
| "DeepCopy (TYPE_FIXED32 n w) = TYPE_FIXED32 n w"
| "DeepCopy (TYPE_FIXED64 n v) = TYPE_FIXED64 n v"
| "InternalMergeFrom fs [] = fs"
| "InternalMergeFrom fs (g # gs) = InternalMergeFrom (fs @ [DeepCopy g]) gs"

definition UnknownFieldSet_MergeFrom :: "fields \<Rightarrow> fields \<Rightarrow> fields" where
  "UnknownFieldSet_MergeFrom fs other = InternalMergeFrom fs other"

definition AddField :: "unknown_field \<Rightarrow> fields \<Rightarrow> fields" where
  "AddField f fs = fs @ [DeepCopy f]"

text \<open>The other set is emptied.\<close>

definition MergeFromAndDestroy :: "fields \<Rightarrow> fields \<Rightarrow> fields \<times> fields" where
  "MergeFromAndDestroy fs other = (if fs = [] then other else fs @ other, [])"

text \<open>\<^verbatim>\<open>ClearFallback\<close> deletes from the end.\<close>

fun clear_loop :: "nat \<Rightarrow> fields \<Rightarrow> fields" where
  "clear_loop 0 fs = []"
| "clear_loop (Suc n) fs = clear_loop n (take n fs)"

definition UnknownFieldSet_Clear :: "fields \<Rightarrow> fields" where
  "UnknownFieldSet_Clear fs = (if fs = [] then fs else clear_loop (length fs) fs)"

text \<open>The compaction loop of \<^verbatim>\<open>DeleteByNumber\<close>: \<open>i\<close> is read, \<open>left\<close> written.\<close>

function delete_loop :: "uint32 \<Rightarrow> nat \<Rightarrow> nat \<Rightarrow> fields \<Rightarrow> fields" where
  "delete_loop number i left fs =
     (if i < length fs then
        (if field_number (fs ! i) = number then delete_loop number (i + 1) left fs
         else
           delete_loop number (i + 1) (left + 1) (if i \<noteq> left then fs[left := fs ! i] else fs))
      else take left fs)"
  by auto
termination by (relation "measure (\<lambda>(number, i, left, fs). length fs - i)") auto

declare delete_loop.simps [simp del]

definition DeleteByNumber :: "uint32 \<Rightarrow> fields \<Rightarrow> fields" where
  "DeleteByNumber number fs = delete_loop number 0 0 fs"

text \<open>\<^verbatim>\<open>DeleteSubrange\<close>: slide the fields behind the range down, then pop.\<close>

function slide_loop :: "nat \<Rightarrow> nat \<Rightarrow> fields \<Rightarrow> fields" where
  "slide_loop i num fs = (if i < length fs then slide_loop (i + 1) num (fs[i - num := fs ! i]) else fs)"
  by auto
termination by (relation "measure (\<lambda>(i, num, fs). length fs - i)") auto

declare slide_loop.simps [simp del]

definition DeleteSubrange :: "nat \<Rightarrow> nat \<Rightarrow> fields \<Rightarrow> fields res" where
  "DeleteSubrange start num fs =
     (if start + num \<le> length fs then
        Inr (take (length fs - num) (slide_loop (start + num) num fs))
      else Inl OutOfBounds)"

section \<open>What they do\<close>

lemma DeepCopy_eq: "DeepCopy f = f" and InternalMergeFrom_append: "InternalMergeFrom fs other = fs @ other"
  by (induction f and fs other rule: DeepCopy_InternalMergeFrom.induct) simp_all

lemma clear_loop_Nil: "clear_loop n fs = []"
  by (induction n arbitrary: fs) simp_all

lemma delete_loop_filter:
  "left \<le> i \<Longrightarrow> i \<le> length fs \<Longrightarrow>
    delete_loop number i left fs = take left fs @ filter (\<lambda>f. field_number f \<noteq> number) (drop i fs)"
proof (induction number i left fs rule: delete_loop.induct)
  case (1 number i left fs)
  show ?case
  proof (cases "i < length fs")
    case True
    then have d: "drop i fs = fs ! i # drop (Suc i) fs" by (simp add: Cons_nth_drop_Suc)
    show ?thesis
    proof (cases "field_number (fs ! i) = number")
      case eq: True
      then show ?thesis using 1 True by (subst delete_loop.simps) (simp add: d)
    next
      case False
      let ?fs = "if i \<noteq> left then fs[left := fs ! i] else fs"
      have fs: "length ?fs = length fs" "take (left + 1) ?fs = take left fs @ [fs ! i]"
          "drop (Suc i) ?fs = drop (Suc i) fs"
        using True 1(3) by (auto simp: take_Suc_conv_app_nth)
      have "delete_loop number i left fs = delete_loop number (i + 1) (left + 1) ?fs"
        using True False by (subst delete_loop.simps) simp
      also have "\<dots> = take (left + 1) ?fs @ filter (\<lambda>f. field_number f \<noteq> number) (drop (i + 1) ?fs)"
        using True 1(3) fs(1) by (intro 1(2) [OF True False]) auto
      also have "\<dots> = take left fs @ filter (\<lambda>f. field_number f \<noteq> number) (drop i fs)"
        using False unfolding fs(2) by (simp only: Suc_eq_plus1 [symmetric] fs(3) d) simp
      finally show ?thesis .
    qed
  next
    case False
    with 1(4) show ?thesis by (subst delete_loop.simps) simp
  qed
qed

lemma slide_loop_result:
  "num \<le> i \<Longrightarrow> i \<le> length fs \<Longrightarrow>
    take (length fs - num) (slide_loop i num fs) = take (i - num) fs @ drop i fs"
proof (induction i num fs rule: slide_loop.induct)
  case (1 i num fs)
  show ?case
  proof (cases "i < length fs")
    case True
    let ?fs = "fs[i - num := fs ! i]"
    have "take (length fs - num) (slide_loop i num fs) = take (length ?fs - num) (slide_loop (i + 1) num ?fs)"
      using True by (subst slide_loop.simps) simp
    also have "\<dots> = take (i + 1 - num) ?fs @ drop (i + 1) ?fs"
      using True 1(2) by (intro 1(1)) auto
    also have "i + 1 - num = Suc (i - num)" using 1(2) by simp
    also have "take (Suc (i - num)) ?fs @ drop (i + 1) ?fs = take (i - num) fs @ fs ! i # drop (Suc i) fs"
      using True 1(2) by (simp add: take_Suc_conv_app_nth)
    finally show ?thesis using True by (simp add: Cons_nth_drop_Suc)
  next
    case False
    with 1(3) have "i = length fs" by simp
    then show ?thesis by (subst slide_loop.simps) simp
  qed
qed

section \<open>Size and serialization\<close>

text \<open>Tags are made from \<^verbatim>\<open>field.number()\<close>, an \<^verbatim>\<open>int\<close>.\<close>

definition WriteTagToArray :: "int \<Rightarrow> WireType \<Rightarrow> ptr \<Rightarrow> eps_out \<Rightarrow> (ptr \<times> eps_out) res" where
  "WriteTagToArray number ty = at_ptr (WriteVarint32ToArray (MakeTag number ty))"

definition WriteUInt64ToArray :: "int \<Rightarrow> uint64 \<Rightarrow> ptr \<Rightarrow> eps_out \<Rightarrow> (ptr \<times> eps_out) res" where
  "WriteUInt64ToArray number v p s =
     bind_res (WriteTagToArray number WIRETYPE_VARINT p s) (\<lambda>(p1, s1).
       at_ptr (WriteVarint64ToArray v) p1 s1)"

definition WriteFixed32ToArray :: "int \<Rightarrow> uint32 \<Rightarrow> ptr \<Rightarrow> eps_out \<Rightarrow> (ptr \<times> eps_out) res" where
  "WriteFixed32ToArray number v p s =
     bind_res (WriteTagToArray number WIRETYPE_FIXED32 p s) (\<lambda>(p1, s1).
       at_ptr (WriteLittleEndian32ToArray v) p1 s1)"

definition WriteFixed64ToArray :: "int \<Rightarrow> uint64 \<Rightarrow> ptr \<Rightarrow> eps_out \<Rightarrow> (ptr \<times> eps_out) res" where
  "WriteFixed64ToArray number v p s =
     bind_res (WriteTagToArray number WIRETYPE_FIXED64 p s) (\<lambda>(p1, s1).
       at_ptr (WriteLittleEndian64ToArray v) p1 s1)"

fun InternalSerializeUnknownFieldsToArray :: "fields \<Rightarrow> ptr \<Rightarrow> eps_out \<Rightarrow> (ptr \<times> eps_out) run" where
  "InternalSerializeUnknownFieldsToArray [] p s = ret (p, s)"
| "InternalSerializeUnknownFieldsToArray (field # fs) p s =
     bind_run (EnsureSpace p s) (\<lambda>(p1, s1).
     bind_run
       (case field of
          TYPE_VARINT n v \<Rightarrow> Some (WriteUInt64ToArray (sint n) v p1 s1)
        | TYPE_FIXED32 n v \<Rightarrow> Some (WriteFixed32ToArray (sint n) v p1 s1)
        | TYPE_FIXED64 n v \<Rightarrow> Some (WriteFixed64ToArray (sint n) v p1 s1)
        | TYPE_LENGTH_DELIMITED n str \<Rightarrow> WriteString n str p1 s1
        | TYPE_GROUP n g \<Rightarrow>
            bind_run (Some (WriteTagToArray (sint n) WIRETYPE_START_GROUP p1 s1)) (\<lambda>(p2, s2).
            bind_run (InternalSerializeUnknownFieldsToArray g p2 s2) (\<lambda>(p3, s3).
            bind_run (EnsureSpace p3 s3) (\<lambda>(p4, s4).
              Some (WriteTagToArray (sint n) WIRETYPE_END_GROUP p4 s4)))))
       (\<lambda>(p5, s5). InternalSerializeUnknownFieldsToArray fs p5 s5))"

text \<open>The sizes are \<^verbatim>\<open>size_t\<close>, far from wrapping for what fits in memory: \<open>nat\<close>.\<close>

fun ComputeUnknownFieldsSize :: "fields \<Rightarrow> nat" where
  "ComputeUnknownFieldsSize [] = 0"
| "ComputeUnknownFieldsSize (field # fs) =
     (case field of
        TYPE_VARINT n v \<Rightarrow> VarintSize32 (MakeTag (sint n) WIRETYPE_VARINT) + VarintSize64 v
      | TYPE_FIXED32 n v \<Rightarrow> VarintSize32 (MakeTag (sint n) WIRETYPE_FIXED32) + 4
      | TYPE_FIXED64 n v \<Rightarrow> VarintSize32 (MakeTag (sint n) WIRETYPE_FIXED64) + 8
      | TYPE_LENGTH_DELIMITED n str \<Rightarrow>
          VarintSize32 (MakeTag (sint n) WIRETYPE_LENGTH_DELIMITED) +
          VarintSize32 (word_of_nat (length str)) + length str
      | TYPE_GROUP n g \<Rightarrow>
          VarintSize32 (MakeTag (sint n) WIRETYPE_START_GROUP) + ComputeUnknownFieldsSize g +
          VarintSize32 (MakeTag (sint n) WIRETYPE_END_GROUP)) + ComputeUnknownFieldsSize fs"

text \<open>\<^verbatim>\<open>MessageSet\<close> items: only strings, in a group with fixed tags.\<close>

definition kMessageSetItemStartTag :: uint32 where "kMessageSetItemStartTag = MakeTag 1 WIRETYPE_START_GROUP"
definition kMessageSetItemEndTag :: uint32 where "kMessageSetItemEndTag = MakeTag 1 WIRETYPE_END_GROUP"
definition kMessageSetTypeIdTag :: uint32 where "kMessageSetTypeIdTag = MakeTag 2 WIRETYPE_VARINT"
definition kMessageSetMessageTag :: uint32 where "kMessageSetMessageTag = MakeTag 3 WIRETYPE_LENGTH_DELIMITED"

definition InternalSerializeLengthDelimitedNoTag :: "byte list \<Rightarrow> ptr \<Rightarrow> eps_out \<Rightarrow> (ptr \<times> eps_out) run" where
  "InternalSerializeLengthDelimitedNoTag str p s =
     bind_run (Some (at_ptr (WriteVarint32ToArray (word_of_nat (length str))) p s)) (\<lambda>(p1, s1).
       WriteRaw str p1 s1)"

fun InternalSerializeUnknownMessageSetItemsToArray :: "fields \<Rightarrow> ptr \<Rightarrow> eps_out \<Rightarrow> (ptr \<times> eps_out) run" where
  "InternalSerializeUnknownMessageSetItemsToArray [] p s = ret (p, s)"
| "InternalSerializeUnknownMessageSetItemsToArray (field # fs) p s =
     bind_run
       (case field of
          TYPE_LENGTH_DELIMITED n str \<Rightarrow>
            bind_run (EnsureSpace p s) (\<lambda>(p1, s1).
            bind_run (Some (at_ptr (WriteVarint32ToArray kMessageSetItemStartTag) p1 s1)) (\<lambda>(p2, s2).
            bind_run (Some (at_ptr (WriteVarint32ToArray kMessageSetTypeIdTag) p2 s2)) (\<lambda>(p3, s3).
            bind_run (Some (at_ptr (WriteVarint32ToArray n) p3 s3)) (\<lambda>(p4, s4).
            bind_run (Some (at_ptr (WriteVarint32ToArray kMessageSetMessageTag) p4 s4)) (\<lambda>(p5, s5).
            bind_run (InternalSerializeLengthDelimitedNoTag str p5 s5) (\<lambda>(p6, s6).
            bind_run (EnsureSpace p6 s6) (\<lambda>(p7, s7).
              Some (at_ptr (WriteVarint32ToArray kMessageSetItemEndTag) p7 s7))))))))
        | _ \<Rightarrow> ret (p, s))
       (\<lambda>(p5, s5). InternalSerializeUnknownMessageSetItemsToArray fs p5 s5)"

fun ComputeUnknownMessageSetItemsSize :: "fields \<Rightarrow> nat" where
  "ComputeUnknownMessageSetItemsSize [] = 0"
| "ComputeUnknownMessageSetItemsSize (field # fs) =
     (case field of
        TYPE_LENGTH_DELIMITED n str \<Rightarrow>
          (VarintSize32 kMessageSetItemStartTag + VarintSize32 kMessageSetItemEndTag +
           VarintSize32 kMessageSetTypeIdTag + VarintSize32 kMessageSetMessageTag) +
          VarintSize32 n + VarintSize32 (word_of_nat (length str)) + length str
      | _ \<Rightarrow> 0) + ComputeUnknownMessageSetItemsSize fs"

section \<open>The reference encoding\<close>

definition tag_bytes :: "uint32 \<Rightarrow> WireType \<Rightarrow> byte list" where
  "tag_bytes n ty = varint_bytes (unat (push_bit 3 n OR wire_code ty))"

fun field_bytes :: "unknown_field \<Rightarrow> byte list" where
  "field_bytes (TYPE_VARINT n v) = tag_bytes n WIRETYPE_VARINT @ varint_bytes (unat v)"
| "field_bytes (TYPE_FIXED32 n v) = tag_bytes n WIRETYPE_FIXED32 @ le_bytes 4 v"
| "field_bytes (TYPE_FIXED64 n v) = tag_bytes n WIRETYPE_FIXED64 @ le_bytes 8 v"
| "field_bytes (TYPE_LENGTH_DELIMITED n str) =
     tag_bytes n WIRETYPE_LENGTH_DELIMITED @ varint_bytes (length str) @ str"
| "field_bytes (TYPE_GROUP n g) =
     tag_bytes n WIRETYPE_START_GROUP @ concat (map field_bytes g) @ tag_bytes n WIRETYPE_END_GROUP"

definition fields_bytes :: "fields \<Rightarrow> byte list" where
  "fields_bytes fs = concat (map field_bytes fs)"

text \<open>Strings the runtime can handle are shorter than 2 GB.\<close>

fun short_strings :: "unknown_field \<Rightarrow> bool" where
  "short_strings (TYPE_LENGTH_DELIMITED n str) \<longleftrightarrow> length str < 2 ^ 31"
| "short_strings (TYPE_GROUP n g) \<longleftrightarrow> list_all short_strings g"
| "short_strings _ \<longleftrightarrow> True"

lemma fields_bytes_simps [simp]:
  "fields_bytes [] = []"
  "fields_bytes (f # fs) = field_bytes f @ fields_bytes fs"
  "fields_bytes (fs @ gs) = fields_bytes fs @ fields_bytes gs"
  by (simp_all add: fields_bytes_def)

lemma MakeTag_sint: "MakeTag (sint n) ty = push_bit 3 n OR wire_code ty"
  by (simp add: MakeTag_def)

lemma VarintSize32_tag: "VarintSize32 (MakeTag (sint n) ty) = length (tag_bytes n ty)"
  by (simp only: VarintSize32_length MakeTag_sint tag_bytes_def)

lemma ComputeUnknownFieldsSize_length:
  "list_all short_strings fs \<Longrightarrow> ComputeUnknownFieldsSize fs = length (fields_bytes fs)"
proof (induction fs rule: ComputeUnknownFieldsSize.induct)
  case (2 field fs)
  show ?case
  proof (cases field)
    case (TYPE_LENGTH_DELIMITED n str)
    have "unat (word_of_nat (length str) :: uint32) = length str"
      using 2(3) TYPE_LENGTH_DELIMITED by (simp add: unat_of_nat)
    then show ?thesis
      using 2 TYPE_LENGTH_DELIMITED
      by (simp add: VarintSize32_tag VarintSize32_length [of "word_of_nat (length str)"])
  next
    case (TYPE_GROUP n g)
    then show ?thesis using 2 by (simp add: VarintSize32_tag fields_bytes_def)
  qed (use 2 in \<open>simp_all add: VarintSize32_tag VarintSize64_length\<close>)
qed simp

section \<open>Serializing to an array\<close>

text \<open>
  A stream on the array \<open>a\<close> that may be used up to \<open>e\<close>; \<open>written\<close> is the state after \<open>bs\<close> were
  written at \<open>p\<close>.
\<close>

definition on_array :: "byte list \<Rightarrow> nat \<Rightarrow> eps_out \<Rightarrow> bool" where
  "on_array a e s \<longleftrightarrow> eo_blocks s = [a] \<and> eo_end s = (Block 0, e) \<and> e \<le> length a"

definition written :: "nat \<Rightarrow> byte list \<Rightarrow> byte list \<Rightarrow> eps_out \<Rightarrow> ptr \<times> eps_out" where
  "written p bs a s = ((Block 0, p + length bs), s\<lparr>eo_blocks := [overwrite p bs a]\<rparr>)"

lemma overwrite_append:
  "p + length bs \<le> length a \<Longrightarrow>
    overwrite (p + length bs) cs (overwrite p bs a) = overwrite p (bs @ cs) a"
  by (simp add: overwrite_def ac_simps)

lemma overwrite_Nil [simp]: "overwrite p [] a = a"
  by (simp add: overwrite_def)

lemma at_ptr_written:
  assumes "on_array a e s" and "p + length bs \<le> e"
  shows "at_ptr (\<lambda>i m. put i bs m) (Block 0, p) s = Inr (written p bs a s)"
  using assms by (simp add: at_ptr_def on_array_def put_def block_of_def set_block_def written_def)

lemma copy_to_written:
  "on_array a e s \<Longrightarrow> p + length bs \<le> e \<Longrightarrow> copy_to bs (Block 0, p) s = Inr (written p bs a s)"
  unfolding copy_to_def by (rule at_ptr_written)

lemma on_array_written:
  "on_array a e s \<Longrightarrow> p + length bs \<le> e \<Longrightarrow>
    on_array (overwrite p bs a) e (s\<lparr>eo_blocks := [overwrite p bs a]\<rparr>)"
  by (simp add: on_array_def)

lemma written_then:
  "on_array a e s \<Longrightarrow> p + length bs + length cs \<le> e \<Longrightarrow>
    written (p + length bs) cs (overwrite p bs a) (s\<lparr>eo_blocks := [overwrite p bs a]\<rparr>) =
      written p (bs @ cs) a s"
  by (simp add: written_def on_array_def overwrite_append add.assoc)

text \<open>A writer, a total function of state and position, that writes exactly \<open>bs\<close> while it has room.\<close>

definition writes :: "(ptr \<Rightarrow> eps_out \<Rightarrow> (ptr \<times> eps_out) run) \<Rightarrow> byte list \<Rightarrow> bool" where
  "writes w bs \<longleftrightarrow>
     (\<forall>a e s p. on_array a e s \<and> p + length bs \<le> e \<longrightarrow> w (Block 0, p) s = ret (written p bs a s))"

lemma writesD:
  "writes w bs \<Longrightarrow> on_array a e s \<Longrightarrow> p + length bs \<le> e \<Longrightarrow> w (Block 0, p) s = ret (written p bs a s)"
  by (simp add: writes_def)

lemma writes_comp:
  assumes "writes v bs" and "writes w cs"
  shows "writes (\<lambda>p s. bind_run (v p s) (\<lambda>(q, t). w q t)) (bs @ cs)"
  unfolding writes_def
proof (intro allI impI)
  fix a e s p assume a: "on_array a e s \<and> p + length (bs @ cs) \<le> e"
  then have "v (Block 0, p) s = ret (written p bs a s)" by (intro writesD [OF assms(1)]) auto
  moreover have "w (Block 0, p + length bs) (s\<lparr>eo_blocks := [overwrite p bs a]\<rparr>) =
      ret (written (p + length bs) cs (overwrite p bs a) (s\<lparr>eo_blocks := [overwrite p bs a]\<rparr>))"
    using a by (intro writesD [OF assms(2)] on_array_written) auto
  ultimately show "bind_run (v (Block 0, p) s) (\<lambda>(q, t). w q t) = ret (written p (bs @ cs) a s)"
    using written_then [of a e s p bs cs] a by (simp add: written_def ret_def)
qed

lemma written_Nil: "on_array a e s \<Longrightarrow> written p [] a s = ((Block 0, p), s)"
  unfolding written_def on_array_def by (cases s) simp

lemma writes_Nil: "writes (\<lambda>p s. ret (p, s)) []"
  by (auto simp: writes_def written_Nil)

lemma writes_put: "(\<And>p m. f p m = put p bs m) \<Longrightarrow> writes (\<lambda>p s. Some (at_ptr f p s)) bs"
proof -
  assume "\<And>p m. f p m = put p bs m"
  then have "f = (\<lambda>p m. put p bs m)" by (intro ext)
  then show ?thesis by (auto simp: writes_def at_ptr_written ret_def)
qed

lemma writes_copy: "writes (\<lambda>p s. Some (copy_to bs p s)) bs"
  by (auto simp: writes_def copy_to_written ret_def)

text \<open>\<^verbatim>\<open>EnsureSpace\<close> before a writer that writes something does nothing.\<close>

lemma writes_EnsureSpace:
  assumes "writes w bs" and "bs \<noteq> []"
  shows "writes (\<lambda>p s. bind_run (EnsureSpace p s) (\<lambda>(q, t). w q t)) bs"
  unfolding writes_def
proof (intro allI impI)
  fix a e s p assume a: "on_array a e s \<and> p + length bs \<le> e"
  with assms(2) have "EnsureSpace (Block 0, p) s = ret ((Block 0, p), s)"
    by (auto simp: EnsureSpace_def ptr_ge_def on_array_def neq_Nil_conv)
  then show "bind_run (EnsureSpace (Block 0, p) s) (\<lambda>(q, t). w q t) = ret (written p bs a s)"
    using assms(1) a by (simp add: writes_def)
qed

lemma writes_WriteRaw: "writes (WriteRaw bs) bs"
  unfolding writes_def
proof (intro allI impI)
  fix a e s p assume "on_array a e s \<and> p + length bs \<le> e"
  then show "WriteRaw bs (Block 0, p) s = ret (written p bs a s)"
    by (auto simp: WriteRaw_def copy_to_written ret_def on_array_def)
qed

lemma writes_tag: "writes (\<lambda>p s. Some (WriteTagToArray (sint n) ty p s)) (tag_bytes n ty)"
  unfolding WriteTagToArray_def
  by (rule writes_put) (simp add: WriteVarint32ToArray_def UnsafeVarint_put MakeTag_sint tag_bytes_def)

lemma Some_bind_res: "Some (bind_res m f) = bind_run (Some m) (\<lambda>x. Some (f x))"
  by (cases m) simp_all

lemma case_prod_Some: "Some (case x of (a, b) \<Rightarrow> f a b) = (case x of (a, b) \<Rightarrow> Some (f a b))"
  by (simp split: prod.split)

lemmas writes_step = writes_comp [OF writes_tag]

lemma writes_scalars:
  "writes (\<lambda>p s. Some (WriteUInt64ToArray (sint n) v p s)) (field_bytes (TYPE_VARINT n v))"
  "writes (\<lambda>p s. Some (WriteFixed32ToArray (sint n) w p s)) (field_bytes (TYPE_FIXED32 n w))"
  "writes (\<lambda>p s. Some (WriteFixed64ToArray (sint n) v p s)) (field_bytes (TYPE_FIXED64 n v))"
  unfolding WriteUInt64ToArray_def WriteFixed32ToArray_def WriteFixed64ToArray_def Some_bind_res
    case_prod_Some field_bytes.simps
  by (intro writes_step writes_put;
      simp add: WriteVarint64ToArray_def UnsafeVarint_put WriteLittleEndian32ToArray_def
        WriteLittleEndian64ToArray_def)+

lemma tag_bytes_pos: "0 < length (tag_bytes n ty)"
  by (simp add: tag_bytes_def)

lemma TagSize_length: "TagSize t = length (varint_bytes (unat t))"
proof -
  have "unat t < 2 ^ 32" using unsigned_less [of t] by simp
  then show ?thesis
    by (simp add: TagSize_def word_less_nat_alt varint_bytes.simps div_mult2_eq [symmetric]
        div_less_iff_less_mult)
qed

lemma writes_WriteLengthDelim:
  "writes (\<lambda>p s. Some (WriteLengthDelim n k p s))
     (tag_bytes n WIRETYPE_LENGTH_DELIMITED @ varint_bytes (unat k))"
  unfolding WriteLengthDelim_def WriteTag_def Some_bind_res case_prod_Some
  by (intro writes_comp writes_put)
    (simp_all add: UnsafeVarint_put UnsafeWriteSize_put tag_bytes_def wire_code_def)

lemma writes_WriteString:
  assumes "length str < 2 ^ 31"
  shows "writes (WriteString n str) (field_bytes (TYPE_LENGTH_DELIMITED n str))"
proof -
  let ?b = "field_bytes (TYPE_LENGTH_DELIMITED n str)"
  have k: "unat (word_of_nat (length str) :: uint32) = length str"
    using assms by (simp add: unat_of_nat)
  have outline: "writes (WriteStringOutline n str) ?b"
    unfolding WriteStringOutline_def
    by (rule writes_EnsureSpace)
      (use writes_comp [OF writes_WriteLengthDelim writes_WriteRaw, of n "word_of_nat (length str)" str]
        in \<open>simp_all add: k tag_bytes_def\<close>)
  have "writes (\<lambda>p s. Some (bind_res (at_ptr (UnsafeVarint (push_bit 3 n OR 2)) p s) (\<lambda>(p1, s1).
      bind_res (copy_to [word_of_nat (length str)] p1 s1) (\<lambda>(p2, s2). copy_to str p2 s2))))
    (tag_bytes n WIRETYPE_LENGTH_DELIMITED @ [word_of_nat (length str)] @ str)"
    unfolding Some_bind_res case_prod_Some
    by (intro writes_comp writes_put writes_copy)
      (simp add: UnsafeVarint_put tag_bytes_def wire_code_def)
  then have inline: "length str < 128 \<Longrightarrow> writes (\<lambda>p s. Some (bind_res (at_ptr (UnsafeVarint (push_bit 3 n OR 2)) p s) (\<lambda>(p1, s1).
      bind_res (copy_to [word_of_nat (length str)] p1 s1) (\<lambda>(p2, s2). copy_to str p2 s2)))) ?b"
    by (simp add: varint_bytes_one)
  show ?thesis
    unfolding writes_def
  proof (intro allI impI)
    fix a e s p assume a: "on_array a e s \<and> p + length ?b \<le> e"
    show "WriteString n str (Block 0, p) s = ret (written p ?b a s)"
      using writesD [OF outline, of a e s p] writesD [OF inline, of a e s p] a
      by (auto simp: WriteString_def Let_def simp del: field_bytes.simps)
  qed
qed

lemma writes_fields:
  "list_all short_strings fs \<Longrightarrow> writes (InternalSerializeUnknownFieldsToArray fs) (fields_bytes fs)"
proof (induction fs rule: ComputeUnknownFieldsSize.induct)
  case 1
  then show ?case using writes_Nil by (simp add: eta_contract_eq)
next
  case (2 field fs)
  have rest: "writes (InternalSerializeUnknownFieldsToArray fs) (fields_bytes fs)" using 2 by simp
  let ?w = "\<lambda>p1 s1. case field of
          TYPE_VARINT n v \<Rightarrow> Some (WriteUInt64ToArray (sint n) v p1 s1)
        | TYPE_FIXED32 n v \<Rightarrow> Some (WriteFixed32ToArray (sint n) v p1 s1)
        | TYPE_FIXED64 n v \<Rightarrow> Some (WriteFixed64ToArray (sint n) v p1 s1)
        | TYPE_LENGTH_DELIMITED n str \<Rightarrow> WriteString n str p1 s1
        | TYPE_GROUP n g \<Rightarrow>
            bind_run (Some (WriteTagToArray (sint n) WIRETYPE_START_GROUP p1 s1)) (\<lambda>(p2, s2).
            bind_run (InternalSerializeUnknownFieldsToArray g p2 s2) (\<lambda>(p3, s3).
            bind_run (EnsureSpace p3 s3) (\<lambda>(p4, s4).
              Some (WriteTagToArray (sint n) WIRETYPE_END_GROUP p4 s4))))"
  have w: "writes ?w (field_bytes field)"
  proof (cases field)
    case (TYPE_GROUP n g)
    have g: "writes (InternalSerializeUnknownFieldsToArray g) (fields_bytes g)"
      using 2 TYPE_GROUP by simp
    show ?thesis
      unfolding TYPE_GROUP unknown_field.case field_bytes.simps fields_bytes_def [symmetric]
      by (intro writes_step writes_comp [OF g] writes_EnsureSpace writes_tag) (simp add: tag_bytes_def)
  qed (use 2 writes_scalars writes_WriteString in \<open>simp_all del: field_bytes.simps add: eta_contract_eq\<close>)
  have "field_bytes field \<noteq> []" by (cases field) (simp_all add: tag_bytes_def)
  have "writes (\<lambda>p s. bind_run (EnsureSpace p s) (\<lambda>(p1, s1).
      bind_run (?w p1 s1) (\<lambda>(p5, s5). InternalSerializeUnknownFieldsToArray fs p5 s5))) (field_bytes field @ fields_bytes fs)"
    by (intro writes_EnsureSpace writes_comp w rest) (simp add: \<open>field_bytes field \<noteq> []\<close>)
  then show ?case by (simp only: InternalSerializeUnknownFieldsToArray.simps fields_bytes_simps writes_def) 
qed

end
