(* ===== verification/Parse_Context.thy ===== *)
theory Parse_Context
  imports Unknown_Fields
begin

unbundle bit_operations_syntax

text \<open>
  \<^verbatim>\<open>EpsCopyInputStream\<close> and \<^verbatim>\<open>ParseContext\<close> (\<^verbatim>\<open>parse_context.{h,cc}\<close>) with the
  parser of unknown fields. The input is a flat array, or the chunks of a
  \<^verbatim>\<open>ZeroCopyInputStream\<close>; up to \<^verbatim>\<open>kSlopBytes\<close> bytes behind \<^verbatim>\<open>buffer_end_\<close>
  may be read without a check, and a patch buffer makes the last bytes of a chunk and the first of the
  next contiguous. A pointer is a block and an offset, \<open>None\<close> the null pointer, and a read outside the
  block is a fault.
\<close>

section \<open>The stream\<close>

type_synonym cptr = "blk \<times> int"

record parse_ctx =
  cx_limit_end :: cptr
  cx_buffer_end :: cptr
  cx_next_chunk :: "blk option"
  cx_size :: int
  cx_limit :: int
  cx_zcis :: "byte list list option"
  cx_buffer :: "byte list"
  cx_blocks :: "byte list list"
  cx_last_tag_minus_1 :: uint32
  cx_overall_limit :: int
  cx_depth :: int
  cx_group_depth :: int

definition cx_block :: "parse_ctx \<Rightarrow> blk \<Rightarrow> byte list" where
  "cx_block c b =
     (case b of Patch \<Rightarrow> cx_buffer c
      | Block i \<Rightarrow> if i < length (cx_blocks c) then cx_blocks c ! i else [])"

definition cp_plus :: "cptr \<Rightarrow> int \<Rightarrow> cptr" where
  "cp_plus p n = (fst p, snd p + n)"

text \<open>Reading: the memory from a pointer on, and \<open>n\<close> bytes there.\<close>

definition mem_from :: "parse_ctx \<Rightarrow> cptr \<Rightarrow> byte list res" where
  "mem_from c p =
     (if 0 \<le> snd p \<and> snd p \<le> int (length (cx_block c (fst p)))
      then Inr (drop (nat (snd p)) (cx_block c (fst p))) else Inl OutOfBounds)"

definition cx_read :: "parse_ctx \<Rightarrow> cptr \<Rightarrow> int \<Rightarrow> byte list res" where
  "cx_read c p n = mem_read (cx_block c (fst p)) (snd p) n"

text \<open>A reader of \<open>Wire_Varint\<close> at a pointer, and a fixed-width load.\<close>

definition read_at ::
    "(byte list \<Rightarrow> (nat \<times> 'b) option res) \<Rightarrow> cptr \<Rightarrow> parse_ctx \<Rightarrow> (cptr \<times> 'b) option res" where
  "read_at f p c =
     bind_res (mem_from c p) (\<lambda>m. bind_res (f m) (\<lambda>r.
       Inr (map_option (\<lambda>(n, x). (cp_plus p (int n), x)) r)))"

definition load_at :: "(byte list \<Rightarrow> 'b res) \<Rightarrow> cptr \<Rightarrow> parse_ctx \<Rightarrow> 'b res" where
  "load_at f p c = bind_res (mem_from c p) f"

definition min0 :: "int \<Rightarrow> int" where
  "min0 n = min 0 n"

definition kSlop :: int where
  "kSlop = 16"

section \<open>Construction\<close>

definition INT_MIN :: int where
  "INT_MIN = - 2147483648"

definition ctx0 :: "int \<Rightarrow> parse_ctx" where
  "ctx0 depth =
     \<lparr>cx_limit_end = (Patch, 0), cx_buffer_end = (Patch, 0), cx_next_chunk = None, cx_size = 0,
      cx_limit = 0, cx_zcis = None, cx_buffer = replicate 32 0, cx_blocks = [],
      cx_last_tag_minus_1 = 0, cx_overall_limit = INT_MAX, cx_depth = depth, cx_group_depth = INT_MIN\<rparr>"

definition InitFrom_flat :: "byte list \<Rightarrow> parse_ctx \<Rightarrow> cptr \<times> parse_ctx" where
  "InitFrom_flat flat c =
     (let n = int (length flat); c0 = c\<lparr>cx_overall_limit := 0\<rparr> in
      if n > kSlop then
        ((Block 0, 0),
         c0\<lparr>cx_limit := kSlop, cx_limit_end := (Block 0, n - kSlop), cx_buffer_end := (Block 0, n - kSlop),
            cx_next_chunk := Some Patch, cx_blocks := [flat]\<rparr>)
      else
        ((Patch, 0),
         c0\<lparr>cx_buffer := overwrite 0 flat (cx_buffer c), cx_limit := 0, cx_limit_end := (Patch, n),
            cx_buffer_end := (Patch, n), cx_next_chunk := None\<rparr>))"

text \<open>From a stream: \<open>zcis\<close> are the chunks \<^verbatim>\<open>Next\<close> will return.\<close>

definition InitFrom_stream :: "byte list list \<Rightarrow> parse_ctx \<Rightarrow> (cptr \<times> parse_ctx) res" where
  "InitFrom_stream zs c =
     (case zs of
        data # rest \<Rightarrow>
          let n = int (length data);
              b = length (cx_blocks c);
              c0 = c\<lparr>cx_zcis := Some rest, cx_blocks := cx_blocks c @ [data], cx_limit := INT_MAX,
                     cx_overall_limit := cx_overall_limit c - n\<rparr> in
          if n > kSlop then
            Inr ((Block b, 0),
             c0\<lparr>cx_limit := INT_MAX - (n - kSlop), cx_limit_end := (Block b, n - kSlop),
                cx_buffer_end := (Block b, n - kSlop), cx_next_chunk := Some Patch\<rparr>)
          else
            bind_res (mem_write (cx_buffer c0) (2 * kSlop - n) data) (\<lambda>buf.
              Inr ((Patch, 2 * kSlop - n),
               c0\<lparr>cx_buffer := buf, cx_limit_end := (Patch, kSlop), cx_buffer_end := (Patch, kSlop),
                  cx_next_chunk := Some Patch\<rparr>))
      | [] \<Rightarrow>
          Inr ((Patch, 0),
           c\<lparr>cx_zcis := Some [], cx_limit := INT_MAX, cx_overall_limit := 0, cx_next_chunk := None,
             cx_size := 0, cx_limit_end := (Patch, 0), cx_buffer_end := (Patch, 0)\<rparr>))"

text \<open>\<^verbatim>\<open>ParseContext\<close> over a flat string view.\<close>

definition ParseContext_flat :: "int \<Rightarrow> byte list \<Rightarrow> cptr \<times> parse_ctx" where
  "ParseContext_flat depth flat = InitFrom_flat flat (ctx0 depth)"

section \<open>How a parse ends\<close>

definition LastTag :: "parse_ctx \<Rightarrow> uint32" where
  "LastTag c = cx_last_tag_minus_1 c + 1"

definition ConsumeEndGroup :: "uint32 \<Rightarrow> parse_ctx \<Rightarrow> bool \<times> parse_ctx" where
  "ConsumeEndGroup start_tag c = (cx_last_tag_minus_1 c = start_tag, c\<lparr>cx_last_tag_minus_1 := 0\<rparr>)"

definition EndedAtLimit :: "parse_ctx \<Rightarrow> bool" where
  "EndedAtLimit c \<longleftrightarrow> cx_last_tag_minus_1 c = 0"

definition EndedAtEndOfStream :: "parse_ctx \<Rightarrow> bool" where
  "EndedAtEndOfStream c \<longleftrightarrow> cx_last_tag_minus_1 c = 1"

definition SetLastTag :: "uint32 \<Rightarrow> parse_ctx \<Rightarrow> parse_ctx" where
  "SetLastTag tag c = c\<lparr>cx_last_tag_minus_1 := tag - 1\<rparr>"

definition SetEndOfStream :: "parse_ctx \<Rightarrow> parse_ctx" where
  "SetEndOfStream c = c\<lparr>cx_last_tag_minus_1 := 1\<rparr>"

section \<open>Limits\<close>

definition PushLimit :: "cptr \<Rightarrow> int \<Rightarrow> parse_ctx \<Rightarrow> int \<times> parse_ctx" where
  "PushLimit p lim c =
     (let lim' = lim + (snd p - snd (cx_buffer_end c)) in
      (cx_limit c - lim',
       c\<lparr>cx_limit_end := cp_plus (cx_buffer_end c) (min0 lim'), cx_limit := lim'\<rparr>))"

definition PopLimit :: "int \<Rightarrow> parse_ctx \<Rightarrow> bool \<times> parse_ctx" where
  "PopLimit delta c =
     (if \<not> EndedAtLimit c then (False, c)
      else
        let lim' = cx_limit c + delta in
        (True, c\<lparr>cx_limit := lim', cx_limit_end := cp_plus (cx_buffer_end c) (min0 lim')\<rparr>))"

definition BytesUntilLimit :: "cptr \<Rightarrow> parse_ctx \<Rightarrow> int" where
  "BytesUntilLimit p c = cx_limit c + (snd (cx_buffer_end c) - snd p)"

definition DataAvailable :: "cptr \<Rightarrow> parse_ctx \<Rightarrow> bool" where
  "DataAvailable p c \<longleftrightarrow> snd p < snd (cx_limit_end c)"

definition IsExceedingLimit :: "cptr \<Rightarrow> parse_ctx \<Rightarrow> bool" where
  "IsExceedingLimit p c \<longleftrightarrow>
     snd (cx_limit_end c) < snd p \<and>
     (cx_next_chunk c = None \<or> cx_limit c < snd p - snd (cx_buffer_end c))"

section \<open>Moving to the next buffer\<close>

lemma ReadTag_progress: "ReadTag m = Inr (Some (n, t)) \<Longrightarrow> 0 < n"
proof -
  have "varint_slow k m i (w :: uint32) = Inr (Some (n, t)) \<Longrightarrow> i < n" for k i w
    by (induction k m i w rule: varint_slow.induct)
      (subst (asm) varint_slow.simps, force simp: bind_res_eq_Inr Let_def split: if_splits)
  then show "ReadTag m = Inr (Some (n, t)) \<Longrightarrow> 0 < n"
    by (auto simp: ReadTag_def ReadTagFallback_def Let_def bind_res_eq_Inr split: if_splits) fastforce
qed

text \<open>
  Does the message end within the 16 bytes at the start of the patch buffer \<open>m\<close>, from offset \<open>i\<close>?
  The value behind a tag is skipped; the offset behind it, and the group depth, or the answer.
\<close>

definition slop_value :: "byte list \<Rightarrow> int \<Rightarrow> int \<Rightarrow> uint32 \<Rightarrow> (bool + (int \<times> int)) res" where
  "slop_value m i depth tag =
     (let t = tag AND 7 in
      if t = 0 then
        bind_res (VarintParse64 (drop (nat i) m)) (\<lambda>r.
          case r of None \<Rightarrow> Inr (Inl False) | Some (n, _) \<Rightarrow> Inr (Inr (i + int n, depth)))
      else if t = 1 then Inr (Inr (i + 8, depth))
      else if t = 2 then
        bind_res (ReadSize (drop (nat i) m)) (\<lambda>r.
          case r of None \<Rightarrow> Inr (Inl False)
          | Some (n, sz) \<Rightarrow>
              if sint sz > kSlop - (i + int n) then Inr (Inl False)
              else Inr (Inr (i + int n + sint sz, depth)))
      else if t = 3 then Inr (Inr (i, depth + 1))
      else if t = 4 then (if depth - 1 < 0 then Inr (Inl True) else Inr (Inr (i, depth - 1)))
      else if t = 5 then Inr (Inr (i + 4, depth))
      else Inr (Inl False))"

partial_function (option) ParseEndsInSlopRegion :: "byte list \<Rightarrow> int \<Rightarrow> int \<Rightarrow> bool run" where
  "ParseEndsInSlopRegion m overrun depth =
     (if overrun < kSlop then
        (case ReadTag (drop (nat overrun) m) of
           Inl e \<Rightarrow> Some (Inl e)
         | Inr None \<Rightarrow> ret False
         | Inr (Some (n, tag)) \<Rightarrow>
             let i = overrun + int n in
             if i > kSlop then ret False
             else if tag = 0 then ret True
             else
               (case slop_value m i depth tag of
                  Inl e \<Rightarrow> Some (Inl e)
                | Inr (Inl b) \<Rightarrow> ret b
                | Inr (Inr (i', depth')) \<Rightarrow> ParseEndsInSlopRegion m i' depth'))
      else ret False)"

text \<open>\<^verbatim>\<open>while (StreamNext(&data))\<close>: chunks of no bytes are passed over.\<close>

fun stream_chunks :: "byte list list \<Rightarrow> parse_ctx \<Rightarrow> (bool \<times> parse_ctx) res" where
  "stream_chunks [] c = Inr (False, c\<lparr>cx_zcis := Some [], cx_overall_limit := 0\<rparr>)"
| "stream_chunks (data # zs) c =
     (let n = int (length data);
          b = length (cx_blocks c);
          c1 = c\<lparr>cx_zcis := Some zs, cx_blocks := cx_blocks c @ [data], cx_size := n,
                 cx_overall_limit := cx_overall_limit c - n\<rparr> in
      if n > kSlop then
        bind_res (mem_write (cx_buffer c1) kSlop (take 16 data)) (\<lambda>buf.
          Inr (True, c1\<lparr>cx_buffer := buf, cx_next_chunk := Some (Block b), cx_buffer_end := (Patch, kSlop)\<rparr>))
      else if n > 0 then
        bind_res (mem_write (cx_buffer c1) kSlop data) (\<lambda>buf.
          Inr (True, c1\<lparr>cx_buffer := buf, cx_next_chunk := Some Patch, cx_buffer_end := (Patch, n)\<rparr>))
      else stream_chunks zs c1)"

definition end_of_stream :: "parse_ctx \<Rightarrow> cptr option \<times> parse_ctx" where
  "end_of_stream c =
     (Some (Patch, 0), c\<lparr>cx_next_chunk := None, cx_buffer_end := (Patch, kSlop), cx_size := 0\<rparr>)"

definition NextBuffer :: "int \<Rightarrow> int \<Rightarrow> parse_ctx \<Rightarrow> (cptr option \<times> parse_ctx) run" where
  "NextBuffer overrun depth c =
     (case cx_next_chunk c of
        None \<Rightarrow> ret (None, c)
      | Some (Block b) \<Rightarrow>
          ret (Some (Block b, 0),
            c\<lparr>cx_buffer_end := (Block b, cx_size c - kSlop), cx_next_chunk := Some Patch\<rparr>)
      | Some Patch \<Rightarrow>
          bind_run (Some (bind_res (cx_read c (cx_buffer_end c) kSlop) (\<lambda>slop. mem_write (cx_buffer c) 0 slop)))
            (\<lambda>buf.
              let c1 = c\<lparr>cx_buffer := buf\<rparr> in
              bind_run
                (if 0 < cx_overall_limit c1 then
                   (if depth < 0 then ret True
                    else bind_run (ParseEndsInSlopRegion buf overrun depth) (\<lambda>b. ret (\<not> b)))
                 else ret False)
                (\<lambda>more.
                  if more then
                    bind_run (Some (case cx_zcis c1 of None \<Rightarrow> Inl NullDeref | Some zs \<Rightarrow> stream_chunks zs c1))
                      (\<lambda>(got, c2). ret (if got then (Some (Patch, 0), c2) else end_of_stream c2))
                  else ret (end_of_stream c1))))"

definition Cx_Next :: "parse_ctx \<Rightarrow> (cptr option \<times> parse_ctx) run" where
  "Cx_Next c =
     bind_run (NextBuffer 0 (- 1) c) (\<lambda>(p, c1).
       case p of
         None \<Rightarrow> ret (None, SetEndOfStream (c1\<lparr>cx_limit_end := cx_buffer_end c1\<rparr>))
       | Some q \<Rightarrow>
           let lim = cx_limit c1 - (snd (cx_buffer_end c1) - snd q) in
           ret (Some q, c1\<lparr>cx_limit := lim, cx_limit_end := cp_plus (cx_buffer_end c1) (min0 lim)\<rparr>))"

partial_function (option) done_loop :: "int \<Rightarrow> int \<Rightarrow> parse_ctx \<Rightarrow> (cptr option \<times> bool \<times> parse_ctx) run" where
  "done_loop overrun depth c =
     bind_run (NextBuffer overrun depth c) (\<lambda>(p, c1).
       case p of
         None \<Rightarrow>
           if overrun \<noteq> 0 then ret (None, True, c1)
           else
             ret (Some (cx_buffer_end c1), True, SetEndOfStream (c1\<lparr>cx_limit_end := cx_buffer_end c1\<rparr>))
       | Some q \<Rightarrow>
           let c2 = c1\<lparr>cx_limit := cx_limit c1 - (snd (cx_buffer_end c1) - snd q)\<rparr>;
               q' = cp_plus q overrun;
               overrun' = snd q' - snd (cx_buffer_end c2) in
           if 0 \<le> overrun' then done_loop overrun' depth c2
           else ret (Some q', False, c2\<lparr>cx_limit_end := cp_plus (cx_buffer_end c2) (min0 (cx_limit c2))\<rparr>))"

definition DoneFallback :: "int \<Rightarrow> int \<Rightarrow> parse_ctx \<Rightarrow> (cptr option \<times> bool \<times> parse_ctx) run" where
  "DoneFallback overrun depth c =
     (if cx_limit c < overrun then ret (None, True, c) else done_loop overrun depth c)"

definition DoneWithCheck :: "cptr \<Rightarrow> int \<Rightarrow> parse_ctx \<Rightarrow> (cptr option \<times> bool \<times> parse_ctx) run" where
  "DoneWithCheck p d c =
     (if snd p < snd (cx_limit_end c) then ret (Some p, False, c)
      else
        let overrun = snd p - snd (cx_buffer_end c) in
        if overrun = cx_limit c then
          ret (if 0 < overrun \<and> cx_next_chunk c = None then None else Some p, True, c)
        else DoneFallback overrun d c)"

definition Done :: "cptr \<Rightarrow> parse_ctx \<Rightarrow> (cptr option \<times> bool \<times> parse_ctx) run" where
  "Done p c = DoneWithCheck p (cx_group_depth c) c"

section \<open>Strings\<close>

definition room :: "cptr \<Rightarrow> parse_ctx \<Rightarrow> int" where
  "room p c = snd (cx_buffer_end c) + kSlop - snd p"

text \<open>\<^verbatim>\<open>AppendSize\<close> with the appended bytes as a result.\<close>

partial_function (option) AppendSize ::
    "cptr \<Rightarrow> int \<Rightarrow> byte list \<Rightarrow> parse_ctx \<Rightarrow> (cptr option \<times> byte list \<times> parse_ctx) run" where
  "AppendSize p n acc c =
     (if cx_next_chunk c = None then ret (None, acc, c)
      else
        bind_run (Some (cx_read c p (room p c))) (\<lambda>bs.
          let acc' = acc @ bs; n' = n - room p c in
          if cx_limit c \<le> kSlop then ret (None, acc', c)
          else
            bind_run (Cx_Next c) (\<lambda>(q, c1).
              case q of
                None \<Rightarrow> ret (None, acc', c1)
              | Some q1 \<Rightarrow>
                  let q2 = cp_plus q1 kSlop in
                  if room q2 c1 < n' then AppendSize q2 n' acc' c1
                  else
                    bind_run (Some (cx_read c1 q2 n')) (\<lambda>bs'. ret (Some (cp_plus q2 n'), acc' @ bs', c1)))))"

definition Cx_Skip :: "cptr \<Rightarrow> int \<Rightarrow> parse_ctx \<Rightarrow> (cptr option \<times> parse_ctx) run" where
  "Cx_Skip p n c =
     (if n \<le> room p c then ret (Some (cp_plus p n), c)
      else bind_run (AppendSize p n [] c) (\<lambda>(q, _, c1). ret (q, c1)))"

text \<open>The fallbacks reserve memory and clear or keep the string.\<close>

definition Cx_ReadString :: "cptr \<Rightarrow> int \<Rightarrow> byte list \<Rightarrow> parse_ctx \<Rightarrow> (cptr option \<times> byte list \<times> parse_ctx) run" where
  "Cx_ReadString p n str c =
     (if n \<le> room p c then bind_run (Some (cx_read c p n)) (\<lambda>bs. ret (Some (cp_plus p n), bs, c))
      else AppendSize p n [] c)"

definition Cx_AppendString :: "cptr \<Rightarrow> int \<Rightarrow> byte list \<Rightarrow> parse_ctx \<Rightarrow> (cptr option \<times> byte list \<times> parse_ctx) run" where
  "Cx_AppendString p n str c =
     (if n \<le> room p c then bind_run (Some (cx_read c p n)) (\<lambda>bs. ret (Some (cp_plus p n), str @ bs, c))
      else AppendSize p n str c)"

definition ReadSizeAndPushLimitAndDepth :: "cptr \<Rightarrow> parse_ctx \<Rightarrow> (cptr option \<times> int \<times> parse_ctx) res" where
  "ReadSizeAndPushLimitAndDepth p c =
     bind_res (read_at ReadSize p c) (\<lambda>r.
       case r of
         None \<Rightarrow> Inr (None, 0, c)
       | Some (p1, sz) \<Rightarrow>
           (case PushLimit p1 (sint sz) c of (old, c1) \<Rightarrow>
              let c2 = c1\<lparr>cx_depth := cx_depth c1 - 1\<rparr> in
              Inr (if cx_depth c2 < 0 then None else Some p1, old, c2)))"

end
