(* ===== verification/Field_Parser.thy ===== *)
theory Field_Parser
  imports Parse_Context
begin

unbundle bit_operations_syntax

text \<open>
  The parser of fields a message does not know, \<^verbatim>\<open>FieldParser\<close> and
  \<^verbatim>\<open>WireFormatParser\<close> of \<^verbatim>\<open>parse_context.h\<close>. Both are templates over a helper
  class that collects the fields; the record \<open>field_helper\<close> has its member functions, and the two
  helpers of the source are defined here: \<^verbatim>\<open>UnknownFieldParserHelper\<close> fills an
  \<^verbatim>\<open>UnknownFieldSet\<close>, \<^verbatim>\<open>UnknownFieldLiteParserHelper\<close> appends to a string. The mutual
  recursion through groups carries fuel; \<open>None\<close> is running out of it.
\<close>

record 'u field_helper =
  fh_AddVarint :: "uint32 \<Rightarrow> uint64 \<Rightarrow> 'u \<Rightarrow> 'u"
  fh_AddFixed64 :: "uint32 \<Rightarrow> uint64 \<Rightarrow> 'u \<Rightarrow> 'u"
  fh_AddFixed32 :: "uint32 \<Rightarrow> uint32 \<Rightarrow> 'u \<Rightarrow> 'u"
  fh_ParseLengthDelimited ::
    "uint32 \<Rightarrow> cptr \<Rightarrow> parse_ctx \<Rightarrow> 'u \<Rightarrow> (cptr option \<times> parse_ctx \<times> 'u) run"
  fh_group_begin :: "uint32 \<Rightarrow> 'u \<Rightarrow> 'u"
  fh_group_end :: "uint32 \<Rightarrow> bool \<Rightarrow> 'u \<Rightarrow> 'u \<Rightarrow> 'u"

text \<open>
  \<^verbatim>\<open>helper->ParseGroup\<close> is \<open>fh_group_begin\<close>, \<^verbatim>\<open>ctx->ParseGroup\<close> on what that
  returns, and \<open>fh_group_end\<close> with the success of the parse, the helper's state before and the
  child's state after.
\<close>

function (sequential) WireFormatParser ::
      "'u field_helper \<Rightarrow> nat \<Rightarrow> cptr \<Rightarrow> parse_ctx \<Rightarrow> 'u \<Rightarrow> (cptr option \<times> parse_ctx \<times> 'u) run"
  and FieldParser ::
      "'u field_helper \<Rightarrow> nat \<Rightarrow> uint32 \<Rightarrow> cptr \<Rightarrow> parse_ctx \<Rightarrow> 'u \<Rightarrow> (cptr option \<times> parse_ctx \<times> 'u) run"
  and Cx_ParseGroup ::
      "'u field_helper \<Rightarrow> nat \<Rightarrow> uint32 \<Rightarrow> cptr \<Rightarrow> parse_ctx \<Rightarrow> 'u \<Rightarrow> (cptr option \<times> parse_ctx \<times> 'u) run"
where
  "WireFormatParser H 0 p c u = None"
| "WireFormatParser H (Suc k) p c u =
     bind_run (Done p c) (\<lambda>(q, done, c1).
       if done then ret (q, c1, u)
       else case q of
         None \<Rightarrow> Some (Inl NullDeref)
       | Some p1 \<Rightarrow>
           bind_run (Some (read_at ReadTag p1 c1)) (\<lambda>r.
             case r of
               None \<Rightarrow> ret (None, c1, u)
             | Some (p2, tag) \<Rightarrow>
                 if tag = 0 \<or> tag AND 7 = 4 then ret (Some p2, SetLastTag tag c1, u)
                 else
                   bind_run (FieldParser H k tag p2 c1 u) (\<lambda>(q3, c3, u3).
                     case q3 of
                       None \<Rightarrow> ret (None, c3, u3)
                     | Some p3 \<Rightarrow> WireFormatParser H k p3 c3 u3)))"
| "FieldParser H k tag p c u =
     (let number = drop_bit 3 tag; t = tag AND 7 in
      if number = 0 then ret (None, c, u)
      else if t = 0 then
        bind_run (Some (read_at VarintParse64 p c)) (\<lambda>r.
          case r of None \<Rightarrow> ret (None, c, u)
          | Some (p1, v) \<Rightarrow> ret (Some p1, c, fh_AddVarint H number v u))
      else if t = 1 then
        bind_run (Some (load_at UnalignedLoad64 p c)) (\<lambda>v. ret (Some (cp_plus p 8), c, fh_AddFixed64 H number v u))
      else if t = 2 then fh_ParseLengthDelimited H number p c u
      else if t = 3 then
        bind_run (Cx_ParseGroup H k (number * 8 + 3) p c (fh_group_begin H number u)) (\<lambda>(q, c1, g).
          ret (q, c1, fh_group_end H number (q \<noteq> None) u g))
      else if t = 4 then Some (Inl FatalLog)
      else if t = 5 then
        bind_run (Some (load_at UnalignedLoad32 p c)) (\<lambda>v. ret (Some (cp_plus p 4), c, fh_AddFixed32 H number v u))
      else ret (None, c, u))"
| "Cx_ParseGroup H 0 tag p c u = None"
| "Cx_ParseGroup H (Suc k) tag p c u =
     (let c1 = c\<lparr>cx_depth := cx_depth c - 1\<rparr> in
      if cx_depth c1 < 0 then ret (None, c1, u)
      else
        bind_run (WireFormatParser H k p (c1\<lparr>cx_group_depth := cx_group_depth c1 + 1\<rparr>) u) (\<lambda>(q, c2, u2).
          let c3 = c2\<lparr>cx_group_depth := cx_group_depth c2 - 1, cx_depth := cx_depth c2 + 1\<rparr> in
          case ConsumeEndGroup tag c3 of (matched, c4) \<Rightarrow>
            if \<not> matched then ret (None, c4, u2) else ret (q, c4, u2)))"
  by pat_completeness auto
termination
  by (relation "measure (\<lambda>x. case x of
        Inl (H, k, p, c, u) \<Rightarrow> 3 * k
      | Inr (Inl (H, k, tag, p, c, u)) \<Rightarrow> 3 * k + 2
      | Inr (Inr (H, k, tag, p, c, u)) \<Rightarrow> 3 * k + 1)") auto

section \<open>The two helpers\<close>

definition UnknownFieldParserHelper_ParseLengthDelimited ::
    "uint32 \<Rightarrow> cptr \<Rightarrow> parse_ctx \<Rightarrow> fields \<Rightarrow> (cptr option \<times> parse_ctx \<times> fields) run" where
  "UnknownFieldParserHelper_ParseLengthDelimited num p c u =
     bind_run (Some (read_at ReadSize p c)) (\<lambda>r.
       case r of
         None \<Rightarrow> ret (None, c, AddLengthDelimited num [] u)
       | Some (p1, sz) \<Rightarrow>
           bind_run (Cx_ReadString p1 (sint sz) [] c) (\<lambda>(q, str, c1).
             ret (q, c1, AddLengthDelimited num str u)))"

definition UnknownFieldParserHelper :: "fields field_helper" where
  "UnknownFieldParserHelper =
     \<lparr>fh_AddVarint = AddVarint, fh_AddFixed64 = AddFixed64, fh_AddFixed32 = AddFixed32,
      fh_ParseLengthDelimited = UnknownFieldParserHelper_ParseLengthDelimited,
      fh_group_begin = (\<lambda>num u. []),
      fh_group_end = (\<lambda>num ok u g. AddGroup num g u)\<rparr>"

text \<open>The lite helper: a string, or the null pointer when the fields are to be dropped.\<close>

definition Lite_ParseLengthDelimited ::
    "uint32 \<Rightarrow> cptr \<Rightarrow> parse_ctx \<Rightarrow> byte list option \<Rightarrow> (cptr option \<times> parse_ctx \<times> byte list option) run" where
  "Lite_ParseLengthDelimited num p c u =
     bind_run (Some (read_at ReadSize p c)) (\<lambda>r.
       case r of
         None \<Rightarrow> ret (None, c, u)
       | Some (p1, sz) \<Rightarrow>
           (case u of
              None \<Rightarrow> bind_run (Cx_Skip p1 (sint sz) c) (\<lambda>(q, c1). ret (q, c1, None))
            | Some str \<Rightarrow>
                let str1 = WriteVarint (ucast sz) (WriteVarint (ucast (num * 8 + 2)) str) in
                bind_run (Cx_AppendString p1 (sint sz) str1 c) (\<lambda>(q, str2, c1). ret (q, c1, Some str2))))"

definition UnknownFieldLiteParserHelper :: "byte list option field_helper" where
  "UnknownFieldLiteParserHelper =
     \<lparr>fh_AddVarint = (\<lambda>num v. map_option (\<lambda>str. WriteVarint v (WriteVarint (ucast (num * 8)) str))),
      fh_AddFixed64 = (\<lambda>num v. map_option (\<lambda>str. WriteVarint (ucast (num * 8 + 1)) str @ le_bytes 8 v)),
      fh_AddFixed32 = (\<lambda>num v. map_option (\<lambda>str. WriteVarint (ucast (num * 8 + 5)) str @ le_bytes 4 v)),
      fh_ParseLengthDelimited = Lite_ParseLengthDelimited,
      fh_group_begin = (\<lambda>num. map_option (\<lambda>str. WriteVarint (ucast (num * 8 + 3)) str)),
      fh_group_end = (\<lambda>num ok u g.
        if ok then map_option (\<lambda>str. WriteVarint (ucast (num * 8 + 4)) str) g else g)\<rparr>"

text \<open>The entry points.\<close>

definition UnknownGroupParse :: "nat \<Rightarrow> fields \<Rightarrow> cptr \<Rightarrow> parse_ctx \<Rightarrow> (cptr option \<times> parse_ctx \<times> fields) run" where
  "UnknownGroupParse k u p c = WireFormatParser UnknownFieldParserHelper k p c u"

definition UnknownFieldParse ::
    "nat \<Rightarrow> uint32 \<Rightarrow> fields \<Rightarrow> cptr \<Rightarrow> parse_ctx \<Rightarrow> (cptr option \<times> parse_ctx \<times> fields) run" where
  "UnknownFieldParse k tag u p c = FieldParser UnknownFieldParserHelper k tag p c u"

definition UnknownGroupLiteParse ::
    "nat \<Rightarrow> byte list option \<Rightarrow> cptr \<Rightarrow> parse_ctx \<Rightarrow> (cptr option \<times> parse_ctx \<times> byte list option) run" where
  "UnknownGroupLiteParse k u p c = WireFormatParser UnknownFieldLiteParserHelper k p c u"

definition UnknownFieldLiteParse ::
    "nat \<Rightarrow> uint32 \<Rightarrow> byte list option \<Rightarrow> cptr \<Rightarrow> parse_ctx \<Rightarrow> (cptr option \<times> parse_ctx \<times> byte list option) run" where
  "UnknownFieldLiteParse k tag u p c = FieldParser UnknownFieldLiteParserHelper k tag p c u"

end
