(* ===== verification/Field_Parser_Spec.thy ===== *)
theory Field_Parser_Spec
  imports Field_Parser
begin

unbundle bit_operations_syntax

text \<open>
  What the parser of unknown fields computes on a flat array: a reference parser on the list of
  the input's bytes, and the proof that the parser with its slop region and patch buffer refines
  it, reads no byte outside its buffers, and returns. A helper class is described by the contract
  \<open>field_sink\<close>; both helpers of the source fulfil it.
\<close>

section \<open>The reference parser\<close>

definition dec_tag :: "byte list \<Rightarrow> (nat \<times> uint32) option" where
  "dec_tag bs = varint_word (varint_value 5 bs)"

definition dec_varint :: "byte list \<Rightarrow> (nat \<times> uint64) option" where
  "dec_varint bs = varint_word (varint_value 10 bs)"

definition dec_size :: "byte list \<Rightarrow> (nat \<times> uint32) option" where
  "dec_size bs = varint_word (size_limit (varint_value 5 bs))"

text \<open>A parse ends with the input, or on a zero or end-group tag.\<close>

datatype ending = AtEnd | AtTag uint32

definition ref_string :: "byte list \<Rightarrow> (byte list \<times> byte list) option" where
  "ref_string bs =
     (case dec_size bs of
        None \<Rightarrow> None
      | Some (n, sz) \<Rightarrow>
          if n + unat sz \<le> length bs then Some (take (unat sz) (drop n bs), drop (n + unat sz) bs) else None)"

definition ref_scalar :: "uint32 \<Rightarrow> byte list \<Rightarrow> (unknown_field \<times> byte list) option" where
  "ref_scalar tag bs =
     (let number = drop_bit 3 tag; t = tag AND 7 in
      if t = 0 then map_option (\<lambda>(n, v). (TYPE_VARINT number v, drop n bs)) (dec_varint bs)
      else if t = 1 then
        (if 8 \<le> length bs then Some (TYPE_FIXED64 number (word_of_nat (le_value (take 8 bs))), drop 8 bs)
         else None)
      else if t = 2 then map_option (\<lambda>(str, rest). (TYPE_LENGTH_DELIMITED number str, rest)) (ref_string bs)
      else if t = 5 then
        (if 4 \<le> length bs then Some (TYPE_FIXED32 number (word_of_nat (le_value (take 4 bs))), drop 4 bs)
         else None)
      else None)"

text \<open>\<open>d\<close> more groups may be nested; the outer option is the fuel.\<close>

function (sequential)
      ref_fields :: "nat \<Rightarrow> nat \<Rightarrow> byte list \<Rightarrow> (fields \<times> ending \<times> byte list) option option"
  and ref_field :: "nat \<Rightarrow> nat \<Rightarrow> uint32 \<Rightarrow> byte list \<Rightarrow> (unknown_field \<times> byte list) option option"
  and ref_group :: "nat \<Rightarrow> nat \<Rightarrow> uint32 \<Rightarrow> byte list \<Rightarrow> (fields \<times> byte list) option option"
where
  "ref_fields 0 d bs = None"
| "ref_fields (Suc k) d bs =
     (if bs = [] then Some (Some ([], AtEnd, []))
      else case dec_tag bs of
        None \<Rightarrow> Some None
      | Some (n, tag) \<Rightarrow>
          if tag = 0 \<or> tag AND 7 = 4 then Some (Some ([], AtTag tag, drop n bs))
          else case ref_field k d tag (drop n bs) of
            None \<Rightarrow> None
          | Some None \<Rightarrow> Some None
          | Some (Some (f, bs2)) \<Rightarrow>
              map_option (map_option (\<lambda>(fs, e, bs3). (f # fs, e, bs3))) (ref_fields k d bs2))"
| "ref_field k d tag bs =
     (if drop_bit 3 tag = 0 then Some None
      else if tag AND 7 = 3 then
        map_option (map_option (\<lambda>(g, rest). (TYPE_GROUP (drop_bit 3 tag) g, rest))) (ref_group k d tag bs)
      else Some (ref_scalar tag bs))"
| "ref_group 0 d tag bs = None"
| "ref_group (Suc k) d tag bs =
     (if d = 0 then Some None
      else
        map_option (\<lambda>r. case r of
            Some (g, AtTag t, rest) \<Rightarrow> if t = tag + 1 then Some (g, rest) else None
          | _ \<Rightarrow> None)
          (ref_fields k (d - 1) bs))"
  by pat_completeness auto
termination
  by (relation "measure (\<lambda>x. case x of
        Inl (k, d, bs) \<Rightarrow> 3 * k
      | Inr (Inl (k, d, tag, bs)) \<Rightarrow> 3 * k + 2
      | Inr (Inr (k, d, tag, bs)) \<Rightarrow> 3 * k + 1)") auto

declare ref_fields.simps [simp del] ref_field.simps [simp del] ref_group.simps [simp del]

section \<open>Positions in the input\<close>

text \<open>
  A context that reads a flat array, before and after the last 16 bytes went to the patch buffer.
  \<open>input_at c p bs g\<close>: behind \<open>p\<close> are the bytes \<open>bs\<close> of the input and then the bytes \<open>g\<close> that only
  the buffer holds; \<open>beyond c p\<close>: the pointer has passed the end of the input.
\<close>

definition flat :: "parse_ctx \<Rightarrow> bool" where
  "flat c \<longleftrightarrow>
     cx_limit_end c = cx_buffer_end c \<and> length (cx_buffer c) = 32 \<and> cx_overall_limit c = 0 \<and>
     0 \<le> snd (cx_buffer_end c) \<and>
     (cx_limit c = 16 \<and> cx_next_chunk c = Some Patch \<and> fst (cx_buffer_end c) = Block 0 \<and>
        int (length (cx_block c (Block 0))) = snd (cx_buffer_end c) + 16 \<or>
      cx_limit c = 0 \<and> cx_next_chunk c = None \<and> fst (cx_buffer_end c) = Patch \<and>
        snd (cx_buffer_end c) \<le> 16)"

definition input_at :: "parse_ctx \<Rightarrow> cptr \<Rightarrow> byte list \<Rightarrow> byte list \<Rightarrow> bool" where
  "input_at c p bs g \<longleftrightarrow>
     flat c \<and> fst p = fst (cx_buffer_end c) \<and> 0 \<le> snd p \<and>
     int (length bs) = snd (cx_buffer_end c) + cx_limit c - snd p \<and>
     drop (nat (snd p)) (cx_block c (fst p)) = bs @ g"

definition beyond :: "parse_ctx \<Rightarrow> cptr \<Rightarrow> bool" where
  "beyond c p \<longleftrightarrow>
     flat c \<and> cx_limit c = 0 \<and> fst p = fst (cx_buffer_end c) \<and> snd (cx_buffer_end c) < snd p"

lemma flat_block_length:
  "flat c \<Longrightarrow> int (length (cx_block c (fst (cx_buffer_end c)))) = (if cx_limit c = 0 then 32 else snd (cx_buffer_end c) + 16)"
  by (auto simp: flat_def cx_block_def split: blk.splits)

lemma input_at_mem:
  assumes "input_at c p bs g"
  shows "mem_from c p = Inr (bs @ g)"
proof -
  have "snd p \<le> int (length (cx_block c (fst p)))"
    using assms flat_block_length [of c] by (auto simp: input_at_def flat_def)
  then show ?thesis using assms unfolding mem_from_def input_at_def by auto
qed

lemma input_at_advance:
  assumes "input_at c p bs g" and "n \<le> length bs"
  shows "input_at c (cp_plus p (int n)) (drop n bs) g"
proof -
  have e: "drop (nat (snd p)) (cx_block c (fst p)) = bs @ g" and "0 \<le> snd p"
    using assms(1) by (auto simp: input_at_def)
  have "drop (nat (snd p + int n)) (cx_block c (fst p)) = drop n (drop (nat (snd p)) (cx_block c (fst p)))"
    using \<open>0 \<le> snd p\<close> by (simp add: nat_add_distrib add.commute)
  also have "\<dots> = drop n bs @ g" unfolding e using assms(2) by simp
  finally have "drop (nat (snd p + int n)) (cx_block c (fst p)) = drop n bs @ g" .
  with assms show ?thesis unfolding input_at_def cp_plus_def by (auto simp: of_nat_diff)
qed

lemma input_at_patch: "input_at c p bs g \<Longrightarrow> g \<noteq> [] \<Longrightarrow> cx_limit c = 0"
proof -
  assume a: "input_at c p bs g" "g \<noteq> []"
  have "length (bs @ g) = length (cx_block c (fst p)) - nat (snd p)"
    using a(1) by (metis input_at_def length_drop)
  moreover have "0 < length g" using a(2) by simp
  moreover have "cx_limit c = 16 \<Longrightarrow> length bs = length (cx_block c (fst p)) - nat (snd p)"
    using a(1) flat_block_length [of c] unfolding input_at_def by auto
  ultimately have "cx_limit c = 16 \<Longrightarrow> False" by simp
  then show "cx_limit c = 0" using a(1) by (auto simp: input_at_def flat_def)
qed

lemma input_at_pass:
  assumes "input_at c p bs g" and "length bs < n" and "n \<le> length (bs @ g)"
  shows "beyond c (cp_plus p (int n))"
proof -
  from assms have "g \<noteq> []" by auto
  then have "cx_limit c = 0" by (rule input_at_patch [OF assms(1)])
  with assms show ?thesis by (auto simp: input_at_def beyond_def cp_plus_def)
qed

text \<open>The depths and the last tag do not bear on the position.\<close>

lemma cx_block_updates [simp]:
  "cx_block (c\<lparr>cx_depth := d\<rparr>) = cx_block c"
  "cx_block (c\<lparr>cx_group_depth := d\<rparr>) = cx_block c"
  "cx_block (c\<lparr>cx_last_tag_minus_1 := t\<rparr>) = cx_block c"
  by (auto simp: cx_block_def split: blk.splits)

lemma flat_updates [simp]:
  "flat (c\<lparr>cx_depth := d\<rparr>) = flat c"
  "flat (c\<lparr>cx_group_depth := d\<rparr>) = flat c"
  "flat (c\<lparr>cx_last_tag_minus_1 := t\<rparr>) = flat c"
  by (simp_all add: flat_def)

lemma input_at_updates [simp]:
  "input_at (c\<lparr>cx_depth := d\<rparr>) = input_at c"
  "input_at (c\<lparr>cx_group_depth := d\<rparr>) = input_at c"
  "input_at (c\<lparr>cx_last_tag_minus_1 := t\<rparr>) = input_at c"
  by (simp_all add: input_at_def fun_eq_iff)

lemma beyond_updates [simp]:
  "beyond (c\<lparr>cx_depth := d\<rparr>) p = beyond c p"
  "beyond (c\<lparr>cx_group_depth := d\<rparr>) p = beyond c p"
  "beyond (c\<lparr>cx_last_tag_minus_1 := t\<rparr>) p = beyond c p"
  by (simp_all add: beyond_def)

section \<open>\<^verbatim>\<open>Done\<close>\<close>

lemma Done_end: "input_at c p [] g \<Longrightarrow> Done p c = ret (Some p, True, c)"
  by (auto simp: Done_def DoneWithCheck_def input_at_def flat_def Let_def)

lemma Done_beyond: "beyond c p \<Longrightarrow> Done p c = ret (None, True, c)"
  by (auto simp: Done_def DoneWithCheck_def DoneFallback_def beyond_def flat_def Let_def)

text \<open>With input left, the next 17 bytes may be read, from the old buffer or the patch buffer.\<close>

definition same_parse :: "parse_ctx \<Rightarrow> parse_ctx \<Rightarrow> bool" where
  "same_parse c c' \<longleftrightarrow> cx_depth c' = cx_depth c \<and> cx_last_tag_minus_1 c' = cx_last_tag_minus_1 c"

lemma input_at_room:
  assumes "input_at c p bs g" and "snd p < snd (cx_buffer_end c)"
  shows "17 \<le> length (bs @ g)"
proof -
  have "length (bs @ g) = length (cx_block c (fst p)) - nat (snd p)"
    using assms(1) by (metis input_at_def length_drop)
  then show ?thesis
    using assms flat_block_length [of c] by (auto simp: input_at_def flat_def split: if_splits)
qed

lemma Done_flip:
  assumes at: "input_at c p bs g" and "bs \<noteq> []" and past: "\<not> snd p < snd (cx_buffer_end c)"
  shows "\<exists>p' c' g'. Done p c = ret (Some p', False, c') \<and> input_at c' p' bs g' \<and>
    17 \<le> length (bs @ g') \<and> same_parse c c'"
proof -
  let ?be = "snd (cx_buffer_end c)" and ?a = "cx_block c (Block 0)"
  have "0 < int (length bs)" using \<open>bs \<noteq> []\<close> by simp
  with at past have A: "cx_limit c = 16" "cx_next_chunk c = Some Patch" "cx_buffer_end c = (Block 0, ?be)"
      "int (length ?a) = ?be + 16" "0 \<le> ?be" "length (cx_buffer c) = 32" "cx_overall_limit c = 0"
      "cx_limit_end c = cx_buffer_end c" "fst p = Block 0"
    and rest: "int (length bs) = ?be + 16 - snd p" "drop (nat (snd p)) ?a = bs @ g"
    by (auto simp: input_at_def flat_def prod_eq_iff)
  define ov where "ov = snd p - ?be"
  have ov: "0 \<le> ov" "ov < 16" using past rest(1) \<open>0 < int (length bs)\<close> by (auto simp: ov_def)
  let ?slop = "drop (nat ?be) ?a" and ?buf = "overwrite 0 (drop (nat ?be) ?a) (cx_buffer c)"
  have slop: "length ?slop = 16" using A(4,5) by auto
  have rd: "cx_read c (cx_buffer_end c) kSlop = Inr ?slop"
    using A(4,5) slop arg_cong [OF A(3), of fst] by (simp add: cx_read_def mem_read_def kSlop_def window_def)
  have wr: "mem_write (cx_buffer c) 0 ?slop = Inr ?buf"
    using A(6) slop by (simp add: mem_write_def)
  define c1 where "c1 = c\<lparr>cx_buffer := ?buf, cx_next_chunk := None, cx_buffer_end := (Patch, kSlop), cx_size := 0\<rparr>"
  have nb: "NextBuffer ov d c = ret (Some (Patch, 0), c1)" for d
    using A(2,7) by (simp add: NextBuffer_def rd wr end_of_stream_def c1_def ret_def bind_run_def)
  define c2 where "c2 = c1\<lparr>cx_limit := 0, cx_limit_end := (Patch, kSlop)\<rparr>"
  have dl: "done_loop ov d c = ret (Some (Patch, ov), False, c2)" for d
    using ov A(1) by (subst done_loop.simps)
      (simp add: nb c2_def c1_def cp_plus_def kSlop_def min0_def)
  have "Done p c = ret (Some (Patch, ov), False, c2)"
    using ov A(1,8) past
    by (simp add: Done_def DoneWithCheck_def DoneFallback_def Let_def ov_def [symmetric] dl)
  moreover have "length ?buf = 32" using slop A(6) by simp
  moreover have buf: "drop (nat ov) ?buf = bs @ drop 16 (cx_buffer c)"
  proof -
    have g: "g = []" using input_at_patch [OF at] A(1) by auto
    have "drop (nat ov) ?slop = bs"
      using rest(2) ov(1) A(5) by (simp add: g ov_def nat_diff_distrib' add.commute)
    then show ?thesis using ov slop by (simp add: overwrite_def)
  qed
  ultimately have "input_at c2 (Patch, ov) bs (drop 16 (cx_buffer c))"
    using rest(1) ov A(7)
    by (simp add: input_at_def flat_def c2_def c1_def kSlop_def cx_block_def ov_def)
  moreover have "17 \<le> length (bs @ drop 16 (cx_buffer c))"
    using A(6) \<open>0 < int (length bs)\<close> by (cases bs) simp_all
  moreover have "same_parse c c2" by (simp add: same_parse_def c2_def c1_def)
  ultimately show ?thesis using \<open>Done p c = _\<close> by blast
qed

lemma Done_more:
  assumes "input_at c p bs g" and "bs \<noteq> []"
  obtains p' c' g' where "Done p c = ret (Some p', False, c')" and "input_at c' p' bs g'"
    and "17 \<le> length (bs @ g')" and "same_parse c c'"
proof (cases "snd p < snd (cx_buffer_end c)")
  case True
  then have "Done p c = ret (Some p, False, c)"
    using assms(1) by (simp add: Done_def DoneWithCheck_def input_at_def flat_def)
  with that [of p c g] assms(1) input_at_room [OF assms(1) True] show ?thesis
    by (simp add: same_parse_def)
next
  case False
  with Done_flip [OF assms False] that show ?thesis by blast
qed

section \<open>Readers\<close>

text \<open>A decoder whose result does not depend on what follows the bytes it uses.\<close>

definition prefix_decoder :: "(byte list \<Rightarrow> (nat \<times> 'b) option) \<Rightarrow> bool" where
  "prefix_decoder D \<longleftrightarrow>
     (\<forall>bs n x. D bs = Some (n, x) \<longrightarrow> 0 < n \<and> n \<le> length bs) \<and>
     (\<forall>bs g r. D bs = Some r \<longrightarrow> D (bs @ g) = Some r) \<and>
     (\<forall>bs g n x. D (bs @ g) = Some (n, x) \<and> n \<le> length bs \<longrightarrow> D bs = Some (n, x))"

lemma varint_value_prefix:
  "varint_value k (bs @ g) = Some (n, v) \<Longrightarrow> n \<le> length bs \<Longrightarrow> varint_value k bs = Some (n, v)"
proof (induction k bs arbitrary: n v rule: varint_value.induct)
  case (2 k)
  then show ?case using varint_value_bound by fastforce
qed (auto split: if_splits)

lemma prefix_decoderD:
  assumes "prefix_decoder D"
  shows "D bs = Some (n, x) \<Longrightarrow> 0 < n \<and> n \<le> length bs"
    and "D bs = Some r \<Longrightarrow> D (bs @ g) = Some r"
    and "D (bs @ g) = Some (n, x) \<Longrightarrow> n \<le> length bs \<Longrightarrow> D bs = Some (n, x)"
proof -
  note D = assms [unfolded prefix_decoder_def]
  show "D bs = Some (n, x) \<Longrightarrow> 0 < n \<and> n \<le> length bs" using D [THEN conjunct1] by blast
  show "D bs = Some r \<Longrightarrow> D (bs @ g) = Some r"
    using D [THEN conjunct2, THEN conjunct1] by blast
  show "D (bs @ g) = Some (n, x) \<Longrightarrow> n \<le> length bs \<Longrightarrow> D bs = Some (n, x)"
    using D [THEN conjunct2, THEN conjunct2] by blast
qed

lemma prefix_varint_value: "prefix_decoder (varint_value k)"
  unfolding prefix_decoder_def
proof (intro conjI allI impI)
  fix bs g n x
  assume "varint_value k (bs @ g) = Some (n, x) \<and> n \<le> length bs"
  then show "varint_value k bs = Some (n, x)" using varint_value_prefix by blast
qed (auto dest: varint_value_bound varint_value_more)

lemma prefix_map:
  assumes "prefix_decoder D"
  shows "prefix_decoder (\<lambda>bs. Option.bind (D bs) (\<lambda>(n, v). map_option (Pair n) (h v)))"
  unfolding prefix_decoder_def
  by (auto simp: bind_eq_Some_conv dest: prefix_decoderD [OF assms])

lemma dec_as_bind:
  "dec_tag = (\<lambda>bs. Option.bind (varint_value 5 bs) (\<lambda>(n, v). map_option (Pair n) (Some (word_of_nat v))))"
  "dec_varint = (\<lambda>bs. Option.bind (varint_value 10 bs) (\<lambda>(n, v). map_option (Pair n) (Some (word_of_nat v))))"
  "dec_size = (\<lambda>bs. Option.bind (varint_value 5 bs) (\<lambda>(n, v). map_option (Pair n)
      (if int v \<le> INT_MAX - kSlopBytes then Some (word_of_nat v) else None)))"
  by (auto intro!: ext simp: dec_tag_def dec_varint_def dec_size_def varint_word_def size_limit_def
      split: bind_splits)

lemma prefix_decoders: "prefix_decoder dec_tag" "prefix_decoder dec_varint" "prefix_decoder dec_size"
  unfolding dec_as_bind by (intro prefix_map prefix_varint_value)+

lemma dec_tag_5: "dec_tag bs = Some (n, x) \<Longrightarrow> 0 < n \<and> n \<le> 5"
  by (auto simp: dec_tag_def varint_word_def dest!: varint_value_bound)

lemma dec_size_5:
  assumes "dec_size bs = Some (n, x)"
  shows "0 < n \<and> n \<le> 5" and "sint x = int (unat x)"
proof -
  obtain v where v: "varint_value 5 bs = Some (n, v)" "x = word_of_nat v" "int v \<le> INT_MAX - kSlopBytes"
    using assms by (auto simp: dec_size_def varint_word_def size_limit_def bind_eq_Some_conv split: if_splits)
  then show "0 < n \<and> n \<le> 5" by (auto dest!: varint_value_bound)
  have "v < 2 ^ 31" using v(3) by (simp add: INT_MAX_def kSlopBytes_def)
  then have u: "uint x = int v" "unat x = v"
    by (simp_all add: v(2) unsigned_of_nat take_bit_nat_eq_self)
  have "sint x = uint x"
    unfolding sint_uint u using \<open>v < 2 ^ 31\<close> by (simp add: signed_take_bit_int_eq_self)
  then show "sint x = int (unat x)" unfolding u .
qed

lemma dec_varint_10: "dec_varint bs = Some (n, x) \<Longrightarrow> 0 < n \<and> n \<le> 10"
  by (auto simp: dec_varint_def varint_word_def dest!: varint_value_bound)

lemma read_at_input:
  assumes at: "input_at c p bs g" and D: "prefix_decoder D" and f: "f (bs @ g) = Inr (D (bs @ g))"
  shows "case D bs of
      Some (n, x) \<Rightarrow> n \<le> length bs \<and> read_at f p c = Inr (Some (cp_plus p (int n), x)) \<and>
        input_at c (cp_plus p (int n)) (drop n bs) g
    | None \<Rightarrow> read_at f p c = Inr None \<or>
        (\<exists>n x. D (bs @ g) = Some (n, x) \<and> n \<le> length (bs @ g) \<and>
           read_at f p c = Inr (Some (cp_plus p (int n), x)) \<and> beyond c (cp_plus p (int n)))"
proof (cases "D bs")
  case (Some r)
  obtain n x where r: "r = (n, x)" by fastforce
  have "D (bs @ g) = Some (n, x)" "n \<le> length bs"
    using prefix_decoderD(1,2) [OF D, of bs] Some r by simp_all
  then show ?thesis
    using Some r input_at_advance [OF at, of n] by (simp add: read_at_def input_at_mem [OF at] f)
next
  case None
  show ?thesis
  proof (cases "D (bs @ g)")
    case no: None
    then show ?thesis using None by (simp add: read_at_def input_at_mem [OF at] f)
  next
    case (Some r)
    obtain n x where r: "r = (n, x)" by fastforce
    have "D (bs @ g) = Some (n, x)" using Some r by simp
    then have n: "n \<le> length (bs @ g)" "\<not> n \<le> length bs"
      using prefix_decoderD(1) [OF D, of "bs @ g"] prefix_decoderD(3) [OF D, of bs g] None by auto
    then show ?thesis
      using Some r None input_at_pass [OF at, of n] by (auto simp: read_at_def input_at_mem [OF at] f)
  qed
qed

section \<open>Behind the end\<close>

text \<open>A pointer may pass the end, but the bytes read there are still in the buffer.\<close>

definition readable :: "parse_ctx \<Rightarrow> cptr \<Rightarrow> nat \<Rightarrow> bool" where
  "readable c p n \<longleftrightarrow> (\<exists>m. mem_from c p = Inr m \<and> n \<le> length m)"

definition lost :: "parse_ctx \<Rightarrow> cptr option \<Rightarrow> bool" where
  "lost c q \<longleftrightarrow> (\<forall>p. q = Some p \<longrightarrow> beyond c p)"

lemma lost_simps [simp]: "lost c None" "lost c (Some p) \<longleftrightarrow> beyond c p"
  by (auto simp: lost_def)

lemma lost_updates [simp]:
  "lost (c\<lparr>cx_depth := d\<rparr>) = lost c"
  "lost (c\<lparr>cx_group_depth := d\<rparr>) = lost c"
  "lost (c\<lparr>cx_last_tag_minus_1 := t\<rparr>) = lost c"
  by (simp_all add: lost_def fun_eq_iff)

lemma beyond_advance: "beyond c p \<Longrightarrow> 0 \<le> n \<Longrightarrow> beyond c (cp_plus p n)"
  by (auto simp: beyond_def cp_plus_def)

lemma readable_advance:
  assumes "readable c p m" and "n \<le> m" and "0 \<le> snd p"
  shows "readable c (cp_plus p (int n)) (m - n)"
proof -
  obtain bs where bs: "mem_from c p = Inr bs" "m \<le> length bs" using assms(1) by (auto simp: readable_def)
  have "snd p + int n \<le> int (length (cx_block c (fst p)))"
    and l: "length bs = length (cx_block c (fst p)) - nat (snd p)"
    using bs assms(2,3) by (auto simp: mem_from_def split: if_splits)
  then have "mem_from c (cp_plus p (int n)) = Inr (drop (nat (snd p + int n)) (cx_block c (fst p)))"
    using assms(3) by (simp add: mem_from_def cp_plus_def)
  moreover have "m - n \<le> length (drop (nat (snd p + int n)) (cx_block c (fst p)))"
    using bs(2) l assms(3) by (simp add: nat_add_distrib)
  ultimately show ?thesis by (simp add: readable_def)
qed

lemma beyond_snd: "beyond c p \<Longrightarrow> 0 \<le> snd p"
  by (auto simp: beyond_def flat_def)

lemma input_at_snd: "input_at c p bs g \<Longrightarrow> 0 \<le> snd p"
  by (simp add: input_at_def)

lemma input_at_readable: "input_at c p bs g \<Longrightarrow> n \<le> length (bs @ g) \<Longrightarrow> readable c p n"
  by (simp add: readable_def input_at_mem)

text \<open>A reader behind the end stays behind it.\<close>

lemma read_at_beyond:
  assumes "beyond c p" and "readable c p m" and D: "prefix_decoder D"
    and f: "\<And>bs. m \<le> length bs \<Longrightarrow> f bs = Inr (D bs)" and b: "\<And>bs n x. D bs = Some (n, x) \<Longrightarrow> n \<le> k"
  shows "read_at f p c = Inr None \<or>
    (\<exists>n x. read_at f p c = Inr (Some (cp_plus p (int n), x)) \<and> n \<le> k \<and> beyond c (cp_plus p (int n)) \<and>
       (\<exists>bs. D bs = Some (n, x)))"
proof -
  obtain bs where bs: "mem_from c p = Inr bs" "m \<le> length bs" using assms(2) by (auto simp: readable_def)
  show ?thesis
  proof (cases "D bs")
    case (Some r)
    then obtain n x where r: "D bs = Some (n, x)" by (metis surj_pair)
    moreover have "n \<le> k" using r by (rule b)
    ultimately have "read_at f p c = Inr (Some (cp_plus p (int n), x)) \<and> n \<le> k \<and> beyond c (cp_plus p (int n))
        \<and> (\<exists>bs. D bs = Some (n, x))"
      using bs f [of bs] beyond_advance [OF assms(1), of "int n"] by (auto simp: read_at_def)
    then show ?thesis by blast
  qed (use bs f [of bs] in \<open>simp add: read_at_def\<close>)
qed

section \<open>Strings\<close>

lemma cx_read_input:
  "input_at c p bs g \<Longrightarrow> m \<le> length (bs @ g) \<Longrightarrow> cx_read c p (int m) = Inr (take m (bs @ g))"
proof -
  assume at: "input_at c p bs g" and m: "m \<le> length (bs @ g)"
  have d: "drop (nat (snd p)) (cx_block c (fst p)) = bs @ g" and p: "0 \<le> snd p"
    using at by (auto simp: input_at_def)
  have "snd p \<le> int (length (cx_block c (fst p)))"
    using input_at_mem [OF at] by (simp add: mem_from_def split: if_splits)
  moreover have "length (bs @ g) = length (cx_block c (fst p)) - nat (snd p)"
    using d by (metis length_drop)
  ultimately show ?thesis using m p by (simp add: cx_read_def mem_read_def window_def d)
qed

lemma room_flat:
  "flat c \<Longrightarrow> fst p = fst (cx_buffer_end c) \<Longrightarrow> 0 \<le> snd p \<Longrightarrow> 0 \<le> n \<Longrightarrow> n \<le> room p c \<Longrightarrow>
    \<exists>x. cx_read c p n = Inr x \<and> int (length x) = n"
proof -
  assume a: "flat c" "fst p = fst (cx_buffer_end c)" "0 \<le> snd p" "0 \<le> n" "n \<le> room p c"
  have "snd p + n \<le> int (length (cx_block c (fst p)))"
    using a(1,5) flat_block_length [OF a(1)] unfolding a(2) by (auto simp: flat_def room_def kSlop_def)
  with a(3,4) show ?thesis by (auto simp: cx_read_def mem_read_def window_def)
qed

text \<open>\<^verbatim>\<open>AppendSize\<close> beyond the room fails: on a flat array there is nothing to append.\<close>

lemma AppendSize_flat:
  assumes "flat c" and "fst p = fst (cx_buffer_end c)" and "0 \<le> snd p"
    and "cx_limit c = 16 \<Longrightarrow> 0 \<le> room p c"
  shows "\<exists>h. \<forall>acc. AppendSize p n acc c = ret (None, h acc, c)"
proof (cases "cx_limit c = 0")
  case True
  then have "cx_next_chunk c = None" using assms(1) by (auto simp: flat_def)
  then have "AppendSize p n acc c = ret (None, id acc, c)" for acc by (simp add: AppendSize.simps)
  then show ?thesis by blast
next
  case False
  then have c: "cx_limit c = 16" "cx_next_chunk c = Some Patch" using assms(1) by (auto simp: flat_def)
  obtain x where "cx_read c p (room p c) = Inr x"
    using room_flat [OF assms(1,2,3) assms(4) order_refl] c by auto
  then have "AppendSize p n acc c = ret (None, acc @ x, c)" for acc
    using c by (subst AppendSize.simps) (simp add: kSlop_def Let_def)
  then show ?thesis by (intro exI [of _ "\<lambda>acc. acc @ x"]) simp
qed

lemma string_input:
  assumes at: "input_at c p bs g"
  shows "if m \<le> length bs
    then int m \<le> room p c \<and> cx_read c p (int m) = Inr (take m bs) \<and> input_at c (cp_plus p (int m)) (drop m bs) g
    else (int m \<le> room p c \<longrightarrow> (\<exists>x. cx_read c p (int m) = Inr x) \<and> beyond c (cp_plus p (int m))) \<and>
      (\<not> int m \<le> room p c \<longrightarrow> (\<exists>h. \<forall>acc. AppendSize p (int m) acc c = ret (None, h acc, c)))"
proof -
  have len: "int (length bs) = snd (cx_buffer_end c) + cx_limit c - snd p" and p: "0 \<le> snd p"
    and fp: "fst p = fst (cx_buffer_end c)" and fl: "flat c"
    using at by (auto simp: input_at_def)
  have lim: "cx_limit c = 0 \<or> cx_limit c = 16" using fl by (auto simp: flat_def)
  then have rm: "room p c = int (length bs) + 16 - cx_limit c" using len by (auto simp: room_def kSlop_def)
  show ?thesis
  proof (cases "m \<le> length bs")
    case True
    then show ?thesis
      using lim rm cx_read_input [OF at, of m] input_at_advance [OF at True] by auto
  next
    case False
    have "beyond c (cp_plus p (int m))" if "int m \<le> room p c"
      using that False lim rm fl fp len by (auto simp: beyond_def cp_plus_def)
    moreover have "\<exists>x. cx_read c p (int m) = Inr x" if "int m \<le> room p c"
      using room_flat [OF fl fp p _ that] by auto
    moreover have "\<exists>h. \<forall>acc. AppendSize p (int m) acc c = ret (None, h acc, c)"
      using AppendSize_flat [OF fl fp p] rm by simp
    ultimately show ?thesis using False by simp
  qed
qed

lemma string_beyond:
  assumes b: "beyond c p" and "0 \<le> n"
  shows "(n \<le> room p c \<longrightarrow> (\<exists>x. cx_read c p n = Inr x) \<and> beyond c (cp_plus p n)) \<and>
    (\<not> n \<le> room p c \<longrightarrow> (\<exists>h. \<forall>acc. AppendSize p n acc c = ret (None, h acc, c)))"
proof -
  have "flat c" "fst p = fst (cx_buffer_end c)" "cx_limit c = 0" using b by (auto simp: beyond_def)
  then show ?thesis
    using room_flat [OF _ _ beyond_snd [OF b] assms(2)] beyond_advance [OF b assms(2)]
      AppendSize_flat [OF _ _ beyond_snd [OF b]] by auto
qed
section \<open>What a parse is to return\<close>

lemma tag_split: "drop_bit 3 (tag :: uint32) * 8 + (tag AND 7) = tag"
proof -
  have "push_bit 3 (drop_bit 3 tag) + take_bit 3 tag = tag" by (rule bits_ident)
  then show ?thesis by (simp add: take_bit_eq_mask mask_eq_exp_minus_1 push_bit_eq_mult)
qed

lemma number_bound: "drop_bit 3 (tag :: uint32) < 2 ^ 29"
proof -
  have "unat (drop_bit 3 tag) = unat tag div 8" by (simp only: unat_drop_bit_eq) (simp add: drop_bit_eq_div)
  moreover have "unat tag < 2 ^ 32" using unsigned_less [of tag] by simp
  ultimately show ?thesis by (simp add: word_less_nat_alt)
qed

definition starts :: "parse_ctx \<Rightarrow> cptr \<Rightarrow> nat \<Rightarrow> byte list \<Rightarrow> byte list \<Rightarrow> bool" where
  "starts c p d bs g \<longleftrightarrow> input_at c p bs g \<and> cx_last_tag_minus_1 c = 0 \<and> cx_depth c = int d"

definition ends_at :: "ending \<Rightarrow> byte list \<Rightarrow> parse_ctx \<Rightarrow> bool" where
  "ends_at e rest c \<longleftrightarrow>
     (case e of AtEnd \<Rightarrow> rest = [] \<and> cx_last_tag_minus_1 c = 0
      | AtTag t \<Rightarrow> cx_last_tag_minus_1 c = t - 1 \<and> (t = 0 \<or> t AND 7 = 4))"

text \<open>
  \<open>wire_outcome\<close>, \<open>field_outcome\<close>: the parse from \<open>bs\<close> returns, with what the reference parser says,
  or fails where that fails.
\<close>

definition wire_outcome ::
    "(fields \<Rightarrow> 'u) \<Rightarrow> nat \<Rightarrow> byte list \<Rightarrow> (fields \<times> ending \<times> byte list) option option \<Rightarrow>
      (cptr option \<times> parse_ctx \<times> 'u) run \<Rightarrow> bool" where
  "wire_outcome add d bs r R \<longleftrightarrow>
     (case r of
        None \<Rightarrow> False
      | Some None \<Rightarrow> \<exists>q c' u'. R = ret (q, c', u') \<and> lost c' q \<and> (q \<noteq> None \<longrightarrow> cx_last_tag_minus_1 c' \<noteq> 0)
      | Some (Some (fs, e, rest)) \<Rightarrow>
          \<exists>p' c' g'. R = ret (Some p', c', add fs) \<and> input_at c' p' rest g' \<and> length rest \<le> length bs \<and>
            cx_depth c' = int d \<and> ends_at e rest c')"

definition field_outcome ::
    "('f \<Rightarrow> 'u) \<Rightarrow> nat \<Rightarrow> byte list \<Rightarrow> ('f \<times> byte list) option option \<Rightarrow>
      (cptr option \<times> parse_ctx \<times> 'u) run \<Rightarrow> bool" where
  "field_outcome add d bs r R \<longleftrightarrow>
     (case r of
        None \<Rightarrow> False
      | Some None \<Rightarrow> \<exists>q c' u'. R = ret (q, c', u') \<and> lost c' q
      | Some (Some (f, rest)) \<Rightarrow>
          \<exists>p' c' g'. R = ret (Some p', c', add f) \<and> starts c' p' d rest g' \<and> length rest \<le> length bs)"

lemma ref_string_length: "ref_string bs = Some (str, rest) \<Longrightarrow> length rest \<le> length bs"
  by (auto simp: ref_string_def split: option.splits if_splits)

lemma ref_scalar_length: "ref_scalar tag bs = Some (f, rest) \<Longrightarrow> length rest \<le> length bs"
  by (auto simp: ref_scalar_def Let_def split: if_splits dest: ref_string_length)

text \<open>A fixed-width load: of the input, or past its end.\<close>

lemma load_input:
  assumes at: "input_at c p bs g" and "m \<le> length (bs @ g)"
  shows "(if m \<le> length bs then input_at c (cp_plus p (int m)) (drop m bs) g else beyond c (cp_plus p (int m)))"
    and "m = 8 \<Longrightarrow> load_at UnalignedLoad64 p c = Inr (word_of_nat (le_value (take m (bs @ g))))"
    and "m = 4 \<Longrightarrow> load_at UnalignedLoad32 p c = Inr (word_of_nat (le_value (take m (bs @ g))))"
proof -
  show "(if m \<le> length bs then input_at c (cp_plus p (int m)) (drop m bs) g else beyond c (cp_plus p (int m)))"
    using input_at_advance [OF at] input_at_pass [OF at _ assms(2)] by auto
  show "m = 8 \<Longrightarrow> load_at UnalignedLoad64 p c = Inr (word_of_nat (le_value (take m (bs @ g))))"
    "m = 4 \<Longrightarrow> load_at UnalignedLoad32 p c = Inr (word_of_nat (le_value (take m (bs @ g))))"
    using assms by (auto simp: load_at_def input_at_mem UnalignedLoad64_def UnalignedLoad32_def mem_read_def window_def)
qed

section \<open>The contract of a helper\<close>

text \<open>
  \<open>add u fs\<close> is the collection \<open>u\<close> with the fields \<open>fs\<close> behind it. The last two laws say how the
  helper reads a string: like the reference parser, and never outside the buffers.
\<close>

locale field_sink =
  fixes H :: "'u field_helper" and add :: "'u \<Rightarrow> fields \<Rightarrow> 'u"
  assumes add_Nil: "add u [] = u"
    and add_append: "add u (fs @ gs) = add (add u fs) gs"
    and add_varint: "n < 2 ^ 29 \<Longrightarrow> fh_AddVarint H n v u = add u [TYPE_VARINT n v]"
    and add_fixed64: "n < 2 ^ 29 \<Longrightarrow> fh_AddFixed64 H n w u = add u [TYPE_FIXED64 n w]"
    and add_fixed32: "n < 2 ^ 29 \<Longrightarrow> fh_AddFixed32 H n x u = add u [TYPE_FIXED32 n x]"
    and add_group: "n < 2 ^ 29 \<Longrightarrow> fh_group_end H n True u (add (fh_group_begin H n u) gs) = add u [TYPE_GROUP n gs]"
    and string_law: "\<lbrakk>n < 2 ^ 29; input_at c p bs g; 5 \<le> length (bs @ g)\<rbrakk> \<Longrightarrow>
      (case ref_string bs of
         Some (str, rest) \<Rightarrow> \<exists>p'. fh_ParseLengthDelimited H n p c u =
             ret (Some p', c, add u [TYPE_LENGTH_DELIMITED n str]) \<and> input_at c p' rest g
       | None \<Rightarrow> \<exists>q u'. fh_ParseLengthDelimited H n p c u = ret (q, c, u') \<and> lost c q)"
    and beyond_law: "\<lbrakk>beyond c p; readable c p 5\<rbrakk> \<Longrightarrow>
      \<exists>q u'. fh_ParseLengthDelimited H n p c u = ret (q, c, u') \<and> lost c q"
begin

text \<open>Behind the end, a field is parsed without a fault and to no avail.\<close>

lemma WireFormatParser_beyond: "beyond c p \<Longrightarrow> WireFormatParser H (Suc k) p c u = ret (None, c, u)"
  by (simp add: Done_beyond)

lemma Cx_ParseGroup_beyond:
  assumes "beyond c p"
  shows "\<exists>c' u'. Cx_ParseGroup H (Suc (Suc k)) tag p c u = ret (None, c', u')"
proof -
  have "beyond (c\<lparr>cx_depth := d, cx_group_depth := e\<rparr>) p" for d e
    using assms by simp
  then show ?thesis by (simp add: WireFormatParser_beyond Let_def ConsumeEndGroup_def del: WireFormatParser.simps)
qed

lemma FieldParser_beyond:
  assumes b: "beyond c p" and r: "readable c p 10" and t: "tag AND 7 \<noteq> 4"
  shows "\<exists>q c' u'. FieldParser H (Suc (Suc k)) tag p c u = ret (q, c', u') \<and> lost c' q"
proof -
  have load: "\<exists>x. load_at UnalignedLoad64 p c = Inr x" "\<exists>x. load_at UnalignedLoad32 p c = Inr x"
    using r by (auto simp: readable_def load_at_def UnalignedLoad64_def UnalignedLoad32_def mem_read_def)
  have bs: "beyond c (cp_plus p 8)" "beyond c (cp_plus p 4)" using b by (simp_all add: beyond_advance)
  have v: "read_at VarintParse64 p c = Inr None \<or>
    (\<exists>n x. read_at VarintParse64 p c = Inr (Some (cp_plus p (int n), x)) \<and> n \<le> 10 \<and>
      beyond c (cp_plus p (int n)) \<and> (\<exists>bs. dec_varint bs = Some (n, x)))"
    using b r prefix_decoders(2)
    by (rule read_at_beyond) (auto simp: VarintParse64_value dec_varint_def [symmetric] dest: dec_varint_10)
  have "readable c p 5" using r by (auto simp: readable_def)
  note s = beyond_law [OF b this, of "drop_bit 3 tag" u]
  note g = Cx_ParseGroup_beyond [OF b, of k "drop_bit 3 tag * 8 + 3" "fh_group_begin H (drop_bit 3 tag) u"]
  show ?thesis
    using load bs v s g t
    by (auto simp: Let_def lost_def simp del: Cx_ParseGroup.simps WireFormatParser.simps)
qed

text \<open>One field in front of the pointer.\<close>

lemma FieldParser_outcome:
  assumes st: "starts c p d bs g" and room: "10 \<le> length (bs @ g)" and t4: "tag AND 7 \<noteq> 4"
    and group: "tag AND 7 = 3 \<Longrightarrow> field_outcome (add (fh_group_begin H (drop_bit 3 tag) u)) d bs (ref_group k d tag bs)
      (Cx_ParseGroup H k tag p c (fh_group_begin H (drop_bit 3 tag) u))"
  shows "field_outcome (\<lambda>f. add u [f]) d bs (ref_field k d tag bs) (FieldParser H k tag p c u)"
proof (cases "drop_bit 3 tag = 0")
  case True
  then show ?thesis by (simp add: field_outcome_def ref_field.simps)
next
  case n: False
  have at: "input_at c p bs g" and lt: "cx_last_tag_minus_1 c = 0" "cx_depth c = int d"
    using st by (simp_all add: starts_def)
  note nb = number_bound [of tag]
  have ref: "tag AND 7 \<noteq> 3 \<Longrightarrow> ref_field k d tag bs = Some (ref_scalar tag bs)"
    using n by (simp add: ref_field.simps)
  consider "tag AND 7 = 0" | "tag AND 7 = 1" | "tag AND 7 = 2" | "tag AND 7 = 3" | "tag AND 7 = 5" |
    "tag AND 7 \<notin> {0, 1, 2, 3, 5}" by blast
  then show ?thesis
  proof cases
    case 1
    have "VarintParse64 (bs @ g) = Inr (dec_varint (bs @ g))"
      using room by (simp add: VarintParse64_value dec_varint_def)
    from read_at_input [of c p bs g dec_varint VarintParse64, OF at prefix_decoders(2) this] 1 n lt show ?thesis
      by (auto simp: ref ref_scalar_def field_outcome_def starts_def add_varint [OF nb] Let_def
          simp del: split_paired_Ex split: option.splits)
  next
    case 2
    from load_input [OF at, of 8] 2 n lt room show ?thesis
      by (auto simp: ref ref_scalar_def field_outcome_def starts_def add_fixed64 [OF nb] Let_def split: if_splits)
  next
    case 3
    have "5 \<le> length (bs @ g)" using room by simp
    from string_law [OF nb at this, of u] 3 n lt show ?thesis
      by (auto simp: ref ref_scalar_def field_outcome_def starts_def Let_def ref_string_length
          split: option.splits)
  next
    case 4
    have "drop_bit 3 tag * 8 + 3 = tag" using tag_split [of tag] 4 by simp
    with group [OF 4] n 4 show ?thesis
      by (auto simp: ref_field.simps field_outcome_def Let_def add_group [OF nb] split: option.splits)
  next
    case 5
    from load_input [OF at, of 4] 5 n lt room show ?thesis
      by (auto simp: ref ref_scalar_def field_outcome_def starts_def add_fixed32 [OF nb] Let_def split: if_splits)
  next
    case 6
    with n t4 show ?thesis by (simp add: ref ref_scalar_def field_outcome_def Let_def)
  qed
qed

lemma Cx_ParseGroup_outcome:
  assumes st: "starts c p d bs g" and tag: "tag AND 7 = 3"
    and wire: "\<And>c' e. starts c' p e bs g \<Longrightarrow>
      wire_outcome (add u) e bs (ref_fields k e bs) (WireFormatParser H k p c' u)"
  shows "field_outcome (add u) d bs (ref_group (Suc k) d tag bs) (Cx_ParseGroup H (Suc k) tag p c u)"
proof (cases d)
  case 0
  then show ?thesis
    using st by (simp add: starts_def field_outcome_def ref_group.simps Let_def)
next
  case (Suc e)
  let ?c = "c\<lparr>cx_depth := cx_depth c - 1, cx_group_depth := cx_group_depth c + 1\<rparr>"
  have "starts ?c p e bs g" using st Suc by (simp add: starts_def)
  from wire [OF this] have w: "wire_outcome (add u) e bs (ref_fields k e bs) (WireFormatParser H k p ?c u)" .
  have "tag \<noteq> 0" using tag by auto
  have dep: "\<not> cx_depth c - 1 < 0" using st Suc by (simp add: starts_def)
  have end_tag: "t - 1 = tag \<longleftrightarrow> t = tag + 1" for t by auto
  show ?thesis
    using w dep \<open>tag \<noteq> 0\<close> Suc
    by (auto simp: wire_outcome_def field_outcome_def ref_group.simps Let_def ConsumeEndGroup_def starts_def
        ends_at_def end_tag simp del: split_paired_Ex split: option.splits ending.splits)
qed

lemma WireFormatParser_outcome:
  assumes st: "starts c p d bs g" and fuel: "2 * length bs < Suc k"
    and group: "\<And>c p tag bs g u. \<lbrakk>starts c p d bs g; tag AND 7 = 3; 2 * length bs + 1 < k\<rbrakk> \<Longrightarrow>
      field_outcome (add u) d bs (ref_group k d tag bs) (Cx_ParseGroup H k tag p c u)"
    and wire: "\<And>c p bs g u. \<lbrakk>starts c p d bs g; 2 * length bs < k\<rbrakk> \<Longrightarrow>
      wire_outcome (add u) d bs (ref_fields k d bs) (WireFormatParser H k p c u)"
  shows "wire_outcome (add u) d bs (ref_fields (Suc k) d bs) (WireFormatParser H (Suc k) p c u)"
proof (cases "bs = []")
  case True
  with st show ?thesis
    by (auto simp: starts_def Done_end wire_outcome_def ref_fields.simps ends_at_def add_Nil simp del: split_paired_Ex)
next
  case ne: False
  have at0: "input_at c p bs g" and lt0: "cx_last_tag_minus_1 c = 0" "cx_depth c = int d"
    using st by (simp_all add: starts_def)
  obtain p1 c1 g1 where D: "Done p c = ret (Some p1, False, c1)" and at: "input_at c1 p1 bs g1"
    and room: "17 \<le> length (bs @ g1)" and same: "same_parse c c1"
    using Done_more [OF at0 ne] .
  have lt: "cx_last_tag_minus_1 c1 = 0" "cx_depth c1 = int d" using same lt0 by (simp_all add: same_parse_def)
  have "ReadTag (bs @ g1) = Inr (dec_tag (bs @ g1))"
    using room by (simp add: ReadTag_value dec_tag_def)
  note rd = read_at_input [of c1 p1 bs g1 dec_tag ReadTag, OF at prefix_decoders(1) this]
  have k: "2 \<le> k" using fuel ne by (cases bs) auto
  then obtain k' where k': "k = Suc (Suc k')" by (metis add_2_eq_Suc le_Suc_ex)
  show ?thesis
  proof (cases "dec_tag bs")
    case None
    then have ref: "ref_fields (Suc k) d bs = Some None" using ne by (simp add: ref_fields.simps)
    from rd None consider (no) "read_at ReadTag p1 c1 = Inr None"
      | (past) n tag where "dec_tag (bs @ g1) = Some (n, tag)"
          "read_at ReadTag p1 c1 = Inr (Some (cp_plus p1 (int n), tag))" "beyond c1 (cp_plus p1 (int n))"
      by auto
    then show ?thesis
    proof cases
      case no
      then show ?thesis by (simp add: ref D wire_outcome_def)
    next
      case (past n tag)
      have "readable c1 p1 17" using input_at_readable [OF at room] .
      then have "readable c1 (cp_plus p1 (int n)) (17 - n)"
        by (rule readable_advance) (use dec_tag_5 [OF past(1)] input_at_snd [OF at] in auto)
      then have "readable c1 (cp_plus p1 (int n)) 10"
        using dec_tag_5 [OF past(1)] by (auto simp: readable_def)
      note far = this
      show ?thesis
      proof (cases "tag = 0 \<or> tag AND 7 = 4")
        case True
        then have "tag - 1 \<noteq> 0" by auto
        with True past show ?thesis by (auto simp: ref D wire_outcome_def SetLastTag_def)
      next
        case False
        then obtain q c' u' where F: "FieldParser H k tag (cp_plus p1 (int n)) c1 u = ret (q, c', u')" "lost c' q"
          using FieldParser_beyond [OF past(3) far, of tag k' u] unfolding k' by auto
        have "WireFormatParser H k p3 c' u' = ret (None, c', u')" if "q = Some p3" for p3
          using F(2) that k' WireFormatParser_beyond by simp
        with past F False show ?thesis by (auto simp: ref D wire_outcome_def split: option.splits)
      qed
    qed
  next
    case (Some r)
    then obtain n tag where dt: "dec_tag bs = Some (n, tag)" by (metis surj_pair)
    with rd have n: "n \<le> length bs" and R: "read_at ReadTag p1 c1 = Inr (Some (cp_plus p1 (int n), tag))"
      and at2: "input_at c1 (cp_plus p1 (int n)) (drop n bs) g1" by simp_all
    have n5: "0 < n" "n \<le> 5" using dec_tag_5 [OF dt] by simp_all
    show ?thesis
    proof (cases "tag = 0 \<or> tag AND 7 = 4")
      case True
      then show ?thesis
        using ne dt R at2 lt by (auto simp: D wire_outcome_def ref_fields.simps SetLastTag_def ends_at_def
            add_Nil simp del: split_paired_Ex)
    next
      case False
      have st2: "starts c1 (cp_plus p1 (int n)) d (drop n bs) g1" using at2 lt by (simp add: starts_def)
      have "10 \<le> length (drop n bs @ g1)" using room n5 n by simp
      moreover have "2 * length (drop n bs) + 1 < k" using fuel n5 n by simp
      ultimately have "field_outcome (\<lambda>f. add u [f]) d (drop n bs) (ref_field k d tag (drop n bs))
          (FieldParser H k tag (cp_plus p1 (int n)) c1 u)"
        using group [OF st2] False by (intro FieldParser_outcome [OF st2]) auto
      then consider (bad) q c' u' where "ref_field k d tag (drop n bs) = Some None" "lost c' q"
          "FieldParser H k tag (cp_plus p1 (int n)) c1 u = ret (q, c', u')"
        | (good) f bs2 p' c' g' where "ref_field k d tag (drop n bs) = Some (Some (f, bs2))"
          "FieldParser H k tag (cp_plus p1 (int n)) c1 u = ret (Some p', c', add u [f])"
          "starts c' p' d bs2 g'" "length bs2 \<le> length (drop n bs)"
        by (auto simp: field_outcome_def simp del: split_paired_Ex split: option.splits)
      then show ?thesis
      proof cases
        case (bad q c' u')
        have "WireFormatParser H k p3 c' u' = ret (None, c', u')" if "q = Some p3" for p3
          using bad(2) that k' WireFormatParser_beyond by simp
        with bad False ne dt R show ?thesis
          by (auto simp: D wire_outcome_def ref_fields.simps split: option.splits)
      next
        case (good f bs2 p' c' g')
        have less: "2 * length bs2 < k" using good(4) fuel n5 n by simp
        have snoc: "add (add u [f]) fs = add u (f # fs)" for fs using add_append [of u "[f]" fs] by simp
        from wire [OF good(3) less, of "add u [f]"] good False ne dt R show ?thesis
          by (auto simp: D wire_outcome_def ref_fields.simps snoc
              simp del: split_paired_Ex split: option.splits)
      qed
    qed
  qed
qed

lemma parser_outcome:
  shows "starts c p d bs g \<Longrightarrow> 2 * length bs < k \<Longrightarrow>
      wire_outcome (add u) d bs (ref_fields k d bs) (WireFormatParser H k p c u)"
    and "starts c p d bs g \<Longrightarrow> tag AND 7 = 3 \<Longrightarrow> 2 * length bs + 1 < k \<Longrightarrow>
      field_outcome (add u) d bs (ref_group k d tag bs) (Cx_ParseGroup H k tag p c u)"
proof (induction k arbitrary: c p d bs g tag u)
  case (Suc k)
  {
    case 1
    show ?case by (rule WireFormatParser_outcome [OF 1]) (use Suc in blast)+
  next
    case 2
    show ?case by (rule Cx_ParseGroup_outcome [OF 2(1,2)]) (use Suc.IH(1) 2(3) in auto)
  }
qed simp_all

end

end
