(* ===== verification/Unknown_Parse.thy ===== *)
theory Unknown_Parse
  imports Field_Parser_Spec
begin

unbundle bit_operations_syntax

text \<open>
  Both helpers of the field parser fulfil the contract \<open>field_sink\<close>; what the parser computes with
  each of them on a flat array; and the round trip with the serializer of \<open>Unknown_Fields\<close>.
\<close>

section \<open>The helpers\<close>

lemma ReadSize_dec: "5 \<le> length bs \<Longrightarrow> ReadSize bs = Inr (dec_size bs)"
  by (simp add: ReadSize_value dec_size_def)

text \<open>Reading a size, then the bytes: at a position of the input, and behind its end.\<close>

lemma read_size_input:
  assumes at: "input_at c p bs g" and len: "5 \<le> length (bs @ g)"
  obtains (none) "read_at ReadSize p c = Inr None" "ref_string bs = None"
    | (size) p1 bs1 sz where "read_at ReadSize p c = Inr (Some (p1, sz))" "sint sz = int (unat sz)"
        "input_at c p1 bs1 g"
        "ref_string bs = (if unat sz \<le> length bs1 then Some (take (unat sz) bs1, drop (unat sz) bs1) else None)"
    | (past) p1 sz where "read_at ReadSize p c = Inr (Some (p1, sz))" "sint sz = int (unat sz)"
        "beyond c p1" "ref_string bs = None"
proof (cases "dec_size bs")
  case None
  note rd = read_at_input [of c p bs g dec_size ReadSize, OF at prefix_decoders(3) ReadSize_dec [OF len]]
  have "ref_string bs = None" using None by (simp add: ref_string_def)
  moreover have "read_at ReadSize p c = Inr None \<or> (\<exists>p1 sz. read_at ReadSize p c = Inr (Some (p1, sz)) \<and>
      sint sz = int (unat sz) \<and> beyond c p1)"
    using rd unfolding None option.case using dec_size_5(2) [of "bs @ g"] by blast
  ultimately show ?thesis using none past by blast
next
  case (Some r)
  then obtain n sz where d: "dec_size bs = Some (n, sz)" by (metis surj_pair)
  note rd = read_at_input [of c p bs g dec_size ReadSize, OF at prefix_decoders(3) ReadSize_dec [OF len]]
  have "ref_string bs = (if unat sz \<le> length (drop n bs)
      then Some (take (unat sz) (drop n bs), drop (unat sz) (drop n bs)) else None)"
    using d rd by (auto simp: ref_string_def add.commute)
  with rd d size [of "cp_plus p (int n)" sz "drop n bs"] dec_size_5(2) [OF d] show ?thesis by simp
qed

lemma read_size_beyond:
  assumes b: "beyond c p" and r: "readable c p 5"
  obtains "read_at ReadSize p c = Inr None"
    | p1 sz where "read_at ReadSize p c = Inr (Some (p1, sz))" "sint sz = int (unat sz)" "beyond c p1"
proof -
  have "read_at ReadSize p c = Inr None \<or>
    (\<exists>n x. read_at ReadSize p c = Inr (Some (cp_plus p (int n), x)) \<and> n \<le> 5 \<and> beyond c (cp_plus p (int n)) \<and>
       (\<exists>bs. dec_size bs = Some (n, x)))"
    using b r prefix_decoders(3) by (rule read_at_beyond) (auto simp: ReadSize_dec dest: dec_size_5(1))
  then show ?thesis using that dec_size_5(2) by blast
qed

lemma tag_sum: "n * 8 + wire_code ty = push_bit 3 n OR wire_code ty"
proof -
  have "push_bit 3 n AND mask 3 = 0" by (rule bit_word_eqI) (auto simp: bit_simps)
  moreover have "wire_code ty = mask 3 AND wire_code ty"
    by (cases ty) (simp_all add: wire_code_def mask_eq_exp_minus_1)
  ultimately have "push_bit 3 n AND wire_code ty = 0"
    using and.assoc [of "push_bit 3 n" "mask 3" "wire_code ty"] by simp
  then show ?thesis by (simp add: disjunctive_add_eq_or push_bit_eq_mult)
qed

lemma varint_tag: "varint_bytes (unat (ucast (n * 8 + wire_code ty :: uint32) :: uint64)) = tag_bytes n ty"
  using unsigned_less [of "n * 8 + wire_code ty", where 'a = nat]
  by (simp add: unsigned_ucast_eq take_bit_nat_eq_self tag_bytes_def flip: tag_sum)

lemmas lite_tags =
  varint_tag [of _ WIRETYPE_VARINT, unfolded wire_code_def WireType.case add_0_right]
  varint_tag [of _ WIRETYPE_FIXED64, unfolded wire_code_def WireType.case]
  varint_tag [of _ WIRETYPE_LENGTH_DELIMITED, unfolded wire_code_def WireType.case]
  varint_tag [of _ WIRETYPE_START_GROUP, unfolded wire_code_def WireType.case]
  varint_tag [of _ WIRETYPE_END_GROUP, unfolded wire_code_def WireType.case]
  varint_tag [of _ WIRETYPE_FIXED32, unfolded wire_code_def WireType.case]

lemma set_strings:
  assumes "input_at c p bs g" and "5 \<le> length (bs @ g)"
  shows "case ref_string bs of
      Some (str, rest) \<Rightarrow> \<exists>p'. UnknownFieldParserHelper_ParseLengthDelimited n p c u =
          ret (Some p', c, u @ [TYPE_LENGTH_DELIMITED n str]) \<and> input_at c p' rest g
    | None \<Rightarrow> \<exists>q u'. UnknownFieldParserHelper_ParseLengthDelimited n p c u = ret (q, c, u') \<and> lost c q"
  using assms
proof (cases rule: read_size_input)
  case none
  then show ?thesis by (simp add: UnknownFieldParserHelper_ParseLengthDelimited_def)
next
  case (size p1 bs1 sz)
  from string_input [OF size(3), of "unat sz"] size show ?thesis
    by (auto simp: UnknownFieldParserHelper_ParseLengthDelimited_def Cx_ReadString_def AddLengthDelimited_def
        simp del: split_paired_Ex split: if_splits)
next
  case (past p1 sz)
  from string_beyond [OF past(3), of "sint sz"] past show ?thesis
    by (auto simp: UnknownFieldParserHelper_ParseLengthDelimited_def Cx_ReadString_def)
qed

lemma lite_strings:
  assumes "input_at c p bs g" and "5 \<le> length (bs @ g)"
  shows "case ref_string bs of
      Some (str, rest) \<Rightarrow> \<exists>p'. Lite_ParseLengthDelimited n p c u =
          ret (Some p', c, map_option (\<lambda>s. s @ fields_bytes [TYPE_LENGTH_DELIMITED n str]) u) \<and> input_at c p' rest g
    | None \<Rightarrow> \<exists>q u'. Lite_ParseLengthDelimited n p c u = ret (q, c, u') \<and> lost c q"
  using assms
proof (cases rule: read_size_input)
  case none
  then show ?thesis by (simp add: Lite_ParseLengthDelimited_def)
next
  case (size p1 bs1 sz)
  have "unat (ucast sz :: uint64) = unat sz"
    using unsigned_less [of sz, where 'a = nat] by (simp add: unsigned_ucast_eq take_bit_nat_eq_self)
  with string_input [OF size(3), of "unat sz"] size show ?thesis
    by (cases u) (auto simp: Lite_ParseLengthDelimited_def Cx_Skip_def Cx_AppendString_def Let_def lite_tags
        WriteVarint_bytes simp del: split_paired_Ex split: if_splits)
next
  case (past p1 sz)
  from string_beyond [OF past(3), of "sint sz"] past show ?thesis
    by (cases u) (auto simp: Lite_ParseLengthDelimited_def Cx_Skip_def Cx_AppendString_def Let_def)
qed

lemma strings_beyond:
  assumes "beyond c p" and "readable c p 5"
  shows "\<exists>q u'. UnknownFieldParserHelper_ParseLengthDelimited n p c v = ret (q, c, u') \<and> lost c q"
    and "\<exists>q u'. Lite_ParseLengthDelimited n p c u = ret (q, c, u') \<and> lost c q"
proof -
  show "\<exists>q u'. UnknownFieldParserHelper_ParseLengthDelimited n p c v = ret (q, c, u') \<and> lost c q"
    using assms
  proof (cases rule: read_size_beyond)
    case (2 p1 sz)
    from string_beyond [OF 2(3), of "sint sz"] 2 show ?thesis
      by (auto simp: UnknownFieldParserHelper_ParseLengthDelimited_def Cx_ReadString_def)
  qed (simp add: UnknownFieldParserHelper_ParseLengthDelimited_def)
  show "\<exists>q u'. Lite_ParseLengthDelimited n p c u = ret (q, c, u') \<and> lost c q"
    using assms
  proof (cases rule: read_size_beyond)
    case (2 p1 sz)
    from string_beyond [OF 2(3), of "sint sz"] 2 show ?thesis
      by (cases u) (auto simp: Lite_ParseLengthDelimited_def Cx_Skip_def Cx_AppendString_def Let_def)
  qed (simp add: Lite_ParseLengthDelimited_def)
qed

interpretation set_sink: field_sink UnknownFieldParserHelper "(@)"
proof unfold_locales
  show "\<And>n c p bs g u. \<lbrakk>n < 2 ^ 29; input_at c p bs g; 5 \<le> length (bs @ g)\<rbrakk> \<Longrightarrow>
      case ref_string bs of
        Some (str, rest) \<Rightarrow> \<exists>p'. fh_ParseLengthDelimited UnknownFieldParserHelper n p c u =
            ret (Some p', c, u @ [TYPE_LENGTH_DELIMITED n str]) \<and> input_at c p' rest g
      | None \<Rightarrow> \<exists>q u'. fh_ParseLengthDelimited UnknownFieldParserHelper n p c u = ret (q, c, u') \<and> lost c q"
    by (simp only: UnknownFieldParserHelper_def field_helper.simps) (rule set_strings)
  show "\<And>c p n u. \<lbrakk>beyond c p; readable c p 5\<rbrakk> \<Longrightarrow>
      \<exists>q u'. fh_ParseLengthDelimited UnknownFieldParserHelper n p c u = ret (q, c, u') \<and> lost c q"
    by (simp only: UnknownFieldParserHelper_def field_helper.simps) (rule strings_beyond)
qed (auto simp: UnknownFieldParserHelper_def AddVarint_def AddFixed32_def AddFixed64_def AddGroup_def)

definition lite_add :: "byte list option \<Rightarrow> fields \<Rightarrow> byte list option" where
  "lite_add u fs = map_option (\<lambda>s. s @ fields_bytes fs) u"

interpretation lite_sink: field_sink UnknownFieldLiteParserHelper lite_add
proof unfold_locales
  show "\<And>n c p bs g u. \<lbrakk>n < 2 ^ 29; input_at c p bs g; 5 \<le> length (bs @ g)\<rbrakk> \<Longrightarrow>
      case ref_string bs of
        Some (str, rest) \<Rightarrow> \<exists>p'. fh_ParseLengthDelimited UnknownFieldLiteParserHelper n p c u =
            ret (Some p', c, lite_add u [TYPE_LENGTH_DELIMITED n str]) \<and> input_at c p' rest g
      | None \<Rightarrow> \<exists>q u'. fh_ParseLengthDelimited UnknownFieldLiteParserHelper n p c u = ret (q, c, u') \<and> lost c q"
    by (simp only: UnknownFieldLiteParserHelper_def field_helper.simps lite_add_def) (rule lite_strings)
  show "\<And>c p n u. \<lbrakk>beyond c p; readable c p 5\<rbrakk> \<Longrightarrow>
      \<exists>q u'. fh_ParseLengthDelimited UnknownFieldLiteParserHelper n p c u = ret (q, c, u') \<and> lost c q"
    by (simp only: UnknownFieldLiteParserHelper_def field_helper.simps) (rule strings_beyond)
  show "lite_add u [] = u" for u by (cases u) (simp_all add: lite_add_def)
  show "lite_add u (fs @ gs) = lite_add (lite_add u fs) gs" for u fs gs
    by (cases u) (simp_all add: lite_add_def)
qed (auto simp: UnknownFieldLiteParserHelper_def lite_add_def lite_tags WriteVarint_bytes fields_bytes_def
    option.map_comp comp_def)

section \<open>The reference parser reads what the serializer writes\<close>

text \<open>
  What a message may hold so that its encoding can be read back: numbers in range, strings under the
  limit of \<^verbatim>\<open>ReadSize\<close>, and groups nested at most \<open>d\<close> deep.
\<close>

fun readable_field :: "nat \<Rightarrow> unknown_field \<Rightarrow> bool" where
  "readable_field d (TYPE_VARINT n v) \<longleftrightarrow> 0 < n \<and> n < 2 ^ 29"
| "readable_field d (TYPE_FIXED32 n v) \<longleftrightarrow> 0 < n \<and> n < 2 ^ 29"
| "readable_field d (TYPE_FIXED64 n v) \<longleftrightarrow> 0 < n \<and> n < 2 ^ 29"
| "readable_field d (TYPE_LENGTH_DELIMITED n str) \<longleftrightarrow> 0 < n \<and> n < 2 ^ 29 \<and> int (length str) \<le> INT_MAX - kSlopBytes"
| "readable_field d (TYPE_GROUP n g) \<longleftrightarrow> 0 < n \<and> n < 2 ^ 29 \<and> 0 < d \<and> list_all (readable_field (d - 1)) g"

lemma dec_varint_bytes: "dec_varint (varint_bytes (unat v) @ r) = Some (length (varint_bytes (unat v)), v)"
proof -
  have "unat v < 128 ^ 10" using unsigned_less [of v, where 'a = nat] by simp
  then show ?thesis by (simp add: dec_varint_def varint_value_bytes varint_word_def)
qed

lemma dec_tag_bytes:
  "dec_tag (tag_bytes n ty @ r) = Some (length (tag_bytes n ty), push_bit 3 n OR wire_code ty)"
proof -
  have "unat (push_bit 3 n OR wire_code ty) < 128 ^ 5"
    using unsigned_less [of "push_bit 3 n OR wire_code ty", where 'a = nat] by simp
  then show ?thesis by (simp add: dec_tag_def tag_bytes_def varint_value_bytes varint_word_def)
qed

lemma dec_size_bytes:
  assumes "int n \<le> INT_MAX - kSlopBytes"
  shows "dec_size (varint_bytes n @ r) = Some (length (varint_bytes n), word_of_nat n)"
proof -
  have "n < 128 ^ 5" using assms by (simp add: INT_MAX_def kSlopBytes_def)
  then show ?thesis using assms by (simp add: dec_size_def size_limit_def varint_value_bytes varint_word_def)
qed

lemma tag_parts:
  assumes "n < 2 ^ 29"
  shows "(push_bit 3 n OR wire_code ty) AND 7 = wire_code ty" and "drop_bit 3 (push_bit 3 n OR wire_code ty) = n"
proof -
  have n: "uint n < 2 ^ 29" using assms by (simp add: word_less_def)
  have t: "MakeTag (uint n) ty = push_bit 3 n OR wire_code ty" by (simp add: MakeTag_def)
  have "GetTagWireType (MakeTag (uint n) ty) = Some ty" "GetTagFieldNumber (MakeTag (uint n) ty) = uint n"
    using MakeTag_parts [of "uint n" ty] n by simp_all
  then show "(push_bit 3 n OR wire_code ty) AND 7 = wire_code ty" "drop_bit 3 (push_bit 3 n OR wire_code ty) = n"
    unfolding t by (auto simp: GetTagWireType_def kTagTypeMask_def wire_code_def GetTagFieldNumber_def
        kTagTypeBits_def Let_def word_uint_eq_iff [of _ n] split: if_splits)
qed

lemma drop_push: "n < 2 ^ 29 \<Longrightarrow> drop_bit 3 (push_bit 3 n :: uint32) = n"
  using tag_parts(2) [of n WIRETYPE_VARINT] by (simp add: wire_code_def)

lemma next_tag: "(push_bit 3 n OR wire_code WIRETYPE_START_GROUP) + 1 = push_bit 3 n OR wire_code WIRETYPE_END_GROUP"
  unfolding tag_sum [symmetric] by (simp add: wire_code_def)

lemma le_word_bytes:
  "word_of_nat (le_value (le_bytes 8 v)) = (v :: uint64)"
  "word_of_nat (le_value (le_bytes 4 w)) = (w :: uint32)"
  using unsigned_less [of v, where 'a = nat] unsigned_less [of w, where 'a = nat]
  by (simp_all add: le_value_bytes)

text \<open>The parts of a field: its tag, and what is behind it.\<close>

fun field_wire :: "unknown_field \<Rightarrow> WireType" where
  "field_wire (TYPE_VARINT n v) = WIRETYPE_VARINT"
| "field_wire (TYPE_FIXED32 n v) = WIRETYPE_FIXED32"
| "field_wire (TYPE_FIXED64 n v) = WIRETYPE_FIXED64"
| "field_wire (TYPE_LENGTH_DELIMITED n str) = WIRETYPE_LENGTH_DELIMITED"
| "field_wire (TYPE_GROUP n g) = WIRETYPE_START_GROUP"

fun field_payload :: "unknown_field \<Rightarrow> byte list" where
  "field_payload (TYPE_VARINT n v) = varint_bytes (unat v)"
| "field_payload (TYPE_FIXED32 n v) = le_bytes 4 v"
| "field_payload (TYPE_FIXED64 n v) = le_bytes 8 v"
| "field_payload (TYPE_LENGTH_DELIMITED n str) = varint_bytes (length str) @ str"
| "field_payload (TYPE_GROUP n g) = fields_bytes g @ tag_bytes n WIRETYPE_END_GROUP"

abbreviation field_tag :: "unknown_field \<Rightarrow> uint32" where
  "field_tag f \<equiv> push_bit 3 (field_number f) OR wire_code (field_wire f)"

lemma field_bytes_parts: "field_bytes f = tag_bytes (field_number f) (field_wire f) @ field_payload f"
  by (cases f) (simp_all add: fields_bytes_def)

lemma readable_number: "readable_field d f \<Longrightarrow> 0 < field_number f \<and> field_number f < 2 ^ 29"
  by (cases f) auto

lemma ref_scalar_payload:
  assumes "readable_field d f" and "\<forall>n g. f \<noteq> TYPE_GROUP n g"
  shows "ref_scalar (field_tag f) (field_payload f @ r) = Some (f, r)"
proof -
  have n: "field_number f < 2 ^ 29" using readable_number [OF assms(1)] ..
  show ?thesis
  proof (cases f)
    case (TYPE_LENGTH_DELIMITED n str)
    then have len: "int (length str) \<le> INT_MAX - kSlopBytes" using assms by simp
    then have "unat (word_of_nat (length str) :: uint32) = length str"
      by (simp add: unat_of_nat INT_MAX_def kSlopBytes_def)
    then have "ref_string (varint_bytes (length str) @ str @ r) = Some (str, r)"
      by (simp add: ref_string_def dec_size_bytes [OF len])
    with n TYPE_LENGTH_DELIMITED show ?thesis
      by (simp add: ref_scalar_def tag_parts Let_def) (simp add: wire_code_def drop_push)
  qed (use n assms in \<open>simp_all add: ref_scalar_def tag_parts Let_def\<close>,
       simp_all add: wire_code_def dec_varint_bytes le_word_bytes drop_push)
qed

definition follows :: "ending \<Rightarrow> byte list \<Rightarrow> byte list \<Rightarrow> bool" where
  "follows e rest rest' \<longleftrightarrow>
     rest = [] \<and> e = AtEnd \<and> rest' = [] \<or>
     (\<exists>n t. dec_tag rest = Some (n, t) \<and> t AND 7 = 4 \<and> e = AtTag t \<and> rest' = drop n rest)"

lemma ref_fields_Nil:
  assumes "follows e rest rest'"
  shows "ref_fields (Suc k) d rest = Some (Some ([], e, rest'))"
proof -
  have "dec_tag [] = None"
    using prefix_decoderD(1) [OF prefix_decoders(1), of "[]"] by (cases "dec_tag []") auto
  then show ?thesis using assms by (auto simp: follows_def ref_fields.simps)
qed

lemma ref_fields_Cons:
  assumes f: "readable_field d f" and field: "ref_field k d (field_tag f) (field_payload f @ r) = Some (Some (f, r))"
    and rest: "ref_fields k d r = Some (Some (fs, e, r'))"
  shows "ref_fields (Suc k) d (field_bytes f @ r) = Some (Some (f # fs, e, r'))"
proof -
  let ?n = "field_number f" and ?ty = "field_wire f"
  have n: "?n < 2 ^ 29" "0 < ?n" using readable_number [OF f] by auto
  have "field_tag f \<noteq> 0"
  proof
    assume "field_tag f = 0"
    then have "drop_bit 3 0 = ?n" using tag_parts(2) [OF n(1), of ?ty] by metis
    then show False using n(2) by simp
  qed
  moreover have "field_tag f AND 7 \<noteq> 4" using tag_parts(1) [OF n(1), of ?ty] by (cases f) (simp_all add: wire_code_def)
  ultimately show ?thesis
    using field rest tag_bytes_pos [of ?n ?ty]
    by (simp add: ref_fields.simps field_bytes_parts dec_tag_bytes)
qed

lemma ref_fields_bytes:
  "list_all (readable_field d) fs \<Longrightarrow> follows e rest rest' \<Longrightarrow> 2 * length (fields_bytes fs @ rest) < k \<Longrightarrow>
    ref_fields k d (fields_bytes fs @ rest) = Some (Some (fs, e, rest'))"
proof (induction fs arbitrary: k d e rest rest' rule: ComputeUnknownFieldsSize.induct)
  case 1
  then show ?case by (cases k) (simp_all add: ref_fields_Nil)
next
  case (2 f fs)
  obtain k' where k: "k = Suc k'" using 2(5) by (cases k) auto
  let ?r = "fields_bytes fs @ rest"
  have f: "readable_field d f" using 2(3) by simp
  have n: "field_number f < 2 ^ 29" "0 < field_number f" using readable_number [OF f] by auto
  have len: "2 * (length (tag_bytes (field_number f) (field_wire f)) + length (field_payload f) + length ?r) < Suc k'"
    using 2(5) k by (simp add: field_bytes_parts)
  obtain a where pos: "length (tag_bytes (field_number f) (field_wire f)) = Suc a"
    using tag_bytes_pos gr0_implies_Suc by blast
  have "2 * length ?r < k'" using len unfolding pos by simp
  then have rest: "ref_fields k' d ?r = Some (Some (fs, e, rest'))" using 2(2,3,4) by simp
  have "ref_field k' d (field_tag f) (field_payload f @ ?r) = Some (Some (f, ?r))"
  proof (cases "\<exists>m g. f = TYPE_GROUP m g")
    case False
    have "field_tag f AND 7 \<noteq> 3"
      using tag_parts(1) [OF n(1), of "field_wire f"] False by (cases f) (simp_all add: wire_code_def)
    with ref_scalar_payload [OF f] False tag_parts(2) [OF n(1), of "field_wire f"] n(2) show ?thesis
      by (auto simp: ref_field.simps)
  next
    case True
    then obtain m g where fg: "f = TYPE_GROUP m g" by blast
    let ?etag = "push_bit 3 m OR wire_code WIRETYPE_END_GROUP"
    have m: "m < 2 ^ 29" "0 < m" using n by (simp_all add: fg)
    have "1 \<le> k'" using len unfolding pos by simp
    then obtain k'' where k': "k' = Suc k''" by (cases k') auto
    have d: "0 < d" "list_all (readable_field (d - 1)) g" using f by (simp_all add: fg)
    have fol: "follows (AtTag ?etag) (tag_bytes m WIRETYPE_END_GROUP @ ?r) ?r"
      using tag_parts(1) [OF m(1), of WIRETYPE_END_GROUP]
      by (simp add: follows_def dec_tag_bytes) (simp add: wire_code_def)
    have "2 * length (fields_bytes g @ tag_bytes m WIRETYPE_END_GROUP @ ?r) < k''"
      using len k' unfolding pos by (simp add: fg)
    then have "ref_fields k'' (d - 1) (fields_bytes g @ tag_bytes m WIRETYPE_END_GROUP @ ?r) =
        Some (Some (g, AtTag ?etag, ?r))"
      by (rule 2(1) [OF fg d(2) fol])
    then have "ref_group k' d (field_tag f) (field_payload f @ ?r) = Some (Some (g, ?r))"
      using d(1) next_tag [of m] by (simp add: k' ref_group.simps fg)
    then show ?thesis
      using tag_parts [OF m(1), of WIRETYPE_START_GROUP] m(2)
      by (auto simp: ref_field.simps fg wire_code_def)
  qed
  then show ?case using ref_fields_Cons [OF f _ rest] by (simp add: k)
qed

text \<open>A group that was closed by its own end tag.\<close>

lemma closed_group:
  "(case r of Some (g, AtTag t, bs) \<Rightarrow> if t = tag + 1 then Some (F g bs) else None | _ \<Rightarrow> None) = Some y \<longleftrightarrow>
    (\<exists>g bs. r = Some (g, AtTag (tag + 1), bs) \<and> y = F g bs)"
proof (cases r)
  case (Some x)
  then obtain g e bs where "r = Some (g, e, bs)" by (cases x) auto
  then show ?thesis by (cases e) auto
qed simp

section \<open>A whole input\<close>

lemma ParseContext_flat_starts:
  assumes "ParseContext_flat (int d) bs = (p, c)"
  shows "\<exists>g. starts c p d bs g"
proof (cases "int (length bs) > kSlop")
  case True
  then have "starts c p d bs []"
    using assms by (auto simp: ParseContext_flat_def InitFrom_flat_def Let_def ctx0_def starts_def input_at_def
        flat_def cx_block_def kSlop_def)
  then show ?thesis ..
next
  case False
  then have "starts c p d bs (drop (length bs) (replicate 32 0))"
    using assms by (auto simp: ParseContext_flat_def InitFrom_flat_def Let_def ctx0_def starts_def input_at_def
        flat_def cx_block_def kSlop_def overwrite_def)
  then show ?thesis ..
qed

text \<open>The parse of a whole array ends well exactly when the reference parse ends with the input.\<close>

definition whole :: "(fields \<times> ending \<times> byte list) option option \<Rightarrow> fields option" where
  "whole r = (case r of Some (Some (fs, AtEnd, rest)) \<Rightarrow> Some fs | _ \<Rightarrow> None)"

lemma wire_outcome_whole:
  assumes "wire_outcome add d bs r R"
  shows "\<exists>q c u. R = ret (q, c, u) \<and> (case whole r of
      Some fs \<Rightarrow> q \<noteq> None \<and> EndedAtLimit c \<and> u = add fs
    | None \<Rightarrow> q = None \<or> \<not> EndedAtLimit c)"
proof -
  have "t - 1 \<noteq> 0" if "t = 0 \<or> t AND 7 = 4" for t :: uint32 using that by auto
  then show ?thesis
    using assms unfolding wire_outcome_def whole_def EndedAtLimit_def
    by (auto simp: ends_at_def starts_def simp del: split_paired_Ex split: option.splits ending.splits)
qed

lemmas set_parse = set_sink.parser_outcome(1) [THEN wire_outcome_whole]
lemmas lite_parse = lite_sink.parser_outcome(1) [THEN wire_outcome_whole]

text \<open>
  C20: On any bytes the parser of unknown fields returns and reads only its buffers; it succeeds
  exactly when the reference parser consumes the whole input, and then appends what that returns.
  Groups may be nested as deep as the recursion limit \<open>d\<close> says, and fuel of twice the number of bytes
  is enough.
\<close>

theorem unknown_parse_refines:
  assumes "ParseContext_flat (int d) bs = (p, c)" and "2 * length bs < k"
  shows "\<exists>q c' u'. UnknownGroupParse k u p c = ret (q, c', u') \<and>
    (case whole (ref_fields k d bs) of
       Some fs \<Rightarrow> q \<noteq> None \<and> EndedAtLimit c' \<and> u' = u @ fs
     | None \<Rightarrow> q = None \<or> \<not> EndedAtLimit c')"
proof -
  obtain g where "starts c p d bs g" using ParseContext_flat_starts [OF assms(1)] ..
  from set_parse [OF this assms(2), of u] show ?thesis
    unfolding UnknownGroupParse_def by (auto split: option.splits)
qed

theorem unknown_parse_refines_witness:
  "whole (ref_fields 20 100 [10, 2, 7, 8, 24, 5]) = Some [TYPE_LENGTH_DELIMITED 1 [7, 8], TYPE_VARINT 3 5] \<and>
   (\<exists>p c q c'. ParseContext_flat 100 [10, 2, 7, 8, 24, 5] = (p, c) \<and>
     UnknownGroupParse 20 [] p c = ret (q, c', [TYPE_LENGTH_DELIMITED 1 [7, 8], TYPE_VARINT 3 5]) \<and> q \<noteq> None)"
proof -
  have r: "whole (ref_fields 20 100 [10, 2, 7, 8, 24, 5]) = Some [TYPE_LENGTH_DELIMITED 1 [7, 8], TYPE_VARINT 3 5]"
    by code_simp
  obtain p c where c: "ParseContext_flat (int 100) [10, 2, 7, 8, 24, 5] = (p, c)" by (metis surj_pair)
  show ?thesis
    using unknown_parse_refines [OF c, of 20 "[]"] c r by auto
qed

text \<open>
  C21: The lite parser and the parser of an \<^verbatim>\<open>UnknownFieldSet\<close> accept the same inputs, and
  the string of the one is the encoding of the set of the other.
\<close>

theorem lite_parse_encodes_set:
  assumes "ParseContext_flat (int d) bs = (p, c)" and "2 * length bs < k"
  shows "\<exists>q1 c1 u1 q2 c2 u2.
    UnknownGroupParse k [] p c = ret (q1, c1, u1) \<and>
    UnknownGroupLiteParse k (Some s) p c = ret (q2, c2, u2) \<and>
    (q1 \<noteq> None \<and> EndedAtLimit c1 \<longleftrightarrow> q2 \<noteq> None \<and> EndedAtLimit c2) \<and>
    (q1 \<noteq> None \<and> EndedAtLimit c1 \<longrightarrow> u2 = Some (s @ fields_bytes u1))"
proof -
  obtain g where st: "starts c p d bs g" using ParseContext_flat_starts [OF assms(1)] ..
  from set_parse [OF st assms(2), of "[]"] lite_parse [OF st assms(2), of "Some s"] show ?thesis
    unfolding UnknownGroupParse_def UnknownGroupLiteParse_def
    by (auto simp: lite_add_def split: option.splits)
qed

theorem lite_parse_encodes_set_witness:
  "\<exists>p c q1 c1 u1 q2 c2 u2. ParseContext_flat 2 [128, 128, 0, 3] = (p, c) \<and>
    UnknownGroupParse 9 [] p c = ret (q1, c1, u1) \<and> UnknownGroupLiteParse 9 (Some [1]) p c = ret (q2, c2, u2) \<and>
    (q1 \<noteq> None \<and> EndedAtLimit c1 \<longleftrightarrow> q2 \<noteq> None \<and> EndedAtLimit c2)"
proof -
  obtain p c where c: "ParseContext_flat (int 2) [128, 128, 0, 3] = (p, c)" by (metis surj_pair)
  have "2 * length [128 :: byte, 128, 0, 3] < 9" by simp
  from lite_parse_encodes_set [OF c this, of "[1]"] c show ?thesis by simp metis
qed



end
