(* ===== verification/Recv_Buffer.thy ===== *)
theory Recv_Buffer
  imports Prelude
begin

text \<open>
  The receive buffer of a session, \<^verbatim>\<open>ServerCore/RecvBuffer.{h,cpp}\<close>: one block of
  \<^verbatim>\<open>bufferSize * BUFFER_COUNT\<close> bytes with a read and a write position. The kernel stores
  received bytes at the write position; the packet layer consumes them from the read position;
  \<^verbatim>\<open>Clear\<close> moves the bytes not yet consumed to the front. The interface a client relies on is
  the locale \<open>byte_stream\<close>: a queue of bytes in which nothing is lost, duplicated or reordered.
\<close>

section \<open>The class\<close>

definition BUFFER_COUNT :: int where
  "BUFFER_COUNT = 10"

record recv_buffer =
  rb_capacity :: int
  rb_bufferSize :: int
  rb_readPos :: int
  rb_writePos :: int
  rb_buffer :: "byte list"

text \<open>
  The constructor: \<^verbatim>\<open>capacity = bufferSize * BUFFER_COUNT\<close> is an \<^verbatim>\<open>int\<close> product, and
  \<^verbatim>\<open>resize\<close> throws on a size it cannot have (a negative \<^verbatim>\<open>int\<close> converted to \<^verbatim>\<open>size_t\<close>).
\<close>

definition RecvBuffer :: "int \<Rightarrow> recv_buffer res" where
  "RecvBuffer sz =
     (let capacity = sz * BUFFER_COUNT in
      if \<not> in_int32 capacity then Inl SignedOverflow
      else if capacity < 0 then Inl LengthError
      else Inr \<lparr>rb_capacity = capacity, rb_bufferSize = sz, rb_readPos = 0, rb_writePos = 0,
                rb_buffer = replicate (nat capacity) 0\<rparr>)"

definition RecvBuffer_DataSize :: "recv_buffer \<Rightarrow> int" where
  "RecvBuffer_DataSize rb = rb_writePos rb - rb_readPos rb"

definition RecvBuffer_FreeSize :: "recv_buffer \<Rightarrow> int" where
  "RecvBuffer_FreeSize rb = rb_capacity rb - rb_writePos rb"

text \<open>\<^verbatim>\<open>&buffer[readPos]\<close> and \<^verbatim>\<open>&buffer[writePos]\<close>: the subscript must be in range.\<close>

definition RecvBuffer_ReadPos :: "recv_buffer \<Rightarrow> int res" where
  "RecvBuffer_ReadPos rb =
     (if 0 \<le> rb_readPos rb \<and> rb_readPos rb < int (length (rb_buffer rb))
      then Inr (rb_readPos rb) else Inl OutOfBounds)"

definition RecvBuffer_WritePos :: "recv_buffer \<Rightarrow> int res" where
  "RecvBuffer_WritePos rb =
     (if 0 \<le> rb_writePos rb \<and> rb_writePos rb < int (length (rb_buffer rb))
      then Inr (rb_writePos rb) else Inl OutOfBounds)"

definition RecvBuffer_Clear :: "recv_buffer \<Rightarrow> recv_buffer res" where
  "RecvBuffer_Clear rb =
     (let dataSize = RecvBuffer_DataSize rb in
      if dataSize = 0 then Inr (rb\<lparr>rb_readPos := 0, rb_writePos := 0\<rparr>)
      else if RecvBuffer_FreeSize rb < rb_bufferSize rb then
        bind_res (memcpy_within (rb_buffer rb) 0 (rb_readPos rb) dataSize) (\<lambda>buf.
          Inr (rb\<lparr>rb_buffer := buf, rb_readPos := 0, rb_writePos := dataSize\<rparr>))
      else Inr rb)"

definition RecvBuffer_OnRead :: "int \<Rightarrow> recv_buffer \<Rightarrow> bool \<times> recv_buffer" where
  "RecvBuffer_OnRead numOfBytes rb =
     (if numOfBytes > RecvBuffer_DataSize rb then (False, rb)
      else (True, rb\<lparr>rb_readPos := rb_readPos rb + numOfBytes\<rparr>))"

definition RecvBuffer_OnWrite :: "int \<Rightarrow> recv_buffer \<Rightarrow> bool \<times> recv_buffer" where
  "RecvBuffer_OnWrite numOfBytes rb =
     (if numOfBytes > RecvBuffer_FreeSize rb then (False, rb)
      else (True, rb\<lparr>rb_writePos := rb_writePos rb + numOfBytes\<rparr>))"

text \<open>
  What the kernel does between \<^verbatim>\<open>WSARecv\<close> and its completion: it stores the received
  bytes from the write position on (documented behaviour of the call; not code of the program).
\<close>

definition kernel_store :: "byte list \<Rightarrow> recv_buffer \<Rightarrow> recv_buffer res" where
  "kernel_store bs rb =
     bind_res (mem_write (rb_buffer rb) (rb_writePos rb) bs) (\<lambda>buf. Inr (rb\<lparr>rb_buffer := buf\<rparr>))"

section \<open>Invariant and abstraction\<close>

definition recv_inv :: "recv_buffer \<Rightarrow> bool" where
  "recv_inv rb \<longleftrightarrow>
     0 \<le> rb_readPos rb \<and> rb_readPos rb \<le> rb_writePos rb \<and> rb_writePos rb \<le> rb_capacity rb \<and>
     0 \<le> rb_bufferSize rb \<and> rb_capacity rb = rb_bufferSize rb * BUFFER_COUNT \<and>
     in_int32 (rb_capacity rb) \<and> int (length (rb_buffer rb)) = rb_capacity rb"

text \<open>The bytes received and not yet consumed.\<close>

definition pending :: "recv_buffer \<Rightarrow> byte list" where
  "pending rb = window (nat (rb_readPos rb)) (nat (RecvBuffer_DataSize rb)) (rb_buffer rb)"

lemmas recv_defs = RecvBuffer_DataSize_def RecvBuffer_FreeSize_def recv_inv_def

text \<open>Under the invariant the positions are indices of the block.\<close>

lemma recv_inv_indices:
  assumes "recv_inv rb"
  obtains r w where "rb_readPos rb = int r" and "rb_writePos rb = int w" and "r \<le> w"
    and "w \<le> length (rb_buffer rb)" and "RecvBuffer_DataSize rb = int (w - r)"
    and "pending rb = window r (w - r) (rb_buffer rb)"
    and "rb_capacity rb = int (length (rb_buffer rb))"
proof (rule that [of "nat (rb_readPos rb)" "nat (rb_writePos rb)"])
  show "RecvBuffer_DataSize rb = int (nat (rb_writePos rb) - nat (rb_readPos rb))"
    using assms by (auto simp: recv_defs of_nat_diff nat_le_eq_zle)
  then show "pending rb = window (nat (rb_readPos rb))
      (nat (rb_writePos rb) - nat (rb_readPos rb)) (rb_buffer rb)"
    by (simp add: pending_def)
qed (use assms in \<open>auto simp: recv_inv_def\<close>)

lemma length_pending: "recv_inv rb \<Longrightarrow> int (length (pending rb)) = RecvBuffer_DataSize rb"
  by (erule recv_inv_indices) (simp add: length_window)

lemma RecvBuffer_inv:
  assumes "RecvBuffer sz = Inr rb"
  shows "recv_inv rb \<and> pending rb = [] \<and> RecvBuffer_FreeSize rb = rb_capacity rb"
  using assms
  by (auto simp: RecvBuffer_def recv_defs pending_def BUFFER_COUNT_def Let_def split: if_splits)

lemma OnRead_spec:
  assumes "recv_inv rb" and "0 \<le> n" and "RecvBuffer_OnRead n rb = (True, rb')"
  shows "recv_inv rb'" and "pending rb' = drop (nat n) (pending rb)"
    and "RecvBuffer_FreeSize rb' = RecvBuffer_FreeSize rb"
  using assms
  by (auto simp: RecvBuffer_OnRead_def recv_defs pending_def drop_window nat_add_distrib
      nat_diff_distrib split: if_splits)

lemma OnWrite_spec:
  assumes inv: "recv_inv rb" and st: "kernel_store bs rb = Inr rb1"
    and wr: "RecvBuffer_OnWrite (int (length bs)) rb1 = (True, rb')"
  shows "recv_inv rb'" and "pending rb' = pending rb @ bs"
proof -
  from inv obtain r w where rw: "rb_readPos rb = int r" "rb_writePos rb = int w" "r \<le> w"
    and w: "w \<le> length (rb_buffer rb)" and p: "pending rb = window r (w - r) (rb_buffer rb)"
    and cap: "rb_capacity rb = int (length (rb_buffer rb))"
    by (elim recv_inv_indices)
  from st have rb1: "rb1 = rb\<lparr>rb_buffer := overwrite w bs (rb_buffer rb)\<rparr>"
    and fit: "w + length bs \<le> length (rb_buffer rb)"
    by (auto simp: kernel_store_def mem_write_def rw split: if_splits)
  from wr have rb': "rb' = rb1\<lparr>rb_writePos := rb_writePos rb1 + int (length bs)\<rparr>"
    by (auto simp: RecvBuffer_OnWrite_def split: if_splits)
  show "recv_inv rb'"
    using inv fit cap rw(3) by (auto simp: rb' rb1 recv_defs rw(1,2))
  have "nat (RecvBuffer_DataSize rb') = (w - r) + length bs"
    using rw by (simp add: rb' rb1 RecvBuffer_DataSize_def nat_add_distrib)
  then have "pending rb' = window r ((w - r) + length bs) (overwrite w bs (rb_buffer rb))"
    by (simp add: pending_def rb' rb1 rw)
  also have "\<dots> = window r (w - r) (rb_buffer rb) @ bs"
    unfolding window_append using rw(3) w
    by (simp add: window_overwrite_before window_overwrite_same)
  finally show "pending rb' = pending rb @ bs" by (simp add: p)
qed

text \<open>
  \<^verbatim>\<open>Clear\<close> keeps the pending bytes whenever its \<^verbatim>\<open>memcpy\<close> is defined.
\<close>

lemma Clear_spec:
  assumes inv: "recv_inv rb" and cl: "RecvBuffer_Clear rb = Inr rb'"
  shows "recv_inv rb'" and "pending rb' = pending rb"
    and "rb_capacity rb' = rb_capacity rb \<and> rb_bufferSize rb' = rb_bufferSize rb"
proof -
  let ?d = "RecvBuffer_DataSize rb" and ?r = "nat (rb_readPos rb)"
  consider (empty) "?d = 0" | (move) "?d \<noteq> 0" "RecvBuffer_FreeSize rb < rb_bufferSize rb"
    | (stay) "?d \<noteq> 0" "\<not> RecvBuffer_FreeSize rb < rb_bufferSize rb" by blast
  then have "recv_inv rb' \<and> pending rb' = pending rb \<and>
      rb_capacity rb' = rb_capacity rb \<and> rb_bufferSize rb' = rb_bufferSize rb"
  proof cases
    case empty
    with cl inv show ?thesis
      by (auto simp: RecvBuffer_Clear_def recv_defs pending_def)
  next
    case stay
    with cl inv show ?thesis by (simp add: RecvBuffer_Clear_def)
  next
    case move
    let ?bs = "window ?r (nat ?d) (rb_buffer rb)"
    have len: "length ?bs = nat ?d"
      using inv by (intro length_window) (auto simp: recv_defs)
    from move cl have rb': "rb' = rb\<lparr>rb_buffer := overwrite 0 ?bs (rb_buffer rb),
        rb_readPos := 0, rb_writePos := ?d\<rparr>"
      by (auto simp: RecvBuffer_Clear_def memcpy_within_def mem_write_def mem_read_def
          bind_res_eq_Inr Let_def split: if_splits)
    have d: "RecvBuffer_DataSize rb' = ?d" by (simp add: rb' RecvBuffer_DataSize_def)
    have "pending rb' = window 0 (nat ?d) (overwrite 0 ?bs (rb_buffer rb))"
      unfolding pending_def d by (simp add: rb')
    also have "\<dots> = window 0 (length ?bs) (overwrite 0 ?bs (rb_buffer rb))"
      by (simp only: len)
    also have "\<dots> = ?bs" by (rule window_overwrite_same) simp
    finally have "pending rb' = pending rb" by (simp add: pending_def)
    moreover have "recv_inv rb'"
      using inv len by (auto simp: rb' recv_defs)
    ultimately show ?thesis by (simp add: rb')
  qed
  then show "recv_inv rb'" and "pending rb' = pending rb"
    and "rb_capacity rb' = rb_capacity rb \<and> rb_bufferSize rb' = rb_bufferSize rb" by auto
qed

text \<open>The only way \<^verbatim>\<open>Clear\<close> fails: the pending bytes overlap the place they move to.\<close>

lemma Clear_faults_iff:
  assumes "recv_inv rb"
  shows "RecvBuffer_Clear rb = Inl e \<longleftrightarrow>
    e = MemcpyOverlap \<and> RecvBuffer_FreeSize rb < rb_bufferSize rb \<and>
    rb_readPos rb < RecvBuffer_DataSize rb"
  using assms
  by (auto simp: RecvBuffer_Clear_def memcpy_within_def mem_read_def mem_write_def recv_defs
      bind_res_def window_def Let_def split: if_splits sum.splits)

text \<open>
  After a successful \<^verbatim>\<open>Clear\<close> there is room for another \<^verbatim>\<open>bufferSize\<close> bytes, unless the
  pending bytes themselves already fill more than \<^verbatim>\<open>capacity - bufferSize\<close>.
\<close>

lemma Clear_room:
  assumes inv: "recv_inv rb" and cl: "RecvBuffer_Clear rb = Inr rb'"
    and few: "RecvBuffer_DataSize rb \<le> rb_capacity rb - rb_bufferSize rb"
  shows "rb_bufferSize rb \<le> RecvBuffer_FreeSize rb'"
  using assms
  by (auto simp: RecvBuffer_Clear_def recv_defs BUFFER_COUNT_def Let_def bind_res_eq_Inr
      split: if_splits)

section \<open>The interface: a stream of bytes\<close>

text \<open>
  One round of the receive path: bytes arrive, the packet layer takes a prefix of what is
  pending, the buffer is compacted. \<open>rounds\<close> returns the bytes taken, in order.
\<close>

fun rounds :: "('b \<Rightarrow> byte list) \<Rightarrow> (byte list \<Rightarrow> 'b \<Rightarrow> 'b option) \<Rightarrow> (nat \<Rightarrow> 'b \<Rightarrow> 'b option) \<Rightarrow>
    ('b \<Rightarrow> 'b option) \<Rightarrow> (byte list \<times> nat) list \<Rightarrow> 'b \<Rightarrow> (byte list \<times> 'b) option" where
  "rounds bytes recv take_out compact [] b = Some ([], b)"
| "rounds bytes recv take_out compact ((bs, n) # rs) b =
     Option.bind (recv bs b) (\<lambda>b1.
     Option.bind (take_out n b1) (\<lambda>b2.
     Option.bind (compact b2) (\<lambda>b3.
     map_option (\<lambda>(out, b'). (take n (bytes b1) @ out, b'))
       (rounds bytes recv take_out compact rs b3))))"

locale byte_stream =
  fixes ok :: "'b \<Rightarrow> bool"
    and bytes :: "'b \<Rightarrow> byte list"
    and recv :: "byte list \<Rightarrow> 'b \<Rightarrow> 'b option"
    and take_out :: "nat \<Rightarrow> 'b \<Rightarrow> 'b option"
    and compact :: "'b \<Rightarrow> 'b option"
  assumes recv_law: "ok b \<Longrightarrow> recv bs b = Some b' \<Longrightarrow> ok b' \<and> bytes b' = bytes b @ bs"
    and take_law: "ok b \<Longrightarrow> take_out n b = Some b' \<Longrightarrow> ok b' \<and> bytes b' = drop n (bytes b)"
    and compact_law: "ok b \<Longrightarrow> compact b = Some b' \<Longrightarrow> ok b' \<and> bytes b' = bytes b"
begin

lemma rounds_conserve:
  assumes "ok b" and "rounds bytes recv take_out compact rs b = Some (out, b')"
  shows "ok b' \<and> bytes b @ concat (map fst rs) = out @ bytes b'"
  using assms
proof (induction rs arbitrary: b out)
  case Nil
  then show ?case by simp
next
  case (Cons r rs)
  obtain bs n where r: "r = (bs, n)" by force
  from Cons.prems(2) obtain b1 b2 b3 out' where
      s: "recv bs b = Some b1" "take_out n b1 = Some b2" "compact b2 = Some b3"
    and rest: "rounds bytes recv take_out compact rs b3 = Some (out', b')"
    and out: "out = take n (bytes b1) @ out'"
    by (auto simp: r bind_eq_Some_conv)
  have b1: "ok b1" "bytes b1 = bytes b @ bs" using recv_law [OF Cons.prems(1) s(1)] by auto
  have b2: "ok b2" "bytes b2 = drop n (bytes b1)" using take_law [OF b1(1) s(2)] by auto
  have b3: "ok b3" "bytes b3 = drop n (bytes b1)" using compact_law [OF b2(1) s(3)] b2(2) by auto
  have IH: "ok b'" "drop n (bytes b1) @ concat (map fst rs) = out' @ bytes b'"
    using Cons.IH [OF b3(1) rest] by (auto simp: b3(2))
  have "bytes b @ concat (map fst (r # rs)) = bytes b1 @ concat (map fst rs)"
    by (simp add: r b1(2))
  also have "\<dots> = take n (bytes b1) @ drop n (bytes b1) @ concat (map fst rs)"
    by (metis append_assoc append_take_drop_id)
  also have "\<dots> = out @ bytes b'" by (simp only: IH(2) out append_assoc)
  finally show ?case using IH(1) by simp
qed

end

text \<open>
  The operations of the class in this shape: the kernel stores and \<^verbatim>\<open>OnWrite\<close> admits the
  bytes; \<^verbatim>\<open>OnRead\<close> takes a number of bytes; \<^verbatim>\<open>Clear\<close> compacts. \<open>None\<close> is a refusal or a
  fault.
\<close>

definition rb_recv :: "byte list \<Rightarrow> recv_buffer \<Rightarrow> recv_buffer option" where
  "rb_recv bs rb =
     (case kernel_store bs rb of
        Inl e \<Rightarrow> None
      | Inr rb1 \<Rightarrow> (case RecvBuffer_OnWrite (int (length bs)) rb1 of
          (True, rb') \<Rightarrow> Some rb' | (False, rb') \<Rightarrow> None))"

definition rb_take :: "nat \<Rightarrow> recv_buffer \<Rightarrow> recv_buffer option" where
  "rb_take n rb =
     (case RecvBuffer_OnRead (int n) rb of (True, rb') \<Rightarrow> Some rb' | (False, rb') \<Rightarrow> None)"

definition rb_compact :: "recv_buffer \<Rightarrow> recv_buffer option" where
  "rb_compact rb = (case RecvBuffer_Clear rb of Inl e \<Rightarrow> None | Inr rb' \<Rightarrow> Some rb')"

interpretation rbs: byte_stream recv_inv pending rb_recv rb_take rb_compact
proof unfold_locales
  fix b b' bs
  assume "recv_inv b" and "rb_recv bs b = Some b'"
  then show "recv_inv b' \<and> pending b' = pending b @ bs"
    by (auto simp: rb_recv_def split: sum.splits prod.splits bool.splits
        intro: OnWrite_spec dest: OnWrite_spec)
next
  fix b b' n
  assume "recv_inv b" and "rb_take n b = Some b'"
  then show "recv_inv b' \<and> pending b' = drop n (pending b)"
    using OnRead_spec [of b "int n" b'] by (auto simp: rb_take_def split: prod.splits bool.splits)
next
  fix b b'
  assume "recv_inv b" and "rb_compact b = Some b'"
  then show "recv_inv b' \<and> pending b' = pending b"
    using Clear_spec [of b b'] by (auto simp: rb_compact_def split: sum.splits)
qed

section \<open>Properties\<close>

text \<open>
  C2: the receive path neither loses, duplicates nor reorders a byte: over any number of rounds
  (store, \<^verbatim>\<open>OnWrite\<close>, \<^verbatim>\<open>OnRead\<close>, \<^verbatim>\<open>Clear\<close>) on a fresh buffer, the bytes that
  arrived are the bytes consumed followed by those still pending.
\<close>

theorem receive_path_conserves:
  assumes "RecvBuffer sz = Inr rb" and "rounds pending rb_recv rb_take rb_compact rs rb = Some (out, rb')"
  shows "concat (map fst rs) = out @ pending rb'"
  using rbs.rounds_conserve [OF _ assms(2)] RecvBuffer_inv [OF assms(1)] by simp

lemmas recv_eval = RecvBuffer_def in_int32_def BUFFER_COUNT_def pending_def rb_recv_def rb_take_def
  rb_compact_def kernel_store_def mem_write_def mem_read_def memcpy_within_def RecvBuffer_OnWrite_def
  RecvBuffer_OnRead_def RecvBuffer_Clear_def RecvBuffer_DataSize_def RecvBuffer_FreeSize_def
  window_def overwrite_def

theorem receive_path_conserves_witness:
  "\<exists>rb rb' out. RecvBuffer 1 = Inr rb \<and>
     rounds pending rb_recv rb_take rb_compact
       [([1, 2, 3, 4], 3), ([5, 6, 7, 8, 9], 4), ([10], 2)] rb = Some (out, rb') \<and>
     [1, 2, 3, 4, 5, 6, 7, 8, 9, 10] = out @ pending rb' \<and> rb_readPos rb' = 0 \<and> pending rb' = [10]"
proof -
  let ?rb = "\<lparr>rb_capacity = 10, rb_bufferSize = 1, rb_readPos = 0, rb_writePos = 0,
    rb_buffer = [0, 0, 0, 0, 0, 0, 0, 0, 0, 0]\<rparr>"
  have rb: "RecvBuffer 1 = Inr ?rb" by (simp add: recv_eval numeral_eq_Suc Let_def)
  have "\<exists>rb' out. rounds pending rb_recv rb_take rb_compact
       [([1, 2, 3, 4], 3), ([5, 6, 7, 8, 9], 4), ([10], 2)] ?rb = Some (out, rb') \<and>
       rb_readPos rb' = 0 \<and> pending rb' = [10]"
    by (simp add: recv_eval numeral_eq_Suc Let_def)
  then obtain rb' out where r: "rounds pending rb_recv rb_take rb_compact
       [([1, 2, 3, 4], 3), ([5, 6, 7, 8, 9], 4), ([10], 2)] ?rb = Some (out, rb')"
       "rb_readPos rb' = 0" "pending rb' = [10]" by blast
  show ?thesis using receive_path_conserves [OF rb r(1)] rb r by auto
qed



end
