(* ===== verification/Packet_Session.thy ===== *)
theory Packet_Session
  imports Recv_Buffer
begin

unbundle bit_operations_syntax

text \<open>
  Packet framing, \<^verbatim>\<open>ServerCore/PacketSession.{h,cpp}\<close>: a packet is a little-endian header
  \<^verbatim>\<open>{uint16 size; uint16 id}\<close>, where \<^verbatim>\<open>size\<close> counts the header, followed by its payload.
  \<^verbatim>\<open>PacketSession::OnRecv\<close> walks over the received bytes and hands every packet to the virtual
  \<^verbatim>\<open>OnRecvPacket\<close>, which is a parameter here. The loop has no other exit than having fewer than
  four bytes left, and compares as \<^verbatim>\<open>size_t\<close>: it is a partial function whose value \<open>None\<close>
  is an endless loop.
\<close>

section \<open>Sixteen-bit fields in memory order\<close>

definition le16 :: "byte \<Rightarrow> byte \<Rightarrow> uint16" where
  "le16 b0 b1 = ucast b0 OR push_bit 8 (ucast b1)"

definition bytes_le16 :: "uint16 \<Rightarrow> byte list" where
  "bytes_le16 w = [ucast w, ucast (drop_bit 8 w)]"

lemma le16_bytes: "le16 (ucast w) (ucast (drop_bit 8 w)) = w"
  unfolding le16_def by (rule bit_word_eqI) (auto simp: bit_simps)

lemma length_bytes_le16 [simp]: "length (bytes_le16 w) = 2"
  by (simp add: bytes_le16_def)

section \<open>The header\<close>

record packet_header =
  ph_size :: uint16
  ph_id :: uint16

definition sizeof_PacketHeader :: uint64 where
  "sizeof_PacketHeader = 4"

text \<open>\<^verbatim>\<open>*(PacketHeader*)p\<close>, four bytes at the address.\<close>

definition read_header :: "byte list \<Rightarrow> int \<Rightarrow> packet_header res" where
  "read_header mem p =
     bind_res (mem_read mem p 4) (\<lambda>bs.
       Inr \<lparr>ph_size = le16 (bs ! 0) (bs ! 1), ph_id = le16 (bs ! 2) (bs ! 3)\<rparr>)"

definition header_bytes :: "packet_header \<Rightarrow> byte list" where
  "header_bytes h = bytes_le16 (ph_size h) @ bytes_le16 (ph_id h)"

lemma length_header_bytes [simp]: "length (header_bytes h) = 4"
  by (simp add: header_bytes_def)

lemma read_header_written:
  assumes "0 \<le> p" and "window (nat p) 4 mem = header_bytes h"
  shows "read_header mem p = Inr h"
proof -
  have "length (window (nat p) 4 mem) = 4" by (simp add: assms(2))
  then have "p + 4 \<le> int (length mem)" using assms(1) by (simp add: window_def)
  with assms show ?thesis
    by (simp add: read_header_def mem_read_def header_bytes_def bytes_le16_def le16_bytes)
qed

section \<open>\<^verbatim>\<open>PacketSession::OnRecv\<close>\<close>

text \<open>
  \<open>mem\<close> is the block the pointer \<^verbatim>\<open>buffer\<close> points into and \<open>buf\<close> its offset; the callback
  gets the address of a packet and its size.
\<close>

partial_function (option) OnRecv_loop ::
    "byte list \<Rightarrow> int \<Rightarrow> int \<Rightarrow> (int \<Rightarrow> int \<Rightarrow> 's \<Rightarrow> 's run) \<Rightarrow> int \<Rightarrow> 's \<Rightarrow> (int \<times> 's) run" where
  "OnRecv_loop mem buf len OnRecvPacket processLen s =
     (let dataSize = len - processLen in
      if size_t_of_int dataSize < sizeof_PacketHeader then ret (processLen, s)
      else (case read_header mem (buf + processLen) of
          Inl e \<Rightarrow> Some (Inl e)
        | Inr header \<Rightarrow>
            (case OnRecvPacket (buf + processLen) (uint (ph_size header)) s of
               None \<Rightarrow> None
             | Some r \<Rightarrow> (case r of
                 Inl e \<Rightarrow> Some (Inl e)
               | Inr s' \<Rightarrow>
                   OnRecv_loop mem buf len OnRecvPacket (processLen + uint (ph_size header)) s'))))"

definition PacketSession_OnRecv ::
    "(int \<Rightarrow> int \<Rightarrow> 's \<Rightarrow> 's run) \<Rightarrow> byte list \<Rightarrow> int \<Rightarrow> int \<Rightarrow> 's \<Rightarrow> (int \<times> 's) run" where
  "PacketSession_OnRecv OnRecvPacket mem buf len s = OnRecv_loop mem buf len OnRecvPacket 0 s"

section \<open>One turn of the loop\<close>

lemma uint_size_t_of_int:
  assumes "in_int32 d"
  shows "uint (size_t_of_int d) = (if 0 \<le> d then d else d + 2 ^ 64)"
proof -
  have u: "uint (size_t_of_int d) = d mod 2 ^ 64"
    by (simp add: size_t_of_int_def uint_word_of_int)
  show ?thesis
  proof (cases "0 \<le> d")
    case True
    with assms have "d mod 2 ^ 64 = d" by (intro mod_pos_pos_trivial) (auto simp: in_int32_def)
    with True u show ?thesis by simp
  next
    case False
    have "d mod 2 ^ 64 = (d + 2 ^ 64) mod 2 ^ 64" by simp
    also have "\<dots> = d + 2 ^ 64"
      using False assms by (intro mod_pos_pos_trivial) (auto simp: in_int32_def)
    finally show ?thesis using False u by simp
  qed
qed

lemma size_t_less_header:
  assumes "in_int32 d"
  shows "size_t_of_int d < sizeof_PacketHeader \<longleftrightarrow> 0 \<le> d \<and> d < 4"
  using uint_size_t_of_int [OF assms] assms
  by (auto simp: sizeof_PacketHeader_def word_less_def in_int32_def split: if_splits)

lemma OnRecv_stop:
  assumes "in_int32 (len - pl)" and "0 \<le> len - pl" and "len - pl < 4"
  shows "OnRecv_loop mem buf len cb pl s = ret (pl, s)"
  using assms(2,3) by (subst OnRecv_loop.simps) (simp add: size_t_less_header [OF assms(1)])

lemma OnRecv_turn:
  assumes "in_int32 (len - pl)" and "\<not> (0 \<le> len - pl \<and> len - pl < 4)"
    and "read_header mem (buf + pl) = Inr h"
  shows "OnRecv_loop mem buf len cb pl s =
    bind_run (cb (buf + pl) (uint (ph_size h)) s)
      (\<lambda>s'. OnRecv_loop mem buf len cb (pl + uint (ph_size h)) s')"
  using assms(2,3)
  by (subst OnRecv_loop.simps)
    (auto simp: size_t_less_header [OF assms(1)] bind_run_def split: option.splits sum.splits)

lemma OnRecv_fault:
  assumes "in_int32 (len - pl)" and "\<not> (0 \<le> len - pl \<and> len - pl < 4)"
    and "read_header mem (buf + pl) = Inl e"
  shows "OnRecv_loop mem buf len cb pl s = Some (Inl e)"
  using assms(2,3) by (subst OnRecv_loop.simps) (auto simp: size_t_less_header [OF assms(1)])

section \<open>A stream of complete packets\<close>

record packet =
  pk_id :: uint16
  pk_data :: "byte list"

definition packet_ok :: "packet \<Rightarrow> bool" where
  "packet_ok p \<longleftrightarrow> 4 + length (pk_data p) < 2 ^ 16"

definition packet_bytes :: "packet \<Rightarrow> byte list" where
  "packet_bytes p =
     header_bytes \<lparr>ph_size = word_of_nat (4 + length (pk_data p)), ph_id = pk_id p\<rparr> @ pk_data p"

definition packet_length :: "packet \<Rightarrow> int" where
  "packet_length p = 4 + int (length (pk_data p))"

lemma length_packet_bytes: "int (length (packet_bytes p)) = packet_length p"
  by (simp add: packet_bytes_def packet_length_def)

lemma uint_packet_size:
  "packet_ok p \<Longrightarrow> uint (word_of_nat (4 + length (pk_data p)) :: uint16) = packet_length p"
  by (simp add: packet_ok_def packet_length_def uint_nat unat_of_nat del: of_nat_add)

text \<open>The calls of the packet handler for a list of packets laid out from \<open>off\<close> on.\<close>

fun deliver :: "(int \<Rightarrow> int \<Rightarrow> 's \<Rightarrow> 's run) \<Rightarrow> int \<Rightarrow> packet list \<Rightarrow> 's \<Rightarrow> 's run" where
  "deliver cb off [] s = ret s"
| "deliver cb off (p # ps) s =
     bind_run (cb off (packet_length p) s) (\<lambda>s'. deliver cb (off + packet_length p) ps s')"

lemma window_append_split:
  assumes "window i n mem = xs @ ys" and "n = length xs + length ys"
  shows "window i (length xs) mem = xs" and "window (i + length xs) (length ys) mem = ys"
proof -
  have eq: "window i (length xs) mem @ window (i + length xs) (length ys) mem = xs @ ys"
    using assms by (simp add: window_append)
  have "length (window i n mem) = length xs + length ys" by (simp add: assms(1))
  with assms(2) have "length (window i (length xs) mem) = length xs"
    by (auto simp: window_def min_def split: if_splits)
  moreover note eq
  ultimately show "window i (length xs) mem = xs"
    and "window (i + length xs) (length ys) mem = ys" by auto
qed

lemma OnRecv_loop_packets:
  assumes "0 \<le> buf + pl" and "0 \<le> len - pl" and "in_int32 len" and "0 \<le> pl"
    and "window (nat (buf + pl)) (nat (len - pl)) mem = concat (map packet_bytes ps) @ rest"
    and "nat (len - pl) = length (concat (map packet_bytes ps) @ rest)"
    and "length rest < 4" and "\<forall>p \<in> set ps. packet_ok p"
  shows "OnRecv_loop mem buf len cb pl s =
    bind_run (deliver cb (buf + pl) ps s) (\<lambda>s'. ret (len - int (length rest), s'))"
  using assms
proof (induction ps arbitrary: pl s)
  case Nil
  have "in_int32 (len - pl)" using Nil.prems by (auto simp: in_int32_def)
  moreover have "pl = len - int (length rest)" using Nil.prems by auto
  ultimately show ?case using Nil.prems OnRecv_stop [of len pl mem buf cb s] by simp
next
  case (Cons p ps)
  let ?n = "packet_length p" and ?tail = "concat (map packet_bytes ps) @ rest"
  have i32: "in_int32 (len - pl)" using Cons.prems by (auto simp: in_int32_def)
  have big: "len - pl = ?n + int (length ?tail)" and n4: "4 \<le> ?n"
    using Cons.prems(2,6) length_packet_bytes [of p] by (simp_all add: packet_length_def)
  have w: "window (nat (buf + pl)) (nat (len - pl)) mem = packet_bytes p @ ?tail"
    and l: "nat (len - pl) = length (packet_bytes p) + length ?tail"
    using Cons.prems by simp_all
  note split = window_append_split [OF w l]
  let ?h = "\<lparr>ph_size = word_of_nat (4 + length (pk_data p)), ph_id = pk_id p\<rparr>"
  have "window (nat (buf + pl)) 4 mem = take 4 (window (nat (buf + pl)) (length (packet_bytes p)) mem)"
    by (simp add: window_def packet_bytes_def min_def)
  also have "\<dots> = header_bytes ?h" unfolding split(1) by (simp add: packet_bytes_def)
  finally have h: "read_header mem (buf + pl) = Inr ?h"
    using Cons.prems(1) by (intro read_header_written)
  have len_h: "uint (ph_size ?h) = ?n"
    using Cons.prems(8) uint_packet_size [of p] by simp
  have turn: "OnRecv_loop mem buf len cb pl s =
      bind_run (cb (buf + pl) ?n s) (\<lambda>s'. OnRecv_loop mem buf len cb (pl + ?n) s')"
    using OnRecv_turn [OF i32 _ h] big n4 len_h by simp
  have "nat (buf + (pl + ?n)) = nat (buf + pl) + length (packet_bytes p)"
    using Cons.prems(1) length_packet_bytes [of p]
    by (metis add.assoc nat_add_distrib nat_int of_nat_0_le_iff)
  moreover have "nat (len - (pl + ?n)) = length ?tail" using big by simp
  ultimately have
    "window (nat (buf + (pl + ?n))) (nat (len - (pl + ?n))) mem = ?tail" using split(2) by simp
  then have "OnRecv_loop mem buf len cb (pl + ?n) s' =
      bind_run (deliver cb (buf + (pl + ?n)) ps s') (\<lambda>s'. ret (len - int (length rest), s'))" for s'
    using Cons.prems big n4 \<open>nat (len - (pl + ?n)) = length ?tail\<close> by (intro Cons.IH) auto
  then show ?case by (simp add: turn bind_run_assoc add.assoc)
qed

text \<open>
  The framing theorem: on a region that holds complete packets and at most a few bytes of the
  next header, \<^verbatim>\<open>OnRecv\<close> calls the handler once per packet, in order, and reports all but
  these bytes as processed.
\<close>

lemma OnRecv_packets:
  assumes "0 \<le> buf" and "in_int32 len"
    and "mem_read mem buf len = Inr (concat (map packet_bytes ps) @ rest)"
    and "length rest < 4" and "\<forall>p \<in> set ps. packet_ok p"
  shows "PacketSession_OnRecv cb mem buf len s =
    bind_run (deliver cb buf ps s) (\<lambda>s'. ret (len - int (length rest), s'))"
proof -
  have "int (length (concat (map packet_bytes ps) @ rest)) = len"
    using assms(3) by (rule mem_read_length)
  then have "nat len = length (concat (map packet_bytes ps) @ rest)" by linarith
  then show ?thesis
    using OnRecv_loop_packets [of buf 0 len mem ps rest cb s] assms
    by (simp add: PacketSession_OnRecv_def mem_read_Inr)
qed

text \<open>A handler that records the bytes it is given, reading them from the same block.\<close>

definition collect :: "byte list \<Rightarrow> int \<Rightarrow> int \<Rightarrow> byte list list \<Rightarrow> byte list list run" where
  "collect mem p n acc =
     (case mem_read mem p n of Inl e \<Rightarrow> Some (Inl e) | Inr bs \<Rightarrow> ret (acc @ [bs]))"

lemma mem_read_append:
  assumes "mem_read mem p n = Inr (xs @ ys)"
  shows "mem_read mem p (int (length xs)) = Inr xs"
    and "mem_read mem (p + int (length xs)) (int (length ys)) = Inr ys"
proof -
  have w: "window (nat p) (nat n) mem = xs @ ys" and n: "int (length (xs @ ys)) = n"
    and p: "0 \<le> p" "p + n \<le> int (length mem)"
    using assms mem_read_length [OF assms] by (auto simp: mem_read_Inr)
  have "nat n = length xs + length ys" using n by simp
  note split = window_append_split [OF w this]
  show "mem_read mem p (int (length xs)) = Inr xs"
    using p n split(1) by (simp add: mem_read_Inr)
  show "mem_read mem (p + int (length xs)) (int (length ys)) = Inr ys"
    using p n split(2) by (simp add: mem_read_Inr nat_add_distrib)
qed

lemma deliver_collect:
  assumes "mem_read mem off n = Inr (concat (map packet_bytes ps) @ rest)"
  shows "deliver (collect mem) off ps acc = ret (acc @ map packet_bytes ps)"
  using assms
proof (induction ps arbitrary: off n acc)
  case Nil
  then show ?case by simp
next
  case (Cons p ps)
  let ?tail = "concat (map packet_bytes ps) @ rest"
  have r: "mem_read mem off n = Inr (packet_bytes p @ ?tail)" using Cons.prems by simp
  note split = mem_read_append [OF r, unfolded length_packet_bytes]
  show ?case
    using Cons.IH [OF split(2)] split(1) by (simp add: collect_def)
qed

section \<open>When the loop ends\<close>

text \<open>
  Whenever the call returns normally, all bytes but an incomplete header are reported as
  processed: there is no exit for an incomplete payload.
\<close>

lemma OnRecv_loop_result:
  assumes run: "OnRecv_loop mem buf len cb pl s = Some r" and res: "r = Inr (pl', s')"
    and "0 \<le> buf" and "0 \<le> pl" and "0 \<le> len" and "len < 2 ^ 31"
    and "int (length mem) + 2 ^ 16 < 2 ^ 31" and "pl \<le> int (length mem) + 2 ^ 16"
  shows "0 \<le> len - pl' \<and> len - pl' < 4"
proof -
  let ?P = "\<lambda>mem buf len (cb :: int \<Rightarrow> int \<Rightarrow> 'a \<Rightarrow> 'a run) pl s r. \<forall>pl' s'. r = Inr (pl', s') \<longrightarrow>
    0 \<le> buf \<longrightarrow> 0 \<le> pl \<longrightarrow> 0 \<le> len \<longrightarrow> len < 2 ^ 31 \<longrightarrow>
    int (length mem) + 2 ^ 16 < 2 ^ 31 \<longrightarrow> pl \<le> int (length mem) + 2 ^ 16 \<longrightarrow>
    0 \<le> len - pl' \<and> len - pl' < 4"
  have "?P mem buf len cb pl s r"
  proof (rule OnRecv_loop.raw_induct [of ?P, OF _ run], goal_cases)
    case (1 loop mem buf len cb pl s r)
    show ?case
    proof (intro allI impI)
      fix pl' s'
      assume a: "r = Inr (pl', s')" "0 \<le> buf" "0 \<le> pl" "0 \<le> len" "len < 2 ^ 31"
        "int (length mem) + 2 ^ 16 < 2 ^ 31" "pl \<le> int (length mem) + 2 ^ 16"
      have i32: "in_int32 (len - pl)" using a by (simp add: in_int32_def)
      show "0 \<le> len - pl' \<and> len - pl' < 4"
      proof (cases "0 \<le> len - pl \<and> len - pl < 4")
        case True
        with 1(2) a(1) show ?thesis by (simp add: size_t_less_header [OF i32] ret_def)
      next
        case False
        then have "\<not> size_t_of_int (len - pl) < sizeof_PacketHeader"
          using size_t_less_header [OF i32] by blast
        with 1(2) a(1) obtain h s1 where h: "read_header mem (buf + pl) = Inr h"
          and rec: "loop mem buf len cb (pl + uint (ph_size h)) s1 = Some r"
          by (auto simp: Let_def split: sum.splits option.splits)
        have "buf + pl + 4 \<le> int (length mem)"
          using h by (auto simp: read_header_def mem_read_def split: if_splits)
        moreover have "uint (ph_size h) < 2 ^ 16" and "0 \<le> uint (ph_size h)"
          using uint_lt2p [of "ph_size h"] by simp_all
        ultimately show ?thesis
          using 1(1) [rule_format, OF rec a(1)] a by simp
      qed
    qed
  qed
  then show ?thesis using assms by blast
qed

lemma OnRecv_loop_keeps:
  assumes run: "OnRecv_loop mem buf len cb pl s = Some r" and res: "r = Inr (pl', s')"
    and cb: "\<And>p n s s'. I s \<Longrightarrow> cb p n s = Some (Inr s') \<Longrightarrow> I s'" and "I s"
  shows "I s'"
proof -
  let ?P = "\<lambda>(mem :: byte list) (buf :: int) (len :: int) (cb :: int \<Rightarrow> int \<Rightarrow> 'a \<Rightarrow> 'a run) (pl :: int) s r.
    (\<forall>p n s s'. I s \<longrightarrow> cb p n s = Some (Inr s') \<longrightarrow> I s') \<longrightarrow> I s \<longrightarrow>
    (\<forall>pl' s'. r = Inr (pl' :: int, s') \<longrightarrow> I s')"
  have "?P mem buf len cb pl s r"
  proof (rule OnRecv_loop.raw_induct [of ?P, OF _ run], goal_cases)
    case (1 loop mem buf len cb pl s r)
    show ?case
    proof (intro impI allI)
      fix pl' s'
      assume a: "\<forall>p n s s'. I s \<longrightarrow> cb p n s = Some (Inr s') \<longrightarrow> I s'" "I s" "r = Inr (pl', s')"
      show "I s'"
      proof (cases "size_t_of_int (len - pl) < sizeof_PacketHeader")
        case True
        with 1(2) a show ?thesis by (simp add: ret_def)
      next
        case False
        with 1(2) a(3) obtain h s1 where "read_header mem (buf + pl) = Inr h" "cb (buf + pl) (uint (ph_size h)) s = Some (Inr s1)"
          and rec: "loop mem buf len cb (pl + uint (ph_size h)) s1 = Some r"
          by (auto simp: Let_def split: sum.splits option.splits)
        with a(1,2) have "I s1" by blast
        with 1(1) [rule_format, OF rec] a show ?thesis by blast
      qed
    qed
  qed
  then show ?thesis using cb assms(2,4) by blast
qed

lemma OnRecv_diverges:
  assumes zero: "read_header mem (buf + pl) = Inr h" "ph_size h = 0"
    and i32: "in_int32 (len - pl)" and left: "\<not> (0 \<le> len - pl \<and> len - pl < 4)"
    and cb: "\<And>s. \<exists>s'. cb (buf + pl) 0 s = Some (Inr s')"
  shows "OnRecv_loop mem buf len cb pl s = None"
proof (rule ccontr)
  assume "OnRecv_loop mem buf len cb pl s \<noteq> None"
  then obtain r where run: "OnRecv_loop mem buf len cb pl s = Some r" by blast
  let ?P = "\<lambda>mem buf len (cb :: int \<Rightarrow> int \<Rightarrow> 'a \<Rightarrow> 'a run) pl s (r :: (int \<times> 'a) res).
    \<not> ((\<exists>h. read_header mem (buf + pl) = Inr h \<and> ph_size h = 0) \<and> in_int32 (len - pl) \<and>
       \<not> (0 \<le> len - pl \<and> len - pl < 4) \<and> (\<forall>s. \<exists>s'. cb (buf + pl) 0 s = Some (Inr s')))"
  have "?P mem buf len cb pl s r"
  proof (rule OnRecv_loop.raw_induct [of ?P, OF _ run], goal_cases)
    case (1 loop mem buf len cb pl s r)
    show ?case
    proof
      assume a: "(\<exists>h. read_header mem (buf + pl) = Inr h \<and> ph_size h = 0) \<and> in_int32 (len - pl) \<and>
       \<not> (0 \<le> len - pl \<and> len - pl < 4) \<and> (\<forall>s. \<exists>s'. cb (buf + pl) 0 s = Some (Inr s'))"
      then obtain h s' where h: "read_header mem (buf + pl) = Inr h" "ph_size h = 0"
        and s': "cb (buf + pl) 0 s = Some (Inr s')" by blast
      have "\<not> size_t_of_int (len - pl) < sizeof_PacketHeader"
        using a size_t_less_header by blast
      with 1(2) h s' have "loop mem buf len cb pl s' = Some r" by (simp add: Let_def)
      from 1(1) [OF this] a show False by blast
    qed
  qed
  with assms show False by blast
qed

lemma OnRecv_terminates:
  assumes sizes: "\<And>p h. buf + pl \<le> p \<Longrightarrow> read_header mem p = Inr h \<Longrightarrow> ph_size h \<noteq> 0"
    and cb: "\<And>p n s. cb p n s \<noteq> None"
  shows "OnRecv_loop mem buf len cb pl s \<noteq> None"
  using sizes
proof (induction "nat (int (length mem) - (buf + pl))" arbitrary: pl s rule: less_induct)
  case less
  show ?case
  proof (cases "size_t_of_int (len - pl) < sizeof_PacketHeader")
    case True
    then show ?thesis by (subst OnRecv_loop.simps) (simp add: ret_def)
  next
    case False
    show ?thesis
    proof (cases "read_header mem (buf + pl)")
      case (Inl e)
      with False show ?thesis by (subst OnRecv_loop.simps) simp
    next
      case (Inr h)
      let ?n = "uint (ph_size h)"
      have "ph_size h \<noteq> 0" using less.prems Inr by blast
      then have n: "0 < ?n" using uint_0_iff [of "ph_size h"] uint_ge_0 [of "ph_size h"] by linarith
      have "buf + pl < int (length mem)"
        using Inr by (auto simp: read_header_def mem_read_def split: if_splits)
      with n have "nat (int (length mem) - (buf + (pl + ?n))) < nat (int (length mem) - (buf + pl))"
        by linarith
      moreover have "ph_size h' \<noteq> 0" if "buf + (pl + ?n) \<le> p" "read_header mem p = Inr h'" for p h'
        using less.prems [OF _ that(2)] that(1) n by linarith
      ultimately have IH: "OnRecv_loop mem buf len cb (pl + ?n) s' \<noteq> None" for s'
        by (rule less.hyps)
      obtain r where "cb (buf + pl) ?n s = Some r" using cb by fastforce
      with False Inr IH show ?thesis by (subst OnRecv_loop.simps) (auto split: sum.splits)
    qed
  qed
qed

section \<open>Properties\<close>

text \<open>
  C1: on a received region that holds complete packets followed by less than one header,
  \<^verbatim>\<open>PacketSession::OnRecv\<close> delivers exactly these packets, each whole and in order, and
  reports every byte but the incomplete header as processed.
\<close>

theorem OnRecv_delivers:
  assumes "0 \<le> buf" and "in_int32 len"
    and "mem_read mem buf len = Inr (concat (map packet_bytes ps) @ rest)"
    and "length rest < 4" and "\<forall>p \<in> set ps. packet_ok p"
  shows "PacketSession_OnRecv (collect mem) mem buf len [] =
    ret (len - int (length rest), map packet_bytes ps)"
  using OnRecv_packets [OF assms, of "collect mem" "[]"] deliver_collect [OF assms(3), of "[]"]
  by simp

theorem OnRecv_delivers_witness:
  "PacketSession_OnRecv (collect [99, 6, 0, 1, 0, 7, 8, 4, 0, 0, 0, 5]) [99, 6, 0, 1, 0, 7, 8, 4, 0, 0, 0, 5]
     1 11 [] = ret (10, [[6, 0, 1, 0, 7, 8], [4, 0, 0, 0]])"
proof -
  let ?ps = "[\<lparr>pk_id = 1, pk_data = [7, 8]\<rparr>, \<lparr>pk_id = 0, pk_data = []\<rparr>]"
  have b: "map packet_bytes ?ps = [[6, 0, 1, 0, 7, 8], [4, 0, 0, 0]]"
    by (simp add: packet_bytes_def header_bytes_def bytes_le16_def)
  show ?thesis
    using OnRecv_delivers [of 1 11 "[99, 6, 0, 1, 0, 7, 8, 4, 0, 0, 0, 5]" ?ps "[5]"] b
    by (simp add: in_int32_def mem_read_def window_def packet_ok_def)
qed

text \<open>
  C4: the loop has no exit for an incomplete packet: whenever \<^verbatim>\<open>PacketSession::OnRecv\<close>
  returns, whatever the bytes and whatever the handler does, fewer than four bytes are left
  unprocessed.
\<close>

theorem OnRecv_leaves_less_than_header:
  assumes "PacketSession_OnRecv cb mem buf len s = Some (Inr (processLen, s'))"
    and "0 \<le> buf" and "0 \<le> len" and "in_int32 len" and "int (length mem) < 2 ^ 30"
  shows "0 \<le> len - processLen \<and> len - processLen < 4"
  using assms
  by (intro OnRecv_loop_result [of mem buf len cb 0 s])
    (auto simp: PacketSession_OnRecv_def in_int32_def)

theorem OnRecv_leaves_less_than_header_witness:
  "\<exists>processLen s'. PacketSession_OnRecv (collect [4, 0, 0, 0, 9]) [4, 0, 0, 0, 9] 0 5 [] =
       Some (Inr (processLen, s')) \<and> 5 - processLen < 4"
proof -
  have b: "packet_bytes \<lparr>pk_id = 0, pk_data = []\<rparr> = [4, 0, 0, 0]"
    by (simp add: packet_bytes_def header_bytes_def bytes_le16_def)
  have r: "PacketSession_OnRecv (collect [4, 0, 0, 0, 9]) [4, 0, 0, 0, 9] 0 5 [] =
      Some (Inr (4, [[4, 0, 0, 0]]))"
    using OnRecv_packets [of 0 5 "[4, 0, 0, 0, 9]" "[\<lparr>pk_id = 0, pk_data = []\<rparr>]" "[9]"
        "collect [4, 0, 0, 0, 9]" "[]"] b
    by (simp add: in_int32_def mem_read_def window_def packet_ok_def packet_length_def collect_def ret_def)
  show ?thesis using OnRecv_leaves_less_than_header [OF r] r by (auto simp: in_int32_def)
qed

text \<open>
  C5: a header whose size field is zero with at least four bytes left makes the receive loop spin
  forever, for every handler that returns.
\<close>

theorem OnRecv_zero_size_never_returns:
  assumes "0 \<le> buf" and "in_int32 len"
    and "mem_read mem buf len = Inr (concat (map packet_bytes ps) @ 0 # 0 # rest)"
    and "2 \<le> length rest" and "\<forall>p \<in> set ps. packet_ok p"
    and "\<And>p n s. \<exists>s'. cb p n s = Some (Inr s')"
  shows "PacketSession_OnRecv cb mem buf len s = None"
proof -
  have "OnRecv_loop mem buf len cb pl s = None"
    if "0 \<le> pl" and "pl \<le> len"
      and "mem_read mem (buf + pl) (len - pl) = Inr (concat (map packet_bytes ps) @ 0 # 0 # rest)"
      and "\<forall>p \<in> set ps. packet_ok p"
    for pl s ps using that
  proof (induction ps arbitrary: pl s)
    case Nil
    have n: "len - pl = 2 + int (length rest)" using mem_read_length [OF Nil(3)] by simp
    then have n4: "4 \<le> nat (len - pl)" using assms(4) by linarith
    have w: "window (nat (buf + pl)) (nat (len - pl)) mem = 0 # 0 # rest"
      and "buf + pl + (len - pl) \<le> int (length mem)" using Nil(3) by (auto simp: mem_read_Inr)
    have "window (nat (buf + pl)) 4 mem = take 4 (window (nat (buf + pl)) (nat (len - pl)) mem)"
      using n4 by (simp add: window_def min_def)
    then have "window (nat (buf + pl)) 4 mem ! 0 = 0 \<and> window (nat (buf + pl)) 4 mem ! 1 = 0"
      by (simp add: w)
    then obtain h where "read_header mem (buf + pl) = Inr h" "ph_size h = 0"
      using n assms(1,4) Nil(1) \<open>buf + pl + (len - pl) \<le> int (length mem)\<close>
      by (simp add: read_header_def mem_read_def le16_def)
    then show ?case
      using n assms(2,4) Nil(1) assms(6) by (intro OnRecv_diverges) (auto simp: in_int32_def)
  next
    case (Cons p ps)
    let ?n = "packet_length p"
    have r: "mem_read mem (buf + pl) (len - pl) =
        Inr (packet_bytes p @ (concat (map packet_bytes ps) @ 0 # 0 # rest))" using Cons.prems by simp
    have n: "len - pl = ?n + int (length (concat (map packet_bytes ps) @ 0 # 0 # rest))"
      using mem_read_length [OF r] length_packet_bytes [of p] by simp
    have n4: "4 \<le> ?n" by (simp add: packet_length_def)
    let ?h = "\<lparr>ph_size = word_of_nat (4 + length (pk_data p)), ph_id = pk_id p\<rparr>"
    have "mem_read mem (buf + pl) ?n = Inr (packet_bytes p)"
      using mem_read_append(1) [OF r] by (simp add: length_packet_bytes)
    then have "window (nat (buf + pl)) (nat ?n) mem = packet_bytes p" by (simp add: mem_read_Inr)
    then have "take 4 (window (nat (buf + pl)) (nat ?n) mem) = header_bytes ?h"
      by (simp add: packet_bytes_def)
    moreover have "4 \<le> nat ?n" using n4 by linarith
    ultimately have "window (nat (buf + pl)) 4 mem = header_bytes ?h"
      by (simp add: window_def min_def)
    then have h: "read_header mem (buf + pl) = Inr ?h"
      using Cons.prems assms(1) by (intro read_header_written) auto
    obtain s' where s': "cb (buf + pl) ?n s = Some (Inr s')" using assms(6) by blast
    have n': "len - (pl + ?n) = int (length (concat (map packet_bytes ps) @ 0 # 0 # rest))"
      using n by linarith
    have rest: "mem_read mem (buf + (pl + ?n)) (len - (pl + ?n)) =
        Inr (concat (map packet_bytes ps) @ 0 # 0 # rest)"
      using mem_read_append(2) [OF r] by (simp only: n' length_packet_bytes add.assoc)
    have i32: "in_int32 (len - pl)" using assms(2) Cons.prems by (auto simp: in_int32_def)
    have "OnRecv_loop mem buf len cb (pl + ?n) s' = None"
      using Cons.IH [of "pl + ?n" s'] rest n n4 Cons.prems by simp
    then show ?case
      using OnRecv_turn [OF i32 _ h, of cb s] n n4 s' uint_packet_size [of p] Cons.prems(4) by simp
  qed
  from this [of 0 ps s] show ?thesis
    using assms mem_read_length [OF assms(3)] by (auto simp: PacketSession_OnRecv_def)
qed

theorem OnRecv_zero_size_never_returns_witness:
  "PacketSession_OnRecv (\<lambda>p n s. ret (Suc s)) [4, 0, 0, 0, 0, 0, 1, 0] 0 8 (0 :: nat) = None"
proof -
  have b: "packet_bytes \<lparr>pk_id = 0, pk_data = []\<rparr> = [4, 0, 0, 0]"
    by (simp add: packet_bytes_def header_bytes_def bytes_le16_def)
  show ?thesis
    using OnRecv_zero_size_never_returns [of 0 8 "[4, 0, 0, 0, 0, 0, 1, 0]"
        "[\<lparr>pk_id = 0, pk_data = []\<rparr>]" "[1, 0]" "\<lambda>p n s. ret (Suc s)" 0] b
    by (simp add: in_int32_def mem_read_def window_def packet_ok_def ret_def)
qed



end
