(* ===== verification/Send_Buffer.thy ===== *)
theory Send_Buffer
  imports Prelude
begin

text \<open>
  Send buffers, \<^verbatim>\<open>ServerCore/SendBufferChunk.{h,cpp}\<close>, \<^verbatim>\<open>SendBuffer.{h,cpp}\<close> and
  \<^verbatim>\<open>SendBufferManager.{h,cpp}\<close>: a bump allocator. A chunk is one 64 KB block; a send
  buffer is a region of a chunk and keeps the chunk alive; every thread allocates from a chunk of
  its own and takes a new one from a global pool when the rest does not suffice. A chunk whose last
  \<^verbatim>\<open>shared_ptr\<close> goes away returns to the pool (the deleter \<^verbatim>\<open>PushGlobal\<close>). Chunks,
  buffers and threads are numbered; the use count of a chunk is the number of places that hold it:
  the pool, the \<^verbatim>\<open>thread_local\<close> variables and the live send buffers.
\<close>

type_synonym cid = nat
type_synonym bid = nat
type_synonym tid = nat

section \<open>\<^verbatim>\<open>SendBufferChunk\<close>\<close>

definition BUFFER_SIZE :: int where
  "BUFFER_SIZE = 65536"

record chunk =
  ck_buffer :: "byte list"
  ck_open :: bool
  ck_usedSize :: int

definition SendBufferChunk :: chunk where
  "SendBufferChunk =
     \<lparr>ck_buffer = replicate (nat BUFFER_SIZE) 0, ck_open = False, ck_usedSize = 0\<rparr>"

definition SendBufferChunk_FreeSize :: "chunk \<Rightarrow> int" where
  "SendBufferChunk_FreeSize ck = int (length (ck_buffer ck)) - ck_usedSize ck"

definition SendBufferChunk_Init :: "chunk \<Rightarrow> chunk" where
  "SendBufferChunk_Init ck = ck\<lparr>ck_open := False, ck_usedSize := 0\<rparr>"

text \<open>A send buffer: the chunk it holds, the start of its region, its sizes.\<close>

record send_buffer =
  sb_chunk :: cid
  sb_start :: int
  sb_freeSize :: int
  sb_writeSize :: int

definition SendBuffer :: "cid \<Rightarrow> int \<Rightarrow> int \<Rightarrow> send_buffer" where
  "SendBuffer c start sz = \<lparr>sb_chunk = c, sb_start = start, sb_freeSize = sz, sb_writeSize = 0\<rparr>"

definition SendBufferChunk_Open :: "cid \<Rightarrow> int \<Rightarrow> chunk \<Rightarrow> (send_buffer option \<times> chunk) res" where
  "SendBufferChunk_Open c sz ck =
     (if sz > BUFFER_SIZE then Inr (None, ck)
      else if ck_open ck then Inr (None, ck)
      else if sz > SendBufferChunk_FreeSize ck then Inr (None, ck)
      else if \<not> (0 \<le> ck_usedSize ck \<and> ck_usedSize ck < int (length (ck_buffer ck)))
        then Inl OutOfBounds
      else Inr (Some (SendBuffer c (ck_usedSize ck) sz), ck\<lparr>ck_open := True\<rparr>))"

definition SendBufferChunk_Close :: "int \<Rightarrow> chunk \<Rightarrow> chunk" where
  "SendBufferChunk_Close sz ck =
     (if \<not> ck_open ck then ck
      else ck\<lparr>ck_open := False, ck_usedSize := ck_usedSize ck + sz\<rparr>)"

section \<open>\<^verbatim>\<open>SendBufferManager\<close>\<close>

text \<open>
  The heap of chunks and send buffers, the pool (a vector used as a stack), the
  \<^verbatim>\<open>thread_local\<close> chunk of every thread and the use counts of the send buffers.
\<close>

record sbm =
  m_chunks :: "cid \<Rightarrow> chunk"
  m_nchunks :: nat
  m_pool :: "cid list"
  m_local :: "cid option list"
  m_bufs :: "bid \<Rightarrow> send_buffer"
  m_brefs :: "bid \<Rightarrow> nat"
  m_nbufs :: nat

definition sbm_init :: "nat \<Rightarrow> sbm" where
  "sbm_init nthreads =
     \<lparr>m_chunks = (\<lambda>_. SendBufferChunk), m_nchunks = 0, m_pool = [],
      m_local = replicate nthreads None, m_bufs = (\<lambda>_. SendBuffer 0 0 0), m_brefs = (\<lambda>_. 0),
      m_nbufs = 0\<rparr>"

definition live :: "sbm \<Rightarrow> bid \<Rightarrow> bool" where
  "live m b \<longleftrightarrow> b < m_nbufs m \<and> 0 < m_brefs m b"

definition chunk_referenced :: "sbm \<Rightarrow> cid \<Rightarrow> bool" where
  "chunk_referenced m c \<longleftrightarrow>
     c \<in> set (m_pool m) \<or> Some c \<in> set (m_local m) \<or>
     (\<exists>b \<in> set [0..<m_nbufs m]. 0 < m_brefs m b \<and> sb_chunk (m_bufs m b) = c)"

definition upd_chunk :: "cid \<Rightarrow> (chunk \<Rightarrow> chunk) \<Rightarrow> sbm \<Rightarrow> sbm" where
  "upd_chunk c f m = m\<lparr>m_chunks := (m_chunks m)(c := f (m_chunks m c))\<rparr>"

definition SendBufferManager_Push :: "cid \<Rightarrow> sbm \<Rightarrow> sbm" where
  "SendBufferManager_Push c m = m\<lparr>m_pool := m_pool m @ [c]\<rparr>"

text \<open>The deleter of every chunk: it goes back to the pool under a new \<^verbatim>\<open>shared_ptr\<close>.\<close>

definition SendBufferManager_PushGlobal :: "cid \<Rightarrow> sbm \<Rightarrow> sbm" where
  "SendBufferManager_PushGlobal c m = SendBufferManager_Push c m"

text \<open>A \<^verbatim>\<open>shared_ptr\<close> to a chunk has been destroyed or overwritten.\<close>

definition drop_chunk_ref :: "cid \<Rightarrow> sbm \<Rightarrow> sbm" where
  "drop_chunk_ref c m =
     (if chunk_referenced m c then m else SendBufferManager_PushGlobal c m)"

definition SendBufferManager_Pop :: "sbm \<Rightarrow> cid \<times> sbm" where
  "SendBufferManager_Pop m =
     (if m_pool m \<noteq> [] then (last (m_pool m), m\<lparr>m_pool := butlast (m_pool m)\<rparr>)
      else (m_nchunks m,
        m\<lparr>m_chunks := (m_chunks m)(m_nchunks m := SendBufferChunk), m_nchunks := Suc (m_nchunks m)\<rparr>))"

text \<open>\<^verbatim>\<open>localSendBufferChunk = c\<close>: the chunk held before loses a reference.\<close>

definition assign_local :: "tid \<Rightarrow> cid \<Rightarrow> sbm \<Rightarrow> sbm" where
  "assign_local t c m =
     (let m1 = m\<lparr>m_local := (m_local m)[t := Some c]\<rparr> in
      case m_local m ! t of None \<Rightarrow> m1 | Some c0 \<Rightarrow> drop_chunk_ref c0 m1)"

text \<open>\<^verbatim>\<open>localSendBufferChunk = Pop(); localSendBufferChunk->Init();\<close>\<close>

definition refill :: "tid \<Rightarrow> sbm \<Rightarrow> sbm" where
  "refill t m =
     (case SendBufferManager_Pop m of (c, m1) \<Rightarrow>
        upd_chunk c SendBufferChunk_Init (assign_local t c m1))"

text \<open>
  \<^verbatim>\<open>chunk->Open(size)\<close> on the heap: a new send buffer with one reference, the caller's.
\<close>

definition chunk_open_at :: "cid \<Rightarrow> int \<Rightarrow> sbm \<Rightarrow> (bid option \<times> sbm) res" where
  "chunk_open_at c sz m =
     bind_res (SendBufferChunk_Open c sz (m_chunks m c)) (\<lambda>(sb, ck).
       case sb of
         None \<Rightarrow> Inr (None, m)
       | Some sb' \<Rightarrow> Inr (Some (m_nbufs m),
           m\<lparr>m_chunks := (m_chunks m)(c := ck), m_bufs := (m_bufs m)(m_nbufs m := sb'),
             m_brefs := (m_brefs m)(m_nbufs m := 1), m_nbufs := Suc (m_nbufs m)\<rparr>))"

definition SendBufferManager_Open :: "tid \<Rightarrow> int \<Rightarrow> sbm \<Rightarrow> (bid option \<times> sbm) res" where
  "SendBufferManager_Open t sz m =
     (let m1 = (if m_local m ! t = None then refill t m else m) in
      case m_local m1 ! t of
        None \<Rightarrow> Inl NullDeref
      | Some c \<Rightarrow>
          if ck_open (m_chunks m1 c) then Inr (None, m1)
          else
            let m2 = (if SendBufferChunk_FreeSize (m_chunks m1 c) < sz then refill t m1 else m1) in
            case m_local m2 ! t of None \<Rightarrow> Inl NullDeref | Some c2 \<Rightarrow> chunk_open_at c2 sz m2)"

section \<open>\<^verbatim>\<open>SendBuffer\<close>\<close>

definition SendBuffer_Close :: "bid \<Rightarrow> int \<Rightarrow> sbm \<Rightarrow> bool \<times> sbm" where
  "SendBuffer_Close b usedSize m =
     (let sb = m_bufs m b in
      if sb_freeSize sb < usedSize then (False, m)
      else (True, upd_chunk (sb_chunk sb) (SendBufferChunk_Close usedSize)
              (m\<lparr>m_bufs := (m_bufs m)(b := sb\<lparr>sb_writeSize := usedSize\<rparr>)\<rparr>)))"

text \<open>Writing through \<^verbatim>\<open>GetBuffer() + off\<close>: nothing but the chunk bounds the access.\<close>

definition buffer_write :: "bid \<Rightarrow> int \<Rightarrow> byte list \<Rightarrow> sbm \<Rightarrow> sbm res" where
  "buffer_write b off bs m =
     (let sb = m_bufs m b; c = sb_chunk sb in
      bind_res (mem_write (ck_buffer (m_chunks m c)) (sb_start sb + off) bs) (\<lambda>mem.
        Inr (upd_chunk c (\<lambda>ck. ck\<lparr>ck_buffer := mem\<rparr>) m)))"

text \<open>\<^verbatim>\<open>wsaBuf.buf = GetBuffer(); wsaBuf.len = WriteSize()\<close>: the bytes a buffer sends.\<close>

definition buffer_content :: "sbm \<Rightarrow> bid \<Rightarrow> byte list" where
  "buffer_content m b =
     (let sb = m_bufs m b in
      window (nat (sb_start sb)) (nat (sb_writeSize sb)) (ck_buffer (m_chunks m (sb_chunk sb))))"

text \<open>Copying and destroying a \<^verbatim>\<open>shared_ptr<SendBuffer>\<close>.\<close>

definition buffer_retain :: "bid \<Rightarrow> sbm \<Rightarrow> sbm" where
  "buffer_retain b m = m\<lparr>m_brefs := (m_brefs m)(b := Suc (m_brefs m b))\<rparr>"

definition buffer_release :: "bid \<Rightarrow> sbm \<Rightarrow> sbm" where
  "buffer_release b m =
     (let m1 = m\<lparr>m_brefs := (m_brefs m)(b := m_brefs m b - 1)\<rparr> in
      if m_brefs m b = 1 then drop_chunk_ref (sb_chunk (m_bufs m b)) m1 else m1)"

end
