(* ===== verification/Send_Buffer_Safety.thy ===== *)
theory Send_Buffer_Safety
  imports Send_Buffer
begin

text \<open>
  Safety of the send-buffer allocator: the invariant of the manager's heap, and for every operation
  its result, its preservation of the invariant and what it leaves alone. Live buffers never
  overlap, every chunk has a holder, and a chunk in the pool has no other.
\<close>

section \<open>The invariant of the heap\<close>

definition wf_chunk :: "chunk \<Rightarrow> bool" where
  "wf_chunk ck \<longleftrightarrow> int (length (ck_buffer ck)) = BUFFER_SIZE \<and>
     0 \<le> ck_usedSize ck \<and> ck_usedSize ck \<le> BUFFER_SIZE"

definition extent :: "send_buffer \<Rightarrow> int set" where
  "extent sb = {sb_start sb ..< sb_start sb + sb_writeSize sb}"

definition buf_at :: "sbm \<Rightarrow> bid \<Rightarrow> cid \<Rightarrow> bool" where
  "buf_at m b c \<longleftrightarrow> live m b \<and> sb_chunk (m_bufs m b) = c"

definition chunks_ok :: "sbm \<Rightarrow> bool" where
  "chunks_ok m \<longleftrightarrow> (\<forall>c < m_nchunks m. wf_chunk (m_chunks m c)) \<and>
     distinct (m_pool m) \<and> (\<forall>c \<in> set (m_pool m). c < m_nchunks m)"

definition locals_ok :: "sbm \<Rightarrow> bool" where
  "locals_ok m \<longleftrightarrow>
     (\<forall>t c. t < length (m_local m) \<longrightarrow> m_local m ! t = Some c \<longrightarrow>
        c < m_nchunks m \<and> c \<notin> set (m_pool m)) \<and>
     (\<forall>t t' c. t < length (m_local m) \<longrightarrow> t' < length (m_local m) \<longrightarrow>
        m_local m ! t = Some c \<longrightarrow> m_local m ! t' = Some c \<longrightarrow> t = t')"

definition bufs_ok :: "sbm \<Rightarrow> bool" where
  "bufs_ok m \<longleftrightarrow>
     (\<forall>b c. buf_at m b c \<longrightarrow> c < m_nchunks m \<and> c \<notin> set (m_pool m) \<and>
        0 \<le> sb_start (m_bufs m b) \<and> 0 \<le> sb_writeSize (m_bufs m b) \<and>
        sb_start (m_bufs m b) + sb_writeSize (m_bufs m b) \<le> ck_usedSize (m_chunks m c)) \<and>
     (\<forall>b b' c. buf_at m b c \<longrightarrow> buf_at m b' c \<longrightarrow> b \<noteq> b' \<longrightarrow>
        extent (m_bufs m b) \<inter> extent (m_bufs m b') = {})"

definition all_held :: "sbm \<Rightarrow> cid set \<Rightarrow> bool" where
  "all_held m loose \<longleftrightarrow> (\<forall>c < m_nchunks m. c \<notin> loose \<longrightarrow> chunk_referenced m c)"

definition sbm_core :: "sbm \<Rightarrow> bool" where
  "sbm_core m \<longleftrightarrow> chunks_ok m \<and> locals_ok m \<and> bufs_ok m"

definition sbm_inv :: "sbm \<Rightarrow> bool" where
  "sbm_inv m \<longleftrightarrow> sbm_core m \<and> all_held m {}"

lemmas sbm_parts = sbm_core_def chunks_ok_def locals_ok_def bufs_ok_def

lemma chunk_referenced_iff:
  "chunk_referenced m c \<longleftrightarrow>
     c \<in> set (m_pool m) \<or> Some c \<in> set (m_local m) \<or> (\<exists>b. buf_at m b c)"
  by (auto simp: chunk_referenced_def buf_at_def live_def)

lemma wf_SendBufferChunk: "wf_chunk SendBufferChunk"
  by (simp add: wf_chunk_def SendBufferChunk_def BUFFER_SIZE_def)

lemma wf_Init: "wf_chunk ck \<Longrightarrow> wf_chunk (SendBufferChunk_Init ck)"
  by (simp add: wf_chunk_def SendBufferChunk_Init_def BUFFER_SIZE_def)

lemma sbm_init_inv: "sbm_inv (sbm_init n)"
  by (auto simp: sbm_inv_def sbm_parts all_held_def sbm_init_def buf_at_def live_def)

section \<open>The pool\<close>

text \<open>A dropped reference leaves the heap well formed and no chunk without a holder.\<close>

lemma drop_chunk_ref_inv:
  assumes "sbm_core m" and "all_held m {c}" and "c < m_nchunks m"
  shows "sbm_inv (drop_chunk_ref c m)"
proof (cases "chunk_referenced m c")
  case True
  with assms show ?thesis by (auto simp: drop_chunk_ref_def sbm_inv_def all_held_def)
next
  case False
  let ?m = "m\<lparr>m_pool := m_pool m @ [c]\<rparr>"
  have out: "c \<notin> set (m_pool m)" "Some c \<notin> set (m_local m)" "\<And>b. \<not> buf_at m b c"
    using False by (auto simp: chunk_referenced_iff)
  then have nl: "\<And>t. t < length (m_local m) \<Longrightarrow> m_local m ! t \<noteq> Some c"
    by (metis nth_mem)
  have ba: "buf_at ?m = buf_at m" by (simp add: buf_at_def live_def fun_eq_iff)
  have "chunks_ok ?m" using assms out by (auto simp: sbm_parts)
  moreover have "locals_ok ?m" using assms(1) nl by (auto simp: sbm_parts)
  moreover have "bufs_ok ?m" using assms(1) out(3) by (auto simp: sbm_parts ba)
  moreover have "all_held ?m {}"
    using assms(2) by (auto simp: all_held_def chunk_referenced_iff ba)
  ultimately show ?thesis
    using False by (simp add: drop_chunk_ref_def SendBufferManager_PushGlobal_def
        SendBufferManager_Push_def sbm_inv_def sbm_core_def)
qed

lemma drop_chunk_ref_frame [simp]:
  "m_chunks (drop_chunk_ref c m) = m_chunks m" "m_local (drop_chunk_ref c m) = m_local m"
  "m_bufs (drop_chunk_ref c m) = m_bufs m" "m_brefs (drop_chunk_ref c m) = m_brefs m"
  "m_nbufs (drop_chunk_ref c m) = m_nbufs m" "m_nchunks (drop_chunk_ref c m) = m_nchunks m"
  by (simp_all add: drop_chunk_ref_def SendBufferManager_PushGlobal_def SendBufferManager_Push_def)

text \<open>\<^verbatim>\<open>Pop\<close> hands out a chunk nobody else holds.\<close>

definition fresh_chunk :: "sbm \<Rightarrow> cid \<Rightarrow> bool" where
  "fresh_chunk m c \<longleftrightarrow> c < m_nchunks m \<and> c \<notin> set (m_pool m) \<and> Some c \<notin> set (m_local m) \<and>
     (\<forall>b. \<not> buf_at m b c)"

lemma Pop_spec:
  assumes inv: "sbm_inv m" and pop: "SendBufferManager_Pop m = (c, m1)"
  shows "sbm_core m1" and "all_held m1 {c}" and "fresh_chunk m1 c"
    and "m_local m1 = m_local m" and "m_bufs m1 = m_bufs m" and "m_brefs m1 = m_brefs m"
    and "m_nbufs m1 = m_nbufs m"
    and "\<And>c'. c' < m_nchunks m \<Longrightarrow> m_chunks m1 c' = m_chunks m c'"
    and "m_nchunks m \<le> m_nchunks m1"
proof -
  have core: "sbm_core m" and held: "all_held m {}" using inv by (auto simp: sbm_inv_def)
  have "sbm_core m1 \<and> all_held m1 {c} \<and> fresh_chunk m1 c \<and> m_local m1 = m_local m \<and>
    m_bufs m1 = m_bufs m \<and> m_brefs m1 = m_brefs m \<and> m_nbufs m1 = m_nbufs m \<and>
    (\<forall>c' < m_nchunks m. m_chunks m1 c' = m_chunks m c') \<and> m_nchunks m \<le> m_nchunks m1"
  proof (cases "m_pool m = []")
    case False
    then obtain xs where sp: "m_pool m = xs @ [c]"
      using pop by (cases "m_pool m" rule: rev_cases) (auto simp: SendBufferManager_Pop_def)
    with pop have m1: "m1 = m\<lparr>m_pool := xs\<rparr>" by (auto simp: SendBufferManager_Pop_def)
    have pool: "set (m_pool m) = insert c (set xs)" "distinct xs" "c \<notin> set xs"
      "c < m_nchunks m" using core sp by (auto simp: sbm_parts)
    have ba: "buf_at m1 = buf_at m" by (simp add: buf_at_def live_def fun_eq_iff m1)
    have nl: "Some c \<notin> set (m_local m)"
      using core pool(1) by (fastforce simp: sbm_parts in_set_conv_nth)
    have nb: "\<not> buf_at m b c" for b
      using core pool(1) by (auto simp: sbm_parts)
    have "sbm_core m1"
      using core pool unfolding sbm_core_def chunks_ok_def locals_ok_def bufs_ok_def ba
      by (simp add: m1)
    moreover have "all_held m1 {c}"
      using held pool(1) by (auto simp: all_held_def chunk_referenced_iff ba) (auto simp: m1)
    moreover have "fresh_chunk m1 c"
      using pool nl nb by (simp add: fresh_chunk_def ba) (simp add: m1)
    ultimately show ?thesis by (simp add: m1)
  next
    case True
    with pop have c: "c = m_nchunks m"
      and m1: "m1 = m\<lparr>m_chunks := (m_chunks m)(c := SendBufferChunk), m_nchunks := Suc c\<rparr>"
      by (auto simp: SendBufferManager_Pop_def)
    have ba: "buf_at m1 = buf_at m" by (simp add: buf_at_def live_def fun_eq_iff m1)
    have lt: "buf_at m b c' \<Longrightarrow> c' < c" for b c' using core c by (auto simp: sbm_parts)
    have nl: "Some c \<notin> set (m_local m)"
      using core c by (fastforce simp: sbm_parts in_set_conv_nth)
    have "chunks_ok m1" using core True c wf_SendBufferChunk
      by (auto simp: sbm_parts m1 less_Suc_eq)
    moreover have "locals_ok m1"
      using core c by (simp add: sbm_core_def locals_ok_def m1) (meson less_SucI)
    moreover have "bufs_ok m1"
      unfolding bufs_ok_def ba
    proof (intro conjI allI impI)
      fix b c' assume b: "buf_at m b c'"
      with lt have "c' < c" .
      with b core show "c' < m_nchunks m1" "c' \<notin> set (m_pool m1)" "0 \<le> sb_start (m_bufs m1 b)"
        "0 \<le> sb_writeSize (m_bufs m1 b)"
        "sb_start (m_bufs m1 b) + sb_writeSize (m_bufs m1 b) \<le> ck_usedSize (m_chunks m1 c')"
        by (auto simp: sbm_parts m1)
    next
      fix b b' c' assume "buf_at m b c'" "buf_at m b' c'" "b \<noteq> b'"
      then show "extent (m_bufs m1 b) \<inter> extent (m_bufs m1 b') = {}"
        using core by (auto simp: sbm_parts m1)
    qed
    moreover have "all_held m1 {c}"
      using held c by (auto simp: all_held_def chunk_referenced_iff ba) (auto simp: m1 less_Suc_eq)
    moreover have "fresh_chunk m1 c"
      using nl lt True c by (auto simp: fresh_chunk_def ba) (auto simp: m1)
    ultimately show ?thesis by (auto simp: m1 sbm_core_def c)
  qed
  then show "sbm_core m1" and "all_held m1 {c}" and "fresh_chunk m1 c"
    and "m_local m1 = m_local m" and "m_bufs m1 = m_bufs m" and "m_brefs m1 = m_brefs m"
    and "m_nbufs m1 = m_nbufs m"
    and "\<And>c'. c' < m_nchunks m \<Longrightarrow> m_chunks m1 c' = m_chunks m c'"
    and "m_nchunks m \<le> m_nchunks m1" by auto
qed

section \<open>Taking a chunk\<close>

lemma assign_local_spec:
  assumes core: "sbm_core m" and held: "all_held m {c}" and fresh: "fresh_chunk m c"
    and t: "t < length (m_local m)"
  shows "sbm_inv (assign_local t c m)"
    and "m_local (assign_local t c m) = (m_local m)[t := Some c]"
    and "c \<notin> set (m_pool (assign_local t c m))"
proof -
  let ?m = "m\<lparr>m_local := (m_local m)[t := Some c]\<rparr>"
  have ba: "buf_at ?m = buf_at m" by (simp add: buf_at_def live_def fun_eq_iff)
  have nl: "\<And>t. t < length (m_local m) \<Longrightarrow> m_local m ! t \<noteq> Some c"
    using fresh by (metis fresh_chunk_def nth_mem)
  have core': "sbm_core ?m"
    unfolding sbm_core_def
  proof (intro conjI)
    show "chunks_ok ?m" and "bufs_ok ?m" using core by (auto simp: sbm_parts ba)
    show "locals_ok ?m"
      using core fresh nl t by (auto simp: sbm_parts fresh_chunk_def nth_list_update split: if_splits)
  qed
  have hc: "chunk_referenced ?m c"
    using t by (auto simp: chunk_referenced_iff set_update_memI)
  have other: "chunk_referenced ?m c'"
    if "c' < m_nchunks m" "c' \<noteq> c" "m_local m ! t \<noteq> Some c'" for c'
  proof -
    have "chunk_referenced m c'" using held that by (auto simp: all_held_def)
    moreover have "Some c' \<in> set ((m_local m)[t := Some c])" if "Some c' \<in> set (m_local m)"
    proof -
      from that obtain i where "i < length (m_local m)" "m_local m ! i = Some c'"
        by (metis in_set_conv_nth)
      moreover from this have "i \<noteq> t" using \<open>m_local m ! t \<noteq> Some c'\<close> by auto
      ultimately show ?thesis by (metis length_list_update nth_list_update_neq nth_mem)
    qed
    ultimately show ?thesis by (auto simp: chunk_referenced_iff ba)
  qed
  have "sbm_inv (assign_local t c m) \<and> c \<notin> set (m_pool (assign_local t c m))"
  proof (cases "m_local m ! t")
    case None
    have "all_held ?m {}" using hc other None by (auto simp: all_held_def)
    then show ?thesis
      using core' fresh None by (simp add: assign_local_def sbm_inv_def fresh_chunk_def)
  next
    case (Some c0)
    have "c0 < m_nchunks m" using core t Some by (auto simp: sbm_parts)
    moreover have "all_held ?m {c0}" using hc other Some by (auto simp: all_held_def)
    moreover have "c \<noteq> c0" using nl [OF t] Some by auto
    ultimately show ?thesis
      using drop_chunk_ref_inv [OF core', of c0] fresh Some
      by (auto simp: assign_local_def Let_def fresh_chunk_def drop_chunk_ref_def
          SendBufferManager_PushGlobal_def SendBufferManager_Push_def)
  qed
  then show "sbm_inv (assign_local t c m)" and "c \<notin> set (m_pool (assign_local t c m))" by auto
  show "m_local (assign_local t c m) = (m_local m)[t := Some c]"
    by (simp add: assign_local_def Let_def split: option.splits)
qed

lemma assign_local_frame [simp]:
  "m_chunks (assign_local t c m) = m_chunks m" "m_bufs (assign_local t c m) = m_bufs m"
  "m_brefs (assign_local t c m) = m_brefs m" "m_nbufs (assign_local t c m) = m_nbufs m"
  "m_nchunks (assign_local t c m) = m_nchunks m"
  by (auto simp: assign_local_def Let_def split: option.splits)

text \<open>Updating the fields of a chunk that no live buffer uses.\<close>

lemma upd_chunk_frame [simp]:
  "m_pool (upd_chunk c f m) = m_pool m" "m_local (upd_chunk c f m) = m_local m"
  "m_bufs (upd_chunk c f m) = m_bufs m" "m_brefs (upd_chunk c f m) = m_brefs m"
  "m_nbufs (upd_chunk c f m) = m_nbufs m" "m_nchunks (upd_chunk c f m) = m_nchunks m"
  by (simp_all add: upd_chunk_def)

lemma buf_at_upd_chunk [simp]: "buf_at (upd_chunk c f m) = buf_at m"
  by (simp add: buf_at_def live_def fun_eq_iff)

lemma chunk_referenced_upd_chunk [simp]:
  "chunk_referenced (upd_chunk c f m) = chunk_referenced m"
  by (simp add: chunk_referenced_iff fun_eq_iff)

lemma upd_chunk_inv:
  assumes "sbm_inv m" and "wf_chunk (m_chunks m c) \<Longrightarrow> wf_chunk (f (m_chunks m c))"
    and "\<And>b. buf_at m b c \<Longrightarrow> ck_usedSize (m_chunks m c) \<le> ck_usedSize (f (m_chunks m c))"
  shows "sbm_inv (upd_chunk c f m)"
proof -
  have core: "sbm_core m" and held: "all_held m {}" using assms(1) by (auto simp: sbm_inv_def)
  have "chunks_ok (upd_chunk c f m)"
    using core assms(2) by (auto simp: sbm_parts upd_chunk_def)
  moreover have "locals_ok (upd_chunk c f m)" using core by (simp add: sbm_parts)
  moreover have "bufs_ok (upd_chunk c f m)"
    unfolding bufs_ok_def buf_at_upd_chunk upd_chunk_frame
  proof (intro conjI allI impI)
    fix b c' assume b: "buf_at m b c'"
    then have old: "c' < m_nchunks m" "c' \<notin> set (m_pool m)" "0 \<le> sb_start (m_bufs m b)"
      "0 \<le> sb_writeSize (m_bufs m b)"
      "sb_start (m_bufs m b) + sb_writeSize (m_bufs m b) \<le> ck_usedSize (m_chunks m c')"
      using core by (auto simp: sbm_parts)
    then show "c' < m_nchunks m" "c' \<notin> set (m_pool m)" "0 \<le> sb_start (m_bufs m b)"
      "0 \<le> sb_writeSize (m_bufs m b)" by auto
    show "sb_start (m_bufs m b) + sb_writeSize (m_bufs m b)
        \<le> ck_usedSize (m_chunks (upd_chunk c f m) c')"
      using old(5) assms(3) [of b] b by (cases "c' = c") (auto simp: upd_chunk_def)
  next
    fix b b' c' assume "buf_at m b c'" "buf_at m b' c'" "b \<noteq> b'"
    then show "extent (m_bufs m b) \<inter> extent (m_bufs m b') = {}"
      using core by (auto simp: sbm_parts)
  qed
  moreover have "all_held (upd_chunk c f m) {}" using held by (simp add: all_held_def)
  ultimately show ?thesis by (simp add: sbm_inv_def sbm_core_def)
qed

lemma refill_spec:
  assumes inv: "sbm_inv m" and t: "t < length (m_local m)"
  obtains c where "sbm_inv (refill t m)" and "m_local (refill t m) = (m_local m)[t := Some c]"
    and "\<And>b. \<not> buf_at (refill t m) b c"
    and "\<not> ck_open (m_chunks (refill t m) c) \<and> ck_usedSize (m_chunks (refill t m) c) = 0"
    and "m_bufs (refill t m) = m_bufs m" and "m_brefs (refill t m) = m_brefs m"
    and "m_nbufs (refill t m) = m_nbufs m"
    and "\<And>c'. c' < m_nchunks m \<Longrightarrow> ck_buffer (m_chunks (refill t m) c') = ck_buffer (m_chunks m c')"
    and "Some c \<notin> set (m_local m)"
    and "\<And>c'. c' < m_nchunks m \<Longrightarrow> c' \<noteq> c \<Longrightarrow> m_chunks (refill t m) c' = m_chunks m c'"
proof -
  obtain c m1 where pop: "SendBufferManager_Pop m = (c, m1)" by force
  note P = Pop_spec [OF inv pop]
  have t1: "t < length (m_local m1)" using t P(4) by simp
  note A = assign_local_spec [OF P(1,2,3) t1]
  have ref: "refill t m = upd_chunk c SendBufferChunk_Init (assign_local t c m1)"
    by (simp add: refill_def pop)
  have nb: "\<not> buf_at (assign_local t c m1) b c" for b
    using P(3) by (simp add: fresh_chunk_def buf_at_def live_def)
  show ?thesis
  proof (rule that [of c])
    show "sbm_inv (refill t m)"
      unfolding ref using A(1) nb by (intro upd_chunk_inv) (auto intro: wf_Init)
    show "m_local (refill t m) = (m_local m)[t := Some c]" using A(2) P(4) by (simp add: ref)
    show "\<not> buf_at (refill t m) b c" for b using nb by (simp add: ref)
    show "\<not> ck_open (m_chunks (refill t m) c) \<and> ck_usedSize (m_chunks (refill t m) c) = 0"
      by (simp add: ref upd_chunk_def SendBufferChunk_Init_def)
    show "ck_buffer (m_chunks (refill t m) c') = ck_buffer (m_chunks m c')"
      if "c' < m_nchunks m" for c'
      using P(8) [OF that] by (auto simp: ref upd_chunk_def SendBufferChunk_Init_def)
    show "Some c \<notin> set (m_local m)" using P(3,4) by (simp add: fresh_chunk_def)
    show "m_chunks (refill t m) c' = m_chunks m c'" if "c' < m_nchunks m" "c' \<noteq> c" for c'
      using P(8) [OF that(1)] that(2) by (simp add: ref upd_chunk_def)
  qed (use P in \<open>simp_all add: ref\<close>)
qed


section \<open>Opening\<close>

text \<open>
  What taking a chunk leaves alone: the send buffers, the bytes of every chunk, and everything the
  other threads hold.
\<close>

definition same_view :: "tid \<Rightarrow> sbm \<Rightarrow> sbm \<Rightarrow> bool" where
  "same_view t m m' \<longleftrightarrow>
     length (m_local m') = length (m_local m) \<and>
     (\<forall>t'. t' \<noteq> t \<longrightarrow> m_local m' ! t' = m_local m ! t') \<and>
     m_bufs m' = m_bufs m \<and> m_brefs m' = m_brefs m \<and> m_nbufs m' = m_nbufs m \<and>
     (\<forall>t' c. t' < length (m_local m) \<longrightarrow> t' \<noteq> t \<longrightarrow> m_local m ! t' = Some c \<longrightarrow>
        m_chunks m' c = m_chunks m c) \<and>
     (\<forall>c < m_nchunks m. ck_buffer (m_chunks m' c) = ck_buffer (m_chunks m c)) \<and>
     m_nchunks m \<le> m_nchunks m'"

lemma same_view_refl [simp]: "same_view t m m"
  by (simp add: same_view_def)

lemma same_viewD:
  assumes "same_view t m m'"
  shows "length (m_local m') = length (m_local m)"
    and "t' \<noteq> t \<Longrightarrow> m_local m' ! t' = m_local m ! t'"
    and "m_bufs m' = m_bufs m" and "m_brefs m' = m_brefs m" and "m_nbufs m' = m_nbufs m"
    and "t' < length (m_local m) \<Longrightarrow> t' \<noteq> t \<Longrightarrow> m_local m ! t' = Some c \<Longrightarrow>
      m_chunks m' c = m_chunks m c"
    and "c < m_nchunks m \<Longrightarrow> ck_buffer (m_chunks m' c) = ck_buffer (m_chunks m c)"
    and "m_nchunks m \<le> m_nchunks m'"
  using assms by (auto simp: same_view_def)

lemma same_view_trans:
  assumes a: "same_view t m m1" and b: "same_view t m1 m2"
  shows "same_view t m m2"
  unfolding same_view_def
proof (intro conjI allI impI)
  show "m_chunks m2 c = m_chunks m c"
    if "t' < length (m_local m)" "t' \<noteq> t" "m_local m ! t' = Some c" for t' c
    using same_viewD(6) [OF a that] same_viewD(6) [OF b, of t' c] same_viewD(1,2) [OF a] that
    by metis
  show "ck_buffer (m_chunks m2 c) = ck_buffer (m_chunks m c)" if "c < m_nchunks m" for c
    using same_viewD(7) [OF a that] same_viewD(7) [OF b, of c] same_viewD(8) [OF a] that
    by (metis order_less_le_trans)
  show "m_local m2 ! t' = m_local m ! t'" if "t' \<noteq> t" for t'
    using same_viewD(2) [OF a that] same_viewD(2) [OF b that] by (rule trans [rotated])
  show "m_nchunks m \<le> m_nchunks m2"
    using same_viewD(8) [OF a] same_viewD(8) [OF b] by (rule order_trans)
qed (simp_all only: same_viewD(1,3,4,5) [OF a] same_viewD(1,3,4,5) [OF b])

lemma same_view_bufs:
  "same_view t m m' \<Longrightarrow> buf_at m' = buf_at m \<and> live m' = live m \<and> m_bufs m' = m_bufs m"
  by (simp add: same_viewD(3-5) buf_at_def live_def fun_eq_iff)

lemma refill_view:
  assumes inv: "sbm_inv m" and t: "t < length (m_local m)"
  shows "sbm_inv (refill t m) \<and> same_view t m (refill t m) \<and>
    (\<exists>c. m_local (refill t m) ! t = Some c \<and> \<not> ck_open (m_chunks (refill t m) c) \<and>
      ck_usedSize (m_chunks (refill t m) c) = 0 \<and> (\<forall>b. \<not> buf_at (refill t m) b c))"
proof (rule refill_spec [OF inv t])
  fix c assume R: "sbm_inv (refill t m)" "m_local (refill t m) = (m_local m)[t := Some c]"
      "\<And>b. \<not> buf_at (refill t m) b c"
      "\<not> ck_open (m_chunks (refill t m) c) \<and> ck_usedSize (m_chunks (refill t m) c) = 0"
      "m_bufs (refill t m) = m_bufs m" "m_brefs (refill t m) = m_brefs m"
      "m_nbufs (refill t m) = m_nbufs m"
      "\<And>c'. c' < m_nchunks m \<Longrightarrow> ck_buffer (m_chunks (refill t m) c') = ck_buffer (m_chunks m c')"
      "Some c \<notin> set (m_local m)"
      "\<And>c'. c' < m_nchunks m \<Longrightarrow> c' \<noteq> c \<Longrightarrow> m_chunks (refill t m) c' = m_chunks m c'"
  have n: "m_nchunks m \<le> m_nchunks (refill t m)"
    by (auto simp: refill_def SendBufferManager_Pop_def split: prod.splits if_splits)
  have other: "m_chunks (refill t m) c' = m_chunks m c'"
    if "t' < length (m_local m)" "m_local m ! t' = Some c'" for t' c'
  proof (rule R(10))
    show "c' < m_nchunks m" using inv that by (auto simp: sbm_inv_def sbm_parts)
    show "c' \<noteq> c" using R(9) that by (metis nth_mem)
  qed
  have "same_view t m (refill t m)"
    unfolding same_view_def
    by (intro conjI allI impI R(5-8) n other) (simp_all add: R(2))
  moreover have "m_local (refill t m) ! t = Some c" using t by (simp add: R(2))
  ultimately show "sbm_inv (refill t m) \<and> same_view t m (refill t m) \<and>
    (\<exists>c. m_local (refill t m) ! t = Some c \<and> \<not> ck_open (m_chunks (refill t m) c) \<and>
      ck_usedSize (m_chunks (refill t m) c) = 0 \<and> (\<forall>b. \<not> buf_at (refill t m) b c))"
    using R(1,3,4) by blast
qed

text \<open>The chunk a thread allocates from after the two conditional refills of \<^verbatim>\<open>Open\<close>.\<close>

lemma buffer_content_eq:
  assumes "m_bufs m' b = m_bufs m b"
    and "ck_buffer (m_chunks m' (sb_chunk (m_bufs m b))) = ck_buffer (m_chunks m (sb_chunk (m_bufs m b)))"
  shows "buffer_content m' b = buffer_content m b"
  using assms by (simp add: buffer_content_def Let_def)

lemma same_view_content:
  assumes "same_view t m m'" and "sbm_inv m" and "live m b"
  shows "buffer_content m' b = buffer_content m b"
proof (rule buffer_content_eq)
  show "m_bufs m' b = m_bufs m b" using assms(1) by (simp add: same_view_def)
  have "sb_chunk (m_bufs m b) < m_nchunks m"
    using assms(2,3) by (auto simp: sbm_inv_def sbm_parts buf_at_def)
  then show "ck_buffer (m_chunks m' (sb_chunk (m_bufs m b))) =
      ck_buffer (m_chunks m (sb_chunk (m_bufs m b)))"
    using assms(1) by (simp add: same_view_def)
qed

text \<open>Opening on a chunk with room: a new, empty buffer at the end of what is used.\<close>

lemma chunk_open_at_inv:
  assumes inv: "sbm_inv m" and loc: "t < length (m_local m)" "m_local m ! t = Some c"
    and cl: "\<not> ck_open (m_chunks m c)" and sz: "0 < sz"
    and room: "sz \<le> SendBufferChunk_FreeSize (m_chunks m c)"
    and m': "m' = m\<lparr>m_chunks := (m_chunks m)(c := (m_chunks m c)\<lparr>ck_open := True\<rparr>),
        m_bufs := (m_bufs m)(m_nbufs m := SendBuffer c (ck_usedSize (m_chunks m c)) sz),
        m_brefs := (m_brefs m)(m_nbufs m := 1), m_nbufs := Suc (m_nbufs m)\<rparr>"
  shows "chunk_open_at c sz m = Inr (Some (m_nbufs m), m')" and "sbm_inv m'"
    and "\<And>b c'. buf_at m' b c' \<longleftrightarrow> buf_at m b c' \<or> b = m_nbufs m \<and> c' = c"
proof -
  have core: "sbm_core m" and held: "all_held m {}" using inv by (auto simp: sbm_inv_def)
  have cn: "c < m_nchunks m" "c \<notin> set (m_pool m)" using core loc by (auto simp: sbm_parts)
  then have wf: "wf_chunk (m_chunks m c)" using core by (auto simp: sbm_parts)
  have "sz \<le> BUFFER_SIZE" "ck_usedSize (m_chunks m c) < BUFFER_SIZE"
    using wf room sz by (auto simp: wf_chunk_def SendBufferChunk_FreeSize_def)
  then show "chunk_open_at c sz m = Inr (Some (m_nbufs m), m')"
    using wf cl room by (simp add: chunk_open_at_def SendBufferChunk_Open_def m' wf_chunk_def)
  show ba: "buf_at m' b c' \<longleftrightarrow> buf_at m b c' \<or> b = m_nbufs m \<and> c' = c" for b c'
    by (auto simp: buf_at_def live_def m' SendBuffer_def less_Suc_eq)
  have lt: "b < m_nbufs m" if "buf_at m b c'" for b c' using that by (simp add: buf_at_def live_def)
  have "chunks_ok m'" using core wf by (auto simp: sbm_parts m' wf_chunk_def)
  moreover have "locals_ok m'" using core by (simp add: sbm_parts m')
  moreover have "bufs_ok m'"
    unfolding bufs_ok_def
  proof (intro conjI allI impI)
    fix b c' assume "buf_at m' b c'"
    then consider "buf_at m b c'" "b < m_nbufs m" | "b = m_nbufs m" "c' = c" using ba lt by blast
    then have "c' < m_nchunks m' \<and> c' \<notin> set (m_pool m') \<and> 0 \<le> sb_start (m_bufs m' b) \<and>
        0 \<le> sb_writeSize (m_bufs m' b) \<and>
        sb_start (m_bufs m' b) + sb_writeSize (m_bufs m' b) \<le> ck_usedSize (m_chunks m' c')"
    proof cases
      case 1
      with core show ?thesis by (auto simp: sbm_parts m')
    next
      case 2
      with cn wf show ?thesis by (simp add: m' SendBuffer_def wf_chunk_def)
    qed
    then show "c' < m_nchunks m'" "c' \<notin> set (m_pool m')" "0 \<le> sb_start (m_bufs m' b)"
      "0 \<le> sb_writeSize (m_bufs m' b)"
      "sb_start (m_bufs m' b) + sb_writeSize (m_bufs m' b) \<le> ck_usedSize (m_chunks m' c')"
      by auto
  next
    fix b b' c' assume b: "buf_at m' b c'" "buf_at m' b' c'" "b \<noteq> b'"
    have new: "extent (m_bufs m' (m_nbufs m)) = {}" by (simp add: m' SendBuffer_def extent_def)
    show "extent (m_bufs m' b) \<inter> extent (m_bufs m' b') = {}"
    proof (cases "b = m_nbufs m \<or> b' = m_nbufs m")
      case True
      then show ?thesis using new by auto
    next
      case False
      then have "buf_at m b c'" "buf_at m b' c'" using b ba by auto
      then have "extent (m_bufs m b) \<inter> extent (m_bufs m b') = {}"
        using core b(3) by (auto simp: sbm_parts)
      with False show ?thesis by (simp add: m')
    qed
  qed
  moreover have "all_held m' {}"
    using held ba by (auto simp: all_held_def chunk_referenced_iff) (auto simp: m')
  ultimately show "sbm_inv m'" by (simp add: sbm_inv_def sbm_core_def)
qed

text \<open>The result of \<^verbatim>\<open>SendBufferManager::Open\<close>, by the caller's own chunk.\<close>

definition own_chunk_open :: "sbm \<Rightarrow> tid \<Rightarrow> bool" where
  "own_chunk_open m t \<longleftrightarrow> (\<exists>c. m_local m ! t = Some c \<and> ck_open (m_chunks m c))"

definition opened_from :: "sbm \<Rightarrow> cid \<Rightarrow> int \<Rightarrow> sbm" where
  "opened_from m c sz =
     m\<lparr>m_chunks := (m_chunks m)(c := (m_chunks m c)\<lparr>ck_open := True\<rparr>),
       m_bufs := (m_bufs m)(m_nbufs m := SendBuffer c (ck_usedSize (m_chunks m c)) sz),
       m_brefs := (m_brefs m)(m_nbufs m := 1), m_nbufs := Suc (m_nbufs m)\<rparr>"

lemma Open_spec:
  assumes inv: "sbm_inv m" and t: "t < length (m_local m)" and sz: "0 < sz"
  shows "\<exists>m1. sbm_inv m1 \<and> same_view t m m1 \<and>
    (if sz > BUFFER_SIZE \<or> own_chunk_open m t
     then SendBufferManager_Open t sz m = Inr (None, m1)
     else \<exists>c. m_local m1 ! t = Some c \<and> \<not> ck_open (m_chunks m1 c) \<and>
            sz \<le> SendBufferChunk_FreeSize (m_chunks m1 c) \<and>
            SendBufferManager_Open t sz m = Inr (Some (m_nbufs m), opened_from m1 c sz))"
proof -
  define m1 where "m1 = (if m_local m ! t = None then refill t m else m)"
  have m1: "sbm_inv m1" "same_view t m m1" "\<exists>c. m_local m1 ! t = Some c"
    and own: "\<And>c. m_local m1 ! t = Some c \<Longrightarrow> ck_open (m_chunks m1 c) \<longleftrightarrow> own_chunk_open m t"
    using refill_view [OF inv t] inv by (auto simp: m1_def own_chunk_open_def)
  obtain c where c: "m_local m1 ! t = Some c" using m1(3) by blast
  have t1: "t < length (m_local m1)" using t same_viewD(1) [OF m1(2)] by simp
  show ?thesis
  proof (cases "own_chunk_open m t")
    case True
    then have "SendBufferManager_Open t sz m = Inr (None, m1)"
      using c own by (simp add: SendBufferManager_Open_def Let_def m1_def [symmetric])
    with True m1 show ?thesis by auto
  next
    case False
    define m2 where
      "m2 = (if SendBufferChunk_FreeSize (m_chunks m1 c) < sz then refill t m1 else m1)"
    have ref: "sbm_inv (refill t m1)" "same_view t m1 (refill t m1)"
      "\<exists>c2. m_local (refill t m1) ! t = Some c2 \<and> \<not> ck_open (m_chunks (refill t m1) c2) \<and>
        ck_usedSize (m_chunks (refill t m1) c2) = 0"
      using refill_view [OF m1(1) t1] by auto
    have m2: "sbm_inv m2" "same_view t m1 m2" using ref m1 by (auto simp: m2_def)
    have "\<exists>c2. m_local m2 ! t = Some c2 \<and> \<not> ck_open (m_chunks m2 c2) \<and>
        (sz \<le> SendBufferChunk_FreeSize (m_chunks m2 c2) \<or> ck_usedSize (m_chunks m2 c2) = 0)"
    proof (cases "SendBufferChunk_FreeSize (m_chunks m1 c) < sz")
      case True
      with ref(3) show ?thesis by (auto simp: m2_def)
    next
      case small: False
      with c own False show ?thesis by (auto simp: m2_def)
    qed
    then obtain c2 where c2: "m_local m2 ! t = Some c2" "\<not> ck_open (m_chunks m2 c2)"
      "sz \<le> SendBufferChunk_FreeSize (m_chunks m2 c2) \<or> ck_usedSize (m_chunks m2 c2) = 0"
      by blast
    have view: "same_view t m m2" using m1(2) m2(2) by (rule same_view_trans)
    have t2: "t < length (m_local m2)" using t same_viewD(1) [OF view] by simp
    have "SendBufferManager_Open t sz m = chunk_open_at c2 sz m2"
      using c own False c2(1)
      by (simp add: SendBufferManager_Open_def Let_def m1_def [symmetric] m2_def [symmetric])
    moreover have "wf_chunk (m_chunks m2 c2)"
      using m2(1) t2 c2(1) by (auto simp: sbm_inv_def sbm_parts)
    ultimately show ?thesis
      using False m2(1) view c2 chunk_open_at_inv(1) [OF m2(1) t2 c2(1,2) sz]
        same_viewD(5) [OF view]
      by (auto simp: opened_from_def wf_chunk_def SendBufferChunk_FreeSize_def chunk_open_at_def
          SendBufferChunk_Open_def)
  qed
qed

section \<open>The buffer a thread has opened\<close>

definition opened :: "sbm \<Rightarrow> tid \<Rightarrow> bid \<Rightarrow> bool" where
  "opened m t b \<longleftrightarrow> live m b \<and>
     (let sb = m_bufs m b; ck = m_chunks m (sb_chunk sb) in
      m_local m ! t = Some (sb_chunk sb) \<and> ck_open ck \<and> sb_writeSize sb = 0 \<and>
      sb_start sb = ck_usedSize ck \<and> 0 \<le> sb_freeSize sb \<and>
      ck_usedSize ck + sb_freeSize sb \<le> BUFFER_SIZE)"

lemma opened_frame:
  assumes "opened m t b" and "live m' b" and "m_bufs m' b = m_bufs m b"
    and "m_local m' ! t = m_local m ! t"
    and "ck_open (m_chunks m' (sb_chunk (m_bufs m b))) = ck_open (m_chunks m (sb_chunk (m_bufs m b)))"
    and "ck_usedSize (m_chunks m' (sb_chunk (m_bufs m b))) =
      ck_usedSize (m_chunks m (sb_chunk (m_bufs m b)))"
  shows "opened m' t b"
  using assms by (simp add: opened_def Let_def)

lemma opened_other_chunk:
  assumes "sbm_inv m" and "t < length (m_local m)" and "t' < length (m_local m)" and "t \<noteq> t'"
    and "opened m t b" and "m_local m ! t' = Some c"
  shows "sb_chunk (m_bufs m b) \<noteq> c"
  using assms by (auto simp: opened_def Let_def sbm_inv_def sbm_parts)

text \<open>A freshly opened buffer, and what opening it leaves alone.\<close>

lemma opened_from_spec:
  assumes inv: "sbm_inv m" and loc: "t < length (m_local m)" "m_local m ! t = Some c"
    and cl: "\<not> ck_open (m_chunks m c)" and sz: "0 < sz"
    and room: "sz \<le> SendBufferChunk_FreeSize (m_chunks m c)"
  shows "sbm_inv (opened_from m c sz)" and "opened (opened_from m c sz) t (m_nbufs m)"
    and "live m b \<Longrightarrow> live (opened_from m c sz) b \<and> m_bufs (opened_from m c sz) b = m_bufs m b"
    and "live m b \<Longrightarrow> buffer_content (opened_from m c sz) b = buffer_content m b"
    and "t' < length (m_local m) \<Longrightarrow> t' \<noteq> t \<Longrightarrow> opened m t' b \<Longrightarrow> opened (opened_from m c sz) t' b"
proof -
  note I = chunk_open_at_inv [OF inv loc cl sz room refl, folded opened_from_def]
  show "sbm_inv (opened_from m c sz)" by (rule I(2))
  have "wf_chunk (m_chunks m c)" using inv loc by (auto simp: sbm_inv_def sbm_parts)
  then show "opened (opened_from m c sz) t (m_nbufs m)"
    using loc sz room by (simp add: opened_def opened_from_def live_def SendBuffer_def
        SendBufferChunk_FreeSize_def wf_chunk_def)
  show lv: "live (opened_from m c sz) b \<and> m_bufs (opened_from m c sz) b = m_bufs m b"
    if "live m b" for b
    using that by (auto simp: live_def opened_from_def)
  show "buffer_content (opened_from m c sz) b = buffer_content m b" if "live m b"
    using lv [OF that] by (auto intro!: buffer_content_eq simp: opened_from_def)
  show "opened (opened_from m c sz) t' b"
    if t': "t' < length (m_local m)" "t' \<noteq> t" "opened m t' b"
  proof (rule opened_frame [OF t'(3)])
    have "live m b" using t'(3) by (simp add: opened_def)
    then show "live (opened_from m c sz) b" "m_bufs (opened_from m c sz) b = m_bufs m b"
      using lv by auto
    have "sb_chunk (m_bufs m b) \<noteq> c"
      using opened_other_chunk [OF inv t'(1) loc(1) t'(2,3) loc(2)] .
    then show "ck_open (m_chunks (opened_from m c sz) (sb_chunk (m_bufs m b))) =
        ck_open (m_chunks m (sb_chunk (m_bufs m b)))"
      and "ck_usedSize (m_chunks (opened_from m c sz) (sb_chunk (m_bufs m b))) =
        ck_usedSize (m_chunks m (sb_chunk (m_bufs m b)))" by (simp_all add: opened_from_def)
  qed (simp add: opened_from_def)
qed

text \<open>Closing it: the region becomes part of what the chunk has handed out.\<close>

lemma Close_spec:
  assumes inv: "sbm_inv m" and t: "t < length (m_local m)" and op: "opened m t b"
    and n: "0 \<le> n" "n \<le> sb_freeSize (m_bufs m b)" and cl: "SendBuffer_Close b n m = (ok, m')"
  shows "ok" and "sbm_inv m'" and "live m' = live m" and "m_local m' = m_local m"
    and "\<And>b'. b' \<noteq> b \<Longrightarrow> m_bufs m' b' = m_bufs m b'"
    and "\<And>b'. b' \<noteq> b \<Longrightarrow> buffer_content m' b' = buffer_content m b'"
    and "buffer_content m' b = window (nat (sb_start (m_bufs m b))) (nat n)
      (ck_buffer (m_chunks m (sb_chunk (m_bufs m b))))"
    and "\<And>t' b'. t' < length (m_local m) \<Longrightarrow> t' \<noteq> t \<Longrightarrow> opened m t' b' \<Longrightarrow> opened m' t' b'"
    and "\<not> own_chunk_open m' t"
proof -
  let ?sb = "m_bufs m b" let ?c = "sb_chunk ?sb"
  have core: "sbm_core m" and held: "all_held m {}" using inv by (auto simp: sbm_inv_def)
  have o: "live m b" "m_local m ! t = Some ?c" "ck_open (m_chunks m ?c)"
    "sb_start ?sb = ck_usedSize (m_chunks m ?c)" "sb_writeSize ?sb = 0"
    "ck_usedSize (m_chunks m ?c) + sb_freeSize ?sb \<le> BUFFER_SIZE"
    using op by (auto simp: opened_def Let_def)
  define k where "k = (m_chunks m ?c)\<lparr>ck_open := False, ck_usedSize := ck_usedSize (m_chunks m ?c) + n\<rparr>"
  have m': "ok" "m' = m\<lparr>m_bufs := (m_bufs m)(b := ?sb\<lparr>sb_writeSize := n\<rparr>),
      m_chunks := (m_chunks m)(?c := k)\<rparr>"
    using cl n(2) o(3) by (auto simp: SendBuffer_Close_def upd_chunk_def SendBufferChunk_Close_def k_def Let_def)
  have ck: "ck_buffer k = ck_buffer (m_chunks m ?c)" "ck_usedSize k = ck_usedSize (m_chunks m ?c) + n"
    "\<not> ck_open k" by (simp_all add: k_def)
  have ba: "buf_at m' = buf_at m" by (auto simp: buf_at_def live_def fun_eq_iff m'(2))
  show "ok" and "live m' = live m" and "m_local m' = m_local m"
    and "\<And>b'. b' \<noteq> b \<Longrightarrow> m_bufs m' b' = m_bufs m b'"
    by (simp_all add: m' live_def fun_eq_iff)
  have at: "buf_at m b ?c" using o(1) by (simp add: buf_at_def)
  have "?c < m_nchunks m" using core at by (auto simp: sbm_parts)
  then have wf: "wf_chunk (m_chunks m ?c)" using core by (auto simp: sbm_parts)
  have "chunks_ok m'" using core wf o(6) n ck by (auto simp: sbm_parts m'(2) wf_chunk_def)
  moreover have "locals_ok m'" using core by (simp add: sbm_parts m'(2))
  moreover have "bufs_ok m'"
    unfolding bufs_ok_def ba
  proof (intro conjI allI impI)
    fix b' c' assume b': "buf_at m b' c'"
    have old: "c' < m_nchunks m" "c' \<notin> set (m_pool m)" "0 \<le> sb_start (m_bufs m b')"
      "0 \<le> sb_writeSize (m_bufs m b')"
      "sb_start (m_bufs m b') + sb_writeSize (m_bufs m b') \<le> ck_usedSize (m_chunks m c')"
      using core b' by (auto simp: sbm_parts)
    show "c' < m_nchunks m'" "c' \<notin> set (m_pool m')" using old by (simp_all add: m'(2))
    show "0 \<le> sb_start (m_bufs m' b')" "0 \<le> sb_writeSize (m_bufs m' b')"
      using old(3,4) n(1) by (auto simp: m'(2))
    show "sb_start (m_bufs m' b') + sb_writeSize (m_bufs m' b') \<le> ck_usedSize (m_chunks m' c')"
    proof (cases "b' = b")
      case True
      then have "c' = ?c" using b' by (simp add: buf_at_def)
      with True o(4) ck show ?thesis by (simp add: m'(2))
    next
      case False
      with old(5) n(1) ck show ?thesis by (cases "c' = ?c") (auto simp: m'(2))
    qed
  next
    fix b1 b2 c' assume b: "buf_at m b1 c'" "buf_at m b2 c'" "b1 \<noteq> b2"
    have far: "extent (m_bufs m' b) \<inter> extent (m_bufs m' b') = {}"
      if "buf_at m b' ?c" "b' \<noteq> b" for b'
    proof -
      have "sb_start (m_bufs m b') + sb_writeSize (m_bufs m b') \<le> ck_usedSize (m_chunks m ?c)"
        using core that by (auto simp: sbm_parts)
      with that(2) o(4) show ?thesis by (auto simp: extent_def m'(2))
    qed
    show "extent (m_bufs m' b1) \<inter> extent (m_bufs m' b2) = {}"
    proof (cases "b1 = b \<or> b2 = b")
      case True
      then show ?thesis using far [of b1] far [of b2] b by (auto simp: buf_at_def)
    next
      case False
      moreover have "extent (m_bufs m b1) \<inter> extent (m_bufs m b2) = {}"
        using core b by (auto simp: sbm_parts)
      ultimately show ?thesis by (simp add: m'(2))
    qed
  qed
  moreover have "all_held m' {}"
    using held by (auto simp: all_held_def chunk_referenced_iff ba) (auto simp: m'(2))
  ultimately show "sbm_inv m'" by (simp add: sbm_inv_def sbm_core_def)
  show "buffer_content m' b' = buffer_content m b'" if "b' \<noteq> b" for b'
    using that ck by (auto intro!: buffer_content_eq simp: m'(2))
  show "buffer_content m' b = window (nat (sb_start ?sb)) (nat n) (ck_buffer (m_chunks m ?c))"
    using ck by (simp add: buffer_content_def Let_def m'(2))
  show "opened m' t' b'" if t': "t' < length (m_local m)" "t' \<noteq> t" "opened m t' b'" for t' b'
  proof (rule opened_frame [OF t'(3)])
    have far: "sb_chunk (m_bufs m b') \<noteq> ?c"
      using opened_other_chunk [OF inv t'(1) t t'(2,3) o(2)] .
    then have "b' \<noteq> b" by auto
    then show "m_bufs m' b' = m_bufs m b'" by (simp add: m'(2))
    show "live m' b'" using t'(3) by (simp add: opened_def live_def m'(2))
    show "ck_open (m_chunks m' (sb_chunk (m_bufs m b'))) = ck_open (m_chunks m (sb_chunk (m_bufs m b')))"
      and "ck_usedSize (m_chunks m' (sb_chunk (m_bufs m b'))) =
        ck_usedSize (m_chunks m (sb_chunk (m_bufs m b')))" using far by (simp_all add: m'(2))
  qed (simp add: m'(2))
  show "\<not> own_chunk_open m' t" using o(2) ck by (simp add: own_chunk_open_def m'(2))
qed

text \<open>Writing through it, within the size it was opened with.\<close>

lemma write_spec:
  assumes inv: "sbm_inv m" and t: "t < length (m_local m)" and op: "opened m t b"
    and w: "0 \<le> off" "off + int (length bs) \<le> sb_freeSize (m_bufs m b)"
  shows "\<exists>m'. buffer_write b off bs m = Inr m' \<and> sbm_inv m' \<and> live m' = live m \<and>
      m_local m' = m_local m \<and> m_bufs m' = m_bufs m \<and>
      (\<forall>b'. live m b' \<longrightarrow> buffer_content m' b' = buffer_content m b') \<and>
      (\<forall>t' b'. opened m t' b' \<longrightarrow> opened m' t' b') \<and>
      ck_buffer (m_chunks m' (sb_chunk (m_bufs m b))) =
        overwrite (nat (sb_start (m_bufs m b) + off)) bs
          (ck_buffer (m_chunks m (sb_chunk (m_bufs m b))))"
proof -
  let ?sb = "m_bufs m b" let ?c = "sb_chunk ?sb"
  let ?mem = "ck_buffer (m_chunks m ?c)" let ?i = "nat (sb_start ?sb + off)"
  have core: "sbm_core m" using inv by (simp add: sbm_inv_def)
  have o: "live m b" "m_local m ! t = Some ?c" "sb_start ?sb = ck_usedSize (m_chunks m ?c)"
    "ck_usedSize (m_chunks m ?c) + sb_freeSize ?sb \<le> BUFFER_SIZE" "sb_writeSize ?sb = 0"
    using op by (auto simp: opened_def Let_def)
  have "?c < m_nchunks m" using core t o(2) by (auto simp: sbm_parts)
  then have wf: "wf_chunk (m_chunks m ?c)" using core by (auto simp: sbm_parts)
  define f where "f = (\<lambda>ck :: chunk. ck\<lparr>ck_buffer := overwrite ?i bs ?mem\<rparr>)"
  have fit: "0 \<le> sb_start ?sb + off" "?i + length bs \<le> length ?mem"
    using wf o(3,4) w by (auto simp: wf_chunk_def)
  have wr: "buffer_write b off bs m = Inr (upd_chunk ?c f m)"
    using fit by (simp add: buffer_write_def Let_def mem_write_def f_def)
  have wf': "wf_chunk (f (m_chunks m ?c))" using wf fit by (simp add: wf_chunk_def f_def)
  have "sbm_inv (upd_chunk ?c f m)"
    using inv by (rule upd_chunk_inv) (rule wf', simp add: f_def)
  moreover have "live (upd_chunk ?c f m) = live m" by (simp add: live_def fun_eq_iff)
  moreover have "buffer_content (upd_chunk ?c f m) b' = buffer_content m b'" if "live m b'" for b'
  proof (cases "sb_chunk (m_bufs m b') = ?c")
    case True
    have le: "0 \<le> sb_start (m_bufs m b')" "0 \<le> sb_writeSize (m_bufs m b')"
      "sb_start (m_bufs m b') + sb_writeSize (m_bufs m b') \<le> ck_usedSize (m_chunks m ?c)"
      using core that True by (auto simp: sbm_parts buf_at_def)
    then have "nat (sb_start (m_bufs m b')) + nat (sb_writeSize (m_bufs m b')) \<le> ?i"
      using o(3) w(1) by linarith
    then have "window (nat (sb_start (m_bufs m b'))) (nat (sb_writeSize (m_bufs m b')))
        (overwrite ?i bs ?mem) =
      window (nat (sb_start (m_bufs m b'))) (nat (sb_writeSize (m_bufs m b'))) ?mem"
      using fit(2) by (intro window_overwrite_before) auto
    with True show ?thesis
      by (simp add: buffer_content_def Let_def upd_chunk_def f_def)
  next
    case False
    then show ?thesis by (simp add: buffer_content_def Let_def upd_chunk_def)
  qed
  moreover have "opened (upd_chunk ?c f m) t' b'" if "opened m t' b'" for t' b'
    by (rule opened_frame [OF that])
      (use that in \<open>auto simp: opened_def live_def upd_chunk_def f_def\<close>)
  ultimately show ?thesis using wr by (simp add: upd_chunk_def f_def)
qed

section \<open>Sharing and destroying\<close>

lemma bufs_ok_sub:
  assumes "bufs_ok m" and "\<And>b c. buf_at m' b c \<Longrightarrow> buf_at m b c" and "m_bufs m' = m_bufs m"
    and "m_chunks m' = m_chunks m" and "m_pool m' = m_pool m" and "m_nchunks m' = m_nchunks m"
  shows "bufs_ok m'"
  using assms(1) unfolding bufs_ok_def by (simp add: assms(3-6)) (blast dest: assms(2))

lemma retain_spec:
  assumes inv: "sbm_inv m" and b: "live m b"
  shows "sbm_inv (buffer_retain b m)" and "live (buffer_retain b m) = live m"
    and "m_bufs (buffer_retain b m) = m_bufs m" and "m_local (buffer_retain b m) = m_local m"
    and "m_chunks (buffer_retain b m) = m_chunks m"
proof -
  show lv: "live (buffer_retain b m) = live m"
    using b by (auto simp: live_def buffer_retain_def fun_eq_iff)
  show fr: "m_bufs (buffer_retain b m) = m_bufs m" "m_local (buffer_retain b m) = m_local m"
    "m_chunks (buffer_retain b m) = m_chunks m" by (simp_all add: buffer_retain_def)
  have ba: "buf_at (buffer_retain b m) = buf_at m" by (simp add: buf_at_def lv fr fun_eq_iff)
  have core: "sbm_core m" and held: "all_held m {}" using inv by (auto simp: sbm_inv_def)
  have "bufs_ok (buffer_retain b m)"
  proof (rule bufs_ok_sub [of m])
    show "buf_at m b' c'" if "buf_at (buffer_retain b m) b' c'" for b' c' using that by (simp add: ba)
  qed (use core in \<open>simp_all add: sbm_core_def buffer_retain_def\<close>)
  moreover have "chunks_ok (buffer_retain b m)" and "locals_ok (buffer_retain b m)"
    using core by (simp_all add: sbm_parts buffer_retain_def)
  moreover have "all_held (buffer_retain b m) {}"
    using held unfolding all_held_def chunk_referenced_iff ba by (simp add: buffer_retain_def)
  ultimately show "sbm_inv (buffer_retain b m)" by (simp add: sbm_inv_def sbm_core_def)
qed

lemma release_spec:
  assumes inv: "sbm_inv m" and b: "live m b"
  shows "sbm_inv (buffer_release b m)"
    and "b' \<noteq> b \<Longrightarrow> live (buffer_release b m) b' = live m b'"
    and "m_bufs (buffer_release b m) = m_bufs m" and "m_local (buffer_release b m) = m_local m"
    and "m_chunks (buffer_release b m) = m_chunks m"
proof -
  let ?m = "m\<lparr>m_brefs := (m_brefs m)(b := m_brefs m b - 1)\<rparr>" let ?c = "sb_chunk (m_bufs m b)"
  have core: "sbm_core m" and held: "all_held m {}" using inv by (auto simp: sbm_inv_def)
  have sub: "buf_at m b' c'" if "buf_at ?m b' c'" for b' c'
    using that by (auto simp: buf_at_def live_def split: if_splits)
  have core': "sbm_core ?m"
    unfolding sbm_core_def
  proof (intro conjI)
    show "chunks_ok ?m" and "locals_ok ?m" using core by (simp_all add: sbm_parts)
    show "bufs_ok ?m" using core sub by - (rule bufs_ok_sub [of m], simp_all add: sbm_core_def)
  qed
  show fr: "m_bufs (buffer_release b m) = m_bufs m" "m_local (buffer_release b m) = m_local m"
    "m_chunks (buffer_release b m) = m_chunks m" by (simp_all add: buffer_release_def Let_def)
  show "live (buffer_release b m) b' = live m b'" if "b' \<noteq> b"
    using that by (simp add: buffer_release_def live_def Let_def)
  show "sbm_inv (buffer_release b m)"
  proof (cases "m_brefs m b = 1")
    case True
    have "?c < m_nchunks m" using core b by (auto simp: sbm_parts buf_at_def)
    moreover have "all_held ?m {?c}"
      unfolding all_held_def
    proof (intro allI impI)
      fix c' assume c': "c' < m_nchunks ?m" "c' \<notin> {?c}"
      then have "chunk_referenced m c'" using held by (simp add: all_held_def)
      moreover have "buf_at ?m b' c'" if "buf_at m b' c'" for b'
        using that c'(2) by (auto simp: buf_at_def live_def)
      ultimately show "chunk_referenced ?m c'" by (auto simp: chunk_referenced_iff)
    qed
    ultimately show ?thesis
      using drop_chunk_ref_inv [OF core', of ?c] True by (simp add: buffer_release_def)
  next
    case False
    then have "buf_at ?m = buf_at m"
      using b by (auto simp: buf_at_def live_def fun_eq_iff)
    then have "all_held ?m {}" using held by (simp add: all_held_def chunk_referenced_iff)
    with core' False show ?thesis by (simp add: buffer_release_def sbm_inv_def)
  qed
qed

end
