(* ===== verification/Send_Buffer_Threads.thy ===== *)
theory Send_Buffer_Threads
  imports Send_Buffer_Safety
begin

text \<open>
  The send-buffer allocator under any interleaving of the threads that use it: the system of their
  operations, its invariant (an instance of \<open>inductive_invariant\<close>) and what follows for every
  reachable state.
\<close>

section \<open>Threads at work\<close>

text \<open>
  Any number of threads, interleaved operation by operation: each opens a buffer, writes into it,
  closes it or gives it up, and handles to closed buffers are copied and destroyed anywhere.
\<close>

record sb_sys =
  sys_m :: sbm
  sys_open :: "bid option list"

datatype sb_op =
    OpOpen tid int
  | OpWrite tid int "byte list"
  | OpClose tid int
  | OpAbandon tid
  | OpRetain bid
  | OpRelease bid

definition open_of :: "sb_sys \<Rightarrow> tid \<Rightarrow> bid option" where
  "open_of s t = (if t < length (sys_open s) then sys_open s ! t else None)"

definition published :: "sb_sys \<Rightarrow> bid \<Rightarrow> bool" where
  "published s b \<longleftrightarrow> live (sys_m s) b \<and> Some b \<notin> set (sys_open s)"

fun sb_exec :: "sb_op \<Rightarrow> sb_sys \<Rightarrow> sb_sys option" where
  "sb_exec (OpOpen t sz) s =
     (if t < length (sys_open s) \<and> open_of s t = None \<and> 0 < sz then
        (case SendBufferManager_Open t sz (sys_m s) of
           Inl e \<Rightarrow> None
         | Inr (ob, m') \<Rightarrow> Some \<lparr>sys_m = m', sys_open = (sys_open s)[t := ob]\<rparr>)
      else None)"
| "sb_exec (OpWrite t off bs) s =
     (case open_of s t of
        None \<Rightarrow> None
      | Some b \<Rightarrow>
          if 0 \<le> off \<and> off + int (length bs) \<le> sb_freeSize (m_bufs (sys_m s) b) then
            (case buffer_write b off bs (sys_m s) of Inl e \<Rightarrow> None | Inr m' \<Rightarrow> Some (s\<lparr>sys_m := m'\<rparr>))
          else None)"
| "sb_exec (OpClose t n) s =
     (case open_of s t of
        None \<Rightarrow> None
      | Some b \<Rightarrow>
          if 0 \<le> n then
            (case SendBuffer_Close b n (sys_m s) of (ok, m') \<Rightarrow>
               Some \<lparr>sys_m = m', sys_open = (if ok then (sys_open s)[t := None] else sys_open s)\<rparr>)
          else None)"
| "sb_exec (OpAbandon t) s =
     (case open_of s t of
        None \<Rightarrow> None
      | Some b \<Rightarrow> Some \<lparr>sys_m = buffer_release b (sys_m s), sys_open = (sys_open s)[t := None]\<rparr>)"
| "sb_exec (OpRetain b) s =
     (if published s b then Some (s\<lparr>sys_m := buffer_retain b (sys_m s)\<rparr>) else None)"
| "sb_exec (OpRelease b) s =
     (if published s b then Some (s\<lparr>sys_m := buffer_release b (sys_m s)\<rparr>) else None)"

definition sb_start_state :: "nat \<Rightarrow> sb_sys \<Rightarrow> bool" where
  "sb_start_state n s \<longleftrightarrow> s = \<lparr>sys_m = sbm_init n, sys_open = replicate n None\<rparr>"

definition sb_step :: "sb_sys \<Rightarrow> sb_sys \<Rightarrow> bool" where
  "sb_step s s' \<longleftrightarrow> (\<exists>op. sb_exec op s = Some s')"

definition sys_inv :: "sb_sys \<Rightarrow> bool" where
  "sys_inv s \<longleftrightarrow> sbm_inv (sys_m s) \<and> length (sys_open s) = length (m_local (sys_m s)) \<and>
     (\<forall>t b. open_of s t = Some b \<longrightarrow> opened (sys_m s) t b)"

lemma open_of_less: "open_of s t = Some b \<Longrightarrow> t < length (sys_open s)"
  by (simp add: open_of_def split: if_splits)

lemma open_of_update:
  "open_of \<lparr>sys_m = m', sys_open = (sys_open s)[t := x]\<rparr> t' =
     (if t' = t \<and> t < length (sys_open s) then x else open_of s t')"
  by (simp add: open_of_def nth_list_update)

lemma open_of_m [simp]: "open_of (s\<lparr>sys_m := m'\<rparr>) = open_of s"
  by (simp add: open_of_def fun_eq_iff)

lemma open_of_mem: "Some b \<in> set (sys_open s) \<longleftrightarrow> (\<exists>t. open_of s t = Some b)"
  by (auto simp: open_of_def in_set_conv_nth split: if_splits)

text \<open>Two threads never have the same buffer open: they allocate from different chunks.\<close>

lemma opened_distinct:
  assumes "sys_inv s" and "open_of s t = Some b" and "open_of s t' = Some b"
  shows "t = t'"
proof (rule ccontr)
  assume "t \<noteq> t'"
  moreover have "opened (sys_m s) t b" "opened (sys_m s) t' b" using assms by (auto simp: sys_inv_def)
  moreover have "t < length (m_local (sys_m s))" "t' < length (m_local (sys_m s))"
    using assms open_of_less by (metis sys_inv_def)+
  ultimately show False
    using assms(1) opened_other_chunk [of "sys_m s" t t' b]
    by (auto simp: sys_inv_def opened_def Let_def)
qed

text \<open>
  What one operation guarantees: the invariant, and for every published buffer that survives,
  the same region and the same bytes.
\<close>

definition published_kept :: "sb_sys \<Rightarrow> sb_sys \<Rightarrow> bool" where
  "published_kept s s' \<longleftrightarrow> (\<forall>b. published s b \<longrightarrow> live (sys_m s') b \<longrightarrow>
     published s' b \<and> m_bufs (sys_m s') b = m_bufs (sys_m s) b \<and>
     buffer_content (sys_m s') b = buffer_content (sys_m s) b)"

lemma exec_open_ok:
  assumes inv: "sys_inv s" and ex: "sb_exec (OpOpen t sz) s = Some s'"
  shows "sys_inv s' \<and> published_kept s s'"
proof -
  let ?m = "sys_m s"
  from ex have t: "t < length (sys_open s)" "open_of s t = None" "0 < sz"
    by (auto split: if_splits)
  have m: "sbm_inv ?m" and len: "length (sys_open s) = length (m_local ?m)"
    and op: "\<And>t b. open_of s t = Some b \<Longrightarrow> opened ?m t b" using inv by (auto simp: sys_inv_def)
  have tl: "t < length (m_local ?m)" using t len by simp
  obtain m1 where m1: "sbm_inv m1" "same_view t ?m m1" and cs:
    "if sz > BUFFER_SIZE \<or> own_chunk_open ?m t then SendBufferManager_Open t sz ?m = Inr (None, m1)
     else \<exists>c. m_local m1 ! t = Some c \<and> \<not> ck_open (m_chunks m1 c) \<and>
            sz \<le> SendBufferChunk_FreeSize (m_chunks m1 c) \<and>
            SendBufferManager_Open t sz ?m = Inr (Some (m_nbufs ?m), opened_from m1 c sz)"
    using Open_spec [OF m tl t(3)] by blast
  have lv: "live m1 = live ?m" "m_bufs m1 = m_bufs ?m" using same_view_bufs [OF m1(2)] by auto
  have op1: "opened m1 t' b" if "open_of s t' = Some b" for t' b
  proof -
    have ne: "t' \<noteq> t" using that t(2) by auto
    have loc: "t' < length (m_local ?m)" "m_local ?m ! t' = Some (sb_chunk (m_bufs ?m b))"
      using open_of_less [OF that] len op [OF that] by (auto simp: opened_def Let_def)
    have "m_chunks m1 (sb_chunk (m_bufs ?m b)) = m_chunks ?m (sb_chunk (m_bufs ?m b))"
      using same_viewD(6) [OF m1(2) loc(1) ne loc(2)] .
    then show ?thesis
      using op [OF that] same_viewD(2) [OF m1(2) ne] lv
      by (intro opened_frame [OF op [OF that]]) (auto simp: opened_def)
  qed
  have cont: "buffer_content m1 b = buffer_content ?m b" if "live ?m b" for b
    using same_view_content [OF m1(2) m that] .
  consider (none) "s' = \<lparr>sys_m = m1, sys_open = (sys_open s)[t := None]\<rparr>"
    | (some) c where "m_local m1 ! t = Some c" "\<not> ck_open (m_chunks m1 c)"
        "sz \<le> SendBufferChunk_FreeSize (m_chunks m1 c)"
        "s' = \<lparr>sys_m = opened_from m1 c sz, sys_open = (sys_open s)[t := Some (m_nbufs ?m)]\<rparr>"
    using cs ex t by (auto split: if_splits)
  then show ?thesis
  proof cases
    case none
    have o: "open_of s' = open_of s" using t by (auto simp: none open_of_update)
    have "sys_inv s'"
      using m1(1) op1 len same_viewD(1) [OF m1(2)] o by (simp add: sys_inv_def) (simp add: none)
    moreover have "published_kept s s'"
      using lv cont o by (simp add: published_kept_def published_def open_of_mem) (simp add: none)
    ultimately show ?thesis ..
  next
    case some
    have t1: "t < length (m_local m1)" using tl same_viewD(1) [OF m1(2)] by simp
    note O = opened_from_spec [OF m1(1) t1 some(1,2) t(3) some(3)]
    have nb: "m_nbufs m1 = m_nbufs ?m" by (rule same_viewD(5) [OF m1(2)])
    have o: "open_of s' t' = (if t' = t then Some (m_nbufs ?m) else open_of s t')" for t'
      using t by (simp add: some(4) open_of_update)
    have "sys_inv s'"
      unfolding sys_inv_def
    proof (intro conjI allI impI)
      show "sbm_inv (sys_m s')" using O(1) by (simp add: some(4))
      show "length (sys_open s') = length (m_local (sys_m s'))"
        using len same_viewD(1) [OF m1(2)] by (simp add: some(4) opened_from_def)
      fix t' b assume b: "open_of s' t' = Some b"
      show "opened (sys_m s') t' b"
      proof (cases "t' = t")
        case True
        with b o nb O(2) show ?thesis by (simp add: some(4))
      next
        case False
        then have "open_of s t' = Some b" using b o by simp
        moreover from this have "t' < length (m_local m1)"
          using open_of_less len same_viewD(1) [OF m1(2)] by fastforce
        ultimately show ?thesis using False O(5) op1 by (simp add: some(4))
      qed
    qed
    moreover have "published_kept s s'"
      unfolding published_kept_def
    proof (intro allI impI)
      fix b assume b: "published s b" "live (sys_m s') b"
      then have lb: "live ?m b" "\<And>t'. open_of s t' \<noteq> Some b"
        by (auto simp: published_def open_of_mem)
      moreover have "b \<noteq> m_nbufs ?m" using lb(1) by (simp add: live_def)
      ultimately show "published s' b \<and> m_bufs (sys_m s') b = m_bufs (sys_m s) b \<and>
          buffer_content (sys_m s') b = buffer_content (sys_m s) b"
        using O(3,4) [of b] lv cont
        by (simp add: published_def open_of_mem o) (simp add: some(4))
    qed
    ultimately show ?thesis ..
  qed
qed

lemma exec_write_ok:
  assumes inv: "sys_inv s" and ex: "sb_exec (OpWrite t off bs) s = Some s'"
  shows "sys_inv s' \<and> published_kept s s'"
proof -
  from ex obtain b m' where b: "open_of s t = Some b"
    and w: "0 \<le> off" "off + int (length bs) \<le> sb_freeSize (m_bufs (sys_m s) b)"
    and wr: "buffer_write b off bs (sys_m s) = Inr m'" and s': "s' = s\<lparr>sys_m := m'\<rparr>"
    by (auto split: option.splits if_splits sum.splits)
  have m: "sbm_inv (sys_m s)" and len: "length (sys_open s) = length (m_local (sys_m s))"
    and op: "\<And>t b. open_of s t = Some b \<Longrightarrow> opened (sys_m s) t b" using inv by (auto simp: sys_inv_def)
  have tl: "t < length (m_local (sys_m s))" using open_of_less [OF b] len by simp
  have W: "sbm_inv m'" "live m' = live (sys_m s)" "m_local m' = m_local (sys_m s)"
    "m_bufs m' = m_bufs (sys_m s)"
    "\<And>b'. live (sys_m s) b' \<Longrightarrow> buffer_content m' b' = buffer_content (sys_m s) b'"
    "\<And>t' b'. opened (sys_m s) t' b' \<Longrightarrow> opened m' t' b'"
    using write_spec [OF m tl op [OF b] w] wr by auto
  have "sys_inv s'" using W len op by (simp add: sys_inv_def s')
  moreover have "published_kept s s'"
    using W by (simp add: published_kept_def published_def s')
  ultimately show ?thesis ..
qed

lemma exec_close_ok:
  assumes inv: "sys_inv s" and ex: "sb_exec (OpClose t n) s = Some s'"
  shows "sys_inv s' \<and> published_kept s s'"
proof -
  from ex obtain b ok m' where b: "open_of s t = Some b" and n: "0 \<le> n"
    and cl: "SendBuffer_Close b n (sys_m s) = (ok, m')"
    and s': "s' = \<lparr>sys_m = m', sys_open = (if ok then (sys_open s)[t := None] else sys_open s)\<rparr>"
    by (auto split: option.splits if_splits prod.splits)
  have m: "sbm_inv (sys_m s)" and len: "length (sys_open s) = length (m_local (sys_m s))"
    and op: "\<And>t b. open_of s t = Some b \<Longrightarrow> opened (sys_m s) t b" using inv by (auto simp: sys_inv_def)
  have tl: "t < length (m_local (sys_m s))" using open_of_less [OF b] len by simp
  show ?thesis
  proof (cases "n \<le> sb_freeSize (m_bufs (sys_m s) b)")
    case False
    with cl have "ok = False" "m' = sys_m s" by (auto simp: SendBuffer_Close_def)
    then have "s' = s" by (simp add: s')
    with inv show ?thesis by (simp add: published_kept_def)
  next
    case True
    note C = Close_spec [OF m tl op [OF b] n True cl]
    have o: "open_of s' t' = (if t' = t then None else open_of s t')" for t'
      using C(1) tl len by (simp add: s' open_of_update)
    have "sys_inv s'"
      unfolding sys_inv_def
    proof (intro conjI allI impI)
      show "sbm_inv (sys_m s')" using C(2) by (simp add: s')
      show "length (sys_open s') = length (m_local (sys_m s'))" using C(4) len by (simp add: s')
      fix t' b' assume "open_of s' t' = Some b'"
      then have "t' \<noteq> t" "open_of s t' = Some b'" using o by (auto split: if_splits)
      moreover from this have "t' < length (m_local (sys_m s))" using open_of_less len by metis
      ultimately show "opened (sys_m s') t' b'" using C(8) op by (simp add: s')
    qed
    moreover have "published_kept s s'"
      unfolding published_kept_def
    proof (intro allI impI)
      fix b' assume p: "published s b'" "live (sys_m s') b'"
      then have "b' \<noteq> b" using b by (auto simp: published_def open_of_mem)
      with p C(3,5,6) show "published s' b' \<and> m_bufs (sys_m s') b' = m_bufs (sys_m s) b' \<and>
          buffer_content (sys_m s') b' = buffer_content (sys_m s) b'"
        by (simp add: published_def open_of_mem o) (simp add: s')
    qed
    ultimately show ?thesis ..
  qed
qed

text \<open>Operations that change no buffer and no chunk, only who holds them.\<close>

lemma holders_changed:
  assumes inv: "sys_inv s" and m': "sbm_inv m'" "m_bufs m' = m_bufs (sys_m s)"
      "m_local m' = m_local (sys_m s)" "m_chunks m' = m_chunks (sys_m s)"
    and lv: "\<And>t b. open_of s' t = Some b \<Longrightarrow> open_of s t = Some b \<and> live m' b"
    and s': "sys_m s' = m'" "length (sys_open s') = length (sys_open s)"
  shows "sys_inv s' \<and> published_kept s s'"
proof -
  have "sys_inv s'"
    unfolding sys_inv_def
  proof (intro conjI allI impI)
    show "sbm_inv (sys_m s')" using m'(1) s'(1) by simp
    show "length (sys_open s') = length (m_local (sys_m s'))"
      using inv m'(3) s' by (simp add: sys_inv_def)
    fix t b assume "open_of s' t = Some b"
    then have "opened (sys_m s) t b" "live m' b" using lv inv by (auto simp: sys_inv_def)
    then show "opened (sys_m s') t b" using m' s'(1) by (simp add: opened_def)
  qed
  moreover have "published_kept s s'"
    using m'(2,4) lv s'(1)
    by (auto simp: published_kept_def published_def open_of_mem buffer_content_def Let_def)
  ultimately show ?thesis ..
qed

lemma exec_ok:
  assumes inv: "sys_inv s" and ex: "sb_exec op s = Some s'"
  shows "sys_inv s' \<and> published_kept s s'"
proof (cases op)
  case (OpOpen t sz)
  with assms exec_open_ok show ?thesis by blast
next
  case (OpWrite t off bs)
  with assms exec_write_ok show ?thesis by blast
next
  case (OpClose t n)
  with assms exec_close_ok show ?thesis by blast
next
  case (OpAbandon t)
  with ex obtain b where b: "open_of s t = Some b"
    and s': "s' = \<lparr>sys_m = buffer_release b (sys_m s), sys_open = (sys_open s)[t := None]\<rparr>"
    by (auto split: option.splits)
  have m: "sbm_inv (sys_m s)" and lv: "\<And>t b. open_of s t = Some b \<Longrightarrow> live (sys_m s) b"
    using inv by (auto simp: sys_inv_def opened_def)
  note R = release_spec [OF m lv [OF b]]
  have o: "open_of s t' = Some b' \<and> live (buffer_release b (sys_m s)) b'"
    if "open_of s' t' = Some b'" for t' b'
  proof -
    have o: "t' \<noteq> t" "open_of s t' = Some b'"
      using that open_of_less [OF b] by (auto simp: s' open_of_update split: if_splits)
    then have "b' \<noteq> b" using opened_distinct [OF inv b] by metis
    with o lv R(2) show ?thesis by simp
  qed
  show ?thesis
    by (rule holders_changed [OF inv R(1,3,4,5) o]) (simp_all add: s')
next
  case (OpRetain b)
  with ex have p: "published s b" and s': "s' = s\<lparr>sys_m := buffer_retain b (sys_m s)\<rparr>"
    by (auto split: if_splits)
  have m: "sbm_inv (sys_m s)" using inv by (simp add: sys_inv_def)
  have lv: "live (sys_m s) b" using p by (simp add: published_def)
  show ?thesis
    by (rule holders_changed [OF inv retain_spec(1,3,4,5) [OF m lv]])
      (use inv retain_spec(2) [OF m lv] in \<open>auto simp: s' sys_inv_def opened_def\<close>)
next
  case (OpRelease b)
  with ex have p: "published s b" and s': "s' = s\<lparr>sys_m := buffer_release b (sys_m s)\<rparr>"
    by (auto split: if_splits)
  have m: "sbm_inv (sys_m s)" using inv by (simp add: sys_inv_def)
  have lv: "live (sys_m s) b" using p by (simp add: published_def)
  have o: "open_of s t' = Some b' \<and> live (buffer_release b (sys_m s)) b'"
    if "open_of s' t' = Some b'" for t' b'
  proof -
    have "open_of s t' = Some b'" using that by (simp add: s')
    moreover from this have "b' \<noteq> b" using p by (auto simp: published_def open_of_mem)
    moreover have "live (sys_m s) b'"
      using inv calculation(1) by (auto simp: sys_inv_def opened_def)
    ultimately show ?thesis using release_spec(2) [OF m lv] by simp
  qed
  show ?thesis
    by (rule holders_changed [OF inv release_spec(1,3,4,5) [OF m lv] o]) (simp_all add: s')
qed

lemma sb_start_inv: "sb_start_state n s \<Longrightarrow> sys_inv s"
  using sbm_init_inv [of n]
  by (auto simp: sb_start_state_def sys_inv_def open_of_def sbm_init_def)

interpretation threads: inductive_invariant "sb_start_state n" sb_step sys_inv
  by unfold_locales (auto simp: sb_step_def dest: sb_start_inv exec_ok)

section \<open>Runs\<close>

fun sb_run :: "sb_op list \<Rightarrow> sb_sys \<Rightarrow> sb_sys option" where
  "sb_run [] s = Some s"
| "sb_run (op # ops) s = Option.bind (sb_exec op s) (sb_run ops)"

definition sb_start_of :: "nat \<Rightarrow> sb_sys" where
  "sb_start_of n = \<lparr>sys_m = sbm_init n, sys_open = replicate n None\<rparr>"

lemma sb_run_reachable:
  assumes "reachable (sb_start_state n) sb_step s" and "sb_run ops s = Some s'"
  shows "reachable (sb_start_state n) sb_step s'"
  using assms
proof (induction ops arbitrary: s)
  case (Cons op ops)
  from Cons.prems(2) obtain s1 where "sb_exec op s = Some s1" and run: "sb_run ops s1 = Some s'"
    by (auto simp: bind_eq_Some_conv)
  then have "sb_step s s1" by (auto simp: sb_step_def)
  with Cons.prems(1) have "reachable (sb_start_state n) sb_step s1" by (rule reachable_step)
  with run show ?case by (intro Cons.IH)
qed simp

lemma sb_run_start:
  assumes "sb_run ops (sb_start_of n) = Some s"
  shows "reachable (sb_start_state n) sb_step s" and "sys_inv s"
proof -
  show r: "reachable (sb_start_state n) sb_step s"
    by (rule sb_run_reachable [OF reachable_init assms])
      (simp add: sb_start_state_def sb_start_of_def)
  show "sys_inv s" using r by (rule threads.holds_when_reachable)
qed

lemmas sb_eval = sb_start_of_def sbm_init_def open_of_def published_def live_def
  SendBufferManager_Open_def refill_def SendBufferManager_Pop_def assign_local_def
  upd_chunk_def SendBufferChunk_Init_def chunk_open_at_def SendBufferChunk_Open_def
  SendBufferChunk_FreeSize_def SendBufferChunk_def SendBuffer_def SendBuffer_Close_def
  SendBufferChunk_Close_def buffer_write_def mem_write_def buffer_content_def buffer_retain_def

text \<open>Buffer numbers are never reused: a buffer that is live was live ever since its opening.\<close>

lemma exec_live_back:
  assumes inv: "sys_inv s" and ex: "sb_exec op s = Some s'"
  shows "m_nbufs (sys_m s) \<le> m_nbufs (sys_m s')"
    and "live (sys_m s') b \<Longrightarrow> b < m_nbufs (sys_m s) \<Longrightarrow> live (sys_m s) b"
proof -
  have m: "sbm_inv (sys_m s)" and len: "length (sys_open s) = length (m_local (sys_m s))"
    using inv by (auto simp: sys_inv_def)
  have "m_nbufs (sys_m s) \<le> m_nbufs (sys_m s') \<and>
    (\<forall>b. live (sys_m s') b \<longrightarrow> b < m_nbufs (sys_m s) \<longrightarrow> live (sys_m s) b)"
  proof (cases op)
    case (OpOpen t sz)
    with ex have t: "t < length (m_local (sys_m s))" "0 < sz" using len by (auto split: if_splits)
    obtain m1 c where v: "same_view t (sys_m s) m1" and
      "SendBufferManager_Open t sz (sys_m s) = Inr (None, m1) \<or>
       SendBufferManager_Open t sz (sys_m s) = Inr (Some (m_nbufs (sys_m s)), opened_from m1 c sz)"
      using Open_spec [OF m t] by (metis (full_types))
    with ex OpOpen have "sys_m s' = m1 \<or> sys_m s' = opened_from m1 c sz"
      by (auto split: if_splits)
    then show ?thesis
      using same_viewD(4,5) [OF v] by (auto simp: live_def opened_from_def split: if_splits)
  next
    case (OpWrite t off bs)
    with ex show ?thesis
      by (auto simp: live_def buffer_write_def Let_def bind_res_eq_Inr split: option.splits if_splits sum.splits)
  next
    case (OpClose t n)
    with ex show ?thesis
      by (auto simp: live_def SendBuffer_Close_def Let_def split: option.splits if_splits)
  next
    case (OpAbandon t)
    with ex show ?thesis
      by (auto simp: live_def buffer_release_def Let_def split: option.splits if_splits)
  next
    case (OpRetain b')
    with ex show ?thesis
      by (auto simp: live_def published_def buffer_retain_def split: if_splits)
  next
    case (OpRelease b')
    with ex show ?thesis
      by (auto simp: live_def buffer_release_def Let_def split: if_splits)
  qed
  then show "m_nbufs (sys_m s) \<le> m_nbufs (sys_m s')"
    and "live (sys_m s') b \<Longrightarrow> b < m_nbufs (sys_m s) \<Longrightarrow> live (sys_m s) b" by auto
qed

lemma run_published:
  assumes "sys_inv s" and "sb_run ops s = Some s'" and "published s b" and "live (sys_m s') b"
  shows "published s' b \<and> m_bufs (sys_m s') b = m_bufs (sys_m s) b \<and>
    buffer_content (sys_m s') b = buffer_content (sys_m s) b"
proof -
  have bk: "m_nbufs (sys_m s) \<le> m_nbufs (sys_m s') \<and>
      (live (sys_m s') b \<longrightarrow> b < m_nbufs (sys_m s) \<longrightarrow> live (sys_m s) b)"
    if "sys_inv s" "sb_run ops s = Some s'" for s ops
    using that
  proof (induction ops arbitrary: s)
    case (Cons op ops)
    then obtain s1 where 1: "sb_exec op s = Some s1" "sb_run ops s1 = Some s'"
      by (auto simp: bind_eq_Some_conv)
    with Cons exec_ok have "sys_inv s1" by blast
    with Cons.IH 1 exec_live_back [OF Cons.prems(1) 1(1)] show ?case
      by (metis order_less_le_trans order_trans)
  qed simp
  from assms show ?thesis
  proof (induction ops arbitrary: s)
    case (Cons op ops)
    then obtain s1 where 1: "sb_exec op s = Some s1" "sb_run ops s1 = Some s'"
      by (auto simp: bind_eq_Some_conv)
    have ok: "sys_inv s1" "published_kept s s1" using exec_ok [OF Cons.prems(1) 1(1)] by auto
    have "b < m_nbufs (sys_m s)" using Cons.prems(3) by (simp add: published_def live_def)
    then have "b < m_nbufs (sys_m s1)"
      using exec_live_back(1) [OF Cons.prems(1) 1(1)] by simp
    then have "live (sys_m s1) b" using bk [OF ok(1) 1(2)] Cons.prems(4) by blast
    then have "published s1 b \<and> m_bufs (sys_m s1) b = m_bufs (sys_m s) b \<and>
        buffer_content (sys_m s1) b = buffer_content (sys_m s) b"
      using ok(2) Cons.prems(3) by (simp add: published_kept_def)
    with Cons.IH [OF ok(1) 1(2) _ Cons.prems(4)] show ?case by simp
  qed simp
qed

text \<open>The bytes a live buffer may touch: all it was opened with, or what it was closed with.\<close>

definition reserved :: "sb_sys \<Rightarrow> bid \<Rightarrow> int set" where
  "reserved s b =
     (let sb = m_bufs (sys_m s) b in
      if Some b \<in> set (sys_open s) then {sb_start sb ..< sb_start sb + sb_freeSize sb}
      else extent sb)"

lemma reserved_bounds:
  assumes inv: "sys_inv s" and b: "buf_at (sys_m s) b c"
  shows "reserved s b \<subseteq> {0 ..< BUFFER_SIZE}"
    and "Some b \<notin> set (sys_open s) \<Longrightarrow> \<forall>x \<in> reserved s b. x < ck_usedSize (m_chunks (sys_m s) c)"
    and "Some b \<in> set (sys_open s) \<Longrightarrow> \<forall>x \<in> reserved s b. ck_usedSize (m_chunks (sys_m s) c) \<le> x"
proof -
  have core: "sbm_core (sys_m s)" and op: "\<And>t. open_of s t = Some b \<Longrightarrow> opened (sys_m s) t b"
    using inv by (auto simp: sys_inv_def sbm_inv_def)
  have c: "c < m_nchunks (sys_m s)" "sb_chunk (m_bufs (sys_m s) b) = c"
      "0 \<le> sb_start (m_bufs (sys_m s) b)"
      "sb_start (m_bufs (sys_m s) b) + sb_writeSize (m_bufs (sys_m s) b)
        \<le> ck_usedSize (m_chunks (sys_m s) c)"
    using core b by (auto simp: sbm_parts buf_at_def)
  have wf: "ck_usedSize (m_chunks (sys_m s) c) \<le> BUFFER_SIZE"
    using core c(1) by (auto simp: sbm_parts wf_chunk_def)
  have o: "sb_start (m_bufs (sys_m s) b) = ck_usedSize (m_chunks (sys_m s) c) \<and>
      ck_usedSize (m_chunks (sys_m s) c) + sb_freeSize (m_bufs (sys_m s) b) \<le> BUFFER_SIZE"
    if "Some b \<in> set (sys_open s)"
    using that op c(2) by (auto simp: open_of_mem opened_def Let_def)
  show "reserved s b \<subseteq> {0 ..< BUFFER_SIZE}"
    using c wf o by (auto simp: reserved_def extent_def Let_def)
  show "\<forall>x \<in> reserved s b. x < ck_usedSize (m_chunks (sys_m s) c)"
    if "Some b \<notin> set (sys_open s)" using that c by (auto simp: reserved_def extent_def Let_def)
  show "\<forall>x \<in> reserved s b. ck_usedSize (m_chunks (sys_m s) c) \<le> x"
    if "Some b \<in> set (sys_open s)" using that o by (auto simp: reserved_def Let_def)
qed

lemma reserved_disjoint:
  assumes inv: "sys_inv s" and b: "buf_at (sys_m s) b c" "buf_at (sys_m s) b' c" "b \<noteq> b'"
  shows "reserved s b \<inter> reserved s b' = {}"
proof -
  consider (both) "Some b \<in> set (sys_open s)" "Some b' \<in> set (sys_open s)"
    | (none) "Some b \<notin> set (sys_open s)" "Some b' \<notin> set (sys_open s)"
    | (one) "Some b \<in> set (sys_open s) \<longleftrightarrow> Some b' \<notin> set (sys_open s)" by blast
  then show ?thesis
  proof cases
    case both
    then obtain t t' where t: "open_of s t = Some b" "open_of s t' = Some b'"
      by (auto simp: open_of_mem)
    with b(3) have "t \<noteq> t'" by auto
    moreover have "t < length (m_local (sys_m s))" "t' < length (m_local (sys_m s))"
      using inv t open_of_less by (metis sys_inv_def)+
    moreover have "opened (sys_m s) t b" "opened (sys_m s) t' b'" using inv t by (auto simp: sys_inv_def)
    ultimately show ?thesis
      using inv b opened_other_chunk [of "sys_m s" t t' b c]
      by (auto simp: sys_inv_def opened_def buf_at_def Let_def)
  next
    case none
    then show ?thesis
      using inv b by (auto simp: reserved_def Let_def sys_inv_def sbm_inv_def sbm_parts)
  next
    case one
    have "x < y" if "x \<in> reserved s d" "y \<in> reserved s d'" "buf_at (sys_m s) d c"
      "buf_at (sys_m s) d' c" "Some d \<notin> set (sys_open s)" "Some d' \<in> set (sys_open s)" for x y d d'
      using reserved_bounds(2) [OF inv that(3,5)] reserved_bounds(3) [OF inv that(4,6)] that(1,2)
      by fastforce
    then show ?thesis using one b by fastforce
  qed
qed

section \<open>Properties\<close>

text \<open>
  C7: in every state the threads can reach, two live send buffers of one chunk never share a byte,
  an opened buffer's whole reservation included, and every buffer lies inside its 64 KB block.
\<close>

theorem send_buffers_disjoint:
  assumes "sb_run ops (sb_start_of n) = Some s" and "live (sys_m s) b" and "live (sys_m s) b'"
    and "b \<noteq> b'" and "sb_chunk (m_bufs (sys_m s) b) = sb_chunk (m_bufs (sys_m s) b')"
  shows "reserved s b \<inter> reserved s b' = {} \<and> reserved s b \<subseteq> {0 ..< BUFFER_SIZE}"
  using assms sb_run_start(2) [OF assms(1)] reserved_disjoint reserved_bounds(1)
  by (auto simp: buf_at_def)

theorem send_buffers_disjoint_witness:
  "\<exists>s. sb_run [OpOpen 0 10, OpClose 0 2, OpOpen 0 10] (sb_start_of 1) = Some s \<and>
     reserved s 0 = {0 ..< 2} \<and> reserved s 1 = {2 ..< 12} \<and> reserved s 0 \<inter> reserved s 1 = {}"
proof -
  obtain s where s: "sb_run [OpOpen 0 10, OpClose 0 2, OpOpen 0 10] (sb_start_of 1) = Some s"
    and l: "live (sys_m s) 0" "live (sys_m s) 1"
      "sb_chunk (m_bufs (sys_m s) 0) = sb_chunk (m_bufs (sys_m s) 1)"
    and r: "reserved s 0 = {0 ..< 2}" "reserved s 1 = {2 ..< 12}"
    by (simp add: sb_eval BUFFER_SIZE_def Let_def reserved_def extent_def)
  show ?thesis using send_buffers_disjoint [OF s l(1,2) _ l(3)] s r by auto
qed

text \<open>
  C8: a send buffer that has been closed keeps its region and its bytes for as long as anyone
  holds it, whatever all the threads open, write, close, copy and destroy meanwhile.
\<close>

theorem published_bytes_stable:
  assumes "sb_run ops (sb_start_of n) = Some s" and "published s b"
    and "sb_run ops' s = Some s'" and "live (sys_m s') b"
  shows "buffer_content (sys_m s') b = buffer_content (sys_m s) b \<and>
    m_bufs (sys_m s') b = m_bufs (sys_m s) b"
  using run_published [OF sb_run_start(2) [OF assms(1)] assms(3,2,4)] by blast

theorem published_bytes_stable_witness:
  "\<exists>s s'. sb_run [OpOpen 0 10, OpWrite 0 0 [7, 8], OpClose 0 2] (sb_start_of 1) = Some s \<and>
     sb_run [OpOpen 0 10, OpWrite 0 0 [9, 9, 9], OpClose 0 3] s = Some s' \<and>
     buffer_content (sys_m s) 0 = [7, 8] \<and> buffer_content (sys_m s') 0 = [7, 8]"
proof -
  obtain s s' where s: "sb_run [OpOpen 0 10, OpWrite 0 0 [7, 8], OpClose 0 2] (sb_start_of 1) = Some s"
    "sb_run [OpOpen 0 10, OpWrite 0 0 [9, 9, 9], OpClose 0 3] s = Some s'"
    "published s 0" "live (sys_m s') 0" "buffer_content (sys_m s) 0 = [7, 8]"
    by (simp add: sb_eval BUFFER_SIZE_def Let_def window_def overwrite_def)
  show ?thesis using published_bytes_stable [OF s(1,3,2,4)] s by auto
qed

text \<open>
  C9: no chunk is lost and none is handed out twice: every chunk ever allocated is in the pool, is
  some thread's chunk or is kept alive by a send buffer, and a pooled chunk is neither of the
  latter.
\<close>

theorem no_chunk_lost:
  assumes "sb_run ops (sb_start_of n) = Some s" and "c < m_nchunks (sys_m s)"
  shows "chunk_referenced (sys_m s) c \<and>
    (c \<in> set (m_pool (sys_m s)) \<longrightarrow> Some c \<notin> set (m_local (sys_m s)) \<and>
       (\<forall>b. live (sys_m s) b \<longrightarrow> sb_chunk (m_bufs (sys_m s) b) \<noteq> c))"
proof -
  have "sbm_core (sys_m s)" and held: "all_held (sys_m s) {}"
    using sb_run_start(2) [OF assms(1)] by (auto simp: sys_inv_def sbm_inv_def)
  then have "locals_ok (sys_m s)" "bufs_ok (sys_m s)" by (auto simp: sbm_core_def)
  then have "c \<in> set (m_pool (sys_m s)) \<longrightarrow> Some c \<notin> set (m_local (sys_m s)) \<and>
       (\<forall>b. live (sys_m s) b \<longrightarrow> sb_chunk (m_bufs (sys_m s) b) \<noteq> c)"
    unfolding locals_ok_def bufs_ok_def buf_at_def by (metis in_set_conv_nth)
  with held assms(2) show ?thesis by (simp add: all_held_def)
qed

theorem no_chunk_lost_witness:
  "\<exists>s. sb_run [OpOpen 0 40000, OpClose 0 40000, OpOpen 0 40000, OpRelease 0] (sb_start_of 1) = Some s \<and>
     m_nchunks (sys_m s) = 2 \<and> chunk_referenced (sys_m s) 0"
proof -
  obtain s where s: "sb_run [OpOpen 0 40000, OpClose 0 40000, OpOpen 0 40000, OpRelease 0] (sb_start_of 1) = Some s"
    "m_nchunks (sys_m s) = 2"
    by (simp add: sb_eval BUFFER_SIZE_def Let_def drop_chunk_ref_def chunk_referenced_def
        buffer_release_def SendBufferManager_PushGlobal_def SendBufferManager_Push_def)
  show ?thesis using no_chunk_lost [OF s(1), of 0] s by auto
qed

text \<open>
  \<^verbatim>\<open>SendBufferManager::Open\<close> never faults on a positive size; it returns a buffer of
  exactly that size, not in use before, unless the size exceeds a chunk or the thread has left its
  chunk open.
\<close>

theorem Open_result:
  assumes "sb_run ops (sb_start_of n) = Some s" and "t < length (sys_open s)" and "0 < sz"
  shows "\<exists>ob m'. SendBufferManager_Open t sz (sys_m s) = Inr (ob, m') \<and>
    (case ob of
       None \<Rightarrow> sz > BUFFER_SIZE \<or> own_chunk_open (sys_m s) t
     | Some b \<Rightarrow> sz \<le> BUFFER_SIZE \<and> \<not> own_chunk_open (sys_m s) t \<and> \<not> live (sys_m s) b \<and>
         opened m' t b \<and> sb_freeSize (m_bufs m' b) = sz)"
proof -
  have m: "sbm_inv (sys_m s)" and t: "t < length (m_local (sys_m s))"
    using sb_run_start(2) [OF assms(1)] assms(2) by (auto simp: sys_inv_def)
  obtain m1 where m1: "sbm_inv m1" "same_view t (sys_m s) m1" and cs:
    "if sz > BUFFER_SIZE \<or> own_chunk_open (sys_m s) t
     then SendBufferManager_Open t sz (sys_m s) = Inr (None, m1)
     else \<exists>c. m_local m1 ! t = Some c \<and> \<not> ck_open (m_chunks m1 c) \<and>
            sz \<le> SendBufferChunk_FreeSize (m_chunks m1 c) \<and>
            SendBufferManager_Open t sz (sys_m s) = Inr (Some (m_nbufs (sys_m s)), opened_from m1 c sz)"
    using Open_spec [OF m t assms(3)] by blast
  show ?thesis
  proof (cases "sz > BUFFER_SIZE \<or> own_chunk_open (sys_m s) t")
    case True
    with cs show ?thesis by auto
  next
    case False
    with cs obtain c where c: "m_local m1 ! t = Some c" "\<not> ck_open (m_chunks m1 c)"
      "sz \<le> SendBufferChunk_FreeSize (m_chunks m1 c)"
      "SendBufferManager_Open t sz (sys_m s) = Inr (Some (m_nbufs (sys_m s)), opened_from m1 c sz)"
      by auto
    have "t < length (m_local m1)" using t same_viewD(1) [OF m1(2)] by simp
    then have "opened (opened_from m1 c sz) t (m_nbufs (sys_m s))"
      using opened_from_spec(2) [OF m1(1) _ c(1,2) assms(3) c(3)] same_viewD(5) [OF m1(2)] by simp
    moreover have "sb_freeSize (m_bufs (opened_from m1 c sz) (m_nbufs (sys_m s))) = sz"
      using same_viewD(5) [OF m1(2)] by (simp add: opened_from_def SendBuffer_def)
    ultimately show ?thesis using c(4) False by (auto simp: live_def)
  qed
qed

theorem Open_result_witness:
  "\<exists>b m'. SendBufferManager_Open 0 4096 (sbm_init 1) = Inr (Some b, m')"
  using Open_result [of "[]" 1 "sb_start_of 1" 0 4096]
  by (auto simp: sb_start_of_def BUFFER_SIZE_def own_chunk_open_def sbm_init_def split: option.splits)

end
