(* ===== verification/Packet_Handler.thy ===== *)
theory Packet_Handler
  imports Packet_Session Send_Buffer_Threads
begin

text \<open>
  Dispatch and construction of packets, \<^verbatim>\<open>ServerCore/PacketHandler.{h,cpp}\<close>: the table of
  handlers indexed by the packet id, the template that parses a payload and calls a handler, and
  the template that serialises a message into a send buffer. A message class is a record of the
  three functions the templates call; \<^verbatim>\<open>Zero_Fields\<close> provides it for the classes of the
  protocol.
\<close>

record 'm message_class =
  ByteSizeLong :: "'m \<Rightarrow> nat"
  SerializeToArray :: "'m \<Rightarrow> int \<Rightarrow> byte list option"
  ParseFromArray :: "byte list \<Rightarrow> bool \<times> 'm"

section \<open>The table\<close>

definition UINT16_MAX :: nat where
  "UINT16_MAX = 65535"

text \<open>The static array: every \<^verbatim>\<open>std::function\<close> starts empty.\<close>

definition packetHandlers :: "'h option list" where
  "packetHandlers = replicate UINT16_MAX None"

definition PacketHandler_Init :: "'h \<Rightarrow> 'h option list \<Rightarrow> 'h option list" where
  "PacketHandler_Init invalid tbl = fold (\<lambda>i tbl. tbl[i := Some invalid]) [0..<UINT16_MAX] tbl"

text \<open>\<^verbatim>\<open>packetHandlers[header->id](session, buffer, len)\<close>\<close>

definition PacketHandler_HandlePacket ::
    "('h \<Rightarrow> int \<Rightarrow> int \<Rightarrow> 's \<Rightarrow> (bool \<times> 's) run) \<Rightarrow> 'h option list \<Rightarrow> byte list \<Rightarrow> int \<Rightarrow> int \<Rightarrow> 's \<Rightarrow>
     (bool \<times> 's) run" where
  "PacketHandler_HandlePacket invoke tbl mem buffer len s =
     (case read_header mem buffer of
        Inl e \<Rightarrow> Some (Inl e)
      | Inr header \<Rightarrow>
          let i = unat (ph_id header) in
          if \<not> i < length tbl then Some (Inl OutOfBounds)
          else (case tbl ! i of None \<Rightarrow> Some (Inl BadFunctionCall) | Some h \<Rightarrow> invoke h buffer len s))"

text \<open>
  The template: the payload is \<^verbatim>\<open>len - sizeof(PacketHeader)\<close> bytes, a \<^verbatim>\<open>size_t\<close>
  difference passed as an \<^verbatim>\<open>int\<close>. The result of \<^verbatim>\<open>ParseFromArray\<close> is ignored.
\<close>

definition HandlePacket ::
    "'m message_class \<Rightarrow> ('m \<Rightarrow> 's \<Rightarrow> (bool \<times> 's) run) \<Rightarrow> byte list \<Rightarrow> int \<Rightarrow> int \<Rightarrow> 's \<Rightarrow> (bool \<times> 's) run" where
  "HandlePacket M func mem buffer len s =
     (case mem_read mem (buffer + 4) (int_of_size_t (size_t_of_int len - sizeof_PacketHeader)) of
        Inl e \<Rightarrow> Some (Inl e)
      | Inr payload \<Rightarrow> func (snd (ParseFromArray M payload)) s)"

section \<open>Making a packet\<close>

definition MakeSendBuffer :: "'m message_class \<Rightarrow> 'm \<Rightarrow> uint16 \<Rightarrow> tid \<Rightarrow> sbm \<Rightarrow> (bid option \<times> sbm) res" where
  "MakeSendBuffer M packet pid t m =
     (let dataSize = (word_of_nat (ByteSizeLong M packet) :: uint16);
          packetSize = dataSize + 4 in
      bind_res (SendBufferManager_Open t 4096 m) (\<lambda>(sendBuffer, m1).
        case sendBuffer of
          None \<Rightarrow> Inl NullDeref
        | Some b \<Rightarrow>
            bind_res (buffer_write b 0 (header_bytes \<lparr>ph_size = packetSize, ph_id = pid\<rparr>) m1) (\<lambda>m2.
              case SerializeToArray M packet (uint dataSize) of
                None \<Rightarrow> Inr (None, buffer_release b (snd (SendBuffer_Close b 0 m2)))
              | Some bytes \<Rightarrow>
                  bind_res (buffer_write b 4 bytes m2) (\<lambda>m3.
                    case SendBuffer_Close b (uint packetSize) m3 of (closed, m4) \<Rightarrow>
                      if \<not> closed then Inr (None, buffer_release b m4) else Inr (Some b, m4)))))"

section \<open>The table after initialisation\<close>

lemma fold_update_all:
  "n \<le> length tbl \<Longrightarrow> fold (\<lambda>i tbl. tbl[i := x]) [0..<n] tbl = replicate n x @ drop n tbl"
proof (induction n)
  case (Suc n)
  then have "(replicate n x @ drop n tbl)[n := x] = replicate (Suc n) x @ drop (Suc n) tbl"
    by (simp add: list_update_append Cons_nth_drop_Suc [symmetric] replicate_append_same [symmetric])
  with Suc show ?case by simp
qed simp

lemma PacketHandler_Init_eq:
  "length tbl = UINT16_MAX \<Longrightarrow> PacketHandler_Init h tbl = replicate UINT16_MAX (Some h)"
  by (simp add: PacketHandler_Init_def fold_update_all)

lemma int_of_payload_size:
  assumes "in_int32 (len - 4)"
  shows "int_of_size_t (size_t_of_int len - sizeof_PacketHeader) = len - 4"
proof -
  have u: "(ucast (word_of_int x :: uint64) :: uint32) = word_of_int x" for x
    by (rule bit_word_eqI) (simp add: bit_simps)
  have v: "sint (word_of_int x :: uint32) = x" if "in_int32 x" for x
    using that by (simp add: sint_sbintrunc' signed_take_bit_int_eq_self in_int32_def)
  have "size_t_of_int len - sizeof_PacketHeader = word_of_int (len - 4)"
    by (simp add: size_t_of_int_def sizeof_PacketHeader_def)
  then have "int_of_size_t (size_t_of_int len - sizeof_PacketHeader) =
      sint (word_of_int (len - 4) :: uint32)"
    by (simp only: int_of_size_t_def u)
  also have "\<dots> = len - 4" by (rule v [OF assms])
  finally show ?thesis .
qed

section \<open>What \<^verbatim>\<open>MakeSendBuffer\<close> makes\<close>

text \<open>The sizes \<^verbatim>\<open>MakeSendBuffer\<close> computes at 16 bits, for a message whose packet fits a size field.\<close>

lemma packet_sizes:
  fixes n :: nat
  shows "word_of_nat n + 4 = (word_of_nat (4 + n) :: uint16)"
    and "n < 65532 \<Longrightarrow> uint (word_of_nat n :: uint16) = int n"
    and "n < 65532 \<Longrightarrow> uint (word_of_nat (4 + n) :: uint16) = 4 + int n"
  by (simp_all add: uint_nat unat_of_nat del: of_nat_add) simp

text \<open>A step of one thread that leaves every live buffer, or every one but \<open>b\<close>, as it was.\<close>

definition kept_but :: "bid \<Rightarrow> sbm \<Rightarrow> sbm \<Rightarrow> bool" where
  "kept_but b m m' \<longleftrightarrow> (\<forall>b'. b' \<noteq> b \<longrightarrow> live m b' \<longrightarrow>
     live m' b' \<and> m_brefs m' b' = m_brefs m b' \<and> buffer_content m' b' = buffer_content m b')"

definition kept :: "sbm \<Rightarrow> sbm \<Rightarrow> bool" where
  "kept m m' \<longleftrightarrow> (\<forall>b'. live m b' \<longrightarrow>
     live m' b' \<and> m_brefs m' b' = m_brefs m b' \<and> buffer_content m' b' = buffer_content m b')"

definition fresh_open :: "sbm \<Rightarrow> tid \<Rightarrow> int \<Rightarrow> bid \<Rightarrow> sbm \<Rightarrow> bool" where
  "fresh_open m t sz b m1 \<longleftrightarrow> sbm_inv m1 \<and> opened m1 t b \<and> sb_freeSize (m_bufs m1 b) = sz \<and>
     m_brefs m1 b = 1 \<and> \<not> live m b \<and> kept m m1 \<and> t < length (m_local m1) \<and>
     length (m_local m1) = length (m_local m)"

lemma open_fresh:
  assumes inv: "sbm_inv m" and t: "t < length (m_local m)" and cl: "\<not> own_chunk_open m t"
    and sz: "0 < sz" "sz \<le> BUFFER_SIZE"
  shows "\<exists>b m1. SendBufferManager_Open t sz m = Inr (Some b, m1) \<and> fresh_open m t sz b m1"
proof -
  obtain m0 c where m0: "sbm_inv m0" "same_view t m m0" and c: "m_local m0 ! t = Some c"
      "\<not> ck_open (m_chunks m0 c)" "sz \<le> SendBufferChunk_FreeSize (m_chunks m0 c)"
    and op: "SendBufferManager_Open t sz m = Inr (Some (m_nbufs m), opened_from m0 c sz)"
    using Open_spec [OF inv t sz(1)] cl sz(2) by (auto split: if_splits)
  note v = same_viewD(1,3,4,5) [OF m0(2)]
  have t0: "t < length (m_local m0)" using t v(1) by simp
  note O = opened_from_spec [OF m0(1) t0 c(1,2) sz(1) c(3), unfolded v(4)]
  have "kept m (opened_from m0 c sz)"
    unfolding kept_def
  proof (intro allI impI)
    fix b assume b: "live m b"
    then have b0: "live m0 b" using same_view_bufs [OF m0(2)] by simp
    moreover have "m_brefs (opened_from m0 c sz) b = m_brefs m b"
      using b v(3,4) by (auto simp: opened_from_def live_def)
    ultimately show "live (opened_from m0 c sz) b \<and> m_brefs (opened_from m0 c sz) b = m_brefs m b \<and>
        buffer_content (opened_from m0 c sz) b = buffer_content m b"
      using O(3,4) same_view_content [OF m0(2) inv b] by simp
  qed
  then have "fresh_open m t sz (m_nbufs m) (opened_from m0 c sz)"
    using O(1,2) t0 v by (simp add: fresh_open_def live_def opened_from_def SendBuffer_def)
  with op show ?thesis by blast
qed

lemma opened_bounds:
  assumes "sbm_inv m" and "opened m t b"
  shows "0 \<le> sb_start (m_bufs m b)" and "sb_start (m_bufs m b) + sb_freeSize (m_bufs m b) \<le>
    int (length (ck_buffer (m_chunks m (sb_chunk (m_bufs m b)))))"
proof -
  let ?c = "sb_chunk (m_bufs m b)"
  have core: "sbm_core m" using assms(1) by (simp add: sbm_inv_def)
  have "buf_at m b ?c" using assms(2) by (simp add: opened_def buf_at_def)
  then have "?c < m_nchunks m" and s: "0 \<le> sb_start (m_bufs m b)" using core by (auto simp: sbm_parts)
  then have "wf_chunk (m_chunks m ?c)" using core by (auto simp: sbm_parts)
  with s show "0 \<le> sb_start (m_bufs m b)" "sb_start (m_bufs m b) + sb_freeSize (m_bufs m b) \<le>
      int (length (ck_buffer (m_chunks m ?c)))"
    using assms(2) by (auto simp: opened_def Let_def wf_chunk_def)
qed

text \<open>Writing a header and a payload that fit into a fresh buffer, and closing it.\<close>

lemma fill_and_close:
  assumes F: "fresh_open m t sz b m1" and len: "length h = 4" "4 + int (length bs) \<le> sz"
  shows "\<exists>m2 m3 m4. buffer_write b 0 h m1 = Inr m2 \<and> buffer_write b 4 bs m2 = Inr m3 \<and>
    SendBuffer_Close b (4 + int (length bs)) m3 = (True, m4) \<and> sbm_inv m4 \<and> live m4 = live m1 \<and>
    m_brefs m4 = m_brefs m1 \<and> m_local m4 = m_local m1 \<and> \<not> own_chunk_open m4 t \<and>
    buffer_content m4 b = h @ bs \<and> kept_but b m1 m4"
proof -
  have 1: "sbm_inv m1" "t < length (m_local m1)" "opened m1 t b" "sb_freeSize (m_bufs m1 b) = sz"
    using F by (auto simp: fresh_open_def)
  let ?c = "sb_chunk (m_bufs m1 b)" and ?st = "sb_start (m_bufs m1 b)" and ?n = "length bs"
  obtain m2 where m2: "buffer_write b 0 h m1 = Inr m2" "sbm_inv m2" "m_local m2 = m_local m1"
      "m_bufs m2 = m_bufs m1" "opened m2 t b" "live m2 = live m1"
      "ck_buffer (m_chunks m2 ?c) = overwrite (nat ?st) h (ck_buffer (m_chunks m1 ?c))"
    and k2: "\<forall>b'. live m1 b' \<longrightarrow> buffer_content m2 b' = buffer_content m1 b'"
    using write_spec [OF 1(1-3), of 0 h] 1(3,4) len by auto
  have t2: "t < length (m_local m2)" using 1(2) m2(3) by simp
  obtain m3 where m3: "buffer_write b 4 bs m2 = Inr m3" "sbm_inv m3" "m_local m3 = m_local m2"
      "m_bufs m3 = m_bufs m2" "opened m3 t b" "live m3 = live m2"
      "ck_buffer (m_chunks m3 ?c) = overwrite (nat (?st + 4)) bs (ck_buffer (m_chunks m2 ?c))"
    and k3: "\<forall>b'. live m2 b' \<longrightarrow> buffer_content m3 b' = buffer_content m2 b'"
    using write_spec [OF m2(2) t2 m2(5), of 4 bs] m2(4,5) 1(4) len by auto
  obtain closed m4 where cl4: "SendBuffer_Close b (4 + int ?n) m3 = (closed, m4)" by force
  have t3: "t < length (m_local m3)" using t2 m3(3) by simp
  note C = Close_spec [OF m3(2) t3 m3(5) _ _ cl4]
  have C': "closed" "sbm_inv m4" "live m4 = live m3" "m_local m4 = m_local m3" "\<not> own_chunk_open m4 t"
    "buffer_content m4 b = window (nat ?st) (nat (4 + int ?n)) (ck_buffer (m_chunks m3 ?c))"
    "\<And>b'. b' \<noteq> b \<Longrightarrow> buffer_content m4 b' = buffer_content m3 b'"
    using C(1,2,3,4,7,9,6) 1(4) len m3(4) m2(4) by auto
  have refs: "m_brefs m4 = m_brefs m1"
    using cl4 m3(1) m2(1)
    by (auto simp: SendBuffer_Close_def buffer_write_def Let_def bind_res_eq_Inr split: if_splits)
  note st = opened_bounds [OF 1(1,3)]
  have n4: "nat (?st + 4) = nat ?st + 4" "nat (4 + int ?n) = 4 + ?n"
    "nat ?st + 4 + ?n \<le> length (ck_buffer (m_chunks m1 ?c))" using st 1(4) len(2) by auto
  let ?m = "overwrite (nat ?st) h (ck_buffer (m_chunks m1 ?c))"
  have "buffer_content m4 b = window (nat ?st) (4 + ?n) (overwrite (nat ?st + 4) bs ?m)"
    using C'(6) m3(7) m2(7) by (simp add: n4)
  also have "\<dots> = window (nat ?st) 4 ?m @ bs"
    unfolding window_append using n4(3) len(1)
    by (simp add: window_overwrite_before window_overwrite_same)
  also have "window (nat ?st) 4 ?m = h"
    using window_overwrite_same [of "nat ?st" "ck_buffer (m_chunks m1 ?c)" h] len(1) n4(3) by simp
  finally have "buffer_content m4 b = h @ bs" .
  moreover have "kept_but b m1 m4"
    using C'(3,7) k2 k3 m2(6) m3(6) refs by (simp add: kept_but_def)
  ultimately show ?thesis
    using m2(1) m3(1) cl4 C' refs m2(3,6) m3(3,6) by auto
qed

text \<open>
  The contract of a message class that the templates rely on: serialising into a large enough
  array yields as many bytes as announced.
\<close>

locale message_contract =
  fixes M :: "'m message_class"
    and ok :: "'m \<Rightarrow> bool"
  assumes serialize_law: "ok x \<Longrightarrow> ByteSizeLong M x < 2 ^ 31 \<Longrightarrow> int (ByteSizeLong M x) \<le> n \<Longrightarrow>
      \<exists>bs. SerializeToArray M x n = Some bs \<and> length bs = ByteSizeLong M x \<and> ParseFromArray M bs = (True, x)"
    and short_law: "ok x \<Longrightarrow> n < int (ByteSizeLong M x) \<Longrightarrow> SerializeToArray M x n = None"

text \<open>
  A message that fits: the thread's allocator yields a fresh buffer, and the bytes between opening
  and closing are the header and the serialised message.
\<close>

context message_contract
begin

lemma make_ok:
  assumes inv: "sbm_inv m" and t: "t < length (m_local m)" and cl: "\<not> own_chunk_open m t"
    and p: "ok x" "ByteSizeLong M x \<le> 4092"
  shows "\<exists>b m' bs. MakeSendBuffer M x pid t m = Inr (Some b, m') \<and> sbm_inv m' \<and>
    \<not> live m b \<and> live m' b \<and> m_brefs m' b = 1 \<and> kept m m' \<and>
    ParseFromArray M bs = (True, x) \<and> length bs = ByteSizeLong M x \<and>
    buffer_content m' b = packet_bytes \<lparr>pk_id = pid, pk_data = bs\<rparr> \<and>
    \<not> own_chunk_open m' t \<and> length (m_local m') = length (m_local m)"
proof -
  let ?n = "ByteSizeLong M x"
  let ?h = "header_bytes \<lparr>ph_size = word_of_nat (4 + ?n), ph_id = pid\<rparr>"
  note sizes = packet_sizes [of ?n]
  obtain bs where bs: "SerializeToArray M x (int ?n) = Some bs" "length bs = ?n"
      "ParseFromArray M bs = (True, x)"
    using serialize_law [OF p(1), of "int ?n"] p(2) by auto
  obtain b m1 where op: "SendBufferManager_Open t 4096 m = Inr (Some b, m1)" and F: "fresh_open m t 4096 b m1"
    using open_fresh [OF inv t cl, of 4096] by (auto simp: BUFFER_SIZE_def)
  obtain m2 m3 m4 where steps: "buffer_write b 0 ?h m1 = Inr m2" "buffer_write b 4 bs m2 = Inr m3"
      "SendBuffer_Close b (4 + int ?n) m3 = (True, m4)"
    and R: "sbm_inv m4" "live m4 = live m1" "m_brefs m4 = m_brefs m1" "m_local m4 = m_local m1"
      "\<not> own_chunk_open m4 t" "buffer_content m4 b = ?h @ bs" and k4: "kept_but b m1 m4"
    using fill_and_close [OF F, of ?h bs] bs(2) p(2) by auto
  have "MakeSendBuffer M x pid t m = Inr (Some b, m4)"
    unfolding MakeSendBuffer_def Let_def sizes(1) op
    using steps bs(1) sizes(2,3) p(2) by simp
  moreover have "kept m m4"
    using F k4 unfolding fresh_open_def kept_def kept_but_def by metis
  ultimately show ?thesis
    using R F bs by (auto simp: fresh_open_def opened_def packet_bytes_def)
qed

text \<open>
  A message of more than 4092 bytes is written past the 4096 bytes that were opened, into memory of
  the chunk nobody has been given or past its end; then \<^verbatim>\<open>Close\<close> refuses, and the thread's
  chunk stays open for good.
\<close>

lemma make_oversize:
  assumes inv: "sbm_inv m" and t: "t < length (m_local m)" and cl: "\<not> own_chunk_open m t"
    and p: "ok x" "4092 < ByteSizeLong M x" "ByteSizeLong M x < 65532"
  shows "MakeSendBuffer M x pid t m = Inl OutOfBounds \<or>
    (\<exists>m'. MakeSendBuffer M x pid t m = Inr (None, m') \<and> own_chunk_open m' t)"
proof -
  let ?n = "ByteSizeLong M x"
  let ?h = "header_bytes \<lparr>ph_size = word_of_nat (4 + ?n), ph_id = pid\<rparr>"
  note sizes = packet_sizes [of ?n]
  obtain bs where bs: "SerializeToArray M x (int ?n) = Some bs"
    using serialize_law [OF p(1), of "int ?n"] p(3) by auto
  obtain b m1 where op: "SendBufferManager_Open t 4096 m = Inr (Some b, m1)" and F: "fresh_open m t 4096 b m1"
    using open_fresh [OF inv t cl, of 4096] by (auto simp: BUFFER_SIZE_def)
  have F': "sbm_inv m1" "t < length (m_local m1)" "opened m1 t b" "sb_freeSize (m_bufs m1 b) = 4096"
    using F by (auto simp: fresh_open_def)
  obtain m2 where m2: "buffer_write b 0 ?h m1 = Inr m2" "m_bufs m2 = m_bufs m1" "opened m2 t b"
    using write_spec [OF F'(1-3), of 0 ?h] F'(3,4) by auto
  show ?thesis
  proof (cases "buffer_write b 4 bs m2")
    case (Inl e)
    then have "e = OutOfBounds"
      by (auto simp: buffer_write_def Let_def mem_write_def bind_res_def split: if_splits sum.splits)
    then have "MakeSendBuffer M x pid t m = Inl OutOfBounds"
      unfolding MakeSendBuffer_def Let_def sizes(1) op using m2(1) bs Inl sizes(2,3) p(3) by simp
    then show ?thesis ..
  next
    case (Inr m3)
    then have m3: "m_bufs m3 = m_bufs m2" "m_local m3 = m_local m2"
        "\<And>c. ck_open (m_chunks m3 c) = ck_open (m_chunks m2 c)"
      by (auto simp: buffer_write_def Let_def bind_res_eq_Inr upd_chunk_def split: if_splits)
    have "SendBuffer_Close b (4 + int ?n) m3 = (False, m3)"
      using p(2) m3(1) m2(2) F'(4) by (simp add: SendBuffer_Close_def)
    then have "MakeSendBuffer M x pid t m = Inr (None, buffer_release b m3)"
      unfolding MakeSendBuffer_def Let_def sizes(1) op
      using m2(1) bs Inr sizes(2,3) p(3) by simp
    moreover have "own_chunk_open (buffer_release b m3) t"
      using m2(3) m3 by (auto simp: own_chunk_open_def opened_def Let_def buffer_release_def)
    ultimately show ?thesis by blast
  qed
qed

end

text \<open>With its chunk left open a thread can make no packet any more: the null result is used.\<close>

lemma make_own_open:
  assumes "own_chunk_open m t"
  shows "MakeSendBuffer M x pid t m = Inl NullDeref"
  using assms
  by (auto simp: MakeSendBuffer_def SendBufferManager_Open_def own_chunk_open_def Let_def)

end
