(* ===== verification/Zero_Fields.thy ===== *)
theory Zero_Fields
  imports Unknown_Parse Packet_Handler
begin

unbundle bit_operations_syntax

text \<open>
  The messages of the protocol: \<^verbatim>\<open>C_LOGIN\<close> and \<^verbatim>\<open>S_LOGIN\<close> have no fields, so
  everything they do is \<^verbatim>\<open>ZeroFieldsBase\<close> (\<^verbatim>\<open>generated_message_bases.cc\<close>)
  over the metadata with the unknown fields (\<^verbatim>\<open>metadata_lite.h\<close>), below the entry points of
  \<^verbatim>\<open>MessageLite\<close> (\<^verbatim>\<open>message_lite.{h,cc}\<close>). A message is the container of its
  unknown fields, \<open>None\<close> before one is made; no arena is used, and the cached size is left out.
\<close>

type_synonym zero_message = "fields option"

section \<open>\<^verbatim>\<open>InternalMetadata\<close>\<close>

definition have_unknown_fields :: "zero_message \<Rightarrow> bool" where
  "have_unknown_fields m \<longleftrightarrow> m \<noteq> None"

text \<open>The fields, or those of the default instance or of a fresh container.\<close>

definition unknown_fields :: "zero_message \<Rightarrow> fields" where
  "unknown_fields m = (case m of None \<Rightarrow> [] | Some u \<Rightarrow> u)"

definition Metadata_Clear :: "zero_message \<Rightarrow> zero_message" where
  "Metadata_Clear m = (if have_unknown_fields m then Some (UnknownFieldSet_Clear (unknown_fields m)) else m)"

definition Metadata_MergeFrom :: "zero_message \<Rightarrow> zero_message \<Rightarrow> zero_message" where
  "Metadata_MergeFrom m other =
     (if have_unknown_fields other
      then Some (UnknownFieldSet_MergeFrom (unknown_fields m) (unknown_fields other)) else m)"

definition Metadata_Swap :: "zero_message \<Rightarrow> zero_message \<Rightarrow> zero_message \<times> zero_message" where
  "Metadata_Swap m other =
     (if have_unknown_fields m \<or> have_unknown_fields other
      then (Some (unknown_fields other), Some (unknown_fields m)) else (m, other))"

section \<open>\<^verbatim>\<open>ZeroFieldsBase\<close>\<close>

definition Zero_Clear :: "zero_message \<Rightarrow> zero_message" where
  "Zero_Clear m = Metadata_Clear m"

definition Zero_ByteSizeLong :: "zero_message \<Rightarrow> nat" where
  "Zero_ByteSizeLong m = (if have_unknown_fields m then 0 + ComputeUnknownFieldsSize (unknown_fields m) else 0)"

fun Zero_InternalParse ::
    "nat \<Rightarrow> cptr \<Rightarrow> parse_ctx \<Rightarrow> zero_message \<Rightarrow> (cptr option \<times> parse_ctx \<times> zero_message) run" where
  "Zero_InternalParse 0 p c m = None"
| "Zero_InternalParse (Suc k) p c m =
     bind_run (Done p c) (\<lambda>(q, done, c1).
       if done then ret (q, c1, m)
       else case q of
         None \<Rightarrow> Some (Inl NullDeref)
       | Some p1 \<Rightarrow>
           bind_run (Some (read_at ReadTag p1 c1)) (\<lambda>r.
             case r of
               None \<Rightarrow> ret (None, c1, m)
             | Some (p2, tag) \<Rightarrow>
                 if tag = 0 \<or> tag AND 7 = 4 then ret (Some p2, SetLastTag tag c1, m)
                 else
                   bind_run (UnknownFieldParse k tag (unknown_fields m) p2 c1) (\<lambda>(q3, c3, u3).
                     case q3 of
                       None \<Rightarrow> ret (None, c3, Some u3)
                     | Some p3 \<Rightarrow> Zero_InternalParse k p3 c3 (Some u3))))"

definition Zero_InternalSerialize :: "zero_message \<Rightarrow> ptr \<Rightarrow> eps_out \<Rightarrow> (ptr \<times> eps_out) run" where
  "Zero_InternalSerialize m p s =
     (if have_unknown_fields m then InternalSerializeUnknownFieldsToArray (unknown_fields m) p s else ret (p, s))"

definition Zero_MergeImpl :: "zero_message \<Rightarrow> zero_message \<Rightarrow> zero_message" where
  "Zero_MergeImpl to from' = Metadata_MergeFrom to from'"

text \<open>\<open>same\<close>: the two parameters are one object.\<close>

definition Zero_CopyImpl :: "bool \<Rightarrow> zero_message \<Rightarrow> zero_message \<Rightarrow> zero_message" where
  "Zero_CopyImpl same to from' =
     (if same then to else Metadata_MergeFrom (Metadata_Clear to) from')"

definition Zero_InternalSwap :: "zero_message \<Rightarrow> zero_message \<Rightarrow> zero_message \<times> zero_message" where
  "Zero_InternalSwap m other = Metadata_Swap m other"

section \<open>\<^verbatim>\<open>MessageLite\<close>: parsing\<close>

definition kMerge :: uint32 where "kMerge = 0"
definition kParse :: uint32 where "kParse = 1"
definition kMergePartial :: uint32 where "kMergePartial = 2"
definition kParsePartial :: uint32 where "kParsePartial = 3"

definition GetDefaultRecursionLimit :: nat where "GetDefaultRecursionLimit = 100"

text \<open>Nothing is required of a message without fields: \<open>CheckFieldPresence\<close> always holds.\<close>

definition MergeFromImpl :: "nat \<Rightarrow> byte list \<Rightarrow> zero_message \<Rightarrow> (bool \<times> zero_message) run" where
  "MergeFromImpl k input m =
     (case ParseContext_flat (int GetDefaultRecursionLimit) input of
        (p, c) \<Rightarrow> bind_run (Zero_InternalParse k p c m) (\<lambda>(q, c1, m1). ret (q \<noteq> None \<and> EndedAtLimit c1, m1)))"

text \<open>From a stream there is no limit; the parse ends with the stream.\<close>

definition MergeFromImpl_stream :: "nat \<Rightarrow> byte list list \<Rightarrow> zero_message \<Rightarrow> (bool \<times> zero_message) run" where
  "MergeFromImpl_stream k input m =
     bind_run (Some (InitFrom_stream input (ctx0 (int GetDefaultRecursionLimit)))) (\<lambda>(p, c).
       bind_run (Zero_InternalParse k p c m) (\<lambda>(q, c1, m1). ret (q \<noteq> None \<and> EndedAtEndOfStream c1, m1)))"

definition ParseFrom ::
    "uint32 \<Rightarrow> (zero_message \<Rightarrow> (bool \<times> zero_message) run) \<Rightarrow> zero_message \<Rightarrow> (bool \<times> zero_message) run" where
  "ParseFrom flags merge m = merge (if flags AND kParse \<noteq> 0 then Zero_Clear m else m)"

definition Zero_ParseFromArray :: "nat \<Rightarrow> byte list \<Rightarrow> zero_message \<Rightarrow> (bool \<times> zero_message) run" where
  "Zero_ParseFromArray k data = ParseFrom kParse (MergeFromImpl k data)"

definition Zero_ParsePartialFromArray :: "nat \<Rightarrow> byte list \<Rightarrow> zero_message \<Rightarrow> (bool \<times> zero_message) run" where
  "Zero_ParsePartialFromArray k data = ParseFrom kParsePartial (MergeFromImpl k data)"

definition Zero_MergeFromString :: "nat \<Rightarrow> byte list \<Rightarrow> zero_message \<Rightarrow> (bool \<times> zero_message) run" where
  "Zero_MergeFromString k data = ParseFrom kMerge (MergeFromImpl k data)"

definition Zero_ParseFromZeroCopyStream :: "nat \<Rightarrow> byte list list \<Rightarrow> zero_message \<Rightarrow> (bool \<times> zero_message) run" where
  "Zero_ParseFromZeroCopyStream k input = ParseFrom kParse (MergeFromImpl_stream k input)"

section \<open>\<^verbatim>\<open>MessageLite\<close>: serializing\<close>

text \<open>The array is a block and an offset in it; the block comes back.\<close>

definition SerializeToArrayImpl :: "zero_message \<Rightarrow> byte list \<Rightarrow> nat \<Rightarrow> nat \<Rightarrow> (ptr \<times> byte list) run" where
  "SerializeToArrayImpl m block target n =
     bind_run (Zero_InternalSerialize m (Block 0, target) (EpsCopyOutputStream_array block (target + n)))
       (\<lambda>(p, s). ret (p, block_of s (Block 0)))"

definition Zero_SerializePartialToArray :: "zero_message \<Rightarrow> byte list \<Rightarrow> int \<Rightarrow> (bool \<times> byte list) run" where
  "Zero_SerializePartialToArray m data n =
     (let byte_size = Zero_ByteSizeLong m in
      if int byte_size > INT_MAX then ret (False, data)
      else if n < int byte_size then ret (False, data)
      else bind_run (SerializeToArrayImpl m data 0 byte_size) (\<lambda>(_, data1). ret (True, data1)))"

definition Zero_SerializeToArray :: "zero_message \<Rightarrow> byte list \<Rightarrow> int \<Rightarrow> (bool \<times> byte list) run" where
  "Zero_SerializeToArray m data n = Zero_SerializePartialToArray m data n"

definition Zero_AppendPartialToString :: "zero_message \<Rightarrow> byte list \<Rightarrow> (bool \<times> byte list) run" where
  "Zero_AppendPartialToString m output =
     (let old_size = length output; byte_size = Zero_ByteSizeLong m in
      if int byte_size > INT_MAX then ret (False, output)
      else
        bind_run (SerializeToArrayImpl m (output @ replicate byte_size 0) old_size byte_size)
          (\<lambda>(_, output1). ret (True, output1)))"

definition Zero_AppendToString :: "zero_message \<Rightarrow> byte list \<Rightarrow> (bool \<times> byte list) run" where
  "Zero_AppendToString m output = Zero_AppendPartialToString m output"

definition Zero_SerializeToString :: "zero_message \<Rightarrow> byte list \<Rightarrow> (bool \<times> byte list) run" where
  "Zero_SerializeToString m output = Zero_AppendToString m []"

definition Zero_SerializeAsString :: "zero_message \<Rightarrow> (byte list) run" where
  "Zero_SerializeAsString m =
     bind_run (Zero_AppendToString m []) (\<lambda>(ok, output). ret (if ok then output else []))"

definition Zero_SerializePartialToZeroCopyStream :: "zero_message \<Rightarrow> nat list \<Rightarrow> (bool \<times> byte list list) run" where
  "Zero_SerializePartialToZeroCopyStream m sizes =
     (if int (Zero_ByteSizeLong m) > INT_MAX then ret (False, [])
      else
        (case EpsCopyOutputStream_stream sizes of (p, s) \<Rightarrow>
           bind_run (Zero_InternalSerialize m p s) (\<lambda>(p1, s1).
             bind_run (Trim p1 s1) (\<lambda>(_, s2). ret (\<not> eo_had_error s2, eo_blocks s2)))))"

section \<open>The parse loop is the parser of unknown fields\<close>

lemma unknown_fields_simps [simp]: "unknown_fields None = []" "unknown_fields (Some u) = u"
  by (simp_all add: unknown_fields_def)

definition plain :: "(cptr option \<times> parse_ctx \<times> zero_message) run \<Rightarrow> (cptr option \<times> parse_ctx \<times> fields) run" where
  "plain R = bind_run R (\<lambda>(q, c, m). ret (q, c, unknown_fields m))"

lemma plain_bind: "plain (bind_run R f) = bind_run R (\<lambda>x. plain (f x))"
  by (simp add: plain_def bind_run_assoc)

lemma plain_ret [simp]: "plain (ret (q, c, m)) = ret (q, c, unknown_fields m)"
  by (simp add: plain_def)

lemma InternalParse_steps:
  "plain (Zero_InternalParse k p c m) = UnknownGroupParse k (unknown_fields m) p c"
proof (induction k arbitrary: p c m)
  case 0
  then show ?case by (simp add: plain_def UnknownGroupParse_def)
next
  case (Suc k)
  have ih: "plain (Zero_InternalParse k p c m) = WireFormatParser UnknownFieldParserHelper k p c (unknown_fields m)" for p c m
    using Suc by (simp add: UnknownGroupParse_def)
  have cong: "(\<And>x. f x = g x) \<Longrightarrow> bind_run R f = bind_run R g" for R :: "'x run" and f g :: "'x \<Rightarrow> 'y run"
    by presburger
  show ?case
    by (auto intro!: cong simp: plain_bind UnknownGroupParse_def UnknownFieldParse_def ih plain_def [of "Some (Inl e)" for e]
        simp del: FieldParser.simps split: option.split)
qed

text \<open>
  \<^verbatim>\<open>ZeroFieldsBase::_InternalParse\<close> is the unknown field parser of
  \<^verbatim>\<open>parse_context.h\<close>, result for result and step for step, on any context.
\<close>

theorem Zero_InternalParse_wire:
  "plain (Zero_InternalParse k p c m) = UnknownGroupParse k (unknown_fields m) p c"
  by (rule InternalParse_steps)

section \<open>Parsing and serializing whole messages\<close>

definition Zero_ok :: "zero_message \<Rightarrow> bool" where
  "Zero_ok x = (case x of None \<Rightarrow> True | Some fs \<Rightarrow> fs \<noteq> [] \<and> list_all (readable_field GetDefaultRecursionLimit) fs)"

lemma Zero_ok_fields: "Zero_ok x \<Longrightarrow> list_all (readable_field GetDefaultRecursionLimit) (unknown_fields x)"
  by (auto simp: Zero_ok_def split: option.splits)

lemma readable_short: "readable_field d f \<Longrightarrow> short_strings f"
proof (induction f arbitrary: d)
  case (TYPE_GROUP n g)
  then show ?case by (auto simp: list_all_iff)
qed (auto simp: INT_MAX_def kSlopBytes_def)

lemma readable_shorts: "list_all (readable_field d) fs \<Longrightarrow> list_all short_strings fs"
  by (auto simp: list_all_iff intro: readable_short)

lemma Zero_ByteSizeLong_length:
  "Zero_ok x \<Longrightarrow> Zero_ByteSizeLong x = length (fields_bytes (unknown_fields x))"
  by (auto simp: Zero_ByteSizeLong_def have_unknown_fields_def ComputeUnknownFieldsSize_length
      dest!: Zero_ok_fields readable_shorts)

text \<open>Merging in any bytes: no fault, and the reference parser decides.\<close>

lemma MergeFromImpl_refines:
  assumes "2 * length bs < k"
  shows "\<exists>ok m'. MergeFromImpl k bs m = ret (ok, m') \<and>
    (ok \<longleftrightarrow> whole (ref_fields k GetDefaultRecursionLimit bs) \<noteq> None) \<and>
    (\<forall>fs. whole (ref_fields k GetDefaultRecursionLimit bs) = Some fs \<longrightarrow> unknown_fields m' = unknown_fields m @ fs)"
proof -
  obtain p c where c: "ParseContext_flat (int GetDefaultRecursionLimit) bs = (p, c)" by (metis surj_pair)
  obtain g where "starts c p GetDefaultRecursionLimit bs g" using ParseContext_flat_starts [OF c] ..
  from set_parse [OF this assms, of "unknown_fields m"] obtain q c' u where
    W: "WireFormatParser UnknownFieldParserHelper k p c (unknown_fields m) = ret (q, c', u)"
    and R: "case whole (ref_fields k GetDefaultRecursionLimit bs) of
        Some fs \<Rightarrow> q \<noteq> None \<and> EndedAtLimit c' \<and> u = unknown_fields m @ fs
      | None \<Rightarrow> q = None \<or> \<not> EndedAtLimit c'" by blast
  have "plain (Zero_InternalParse k p c m) = ret (q, c', u)"
    using InternalParse_steps [of k p c m] W by (simp add: UnknownGroupParse_def)
  then obtain m' where "Zero_InternalParse k p c m = ret (q, c', m')" "unknown_fields m' = u"
    by (auto simp: plain_def bind_run_def ret_def split: option.splits sum.splits)
  then show ?thesis
    using R c by (auto simp: MergeFromImpl_def split: option.splits)
qed

lemma MergeFromImpl_Nil: "0 < k \<Longrightarrow> MergeFromImpl k [] m = ret (True, m)"
proof -
  assume "0 < k"
  then obtain k' where k: "k = Suc k'" by (cases k) auto
  obtain p c where c: "ParseContext_flat (int GetDefaultRecursionLimit) [] = (p, c)" by (metis surj_pair)
  obtain g where "starts c p GetDefaultRecursionLimit [] g" using ParseContext_flat_starts [OF c] ..
  then have "Done p c = ret (Some p, True, c)" "EndedAtLimit c"
    by (auto simp: starts_def Done_end EndedAtLimit_def)
  then show ?thesis by (simp add: MergeFromImpl_def c k)
qed

lemma MergeFromImpl_bytes:
  assumes fs: "list_all (readable_field GetDefaultRecursionLimit) fs" "fs \<noteq> []"
    and fuel: "2 * length (fields_bytes fs) < k"
  shows "MergeFromImpl k (fields_bytes fs) m = ret (True, Some (unknown_fields m @ fs))"
proof -
  have "whole (ref_fields k GetDefaultRecursionLimit (fields_bytes fs)) = Some fs"
    using ref_fields_bytes [OF fs(1), of AtEnd "[]" "[]" k] fuel by (simp add: follows_def whole_def)
  then obtain m' where "MergeFromImpl k (fields_bytes fs) m = ret (True, m')" "unknown_fields m' = unknown_fields m @ fs"
    using MergeFromImpl_refines [OF fuel, of m] by auto
  then show ?thesis using fs(2) by (cases m') auto
qed

lemma SerializeToArrayImpl_bytes:
  assumes ok: "Zero_ok x" and "target + Zero_ByteSizeLong x \<le> length block"
  shows "SerializeToArrayImpl x block target (Zero_ByteSizeLong x) =
    ret ((Block 0, target + Zero_ByteSizeLong x), overwrite target (fields_bytes (unknown_fields x)) block)"
proof -
  note len = Zero_ByteSizeLong_length [OF ok]
  let ?s = "EpsCopyOutputStream_array block (target + Zero_ByteSizeLong x)"
  have s: "on_array block (target + Zero_ByteSizeLong x) ?s"
    using assms(2) by (simp add: on_array_def EpsCopyOutputStream_array_def)
  show ?thesis
  proof (cases "have_unknown_fields x")
    case True
    have "InternalSerializeUnknownFieldsToArray (unknown_fields x) (Block 0, target) ?s =
        ret (written target (fields_bytes (unknown_fields x)) block ?s)"
      by (rule writesD [OF writes_fields [OF readable_shorts [OF Zero_ok_fields [OF ok]]] s]) (simp add: len)
    then show ?thesis
      using True len by (simp add: SerializeToArrayImpl_def Zero_InternalSerialize_def written_def block_of_def)
  next
    case False
    then have "unknown_fields x = []" by (simp add: have_unknown_fields_def)
    then show ?thesis
      using False len by (simp add: SerializeToArrayImpl_def Zero_InternalSerialize_def block_of_def
          EpsCopyOutputStream_array_def)
  qed
qed

text \<open>
  C23: \<^verbatim>\<open>ParseFromArray\<close> never faults and always returns, on any bytes and whatever the
  message held; it says yes exactly when the reference parser consumes all of them within the recursion
  limit of 100, and then the message holds just what that read.
\<close>

theorem ParseFromArray_total:
  assumes "2 * length bs < k"
  shows "\<exists>ok m'. Zero_ParseFromArray k bs m = ret (ok, m') \<and>
    (ok \<longleftrightarrow> whole (ref_fields k 100 bs) \<noteq> None) \<and>
    (\<forall>fs. whole (ref_fields k 100 bs) = Some fs \<longrightarrow> unknown_fields m' = fs)"
proof -
  have "unknown_fields (Zero_Clear m) = []"
    by (cases m) (auto simp: Zero_Clear_def Metadata_Clear_def have_unknown_fields_def UnknownFieldSet_Clear_def
        clear_loop_Nil)
  then show ?thesis
    using MergeFromImpl_refines [OF assms, of "Zero_Clear m"]
    by (simp add: Zero_ParseFromArray_def ParseFrom_def kParse_def GetDefaultRecursionLimit_def)
qed

theorem ParseFromArray_total_witness:
  "(\<exists>ok m'. Zero_ParseFromArray 6 [8, 255] (Some [TYPE_VARINT 1 1]) = ret (ok, m') \<and>
     (ok \<longleftrightarrow> whole (ref_fields 6 100 [8, 255]) \<noteq> None)) \<and> whole (ref_fields 6 100 [8, 255]) = None"
proof -
  have "whole (ref_fields 6 100 [8, 255]) = None" by code_simp
  then show ?thesis using ParseFromArray_total [of "[8, 255]" 6] by auto
qed

lemma SerializeToArray_bytes:
  assumes ok: "Zero_ok x" and size: "int (Zero_ByteSizeLong x) \<le> INT_MAX" "int (Zero_ByteSizeLong x) \<le> n"
    "Zero_ByteSizeLong x \<le> length data"
  shows "Zero_SerializeToArray x data n = ret (True, overwrite 0 (fields_bytes (unknown_fields x)) data)"
  using SerializeToArrayImpl_bytes [OF ok, of 0 data] size
  by (simp add: Zero_SerializeToArray_def Zero_SerializePartialToArray_def Let_def)

lemma ParseFromArray_bytes:
  assumes ok: "Zero_ok x" and fuel: "2 * Zero_ByteSizeLong x < k"
  shows "Zero_ParseFromArray k (fields_bytes (unknown_fields x)) None = ret (True, x)"
proof (cases x)
  case None
  with fuel show ?thesis
    by (simp add: Zero_ParseFromArray_def ParseFrom_def kParse_def Zero_Clear_def
        Metadata_Clear_def have_unknown_fields_def MergeFromImpl_Nil Zero_ByteSizeLong_def)
next
  case (Some fs)
  with ok have "list_all (readable_field GetDefaultRecursionLimit) fs" "fs \<noteq> []" by (auto simp: Zero_ok_def)
  then have "MergeFromImpl k (fields_bytes fs) None = ret (True, Some fs)"
    using MergeFromImpl_bytes [of fs k None] fuel Zero_ByteSizeLong_length [OF ok] Some by simp
  with Some show ?thesis
    by (simp add: Zero_ParseFromArray_def ParseFrom_def kParse_def Zero_Clear_def
        Metadata_Clear_def have_unknown_fields_def)
qed

text \<open>
  C24: A message without fields of its own comes back as it was from \<^verbatim>\<open>SerializeToArray\<close> and
  \<^verbatim>\<open>ParseFromArray\<close>, whatever array of sufficient size was used, whose other bytes stay.
\<close>

theorem message_round_trip:
  assumes ok: "Zero_ok x" and size: "int (Zero_ByteSizeLong x) \<le> INT_MAX" "int (Zero_ByteSizeLong x) \<le> n"
    "Zero_ByteSizeLong x \<le> length data" and fuel: "2 * Zero_ByteSizeLong x < k"
  shows "\<exists>data'. Zero_SerializeToArray x data n = ret (True, data') \<and> length data' = length data \<and>
    drop (Zero_ByteSizeLong x) data' = drop (Zero_ByteSizeLong x) data \<and>
    Zero_ParseFromArray k (take (Zero_ByteSizeLong x) data') None = ret (True, x)"
  using SerializeToArray_bytes [OF ok size] ParseFromArray_bytes [OF ok fuel] size(3)
  by (simp add: overwrite_def Zero_ByteSizeLong_length [OF ok])

theorem message_round_trip_witness:
  "\<exists>data'. Zero_SerializeToArray (Some [TYPE_LENGTH_DELIMITED 4 [9, 9]]) [0, 0, 0, 0, 7] 5 = ret (True, data') \<and>
    Zero_ParseFromArray 9 (take 4 data') None = ret (True, Some [TYPE_LENGTH_DELIMITED 4 [9, 9]])"
proof -
  let ?x = "Some [TYPE_LENGTH_DELIMITED 4 [9, 9]]"
  have b: "Zero_ByteSizeLong ?x = 4" by code_simp
  have "Zero_ok ?x" by (simp add: Zero_ok_def INT_MAX_def kSlopBytes_def)
  from message_round_trip [OF this, of 5 "[0, 0, 0, 0, 7]" 9] show ?thesis
    by (auto simp: b INT_MAX_def)
qed

text \<open>
  Parsing the encoding of one message into another is \<^verbatim>\<open>MergeFrom\<close>: concatenating the
  encodings merges the messages.
\<close>

theorem merge_is_concatenation:
  assumes "Zero_ok y" and "2 * Zero_ByteSizeLong y < k"
  shows "Zero_MergeFromString k (fields_bytes (unknown_fields y)) x = ret (True, Zero_MergeImpl x y)"
proof (cases y)
  case None
  with assms show ?thesis
    by (simp add: Zero_MergeFromString_def ParseFrom_def kMerge_def MergeFromImpl_Nil Zero_MergeImpl_def
        Metadata_MergeFrom_def have_unknown_fields_def)
next
  case (Some fs)
  with assms have "list_all (readable_field GetDefaultRecursionLimit) fs" "fs \<noteq> []" by (auto simp: Zero_ok_def)
  moreover have "2 * length (fields_bytes fs) < k" using assms(2) Zero_ByteSizeLong_length [OF assms(1)] Some by simp
  ultimately show ?thesis
    using Some by (simp add: Zero_MergeFromString_def ParseFrom_def kMerge_def MergeFromImpl_bytes Zero_MergeImpl_def
        Metadata_MergeFrom_def have_unknown_fields_def UnknownFieldSet_MergeFrom_def InternalMergeFrom_append)
qed

theorem merge_is_concatenation_witness:
  "Zero_MergeFromString 5 (fields_bytes [TYPE_VARINT 1 7]) (Some [TYPE_VARINT 2 3]) =
    ret (True, Zero_MergeImpl (Some [TYPE_VARINT 2 3]) (Some [TYPE_VARINT 1 7]))"
proof -
  have "Zero_ok (Some [TYPE_VARINT 1 7])" by (simp add: Zero_ok_def)
  moreover have "Zero_ByteSizeLong (Some [TYPE_VARINT 1 7]) = 2" by code_simp
  ultimately show ?thesis using merge_is_concatenation [of "Some [TYPE_VARINT 1 7]" 5 "Some [TYPE_VARINT 2 3]"] by simp
qed

text \<open>
  \<^verbatim>\<open>AppendToString\<close> keeps the string and appends the message, so that serializing two
  messages to one string gives an encoding of their merge.
\<close>

theorem AppendToString_appends:
  assumes "Zero_ok x" and "int (Zero_ByteSizeLong x) \<le> INT_MAX"
  shows "Zero_AppendToString x output = ret (True, output @ fields_bytes (unknown_fields x))"
proof -
  have "overwrite (length output) (fields_bytes (unknown_fields x))
      (output @ replicate (Zero_ByteSizeLong x) 0) = output @ fields_bytes (unknown_fields x)"
    by (simp add: overwrite_def Zero_ByteSizeLong_length [OF assms(1)])
  then show ?thesis
    using SerializeToArrayImpl_bytes [OF assms(1), of "length output" "output @ replicate (Zero_ByteSizeLong x) 0"] assms(2)
    by (simp add: Zero_AppendToString_def Zero_AppendPartialToString_def Let_def)
qed

theorem AppendToString_appends_witness:
  "Zero_AppendToString (Some [TYPE_VARINT 1 200]) [5] = ret (True, [5, 8, 200, 1])"
proof -
  have "Zero_ok (Some [TYPE_VARINT 1 200])" by (simp add: Zero_ok_def)
  moreover have "Zero_ByteSizeLong (Some [TYPE_VARINT 1 200]) = 3" "fields_bytes [TYPE_VARINT 1 200] = [8, 200, 1]"
    by code_simp+
  ultimately show ?thesis using AppendToString_appends [of "Some [TYPE_VARINT 1 200]" "[5]"] by (simp add: INT_MAX_def)
qed

section \<open>The message class of the protocol\<close>

text \<open>
  What the templates of \<^verbatim>\<open>PacketHandler\<close> call. A message is serialized to an array of the
  size they announce, and parsed with enough fuel into a fresh object.
\<close>

definition zero_message_class :: "zero_message message_class" where
  "zero_message_class =
     \<lparr>ByteSizeLong = Zero_ByteSizeLong,
      SerializeToArray = (\<lambda>x n. case Zero_SerializeToArray x (replicate (nat n) 0) n of
          Some (Inr (True, data)) \<Rightarrow> Some (take (Zero_ByteSizeLong x) data) | _ \<Rightarrow> None),
      ParseFromArray = (\<lambda>bs. case Zero_ParseFromArray (2 * length bs + 1) bs None of
          Some (Inr r) \<Rightarrow> r | _ \<Rightarrow> (False, None))\<rparr>"

interpretation zero: message_contract zero_message_class Zero_ok
proof unfold_locales
  fix x and n :: int
  assume ok: "Zero_ok x" and lt: "ByteSizeLong zero_message_class x < 2 ^ 31"
    and le: "int (ByteSizeLong zero_message_class x) \<le> n"
  let ?z = "Zero_ByteSizeLong x"
  have z: "ByteSizeLong zero_message_class x = ?z" by (simp add: zero_message_class_def)
  have "?z \<le> nat n" using le z by linarith
  then have "Zero_SerializeToArray x (replicate (nat n) 0) n =
      ret (True, overwrite 0 (fields_bytes (unknown_fields x)) (replicate (nat n) 0))"
    using SerializeToArray_bytes [OF ok, of n "replicate (nat n) 0"] lt le by (simp add: z INT_MAX_def)
  moreover have "Zero_ParseFromArray (2 * ?z + 1) (fields_bytes (unknown_fields x)) None = ret (True, x)"
    by (rule ParseFromArray_bytes [OF ok]) simp
  ultimately show "\<exists>bs. SerializeToArray zero_message_class x n = Some bs \<and>
      length bs = ByteSizeLong zero_message_class x \<and> ParseFromArray zero_message_class bs = (True, x)"
    using Zero_ByteSizeLong_length [OF ok] by (auto simp: zero_message_class_def ret_def overwrite_def)
next
  fix x and n :: int
  assume "Zero_ok x" and "n < int (ByteSizeLong zero_message_class x)"
  then show "SerializeToArray zero_message_class x n = None"
    by (simp add: zero_message_class_def Zero_SerializeToArray_def Zero_SerializePartialToArray_def ret_def Let_def)
qed

end
