(* ===== verification/Win_Api.thy ===== *)
theory Win_Api
  imports Packet_Session
begin

text \<open>
  The boundary to Winsock and the completion port, \<^verbatim>\<open>ServerCore/SocketHelper.{h,cpp}\<close>. The
  operating system is not code of the repository: every call is an entry of a trace, and what it
  returns, with the error code \<^verbatim>\<open>WSAGetLastError()\<close> or \<^verbatim>\<open>GetLastError()\<close> gives
  afterwards, is asked of a function that may depend on the number of calls made so far. The
  theorems hold for every such function, or name what they assume of it.
\<close>

type_synonym SOCKET = uint64

definition INVALID_SOCKET :: SOCKET where "INVALID_SOCKET = - 1"
definition SOCKET_ERROR :: int where "SOCKET_ERROR = - 1"
definition WSA_IO_PENDING :: int where "WSA_IO_PENDING = 997"
definition ERROR_IO_PENDING :: int where "ERROR_IO_PENDING = 997"
definition WSAECONNABORTED :: int where "WSAECONNABORTED = 10053"
definition WSAECONNRESET :: int where "WSAECONNRESET = 10054"
definition WAIT_TIMEOUT :: int where "WAIT_TIMEOUT = 258"
definition SOMAXCONN :: int where "SOMAXCONN = 0x7fffffff"
definition AF_INET :: uint16 where "AF_INET = 2"
definition SOL_SOCKET :: int where "SOL_SOCKET = 0xffff"
definition SO_REUSEADDR :: int where "SO_REUSEADDR = 4"
definition SO_LINGER :: int where "SO_LINGER = 0x80"
definition SO_UPDATE_ACCEPT_CONTEXT :: int where "SO_UPDATE_ACCEPT_CONTEXT = 0x700B"
definition INADDR_ANY :: uint32 where "INADDR_ANY = 0"

record sockaddr_in =
  sin_family :: uint16
  sin_port :: uint16
  sin_addr :: uint32

text \<open>Host to network order on a little-endian machine.\<close>

definition htons :: "uint16 \<Rightarrow> uint16" where
  "htons p = push_bit 8 p OR drop_bit 8 p"

definition htonl :: "uint32 \<Rightarrow> uint32" where
  "htonl a = push_bit 24 a OR (push_bit 8 a AND 0xff0000) OR (drop_bit 8 a AND 0xff00) OR drop_bit 24 a"

datatype extension_function = ConnectEx | AcceptEx | DisconnectEx

text \<open>The calls of the program to the system, with the arguments that matter.\<close>

datatype syscall =
    SysStartup
  | SysCleanup
  | SysSocket
  | SysIoctl SOCKET extension_function
  | SysSetsockopt SOCKET int int "byte list"
  | SysBind SOCKET sockaddr_in
  | SysListen SOCKET int
  | SysClosesocket SOCKET
  | SysConnectEx SOCKET sockaddr_in
  | SysAcceptEx SOCKET SOCKET int
  | SysDisconnectEx SOCKET
  | SysSend SOCKET "byte list list"
  | SysRecv SOCKET int int
  | SysGetpeername SOCKET
  | SysCreatePort
  | SysClosePort
  | SysAssociate SOCKET
  | SysGetQueued int
  | SysPrint string
  | SysPrintInt string int

text \<open>What a call returns, and the error code it leaves.\<close>

type_synonym outcome = "int \<times> int"
type_synonym winsock = "nat \<Rightarrow> syscall \<Rightarrow> outcome"

text \<open>A call appends itself to the trace.\<close>

definition os_call :: "winsock \<Rightarrow> syscall \<Rightarrow> syscall list \<Rightarrow> outcome \<times> syscall list" where
  "os_call os c tr = (os (length tr) c, tr @ [c])"

section \<open>\<^verbatim>\<open>SocketHelper\<close>\<close>

definition CreateSocket :: "winsock \<Rightarrow> syscall list \<Rightarrow> SOCKET \<times> syscall list" where
  "CreateSocket os tr = (case os_call os SysSocket tr of ((r, _), tr') \<Rightarrow> (word_of_int r, tr'))"

definition SetIoControl :: "winsock \<Rightarrow> SOCKET \<Rightarrow> extension_function \<Rightarrow> syscall list \<Rightarrow> bool \<times> syscall list" where
  "SetIoControl os sock f tr =
     (case os_call os (SysIoctl sock f) tr of ((r, _), tr') \<Rightarrow> (r \<noteq> SOCKET_ERROR, tr'))"

definition SetSocketOpt :: "winsock \<Rightarrow> SOCKET \<Rightarrow> int \<Rightarrow> int \<Rightarrow> byte list \<Rightarrow> syscall list \<Rightarrow> bool \<times> syscall list" where
  "SetSocketOpt os sock level optName optVal tr =
     (case os_call os (SysSetsockopt sock level optName optVal) tr of
        ((r, _), tr') \<Rightarrow> (r \<noteq> SOCKET_ERROR, tr'))"

definition SetReuseAddress :: "winsock \<Rightarrow> SOCKET \<Rightarrow> bool \<Rightarrow> syscall list \<Rightarrow> bool \<times> syscall list" where
  "SetReuseAddress os sock enable =
     SetSocketOpt os sock SOL_SOCKET SO_REUSEADDR [if enable then 1 else 0]"

definition SetLinger :: "winsock \<Rightarrow> SOCKET \<Rightarrow> uint16 \<Rightarrow> uint16 \<Rightarrow> syscall list \<Rightarrow> bool \<times> syscall list" where
  "SetLinger os sock onOff time =
     SetSocketOpt os sock SOL_SOCKET SO_LINGER (bytes_le16 onOff @ bytes_le16 time)"

definition bytes_le64 :: "uint64 \<Rightarrow> byte list" where
  "bytes_le64 w = map (\<lambda>i. ucast (drop_bit (8 * i) w)) [0..<8]"

definition SetUpdateAcceptSocket :: "winsock \<Rightarrow> SOCKET \<Rightarrow> SOCKET \<Rightarrow> syscall list \<Rightarrow> bool \<times> syscall list" where
  "SetUpdateAcceptSocket os acceptSocket listenSocket =
     SetSocketOpt os acceptSocket SOL_SOCKET SO_UPDATE_ACCEPT_CONTEXT (bytes_le64 listenSocket)"

definition Bind :: "winsock \<Rightarrow> SOCKET \<Rightarrow> sockaddr_in \<Rightarrow> syscall list \<Rightarrow> bool \<times> syscall list" where
  "Bind os sock sockAddr tr =
     (case os_call os (SysBind sock sockAddr) tr of ((r, _), tr') \<Rightarrow> (r \<noteq> SOCKET_ERROR, tr'))"

definition BindAny :: "winsock \<Rightarrow> SOCKET \<Rightarrow> uint16 \<Rightarrow> syscall list \<Rightarrow> bool \<times> syscall list" where
  "BindAny os sock port tr =
     (let sockAddr = \<lparr>sin_family = AF_INET, sin_port = htons port, sin_addr = htonl INADDR_ANY\<rparr> in
      case os_call os (SysBind sock sockAddr) tr of ((r, _), tr') \<Rightarrow> (r \<noteq> SOCKET_ERROR, tr'))"

definition Listen :: "winsock \<Rightarrow> SOCKET \<Rightarrow> int \<Rightarrow> syscall list \<Rightarrow> bool \<times> syscall list" where
  "Listen os sock backlog tr =
     (case os_call os (SysListen sock backlog) tr of ((r, _), tr') \<Rightarrow> (r \<noteq> SOCKET_ERROR, tr'))"

text \<open>The socket is passed by reference and reset.\<close>

definition CloseSocket :: "winsock \<Rightarrow> SOCKET \<Rightarrow> syscall list \<Rightarrow> SOCKET \<times> syscall list" where
  "CloseSocket os sock tr =
     (if sock \<noteq> INVALID_SOCKET then (INVALID_SOCKET, snd (os_call os (SysClosesocket sock) tr))
      else (sock, tr))"

text \<open>
  \<^verbatim>\<open>StartUp\<close> returns \<^verbatim>\<open>false\<close> when \<^verbatim>\<open>WSAStartup\<close> fails and otherwise flows off its
  end without a value, the result \<open>None\<close>. The three extension functions are looked up, and the
  results ignored.
\<close>

definition StartUp :: "winsock \<Rightarrow> syscall list \<Rightarrow> bool option \<times> syscall list" where
  "StartUp os tr =
     (case os_call os SysStartup tr of ((r, _), tr1) \<Rightarrow>
        if r \<noteq> 0 then (Some False, tr1)
        else
          (case CreateSocket os tr1 of (tempSocket, tr2) \<Rightarrow>
           let tr3 = snd (SetIoControl os tempSocket ConnectEx tr2);
               tr4 = snd (SetIoControl os tempSocket AcceptEx tr3);
               tr5 = snd (SetIoControl os tempSocket DisconnectEx tr4) in
           (None, snd (CloseSocket os tempSocket tr5))))"

text \<open>\<^verbatim>\<open>return WSACleanup()\<close> as a \<^verbatim>\<open>bool\<close>: zero, its success, becomes false.\<close>

definition CleanUp :: "winsock \<Rightarrow> syscall list \<Rightarrow> bool \<times> syscall list" where
  "CleanUp os tr = (case os_call os SysCleanup tr of ((r, _), tr') \<Rightarrow> (r \<noteq> 0, tr'))"

text \<open>A closed socket is invalid, and closing it again makes no call.\<close>

lemma CloseSocket_idem:
  assumes "CloseSocket os sock tr = (sock', tr')"
  shows "sock' = INVALID_SOCKET" and "CloseSocket os sock' tr' = (INVALID_SOCKET, tr')"
  using assms by (auto simp: CloseSocket_def split: if_splits)

end
