(* ===== verification/Core_State.thy ===== *)
theory Core_State
  imports Win_Api Send_Buffer
begin

text \<open>
  The objects of \<^verbatim>\<open>ServerCore\<close> and the state they live in: completion events
  (\<^verbatim>\<open>IocpEvent.{h,cpp}\<close>), sessions (\<^verbatim>\<open>Session.h\<close>), the service
  (\<^verbatim>\<open>Service.{h,cpp}\<close>) and the listener's fields. Objects are named by numbers, the program
  has one service and one listener; the record \<open>core\<close> is extended by the applications.
\<close>

section \<open>Completion events\<close>

datatype event_type = CONNECT | DISCONNECT | ACCEPT | RECV | SEND

type_synonym sid = nat

datatype iocp_obj = ObjSession sid | ObjListener

record overlapped =
  ov_Internal :: uint64
  ov_InternalHigh :: uint64
  ov_Offset :: uint32
  ov_OffsetHigh :: uint32
  ov_Pointer :: uint64
  ov_hEvent :: uint64

record iocp_event = overlapped +
  eventType :: event_type
  iocpObj :: "iocp_obj option"

record accept_event = iocp_event +
  ae_session :: "sid option"

definition IocpEvent_Init :: "'a iocp_event_scheme \<Rightarrow> 'a iocp_event_scheme" where
  "IocpEvent_Init ev =
     ev\<lparr>ov_hEvent := 0, ov_Internal := 0, ov_InternalHigh := 0, ov_Offset := 0, ov_OffsetHigh := 0,
        ov_Pointer := 0\<rparr>"

definition IocpEvent :: "event_type \<Rightarrow> iocp_event" where
  "IocpEvent ty =
     IocpEvent_Init \<lparr>ov_Internal = 0, ov_InternalHigh = 0, ov_Offset = 0, ov_OffsetHigh = 0,
       ov_Pointer = 0, ov_hEvent = 0, eventType = ty, iocpObj = None\<rparr>"

definition AcceptEvent :: accept_event where
  "AcceptEvent = iocp_event.extend (IocpEvent ACCEPT) \<lparr>ae_session = None\<rparr>"

text \<open>The address of an event, as it comes back from the completion port.\<close>

datatype event_ref =
    ConnectEvent sid
  | SendEvent sid
  | RecvEvent sid
  | DisconnectEvent sid
  | AcceptEventAt nat

section \<open>Sessions, service, listener\<close>

definition Session_BUFFER_SIZE :: int where
  "Session_BUFFER_SIZE = 0x10000"

record session =
  s_isConnected :: bool
  s_service :: bool
  s_socket :: SOCKET
  s_sockAddr :: sockaddr_in
  s_connectEvent :: iocp_event
  s_sendEvent :: iocp_event
  s_sendBuffers :: "bid list"
  s_recvEvent :: iocp_event
  s_disconnectEvent :: iocp_event
  s_sendQueue :: "bid option list"
  s_sendRegistered :: bool
  s_recvBuffer :: recv_buffer

datatype service_type = NONE | SERVER | CLIENT

record service =
  sv_serviceType :: service_type
  sv_sockAddr :: sockaddr_in
  sv_iocpCore :: bool
  sv_sessions :: "sid set"
  sv_sessionCount :: int

record listener =
  l_serverService :: bool
  l_socket :: SOCKET
  l_acceptEvents :: "accept_event list"

text \<open>The default member initialisers of \<^verbatim>\<open>Listener\<close>.\<close>

definition Listener :: listener where
  "Listener = \<lparr>l_serverService = False, l_socket = INVALID_SOCKET, l_acceptEvents = []\<rparr>"

record core =
  c_trace :: "syscall list"
  c_tid :: tid
  c_sbm :: sbm
  c_sess :: "sid \<Rightarrow> session"
  c_nsess :: nat
  c_service :: service
  c_listener :: listener

text \<open>
  What a session class and the system provide: the oracle, and the virtual functions of
  \<^verbatim>\<open>Session\<close>. \<^verbatim>\<open>OnRecv\<close> gets the session, the offset of the data in its receive
  buffer and a length.
\<close>

record 'w env =
  env_os :: winsock
  OnConnected :: "sid \<Rightarrow> 'w \<Rightarrow> 'w run"
  OnSend :: "sid \<Rightarrow> int \<Rightarrow> 'w \<Rightarrow> 'w run"
  OnRecv :: "sid \<Rightarrow> int \<Rightarrow> int \<Rightarrow> 'w \<Rightarrow> (int \<times> 'w) run"
  OnDisconnected :: "sid \<Rightarrow> 'w \<Rightarrow> 'w run"

definition with_trace :: "(syscall list \<Rightarrow> 'b \<times> syscall list) \<Rightarrow> 'a core_scheme \<Rightarrow> 'b \<times> 'a core_scheme" where
  "with_trace f w = (case f (c_trace w) of (x, tr) \<Rightarrow> (x, w\<lparr>c_trace := tr\<rparr>))"

definition call :: "winsock \<Rightarrow> syscall \<Rightarrow> 'a core_scheme \<Rightarrow> outcome \<times> 'a core_scheme" where
  "call os c = with_trace (os_call os c)"

definition print :: "winsock \<Rightarrow> string \<Rightarrow> 'a core_scheme \<Rightarrow> 'a core_scheme" where
  "print os s w = snd (call os (SysPrint s) w)"

definition upd_sess :: "sid \<Rightarrow> (session \<Rightarrow> session) \<Rightarrow> 'a core_scheme \<Rightarrow> 'a core_scheme" where
  "upd_sess i f w = w\<lparr>c_sess := (c_sess w)(i := f (c_sess w i))\<rparr>"

definition upd_service :: "(service \<Rightarrow> service) \<Rightarrow> 'a core_scheme \<Rightarrow> 'a core_scheme" where
  "upd_service f w = w\<lparr>c_service := f (c_service w)\<rparr>"

definition upd_sbm :: "(sbm \<Rightarrow> sbm) \<Rightarrow> 'a core_scheme \<Rightarrow> 'a core_scheme" where
  "upd_sbm f w = w\<lparr>c_sbm := f (c_sbm w)\<rparr>"

lemma core_frame [simp]:
  "c_trace (upd_sess i f w) = c_trace w" "c_tid (upd_sess i f w) = c_tid w"
  "c_sbm (upd_sess i f w) = c_sbm w" "c_nsess (upd_sess i f w) = c_nsess w"
  "c_service (upd_sess i f w) = c_service w" "c_listener (upd_sess i f w) = c_listener w"
  "core.more (upd_sess i f w) = core.more w"
  "c_trace (upd_service g w) = c_trace w" "c_tid (upd_service g w) = c_tid w"
  "c_sbm (upd_service g w) = c_sbm w" "c_sess (upd_service g w) = c_sess w"
  "c_nsess (upd_service g w) = c_nsess w" "c_service (upd_service g w) = g (c_service w)"
  "c_listener (upd_service g w) = c_listener w" "core.more (upd_service g w) = core.more w"
  "c_trace (upd_sbm h w) = c_trace w" "c_tid (upd_sbm h w) = c_tid w"
  "c_sbm (upd_sbm h w) = h (c_sbm w)" "c_sess (upd_sbm h w) = c_sess w"
  "c_nsess (upd_sbm h w) = c_nsess w" "c_service (upd_sbm h w) = c_service w"
  "c_listener (upd_sbm h w) = c_listener w" "core.more (upd_sbm h w) = core.more w"
  by (simp_all add: upd_sess_def upd_service_def upd_sbm_def)

lemma c_sess_upd_sess [simp]:
  "c_sess (upd_sess i f w) j = (if j = i then f (c_sess w i) else c_sess w j)"
  by (simp add: upd_sess_def)

text \<open>A call changes nothing of the state but the trace.\<close>

lemma with_trace_frame:
  assumes "with_trace f w = (x, w')"
  shows "c_tid w' = c_tid w" and "c_sbm w' = c_sbm w" and "c_sess w' = c_sess w"
    and "c_nsess w' = c_nsess w" and "c_service w' = c_service w" and "c_listener w' = c_listener w"
    and "core.more w' = core.more w"
  using assms by (auto simp: with_trace_def split: prod.splits)

lemma call_eq:
  "call s c w = (s (length (c_trace w)) c, w\<lparr>c_trace := c_trace w @ [c]\<rparr>)"
  by (simp add: call_def with_trace_def os_call_def)

lemma print_eq: "print s x w = w\<lparr>c_trace := c_trace w @ [SysPrint x]\<rparr>"
  by (simp add: print_def call_eq)

section \<open>Construction and destruction of a session\<close>

definition fresh_session :: "recv_buffer \<Rightarrow> SOCKET \<Rightarrow> session" where
  "fresh_session rb sock =
     \<lparr>s_isConnected = False, s_service = False, s_socket = sock,
      s_sockAddr = \<lparr>sin_family = 0, sin_port = 0, sin_addr = 0\<rparr>,
      s_connectEvent = IocpEvent CONNECT, s_sendEvent = IocpEvent SEND, s_sendBuffers = [],
      s_recvEvent = IocpEvent RECV, s_disconnectEvent = IocpEvent DISCONNECT, s_sendQueue = [],
      s_sendRegistered = False, s_recvBuffer = rb\<rparr>"

text \<open>\<^verbatim>\<open>make_shared\<close> of a session class: a new object, its buffer, its socket.\<close>

definition Session :: "winsock \<Rightarrow> 'a core_scheme \<Rightarrow> (sid \<times> 'a core_scheme) res" where
  "Session os w =
     bind_res (RecvBuffer Session_BUFFER_SIZE) (\<lambda>rb.
       case with_trace (CreateSocket os) w of (sock, w1) \<Rightarrow>
         let i = c_nsess w in
         Inr (i, upd_sess i (\<lambda>_. fresh_session rb sock) (w1\<lparr>c_nsess := Suc i\<rparr>)))"

text \<open>Destroying the \<^verbatim>\<open>shared_ptr\<close>s of a container of send buffers, null ones included.\<close>

definition release_all :: "bid option list \<Rightarrow> sbm \<Rightarrow> sbm" where
  "release_all bs = fold (\<lambda>b m. case b of None \<Rightarrow> m | Some b' \<Rightarrow> buffer_release b' m) bs"

text \<open>The destructor closes the socket; then the members go, the queue and the event's buffers.\<close>

definition Session_destroy :: "winsock \<Rightarrow> sid \<Rightarrow> 'a core_scheme \<Rightarrow> 'a core_scheme" where
  "Session_destroy os i w =
     (case with_trace (CloseSocket os (s_socket (c_sess w i))) w of (sock, w1) \<Rightarrow>
        let s = c_sess w i in
        upd_sbm (release_all (s_sendQueue s @ map Some (s_sendBuffers s)))
          (upd_sess i (\<lambda>s. s\<lparr>s_socket := sock, s_sendQueue := [], s_sendBuffers := []\<rparr>) w1))"

definition SetSockAddr :: "sid \<Rightarrow> sockaddr_in \<Rightarrow> 'a core_scheme \<Rightarrow> 'a core_scheme" where
  "SetSockAddr i address = upd_sess i (\<lambda>s. s\<lparr>s_sockAddr := address\<rparr>)"

definition SetService :: "sid \<Rightarrow> 'a core_scheme \<Rightarrow> 'a core_scheme" where
  "SetService i = upd_sess i (\<lambda>s. s\<lparr>s_service := True\<rparr>)"

definition IsConnected :: "sid \<Rightarrow> 'a core_scheme \<Rightarrow> bool" where
  "IsConnected i w = s_isConnected (c_sess w i)"

section \<open>\<^verbatim>\<open>Service\<close>\<close>

text \<open>\<^verbatim>\<open>GetService()->...\<close> faults on a session without a service.\<close>

definition GetService :: "sid \<Rightarrow> 'a core_scheme \<Rightarrow> service res" where
  "GetService i w = (if s_service (c_sess w i) then Inr (c_service w) else Inl NullDeref)"

text \<open>\<^verbatim>\<open>IocpCore::Register\<close>: the handle of the object joins the port.\<close>

definition IocpCore_Register :: "winsock \<Rightarrow> SOCKET \<Rightarrow> 'a core_scheme \<Rightarrow> bool \<times> 'a core_scheme" where
  "IocpCore_Register os handle w =
     (case call os (SysAssociate handle) w of ((r, _), w') \<Rightarrow> (r \<noteq> 0, w'))"

definition CreateSession :: "winsock \<Rightarrow> 'a core_scheme \<Rightarrow> (sid option \<times> 'a core_scheme) res" where
  "CreateSession os w =
     bind_res (Session os w) (\<lambda>(i, w1).
       let w2 = SetService i w1 in
       if \<not> sv_iocpCore (c_service w2) then Inl NullDeref
       else
         (case IocpCore_Register os (s_socket (c_sess w2 i)) w2 of (ok, w3) \<Rightarrow>
            if \<not> ok then Inr (None, Session_destroy os i w3) else Inr (Some i, w3)))"

definition AddSession :: "sid \<Rightarrow> service \<Rightarrow> service" where
  "AddSession i sv =
     sv\<lparr>sv_sessionCount := sv_sessionCount sv + 1, sv_sessions := insert i (sv_sessions sv)\<rparr>"

definition RemoveSession :: "sid \<Rightarrow> service \<Rightarrow> service" where
  "RemoveSession i sv =
     sv\<lparr>sv_sessions := sv_sessions sv - {i}, sv_sessionCount := sv_sessionCount sv - 1\<rparr>"

text \<open>
  The constructor. \<open>indet\<close> is what the value \<^verbatim>\<open>StartUp\<close> fails to return is read as, and
  \<open>pton\<close> the result of \<^verbatim>\<open>InetPton\<close>; on a false result the fields keep their
  initialisers and there is no completion port.
\<close>

definition Service ::
    "winsock \<Rightarrow> bool \<Rightarrow> (string \<Rightarrow> uint32) \<Rightarrow> service_type \<Rightarrow> string \<Rightarrow> uint16 \<Rightarrow> syscall list \<Rightarrow>
     service \<times> syscall list" where
  "Service os indet pton ty ip port tr =
     (let sv = \<lparr>sv_serviceType = ty, sv_sockAddr = \<lparr>sin_family = 0, sin_port = 0, sin_addr = 0\<rparr>,
                sv_iocpCore = False, sv_sessions = {}, sv_sessionCount = 0\<rparr> in
      case StartUp os tr of (r, tr1) \<Rightarrow>
        let started = (case r of Some b \<Rightarrow> b | None \<Rightarrow> indet) in
        if \<not> started then (sv, tr1)
        else (sv\<lparr>sv_sockAddr := \<lparr>sin_family = AF_INET, sin_port = htons port, sin_addr = pton ip\<rparr>,
                 sv_iocpCore := True, sv_sessionCount := 0\<rparr>,
              snd (os_call os SysCreatePort tr1)))"

text \<open>The destructor; then the \<^verbatim>\<open>shared_ptr\<close> to the port goes, and \<^verbatim>\<open>~IocpCore\<close> closes it.\<close>

definition Service_destroy :: "winsock \<Rightarrow> service \<Rightarrow> syscall list \<Rightarrow> syscall list" where
  "Service_destroy os sv tr =
     (let tr1 = snd (CleanUp os tr) in
      if sv_iocpCore sv then snd (os_call os SysClosePort tr1) else tr1)"

end
