(* ===== verification/Session.thy ===== *)
theory Session
  imports Core_State
begin

text \<open>
  The session, \<^verbatim>\<open>ServerCore/Session.{h,cpp}\<close>: the calls that start an asynchronous
  operation, the functions that process its completion, sending and disconnecting. Every function
  is one function of the class with its early returns; the virtual functions are those of the
  environment \<open>E\<close>. A handler is one step here: the other threads
  of the program are not interleaved with it.
\<close>

section \<open>Disconnecting\<close>

text \<open>
  \<^verbatim>\<open>HandleError\<close>, \<^verbatim>\<open>Disconnect\<close> and \<^verbatim>\<open>RegisterDisconnect\<close> call each other;
  the exchange on \<^verbatim>\<open>isConnected\<close> ends the recursion.
\<close>

datatype cause = Cause string

definition connected_bit :: "sid \<Rightarrow> 'a core_scheme \<Rightarrow> nat" where
  "connected_bit i w = (if IsConnected i w then 3 else 0)"

function (sequential)
      Session_HandleError :: "winsock \<Rightarrow> sid \<Rightarrow> int \<Rightarrow> 'a core_scheme \<Rightarrow> 'a core_scheme"
  and Session_Disconnect :: "winsock \<Rightarrow> sid \<Rightarrow> cause \<Rightarrow> 'a core_scheme \<Rightarrow> 'a core_scheme"
  and Session_RegisterDisconnect :: "winsock \<Rightarrow> sid \<Rightarrow> unit \<Rightarrow> 'a core_scheme \<Rightarrow> bool \<times> 'a core_scheme"
where
  "Session_HandleError os i errorCode w =
     (if errorCode = WSAECONNRESET \<or> errorCode = WSAECONNABORTED
      then Session_Disconnect os i (Cause ''Handle Error'') w
      else snd (call os (SysPrintInt ''Error Code : '' errorCode) w))"
| "Session_Disconnect os i (Cause reason) w =
     (if \<not> IsConnected i w then w
      else
        let w1 = upd_sess i (\<lambda>s. s\<lparr>s_isConnected := False\<rparr>) w;
            w2 = print os (''Disconnect reason : '' @ reason) w1 in
        snd (Session_RegisterDisconnect os i () w2))"
| "Session_RegisterDisconnect os i _ w =
     (let w1 = upd_sess i (\<lambda>s. s\<lparr>s_disconnectEvent :=
             (IocpEvent_Init (s_disconnectEvent s))\<lparr>iocpObj := Some (ObjSession i)\<rparr>\<rparr>) w in
      case call os (SysDisconnectEx (s_socket (c_sess w1 i))) w1 of ((r, err), w2) \<Rightarrow>
        if r \<noteq> 0 then
          (if err \<noteq> WSA_IO_PENDING then
             (False, upd_sess i (\<lambda>s. s\<lparr>s_disconnectEvent := (s_disconnectEvent s)\<lparr>iocpObj := None\<rparr>\<rparr>)
                       (Session_HandleError os i err w2))
           else (True, w2))
        else (True, w2))"
  by pat_completeness auto

termination
  by (relation "measure (\<lambda>x. case x of
        Inl (os, i, e, w) \<Rightarrow> connected_bit i w + 1
      | Inr (Inl (os, i, c, w)) \<Rightarrow> connected_bit i w
      | Inr (Inr (os, i, u, w)) \<Rightarrow> connected_bit i w + 2)")
    (auto simp: connected_bit_def IsConnected_def print_eq call_eq split: if_splits)

declare Session_HandleError.simps [simp del] Session_Disconnect.simps [simp del]
  Session_RegisterDisconnect.simps [simp del]

section \<open>Starting operations\<close>

definition set_obj :: "iocp_obj option \<Rightarrow> iocp_event \<Rightarrow> iocp_event" where
  "set_obj ob ev = (IocpEvent_Init ev)\<lparr>iocpObj := ob\<rparr>"

text \<open>
  \<^verbatim>\<open>ConnectEx\<close> returns \<^verbatim>\<open>TRUE\<close> on success; the code asks for the error code exactly
  then.
\<close>

definition Session_RegisterConnect :: "winsock \<Rightarrow> sid \<Rightarrow> 'a core_scheme \<Rightarrow> (bool \<times> 'a core_scheme) res" where
  "Session_RegisterConnect os i w =
     (if IsConnected i w then Inr (False, w)
      else bind_res (GetService i w) (\<lambda>sv.
        if sv_serviceType sv \<noteq> CLIENT then Inr (False, w)
        else
          (case with_trace (SetReuseAddress os (s_socket (c_sess w i)) True) w of (ok1, w1) \<Rightarrow>
           if \<not> ok1 then Inr (False, w1)
           else
             (case with_trace (BindAny os (s_socket (c_sess w1 i)) 0) w1 of (ok2, w2) \<Rightarrow>
              if ok2 = False then Inr (False, w2)
              else
                (let w3 = upd_sess i (\<lambda>s. s\<lparr>s_connectEvent := set_obj (Some (ObjSession i)) (s_connectEvent s)\<rparr>) w2 in
                 case call os (SysConnectEx (s_socket (c_sess w3 i)) (sv_sockAddr sv)) w3 of ((r, err), w4) \<Rightarrow>
                   if r \<noteq> 0 then
                     (if err \<noteq> ERROR_IO_PENDING then
                        Inr (False, upd_sess i (\<lambda>s. s\<lparr>s_connectEvent := (s_connectEvent s)\<lparr>iocpObj := None\<rparr>\<rparr>)
                                      (Session_HandleError os i err w4))
                      else Inr (True, w4))
                   else Inr (True, w4))))))"

definition Session_Connect :: "winsock \<Rightarrow> sid \<Rightarrow> 'a core_scheme \<Rightarrow> (bool \<times> 'a core_scheme) res" where
  "Session_Connect os i w = Session_RegisterConnect os i w"

text \<open>
  The loop of \<^verbatim>\<open>RegisterSend\<close>: the queue moves to the event; \<^verbatim>\<open>WriteSize()\<close> is
  called on every element, a null one included.
\<close>

fun drain_queue :: "bid option list \<Rightarrow> bid list \<Rightarrow> bid list res" where
  "drain_queue [] acc = Inr acc"
| "drain_queue (None # q) acc = Inl NullDeref"
| "drain_queue (Some b # q) acc = drain_queue q (acc @ [b])"

definition Session_RegisterSend :: "winsock \<Rightarrow> sid \<Rightarrow> 'a core_scheme \<Rightarrow> 'a core_scheme res" where
  "Session_RegisterSend os i w =
     (if \<not> IsConnected i w then Inr w
      else
        let w1 = upd_sess i (\<lambda>s. s\<lparr>s_sendEvent := set_obj (Some (ObjSession i)) (s_sendEvent s)\<rparr>) w in
        bind_res (drain_queue (s_sendQueue (c_sess w1 i)) (s_sendBuffers (c_sess w1 i))) (\<lambda>bufs.
          let w2 = upd_sess i (\<lambda>s. s\<lparr>s_sendQueue := [], s_sendBuffers := bufs\<rparr>) w1;
              wsaBufs = map (buffer_content (c_sbm w2)) bufs in
          case call os (SysSend (s_socket (c_sess w2 i)) wsaBufs) w2 of ((r, err), w3) \<Rightarrow>
            if r = SOCKET_ERROR \<and> err \<noteq> WSA_IO_PENDING then
              let w4 = Session_HandleError os i err w3;
                  w5 = upd_sess i (\<lambda>s. s\<lparr>s_sendEvent := (s_sendEvent s)\<lparr>iocpObj := None\<rparr>\<rparr>) w4;
                  w6 = upd_sbm (release_all (map Some (s_sendBuffers (c_sess w5 i)))) w5 in
              Inr (upd_sess i (\<lambda>s. s\<lparr>s_sendBuffers := [], s_sendRegistered := False\<rparr>) w6)
            else Inr w3))"

definition Session_RegisterRecv :: "winsock \<Rightarrow> sid \<Rightarrow> 'a core_scheme \<Rightarrow> 'a core_scheme res" where
  "Session_RegisterRecv os i w =
     (if \<not> IsConnected i w then Inr w
      else
        let w1 = upd_sess i (\<lambda>s. s\<lparr>s_recvEvent := set_obj (Some (ObjSession i)) (s_recvEvent s)\<rparr>) w;
            rb = s_recvBuffer (c_sess w1 i) in
        bind_res (RecvBuffer_WritePos rb) (\<lambda>pos.
          case call os (SysRecv (s_socket (c_sess w1 i)) pos (RecvBuffer_FreeSize rb)) w1 of ((r, err), w2) \<Rightarrow>
            if r = SOCKET_ERROR \<and> err \<noteq> WSA_IO_PENDING then
              Inr (upd_sess i (\<lambda>s. s\<lparr>s_recvEvent := (s_recvEvent s)\<lparr>iocpObj := None\<rparr>\<rparr>)
                    (Session_HandleError os i err w2))
            else Inr w2))"

section \<open>Sending\<close>

text \<open>The queue takes a copy of the \<^verbatim>\<open>shared_ptr\<close>; a null one is not refused.\<close>

definition retain_opt :: "bid option \<Rightarrow> sbm \<Rightarrow> sbm" where
  "retain_opt ob m = (case ob of None \<Rightarrow> m | Some b \<Rightarrow> buffer_retain b m)"

definition Session_Send :: "winsock \<Rightarrow> sid \<Rightarrow> bid option \<Rightarrow> 'a core_scheme \<Rightarrow> 'a core_scheme res" where
  "Session_Send os i sendData w =
     (if \<not> IsConnected i w then Inr w
      else
        let w1 = upd_sbm (retain_opt sendData)
              (upd_sess i (\<lambda>s. s\<lparr>s_sendQueue := s_sendQueue s @ [sendData]\<rparr>) w);
            registerSend = (s_sendRegistered (c_sess w1 i) = False);
            w2 = upd_sess i (\<lambda>s. s\<lparr>s_sendRegistered := True\<rparr>) w1 in
        if registerSend then Session_RegisterSend os i w2 else Inr w2)"

section \<open>Completions\<close>

definition lift_res :: "'b res \<Rightarrow> 'b run" where
  "lift_res r = Some r"

lemma lift_res_simps [simp]: "lift_res (Inr x) = ret x" "lift_res (Inl e) = Some (Inl e)"
  by (simp_all add: lift_res_def ret_def)

definition Session_ProcessConnect :: "('a core_scheme) env \<Rightarrow> sid \<Rightarrow> 'a core_scheme \<Rightarrow> 'a core_scheme run" where
  "Session_ProcessConnect E i w =
     (let w1 = upd_sess i (\<lambda>s. s\<lparr>s_connectEvent := (s_connectEvent s)\<lparr>iocpObj := None\<rparr>,
            s_isConnected := True\<rparr>) w in
      bind_run (lift_res (GetService i w1)) (\<lambda>_.
      bind_run (OnConnected E i (upd_service (AddSession i) w1)) (\<lambda>w2.
      lift_res (Session_RegisterRecv (env_os E) i w2))))"

definition Session_ProcessSend :: "('a core_scheme) env \<Rightarrow> sid \<Rightarrow> int \<Rightarrow> 'a core_scheme \<Rightarrow> 'a core_scheme run" where
  "Session_ProcessSend E i numOfBytes w =
     (let w1 = upd_sbm (release_all (map Some (s_sendBuffers (c_sess w i))))
            (upd_sess i (\<lambda>s. s\<lparr>s_sendEvent := (s_sendEvent s)\<lparr>iocpObj := None\<rparr>, s_sendBuffers := []\<rparr>) w);
          w2 = (if numOfBytes = 0 then Session_Disconnect (env_os E) i (Cause ''Send 0 bytes'') w1 else w1) in
      bind_run (OnSend E i numOfBytes w2) (\<lambda>w3.
        if s_sendQueue (c_sess w3 i) = []
        then ret (upd_sess i (\<lambda>s. s\<lparr>s_sendRegistered := False\<rparr>) w3)
        else lift_res (Session_RegisterSend (env_os E) i w3)))"

definition Session_ProcessRecv :: "('a core_scheme) env \<Rightarrow> sid \<Rightarrow> int \<Rightarrow> 'a core_scheme \<Rightarrow> 'a core_scheme run" where
  "Session_ProcessRecv E i numOfBytes w =
     (let w1 = upd_sess i (\<lambda>s. s\<lparr>s_recvEvent := (s_recvEvent s)\<lparr>iocpObj := None\<rparr>\<rparr>) w in
      if numOfBytes = 0 then ret (Session_Disconnect (env_os E) i (Cause ''Recv 0 bytes'') w1)
      else
        (case RecvBuffer_OnWrite numOfBytes (s_recvBuffer (c_sess w1 i)) of (written, rb) \<Rightarrow>
           if written = False then ret (Session_Disconnect (env_os E) i (Cause ''On write overflow'') w1)
           else
             let w2 = upd_sess i (\<lambda>s. s\<lparr>s_recvBuffer := rb\<rparr>) w1;
                 dataSize = RecvBuffer_DataSize rb in
             bind_run (lift_res (RecvBuffer_ReadPos rb)) (\<lambda>pos.
             bind_run (OnRecv E i pos numOfBytes w2) (\<lambda>(processLen, w3).
               if processLen < 0 \<or> dataSize < processLen then
                 ret (Session_Disconnect (env_os E) i (Cause ''On read overflow'') w3)
               else
                 (case RecvBuffer_OnRead processLen (s_recvBuffer (c_sess w3 i)) of (taken, rb2) \<Rightarrow>
                    if taken = False then
                      ret (Session_Disconnect (env_os E) i (Cause ''On read overflow'') w3)
                    else
                      bind_run (lift_res (RecvBuffer_Clear rb2)) (\<lambda>rb3.
                        lift_res (Session_RegisterRecv (env_os E) i
                          (upd_sess i (\<lambda>s. s\<lparr>s_recvBuffer := rb3\<rparr>) w3))))))))"

definition Session_ProcessDisconnect :: "('a core_scheme) env \<Rightarrow> sid \<Rightarrow> 'a core_scheme \<Rightarrow> 'a core_scheme run" where
  "Session_ProcessDisconnect E i w =
     (let w1 = upd_sess i (\<lambda>s. s\<lparr>s_disconnectEvent := (s_disconnectEvent s)\<lparr>iocpObj := None\<rparr>\<rparr>) w in
      bind_run (OnDisconnected E i w1) (\<lambda>w2.
      bind_run (lift_res (GetService i w2)) (\<lambda>_.
      ret (upd_service (RemoveSession i) w2))))"

text \<open>The dispatch on the kind of the event.\<close>

definition Session_ObserveIO ::
    "('a core_scheme) env \<Rightarrow> sid \<Rightarrow> event_type \<Rightarrow> int \<Rightarrow> 'a core_scheme \<Rightarrow> 'a core_scheme run" where
  "Session_ObserveIO E i ty bytesTransferred w =
     (case ty of
        CONNECT \<Rightarrow> Session_ProcessConnect E i w
      | RECV \<Rightarrow> Session_ProcessRecv E i bytesTransferred w
      | SEND \<Rightarrow> Session_ProcessSend E i bytesTransferred w
      | DISCONNECT \<Rightarrow> Session_ProcessDisconnect E i w
      | ACCEPT \<Rightarrow> ret w)"

section \<open>What disconnecting changes\<close>

text \<open>
  Whatever the error paths do, they only append to the trace, clear \<^verbatim>\<open>isConnected\<close> and
  rearm the disconnect event of that session.
\<close>

definition disc_shape :: "sid \<Rightarrow> 'a core_scheme \<Rightarrow> 'a core_scheme \<Rightarrow> bool" where
  "disc_shape i w w' \<longleftrightarrow> (\<exists>extra c d.
     w' = w\<lparr>c_trace := c_trace w @ extra,
       c_sess := (c_sess w)(i := (c_sess w i)\<lparr>s_isConnected := c, s_disconnectEvent := d\<rparr>)\<rparr> \<and>
     (c \<longrightarrow> IsConnected i w) \<and>
     length (filter (\<lambda>x. x = SysDisconnectEx (s_socket (c_sess w i))) extra) =
       (if IsConnected i w \<and> \<not> c then 1 else 0))"

lemma Disconnect_not_connected:
  "\<not> IsConnected i w \<Longrightarrow> Session_Disconnect os i c w = w"
  by (cases c) (simp add: Session_Disconnect.simps)

lemma HandleError_not_connected:
  "\<not> IsConnected i w \<Longrightarrow> Session_HandleError os i e w =
     (if e = WSAECONNRESET \<or> e = WSAECONNABORTED then w
      else w\<lparr>c_trace := c_trace w @ [SysPrintInt ''Error Code : '' e]\<rparr>)"
  by (simp add: Session_HandleError.simps Disconnect_not_connected call_eq)

text \<open>The three calls of a disconnect, and the event it arms.\<close>

lemma Disconnect_connected:
  assumes "IsConnected i w"
  shows "\<exists>d rest. Session_Disconnect os i (Cause r) w =
      w\<lparr>c_trace := c_trace w @ [SysPrint (''Disconnect reason : '' @ r),
            SysDisconnectEx (s_socket (c_sess w i))] @ rest,
        c_sess := (c_sess w)(i := (c_sess w i)\<lparr>s_isConnected := False, s_disconnectEvent := d\<rparr>)\<rparr> \<and>
      (rest = [] \<or> (\<exists>e. rest = [SysPrintInt ''Error Code : '' e]))"
proof -
  let ?s = "c_sess w i"
  define d0 where "d0 = (IocpEvent_Init (s_disconnectEvent ?s))\<lparr>iocpObj := Some (ObjSession i)\<rparr>"
  define w2 where "w2 = print os (''Disconnect reason : '' @ r) (upd_sess i (\<lambda>s. s\<lparr>s_isConnected := False\<rparr>) w)"
  define w3 where "w3 = upd_sess i (\<lambda>s. s\<lparr>s_disconnectEvent :=
             (IocpEvent_Init (s_disconnectEvent s))\<lparr>iocpObj := Some (ObjSession i)\<rparr>\<rparr>) w2"
  have w3: "w3 = w\<lparr>c_trace := c_trace w @ [SysPrint (''Disconnect reason : '' @ r)],
      c_sess := (c_sess w)(i := ?s\<lparr>s_isConnected := False, s_disconnectEvent := d0\<rparr>)\<rparr>"
    by (simp add: w3_def w2_def d0_def print_eq upd_sess_def)
  obtain rr err w4 where c: "call os (SysDisconnectEx (s_socket (c_sess w3 i))) w3 = ((rr, err), w4)"
    by (metis surj_pair)
  then have "w4 = w3\<lparr>c_trace := c_trace w3 @ [SysDisconnectEx (s_socket (c_sess w3 i))]\<rparr>"
    by (simp add: call_eq)
  then have w4: "w4 = w\<lparr>c_trace := c_trace w @ [SysPrint (''Disconnect reason : '' @ r),
        SysDisconnectEx (s_socket ?s)],
      c_sess := (c_sess w)(i := ?s\<lparr>s_isConnected := False, s_disconnectEvent := d0\<rparr>)\<rparr>"
    by (simp add: w3)
  have nc: "\<not> IsConnected i w4" by (simp add: w4 IsConnected_def)
  have run: "Session_Disconnect os i (Cause r) w =
      (if rr \<noteq> 0 \<and> err \<noteq> WSA_IO_PENDING
       then upd_sess i (\<lambda>s. s\<lparr>s_disconnectEvent := (s_disconnectEvent s)\<lparr>iocpObj := None\<rparr>\<rparr>)
              (Session_HandleError os i err w4)
       else w4)"
  proof -
    have "Session_Disconnect os i (Cause r) w = snd (Session_RegisterDisconnect os i () w2)"
      by (simp only: Session_Disconnect.simps assms Let_def w2_def not_True_eq_False if_False)
    then show ?thesis
      by (simp add: Session_RegisterDisconnect.simps Let_def w3_def [symmetric] c)
  qed
  show ?thesis
  proof (cases "rr \<noteq> 0 \<and> err \<noteq> WSA_IO_PENDING")
    case False
    with run have "Session_Disconnect os i (Cause r) w = w4" by (simp only: if_False)
    then show ?thesis by (intro exI [of _ d0] exI [of _ "[]"]) (simp add: w4)
  next
    case True
    note run' = run [unfolded if_P [OF True] HandleError_not_connected [OF nc]]
    show ?thesis
    proof (cases "err = WSAECONNRESET \<or> err = WSAECONNABORTED")
      case True
      note run'' = run' [unfolded if_P [OF True]]
      show ?thesis unfolding run''
        by (intro exI [of _ "d0\<lparr>iocpObj := None\<rparr>"] exI [of _ "[]"]) (simp add: w4 upd_sess_def)
    next
      case False
      note run'' = run' [unfolded if_not_P [OF False]]
      show ?thesis unfolding run''
        by (intro exI [of _ "d0\<lparr>iocpObj := None\<rparr>"] exI [of _ "[SysPrintInt ''Error Code : '' err]"])
          (simp add: w4 upd_sess_def)
    qed
  qed
qed

lemma Disconnect_shape: "disc_shape i w (Session_Disconnect os i c w)"
proof (cases "IsConnected i w")
  case False
  have same: "(c_sess w i)\<lparr>s_isConnected := False\<rparr> = c_sess w i"
    using False by (cases "c_sess w i") (simp add: IsConnected_def)
  have "w = w\<lparr>c_trace := c_trace w @ [], c_sess := (c_sess w)(i := (c_sess w i)
      \<lparr>s_isConnected := False, s_disconnectEvent := s_disconnectEvent (c_sess w i)\<rparr>)\<rparr>"
    using same by simp
  with False show ?thesis
    unfolding disc_shape_def Disconnect_not_connected [OF False] by fastforce
next
  case True
  obtain r where c: "c = Cause r" by (cases c)
  obtain d rest where "Session_Disconnect os i (Cause r) w =
      w\<lparr>c_trace := c_trace w @ [SysPrint (''Disconnect reason : '' @ r),
            SysDisconnectEx (s_socket (c_sess w i))] @ rest,
        c_sess := (c_sess w)(i := (c_sess w i)\<lparr>s_isConnected := False, s_disconnectEvent := d\<rparr>)\<rparr>"
      and "rest = [] \<or> (\<exists>e. rest = [SysPrintInt ''Error Code : '' e])"
    using Disconnect_connected [OF True] by blast
  then show ?thesis
    unfolding disc_shape_def c using True
    by (intro exI [of _ "[SysPrint (''Disconnect reason : '' @ r),
        SysDisconnectEx (s_socket (c_sess w i))] @ rest"] exI [of _ False] exI [of _ d]) auto
qed

lemma HandleError_shape: "disc_shape i w (Session_HandleError os i e w)"
proof (cases "e = WSAECONNRESET \<or> e = WSAECONNABORTED")
  case True
  then show ?thesis using Disconnect_shape by (simp add: Session_HandleError.simps)
next
  case False
  have "w\<lparr>c_trace := t\<rparr> = w\<lparr>c_trace := t, c_sess := (c_sess w)(i := (c_sess w i)
      \<lparr>s_isConnected := s_isConnected (c_sess w i),
       s_disconnectEvent := s_disconnectEvent (c_sess w i)\<rparr>)\<rparr>" for t
    by simp
  with False show ?thesis
    unfolding disc_shape_def
    by (intro exI [of _ "[SysPrintInt ''Error Code : '' e]"]
        exI [of _ "s_isConnected (c_sess w i)"] exI [of _ "s_disconnectEvent (c_sess w i)"])
      (simp add: Session_HandleError.simps call_eq IsConnected_def)
qed

lemma disc_shapeD:
  assumes "disc_shape i w w'"
  shows "c_sbm w' = c_sbm w" and "c_service w' = c_service w" and "c_listener w' = c_listener w"
    and "c_nsess w' = c_nsess w" and "c_tid w' = c_tid w" and "core.more w' = core.more w"
    and "j \<noteq> i \<Longrightarrow> c_sess w' j = c_sess w j"
    and "s_sendQueue (c_sess w' j) = s_sendQueue (c_sess w j)"
    and "s_sendBuffers (c_sess w' j) = s_sendBuffers (c_sess w j)"
    and "s_sendRegistered (c_sess w' j) = s_sendRegistered (c_sess w j)"
    and "s_recvBuffer (c_sess w' j) = s_recvBuffer (c_sess w j)"
    and "s_socket (c_sess w' j) = s_socket (c_sess w j)"
    and "s_service (c_sess w' j) = s_service (c_sess w j)"
    and "s_sendEvent (c_sess w' j) = s_sendEvent (c_sess w j)"
    and "s_recvEvent (c_sess w' j) = s_recvEvent (c_sess w j)"
    and "s_connectEvent (c_sess w' j) = s_connectEvent (c_sess w j)"
    and "IsConnected j w' \<Longrightarrow> IsConnected j w"
  using assms by (auto simp: disc_shape_def IsConnected_def split: if_splits)

end
