(* ===== verification/Listener.thy ===== *)
theory Listener
  imports Session
begin

text \<open>
  Accepting connections and dispatching completions: \<^verbatim>\<open>ServerCore/Listener.{h,cpp}\<close>,
  \<^verbatim>\<open>ServerService.{h,cpp}\<close>, \<^verbatim>\<open>ClientService.{h,cpp}\<close> and
  \<^verbatim>\<open>IocpCore.{h,cpp}\<close>. \<^verbatim>\<open>RegisterAccept\<close> calls itself again for as long as
  \<^verbatim>\<open>AcceptEx\<close> fails at once: a partial function whose value \<open>None\<close> is an endless
  recursion.
\<close>

section \<open>\<^verbatim>\<open>Listener\<close>\<close>

definition upd_accept :: "nat \<Rightarrow> (accept_event \<Rightarrow> accept_event) \<Rightarrow> 'a core_scheme \<Rightarrow> 'a core_scheme" where
  "upd_accept k f w =
     w\<lparr>c_listener := (c_listener w)\<lparr>l_acceptEvents :=
         (l_acceptEvents (c_listener w))[k := f (l_acceptEvents (c_listener w) ! k)]\<rparr>\<rparr>"

text \<open>One attempt: \<open>True\<close> asks for another.\<close>

definition accept_attempt :: "winsock \<Rightarrow> nat \<Rightarrow> 'a core_scheme \<Rightarrow> (bool \<times> 'a core_scheme) res" where
  "accept_attempt os k w =
     (if \<not> l_serverService (c_listener w) then Inl NullDeref
      else bind_res (CreateSession os w) (\<lambda>(sess, w1).
        let w2 = upd_accept k (\<lambda>ev. (IocpEvent_Init ev)\<lparr>ae_session := sess\<rparr>) w1 in
        case sess of
          None \<Rightarrow> Inl NullDeref
        | Some i \<Rightarrow>
            bind_res (RecvBuffer_WritePos (s_recvBuffer (c_sess w2 i))) (\<lambda>pos.
              case call os (SysAcceptEx (l_socket (c_listener w2)) (s_socket (c_sess w2 i)) pos) w2 of
                ((r, err), w3) \<Rightarrow> Inr (r = 0 \<and> err \<noteq> ERROR_IO_PENDING, w3))))"

partial_function (option) Listener_RegisterAccept :: "winsock \<Rightarrow> nat \<Rightarrow> 'a core_scheme \<Rightarrow> 'a core_scheme run" where
  "Listener_RegisterAccept os k w =
     (case accept_attempt os k w of
        Inl e \<Rightarrow> Some (Inl e)
      | Inr (again, w') \<Rightarrow> if again then Listener_RegisterAccept os k w' else ret w')"

text \<open>
  The loop over \<^verbatim>\<open>acceptCount\<close> events. The pointer \<^verbatim>\<open>service\<close> is the program's service,
  and its port the one that \<^verbatim>\<open>Register\<close> uses.
\<close>

definition acceptCount :: nat where
  "acceptCount = 3"

fun accept_loop :: "winsock \<Rightarrow> nat \<Rightarrow> 'a core_scheme \<Rightarrow> 'a core_scheme run" where
  "accept_loop os 0 w = ret w"
| "accept_loop os (Suc n) w =
     (let k = length (l_acceptEvents (c_listener w));
          w1 = w\<lparr>c_listener := (c_listener w)\<lparr>l_acceptEvents :=
                l_acceptEvents (c_listener w) @ [AcceptEvent\<lparr>iocpObj := Some ObjListener\<rparr>]\<rparr>\<rparr> in
      bind_run (Listener_RegisterAccept os k w1) (accept_loop os n))"

definition Listener_StartAccept :: "winsock \<Rightarrow> 'a core_scheme \<Rightarrow> (bool \<times> 'a core_scheme) run" where
  "Listener_StartAccept os w =
     (let w0 = w\<lparr>c_listener := (c_listener w)\<lparr>l_serverService := True\<rparr>\<rparr> in
      case with_trace (CreateSocket os) w0 of (sock, w1') \<Rightarrow>
        let w1 = w1'\<lparr>c_listener := (c_listener w1')\<lparr>l_socket := sock\<rparr>\<rparr> in
        if sock = INVALID_SOCKET then ret (False, w1)
        else
          (case with_trace (SetReuseAddress os sock True) w1 of (ok2, w2) \<Rightarrow>
           if \<not> ok2 then ret (False, w2)
           else
             (case with_trace (SetLinger os sock 0 0) w2 of (ok3, w3) \<Rightarrow>
              if \<not> ok3 then ret (False, w3)
              else if \<not> sv_iocpCore (c_service w3) then Some (Inl NullDeref)
              else
                (case IocpCore_Register os sock w3 of (ok4, w4) \<Rightarrow>
                 if ok4 = False then ret (False, w4)
                 else
                   (case with_trace (Bind os sock (sv_sockAddr (c_service w4))) w4 of (ok5, w5) \<Rightarrow>
                    if \<not> ok5 then ret (False, w5)
                    else
                      (case with_trace (Listen os sock SOMAXCONN) w5 of (ok6, w6) \<Rightarrow>
                       if \<not> ok6 then ret (False, w6)
                       else bind_run (accept_loop os acceptCount w6) (\<lambda>w7. ret (True, w7))))))))"

text \<open>\<open>peer\<close> is the address \<^verbatim>\<open>getpeername\<close> stores.\<close>

definition Listener_ProcessAccept ::
    "('a core_scheme) env \<Rightarrow> sockaddr_in \<Rightarrow> nat \<Rightarrow> 'a core_scheme \<Rightarrow> 'a core_scheme run" where
  "Listener_ProcessAccept E peer k w =
     (if \<not> k < length (l_acceptEvents (c_listener w)) then Some (Inl OutOfBounds)
      else
        (case ae_session (l_acceptEvents (c_listener w) ! k) of
           None \<Rightarrow> Some (Inl NullDeref)
         | Some i \<Rightarrow>
             (case with_trace (SetUpdateAcceptSocket (env_os E) (s_socket (c_sess w i)) (l_socket (c_listener w))) w of
                (ok, w1) \<Rightarrow>
                if \<not> ok then
                  Listener_RegisterAccept (env_os E) k (print (env_os E) ''SetUpdateAcceptSocket Error'' w1)
                else
                  (case call (env_os E) (SysGetpeername (s_socket (c_sess w1 i))) w1 of ((r, _), w2) \<Rightarrow>
                     if r = SOCKET_ERROR then
                       Listener_RegisterAccept (env_os E) k (print (env_os E) ''getpeername Error'' w2)
                     else
                       bind_run (Session_ProcessConnect E i (SetSockAddr i peer w2)) (\<lambda>w3.
                         Listener_RegisterAccept (env_os E) k w3)))))"

definition Listener_CloseSocket :: "winsock \<Rightarrow> 'a core_scheme \<Rightarrow> 'a core_scheme" where
  "Listener_CloseSocket os w =
     (case with_trace (CloseSocket os (l_socket (c_listener w))) w of (sock, w1) \<Rightarrow>
        w1\<lparr>c_listener := (c_listener w1)\<lparr>l_socket := sock\<rparr>\<rparr>)"

definition Listener_destroy :: "winsock \<Rightarrow> 'a core_scheme \<Rightarrow> 'a core_scheme" where
  "Listener_destroy os w =
     (let w1 = Listener_CloseSocket os w in
      w1\<lparr>c_listener := (c_listener w1)\<lparr>l_acceptEvents := []\<rparr>\<rparr>)"

section \<open>Starting a service\<close>

definition ServerService_Start :: "winsock \<Rightarrow> 'a core_scheme \<Rightarrow> (bool \<times> 'a core_scheme) run" where
  "ServerService_Start os w = Listener_StartAccept os (w\<lparr>c_listener := Listener\<rparr>)"

definition ClientService_Start :: "winsock \<Rightarrow> 'a core_scheme \<Rightarrow> (bool \<times> 'a core_scheme) res" where
  "ClientService_Start os w =
     bind_res (CreateSession os w) (\<lambda>(sess, w1).
       case sess of None \<Rightarrow> Inl NullDeref | Some i \<Rightarrow> Session_Connect os i w1)"

section \<open>\<^verbatim>\<open>IocpCore\<close>\<close>

text \<open>The event at an address, and the dispatch of the virtual \<^verbatim>\<open>ObserveIO\<close>.\<close>

definition event_obj :: "event_ref \<Rightarrow> 'a core_scheme \<Rightarrow> iocp_obj option" where
  "event_obj ev w =
     (case ev of
        ConnectEvent i \<Rightarrow> iocpObj (s_connectEvent (c_sess w i))
      | SendEvent i \<Rightarrow> iocpObj (s_sendEvent (c_sess w i))
      | RecvEvent i \<Rightarrow> iocpObj (s_recvEvent (c_sess w i))
      | DisconnectEvent i \<Rightarrow> iocpObj (s_disconnectEvent (c_sess w i))
      | AcceptEventAt k \<Rightarrow>
          if k < length (l_acceptEvents (c_listener w))
          then iocpObj (l_acceptEvents (c_listener w) ! k) else None)"

definition event_kind :: "event_ref \<Rightarrow> 'a core_scheme \<Rightarrow> event_type" where
  "event_kind ev w =
     (case ev of
        ConnectEvent i \<Rightarrow> eventType (s_connectEvent (c_sess w i))
      | SendEvent i \<Rightarrow> eventType (s_sendEvent (c_sess w i))
      | RecvEvent i \<Rightarrow> eventType (s_recvEvent (c_sess w i))
      | DisconnectEvent i \<Rightarrow> eventType (s_disconnectEvent (c_sess w i))
      | AcceptEventAt k \<Rightarrow> ACCEPT)"

definition IocpObj_ObserveIO ::
    "('a core_scheme) env \<Rightarrow> sockaddr_in \<Rightarrow> event_ref \<Rightarrow> int \<Rightarrow> 'a core_scheme \<Rightarrow> 'a core_scheme run" where
  "IocpObj_ObserveIO E peer ev n w =
     (case event_obj ev w of
        None \<Rightarrow> Some (Inl NullDeref)
      | Some (ObjSession i) \<Rightarrow> Session_ObserveIO E i (event_kind ev w) n w
      | Some ObjListener \<Rightarrow>
          (case ev of AcceptEventAt k \<Rightarrow> Listener_ProcessAccept E peer k w
           | _ \<Rightarrow> Some (Inl NullDeref)))"

text \<open>
  What \<^verbatim>\<open>GetQueuedCompletionStatus\<close> stores: a completion with its byte count, or no event at
  all (a timeout, a closed port).
\<close>

definition IocpCore_ObserveIO ::
    "('a core_scheme) env \<Rightarrow> sockaddr_in \<Rightarrow> int \<Rightarrow> event_ref option \<Rightarrow> int \<Rightarrow> 'a core_scheme \<Rightarrow>
     (bool \<times> 'a core_scheme) run" where
  "IocpCore_ObserveIO E peer time iocpEvent bytesTransferred w =
     (case call (env_os E) (SysGetQueued time) w of ((r, err), w1) \<Rightarrow>
        let dispatch = (case iocpEvent of
            None \<Rightarrow> Some (Inl NullDeref)
          | Some ev \<Rightarrow> IocpObj_ObserveIO E peer ev bytesTransferred w1) in
        if r \<noteq> 0 then bind_run dispatch (\<lambda>w2. ret (True, w2))
        else if err = WAIT_TIMEOUT then ret (False, w1)
        else bind_run dispatch (\<lambda>w2. ret (False, w2)))"

definition Service_ObserveIO ::
    "('a core_scheme) env \<Rightarrow> sockaddr_in \<Rightarrow> int \<Rightarrow> event_ref option \<Rightarrow> int \<Rightarrow> 'a core_scheme \<Rightarrow>
     (bool \<times> 'a core_scheme) run" where
  "Service_ObserveIO E peer time iocpEvent n w =
     (if sv_iocpCore (c_service w) then IocpCore_ObserveIO E peer time iocpEvent n w else ret (False, w))"

end
