(* ===== verification/Game.thy ===== *)
theory Game
  imports Zero_Fields Listener
begin

text \<open>
  The two applications, \<^verbatim>\<open>GameServer\<close> and \<^verbatim>\<open>GameClient\<close>: the session classes,
  the tables of packet handlers and the handlers, the manager of sessions, and the main functions. The
  state of a process is the core extended by its handler table and, on the server, the set of the
  manager, a \<^verbatim>\<open>std::set\<close> of pointers and so ordered by the addresses of the sessions.
\<close>

datatype packet_handler = INVALID_Handler | C_LOGIN_Handler | S_LOGIN_Handler

record game = core +
  g_packetHandlers :: "packet_handler option list"
  g_sessions :: "sid list"
  g_address :: "sid \<Rightarrow> nat"

definition C_LOGIN :: uint16 where "C_LOGIN = 0"
definition S_LOGIN :: uint16 where "S_LOGIN = 1"

section \<open>\<^verbatim>\<open>SessionManager\<close>\<close>

definition SessionManager_Add :: "sid \<Rightarrow> game \<Rightarrow> game" where
  "SessionManager_Add i w =
     (if i \<in> set (g_sessions w) then w else w\<lparr>g_sessions := insort_key (g_address w) i (g_sessions w)\<rparr>)"

definition SessionManager_Remove :: "sid \<Rightarrow> game \<Rightarrow> game" where
  "SessionManager_Remove i w = w\<lparr>g_sessions := remove1 i (g_sessions w)\<rparr>"

fun broadcast_loop :: "winsock \<Rightarrow> sid list \<Rightarrow> bid option \<Rightarrow> game \<Rightarrow> game res" where
  "broadcast_loop os [] buffer w = Inr w"
| "broadcast_loop os (i # is) buffer w = bind_res (Session_Send os i buffer w) (broadcast_loop os is buffer)"

definition SessionManager_Broadcast :: "winsock \<Rightarrow> bid option \<Rightarrow> game \<Rightarrow> game res" where
  "SessionManager_Broadcast os buffer w = broadcast_loop os (g_sessions w) buffer w"

section \<open>Handlers\<close>

definition make_packet :: "zero_message \<Rightarrow> uint16 \<Rightarrow> game \<Rightarrow> (bid option \<times> game) res" where
  "make_packet packet pid w =
     bind_res (MakeSendBuffer zero_message_class packet pid (c_tid w) (c_sbm w)) (\<lambda>(b, m).
       Inr (b, w\<lparr>c_sbm := m\<rparr>))"

definition Client_MakeSendBuffer :: "zero_message \<Rightarrow> game \<Rightarrow> (bid option \<times> game) res" where
  "Client_MakeSendBuffer packet = make_packet packet S_LOGIN"

definition Server_MakeSendBuffer :: "zero_message \<Rightarrow> game \<Rightarrow> (bid option \<times> game) res" where
  "Server_MakeSendBuffer packet = make_packet packet C_LOGIN"

definition release_opt :: "bid option \<Rightarrow> game \<Rightarrow> game" where
  "release_opt b = upd_sbm (release_all [b])"

definition Handle_INVALID :: "winsock \<Rightarrow> game \<Rightarrow> (bool \<times> game) run" where
  "Handle_INVALID os w = ret (False, print os ''Invalid Handle'' w)"

text \<open>The local \<^verbatim>\<open>sendBuffer\<close> is released on return.\<close>

definition Handle_C_LOGIN :: "winsock \<Rightarrow> sid \<Rightarrow> zero_message \<Rightarrow> game \<Rightarrow> (bool \<times> game) run" where
  "Handle_C_LOGIN os i packet w =
     (let w1 = print os ''Client Login'' w in
      lift_res (bind_res (Client_MakeSendBuffer None w1) (\<lambda>(sendBuffer, w2).
        bind_res (Session_Send os i sendBuffer w2) (\<lambda>w3. Inr (True, release_opt sendBuffer w3)))))"

definition Handle_S_LOGIN :: "winsock \<Rightarrow> sid \<Rightarrow> zero_message \<Rightarrow> game \<Rightarrow> (bool \<times> game) run" where
  "Handle_S_LOGIN os i packet w = ret (True, print os ''Connected'' w)"

text \<open>What the lambdas of the tables call.\<close>

definition invoke_handler ::
    "winsock \<Rightarrow> sid \<Rightarrow> byte list \<Rightarrow> packet_handler \<Rightarrow> int \<Rightarrow> int \<Rightarrow> game \<Rightarrow> (bool \<times> game) run" where
  "invoke_handler os i mem h buffer len w =
     (case h of
        INVALID_Handler \<Rightarrow> Handle_INVALID os w
      | C_LOGIN_Handler \<Rightarrow> HandlePacket zero_message_class (Handle_C_LOGIN os i) mem buffer len w
      | S_LOGIN_Handler \<Rightarrow> HandlePacket zero_message_class (Handle_S_LOGIN os i) mem buffer len w)"

text \<open>\<^verbatim>\<open>packetHandlers[C_LOGIN] = ...\<close> is in range: the table has 65535 entries.\<close>

definition ClientPacketHandler_Init :: "game \<Rightarrow> game" where
  "ClientPacketHandler_Init w =
     (let tbl = PacketHandler_Init INVALID_Handler (g_packetHandlers w) in
      w\<lparr>g_packetHandlers := tbl[unat C_LOGIN := Some C_LOGIN_Handler]\<rparr>)"

definition ServerPacketHandler_Init :: "game \<Rightarrow> game" where
  "ServerPacketHandler_Init w =
     (let tbl = PacketHandler_Init INVALID_Handler (g_packetHandlers w) in
      w\<lparr>g_packetHandlers := tbl[unat S_LOGIN := Some S_LOGIN_Handler]\<rparr>)"

section \<open>Sessions\<close>

text \<open>
  \<^verbatim>\<open>OnRecvPacket\<close> of both session classes dispatches and ignores the handler's answer; \<open>mem\<close> is
  the block of the session's receive buffer.
\<close>

definition OnRecvPacket :: "winsock \<Rightarrow> sid \<Rightarrow> byte list \<Rightarrow> int \<Rightarrow> int \<Rightarrow> game \<Rightarrow> game run" where
  "OnRecvPacket os i mem buffer len w =
     bind_run (PacketHandler_HandlePacket (invoke_handler os i mem) (g_packetHandlers w) mem buffer len w)
       (\<lambda>(_, w1). ret w1)"

definition Game_OnRecv :: "winsock \<Rightarrow> sid \<Rightarrow> int \<Rightarrow> int \<Rightarrow> game \<Rightarrow> (int \<times> game) run" where
  "Game_OnRecv os i buffer len w =
     (let mem = rb_buffer (s_recvBuffer (c_sess w i)) in
      PacketSession_OnRecv (OnRecvPacket os i mem) mem buffer len w)"

definition ClientSession :: "winsock \<Rightarrow> game env" where
  "ClientSession os =
     \<lparr>env_os = os,
      OnConnected = (\<lambda>i w. ret (SessionManager_Add i w)),
      OnSend = (\<lambda>i len w. ret w),
      OnRecv = Game_OnRecv os,
      OnDisconnected = (\<lambda>i w. ret (SessionManager_Remove i w))\<rparr>"

definition ServerSession_OnConnected :: "winsock \<Rightarrow> sid \<Rightarrow> game \<Rightarrow> game run" where
  "ServerSession_OnConnected os i w =
     lift_res (bind_res (Server_MakeSendBuffer None w) (\<lambda>(sendBuffer, w1).
       if sendBuffer \<noteq> None then
         bind_res (Session_Send os i sendBuffer w1) (\<lambda>w2. Inr (release_opt sendBuffer w2))
       else Inr w1))"

definition ServerSession :: "winsock \<Rightarrow> game env" where
  "ServerSession os =
     \<lparr>env_os = os,
      OnConnected = ServerSession_OnConnected os,
      OnSend = (\<lambda>i len w. ret w),
      OnRecv = Game_OnRecv os,
      OnDisconnected = (\<lambda>i w. ret (print os ''OnDisconnected'' w))\<rparr>"

section \<open>The main functions\<close>

text \<open>
  A process starts with static data only. The service's constructor needs what \<^verbatim>\<open>StartUp\<close>
  fails to return (\<open>indet\<close>) and the address \<open>pton\<close> of the string; five threads, or one, call
  \<^verbatim>\<open>ObserveIO\<close> for ever.
\<close>

definition THREAD_COUNT :: nat where "THREAD_COUNT = 5"

definition game_start ::
    "winsock \<Rightarrow> bool \<Rightarrow> (string \<Rightarrow> uint32) \<Rightarrow> service_type \<Rightarrow> game \<Rightarrow> game" where
  "game_start os indet pton ty w =
     (case Service os indet pton ty ''127.0.0.1'' 27015 (c_trace w) of (sv, tr) \<Rightarrow>
        w\<lparr>c_service := sv, c_trace := tr\<rparr>)"

definition GameServer_main ::
    "winsock \<Rightarrow> bool \<Rightarrow> (string \<Rightarrow> uint32) \<Rightarrow> game \<Rightarrow> ((int + nat) \<times> game) run" where
  "GameServer_main os indet pton w =
     (let w1 = print os ''==== SERVER ===='' w;
          w2 = ClientPacketHandler_Init w1;
          w3 = game_start os indet pton SERVER w2 in
      bind_run (ServerService_Start os w3) (\<lambda>(ok, w4).
        if \<not> ok then ret (Inl 1, print os ''Server Service Error'' w4)
        else ret (Inr THREAD_COUNT, w4)))"

definition GameClient_main ::
    "winsock \<Rightarrow> bool \<Rightarrow> (string \<Rightarrow> uint32) \<Rightarrow> game \<Rightarrow> ((int + nat) \<times> game) run" where
  "GameClient_main os indet pton w =
     (let w1 = print os ''==== CLIENT ===='' w;
          w2 = ServerPacketHandler_Init w1;
          w3 = game_start os indet pton CLIENT w2 in
      bind_run (lift_res (ClientService_Start os w3)) (\<lambda>(ok, w4).
        if \<not> ok then ret (Inl 1, print os ''Server Service Error'' w4)
        else ret (Inr 1, w4)))"

end
