(* ===== verification/Game_Login.thy ===== *)
theory Game_Login
  imports Game
begin

text \<open>
  The login exchange of the two applications: what the server does with any sequence of packets a
  client sends, what the client sends when it is connected and does with the answer. The server is
  compared with an abstract machine that only counts logins and lists the calls to the system.
\<close>

section \<open>Sending on a session\<close>

text \<open>No send fails at once.\<close>

definition sends_ok :: "winsock \<Rightarrow> bool" where
  "sends_ok os \<longleftrightarrow> (\<forall>n c. fst (os n c) \<noteq> SOCKET_ERROR \<or> snd (os n c) = WSA_IO_PENDING)"

definition can_make :: "'a core_scheme \<Rightarrow> bool" where
  "can_make w \<longleftrightarrow> sbm_inv (c_sbm w) \<and> c_tid w < length (m_local (c_sbm w)) \<and>
     \<not> own_chunk_open (c_sbm w) (c_tid w)"

text \<open>Nothing is being sent or waits to be sent.\<close>

definition idle :: "session \<Rightarrow> bool" where
  "idle s \<longleftrightarrow> \<not> s_sendRegistered s \<and> s_sendQueue s = [] \<and> s_sendBuffers s = []"

lemma drain_queue_Some [simp]: "drain_queue (map Some bs) acc = Inr (acc @ bs)"
  by (induction bs arbitrary: acc) simp_all

lemma buffer_content_retain [simp]: "buffer_content (buffer_retain b m) = buffer_content m"
  by (simp add: buffer_content_def buffer_retain_def fun_eq_iff)

lemma Send_queues:
  assumes "IsConnected i w" and "s_sendRegistered (c_sess w i)"
  shows "Session_Send os i (Some b) w = Inr (w\<lparr>c_sbm := buffer_retain b (c_sbm w),
    c_sess := (c_sess w)(i := (c_sess w i)\<lparr>s_sendQueue := s_sendQueue (c_sess w i) @ [Some b],
      s_sendRegistered := True\<rparr>)\<rparr>)"
  using assms by (simp add: Session_Send_def Let_def retain_opt_def upd_sbm_def upd_sess_def)

lemma Send_idle:
  assumes "IsConnected i w" and "idle (c_sess w i)" and "sends_ok os"
  shows "Session_Send os i (Some b) w = Inr (w\<lparr>c_sbm := buffer_retain b (c_sbm w),
    c_sess := (c_sess w)(i := (c_sess w i)\<lparr>s_sendRegistered := True,
      s_sendEvent := set_obj (Some (ObjSession i)) (s_sendEvent (c_sess w i)),
      s_sendQueue := [], s_sendBuffers := [b]\<rparr>),
    c_trace := c_trace w @ [SysSend (s_socket (c_sess w i)) [buffer_content (c_sbm w) b]]\<rparr>)"
proof -
  obtain r e where o: "os (length (c_trace w)) (SysSend (s_socket (c_sess w i)) [buffer_content (c_sbm w) b]) = (r, e)"
    by (metis surj_pair)
  then have ok: "(r = SOCKET_ERROR \<and> e \<noteq> WSA_IO_PENDING) = False"
    using assms(3) unfolding sends_ok_def by (metis fst_conv snd_conv)
  show ?thesis
    using assms(1,2) o
    by (simp add: ok Session_Send_def Session_RegisterSend_def Let_def retain_opt_def upd_sbm_def
        upd_sess_def idle_def IsConnected_def call_eq)
qed

section \<open>The two packets\<close>

definition login_request :: "byte list" where
  "login_request = packet_bytes \<lparr>pk_id = C_LOGIN, pk_data = []\<rparr>"

definition login_answer :: "byte list" where
  "login_answer = packet_bytes \<lparr>pk_id = S_LOGIN, pk_data = []\<rparr>"

lemma login_bytes: "login_request = [4, 0, 0, 0]" "login_answer = [4, 0, 1, 0]"
  by (simp_all add: login_request_def login_answer_def packet_bytes_def header_bytes_def
      bytes_le16_def C_LOGIN_def S_LOGIN_def)

lemma make_packet_empty:
  assumes "can_make w"
  shows "\<exists>b m. make_packet None pid w = Inr (Some b, w\<lparr>c_sbm := m\<rparr>) \<and> can_make (w\<lparr>c_sbm := m\<rparr>) \<and>
    live m b \<and> \<not> live (c_sbm w) b \<and> m_brefs m b = 1 \<and> kept (c_sbm w) m \<and>
    buffer_content m b = packet_bytes \<lparr>pk_id = pid, pk_data = []\<rparr>"
proof -
  have n: "ByteSizeLong zero_message_class None = 0" "Zero_ok None"
    by (simp_all add: zero_message_class_def Zero_ByteSizeLong_def Zero_ok_def)
  obtain b m bs where M: "MakeSendBuffer zero_message_class None pid (c_tid w) (c_sbm w) = Inr (Some b, m)"
      "sbm_inv m" "\<not> live (c_sbm w) b" "live m b" "m_brefs m b = 1" "kept (c_sbm w) m" "length bs = 0"
      "buffer_content m b = packet_bytes \<lparr>pk_id = pid, pk_data = bs\<rparr>" "\<not> own_chunk_open m (c_tid w)"
      "length (m_local m) = length (m_local (c_sbm w))"
    using zero.make_ok [of "c_sbm w" "c_tid w" None pid] assms n by (auto simp: can_make_def)
  then show ?thesis using assms by (auto simp: make_packet_def can_make_def)
qed

text \<open>The local pointer goes; the session's copy keeps the buffer.\<close>

lemma release_retained:
  "live m b \<Longrightarrow> buffer_release b (buffer_retain b m) = m"
  by (simp add: buffer_release_def buffer_retain_def live_def)

section \<open>Dispatching a packet\<close>

lemma Client_table:
  "g_packetHandlers v = packetHandlers \<Longrightarrow>
   g_packetHandlers (ClientPacketHandler_Init v) =
     (replicate UINT16_MAX (Some INVALID_Handler))[0 := Some C_LOGIN_Handler]"
  by (simp add: ClientPacketHandler_Init_def PacketHandler_Init_eq packetHandlers_def C_LOGIN_def)

lemma Server_table:
  "g_packetHandlers v = packetHandlers \<Longrightarrow>
   g_packetHandlers (ServerPacketHandler_Init v) =
     (replicate UINT16_MAX (Some INVALID_Handler))[1 := Some S_LOGIN_Handler]"
  by (simp add: ServerPacketHandler_Init_def PacketHandler_Init_eq packetHandlers_def S_LOGIN_def)

text \<open>
  A packet in memory: its header, and its payload where the template looks for it. The pieces are
  those \<open>deliver\<close> hands to the callback.
\<close>

definition packet_at :: "byte list \<Rightarrow> int \<Rightarrow> packet \<Rightarrow> bool" where
  "packet_at mem off p \<longleftrightarrow> packet_ok p \<and>
     read_header mem off = Inr \<lparr>ph_size = word_of_nat (4 + length (pk_data p)), ph_id = pk_id p\<rparr> \<and>
     mem_read mem (off + 4) (packet_length p - 4) = Inr (pk_data p)"

lemma packet_at_region:
  assumes "mem_read mem off n = Inr (packet_bytes p @ tail)" and "packet_ok p"
  shows "packet_at mem off p"
proof -
  let ?h = "\<lparr>ph_size = word_of_nat (4 + length (pk_data p)), ph_id = pk_id p\<rparr>"
  have r: "mem_read mem off n = Inr (header_bytes ?h @ pk_data p @ tail)"
    using assms(1) by (simp add: packet_bytes_def)
  have r1: "mem_read mem (off + 4) (int (length (pk_data p @ tail))) = Inr (pk_data p @ tail)"
    using mem_read_append(2) [OF r] by simp
  have "window (nat off) 4 mem = header_bytes ?h"
    using mem_read_append(1) [OF r] by (simp add: mem_read_Inr)
  then have "read_header mem off = Inr ?h"
    using assms(1) by (intro read_header_written) (auto simp: mem_read_Inr)
  with mem_read_append(1) [OF r1] assms(2) show ?thesis
    by (simp add: packet_at_def packet_length_def)
qed

lemma deliver_reaches:
  assumes "0 \<le> off" and "mem_read mem off n = Inr (concat (map packet_bytes ps) @ rest)"
    and "\<forall>p \<in> set ps. packet_ok p" and "P done s"
    and step: "\<And>done p off s. P done s \<Longrightarrow> p \<in> set ps \<Longrightarrow> packet_at mem off p \<Longrightarrow>
      \<exists>s'. cb off (packet_length p) s = ret s' \<and> P (done @ [p]) s'"
  shows "\<exists>s'. deliver cb off ps s = ret s' \<and> P (done @ ps) s'"
  using assms
proof (induction ps arbitrary: off n s "done")
  case (Cons p ps)
  let ?tail = "concat (map packet_bytes ps) @ rest"
  have r: "mem_read mem off n = Inr (packet_bytes p @ ?tail)" using Cons.prems(2) by simp
  have at: "packet_at mem off p" using r Cons.prems(3) by (intro packet_at_region) auto
  obtain s1 where s1: "cb off (packet_length p) s = ret s1" "P (done @ [p]) s1"
    using Cons.prems(5) [OF Cons.prems(4) _ at] by auto
  have r': "mem_read mem (off + packet_length p) (int (length ?tail)) = Inr ?tail"
    using mem_read_append(2) [OF r] mem_read_length [OF r] by (simp add: length_packet_bytes)
  have "\<exists>s'. deliver cb (off + packet_length p) ps s1 = ret s' \<and> P ((done @ [p]) @ ps) s'"
    using Cons.prems(1,3,5) s1(2) r' packet_length_def [of p] by (intro Cons.IH) auto
  with s1(1) show ?case by simp
qed simp

text \<open>A packet whose id has an entry goes to that entry's handler, its payload parsed.\<close>

lemma dispatch:
  assumes at: "packet_at mem off p" and id: "unat (pk_id p) < length (g_packetHandlers w)"
    and h: "g_packetHandlers w ! unat (pk_id p) = Some h"
  shows "OnRecvPacket os i mem off (packet_length p) w = bind_run
    (case h of INVALID_Handler \<Rightarrow> Handle_INVALID os w
       | C_LOGIN_Handler \<Rightarrow> Handle_C_LOGIN os i (snd (ParseFromArray zero_message_class (pk_data p))) w
       | S_LOGIN_Handler \<Rightarrow> Handle_S_LOGIN os i (snd (ParseFromArray zero_message_class (pk_data p))) w)
    (\<lambda>(_, w1). ret w1)"
proof -
  have "in_int32 (packet_length p - 4)"
    using at by (simp add: packet_at_def packet_ok_def packet_length_def in_int32_def)
  note size = int_of_payload_size [OF this]
  have "read_header mem off = Inr \<lparr>ph_size = word_of_nat (4 + length (pk_data p)), ph_id = pk_id p\<rparr>"
    and "mem_read mem (off + 4) (packet_length p - 4) = Inr (pk_data p)"
    using at by (simp_all add: packet_at_def)
  then show ?thesis
    using id h
    by (simp add: OnRecvPacket_def PacketHandler_HandlePacket_def invoke_handler_def HandlePacket_def
        size split: packet_handler.split)
qed

section \<open>The server\<close>

text \<open>
  The abstract server counts the logins and lists the calls: one answer is sent, the answers to
  further requests wait in the queue of the session.
\<close>

fun react :: "SOCKET \<Rightarrow> packet \<Rightarrow> nat \<times> syscall list \<Rightarrow> nat \<times> syscall list" where
  "react sock p (n, tr) =
     (if pk_id p = C_LOGIN
      then (Suc n, tr @ SysPrint ''Client Login'' # (if n = 0 then [SysSend sock [login_answer]] else []))
      else (n, tr @ [SysPrint ''Invalid Handle'']))"

definition answers_queued :: "sbm \<Rightarrow> nat \<Rightarrow> session \<Rightarrow> bool" where
  "answers_queued m n s \<longleftrightarrow>
     (if n = 0 then idle s
      else s_sendRegistered s \<and> (\<exists>bs. s_sendQueue s = map Some bs \<and> length bs = n - 1 \<and>
        (\<forall>b \<in> set bs. live m b \<and> buffer_content m b = login_answer)))"

lemma answers_queued_kept: "answers_queued m n s \<Longrightarrow> kept m m' \<Longrightarrow> answers_queued m' n s"
  by (auto simp: answers_queued_def kept_def)

definition serving :: "sid \<Rightarrow> game \<Rightarrow> packet list \<Rightarrow> game \<Rightarrow> bool" where
  "serving i w0 done w \<longleftrightarrow> IsConnected i w \<and> can_make w \<and>
     g_packetHandlers w = g_packetHandlers w0 \<and> s_socket (c_sess w i) = s_socket (c_sess w0 i) \<and>
     (case fold (react (s_socket (c_sess w0 i))) done (0, c_trace w0) of
        (n, tr) \<Rightarrow> c_trace w = tr \<and> answers_queued (c_sbm w) n (c_sess w i))"

lemma login_step:
  assumes S: "serving i w0 done w" and os: "sends_ok os" and id: "pk_id p = C_LOGIN"
  shows "\<exists>w'. Handle_C_LOGIN os i x w = ret (True, w') \<and> serving i w0 (done @ [p]) w'"
proof -
  let ?sock = "s_socket (c_sess w0 i)"
  obtain n tr where nt: "fold (react ?sock) done (0, c_trace w0) = (n, tr)" by (metis surj_pair)
  have S': "IsConnected i w" "can_make w" "g_packetHandlers w = g_packetHandlers w0"
      "s_socket (c_sess w i) = ?sock" "c_trace w = tr" "answers_queued (c_sbm w) n (c_sess w i)"
    using S nt by (auto simp: serving_def)
  define w1 where "w1 = print os ''Client Login'' w"
  have w1: "w1 = w\<lparr>c_trace := tr @ [SysPrint ''Client Login'']\<rparr>" by (simp add: w1_def print_eq S'(5))
  have "can_make w1" using S'(2) by (simp add: w1 can_make_def)
  then obtain b m where M: "make_packet None S_LOGIN w1 = Inr (Some b, w1\<lparr>c_sbm := m\<rparr>)"
      "can_make (w1\<lparr>c_sbm := m\<rparr>)" "live m b" "kept (c_sbm w) m" "buffer_content m b = login_answer"
    using make_packet_empty [of w1 S_LOGIN] by (auto simp: w1 login_answer_def)
  let ?w2 = "w1\<lparr>c_sbm := m\<rparr>"
  have con: "IsConnected i ?w2" using S'(1) by (simp add: w1 IsConnected_def)
  have q: "answers_queued m n (c_sess ?w2 i)" using answers_queued_kept [OF S'(6) M(4)] by (simp add: w1)
  have "\<exists>w3. Session_Send os i (Some b) ?w2 = Inr w3 \<and> serving i w0 (done @ [p]) (release_opt (Some b) w3)"
  proof (cases "n = 0")
    case True
    with q have "idle (c_sess ?w2 i)" by (simp add: answers_queued_def)
    from Send_idle [OF con this os, of b] True show ?thesis
      using M S' nt id
      by (auto simp: serving_def answers_queued_def release_opt_def upd_sbm_def release_all_def
          release_retained IsConnected_def can_make_def w1)
  next
    case False
    with q have reg: "s_sendRegistered (c_sess ?w2 i)" by (simp add: answers_queued_def)
    obtain bs where bs: "s_sendQueue (c_sess w i) = map Some bs" "length bs = n - 1"
        "\<forall>b \<in> set bs. live m b \<and> buffer_content m b = login_answer"
      using q False by (auto simp: answers_queued_def w1)
    have "\<exists>bs'. map Some bs @ [Some b] = map Some bs' \<and> length bs' = n \<and>
        (\<forall>b \<in> set bs'. live m b \<and> buffer_content m b = login_answer)"
      using bs M(3,5) False by (intro exI [of _ "bs @ [b]"]) auto
    with Send_queues [OF con reg, of os b] False show ?thesis
      using M S' nt id bs(1)
      by (auto simp: serving_def answers_queued_def release_opt_def upd_sbm_def release_all_def
          release_retained IsConnected_def can_make_def w1)
  qed
  then show ?thesis
    using M(1) by (auto simp: Handle_C_LOGIN_def Client_MakeSendBuffer_def w1_def [symmetric] Let_def)
qed

lemma invalid_step:
  assumes "serving i w0 done w" and "pk_id p \<noteq> C_LOGIN"
  shows "\<exists>w'. Handle_INVALID os w = ret (False, w') \<and> serving i w0 (done @ [p]) w'"
  using assms
  by (auto simp: serving_def Handle_INVALID_def print_eq can_make_def IsConnected_def split: prod.splits)

definition session_ready :: "sid \<Rightarrow> 'a core_scheme \<Rightarrow> bool" where
  "session_ready i w \<longleftrightarrow> IsConnected i w \<and> can_make w \<and> idle (c_sess w i)"

definition server_tables :: "game \<Rightarrow> bool" where
  "server_tables w \<longleftrightarrow>
     g_packetHandlers w = g_packetHandlers (ClientPacketHandler_Init (w\<lparr>g_packetHandlers := packetHandlers\<rparr>))"

definition client_tables :: "game \<Rightarrow> bool" where
  "client_tables w \<longleftrightarrow>
     g_packetHandlers w = g_packetHandlers (ServerPacketHandler_Init (w\<lparr>g_packetHandlers := packetHandlers\<rparr>))"

definition recv_block :: "sid \<Rightarrow> 'a core_scheme \<Rightarrow> byte list" where
  "recv_block i w = rb_buffer (s_recvBuffer (c_sess w i))"

lemma id_in_table: "pid \<noteq> 0xFFFF \<Longrightarrow> unat (pid :: uint16) < UINT16_MAX"
proof -
  assume "pid \<noteq> 0xFFFF"
  then have "unat pid \<noteq> 65535" by (simp add: word_unat_eq_iff)
  moreover have "unat pid < 65536" using unsigned_less [of pid, where ?'a = nat] by simp
  ultimately show ?thesis by (simp add: UINT16_MAX_def)
qed

lemma server_packet:
  assumes S: "serving i w0 done w" and os: "sends_ok os" and tbl: "server_tables w0"
    and at: "packet_at mem off p" and id: "pk_id p \<noteq> 0xFFFF"
  shows "\<exists>w'. OnRecvPacket os i mem off (packet_length p) w = ret w' \<and> serving i w0 (done @ [p]) w'"
proof -
  have t: "g_packetHandlers w = (replicate UINT16_MAX (Some INVALID_Handler))[0 := Some C_LOGIN_Handler]"
    using S tbl Client_table by (auto simp: serving_def server_tables_def)
  have l: "unat (pk_id p) < UINT16_MAX" using id by (rule id_in_table)
  have n0: "unat (pk_id p) = 0 \<longleftrightarrow> pk_id p = C_LOGIN" by (simp add: C_LOGIN_def unat_eq_0)
  show ?thesis
  proof (cases "pk_id p = C_LOGIN")
    case True
    then have "g_packetHandlers w ! unat (pk_id p) = Some C_LOGIN_Handler"
      using l n0 by (simp add: t)
    from dispatch [OF at _ this, of os i] l
      login_step [OF S os True, of "snd (ParseFromArray zero_message_class (pk_data p))"]
    show ?thesis by (auto simp: t)
  next
    case False
    then have "g_packetHandlers w ! unat (pk_id p) = Some INVALID_Handler" using l n0 by (simp add: t)
    from dispatch [OF at _ this, of os i] invalid_step [OF S False, of os] l show ?thesis
      by (auto simp: t)
  qed
qed

lemma server_reacts:
  assumes "session_ready i w" and "sends_ok os" and "server_tables w"
    and "0 \<le> off" and "in_int32 len"
    and "mem_read (recv_block i w) off len = Inr (concat (map packet_bytes ps) @ rest)"
    and "length rest < 4" and "\<forall>p \<in> set ps. packet_ok p \<and> pk_id p \<noteq> 0xFFFF"
  shows "\<exists>w' n. OnRecv (ClientSession os) i off len w = ret (len - int (length rest), w') \<and>
    fold (react (s_socket (c_sess w i))) ps (0, c_trace w) = (n, c_trace w') \<and>
    answers_queued (c_sbm w') n (c_sess w' i)"
proof -
  have start: "serving i w [] w"
    using assms(1) by (simp add: serving_def session_ready_def answers_queued_def)
  have "\<exists>w'. deliver (OnRecvPacket os i (recv_block i w)) off ps w = ret w' \<and> serving i w ([] @ ps) w'"
    by (rule deliver_reaches [where P = "serving i w", OF assms(4,6) _ start])
      (use assms(8) server_packet [OF _ assms(2,3)] in auto)
  then obtain w' where w': "deliver (OnRecvPacket os i (recv_block i w)) off ps w = ret w'"
      "serving i w ps w'" by auto
  have "OnRecv (ClientSession os) i off len w = ret (len - int (length rest), w')"
    using OnRecv_packets [OF assms(4-7), where cb = "OnRecvPacket os i (recv_block i w)" and s = w] assms(8) w'(1)
    by (simp add: ClientSession_def Game_OnRecv_def recv_block_def Let_def)
  then show ?thesis using w'(2) by (auto simp: serving_def)
qed

text \<open>
  C15: on any region of complete packets with ids below 65535 the server's receive function never
  faults and refines the abstract server: its calls are those of \<open>react\<close> folded over the packets,
  whatever the payloads are, and all answers but the first wait in the queue with their bytes.
\<close>

theorem server_refines:
  assumes "session_ready i w" and "sends_ok os" and "server_tables w"
    and "0 \<le> off" and "in_int32 len"
    and "mem_read (recv_block i w) off len = Inr (concat (map packet_bytes ps) @ rest)"
    and "length rest < 4" and "\<forall>p \<in> set ps. packet_ok p \<and> pk_id p \<noteq> 0xFFFF"
  shows "\<exists>w' n. OnRecv (ClientSession os) i off len w = ret (len - int (length rest), w') \<and>
    fold (react (s_socket (c_sess w i))) ps (0, c_trace w) = (n, c_trace w') \<and>
    answers_queued (c_sbm w') n (c_sess w' i)"
  using server_reacts [OF assms] .

text \<open>An application with one connected session, whose receive buffer holds the given bytes.\<close>

definition sample_session :: "byte list \<Rightarrow> session" where
  "sample_session bs =
     (fresh_session \<lparr>rb_capacity = 80, rb_bufferSize = 8, rb_readPos = 0, rb_writePos = 0, rb_buffer = bs\<rparr> 7)
       \<lparr>s_isConnected := True, s_service := True\<rparr>"

definition sample_game :: "packet_handler option list \<Rightarrow> byte list \<Rightarrow> game" where
  "sample_game tbl bs =
     \<lparr>c_trace = [], c_tid = 0, c_sbm = sbm_init 1, c_sess = (\<lambda>_. sample_session bs), c_nsess = 1,
      c_service = fst (Service (\<lambda>_ _. (0, 0)) True (\<lambda>_. 0) SERVER [] 0 []), c_listener = Listener,
      g_packetHandlers = tbl, g_sessions = [], g_address = id\<rparr>"

lemma sample_ready: "session_ready i (sample_game tbl bs)"
proof -
  have "sbm_inv (sbm_init 1)" by (rule sbm_init_inv)
  then show ?thesis
    by (simp add: session_ready_def can_make_def idle_def IsConnected_def sample_game_def
        sample_session_def fresh_session_def own_chunk_open_def sbm_init_def)
qed

definition sample_server :: "byte list \<Rightarrow> game" where
  "sample_server bs = ClientPacketHandler_Init (sample_game packetHandlers bs)"

definition sample_client :: "byte list \<Rightarrow> game" where
  "sample_client bs = ServerPacketHandler_Init (sample_game packetHandlers bs)"

lemma sample_server:
  "session_ready i (sample_server bs)" "server_tables (sample_server bs)"
  "recv_block i (sample_server bs) = bs" "s_socket (c_sess (sample_server bs) i) = 7"
  "c_trace (sample_server bs) = []"
  using sample_ready [of i packetHandlers bs]
  by (auto simp: sample_server_def server_tables_def session_ready_def can_make_def recv_block_def
      IsConnected_def ClientPacketHandler_Init_def sample_game_def sample_session_def fresh_session_def Let_def)

lemma sample_client:
  "session_ready i (sample_client bs)" "client_tables (sample_client bs)"
  "recv_block i (sample_client bs) = bs" "s_socket (c_sess (sample_client bs) i) = 7"
  "c_trace (sample_client bs) = []"
  using sample_ready [of i packetHandlers bs]
  by (auto simp: sample_client_def client_tables_def session_ready_def can_make_def recv_block_def
      IsConnected_def ServerPacketHandler_Init_def sample_game_def sample_session_def fresh_session_def Let_def)

lemma quiet_system: "sends_ok (\<lambda>_ _. (0, 0))"
  by (simp add: sends_ok_def SOCKET_ERROR_def)

theorem server_refines_witness:
  "\<exists>w'. OnRecv (ClientSession (\<lambda>_ _. (0, 0))) 0 0 14
      (sample_server [4, 0, 0, 0, 5, 0, 3, 0, 9, 4, 0, 0, 0, 1]) = ret (13, w') \<and>
    c_trace w' = [SysPrint ''Client Login'', SysSend 7 [[4, 0, 1, 0]], SysPrint ''Invalid Handle'',
      SysPrint ''Client Login''] \<and> length (s_sendQueue (c_sess w' 0)) = 1"
proof -
  let ?bs = "[4, 0, 0, 0, 5, 0, 3, 0, 9, 4, 0, 0, 0, 1] :: byte list"
  let ?ps = "[\<lparr>pk_id = 0, pk_data = []\<rparr>, \<lparr>pk_id = 3, pk_data = [9]\<rparr>, \<lparr>pk_id = 0, pk_data = []\<rparr>]"
  have bytes: "concat (map packet_bytes ?ps) @ [1] = ?bs"
    by (simp add: packet_bytes_def header_bytes_def bytes_le16_def)
  have region: "mem_read (recv_block 0 (sample_server ?bs)) 0 14 = Inr (concat (map packet_bytes ?ps) @ [1])"
    unfolding bytes sample_server by (simp add: mem_read_def window_def)
  obtain w' n where "OnRecv (ClientSession (\<lambda>_ _. (0, 0))) 0 0 14 (sample_server ?bs) = ret (13, w')"
    "fold (react 7) ?ps (0, []) = (n, c_trace w')" "answers_queued (c_sbm w') n (c_sess w' 0)"
    using server_refines [OF sample_server(1) quiet_system sample_server(2) _ _ region]
    by (auto simp: sample_server in_int32_def packet_ok_def)
  then show ?thesis
    by (auto simp: C_LOGIN_def login_bytes answers_queued_def)
qed

section \<open>The client\<close>

text \<open>What the client does with a packet.\<close>

definition client_call :: "packet \<Rightarrow> syscall" where
  "client_call p = SysPrint (if pk_id p = S_LOGIN then ''Connected'' else ''Invalid Handle'')"

lemma client_packet:
  assumes tbl: "client_tables w" and at: "packet_at mem off p" and id: "pk_id p \<noteq> 0xFFFF"
  shows "OnRecvPacket os i mem off (packet_length p) w = ret (w\<lparr>c_trace := c_trace w @ [client_call p]\<rparr>)"
proof -
  have t: "g_packetHandlers w = (replicate UINT16_MAX (Some INVALID_Handler))[1 := Some S_LOGIN_Handler]"
    using tbl Server_table by (auto simp: client_tables_def)
  have l: "unat (pk_id p) < UINT16_MAX" using id by (rule id_in_table)
  have n1: "unat (pk_id p) = 1 \<longleftrightarrow> pk_id p = S_LOGIN" and u1: "unat S_LOGIN = 1"
    by (simp_all add: S_LOGIN_def word_unat_eq_iff)
  have m1: "1 < UINT16_MAX" by (simp add: UINT16_MAX_def)
  define h where "h = (if pk_id p = S_LOGIN then S_LOGIN_Handler else INVALID_Handler)"
  have "g_packetHandlers w ! unat (pk_id p) = Some h"
    using l n1 u1 m1 by (cases "pk_id p = S_LOGIN") (simp_all add: t h_def)
  from dispatch [OF at _ this, of os i] l show ?thesis
    by (auto simp: t h_def Handle_S_LOGIN_def Handle_INVALID_def print_eq client_call_def)
qed

lemma client_reacts:
  assumes "client_tables w" and "0 \<le> off" and "in_int32 len"
    and "mem_read (recv_block i w) off len = Inr (concat (map packet_bytes ps) @ rest)"
    and "length rest < 4" and "\<forall>p \<in> set ps. packet_ok p \<and> pk_id p \<noteq> 0xFFFF"
  shows "OnRecv (ServerSession os) i off len w =
    ret (len - int (length rest), w\<lparr>c_trace := c_trace w @ map client_call ps\<rparr>)"
proof -
  let ?P = "\<lambda>done s. s = w\<lparr>c_trace := c_trace w @ map client_call done\<rparr>"
  have step: "\<exists>s'. OnRecvPacket os i (recv_block i w) off' (packet_length p) s = ret s' \<and> ?P (done @ [p]) s'"
    if "?P done s" "p \<in> set ps" "packet_at (recv_block i w) off' p" for "done" p off' s
    using client_packet [of s "recv_block i w" off' p os i] that assms(1,6)
    by (simp add: client_tables_def ServerPacketHandler_Init_def Let_def)
  have "\<exists>w'. deliver (OnRecvPacket os i (recv_block i w)) off ps w = ret w' \<and> ?P ([] @ ps) w'"
    by (rule deliver_reaches [where P = ?P, OF assms(2,4)]) (use assms(6) step in auto)
  then show ?thesis
    using OnRecv_packets [OF assms(2-5), where cb = "OnRecvPacket os i (recv_block i w)" and s = w] assms(6)
    by (auto simp: ServerSession_def Game_OnRecv_def recv_block_def Let_def)
qed

lemma client_connects:
  assumes "session_ready i w" and os: "sends_ok os"
  shows "\<exists>w'. OnConnected (ServerSession os) i w = ret w' \<and>
    c_trace w' = c_trace w @ [SysSend (s_socket (c_sess w i)) [login_request]] \<and>
    can_make w' \<and> IsConnected i w'"
proof -
  have w: "IsConnected i w" "can_make w" "idle (c_sess w i)" using assms by (auto simp: session_ready_def)
  obtain b m where M: "make_packet None C_LOGIN w = Inr (Some b, w\<lparr>c_sbm := m\<rparr>)"
      "can_make (w\<lparr>c_sbm := m\<rparr>)" "live m b" "buffer_content m b = login_request"
    using make_packet_empty [OF w(2), of C_LOGIN] by (auto simp: login_request_def)
  have "IsConnected i (w\<lparr>c_sbm := m\<rparr>)" "idle (c_sess (w\<lparr>c_sbm := m\<rparr>) i)"
    using w by (simp_all add: IsConnected_def)
  from Send_idle [OF this os, of b] M w(1) show ?thesis
    by (auto simp: ServerSession_def ServerSession_OnConnected_def Server_MakeSendBuffer_def
        release_opt_def upd_sbm_def release_all_def release_retained can_make_def IsConnected_def)
qed

text \<open>
  C16: the login exchange. What the connected client sends makes the server send an answer, and
  that answer makes the client report the connection.
\<close>

theorem login_handshake:
  assumes "sends_ok os" and "session_ready j c"
  shows "\<exists>request answer c1. OnConnected (ServerSession os) j c = ret c1 \<and>
    c_trace c1 = c_trace c @ [SysSend (s_socket (c_sess c j)) [request]] \<and>
    (\<forall>s i off. session_ready i s \<longrightarrow> server_tables s \<longrightarrow> 0 \<le> off \<longrightarrow>
      mem_read (recv_block i s) off (int (length request)) = Inr request \<longrightarrow>
      (\<exists>s1. OnRecv (ClientSession os) i off (int (length request)) s = ret (int (length request), s1) \<and>
        c_trace s1 = c_trace s @ [SysPrint ''Client Login'', SysSend (s_socket (c_sess s i)) [answer]])) \<and>
    (\<forall>c2 off. client_tables c2 \<longrightarrow> 0 \<le> off \<longrightarrow>
      mem_read (recv_block j c2) off (int (length answer)) = Inr answer \<longrightarrow>
      OnRecv (ServerSession os) j off (int (length answer)) c2 =
        ret (int (length answer), c2\<lparr>c_trace := c_trace c2 @ [SysPrint ''Connected'']\<rparr>))"
proof -
  obtain c1 where c1: "OnConnected (ServerSession os) j c = ret c1"
      "c_trace c1 = c_trace c @ [SysSend (s_socket (c_sess c j)) [login_request]]"
    using client_connects [OF assms(2,1)] by blast
  have server: "\<exists>s1. OnRecv (ClientSession os) i off 4 s = ret (4, s1) \<and>
      c_trace s1 = c_trace s @ [SysPrint ''Client Login'', SysSend (s_socket (c_sess s i)) [login_answer]]"
    if "session_ready i s" "server_tables s" "0 \<le> off" "mem_read (recv_block i s) off 4 = Inr login_request"
    for s i off
    using server_reacts [OF that(1) assms(1) that(2,3), of 4 "[\<lparr>pk_id = C_LOGIN, pk_data = []\<rparr>]" "[]"] that(4)
    by (auto simp: login_request_def in_int32_def packet_ok_def C_LOGIN_def)
  have client: "OnRecv (ServerSession os) j off 4 c2 =
      ret (4, c2\<lparr>c_trace := c_trace c2 @ [SysPrint ''Connected'']\<rparr>)"
    if "client_tables c2" "0 \<le> off" "mem_read (recv_block j c2) off 4 = Inr login_answer" for c2 off
    using client_reacts [OF that(1,2), of 4 j "[\<lparr>pk_id = S_LOGIN, pk_data = []\<rparr>]" "[]" os] that(3)
    by (simp add: login_answer_def in_int32_def packet_ok_def S_LOGIN_def client_call_def)
  have "int (length login_request) = 4" "int (length login_answer) = 4" by (simp_all add: login_bytes)
  with c1 server client show ?thesis
    by (intro exI [of _ login_request] exI [of _ login_answer] exI [of _ c1]) simp
qed

theorem login_handshake_witness:
  "\<exists>request c1. OnConnected (ServerSession (\<lambda>_ _. (0, 0))) 0 (sample_client []) = ret c1 \<and>
    c_trace c1 = [SysSend 7 [request]]"
  using login_handshake [OF quiet_system sample_client(1) [of 0 "[]"]] by (auto simp: sample_client)

section \<open>Ids without a handler\<close>

lemma deliver_append:
  "deliver cb off (ps @ qs) s = bind_run (deliver cb off ps s)
     (\<lambda>s'. deliver cb (off + sum_list (map packet_length ps)) qs s')"
proof (induction ps arbitrary: off s)
  case (Cons p ps)
  have "deliver cb off' (ps @ qs) = (\<lambda>s. bind_run (deliver cb off' ps s)
      (\<lambda>s'. deliver cb (off' + sum_list (map packet_length ps)) qs s'))" for off'
    using Cons.IH by (simp add: fun_eq_iff)
  then show ?case by (simp add: bind_run_assoc add.assoc)
qed simp

lemma packet_bytes_total:
  "int (length (concat (map packet_bytes ps))) = sum_list (map packet_length ps)"
  by (induction ps) (simp_all add: length_packet_bytes)



end
