(* ===== verification/Event_Loop.thy ===== *)
theory Event_Loop
  imports Listener
begin

text \<open>
  What one completion can change. Outside the virtual functions of the session class the core
  touches neither the fields an application adds to the state nor, but for the two calls at the ends
  of a connection, the service. An application's invariant therefore only has to be checked on its
  virtual functions: the locale \<open>session_class\<close>.
\<close>

section \<open>The operations that leave the application alone\<close>

definition same_app :: "'a core_scheme \<Rightarrow> 'a core_scheme \<Rightarrow> bool" where
  "same_app w w' \<longleftrightarrow> core.more w' = core.more w \<and> c_service w' = c_service w"

named_theorems app_frame

lemma same_app_refl [simp]: "same_app w w"
  by (simp add: same_app_def)

lemma same_app_trans: "same_app w w1 \<Longrightarrow> same_app w1 w2 \<Longrightarrow> same_app w w2"
  by (simp add: same_app_def)

lemma same_app_upd [simp]:
  "same_app w (upd_sess i f w') \<longleftrightarrow> same_app w w'"
  "same_app w (upd_sbm g w') \<longleftrightarrow> same_app w w'"
  "same_app w (w'\<lparr>c_listener := l\<rparr>) \<longleftrightarrow> same_app w w'"
  "same_app w (w'\<lparr>c_trace := tr\<rparr>) \<longleftrightarrow> same_app w w'"
  "same_app w (w'\<lparr>c_nsess := n\<rparr>) \<longleftrightarrow> same_app w w'"
  "same_app w (upd_accept k h w') \<longleftrightarrow> same_app w w'"
  "same_app w (print os s w') \<longleftrightarrow> same_app w w'"
  by (simp_all add: same_app_def upd_accept_def print_eq)

lemma same_app_call: "call os c w = (r, w') \<Longrightarrow> same_app w0 w' \<longleftrightarrow> same_app w0 w"
  by (auto simp: call_eq)

lemma same_app_trace: "with_trace f w = (r, w') \<Longrightarrow> same_app w0 w' \<longleftrightarrow> same_app w0 w"
  by (auto simp: with_trace_def split: prod.splits)

lemma same_app_disc [simp]:
  "same_app w (Session_Disconnect os i c w') \<longleftrightarrow> same_app w w'"
  "same_app w (Session_HandleError os i e w') \<longleftrightarrow> same_app w w'"
  by (simp_all add: same_app_def disc_shapeD(2,6) [OF Disconnect_shape] disc_shapeD(2,6) [OF HandleError_shape])

lemma RegisterSend_app: "Session_RegisterSend os i w = Inr w' \<Longrightarrow> same_app w0 w' \<longleftrightarrow> same_app w0 w"
  by (clarsimp simp: Session_RegisterSend_def Let_def bind_res_eq_Inr split: if_splits)
    (auto simp: same_app_call Let_def split: if_splits prod.splits)

lemma RegisterRecv_app: "Session_RegisterRecv os i w = Inr w' \<Longrightarrow> same_app w0 w' \<longleftrightarrow> same_app w0 w"
  by (clarsimp simp: Session_RegisterRecv_def Let_def bind_res_eq_Inr split: if_splits)
    (auto simp: same_app_call Let_def split: if_splits prod.splits)

lemma Send_app: "Session_Send os i b w = Inr w' \<Longrightarrow> same_app w0 w' \<longleftrightarrow> same_app w0 w"
  by (auto simp: Session_Send_def Let_def RegisterSend_app split: if_splits)

lemma Session_app: "Session os w = Inr (i, w') \<Longrightarrow> same_app w0 w' \<longleftrightarrow> same_app w0 w"
  by (clarsimp simp: Session_def bind_res_eq_Inr)
    (auto simp: Let_def same_app_trace split: prod.splits)

lemma CreateSession_app: "CreateSession os w = Inr (x, w') \<Longrightarrow> same_app w0 w' \<longleftrightarrow> same_app w0 w"
  by (clarsimp simp: CreateSession_def Let_def bind_res_eq_Inr split: if_splits)
    (auto simp: SetService_def IocpCore_Register_def Session_destroy_def Let_def Session_app
      same_app_call same_app_trace split: if_splits prod.splits)

lemma accept_attempt_app: "accept_attempt os k w = Inr (x, w') \<Longrightarrow> same_app w0 w' \<longleftrightarrow> same_app w0 w"
  by (clarsimp simp: accept_attempt_def Let_def bind_res_eq_Inr split: if_splits option.splits)
    (auto simp: same_app_call CreateSession_app split: if_splits prod.splits)

lemma RegisterAccept_app:
  assumes "Listener_RegisterAccept os k w = Some (Inr w')"
  shows "same_app w w'"
proof -
  let ?P = "\<lambda>(os :: winsock) (k :: nat) (w :: 'a core_scheme) (r :: 'a core_scheme res). \<forall>w'. r = Inr w' \<longrightarrow> same_app w w'"
  have "?P os k w (Inr w')"
  proof (rule Listener_RegisterAccept.raw_induct [of ?P, OF _ assms], goal_cases)
    case (1 rec os k w r)
    show ?case
    proof (intro allI impI)
      fix w' assume r: "r = Inr w'"
      obtain again w1 where a: "accept_attempt os k w = Inr (again, w1)"
        using 1(2) r by (cases "accept_attempt os k w") auto
      have "same_app w w1" using accept_attempt_app [OF a, of w] by simp
      with 1 r a show "same_app w w'"
        by (cases again) (auto simp: ret_def intro: same_app_trans)
    qed
  qed
  then show ?thesis by blast
qed

section \<open>The loop of a worker thread\<close>

text \<open>
  \<^verbatim>\<open>while (true) service->ObserveIO()\<close>, unrolled over the completions that arrive: for each the
  event, its byte count and, for an accepted connection, the address of the peer.
\<close>

definition INFINITE :: int where
  "INFINITE = 0xFFFFFFFF"

fun worker_loop ::
    "('a core_scheme) env \<Rightarrow> (sockaddr_in \<times> event_ref option \<times> int) list \<Rightarrow> 'a core_scheme \<Rightarrow>
     'a core_scheme run" where
  "worker_loop E [] w = ret w"
| "worker_loop E ((peer, ev, n) # es) w =
     bind_run (Service_ObserveIO E peer INFINITE ev n w) (\<lambda>(_, w1). worker_loop E es w1)"

text \<open>Starting a service leaves the application alone, too.\<close>

lemma accept_loop_app: "accept_loop os n w = Some (Inr w') \<Longrightarrow> same_app w w'"
proof (induction n arbitrary: w)
  case (Suc n)
  then show ?case
    by (auto simp: Let_def bind_run_eq_Inr same_app_def dest!: RegisterAccept_app)
qed (simp add: ret_def)

lemma accept_loop_iff: "accept_loop os n w = Some (Inr w') \<Longrightarrow> same_app w0 w' \<longleftrightarrow> same_app w0 w"
  using accept_loop_app [of os n w w'] by (simp add: same_app_def)

lemma StartAccept_app: "Listener_StartAccept os w = Some (Inr (ok, w')) \<Longrightarrow> same_app w w'"
  by (auto simp: Listener_StartAccept_def IocpCore_Register_def Let_def bind_run_eq_Inr ret_def
      same_app_trace same_app_call accept_loop_iff split: if_splits prod.splits)

section \<open>Invariants of an application\<close>

locale session_class =
  fixes E :: "('a core_scheme) env"
    and I :: "'a core_scheme \<Rightarrow> bool"
  assumes frame_law: "same_app w w' \<Longrightarrow> I w \<Longrightarrow> I w'"
    and connected_law: "I w \<Longrightarrow> OnConnected E i (upd_service (AddSession i) w) = Some (Inr w') \<Longrightarrow> I w'"
    and send_law: "I w \<Longrightarrow> OnSend E i n w = Some (Inr w') \<Longrightarrow> I w'"
    and recv_law: "I w \<Longrightarrow> OnRecv E i p n w = Some (Inr (m, w')) \<Longrightarrow> I w'"
    and disconnected_law: "I w \<Longrightarrow> OnDisconnected E i w = Some (Inr w') \<Longrightarrow>
      I (upd_service (RemoveSession i) w')"
begin

lemma frame: "same_app w w' \<Longrightarrow> I w' \<longleftrightarrow> I w"
  using frame_law [of w w'] frame_law [of w' w] by (auto simp: same_app_def)

lemma I_upd [simp]:
  "I (upd_sess i f w) \<longleftrightarrow> I w" "I (upd_sbm g w) \<longleftrightarrow> I w" "I (print os s w) \<longleftrightarrow> I w"
  "I (Session_Disconnect os i c w) \<longleftrightarrow> I w" "I (Session_HandleError os i e w) \<longleftrightarrow> I w"
  by (rule frame, simp)+

lemma I_register:
  "Session_RegisterSend os i w = Inr w' \<Longrightarrow> I w' \<longleftrightarrow> I w"
  "Session_RegisterRecv os i w = Inr w' \<Longrightarrow> I w' \<longleftrightarrow> I w"
  "call os c w = (r, w') \<Longrightarrow> I w' \<longleftrightarrow> I w"
  "with_trace f w = (x, w') \<Longrightarrow> I w' \<longleftrightarrow> I w"
  "Listener_RegisterAccept os k w = Some (Inr w') \<Longrightarrow> I w' \<longleftrightarrow> I w"
  by (rule frame, simp add: RegisterSend_app, rule frame, simp add: RegisterRecv_app,
      rule frame, simp add: same_app_call, rule frame, simp add: same_app_trace,
      rule frame, erule RegisterAccept_app)

lemma ProcessConnect_keeps: "I w \<Longrightarrow> Session_ProcessConnect E i w = Some (Inr w') \<Longrightarrow> I w'"
  by (auto simp: Session_ProcessConnect_def Let_def bind_run_eq_Inr lift_res_def I_register
      dest!: connected_law [rotated])

lemma ProcessSend_keeps: "I w \<Longrightarrow> Session_ProcessSend E i n w = Some (Inr w') \<Longrightarrow> I w'"
  by (auto simp: Session_ProcessSend_def Let_def bind_run_eq_Inr lift_res_def ret_def I_register
      split: if_splits dest!: send_law [rotated])

lemma ProcessRecv_keeps: "I w \<Longrightarrow> Session_ProcessRecv E i n w = Some (Inr w') \<Longrightarrow> I w'"
  by (auto simp: Session_ProcessRecv_def Let_def bind_run_eq_Inr lift_res_def ret_def I_register
      split: if_splits prod.splits dest!: recv_law [rotated])

lemma ProcessDisconnect_keeps: "I w \<Longrightarrow> Session_ProcessDisconnect E i w = Some (Inr w') \<Longrightarrow> I w'"
  by (auto simp: Session_ProcessDisconnect_def Let_def bind_run_eq_Inr lift_res_def ret_def
      dest!: disconnected_law [rotated])

lemma ObserveIO_session_keeps:
  assumes "I w" and run: "Session_ObserveIO E i ty n w = Some (Inr w')"
  shows "I w'"
proof (cases ty)
  case CONNECT
  then show ?thesis using run by (intro ProcessConnect_keeps [OF assms(1)]) (simp add: Session_ObserveIO_def)
next
  case DISCONNECT
  then show ?thesis using run by (intro ProcessDisconnect_keeps [OF assms(1)]) (simp add: Session_ObserveIO_def)
next
  case RECV
  then show ?thesis using run by (intro ProcessRecv_keeps [OF assms(1)]) (simp add: Session_ObserveIO_def)
next
  case SEND
  then show ?thesis using run by (intro ProcessSend_keeps [OF assms(1)]) (simp add: Session_ObserveIO_def)
qed (use assms in \<open>simp add: Session_ObserveIO_def ret_def\<close>)

lemma I_SetSockAddr [simp]: "I (SetSockAddr i a w) \<longleftrightarrow> I w"
  by (simp add: SetSockAddr_def)

lemma ProcessAccept_keeps:
  assumes "I w" and "Listener_ProcessAccept E peer k w = Some (Inr w')"
  shows "I w'"
proof -
  obtain i where i: "ae_session (l_acceptEvents (c_listener w) ! k) = Some i"
    using assms(2) by (auto simp: Listener_ProcessAccept_def split: if_splits option.splits)
  obtain ok w1 where 1: "with_trace (SetUpdateAcceptSocket (env_os E) (s_socket (c_sess w i))
      (l_socket (c_listener w))) w = (ok, w1)" by (metis surj_pair)
  obtain r e w2 where 2: "call (env_os E) (SysGetpeername (s_socket (c_sess w1 i))) w1 = ((r, e), w2)"
    by (metis surj_pair)
  have "I w1" using I_register(4) [OF 1] assms(1) by simp
  moreover from this have "I w2" using I_register(3) [OF 2] by simp
  ultimately show ?thesis
    using assms(2) 1 2 i
    by (auto simp: Listener_ProcessAccept_def bind_run_eq_Inr I_register split: if_splits
        dest!: ProcessConnect_keeps [rotated])
qed

lemma ObserveIO_object_keeps:
  assumes "I w" and "IocpObj_ObserveIO E peer ev n w = Some (Inr w')"
  shows "I w'"
proof (cases "event_obj ev w")
  case (Some ob)
  show ?thesis
  proof (cases ob)
    case (ObjSession i)
    then show ?thesis
      using assms Some ObserveIO_session_keeps [of w i "event_kind ev w" n w']
      by (simp add: IocpObj_ObserveIO_def)
  next
    case ObjListener
    then obtain k where "ev = AcceptEventAt k"
      using assms Some by (cases ev) (simp_all add: IocpObj_ObserveIO_def)
    then show ?thesis
      using assms Some ObjListener ProcessAccept_keeps [of w peer k w']
      by (simp add: IocpObj_ObserveIO_def)
  qed
qed (use assms in \<open>simp add: IocpObj_ObserveIO_def\<close>)

lemma ObserveIO_keeps:
  assumes "I w" and "Service_ObserveIO E peer time ev n w = Some (Inr (r, w'))"
  shows "I w'"
proof -
  obtain x e w1 where c: "call (env_os E) (SysGetQueued time) w = ((x, e), w1)" by (metis surj_pair)
  then have "I w1" using I_register(3) [OF c] assms(1) by simp
  then show ?thesis
    using assms c
    by (auto simp: Service_ObserveIO_def IocpCore_ObserveIO_def Let_def bind_run_eq_Inr ret_def
        split: if_splits option.splits dest: ObserveIO_object_keeps)
qed

lemma worker_keeps: "I w \<Longrightarrow> worker_loop E es w = Some (Inr w') \<Longrightarrow> I w'"
proof (induction es arbitrary: w)
  case (Cons e es)
  then show ?case by (cases e) (auto simp: bind_run_eq_Inr dest: ObserveIO_keeps)
qed (simp add: ret_def)

end

end
