(* ===== verification/Game_Invariant.thy ===== *)
theory Game_Invariant
  imports Game_Login Event_Loop
begin

text \<open>
  What holds of an application in every state its worker threads can reach, and what the session
  manager's \<^verbatim>\<open>Broadcast\<close> does. The invariants are checked on the virtual functions only; the
  event loop is that of \<open>Event_Loop\<close>.
\<close>

section \<open>Receiving leaves the application's own fields alone\<close>

lemma same_app_sbm [simp]: "same_app w (w'\<lparr>c_sbm := m\<rparr>) \<longleftrightarrow> same_app w w'"
  by (simp add: same_app_def)

lemma Handle_C_LOGIN_app: "Handle_C_LOGIN os i x w = Some (Inr (r, w')) \<Longrightarrow> same_app w w'"
  by (auto simp: Handle_C_LOGIN_def Client_MakeSendBuffer_def make_packet_def Let_def lift_res_def
      bind_res_eq_Inr release_opt_def Send_app)

lemma invoke_handler_app: "invoke_handler os i mem h buffer len w = Some (Inr (r, w')) \<Longrightarrow> same_app w w'"
  by (auto simp: invoke_handler_def Handle_INVALID_def Handle_S_LOGIN_def HandlePacket_def ret_def
      dest: Handle_C_LOGIN_app split: packet_handler.splits sum.splits)

lemma OnRecvPacket_app: "OnRecvPacket os i mem buffer len w = Some (Inr w') \<Longrightarrow> same_app w w'"
  by (auto simp: OnRecvPacket_def PacketHandler_HandlePacket_def Let_def bind_run_eq_Inr ret_def
      dest: invoke_handler_app split: sum.splits if_splits option.splits)

lemma Game_OnRecv_app:
  assumes "Game_OnRecv os i buffer len w = Some (Inr (n, w'))"
  shows "same_app w w'"
proof -
  let ?mem = "rb_buffer (s_recvBuffer (c_sess w i))"
  have "OnRecv_loop ?mem buffer len (OnRecvPacket os i ?mem) 0 w = Some (Inr (n, w'))"
    using assms by (simp add: Game_OnRecv_def PacketSession_OnRecv_def Let_def)
  from OnRecv_loop_keeps [OF this refl, of "same_app w"] show ?thesis
    using OnRecvPacket_app same_app_trans by (metis same_app_refl)
qed

text \<open>Fields of the application, read from the part of the state the core does not know.\<close>

lemma app_fields:
  assumes "same_app w w'"
  shows "g_packetHandlers w' = g_packetHandlers w" and "g_sessions w' = g_sessions w"
    and "g_address w' = g_address w" and "c_service w' = c_service w"
  using assms by (cases w; cases w'; simp add: same_app_def)+

section \<open>The server's set of sessions\<close>

definition table_complete :: "game \<Rightarrow> bool" where
  "table_complete w \<longleftrightarrow> length (g_packetHandlers w) = UINT16_MAX \<and> None \<notin> set (g_packetHandlers w)"

text \<open>The \<^verbatim>\<open>std::set\<close>: ordered by address, without duplicates.\<close>

definition sessions_ordered :: "game \<Rightarrow> bool" where
  "sessions_ordered w \<longleftrightarrow> distinct (g_sessions w) \<and> sorted (map (g_address w) (g_sessions w))"

definition server_inv :: "game \<Rightarrow> bool" where
  "server_inv w \<longleftrightarrow> table_complete w \<and> sessions_ordered w \<and> set (g_sessions w) = sv_sessions (c_service w)"

lemma Add_sessions:
  assumes "sessions_ordered w"
  shows "sessions_ordered (SessionManager_Add i w)"
    and "set (g_sessions (SessionManager_Add i w)) = insert i (set (g_sessions w))"
  using assms by (auto simp: sessions_ordered_def SessionManager_Add_def sorted_insort_key
      distinct_insort set_insort_key)

lemma Remove_sessions:
  assumes "sessions_ordered w"
  shows "sessions_ordered (SessionManager_Remove i w)"
    and "set (g_sessions (SessionManager_Remove i w)) = set (g_sessions w) - {i}"
  using assms by (auto simp: sessions_ordered_def SessionManager_Remove_def sorted_map_remove1)

lemma manager_frame [simp]:
  "g_packetHandlers (SessionManager_Add i w) = g_packetHandlers w"
  "c_service (SessionManager_Add i w) = c_service w"
  "g_packetHandlers (SessionManager_Remove i w) = g_packetHandlers w"
  "c_service (SessionManager_Remove i w) = c_service w"
  "g_packetHandlers (upd_service f w) = g_packetHandlers w"
  "g_sessions (upd_service f w) = g_sessions w" "g_address (upd_service f w) = g_address w"
  by (simp_all add: SessionManager_Add_def SessionManager_Remove_def upd_service_def)

lemma ClientSession_simps [simp]:
  "OnConnected (ClientSession os) i w = ret (SessionManager_Add i w)"
  "OnDisconnected (ClientSession os) i w = ret (SessionManager_Remove i w)"
  "OnSend (ClientSession os) i n w = ret w"
  "OnRecv (ClientSession os) i p n w = Game_OnRecv os i p n w"
  by (simp_all add: ClientSession_def)

lemma ret_Inr [simp]: "ret x = Some (Inr y) \<longleftrightarrow> x = y"
  by (simp add: ret_def)

lemma server_inv_frame:
  assumes "same_app w w'"
  shows "server_inv w' \<longleftrightarrow> server_inv w"
  unfolding server_inv_def table_complete_def sessions_ordered_def app_fields [OF assms] ..

lemma server_inv_connect:
  assumes "server_inv w"
  shows "server_inv (SessionManager_Add i (upd_service (AddSession i) w))"
proof -
  have "sessions_ordered (upd_service (AddSession i) w)"
    using assms by (simp add: server_inv_def sessions_ordered_def)
  from Add_sessions [OF this, of i] show ?thesis
    using assms by (simp add: server_inv_def table_complete_def AddSession_def)
qed

lemma server_inv_disconnect:
  assumes "server_inv w"
  shows "server_inv (upd_service (RemoveSession i) (SessionManager_Remove i w))"
proof -
  have "sessions_ordered (SessionManager_Remove i w)"
    using assms Remove_sessions(1) by (simp add: server_inv_def)
  then have "sessions_ordered (upd_service (RemoveSession i) (SessionManager_Remove i w))"
    by (simp add: sessions_ordered_def)
  moreover have "set (g_sessions (SessionManager_Remove i w)) = set (g_sessions w) - {i}"
    using assms Remove_sessions(2) by (simp add: server_inv_def)
  ultimately show ?thesis
    using assms by (simp add: server_inv_def table_complete_def RemoveSession_def)
qed

interpretation server: session_class "ClientSession os" server_inv
proof (unfold_locales, goal_cases)
  case (1 w w')
  then show ?case using server_inv_frame by blast
next
  case (2 w i w')
  then show ?case using server_inv_connect by auto
next
  case (3 w i n w')
  then show ?case by simp
next
  case (4 w i p n m w')
  then show ?case using server_inv_frame [OF Game_OnRecv_app] by simp
next
  case (5 w i w')
  then show ?case using server_inv_disconnect by auto
qed

lemma game_start_frame [simp]:
  "g_packetHandlers (game_start os indet pton ty w) = g_packetHandlers w"
  "g_sessions (game_start os indet pton ty w) = g_sessions w"
  "sv_sessions (c_service (game_start os indet pton ty w)) = {}"
  by (auto simp: game_start_def Service_def Let_def split: prod.splits)

lemma Client_Init_frame [simp]:
  "g_sessions (ClientPacketHandler_Init w) = g_sessions w"
  by (simp add: ClientPacketHandler_Init_def Let_def)

lemma print_fields [simp]:
  "g_packetHandlers (print os s w) = g_packetHandlers w" "g_sessions (print os s w) = g_sessions w"
  by (simp_all add: print_eq)

lemma GameServer_main_inv:
  assumes "g_packetHandlers w = packetHandlers" and "g_sessions w = []"
    and "GameServer_main os indet pton w = ret (Inr n, w1)"
  shows "server_inv w1"
proof -
  let ?w2 = "ClientPacketHandler_Init (print os ''==== SERVER ===='' w)"
  let ?w3 = "game_start os indet pton SERVER ?w2"
  have "ServerService_Start os ?w3 = Some (Inr (True, w1))"
    using assms(3) by (auto simp: GameServer_main_def Let_def ret_def bind_run_eq_Inr split: if_splits)
  then have app: "same_app ?w3 w1"
    by (auto simp: ServerService_Start_def same_app_def dest!: StartAccept_app)
  have "g_packetHandlers ?w2 = (replicate UINT16_MAX (Some INVALID_Handler))[0 := Some C_LOGIN_Handler]"
    using assms(1) by (intro Client_table) simp
  moreover have "None \<notin> set ((replicate UINT16_MAX (Some INVALID_Handler))[0 := Some C_LOGIN_Handler])"
    using set_update_subset_insert [of "replicate UINT16_MAX (Some INVALID_Handler)" 0 "Some C_LOGIN_Handler"]
    by (auto simp: in_set_replicate)
  ultimately have "server_inv ?w3"
    using assms(2) by (simp add: server_inv_def sessions_ordered_def table_complete_def)
  then show ?thesis using server_inv_frame [OF app] by simp
qed


text \<open>A run: a system on which every call succeeds, and one accepted connection.\<close>

definition good_system :: winsock where
  "good_system n c = (if c = SysStartup then (0, 0) else (1, 0))"

lemma good_RecvBuffer:
  "\<exists>rb. RecvBuffer Session_BUFFER_SIZE = Inr rb \<and> RecvBuffer_WritePos rb = Inr 0"
  by (simp add: RecvBuffer_def Session_BUFFER_SIZE_def BUFFER_COUNT_def in_int32_def
      RecvBuffer_WritePos_def)

definition accepting :: "'a core_scheme \<Rightarrow> bool" where
  "accepting w \<longleftrightarrow> l_serverService (c_listener w) \<and> sv_iocpCore (c_service w)"

definition accept_ready :: "nat \<Rightarrow> sid \<Rightarrow> 'a core_scheme \<Rightarrow> bool" where
  "accept_ready k i w \<longleftrightarrow> k < length (l_acceptEvents (c_listener w)) \<and>
     ae_session (l_acceptEvents (c_listener w) ! k) = Some i \<and>
     iocpObj (l_acceptEvents (c_listener w) ! k) = Some ObjListener \<and>
     i < c_nsess w \<and> s_service (c_sess w i) \<and> RecvBuffer_WritePos (s_recvBuffer (c_sess w i)) = Inr 0"

lemma good_accept:
  assumes "accepting w" and "k < length (l_acceptEvents (c_listener w))"
    and "iocpObj (l_acceptEvents (c_listener w) ! k) = Some ObjListener"
  shows "\<exists>w'. Listener_RegisterAccept good_system k w = ret w' \<and> accepting w' \<and>
    length (l_acceptEvents (c_listener w')) = length (l_acceptEvents (c_listener w)) \<and>
    accept_ready k (c_nsess w) w' \<and> (\<forall>j i. j \<noteq> k \<longrightarrow> accept_ready j i w \<longrightarrow> accept_ready j i w')"
proof -
  obtain rb where rb: "RecvBuffer Session_BUFFER_SIZE = Inr rb" "RecvBuffer_WritePos rb = Inr 0"
    using good_RecvBuffer by blast
  show ?thesis
    using assms
    by (subst Listener_RegisterAccept.simps)
      (simp add: accept_attempt_def CreateSession_def Session_def rb Let_def CreateSocket_def with_trace_def
        os_call_def call_eq good_system_def SetService_def IocpCore_Register_def upd_accept_def
        accepting_def fresh_session_def IocpEvent_Init_def upd_sess_def ERROR_IO_PENDING_def accept_ready_def)
qed

lemma good_accept_loop:
  assumes "accepting w" and "0 < n"
  shows "\<exists>w'. accept_loop good_system n w = ret w' \<and> accepting w' \<and>
    accept_ready (length (l_acceptEvents (c_listener w))) (c_nsess w) w' \<and>
    (\<forall>j i. accept_ready j i w \<longrightarrow> accept_ready j i w')"
  using assms
proof (induction n arbitrary: w)
  case (Suc n)
  let ?k = "length (l_acceptEvents (c_listener w))"
  let ?w1 = "w\<lparr>c_listener := (c_listener w)\<lparr>l_acceptEvents :=
      l_acceptEvents (c_listener w) @ [AcceptEvent\<lparr>iocpObj := Some ObjListener\<rparr>]\<rparr>\<rparr>"
  have "accepting ?w1" using Suc.prems by (simp add: accepting_def)
  then obtain w2 where w2: "Listener_RegisterAccept good_system ?k ?w1 = ret w2" "accepting w2"
      "accept_ready ?k (c_nsess w) w2"
      "\<forall>j i. j \<noteq> ?k \<longrightarrow> accept_ready j i ?w1 \<longrightarrow> accept_ready j i w2"
    using good_accept [of ?w1 ?k] by auto
  have old: "accept_ready j i w2" if "accept_ready j i w" for j i
  proof -
    have "accept_ready j i ?w1" and "j \<noteq> ?k" using that by (auto simp: accept_ready_def nth_append)
    with w2(4) show ?thesis by blast
  qed
  show ?case
  proof (cases n)
    case 0
    then show ?thesis using w2 old by (simp add: Let_def)
  next
    case (Suc n')
    then obtain w' where "accept_loop good_system n w2 = ret w'" "accepting w'"
        "\<forall>j i. accept_ready j i w2 \<longrightarrow> accept_ready j i w'"
      using Suc.IH [OF w2(2)] by auto
    with w2 old show ?thesis by (simp add: Let_def)
  qed
qed simp

lemma good_start:
  assumes "sv_iocpCore (c_service w)"
  shows "\<exists>w'. ServerService_Start good_system w = ret (True, w') \<and> accept_ready 0 (c_nsess w) w' \<and>
    accepting w'"
proof -
  define w6 where "w6 = w\<lparr>c_listener := \<lparr>l_serverService = True, l_socket = 1, l_acceptEvents = []\<rparr>,
    c_trace := c_trace w @ [SysSocket, SysSetsockopt 1 SOL_SOCKET SO_REUSEADDR [1],
      SysSetsockopt 1 SOL_SOCKET SO_LINGER [0, 0, 0, 0], SysAssociate 1,
      SysBind 1 (sv_sockAddr (c_service w)), SysListen 1 SOMAXCONN]\<rparr>"
  have "ServerService_Start good_system w = bind_run (accept_loop good_system acceptCount w6) (\<lambda>w7. ret (True, w7))"
    using assms
    by (simp add: ServerService_Start_def Listener_StartAccept_def Listener_def Let_def CreateSocket_def
        with_trace_def os_call_def good_system_def INVALID_SOCKET_def SetReuseAddress_def SetSocketOpt_def
        SetLinger_def SOCKET_ERROR_def bytes_le16_def IocpCore_Register_def call_eq Bind_def Listen_def w6_def)
  moreover have "accepting w6" using assms by (simp add: accepting_def w6_def)
  ultimately show ?thesis
    using good_accept_loop [of w6 acceptCount] by (auto simp: acceptCount_def w6_def)
qed

lemma SessionManager_Add_eq:
  "\<exists>ss. SessionManager_Add i w = w\<lparr>g_sessions := ss\<rparr> \<and> set ss = insert i (set (g_sessions w))"
proof (cases "i \<in> set (g_sessions w)")
  case True
  then show ?thesis by (intro exI [of _ "g_sessions w"]) (auto simp: SessionManager_Add_def)
qed (auto simp: SessionManager_Add_def set_insort_key)

lemma good_ProcessConnect:
  assumes "accept_ready 0 i w" and "accepting w"
  shows "\<exists>w'. Session_ProcessConnect (ClientSession good_system) i w = ret w' \<and> accept_ready 0 i w' \<and>
    accepting w' \<and> set (g_sessions w') = insert i (set (g_sessions w))"
proof -
  define w1 where "w1 = upd_service (AddSession i) (upd_sess i (\<lambda>s. s\<lparr>s_connectEvent :=
    (s_connectEvent s)\<lparr>iocpObj := None\<rparr>, s_isConnected := True\<rparr>) w)"
  obtain ss where ss: "SessionManager_Add i w1 = w1\<lparr>g_sessions := ss\<rparr>" "set ss = insert i (set (g_sessions w1))"
    using SessionManager_Add_eq by blast
  have "g_sessions w1 = g_sessions w" by (simp add: w1_def upd_service_def upd_sess_def)
  then show ?thesis
    using assms ss
    by (simp add: Session_ProcessConnect_def Let_def GetService_def ClientSession_def w1_def [symmetric])
      (simp add: w1_def Session_RegisterRecv_def IsConnected_def Let_def call_eq good_system_def
        SOCKET_ERROR_def upd_service_def upd_sess_def AddSession_def accept_ready_def accepting_def)
qed

lemma good_connection:
  assumes "accept_ready 0 i w" and "accepting w"
  shows "\<exists>w'. worker_loop (ClientSession good_system) [(peer, Some (AcceptEventAt 0), n)] w = ret w' \<and>
    set (g_sessions w') = insert i (set (g_sessions w))"
proof -
  define w4 where "w4 = SetSockAddr i peer (w\<lparr>c_trace := c_trace w @ [SysGetQueued INFINITE,
    SysSetsockopt (s_socket (c_sess w i)) SOL_SOCKET SO_UPDATE_ACCEPT_CONTEXT
      (bytes_le64 (l_socket (c_listener w))), SysGetpeername (s_socket (c_sess w i))]\<rparr>)"
  have "accept_ready 0 i w4" "accepting w4" and g4: "g_sessions w4 = g_sessions w"
    using assms by (auto simp: w4_def accept_ready_def accepting_def SetSockAddr_def upd_sess_def)
  then obtain w5 where w5: "Session_ProcessConnect (ClientSession good_system) i w4 = ret w5"
      "accept_ready 0 i w5" "accepting w5" "set (g_sessions w5) = insert i (set (g_sessions w))"
    using good_ProcessConnect [of i w4] g4 by auto
  then obtain w6 where w6: "Listener_RegisterAccept good_system 0 w5 = ret w6"
    using good_accept [of w5 0] by (auto simp: accept_ready_def)
  then have "g_sessions w6 = g_sessions w5"
    using app_fields(2) [OF RegisterAccept_app] by (simp add: ret_def)
  moreover have "worker_loop (ClientSession good_system) [(peer, Some (AcceptEventAt 0), n)] w = ret w6"
    using assms w5(1) w6
    by (simp add: Service_ObserveIO_def accepting_def IocpCore_ObserveIO_def call_eq good_system_def
        ClientSession_def IocpObj_ObserveIO_def event_obj_def accept_ready_def Listener_ProcessAccept_def
        SetUpdateAcceptSocket_def SetSocketOpt_def with_trace_def os_call_def SOCKET_ERROR_def w4_def)
  ultimately show ?thesis using w5(4) by simp
qed

lemma distinct_singleton: "distinct xs \<Longrightarrow> set xs = {x} \<Longrightarrow> xs = [x]"
  by (cases xs; cases "tl xs") auto


section \<open>Broadcasting\<close>

text \<open>What sending a buffer makes of a session, and the call it makes.\<close>

definition sent :: "sid \<Rightarrow> bid \<Rightarrow> session \<Rightarrow> session" where
  "sent i b s =
     (if \<not> s_isConnected s then s
      else if s_sendRegistered s then s\<lparr>s_sendQueue := s_sendQueue s @ [Some b], s_sendRegistered := True\<rparr>
      else s\<lparr>s_sendRegistered := True, s_sendEvent := set_obj (Some (ObjSession i)) (s_sendEvent s),
        s_sendQueue := [], s_sendBuffers := [b]\<rparr>)"

definition sent_calls :: "byte list \<Rightarrow> session \<Rightarrow> syscall list" where
  "sent_calls bs s = (if s_isConnected s \<and> \<not> s_sendRegistered s then [SysSend (s_socket s) [bs]] else [])"

definition retain_times :: "nat \<Rightarrow> bid \<Rightarrow> sbm \<Rightarrow> sbm" where
  "retain_times n b m = m\<lparr>m_brefs := (m_brefs m)(b := m_brefs m b + n)\<rparr>"

lemma retain_times_simps [simp]:
  "retain_times 0 b m = m" "retain_times n b (buffer_retain b m) = retain_times (Suc n) b m"
  by (simp_all add: retain_times_def buffer_retain_def)

lemma retain_times_add: "retain_times k b (retain_times n b m) = retain_times (k + n) b m"
  by (simp add: retain_times_def ac_simps)

lemma retain_times_content: "buffer_content (retain_times n b m) = buffer_content m"
  by (simp add: retain_times_def buffer_content_def fun_eq_iff)

definition sendable :: "session \<Rightarrow> bool" where
  "sendable s \<longleftrightarrow> (s_isConnected s \<longrightarrow> s_sendRegistered s \<or> idle s)"

lemma Send_sent:
  assumes "sendable (c_sess w i)" and os: "sends_ok os"
  shows "Session_Send os i (Some b) w = Inr (w\<lparr>
    c_sbm := retain_times (if s_isConnected (c_sess w i) then 1 else 0) b (c_sbm w),
    c_sess := (c_sess w)(i := sent i b (c_sess w i)),
    c_trace := c_trace w @ sent_calls (buffer_content (c_sbm w) b) (c_sess w i)\<rparr>)"
proof -
  consider "\<not> s_isConnected (c_sess w i)" | "s_isConnected (c_sess w i)" "s_sendRegistered (c_sess w i)"
    | "s_isConnected (c_sess w i)" "\<not> s_sendRegistered (c_sess w i)" "idle (c_sess w i)"
    using assms(1) by (auto simp: sendable_def)
  then show ?thesis
  proof cases
    case 1
    then show ?thesis by (simp add: Session_Send_def IsConnected_def sent_def sent_calls_def)
  next
    case 2
    then show ?thesis
      using Send_queues [of i w os b]
      by (simp add: IsConnected_def sent_def sent_calls_def retain_times_def buffer_retain_def)
  next
    case 3
    then show ?thesis
      using Send_idle [of i w os b, OF _ _ os]
      by (simp add: IsConnected_def sent_def sent_calls_def retain_times_def buffer_retain_def)
  qed
qed

lemma broadcast_loop_sent:
  assumes "distinct is" and "\<forall>i \<in> set is. sendable (c_sess w i)" and "sends_ok os"
  shows "\<exists>w'. broadcast_loop os is (Some b) w = Inr w' \<and>
    c_trace w' = c_trace w @ concat (map (\<lambda>i. sent_calls (buffer_content (c_sbm w) b) (c_sess w i)) is) \<and>
    c_sess w' = (\<lambda>j. if j \<in> set is then sent j b (c_sess w j) else c_sess w j) \<and>
    c_sbm w' = retain_times (length (filter (\<lambda>i. IsConnected i w) is)) b (c_sbm w)"
  using assms(1,2)
proof (induction "is" arbitrary: w)
  case Nil
  then show ?case by simp
next
  case (Cons i "is")
  let ?n = "if s_isConnected (c_sess w i) then 1 else 0 :: nat"
  define w1 where "w1 = w\<lparr>c_sbm := retain_times ?n b (c_sbm w), c_sess := (c_sess w)(i := sent i b (c_sess w i)),
    c_trace := c_trace w @ sent_calls (buffer_content (c_sbm w) b) (c_sess w i)\<rparr>"
  have w1: "c_trace w1 = c_trace w @ sent_calls (buffer_content (c_sbm w) b) (c_sess w i)"
      "c_sess w1 i' = (if i' = i then sent i b (c_sess w i) else c_sess w i')"
      "c_sbm w1 = retain_times ?n b (c_sbm w)" for i'
    by (simp_all add: w1_def)
  have run: "Session_Send os i (Some b) w = Inr w1"
    unfolding w1_def using Cons.prems(2) by (intro Send_sent [OF _ assms(3)]) simp
  have ne: "i' \<noteq> i" if "i' \<in> set is" for i' using that Cons.prems(1) by auto
  have "\<forall>i' \<in> set is. sendable (c_sess w1 i')" using Cons.prems(2) ne by (auto simp: w1)
  then obtain w' where w': "broadcast_loop os is (Some b) w1 = Inr w'"
    "c_trace w' = c_trace w1 @ concat (map (\<lambda>i. sent_calls (buffer_content (c_sbm w1) b) (c_sess w1 i)) is)"
    "c_sess w' = (\<lambda>j. if j \<in> set is then sent j b (c_sess w1 j) else c_sess w1 j)"
    "c_sbm w' = retain_times (length (filter (\<lambda>i. IsConnected i w1) is)) b (c_sbm w1)"
    using Cons.IH [of w1] Cons.prems(1) by auto
  have "map (\<lambda>i. sent_calls (buffer_content (c_sbm w1) b) (c_sess w1 i)) is =
      map (\<lambda>i. sent_calls (buffer_content (c_sbm w) b) (c_sess w i)) is"
    using ne by (intro map_cong) (auto simp: w1 retain_times_content)
  with run w'(1,2) have "broadcast_loop os (i # is) (Some b) w = Inr w'" and "c_trace w' = c_trace w @
      concat (map (\<lambda>i. sent_calls (buffer_content (c_sbm w) b) (c_sess w i)) (i # is))"
    by (simp_all add: w1(1))
  moreover have "filter (\<lambda>i. IsConnected i w1) is = filter (\<lambda>i. IsConnected i w) is"
    using ne by (intro filter_cong) (auto simp: IsConnected_def w1)
  then have "c_sbm w' = retain_times (length (filter (\<lambda>i. IsConnected i w) (i # is))) b (c_sbm w)"
    using w'(4) by (simp add: w1(3) IsConnected_def retain_times_add)
  moreover have "c_sess w' = (\<lambda>j. if j \<in> set (i # is) then sent j b (c_sess w j) else c_sess w j)"
    using w'(3) ne by (auto simp: fun_eq_iff w1)
  ultimately show ?case by blast
qed

text \<open>
  C19: \<^verbatim>\<open>Broadcast\<close> gives the buffer to every connected member of the set once, in the order of
  the set: those that are idle send it at once, those that are sending queue it, and the buffer gains
  one reference for each.
\<close>

theorem broadcast_reaches_members:
  assumes "distinct (g_sessions w)" and "sends_ok os" and "\<forall>i \<in> set (g_sessions w). sendable (c_sess w i)"
  shows "\<exists>w'. SessionManager_Broadcast os (Some b) w = Inr w' \<and>
    c_trace w' = c_trace w @ concat (map (\<lambda>i. sent_calls (buffer_content (c_sbm w) b) (c_sess w i)) (g_sessions w)) \<and>
    (\<forall>j. c_sess w' j = (if j \<in> set (g_sessions w) then sent j b (c_sess w j) else c_sess w j)) \<and>
    m_brefs (c_sbm w') b = m_brefs (c_sbm w) b + length (filter (\<lambda>i. IsConnected i w) (g_sessions w))"
  using broadcast_loop_sent [OF assms(1,3,2), of b]
  by (auto simp: SessionManager_Broadcast_def retain_times_def)

theorem broadcast_reaches_members_witness:
  "\<exists>w'. SessionManager_Broadcast good_system (Some 0) ((sample_server [])\<lparr>g_sessions := [4, 2]\<rparr>) = Inr w' \<and>
    c_trace w' = [SysSend 7 [[]], SysSend 7 [[]]]"
proof -
  let ?w = "(sample_server [])\<lparr>g_sessions := [4, 2]\<rparr>"
  have s: "c_sess (sample_server []) i = sample_session []" "c_trace (sample_server []) = []"
      "c_sbm (sample_server []) = sbm_init 1" for i
    by (simp_all add: sample_server_def ClientPacketHandler_Init_def Let_def sample_game_def)
  have "sendable (sample_session [])"
    by (simp add: sendable_def idle_def sample_session_def fresh_session_def)
  then have "\<forall>i \<in> set (g_sessions ?w). sendable (c_sess ?w i)" by (simp add: s)
  moreover have "sends_ok good_system" by (simp add: sends_ok_def good_system_def SOCKET_ERROR_def)
  moreover have "buffer_content (sbm_init 1) 0 = []"
    by (simp add: buffer_content_def sbm_init_def SendBuffer_def)
  ultimately show ?thesis
    using broadcast_reaches_members [of ?w good_system 0]
    by (auto simp: s sent_calls_def sample_session_def fresh_session_def)
qed

end
