(* ===== verification/Session_Properties.thy ===== *)
theory Session_Properties
  imports Listener
begin

text \<open>
  What one session does over several completions: a receive round of the session against the byte
  queue of its buffer, what becomes of bytes a round leaves, disconnecting at most once, and a send
  path that a disconnect leaves blocked.
\<close>

section \<open>Helper facts\<close>

lemma disc_recv [simp]:
  "s_recvBuffer (c_sess (Session_Disconnect os i c w) j) = s_recvBuffer (c_sess w j)"
  "s_recvBuffer (c_sess (Session_HandleError os i e w) j) = s_recvBuffer (c_sess w j)"
  by (rule disc_shapeD(11) [OF Disconnect_shape], rule disc_shapeD(11) [OF HandleError_shape])

lemma disc_send [simp]:
  "s_sendQueue (c_sess (Session_Disconnect os i c w) j) = s_sendQueue (c_sess w j)"
  "s_sendRegistered (c_sess (Session_Disconnect os i c w) j) = s_sendRegistered (c_sess w j)"
  "s_sendEvent (c_sess (Session_Disconnect os i c w) j) = s_sendEvent (c_sess w j)"
  "s_sendQueue (c_sess (Session_HandleError os i e w) j) = s_sendQueue (c_sess w j)"
  "s_sendRegistered (c_sess (Session_HandleError os i e w) j) = s_sendRegistered (c_sess w j)"
  "s_sendEvent (c_sess (Session_HandleError os i e w) j) = s_sendEvent (c_sess w j)"
  by (simp_all only: disc_shapeD(8,10,14) [OF Disconnect_shape] disc_shapeD(8,10,14) [OF HandleError_shape])

lemma call_sess: "call os c w = (r, w') \<Longrightarrow> c_sess w' = c_sess w"
  by (auto simp: call_eq)

lemma call_cases: obtains r err w' where "call os c w = ((r, err), w')"
  by (cases "call os c w", cases "fst (call os c w)") auto

lemma RegisterRecv_sess:
  assumes "Session_RegisterRecv os i w = Inr w'"
  shows "s_recvBuffer (c_sess w' j) = s_recvBuffer (c_sess w j)"
    and "s_sendQueue (c_sess w' j) = s_sendQueue (c_sess w j)"
    and "s_sendRegistered (c_sess w' j) = s_sendRegistered (c_sess w j)"
    and "s_sendEvent (c_sess w' j) = s_sendEvent (c_sess w j)"
proof -
  have "s_recvBuffer (c_sess w' j) = s_recvBuffer (c_sess w j) \<and> s_sendQueue (c_sess w' j) = s_sendQueue (c_sess w j) \<and>
    s_sendRegistered (c_sess w' j) = s_sendRegistered (c_sess w j) \<and> s_sendEvent (c_sess w' j) = s_sendEvent (c_sess w j)"
  proof (cases "IsConnected i w")
    case True
    let ?w1 = "upd_sess i (\<lambda>s. s\<lparr>s_recvEvent := set_obj (Some (ObjSession i)) (s_recvEvent s)\<rparr>) w"
    obtain p where p: "RecvBuffer_WritePos (s_recvBuffer (c_sess w i)) = Inr p"
      using assms True by (cases "RecvBuffer_WritePos (s_recvBuffer (c_sess w i))") (simp_all add: Session_RegisterRecv_def Let_def)
    obtain r err w2 where c: "call os (SysRecv (s_socket (c_sess w i)) p (RecvBuffer_FreeSize (s_recvBuffer (c_sess w i)))) ?w1 =
        ((r, err), w2)" by (rule call_cases)
    have s2: "c_sess w2 = c_sess ?w1" using call_sess [OF c] .
    have code: "Session_RegisterRecv os i w = Inr (if r = SOCKET_ERROR \<and> err \<noteq> WSA_IO_PENDING
        then upd_sess i (\<lambda>s. s\<lparr>s_recvEvent := (s_recvEvent s)\<lparr>iocpObj := None\<rparr>\<rparr>) (Session_HandleError os i err w2) else w2)"
      using True p c by (simp add: Session_RegisterRecv_def Let_def)
    from assms code have "w' = (if r = SOCKET_ERROR \<and> err \<noteq> WSA_IO_PENDING
        then upd_sess i (\<lambda>s. s\<lparr>s_recvEvent := (s_recvEvent s)\<lparr>iocpObj := None\<rparr>\<rparr>) (Session_HandleError os i err w2) else w2)"
      by (simp only: sum.inject)
    then show ?thesis by (auto simp: s2)
  qed (use assms in \<open>simp add: Session_RegisterRecv_def\<close>)
  then show "s_recvBuffer (c_sess w' j) = s_recvBuffer (c_sess w j)" "s_sendQueue (c_sess w' j) = s_sendQueue (c_sess w j)"
    "s_sendRegistered (c_sess w' j) = s_sendRegistered (c_sess w j)" "s_sendEvent (c_sess w' j) = s_sendEvent (c_sess w j)"
    by blast+
qed

lemma RegisterRecv_returns:
  assumes "recv_inv (s_recvBuffer (c_sess w i))"
    and "rb_writePos (s_recvBuffer (c_sess w i)) < rb_capacity (s_recvBuffer (c_sess w i))"
  shows "\<exists>w'. Session_RegisterRecv os i w = Inr w'"
  using assms by (auto simp: Session_RegisterRecv_def Let_def RecvBuffer_WritePos_def recv_inv_def split: prod.split)

text \<open>A system whose calls succeed, a session class that processes \<open>f n\<close> of \<open>n\<close> bytes, one connected session.\<close>

definition session_env :: "(int \<Rightarrow> int) \<Rightarrow> core env" where
  "session_env f =
     \<lparr>env_os = (\<lambda>_ _. (0, 0)), OnConnected = (\<lambda>_ w. ret w), OnSend = (\<lambda>_ _ w. ret w),
      OnRecv = (\<lambda>_ _ n w. ret (f n, w)), OnDisconnected = (\<lambda>_ w. ret w)\<rparr>"

definition small_buffer :: recv_buffer where
  "small_buffer = \<lparr>rb_capacity = 20, rb_bufferSize = 2, rb_readPos = 0, rb_writePos = 0,
     rb_buffer = [1, 2, 3, 4] @ replicate 16 0\<rparr>"

definition one_session :: "recv_buffer \<Rightarrow> core" where
  "one_session rb =
     \<lparr>c_trace = [], c_tid = 0, c_sbm = sbm_init 1,
      c_sess = (\<lambda>_. (fresh_session rb 7)\<lparr>s_isConnected := True, s_service := True, s_sendRegistered := True,
        s_sendQueue := [Some 0]\<rparr>), c_nsess = 1,
      c_service = \<lparr>sv_serviceType = CLIENT, sv_sockAddr = \<lparr>sin_family = 2, sin_port = 1, sin_addr = 1\<rparr>,
        sv_iocpCore = True, sv_sessions = {0}, sv_sessionCount = 1\<rparr>,
      c_listener = Listener\<rparr>"

lemma one_session_buffer: "s_recvBuffer (c_sess (one_session rb) i) = rb"
  by (simp add: one_session_def fresh_session_def)

lemmas sample_eval = one_session_def small_buffer_def fresh_session_def

section \<open>Receiving\<close>

text \<open>The state in which the session class is shown the received bytes.\<close>

definition received :: "sid \<Rightarrow> recv_buffer \<Rightarrow> 'a core_scheme \<Rightarrow> 'a core_scheme" where
  "received i rb w =
     upd_sess i (\<lambda>s. s\<lparr>s_recvBuffer := rb\<rparr>) (upd_sess i (\<lambda>s. s\<lparr>s_recvEvent := (s_recvEvent s)\<lparr>iocpObj := None\<rparr>\<rparr>) w)"

lemma ProcessRecv_stored:
  assumes n: "n \<noteq> 0" "RecvBuffer_OnWrite n (s_recvBuffer (c_sess w i)) = (True, rb1)"
    and inv: "recv_inv rb1" "rb_readPos rb1 < rb_capacity rb1"
  shows "Session_ProcessRecv E i n w =
    bind_run (OnRecv E i (rb_readPos rb1) n (received i rb1 w)) (\<lambda>(m, w3).
      if m < 0 \<or> RecvBuffer_DataSize rb1 < m then ret (Session_Disconnect (env_os E) i (Cause ''On read overflow'') w3)
      else (case RecvBuffer_OnRead m (s_recvBuffer (c_sess w3 i)) of (taken, rb2) \<Rightarrow>
        if taken = False then ret (Session_Disconnect (env_os E) i (Cause ''On read overflow'') w3)
        else bind_run (lift_res (RecvBuffer_Clear rb2)) (\<lambda>rb3.
          lift_res (Session_RegisterRecv (env_os E) i (upd_sess i (\<lambda>s. s\<lparr>s_recvBuffer := rb3\<rparr>) w3)))))"
proof -
  have "RecvBuffer_ReadPos rb1 = Inr (rb_readPos rb1)" using inv by (simp add: RecvBuffer_ReadPos_def recv_inv_def)
  then show ?thesis using n by (simp add: Session_ProcessRecv_def Let_def received_def)
qed

text \<open>
  C11: One receive completion is one round on the byte queue of the buffer: the bytes the kernel stored
  are appended to the pending ones, the session class is shown the read position and the number of new
  bytes, and what it reports as processed is removed from the front. The session then waits for more.
\<close>

theorem ProcessRecv_round:
  assumes inv: "recv_inv rb0" and st: "kernel_store bs rb0 = Inr (s_recvBuffer (c_sess w i))" and ne: "bs \<noteq> []"
    and wr: "RecvBuffer_OnWrite (int (length bs)) (s_recvBuffer (c_sess w i)) = (True, rb1)"
    and shown: "OnRecv E i (rb_readPos rb1) (int (length bs)) (received i rb1 w) = ret (int m, w3)"
    and kept: "s_recvBuffer (c_sess w3 i) = rb1" and m: "m \<le> length (pending rb0 @ bs)"
    and cl: "RecvBuffer_Clear (rb1\<lparr>rb_readPos := rb_readPos rb1 + int m\<rparr>) = Inr rb3"
    and room: "rb_writePos rb3 < rb_capacity rb3"
  shows "\<exists>w'. Session_ProcessRecv E i (int (length bs)) w = ret w' \<and> recv_inv (s_recvBuffer (c_sess w' i)) \<and>
    pending (s_recvBuffer (c_sess w' i)) = drop m (pending rb0 @ bs)"
proof -
  have rb1: "recv_inv rb1" "pending rb1 = pending rb0 @ bs" using OnWrite_spec [OF inv st wr] .
  let ?rb2 = "rb1\<lparr>rb_readPos := rb_readPos rb1 + int m\<rparr>"
  have size: "int m \<le> RecvBuffer_DataSize rb1" using length_pending [OF rb1(1)] m rb1(2) by simp
  then have rd: "RecvBuffer_OnRead (int m) rb1 = (True, ?rb2)" by (simp add: RecvBuffer_OnRead_def)
  have rb2: "recv_inv ?rb2" "pending ?rb2 = drop m (pending rb1)" using OnRead_spec [OF rb1(1) _ rd] by simp_all
  have rb3: "recv_inv rb3" "pending rb3 = drop m (pending rb1)" using Clear_spec [OF rb2(1) cl] rb2(2) by simp_all
  have "0 < RecvBuffer_DataSize rb1" using length_pending [OF rb1(1)] ne unfolding rb1(2) by (cases bs) simp_all
  then have pos: "rb_readPos rb1 < rb_capacity rb1" using rb1(1) by (simp only: recv_defs) linarith
  let ?w = "upd_sess i (\<lambda>s. s\<lparr>s_recvBuffer := rb3\<rparr>) w3"
  have b3: "s_recvBuffer (c_sess ?w i) = rb3" by simp
  obtain w' where w': "Session_RegisterRecv (env_os E) i ?w = Inr w'"
    using RegisterRecv_returns [of ?w i "env_os E"] rb3(1) room unfolding b3 by blast
  have "Session_ProcessRecv E i (int (length bs)) w = ret w'"
    using ne shown kept rd cl w' size by (subst ProcessRecv_stored [OF _ wr rb1(1) pos]) simp_all
  moreover have "s_recvBuffer (c_sess w' i) = rb3" using RegisterRecv_sess(1) [OF w'] b3 by simp
  ultimately show ?thesis using rb3 rb1(2) by simp
qed

theorem ProcessRecv_round_witness:
  "\<exists>w'. Session_ProcessRecv (session_env (\<lambda>n. n - 1)) 0 4 (one_session small_buffer) = ret w' \<and>
    pending (s_recvBuffer (c_sess w' 0)) = [4 :: byte]"
proof -
  let ?rb0 = "small_buffer\<lparr>rb_buffer := replicate 20 0\<rparr>"
  let ?rb1 = "small_buffer\<lparr>rb_writePos := 4\<rparr>" let ?rb3 = "small_buffer\<lparr>rb_readPos := 3, rb_writePos := 4\<rparr>"
  have a: "recv_inv ?rb0" "kernel_store [1, 2, 3, 4] ?rb0 = Inr (s_recvBuffer (c_sess (one_session small_buffer) 0))"
    "RecvBuffer_OnWrite (int (length [1, 2, 3, 4 :: byte])) (s_recvBuffer (c_sess (one_session small_buffer) 0)) = (True, ?rb1)"
    "pending ?rb0 = []"
    by (simp_all add: sample_eval kernel_store_def mem_write_def overwrite_def recv_defs RecvBuffer_OnWrite_def
        in_int32_def BUFFER_COUNT_def pending_def window_def numeral_eq_Suc)
  have b: "RecvBuffer_Clear (?rb1\<lparr>rb_readPos := rb_readPos ?rb1 + int 3\<rparr>) = Inr ?rb3"
    by (simp add: RecvBuffer_Clear_def sample_eval recv_defs)
  have c: "OnRecv (session_env (\<lambda>n. n - 1)) 0 (rb_readPos ?rb1) (int (length [1, 2, 3, 4 :: byte]))
      (received 0 ?rb1 (one_session small_buffer)) = ret (int 3, received 0 ?rb1 (one_session small_buffer))"
    by (simp add: session_env_def)
  have d: "s_recvBuffer (c_sess (received 0 ?rb1 (one_session small_buffer)) 0) = ?rb1" by (simp add: received_def)
  have "\<exists>w'. Session_ProcessRecv (session_env (\<lambda>n. n - 1)) 0 (int (length [1, 2, 3, 4 :: byte])) (one_session small_buffer) = ret w' \<and>
      recv_inv (s_recvBuffer (c_sess w' 0)) \<and> pending (s_recvBuffer (c_sess w' 0)) = drop 3 (pending ?rb0 @ [1, 2, 3, 4])"
    by (rule ProcessRecv_round [OF a(1,2) _ a(3) c d _ b]) (simp_all add: small_buffer_def)
  then show ?thesis by (auto simp: a(4))
qed

text \<open>
  C12: The session class is shown the size of the last receive only, not all that is pending: whatever it
  processes of that, a receive never shrinks the backlog. Bytes once left in the buffer are followed by
  as many unprocessed ones for the rest of the connection.
\<close>

theorem ProcessRecv_forgets_kept_bytes:
  assumes inv: "recv_inv (s_recvBuffer (c_sess w i))" and n: "0 < n"
    and law: "\<And>v m v'. OnRecv E i (rb_readPos (s_recvBuffer (c_sess v i))) n v = ret (m, v') \<Longrightarrow>
      m \<le> n \<and> s_recvBuffer (c_sess v' i) = s_recvBuffer (c_sess v i)"
    and run: "Session_ProcessRecv E i n w = ret w'"
  shows "RecvBuffer_DataSize (s_recvBuffer (c_sess w i)) \<le> RecvBuffer_DataSize (s_recvBuffer (c_sess w' i))"
proof (cases "RecvBuffer_OnWrite n (s_recvBuffer (c_sess w i))")
  case (Pair written rb1)
  let ?rb = "s_recvBuffer (c_sess w i)"
  show ?thesis
  proof (cases written)
    case False
    then have "RecvBuffer_OnWrite n ?rb = (False, rb1)" using Pair by simp
    then show ?thesis using run n by (simp add: Session_ProcessRecv_def Let_def ret_def) auto
  next
    case True
    then have rb1: "rb1 = ?rb\<lparr>rb_writePos := rb_writePos ?rb + n\<rparr>" and wr: "RecvBuffer_OnWrite n ?rb = (True, rb1)"
      using Pair by (auto simp: RecvBuffer_OnWrite_def split: if_splits)
    then have fits: "n \<le> RecvBuffer_FreeSize ?rb" by (auto simp: RecvBuffer_OnWrite_def split: if_splits)
    have inv1: "recv_inv rb1" "rb_readPos rb1 < rb_capacity rb1" using inv n fits by (auto simp: rb1 recv_defs)
    have d1: "RecvBuffer_DataSize rb1 = RecvBuffer_DataSize ?rb + n" by (simp add: rb1 RecvBuffer_DataSize_def)
    note code = ProcessRecv_stored [OF _ wr inv1, of E]
    have b: "s_recvBuffer (c_sess (received i rb1 w) i) = rb1" by (simp add: received_def)
    obtain m w3 where o: "OnRecv E i (rb_readPos rb1) n (received i rb1 w) = ret (m, w3)"
      using run n unfolding code by (auto simp: code bind_run_eq_Inr ret_def)
    have m: "m \<le> n" "s_recvBuffer (c_sess w3 i) = rb1" using law [of "received i rb1 w" m w3] o by (simp_all add: b)
    show ?thesis
    proof (cases "m < 0 \<or> RecvBuffer_DataSize rb1 < m")
      case True
      then show ?thesis using run n o m(2) d1 by (simp add: code ret_def) auto
    next
      case False
      then have rd: "RecvBuffer_OnRead m rb1 = (True, rb1\<lparr>rb_readPos := rb_readPos rb1 + m\<rparr>)"
        by (simp add: RecvBuffer_OnRead_def)
      let ?rb2 = "rb1\<lparr>rb_readPos := rb_readPos rb1 + m\<rparr>"
      have inv2: "recv_inv ?rb2" using OnRead_spec(1) [OF inv1(1) _ rd] False by simp
      obtain rb3 where rb3: "RecvBuffer_Clear ?rb2 = Inr rb3"
          "Session_RegisterRecv (env_os E) i (upd_sess i (\<lambda>s. s\<lparr>s_recvBuffer := rb3\<rparr>) w3) = Inr w'"
        using run n o m(2) rd False by (auto simp: code bind_run_eq_Inr lift_res_def ret_def)
      have "RecvBuffer_DataSize rb3 = RecvBuffer_DataSize ?rb2"
        using Clear_spec(1,2) [OF inv2 rb3(1)] length_pending inv2 by metis
      also have "\<dots> = RecvBuffer_DataSize ?rb + n - m" using d1 by (simp add: RecvBuffer_DataSize_def)
      finally show ?thesis using RegisterRecv_sess(1) [OF rb3(2), of i] m(1) by simp
    qed
  qed
qed

theorem ProcessRecv_forgets_kept_bytes_witness:
  "\<exists>w w'. RecvBuffer_DataSize (s_recvBuffer (c_sess w 0)) = 1 \<and>
    Session_ProcessRecv (session_env (\<lambda>n. n)) 0 3 w = ret w' \<and>
    1 \<le> RecvBuffer_DataSize (s_recvBuffer (c_sess w' 0))"
proof -
  let ?rb = "small_buffer\<lparr>rb_writePos := 1\<rparr>" let ?w = "one_session ?rb"
  have inv: "recv_inv (s_recvBuffer (c_sess ?w 0))"
    by (simp add: sample_eval recv_defs in_int32_def BUFFER_COUNT_def)
  have "OnRecv (session_env (\<lambda>n. n)) 0 p 3 v = ret (m, v') \<Longrightarrow> m \<le> 3 \<and> s_recvBuffer (c_sess v' 0) = s_recvBuffer (c_sess v 0)" for p v m and v' :: core
    by (auto simp: session_env_def ret_def)
  moreover have "\<exists>w'. Session_ProcessRecv (session_env (\<lambda>n. n)) 0 3 ?w = ret w'"
    by (simp add: Session_ProcessRecv_def Let_def one_session_buffer small_buffer_def RecvBuffer_OnWrite_def recv_defs RecvBuffer_ReadPos_def
        session_env_def RecvBuffer_OnRead_def RecvBuffer_Clear_def Session_RegisterRecv_def IsConnected_def
        RecvBuffer_WritePos_def call_eq SOCKET_ERROR_def)
  moreover have "RecvBuffer_DataSize (s_recvBuffer (c_sess ?w 0)) = 1" by (simp add: sample_eval RecvBuffer_DataSize_def)
  ultimately show ?thesis
    using ProcessRecv_forgets_kept_bytes [OF inv, of 3 "session_env (\<lambda>n. n)"] by (metis zero_less_numeral)
qed

section \<open>Disconnecting\<close>

lemma disc_shape_trans:
  assumes "disc_shape i w w1" and "disc_shape i w1 w2"
  shows "disc_shape i w w2"
proof -
  obtain x1 c1 d1 where 1: "w1 = w\<lparr>c_trace := c_trace w @ x1,
      c_sess := (c_sess w)(i := (c_sess w i)\<lparr>s_isConnected := c1, s_disconnectEvent := d1\<rparr>)\<rparr>"
    "c1 \<longrightarrow> IsConnected i w"
    "length (filter (\<lambda>x. x = SysDisconnectEx (s_socket (c_sess w i))) x1) = (if IsConnected i w \<and> \<not> c1 then 1 else 0)"
    using assms(1) unfolding disc_shape_def by blast
  obtain x2 c2 d2 where 2: "w2 = w1\<lparr>c_trace := c_trace w1 @ x2,
      c_sess := (c_sess w1)(i := (c_sess w1 i)\<lparr>s_isConnected := c2, s_disconnectEvent := d2\<rparr>)\<rparr>"
    "c2 \<longrightarrow> IsConnected i w1"
    "length (filter (\<lambda>x. x = SysDisconnectEx (s_socket (c_sess w1 i))) x2) = (if IsConnected i w1 \<and> \<not> c2 then 1 else 0)"
    using assms(2) unfolding disc_shape_def by blast
  have s1: "s_socket (c_sess w1 i) = s_socket (c_sess w i)" "IsConnected i w1 = c1" by (simp_all add: 1(1) IsConnected_def)
  have "w2 = w\<lparr>c_trace := c_trace w @ (x1 @ x2),
      c_sess := (c_sess w)(i := (c_sess w i)\<lparr>s_isConnected := c2, s_disconnectEvent := d2\<rparr>)\<rparr>"
    by (simp add: 2(1) 1(1))
  moreover have "c2 \<longrightarrow> IsConnected i w" using 1(2) 2(2) s1 by simp
  moreover have "length (filter (\<lambda>x. x = SysDisconnectEx (s_socket (c_sess w i))) (x1 @ x2)) =
      (if IsConnected i w \<and> \<not> c2 then 1 else 0)"
    using 1(2,3) 2(2,3) unfolding s1 by (cases c1; cases c2) simp_all
  ultimately show ?thesis unfolding disc_shape_def by blast
qed

lemma disc_shape_refl: "disc_shape i w w"
proof -
  have "w = w\<lparr>c_trace := c_trace w @ [], c_sess := (c_sess w)(i := (c_sess w i)
      \<lparr>s_isConnected := s_isConnected (c_sess w i), s_disconnectEvent := s_disconnectEvent (c_sess w i)\<rparr>)\<rparr>" by simp
  then show ?thesis unfolding disc_shape_def IsConnected_def by (metis filter.simps(1) list.size(3))
qed

text \<open>Everything that may end a connection: a call of \<^verbatim>\<open>Disconnect\<close>, an error of the system.\<close>

definition end_connection :: "sid \<Rightarrow> winsock \<times> (cause + int) \<Rightarrow> 'a core_scheme \<Rightarrow> 'a core_scheme" where
  "end_connection i op w = (case op of
     (os, Inl c) \<Rightarrow> Session_Disconnect os i c w | (os, Inr e) \<Rightarrow> Session_HandleError os i e w)"

lemma end_connection_shape: "disc_shape i w (fold (end_connection i) ops w)"
proof (induction ops arbitrary: w)
  case (Cons op ops)
  have "disc_shape i w (end_connection i op w)"
    using Disconnect_shape HandleError_shape by (auto simp: end_connection_def split: prod.split sum.split)
  then show ?case using Cons disc_shape_trans by fastforce
qed (simp add: disc_shape_refl)

text \<open>
  C13: However often a session is disconnected or meets an error, \<^verbatim>\<open>DisconnectEx\<close> is called at
  most once per connection, and exactly when the session stops being connected; nothing that was received
  or is to be sent is touched, nor any other session.
\<close>

theorem disconnects_once:
  "\<exists>extra. c_trace (fold (end_connection i) ops w) = c_trace w @ extra \<and>
     length (filter (\<lambda>x. x = SysDisconnectEx (s_socket (c_sess w i))) extra) =
       (if IsConnected i w \<and> \<not> IsConnected i (fold (end_connection i) ops w) then 1 else 0) \<and>
     \<not> (IsConnected i (fold (end_connection i) ops w) \<and> Inl ` UNIV \<inter> snd ` set ops \<noteq> {}) \<and>
     s_recvBuffer (c_sess (fold (end_connection i) ops w) j) = s_recvBuffer (c_sess w j) \<and>
     s_sendQueue (c_sess (fold (end_connection i) ops w) j) = s_sendQueue (c_sess w j) \<and>
     c_sbm (fold (end_connection i) ops w) = c_sbm w"
proof -
  note shape = end_connection_shape [of i w ops]
  let ?w = "fold (end_connection i) ops w"
  obtain extra c d where e: "?w = w\<lparr>c_trace := c_trace w @ extra,
      c_sess := (c_sess w)(i := (c_sess w i)\<lparr>s_isConnected := c, s_disconnectEvent := d\<rparr>)\<rparr>"
    "length (filter (\<lambda>x. x = SysDisconnectEx (s_socket (c_sess w i))) extra) = (if IsConnected i w \<and> \<not> c then 1 else 0)"
    using shape unfolding disc_shape_def by blast
  have c: "IsConnected i ?w = c" by (subst e(1)) (simp add: IsConnected_def)
  have t: "c_trace ?w = c_trace w @ extra" by (subst e(1)) simp
  have gone: "\<not> IsConnected i (fold (end_connection i) os v)" if "(a, Inl r) \<in> set os" for a r os and v :: "'a core_scheme"
    using that
  proof (induction os arbitrary: v)
    case (Cons op os)
    have one: "\<not> IsConnected i (end_connection i (a, Inl r) v)"
    proof (cases "IsConnected i v")
      case True
      obtain s where r: "r = Cause s" by (cases r)
      show ?thesis using Disconnect_connected [OF True, of a s] by (auto simp: end_connection_def r IsConnected_def)
    qed (simp add: end_connection_def Disconnect_not_connected)
    show ?case
    proof (cases "op = (a, Inl r)")
      case True
      then show ?thesis
        using one disc_shapeD(17) [OF end_connection_shape [of i "end_connection i op v" os]] by auto
    next
      case False
      then show ?thesis using Cons by simp
    qed
  qed simp
  then have "\<not> (IsConnected i ?w \<and> Inl ` UNIV \<inter> snd ` set ops \<noteq> {})" by fastforce
  then show ?thesis
    using e(2) c t disc_shapeD(1,8,11) [OF shape] by (intro exI [of _ extra]) simp
qed

section \<open>Sending after a disconnect\<close>

lemma ProcessConnect_send:
  assumes "\<And>v v'. OnConnected E i v = ret v' \<Longrightarrow> c_sess v' i = c_sess v i" and "Session_ProcessConnect E i w = ret w'"
  shows "s_sendRegistered (c_sess w' i) = s_sendRegistered (c_sess w i)"
    and "s_sendEvent (c_sess w' i) = s_sendEvent (c_sess w i)"
proof -
  let ?w1 = "upd_service (AddSession i) (upd_sess i (\<lambda>s. s\<lparr>s_connectEvent := (s_connectEvent s)\<lparr>iocpObj := None\<rparr>,
    s_isConnected := True\<rparr>) w)"
  obtain w2 where w2: "OnConnected E i ?w1 = ret w2" "Session_RegisterRecv (env_os E) i w2 = Inr w'"
    using assms(2) by (auto simp: Session_ProcessConnect_def Let_def bind_run_eq_Inr lift_res_def ret_def)
  have "c_sess w2 i = c_sess ?w1 i" using assms(1) [OF w2(1)] .
  then show "s_sendRegistered (c_sess w' i) = s_sendRegistered (c_sess w i)"
    "s_sendEvent (c_sess w' i) = s_sendEvent (c_sess w i)"
    using RegisterRecv_sess(3,4) [OF w2(2), of i] by simp_all
qed

definition send_done :: "sid \<Rightarrow> 'a core_scheme \<Rightarrow> 'a core_scheme" where
  "send_done i w = upd_sbm (release_all (map Some (s_sendBuffers (c_sess w i))))
    (upd_sess i (\<lambda>s. s\<lparr>s_sendEvent := (s_sendEvent s)\<lparr>iocpObj := None\<rparr>, s_sendBuffers := []\<rparr>) w)"

lemma ProcessSend_zero:
  assumes "IsConnected i w" and "s_sendQueue (c_sess w i) \<noteq> []" and "\<And>v. OnSend E i 0 v = ret v"
  defines "w' \<equiv> Session_Disconnect (env_os E) i (Cause ''Send 0 bytes'') (send_done i w)"
  shows "Session_ProcessSend E i 0 w = ret w'" and "\<not> IsConnected i w'"
proof -
  have "IsConnected i (send_done i w)" using assms(1) by (simp add: IsConnected_def send_done_def)
  then show nc: "\<not> IsConnected i w'"
    using Disconnect_connected [of i "send_done i w" "env_os E" "''Send 0 bytes''"] by (auto simp: IsConnected_def w'_def)
  have "s_sendQueue (c_sess w' i) \<noteq> []" using assms(2) by (simp add: w'_def send_done_def)
  then show "Session_ProcessSend E i 0 w = ret w'"
    using nc assms(3) by (simp add: Session_ProcessSend_def Let_def Session_RegisterSend_def w'_def send_done_def)
qed



end
