(* ===== verification/Send_Path.thy ===== *)
theory Send_Path
  imports Session_Properties
begin

text \<open>
  The send path of a session under concurrency. \<^verbatim>\<open>Session::Send\<close> is cut where it leaves its
  lock: any number of threads may push buffers, the thread that set \<^verbatim>\<open>sendRegistered\<close> calls
  \<^verbatim>\<open>RegisterSend\<close> later, completions and everything else that leaves the send fields alone
  happen in between. \<^verbatim>\<open>RegisterSend\<close> itself is one step here, which the code does not
  guarantee: it reads the queue without the lock.
\<close>

section \<open>The steps\<close>

text \<open>\<^verbatim>\<open>Send\<close> up to the end of its lock; the flag asks for a call of \<^verbatim>\<open>RegisterSend\<close>.\<close>

definition Send_push :: "sid \<Rightarrow> bid option \<Rightarrow> 'a core_scheme \<Rightarrow> bool \<times> 'a core_scheme" where
  "Send_push i sendData w =
     (let w1 = upd_sbm (retain_opt sendData) (upd_sess i (\<lambda>s. s\<lparr>s_sendQueue := s_sendQueue s @ [sendData]\<rparr>) w) in
      (s_sendRegistered (c_sess w1 i) = False, upd_sess i (\<lambda>s. s\<lparr>s_sendRegistered := True\<rparr>) w1))"

lemma Session_Send_steps:
  "Session_Send os i b w =
     (if \<not> IsConnected i w then Inr w
      else case Send_push i b w of (reg, w1) \<Rightarrow> if reg then Session_RegisterSend os i w1 else Inr w1)"
  by (simp add: Session_Send_def Send_push_def Let_def)

text \<open>A send event is in flight from \<^verbatim>\<open>WSASend\<close> to its completion.\<close>

definition send_fields :: "sid \<Rightarrow> 'a core_scheme \<Rightarrow> bid option list \<times> bool \<times> bid list \<times> bool" where
  "send_fields i w = (let s = c_sess w i in
     (s_sendQueue s, s_sendRegistered s, s_sendBuffers s, iocpObj (s_sendEvent s) \<noteq> None))"

text \<open>
  The state of the core; the number of threads about to call \<^verbatim>\<open>RegisterSend\<close>; all buffers ever
  pushed, and those that left the queue for \<^verbatim>\<open>WSASend\<close>, both in order.
\<close>

record 'a send_state =
  ss_core :: 'a
  ss_calls :: nat
  ss_pushed :: "bid option list"
  ss_handed :: "bid option list"

definition left_queue :: "sid \<Rightarrow> 'a core_scheme \<Rightarrow> 'a core_scheme \<Rightarrow> bid option list" where
  "left_queue i w w' =
     take (length (s_sendQueue (c_sess w i)) - length (s_sendQueue (c_sess w' i))) (s_sendQueue (c_sess w i))"

inductive send_step ::
    "('a core_scheme) env \<Rightarrow> sid \<Rightarrow> 'a core_scheme send_state \<Rightarrow> 'a core_scheme send_state \<Rightarrow> bool"
  for E :: "('a core_scheme) env" and i :: sid
where
  push: "Send_push i b (ss_core s) = (reg, w') \<Longrightarrow>
    send_step E i s (s\<lparr>ss_core := w', ss_calls := ss_calls s + (if reg then 1 else 0), ss_pushed := ss_pushed s @ [b]\<rparr>)"
| register: "ss_calls s = Suc n \<Longrightarrow> Session_RegisterSend (env_os E) i (ss_core s) = Inr w' \<Longrightarrow>
    send_step E i s (s\<lparr>ss_core := w', ss_calls := n, ss_handed := ss_handed s @ left_queue i (ss_core s) w'\<rparr>)"
| complete: "iocpObj (s_sendEvent (c_sess (ss_core s) i)) \<noteq> None \<Longrightarrow>
    Session_ProcessSend E i n (ss_core s) = ret w' \<Longrightarrow>
    send_step E i s (s\<lparr>ss_core := w', ss_handed := ss_handed s @ left_queue i (ss_core s) w'\<rparr>)"
| other: "send_fields i w' = send_fields i (ss_core s) \<Longrightarrow> send_step E i s (s\<lparr>ss_core := w'\<rparr>)"

definition send_init :: "sid \<Rightarrow> 'a core_scheme send_state \<Rightarrow> bool" where
  "send_init i s \<longleftrightarrow> send_fields i (ss_core s) = ([], False, [], False) \<and>
     ss_calls s = 0 \<and> ss_pushed s = [] \<and> ss_handed s = []"

text \<open>Disconnecting is one of the other steps, at any time.\<close>

lemma disconnect_other:
  "send_step E i s (s\<lparr>ss_core := Session_Disconnect os i c (ss_core s)\<rparr>)"
  "send_step E i s (s\<lparr>ss_core := Session_HandleError os i e (ss_core s)\<rparr>)"
  by (rule other, simp add: send_fields_def Let_def disc_shapeD(9) [OF Disconnect_shape],
      rule other, simp add: send_fields_def Let_def disc_shapeD(9) [OF HandleError_shape])

section \<open>The invariant\<close>

text \<open>What a call of \<^verbatim>\<open>RegisterSend\<close> does to the send fields when no send is in flight.\<close>

lemma drain_queue_map: "drain_queue q acc = Inr bufs \<longleftrightarrow> (\<exists>bs. q = map Some bs \<and> bufs = acc @ bs)"
proof (induction q acc arbitrary: bufs rule: drain_queue.induct)
  case (3 b q acc)
  have "(\<exists>bs. q = map Some bs \<and> bufs = (acc @ [b]) @ bs) \<longleftrightarrow> (\<exists>bs. Some b # q = map Some bs \<and> bufs = acc @ bs)"
    by (auto simp: Cons_eq_map_conv)
  with 3 show ?case by simp
qed auto

lemma RegisterSend_fields:
  assumes run: "Session_RegisterSend os i w = Inr w'" and idle: "send_fields i w = (q, r, [], False)"
  obtains (refused) "send_fields i w' = (q, r, [], False)"
    | (sent) bs where "q = map Some bs" "send_fields i w' = ([], r, bs, True)"
    | (failed) bs where "q = map Some bs" "send_fields i w' = ([], False, [], False)"
proof (cases "IsConnected i w")
  case False
  then show ?thesis using run idle refused by (simp add: Session_RegisterSend_def)
next
  case True
  have f: "s_sendQueue (c_sess w i) = q" "s_sendRegistered (c_sess w i) = r" "s_sendBuffers (c_sess w i) = []"
    using idle by (simp_all add: send_fields_def Let_def)
  let ?w1 = "upd_sess i (\<lambda>s. s\<lparr>s_sendEvent := set_obj (Some (ObjSession i)) (s_sendEvent s)\<rparr>) w"
  obtain bufs where d: "drain_queue q [] = Inr bufs"
    using run True f by (cases "drain_queue q []") (simp_all add: Session_RegisterSend_def Let_def)
  then have q: "q = map Some bufs" by (auto simp: drain_queue_map)
  let ?w2 = "upd_sess i (\<lambda>s. s\<lparr>s_sendQueue := [], s_sendBuffers := bufs\<rparr>) ?w1"
  obtain x err w3 where c: "call os (SysSend (s_socket (c_sess w i)) (map (buffer_content (c_sbm w)) bufs)) ?w2 = ((x, err), w3)"
    by (rule call_cases)
  have w3: "c_sess w3 = c_sess ?w2" using call_sess [OF c] .
  show ?thesis
  proof (cases "x = SOCKET_ERROR \<and> err \<noteq> WSA_IO_PENDING")
    case False
    then have "w' = w3" using run True f d c by (auto simp: Session_RegisterSend_def Let_def)
    then have "send_fields i w' = ([], r, bufs, True)" by (simp add: send_fields_def Let_def w3 f set_obj_def)
    then show ?thesis using sent [OF q] by simp
  next
    case True
    have "send_fields i w' = ([], False, [], False)"
      using run \<open>IsConnected i w\<close> f d c True
      by (auto simp: Session_RegisterSend_def Let_def send_fields_def w3)
    then show ?thesis using failed [OF q] by simp
  qed
qed

lemma ProcessSend_fields:
  assumes law: "\<And>n v v'. OnSend E i n v = ret v' \<Longrightarrow> send_fields i v' = send_fields i v"
    and run: "Session_ProcessSend E i n w = ret w'" and f: "send_fields i w = (q, True, bs, b)"
  shows "send_fields i w' = ([], False, [], False) \<and> q = [] \<or>
    (\<exists>w1. send_fields i w1 = (q, True, [], False) \<and> Session_RegisterSend (env_os E) i w1 = Inr w')"
proof -
  let ?w2 = "if n = 0 then Session_Disconnect (env_os E) i (Cause ''Send 0 bytes'') (send_done i w) else send_done i w"
  have f2: "send_fields i ?w2 = (q, True, [], False)"
    using f by (auto simp: send_fields_def Let_def send_done_def disc_shapeD(9) [OF Disconnect_shape])
  obtain w3 where w3: "OnSend E i n ?w2 = ret w3"
    "(if s_sendQueue (c_sess w3 i) = [] then ret (upd_sess i (\<lambda>s. s\<lparr>s_sendRegistered := False\<rparr>) w3)
      else lift_res (Session_RegisterSend (env_os E) i w3)) = ret w'"
    using run unfolding Session_ProcessSend_def Let_def send_done_def [symmetric] ret_def bind_run_eq_Inr by blast
  have f3: "send_fields i w3 = (q, True, [], False)" using law [OF w3(1)] f2 by simp
  show ?thesis
  proof (cases "q = []")
    case True
    then show ?thesis using w3(2) f3 by (auto simp: send_fields_def Let_def ret_def)
  next
    case False
    then show ?thesis using w3(2) f3 by (auto simp: send_fields_def Let_def ret_def lift_res_def)
  qed
qed

definition send_inv :: "sid \<Rightarrow> 'a core_scheme send_state \<Rightarrow> bool" where
  "send_inv i s \<longleftrightarrow> (case send_fields i (ss_core s) of (q, r, bs, armed) \<Rightarrow>
     ss_calls s + (if armed then 1 else 0) \<le> 1 \<and> (r \<or> ss_calls s = 0 \<and> \<not> armed) \<and>
     (if armed then \<exists>xs. ss_handed s = xs @ map Some bs else bs = []) \<and> ss_handed s @ q = ss_pushed s)"

text \<open>After a call of \<^verbatim>\<open>RegisterSend\<close> by the only thread that may make it.\<close>

lemma RegisterSend_keeps:
  assumes "Session_RegisterSend os i w1 = Inr w'" and "send_fields i w1 = (q, True, [], False)"
    and q: "s_sendQueue (c_sess w i) = q" and "hs @ q = ps"
    and s: "ss_core s = w'" "ss_calls s = 0" "ss_pushed s = ps" "ss_handed s = hs @ left_queue i w w'"
  shows "send_inv i s"
proof -
  have l: "left_queue i w w' = take (length q - length q') q" if "send_fields i w' = (q', r, bs, a)" for q' r bs a
    using that by (auto simp: left_queue_def q send_fields_def Let_def)
  show ?thesis
    using assms(1,2)
  proof (cases rule: RegisterSend_fields)
    case refused
    then show ?thesis using assms(4) l [OF refused] by (simp add: send_inv_def s)
  next
    case (sent bs)
    then show ?thesis using assms(4) l [OF sent(2)] by (auto simp: send_inv_def s)
  next
    case (failed bs)
    then show ?thesis using assms(4) l [OF failed(2)] by (simp add: send_inv_def s)
  qed
qed

lemma send_step_keeps:
  assumes law: "\<And>n v v'. OnSend E i n v = ret v' \<Longrightarrow> send_fields i v' = send_fields i v"
    and "send_inv i s" and "send_step E i s t"
  shows "send_inv i t"
proof -
  obtain q r bs armed where f: "send_fields i (ss_core s) = (q, r, bs, armed)"
      "ss_calls s + (if armed then 1 else 0) \<le> 1" "r \<or> ss_calls s = 0 \<and> \<not> armed"
      "if armed then \<exists>xs. ss_handed s = xs @ map Some bs else bs = []" "ss_handed s @ q = ss_pushed s"
    using assms(2) by (cases "send_fields i (ss_core s)") (auto simp: send_inv_def)
  have q: "s_sendQueue (c_sess (ss_core s) i) = q" using f(1) by (simp add: send_fields_def Let_def)
  show ?thesis
    using assms(3)
  proof (cases rule: send_step.cases)
    case (push b reg w')
    then have "reg = (\<not> r)" "send_fields i w' = (q @ [b], True, bs, armed)"
      using f(1) by (auto simp: Send_push_def send_fields_def Let_def)
    then show ?thesis using push(1) f(2-5) by (cases r; cases armed) (auto simp: send_inv_def)
  next
    case (register n w')
    then have "r" "\<not> armed" "n = 0" using f(2,3) by (auto split: if_splits)
    with f(1,4) have "send_fields i (ss_core s) = (q, True, [], False)" by simp
    from RegisterSend_keeps [OF register(3) this q f(5), of t] show ?thesis
      using register(1) \<open>n = 0\<close> by simp
  next
    case (complete n w')
    have a: "armed" "r" "ss_calls s = 0" using complete(2) f(1-3) by (auto simp: send_fields_def Let_def split: if_splits)
    have "send_fields i (ss_core s) = (q, True, bs, True)" using f(1) a by simp
    from ProcessSend_fields [OF _ complete(3) this] law
    consider "send_fields i w' = ([], False, [], False)" "q = []"
      | w1 where "send_fields i w1 = (q, True, [], False)" "Session_RegisterSend (env_os E) i w1 = Inr w'" by auto
    then show ?thesis
    proof cases
      case 1
      then show ?thesis using complete(1) a(3) f(5) q by (simp add: send_inv_def left_queue_def)
    next
      case 2
      from RegisterSend_keeps [OF 2(2,1) q f(5), of t] show ?thesis using complete(1) a(3) by simp
    qed
  next
    case (other w')
    then show ?thesis using f by (simp add: send_inv_def)
  qed
qed


text \<open>A run: a thread pushes a buffer and registers the send.\<close>

definition idle_core :: core where
  "idle_core = upd_sess 0 (\<lambda>s. s\<lparr>s_sendRegistered := False, s_sendQueue := []\<rparr>) (one_session small_buffer)"


end
