(* ===== verification/Wire_Properties.thy ===== *)
theory Wire_Properties
  imports Wire_Writers
begin

text \<open>
  What the integers of the wire format promise their users: the encoders and decoders of
  \<^verbatim>\<open>io/coded_stream\<close>, \<^verbatim>\<open>parse_context\<close> and \<^verbatim>\<open>wire_format_lite.h\<close>
  are inverse to each other, sizes computed in advance are exact, and a size read from the wire leaves
  room for the arithmetic on it.
\<close>

section \<open>Variable-length integers\<close>

lemma unat_less_128:
  "unat (v :: uint32) < 128 ^ 5" "unat (w :: uint64) < 128 ^ 10"
  using unsigned_less [of v, where ?'a = nat] unsigned_less [of w, where ?'a = nat] by simp_all

lemma varint_decoded:
  assumes "unat (v :: 'w::len word) < 128 ^ k" and "0 < k"
  shows "varint_word (varint_value k (varint_bytes (unat v) @ rest)) = Some (length (varint_bytes (unat v)), v)"
  using varint_value_bytes [OF assms, of rest] by (simp add: varint_word_def)

lemma drop_overwrite:
  "p + length bs \<le> length m \<Longrightarrow> drop p (overwrite p bs m) = bs @ drop (p + length bs) m"
  by (simp add: overwrite_def)

text \<open>
  a 64-bit integer written into an array with ten bytes to spare is read back by the
  parser's reader, which stops exactly behind it; only its own bytes of the array change.
\<close>

theorem varint_round_trip:
  assumes "p + 10 \<le> length m"
  shows "\<exists>n m'. UnsafeVarint v p m = Inr (p + n, m') \<and> VarintParse64 (drop p m') = Inr (Some (n, v)) \<and>
    1 \<le> n \<and> n \<le> 10 \<and> take p m' = take p m \<and> drop (p + n) m' = drop (p + n) m"
proof -
  let ?bs = "varint_bytes (unat v)"
  have l: "0 < length ?bs" "length ?bs \<le> 10"
    using length_varint_bytes [OF unat_less_128(2) [of v]] by simp_all
  let ?m = "overwrite p ?bs m"
  have fits: "p + length ?bs \<le> length m" using l(2) assms by simp
  have d: "drop p ?m = ?bs @ drop (p + length ?bs) m" by (rule drop_overwrite [OF fits])
  have "10 \<le> length (drop p ?m)" using assms fits by simp
  then have "VarintParse64 (drop p ?m) = Inr (Some (length ?bs, v))"
    using varint_decoded [OF unat_less_128(2) [of v]] by (simp add: VarintParse64_value d)
  moreover have "UnsafeVarint v p m = Inr (p + length ?bs, ?m)"
    using fits by (simp add: UnsafeVarint_put put_def)
  moreover have "take p ?m = take p m" "drop (p + length ?bs) ?m = drop (p + length ?bs) m"
    using fits by (simp_all add: overwrite_def)
  ultimately show ?thesis
    using l by (intro exI [of _ "length ?bs"] exI [of _ ?m]) (simp add: Suc_leI)
qed

theorem varint_round_trip_witness:
  "\<exists>n m'. UnsafeVarint (300 :: uint64) 1 (replicate 12 7) = Inr (1 + n, m') \<and>
    VarintParse64 (drop 1 m') = Inr (Some (n, 300))"
  using varint_round_trip [of 1 "replicate 12 7" 300] by auto


text \<open>
  a length prefix that \<^verbatim>\<open>ReadSize\<close> accepts took one to five bytes and is at most
  \<^verbatim>\<open>INT_MAX - 16\<close>, so that adding it to an offset into the 16 slop bytes does not overflow;
  any other prefix is refused, and the reader stays within five bytes.
\<close>

theorem ReadSize_bounds:
  assumes "5 \<le> length p"
  shows "\<exists>r. ReadSize p = Inr r \<and>
    (case r of
       Some (n, sz) \<Rightarrow> 1 \<le> n \<and> n \<le> 5 \<and> unat sz + 16 < 2 ^ 31 \<and>
         varint_value 5 p = Some (n, unat sz)
     | None \<Rightarrow> varint_value 5 p = None \<or>
         (\<exists>n v. varint_value 5 p = Some (n, v) \<and> 2 ^ 31 \<le> v + 16))"
proof (cases "varint_value 5 p")
  case None
  then show ?thesis using ReadSize_value [OF assms] by (simp add: size_limit_def varint_word_def)
next
  case (Some d)
  obtain n v where d: "d = (n, v)" by fastforce
  have b: "0 < n" "n \<le> 5" using varint_value_bound [of 5 p n v] Some d by auto
  have lim: "int v \<le> INT_MAX - kSlopBytes \<longleftrightarrow> v + 16 < 2 ^ 31" by (auto simp: INT_MAX_def kSlopBytes_def)
  show ?thesis
  proof (cases "v + 16 < 2 ^ 31")
    case True
    then have "unat (word_of_nat v :: uint32) = v"
      by (simp add: unat_of_nat)
    then show ?thesis
      using ReadSize_value [OF assms] Some d True b lim
      by (simp add: size_limit_def varint_word_def)
  next
    case False
    then show ?thesis
      using ReadSize_value [OF assms] Some d lim
      by (simp add: size_limit_def varint_word_def)
  qed
qed

theorem ReadSize_bounds_witness:
  "\<exists>r. ReadSize [0xF0, 0xFF, 0xFF, 0xFF, 0x07] = Inr r"
  using ReadSize_bounds [of "[0xF0, 0xFF, 0xFF, 0xFF, 0x07]"] by auto

section \<open>Zigzag, tags, logarithms\<close>

lemma signed_shift_sign:
  "signed_drop_bit (LENGTH('w) - 1) (n :: 'w::len word) = (if bit n (LENGTH('w) - 1) then - 1 else 0)"
  by (rule bit_word_eqI) (auto simp: bit_signed_drop_bit_iff not_le dest: bit_imp_le_length)

text \<open>The code of a number, as an integer.\<close>

lemma zigzag_code:
  fixes n :: "'w::len word"
  shows "uint (push_bit 1 n XOR signed_drop_bit (LENGTH('w) - 1) n) =
    (if 0 \<le> sint n then 2 * sint n else - 2 * sint n - 1)"
proof -
  let ?s = "sint n" let ?c = "if 0 \<le> ?s then 2 * ?s else - 2 * ?s - 1"
  have n: "n = word_of_int ?s" by simp
  have p: "push_bit 1 n = 2 * n" by (simp add: push_bit_eq_mult)
  have sign: "bit n (LENGTH('w) - 1) \<longleftrightarrow> ?s < 0" using bit_last_iff [of n] by simp
  have "push_bit 1 n XOR signed_drop_bit (LENGTH('w) - 1) n = word_of_int ?c"
  proof (cases "?s < 0")
    case True
    then have "push_bit 1 n XOR signed_drop_bit (LENGTH('w) - 1) n = NOT (2 * n)"
      unfolding signed_shift_sign p using sign by simp
    also have "\<dots> = - 2 * n - 1" by (simp add: not_eq_complement)
    also have "\<dots> = word_of_int (- 2 * ?s - 1)" by simp
    finally show ?thesis using True by simp
  next
    case False
    then show ?thesis unfolding signed_shift_sign p using sign by simp
  qed
  moreover have "(2 :: int) ^ LENGTH('w) = 2 * 2 ^ (LENGTH('w) - 1)" by (simp flip: power_Suc)
  then have "0 \<le> ?c" "?c < 2 ^ LENGTH('w)" using sint_ge [of n] sint_lt [of n] by auto
  ultimately show ?thesis by (simp only: uint_word_of_int) (simp add: mod_pos_pos_trivial)
qed

lemma encode_decode:
  fixes enc :: "'w::len word \<Rightarrow> 'w word"
  assumes inv: "\<And>n. dec (enc n) = n"
  shows "enc (dec n) = n"
proof -
  have "inj enc" using inv by (rule inj_on_inverseI)
  then have "surj enc" by (rule finite_UNIV_inj_surj [OF finite])
  then obtain k where "n = enc k" by (metis surjD)
  then show ?thesis by (simp add: inv)
qed

text \<open>
  the zigzag mapping is a bijection of the 32-bit and of the 64-bit words, and numbers of
  small magnitude have small codes.
\<close>

theorem zigzag_bijection:
  "ZigZagDecode32 (ZigZagEncode32 n) = n \<and> ZigZagEncode32 (ZigZagDecode32 n) = n \<and>
   ZigZagDecode64 (ZigZagEncode64 m) = m \<and> ZigZagEncode64 (ZigZagDecode64 m) = m \<and>
   uint (ZigZagEncode32 n) = (if 0 \<le> sint n then 2 * sint n else - 2 * sint n - 1) \<and>
   uint (ZigZagEncode64 m) = (if 0 \<le> sint m then 2 * sint m else - 2 * sint m - 1)"
  using encode_decode [of ZigZagDecode32 ZigZagEncode32 n] encode_decode [of ZigZagDecode64 ZigZagEncode64 m]
    zigzag_code [of n] zigzag_code [of m] ZigZag_decode_encode
  by (simp add: ZigZagEncode32_def ZigZagEncode64_def)

text \<open>
  a tag made of a field number below \<open>2 ^ 29\<close> and a wire type gives both back, is not zero
  for a positive number, and takes as many bytes as \<^verbatim>\<open>VarintSize32\<close> says whatever the type.
\<close>

theorem tag_round_trip:
  assumes "0 < n" and "n < 2 ^ 29"
  shows "GetTagWireType (MakeTag n ty) = Some ty \<and> GetTagFieldNumber (MakeTag n ty) = n \<and>
    MakeTag n ty \<noteq> 0 \<and> VarintSize32 (MakeTag n ty) = VarintSize32 (MakeTag n WIRETYPE_VARINT)"
proof -
  have parts: "GetTagWireType (MakeTag n ty) = Some ty" "GetTagFieldNumber (MakeTag n ty) = n" for ty
    using assms by (simp_all add: MakeTag_parts)
  have high: "unat (MakeTag n ty) div 8 = nat n" for ty
  proof -
    have "unat (drop_bit 3 (MakeTag n ty)) = nat n"
      using parts(2) [of ty] unfolding GetTagFieldNumber_def kTagTypeBits_def uint_nat
      by (simp only: nat_int [symmetric])
    then show ?thesis by (simp only: unat_drop_bit_eq) (simp add: drop_bit_eq_div)
  qed
  have "BitScanReverse (unat (MakeTag n ty)) = BitScanReverse (nat n) + 3" for ty
  proof -
    have e: "unat (MakeTag n ty) div 2 ^ 3 = nat n" using high [of ty] by simp
    show ?thesis
      using BitScanReverse_shift [of "unat (MakeTag n ty)" 3, unfolded e] assms(1) by (simp only: zero_less_nat_eq)
  qed
  then have "VarintSize32 (MakeTag n ty) = VarintSize32 (MakeTag n WIRETYPE_VARINT)"
    by (simp add: VarintSize32_length length_varint_bytes_log)
  moreover have "MakeTag n ty \<noteq> 0"
  proof
    assume "MakeTag n ty = 0"
    with high [of ty] assms(1) show False by simp
  qed
  ultimately show ?thesis using parts by simp
qed

theorem tag_round_trip_witness:
  "GetTagFieldNumber (MakeTag 536870911 WIRETYPE_START_GROUP) = 536870911"
  using tag_round_trip [of 536870911 WIRETYPE_START_GROUP] by simp

text \<open>
  The portable logarithm is the compiler's bit scan: the highest bit of every non-zero word, at
  32 and at 64 bits.
\<close>

theorem log2_equivalence:
  "(n \<noteq> 0 \<longrightarrow> Log2FloorNonZero_Portable n = uint (Log2FloorNonZero n) \<and>
      2 ^ unat (Log2FloorNonZero n) \<le> unat n \<and> unat n < 2 * 2 ^ unat (Log2FloorNonZero n)) \<and>
   (k \<noteq> 0 \<longrightarrow> Log2FloorNonZero64_Portable k = uint (Log2FloorNonZero64 k))"
proof (intro conjI impI)
  assume n: "n \<noteq> 0"
  have "unat (Log2FloorNonZero n) = BitScanReverse (unat n)"
    using BitScanReverse_word [of n] by (simp add: Log2FloorNonZero_def unat_of_nat)
  moreover have "0 < unat n" using n by (simp add: unat_gt_0)
  ultimately show "2 ^ unat (Log2FloorNonZero n) \<le> unat n" "unat n < 2 * 2 ^ unat (Log2FloorNonZero n)"
    using BitScanReverse_bound [of "unat n"] by simp_all
  show "Log2FloorNonZero_Portable n = uint (Log2FloorNonZero n)" using log2_portable(1) [OF n] .
next
  assume k: "k \<noteq> 0"
  let ?top = "ucast (drop_bit 32 k) :: uint32"
  have "unat k div 2 ^ 32 < 2 ^ 32" using unsigned_less [of k, where ?'a = nat] by simp
  then have top: "unat ?top = unat k div 2 ^ 32"
    by (simp only: unsigned_ucast_eq unat_drop_bit_eq) (simp add: drop_bit_eq_div take_bit_nat_eq_self)
  have log: "uint (Log2FloorNonZero64 k) = int (BitScanReverse (unat k))"
    using BitScanReverse_word [of k] by (simp add: Log2FloorNonZero64_def uint_nat unat_of_nat)
  have log32: "uint (Log2FloorNonZero x) = int (BitScanReverse (unat x))" for x :: uint32
    using BitScanReverse_word [of x] by (simp add: Log2FloorNonZero_def uint_nat unat_of_nat)
  show "Log2FloorNonZero64_Portable k = uint (Log2FloorNonZero64 k)"
  proof (cases "?top = 0")
    case True
    then have "unat k < 2 ^ 32" using top by (simp add: div_eq_0_iff)
    then have "unat (ucast k :: uint32) = unat k" by (simp add: unsigned_ucast_eq take_bit_nat_eq_self)
    with True show ?thesis unfolding Log2FloorNonZero64_Portable_def Let_def log log32 by simp
  next
    case False
    then have "0 < unat k div 2 ^ 32" using top by (simp add: unat_gt_0 [symmetric])
    from BitScanReverse_shift [OF this] have "BitScanReverse (unat k) = BitScanReverse (unat ?top) + 32"
      by (simp only: top)
    with False show ?thesis unfolding Log2FloorNonZero64_Portable_def Let_def log log32 by simp
  qed
qed

theorem log2_equivalence_witness:
  "Log2FloorNonZero_Portable 1000 = uint (Log2FloorNonZero 1000)"
  using log2_equivalence [of 1000 1] by simp

end
