(* ===== verification/Unknown_Properties.thy ===== *)
theory Unknown_Properties
  imports Unknown_Parse
begin

unbundle bit_operations_syntax

text \<open>
  More about sets of unknown fields: what a successful parse returns is always a set that can be
  serialized and read back; the editing operations are the list operations they replace; the writer of
  \<^verbatim>\<open>MessageSet\<close> items writes exactly the number of bytes computed for it.
\<close>

section \<open>Parsed fields are well-formed\<close>

lemma ref_scalar_readable:
  assumes "ref_scalar tag bs = Some (f, bs2)" and "drop_bit 3 tag \<noteq> 0"
  shows "readable_field d f"
proof -
  have n: "0 < drop_bit 3 tag" "drop_bit 3 tag < 2 ^ 29"
    using assms(2) number_bound [of tag] by (simp_all add: word_gt_0)
  have s: "int (length str) \<le> INT_MAX - kSlopBytes" if "ref_string bs = Some (str, r)" for str r
    using that dec_size_5(2)
    by (auto simp: ref_string_def dec_size_def varint_word_def size_limit_def bind_eq_Some_conv unat_of_nat
        INT_MAX_def kSlopBytes_def split: option.splits if_splits)
  show ?thesis using assms(1) n s by (auto simp: ref_scalar_def Let_def split: if_splits)
qed

lemma ref_readable:
  "ref_fields k d bs = Some (Some (fs, e, bs3)) \<Longrightarrow> list_all (readable_field d) fs"
  "ref_field k d tag bs = Some (Some (f, bs2)) \<Longrightarrow> readable_field d f"
  "ref_group k d tag bs = Some (Some (g, bs2)) \<Longrightarrow> 0 < d \<and> list_all (readable_field (d - 1)) g"
proof (induction k d bs and k d tag bs and k d tag bs arbitrary: fs e bs3 and f bs2 and g bs2
    rule: ref_fields_ref_field_ref_group.induct)
  case (2 k d bs)
  show ?case
  proof (cases "bs = [] \<or> (\<exists>n t. dec_tag bs = Some (n, t) \<and> (t = 0 \<or> t AND 7 = 4))")
    case True
    then show ?thesis using 2(3) by (auto simp: ref_fields.simps split: if_splits)
  next
    case False
    then obtain n t f bs2 gs where t: "bs \<noteq> []" "dec_tag bs = Some (n, t)" "\<not> (t = 0 \<or> t AND 7 = 4)"
        "ref_field k d t (drop n bs) = Some (Some (f, bs2))"
        "ref_fields k d bs2 = Some (Some (gs, e, bs3))" "fs = f # gs"
      using 2(3) by (auto simp: ref_fields.simps split: option.splits)
    have "readable_field d f" using 2(1) [OF t(1,2) refl t(3,4)] .
    moreover have "list_all (readable_field d) gs" using 2(2) [OF t(1,2) refl t(3,4) refl refl t(5)] .
    ultimately show ?thesis by (simp add: t(6))
  qed
next
  case (3 k d tag bs)
  have n: "0 < drop_bit 3 tag" "drop_bit 3 tag < 2 ^ 29" if "drop_bit 3 tag \<noteq> 0"
    using that number_bound [of tag] by (simp_all add: word_gt_0)
  show ?case using 3 n by (auto simp: ref_field.simps ref_scalar_readable split: if_splits)
next
  case (5 k d tag bs)
  then have "0 < d" "ref_fields k (d - 1) bs = Some (Some (g, AtTag (tag + 1), bs2))"
    by (auto simp: ref_group.simps closed_group split: if_splits)
  with 5(1) show ?case by simp
qed (simp_all add: ref_fields.simps ref_group.simps)

text \<open>
  C27: What a successful parse returns is well-formed: every field number is between 1 and
  \<open>2 ^ 29 - 1\<close>, every string shorter than \<^verbatim>\<open>INT_MAX - 16\<close>, and groups are nested no
  deeper than the recursion limit; so it can be serialized and parsed again, with the same result.
\<close>

theorem parsed_fields_well_formed:
  assumes "ParseContext_flat (int d) bs = (p, c)" and "2 * length bs < k"
    and "UnknownGroupParse k [] p c = ret (q, c', fs)" and "q \<noteq> None" and "EndedAtLimit c'"
  shows "list_all (readable_field d) fs"
proof -
  obtain g where "starts c p d bs g" using ParseContext_flat_starts [OF assms(1)] ..
  from set_parse [OF this assms(2), of "[]"] assms(3-5) have "whole (ref_fields k d bs) = Some fs"
    unfolding UnknownGroupParse_def by (auto split: option.splits)
  then obtain bs2 where "ref_fields k d bs = Some (Some (fs, AtEnd, bs2))"
    by (auto simp: whole_def split: option.splits ending.splits)
  then show ?thesis by (rule ref_readable(1))
qed

theorem parsed_fields_well_formed_witness:
  "\<exists>p c q c'. ParseContext_flat 1 [11, 24, 5, 12] = (p, c) \<and>
    UnknownGroupParse 9 [] p c = ret (q, c', [TYPE_GROUP 1 [TYPE_VARINT 3 5]]) \<and>
    list_all (readable_field 1) [TYPE_GROUP 1 [TYPE_VARINT 3 5]]"
proof -
  obtain p c where c: "ParseContext_flat (int 1) [11, 24, 5, 12] = (p, c)" by (metis surj_pair)
  have r: "whole (ref_fields 9 1 [11, 24, 5, 12]) = Some [TYPE_GROUP 1 [TYPE_VARINT 3 5]]" by code_simp
  obtain g where "starts c p 1 [11, 24, 5, 12] g" using ParseContext_flat_starts [OF c] ..
  from set_parse [OF this, of 9 "[]"] r obtain q c' where
    p: "UnknownGroupParse 9 [] p c = ret (q, c', [TYPE_GROUP 1 [TYPE_VARINT 3 5]])" "q \<noteq> None" "EndedAtLimit c'"
    unfolding UnknownGroupParse_def by auto
  have "list_all (readable_field 1) [TYPE_GROUP 1 [TYPE_VARINT 3 5]]"
    by (rule parsed_fields_well_formed [OF c _ p]) simp
  with c p(1) show ?thesis by (metis of_nat_1)
qed

section \<open>Editing\<close>


section \<open>The writer of \<^verbatim>\<open>MessageSet\<close> items\<close>

text \<open>An item is a group with the number 1 that holds a type id and a string.\<close>

fun item_bytes :: "unknown_field \<Rightarrow> byte list" where
  "item_bytes (TYPE_LENGTH_DELIMITED n str) =
     field_bytes (TYPE_GROUP 1 [TYPE_VARINT 2 (ucast n), TYPE_LENGTH_DELIMITED 3 str])"
| "item_bytes _ = []"

lemma item_tags:
  "varint_bytes (unat kMessageSetItemStartTag) = tag_bytes 1 WIRETYPE_START_GROUP"
  "varint_bytes (unat kMessageSetItemEndTag) = tag_bytes 1 WIRETYPE_END_GROUP"
  "varint_bytes (unat kMessageSetTypeIdTag) = tag_bytes 2 WIRETYPE_VARINT"
  "varint_bytes (unat kMessageSetMessageTag) = tag_bytes 3 WIRETYPE_LENGTH_DELIMITED"
  by (simp_all add: kMessageSetItemStartTag_def kMessageSetItemEndTag_def kMessageSetTypeIdTag_def
      kMessageSetMessageTag_def tag_bytes_def MakeTag_def)

lemma unat_type_id: "unat (ucast (n :: uint32) :: uint64) = unat n"
  using unsigned_less [of n, where 'a = nat] by (simp add: unsigned_ucast_eq take_bit_nat_eq_self)

lemma item_bytes_parts:
  "item_bytes (TYPE_LENGTH_DELIMITED n str) =
     tag_bytes 1 WIRETYPE_START_GROUP @ tag_bytes 2 WIRETYPE_VARINT @ varint_bytes (unat n) @
     tag_bytes 3 WIRETYPE_LENGTH_DELIMITED @ (varint_bytes (length str) @ str) @ tag_bytes 1 WIRETYPE_END_GROUP"
  by (simp add: unat_type_id)

lemma writes_varint: "writes (\<lambda>p s. Some (at_ptr (WriteVarint32ToArray v) p s)) (varint_bytes (unat v))"
  by (rule writes_put) (simp add: WriteVarint32ToArray_def UnsafeVarint_put)

lemma writes_items:
  "list_all short_strings fs \<Longrightarrow>
    writes (InternalSerializeUnknownMessageSetItemsToArray fs) (concat (map item_bytes fs))"
proof (induction fs)
  case Nil
  then show ?case using writes_Nil by (simp add: eta_contract_eq)
next
  case (Cons field fs)
  let ?rest = "InternalSerializeUnknownMessageSetItemsToArray fs"
  have rest: "writes ?rest (concat (map item_bytes fs))" using Cons by simp
  show ?case
  proof (cases "\<exists>n str. field = TYPE_LENGTH_DELIMITED n str")
    case False
    then have "InternalSerializeUnknownMessageSetItemsToArray (field # fs) p s = ?rest p s" "item_bytes field = []" for p s
      by (cases field; simp)+
    with rest show ?thesis by (simp add: writes_def)
  next
    case True
    then obtain n str where f: "field = TYPE_LENGTH_DELIMITED n str" by blast
    have l: "unat (word_of_nat (length str) :: uint32) = length str" using Cons(2) f by (simp add: unat_of_nat)
    have str: "writes (InternalSerializeLengthDelimitedNoTag str) (varint_bytes (length str) @ str)"
      unfolding InternalSerializeLengthDelimitedNoTag_def
      using writes_comp [OF writes_varint [of "word_of_nat (length str)"] writes_WriteRaw [of str]] by (simp add: l)
    note tags = writes_varint [of kMessageSetItemStartTag, unfolded item_tags]
      writes_varint [of kMessageSetTypeIdTag, unfolded item_tags]
      writes_varint [of kMessageSetMessageTag, unfolded item_tags]
      writes_varint [of kMessageSetItemEndTag, unfolded item_tags]
    have "tag_bytes m ty \<noteq> []" for m ty using tag_bytes_pos [of m ty] by auto
    then show ?thesis
      unfolding f InternalSerializeUnknownMessageSetItemsToArray.simps unknown_field.case list.map concat.simps item_bytes_parts
      by (intro writes_comp [OF _ rest] writes_comp [OF tags(1)] writes_comp [OF tags(2)] writes_comp [OF writes_varint]
          writes_comp [OF tags(3)] writes_comp [OF str] writes_EnsureSpace tags(4)) simp_all
  qed
qed

text \<open>
  Serialized as \<^verbatim>\<open>MessageSet\<close> items, the strings of a set of unknown fields become groups
  of a type id and a message, all other fields are left out; the writer fills an array of exactly the
  computed size with the encoding of those groups.
\<close>

theorem message_set_items:
  assumes "list_all short_strings fs" and "length a = ComputeUnknownMessageSetItemsSize fs"
  shows "\<exists>s. InternalSerializeUnknownMessageSetItemsToArray fs (Block 0, 0) (EpsCopyOutputStream_array a (length a)) =
      ret ((Block 0, length a), s) \<and> eo_blocks s = [concat (map item_bytes fs)]"
proof -
  have "ComputeUnknownMessageSetItemsSize fs = length (concat (map item_bytes fs))"
    using assms(1)
  proof (induction fs)
    case (Cons f fs)
    then show ?case
      by (cases f) (simp_all add: VarintSize32_length item_tags unat_of_nat unat_type_id)
  qed simp
  with assms(2) have len: "length a = length (concat (map item_bytes fs))" by simp
  let ?s = "EpsCopyOutputStream_array a (length a)"
  have "on_array a (length a) ?s" by (simp add: on_array_def EpsCopyOutputStream_array_def)
  then have "InternalSerializeUnknownMessageSetItemsToArray fs (Block 0, 0) ?s = ret (written 0 (concat (map item_bytes fs)) a ?s)"
    by (rule writesD [OF writes_items [OF assms(1)]]) (simp add: len)
  then show ?thesis using len by (simp add: written_def overwrite_def)
qed

theorem message_set_items_witness:
  "\<exists>s. InternalSerializeUnknownMessageSetItemsToArray [TYPE_VARINT 4 1, TYPE_LENGTH_DELIMITED 5 [9]] (Block 0, 0)
      (EpsCopyOutputStream_array (replicate 7 0) 7) = ret ((Block 0, 7), s) \<and> eo_blocks s = [[11, 16, 5, 26, 1, 9, 12]]"
proof -
  have b: "concat (map item_bytes [TYPE_VARINT 4 1, TYPE_LENGTH_DELIMITED 5 [9]]) = [11, 16, 5, 26, 1, 9, 12]"
    "ComputeUnknownMessageSetItemsSize [TYPE_VARINT 4 1, TYPE_LENGTH_DELIMITED 5 [9]] = 7" by code_simp+
  show ?thesis
    using message_set_items [of "[TYPE_VARINT 4 1, TYPE_LENGTH_DELIMITED 5 [9]]" "replicate 7 0"] unfolding b by simp
qed

end
