(* ===== verification/Eps_Buffer.thy ===== *)
theory Eps_Buffer
  imports Eps_Output
begin

unbundle bit_operations_syntax

text \<open>
  What \<^verbatim>\<open>EpsCopyOutputStream\<close> makes of the blocks of its stream. It writes beyond the end of
  its buffer and moves the overrun to the next one; whatever the sizes of the blocks, what arrives in
  them is what was written, up to the room they have, and running out of them is never more than the
  error flag.
\<close>

section \<open>The abstraction\<close>

text \<open>The bytes in front of the pointer: whole blocks, the filled part of the last, the patch buffer.\<close>

definition delivered :: "ptr \<Rightarrow> eps_out \<Rightarrow> byte list" where
  "delivered p s =
     (case eo_buffer_end s of
        None \<Rightarrow> concat (butlast (eo_blocks s)) @ take (snd p) (last (eo_blocks s))
      | Some be \<Rightarrow> concat (butlast (eo_blocks s)) @ take (snd be) (last (eo_blocks s)) @ take (snd p) (eo_buffer s))"

definition last_block :: "eps_out \<Rightarrow> blk" where
  "last_block s = Block (length (eo_blocks s) - 1)"

definition eps_ok :: "ptr \<Rightarrow> eps_out \<Rightarrow> bool" where
  "eps_ok p s \<longleftrightarrow>
     \<not> eo_had_error s \<and> eo_stream s \<noteq> None \<and> length (eo_buffer s) = 32 \<and> snd p \<le> snd (eo_end s) + SLOP \<and>
     fst (eo_end s) = fst p \<and>
     (case eo_buffer_end s of
        None \<Rightarrow> eo_blocks s \<noteq> [] \<and> fst p = last_block s \<and>
          length (last (eo_blocks s)) = snd (eo_end s) + SLOP
      | Some be \<Rightarrow> fst p = Patch \<and> snd (eo_end s) \<le> SLOP \<and>
          (if eo_blocks s = [] then be = (Patch, 0) \<and> snd (eo_end s) = 0
           else fst be = last_block s \<and>
             snd be + snd (eo_end s) = length (last (eo_blocks s))))"

definition room_in :: "eps_out \<Rightarrow> nat" where
  "room_in s = length (concat (eo_blocks s)) + sum_list (the (eo_stream s))"

text \<open>A step of a writer that appends \<open>bs\<close>.\<close>

definition appends :: "byte list \<Rightarrow> ptr \<Rightarrow> eps_out \<Rightarrow> ptr \<Rightarrow> eps_out \<Rightarrow> bool" where
  "appends bs p s p' s' \<longleftrightarrow> eps_ok p' s' \<and> delivered p' s' = delivered p s @ bs \<and> room_in s' = room_in s"

lemma appends_trans: "appends bs p s p1 s1 \<Longrightarrow> appends cs p1 s1 p2 s2 \<Longrightarrow> appends (bs @ cs) p s p2 s2"
  by (simp add: appends_def)

lemma update_last: "xs \<noteq> [] \<Longrightarrow> xs[length xs - 1 := x] = butlast xs @ [x]"
  by (cases xs rule: rev_cases) simp_all

lemma concat_last: "xs \<noteq> [] \<Longrightarrow> concat xs = concat (butlast xs) @ last xs"
  by (cases xs rule: rev_cases) simp_all

lemma length_concat_last: "xs \<noteq> [] \<Longrightarrow> length (concat xs) = length (concat (butlast xs)) + length (last xs)"
  by (simp add: concat_last)

text \<open>The block of the pointer: the last one, or the patch buffer.\<close>

lemma block_of_last [simp]:
  "eo_blocks s \<noteq> [] \<Longrightarrow> block_of s (last_block s) = last (eo_blocks s)" "block_of s Patch = eo_buffer s"
  by (simp_all add: block_of_def last_block_def last_conv_nth)

lemma set_block_last [simp]:
  "eo_blocks s \<noteq> [] \<Longrightarrow> set_block (last_block s) m s = s\<lparr>eo_blocks := butlast (eo_blocks s) @ [m]\<rparr>"
  "set_block Patch m s = s\<lparr>eo_buffer := m\<rparr>"
  by (simp_all add: set_block_def last_block_def update_last del: One_nat_def)

lemma last_block_simps [simp]:
  "eo_blocks s \<noteq> [] \<Longrightarrow> last_block (s\<lparr>eo_blocks := butlast (eo_blocks s) @ [m]\<rparr>) = last_block s"
  "last_block (s\<lparr>eo_buffer := b\<rparr>) = last_block s" "last_block (s\<lparr>eo_buffer_end := be\<rparr>) = last_block s"
  "last_block (s\<lparr>eo_end := e\<rparr>) = last_block s" "last_block (s\<lparr>eo_stream := ns\<rparr>) = last_block s"
  by (simp_all add: last_block_def)

lemma take_overwrite:
  "p + length bs \<le> length m \<Longrightarrow> take (p + length bs) (overwrite p bs m) = take p m @ bs"
  by (simp add: overwrite_def)

lemma put_ok:
  assumes ok: "eps_ok p s" and room: "snd p + length bs \<le> snd (eo_end s) + SLOP"
  shows "\<exists>s'. at_ptr (\<lambda>i m. put i bs m) p s = Inr (ptr_plus p (length bs), s') \<and>
    appends bs p s (ptr_plus p (length bs)) s' \<and> eo_end s' = eo_end s"
proof (cases "eo_buffer_end s")
  case None
  have b: "eo_blocks s \<noteq> []" "fst p = last_block s"
    "length (last (eo_blocks s)) = snd (eo_end s) + SLOP" using ok None by (simp_all add: eps_ok_def)
  then show ?thesis
    using ok room None
    by (simp add: at_ptr_def put_def appends_def eps_ok_def delivered_def ptr_plus_def room_in_def take_overwrite
        length_concat_last)
next
  case (Some be)
  have b: "fst p = Patch" "snd p + length bs \<le> length (eo_buffer s)"
    using ok Some room by (auto simp: eps_ok_def SLOP_def)
  then show ?thesis
    using ok room Some
    by (simp add: at_ptr_def put_def appends_def eps_ok_def delivered_def ptr_plus_def room_in_def take_overwrite)
qed

section \<open>The next buffer\<close>

lemma stream_next_sum:
  "case stream_next ns of None \<Rightarrow> sum_list ns = 0
   | Some (n, rest) \<Rightarrow> 0 < n \<and> sum_list ns = n + sum_list rest \<and> length rest < length ns"
  by (induction ns rule: stream_next.induct) (auto split: option.splits)

definition blocks_left :: "eps_out \<Rightarrow> nat" where
  "blocks_left s = 2 * length (the (eo_stream s)) + (if eo_buffer_end s = None then 1 else 0)"

lemma Next_direct:
  assumes ok: "eps_ok p s" and full: "snd (eo_end s) \<le> snd p" and d: "eo_buffer_end s = None"
  shows "\<exists>q s'. Eps_Next s = Inr (q, s') \<and> appends [] p s (ptr_plus q (snd p - snd (eo_end s))) s' \<and>
    blocks_left s' < blocks_left s"
proof -
  obtain sizes where st: "eo_stream s = Some sizes" using ok by (auto simp: eps_ok_def)
  have b: "eo_blocks s \<noteq> []" "eo_end s = (last_block s, snd (eo_end s))" "length (eo_buffer s) = 32"
    "length (last (eo_blocks s)) = snd (eo_end s) + SLOP" "snd p \<le> snd (eo_end s) + SLOP"
    using ok d by (auto simp: eps_ok_def prod_eq_iff)
  let ?n = "snd (eo_end s)" let ?slop = "window ?n SLOP (last (eo_blocks s))"
  have rd: "read_ptr (eo_end s) SLOP s = Inr ?slop"
    using b(1,4) by (subst b(2)) (simp add: read_ptr_def mem_read_def)
  have l: "length ?slop = SLOP" using b(4) by (simp add: length_window)
  let ?s = "s\<lparr>eo_buffer := overwrite 0 ?slop (eo_buffer s)\<rparr>"
  have cp: "copy_to ?slop (Patch, 0) s = Inr ((Patch, SLOP), ?s)"
    using b(3) l by (simp add: copy_to_def at_ptr_def put_def SLOP_def)
  have split: "take (snd p) (last (eo_blocks s)) =
      take ?n (last (eo_blocks s)) @ take (snd p - ?n) ?slop"
    using full b(5) by (simp add: window_def take_take min_def flip: take_add)
  have le: "snd p - ?n \<le> SLOP" using b(5) by simp
  then have "take (snd p - ?n) (overwrite 0 ?slop (eo_buffer s)) = take (snd p - ?n) ?slop"
    using l by (simp add: overwrite_def)
  then have "appends [] p s (Patch, snd p - ?n) (?s\<lparr>eo_buffer_end := Some (eo_end ?s), eo_end := (Patch, SLOP)\<rparr>)"
    using ok d b l le split by (simp add: appends_def eps_ok_def delivered_def room_in_def SLOP_def)
  then show ?thesis
    using st d rd cp by (auto simp: Eps_Next_def ptr_plus_def blocks_left_def)
qed

text \<open>
  A stream that has run out of blocks: everything goes to the patch buffer from now on. The blocks
  hold the beginning of what was written.
\<close>

definition eps_lost :: "ptr \<Rightarrow> eps_out \<Rightarrow> bool" where
  "eps_lost p s \<longleftrightarrow>
     eo_had_error s \<and> eo_stream s \<noteq> None \<and> length (eo_buffer s) = 32 \<and> fst p = Patch \<and> fst (eo_end s) = Patch \<and>
     snd p \<le> snd (eo_end s) + SLOP \<and> snd (eo_end s) \<le> SLOP"

lemma Next_patch:
  assumes ok: "eps_ok p s" and full: "snd (eo_end s) \<le> snd p" and be: "eo_buffer_end s = Some be"
  defines "n \<equiv> snd p - snd (eo_end s)"
  shows "\<exists>q s'. Eps_Next s = Inr (q, s') \<and>
    (appends [] p s (ptr_plus q n) s' \<and> blocks_left s' < blocks_left s \<or>
     q = (Patch, 0) \<and> eps_lost (ptr_plus q n) s' \<and> room_in s + n = length (delivered p s) \<and>
       concat (eo_blocks s') = take (room_in s) (delivered p s))"
proof -
  obtain sizes where st: "eo_stream s = Some sizes" using ok by (auto simp: eps_ok_def)
  let ?n = "snd (eo_end s)" let ?done = "take ?n (eo_buffer s)" let ?slop = "window ?n SLOP (eo_buffer s)"
  have b: "length (eo_buffer s) = 32" "?n \<le> SLOP" "snd p \<le> ?n + SLOP" "eo_end s = (Patch, ?n)"
    using ok be by (auto simp: eps_ok_def prod_eq_iff)
  have rd: "read_ptr (Patch, 0) ?n s = Inr ?done"
    using b(1,2) by (simp add: read_ptr_def mem_read_def SLOP_def window_def)
  define s1 where "s1 = (if eo_blocks s = [] then s
    else s\<lparr>eo_blocks := butlast (eo_blocks s) @ [overwrite (snd be) ?done (last (eo_blocks s))]\<rparr>)"
  have len: "length ?done = ?n" using b(1,2) by (simp add: SLOP_def)
  have cp: "\<exists>q. copy_to ?done be s = Inr (q, s1)"
  proof (cases "eo_blocks s = []")
    case True
    then have "be = (Patch, 0)" "?n = 0" using ok be by (simp_all add: eps_ok_def)
    then show ?thesis using True b(1) by (simp add: copy_to_def at_ptr_def put_def overwrite_def s1_def)
  next
    case False
    then have "fst be = last_block s" "snd be + ?n = length (last (eo_blocks s))" using ok be by (simp_all add: eps_ok_def)
    then show ?thesis using False len by (simp add: copy_to_def at_ptr_def put_def s1_def)
  qed
  have s1: "eo_stream s1 = Some sizes" "eo_end s1 = eo_end s" "eo_buffer s1 = eo_buffer s" "eo_had_error s1 = False"
    using st ok by (simp_all add: s1_def eps_ok_def)
  have full1: "concat (eo_blocks s1) @ drop ?n (take (snd p) (eo_buffer s)) = delivered p s"
    and size1: "length (concat (eo_blocks s1)) = length (concat (eo_blocks s))"
  proof -
    have t: "take (snd p) (eo_buffer s) = ?done @ drop ?n (take (snd p) (eo_buffer s))"
      using full by (metis append_take_drop_id min.absorb1 take_take)
    have "concat (eo_blocks s1) = concat (butlast (eo_blocks s)) @ take (snd be) (last (eo_blocks s)) @ ?done"
    proof (cases "eo_blocks s = []")
      case True
      then show ?thesis using ok be by (simp add: s1_def eps_ok_def)
    next
      case False
      then have "snd be + ?n = length (last (eo_blocks s))" using ok be by (simp add: eps_ok_def)
      then show ?thesis using False len by (simp add: s1_def overwrite_def)
    qed
    then show "concat (eo_blocks s1) @ drop ?n (take (snd p) (eo_buffer s)) = delivered p s"
      using be t by (simp add: delivered_def)
    show "length (concat (eo_blocks s1)) = length (concat (eo_blocks s))"
    proof (cases "eo_blocks s = []")
      case False
      then have "snd be + ?n = length (last (eo_blocks s))" using ok be by (simp add: eps_ok_def)
      then show ?thesis using False len by (simp add: s1_def length_concat_last)
    qed (simp add: s1_def)
  qed
  have tail: "drop ?n (take (snd p) (eo_buffer s)) = take (snd p - ?n) ?slop" "length ?slop = SLOP"
    using b(1-3) by (simp add: window_def drop_take, simp add: length_window SLOP_def)
  have size: "length (delivered p s) = length (concat (eo_blocks s)) + n"
    unfolding full1 [symmetric] tail(1) n_def using size1 b(3) tail(2) by simp
  obtain q where q: "copy_to ?done be s = Inr (q, s1)" using cp ..
  show ?thesis
  proof (cases "stream_next sizes")
    case None
    then have "room_in s = length (concat (eo_blocks s1))"
      using stream_next_sum [of sizes] st size1 by (simp add: room_in_def)
    moreover have "Eps_Next s = Inr (Eps_Error (s1\<lparr>eo_stream := Some []\<rparr>))"
      using st be rd q None by (simp add: Eps_Next_def)
    moreover have "take (length (concat (eo_blocks s1))) (delivered p s) = concat (eo_blocks s1)"
      unfolding full1 [symmetric] by simp
    ultimately show ?thesis
      using size size1 s1(3) b(1,3) by (auto simp: Eps_Error_def eps_lost_def ptr_plus_def n_def SLOP_def)
  next
    case next_block: (Some y)
    then obtain m rest where m: "stream_next sizes = Some (m, rest)" "0 < m" "sum_list sizes = m + sum_list rest"
        "length rest < length sizes"
      using stream_next_sum [of sizes] by (cases y) auto
    let ?new = "Block (length (eo_blocks s1))"
    let ?s2 = "s1\<lparr>eo_stream := Some rest, eo_blocks := eo_blocks s1 @ [replicate m 0]\<rparr>"
    have rd2: "read_ptr (eo_end ?s2) SLOP ?s2 = Inr ?slop"
    proof -
      have "eo_end ?s2 = (Patch, ?n)" using b(4) s1(2) by simp
      then show ?thesis using b(1,2) s1(3) by (simp only: read_ptr_def fst_conv snd_conv) (simp add: mem_read_def SLOP_def)
    qed
    show ?thesis
    proof (cases "m > SLOP")
      case True
      let ?s3 = "?s2\<lparr>eo_blocks := eo_blocks s1 @ [overwrite 0 ?slop (replicate m 0)]\<rparr>"
      have "copy_to ?slop (?new, 0) ?s2 = Inr ((?new, SLOP), ?s3)"
        using True tail(2) by (simp add: copy_to_def at_ptr_def put_def block_of_def set_block_def)
      then have run: "Eps_Next s = Inr ((?new, 0), ?s3\<lparr>eo_end := (?new, m - SLOP), eo_buffer_end := None\<rparr>)"
        using st be rd q m(1) True rd2 by (simp add: Eps_Next_def ptr_plus_def s1(1) Let_def)
      have "take (snd p - ?n) (overwrite 0 ?slop (replicate m 0)) = take (snd p - ?n) ?slop"
        using b(3) tail(2) by (simp add: overwrite_def)
      then have "appends [] p s (?new, snd p - ?n) (?s3\<lparr>eo_end := (?new, m - SLOP), eo_buffer_end := None\<rparr>)"
        using True b tail s1 size1 m(3) st full1
        by (auto simp: appends_def eps_ok_def delivered_def room_in_def last_block_def)
      then show ?thesis using run m(4) st be by (auto simp: ptr_plus_def blocks_left_def n_def)
    next
      case False
      let ?s3 = "?s2\<lparr>eo_buffer := overwrite 0 ?slop (eo_buffer s)\<rparr>"
      have "copy_to ?slop (Patch, 0) ?s2 = Inr ((Patch, SLOP), ?s3)"
        using tail(2) b(1) s1(3) by (simp add: copy_to_def at_ptr_def put_def SLOP_def)
      then have run: "Eps_Next s = Inr ((Patch, 0), ?s3\<lparr>eo_buffer_end := Some (?new, 0), eo_end := (Patch, m)\<rparr>)"
        using st be rd q m(1) False rd2 by (simp add: Eps_Next_def s1(1) Let_def)
      have "take (snd p - ?n) (overwrite 0 ?slop (eo_buffer s)) = take (snd p - ?n) ?slop"
        using b(3) tail(2) by (simp add: overwrite_def)
      moreover have "length (overwrite 0 ?slop (eo_buffer s)) = 32" using b(1) tail(2) by (simp add: SLOP_def)
      ultimately have "appends [] p s (Patch, snd p - ?n) (?s3\<lparr>eo_buffer_end := Some (?new, 0), eo_end := (Patch, m)\<rparr>)"
        using False b tail s1 size1 m(2,3) st full1
        by (auto simp: appends_def eps_ok_def delivered_def room_in_def last_block_def)
      then show ?thesis using run m(4) st be by (auto simp: ptr_plus_def blocks_left_def n_def)
    qed
  qed
qed

lemma Next_ok:
  assumes "eps_ok p s" and "snd (eo_end s) \<le> snd p"
  defines "n \<equiv> snd p - snd (eo_end s)"
  shows "\<exists>q s'. Eps_Next s = Inr (q, s') \<and>
    (appends [] p s (ptr_plus q n) s' \<and> blocks_left s' < blocks_left s \<or>
     q = (Patch, 0) \<and> eps_lost (ptr_plus q n) s' \<and> room_in s + n = length (delivered p s) \<and>
       concat (eo_blocks s') = take (room_in s) (delivered p s))"
  using Next_direct [OF assms(1,2)] Next_patch [OF assms(1,2)] unfolding n_def
  by (cases "eo_buffer_end s") (simp, blast)+


section \<open>What has been written so far\<close>

text \<open>
  \<open>xs\<close> was written to a stream with room for \<open>R\<close> bytes. Once the room is used up the blocks hold the
  first \<open>R\<close> of them; \<open>strict\<close> says that then more than \<open>R\<close> bytes were written, which is not yet so
  when \<^verbatim>\<open>EnsureSpace\<close> finds no room for the next byte.
\<close>

definition carries :: "bool \<Rightarrow> nat \<Rightarrow> byte list \<Rightarrow> ptr \<Rightarrow> eps_out \<Rightarrow> bool" where
  "carries strict R xs p s \<longleftrightarrow>
     eps_ok p s \<and> delivered p s = xs \<and> room_in s = R \<or>
     eps_lost p s \<and> concat (eo_blocks s) = take R xs \<and> R \<le> length xs \<and> (strict \<longrightarrow> R < length xs)"

lemma carries_weak: "carries q R xs p s \<Longrightarrow> carries False R xs p s"
  by (auto simp: carries_def)

lemma carries_room: "carries q R xs p s \<Longrightarrow> snd p \<le> snd (eo_end s) + SLOP"
  by (auto simp: carries_def eps_ok_def eps_lost_def)

lemma had_error_simps: "eps_ok p s \<Longrightarrow> \<not> eo_had_error s" "eps_lost p s \<Longrightarrow> eo_had_error s"
  by (simp_all add: eps_ok_def eps_lost_def)

lemma carries_error: "carries q R xs p s \<Longrightarrow> eo_had_error s \<longleftrightarrow> \<not> eps_ok p s"
  using had_error_simps [of p s] by (auto simp: carries_def)

lemma lost_put:
  assumes "eps_lost p s" and "snd p + length bs \<le> snd (eo_end s) + SLOP"
  shows "\<exists>s'. at_ptr (\<lambda>i m. put i bs m) p s = Inr (ptr_plus p (length bs), s') \<and>
    eps_lost (ptr_plus p (length bs)) s' \<and> eo_blocks s' = eo_blocks s \<and> eo_end s' = eo_end s"
  using assms by (auto simp: eps_lost_def at_ptr_def put_def ptr_plus_def SLOP_def)

lemma carries_put:
  assumes c: "carries q R xs p s" and room: "snd p + length bs \<le> snd (eo_end s) + SLOP"
  shows "\<exists>s'. at_ptr (\<lambda>i m. put i bs m) p s = Inr (ptr_plus p (length bs), s') \<and>
    carries (q \<or> bs \<noteq> []) R (xs @ bs) (ptr_plus p (length bs)) s' \<and> eo_end s' = eo_end s"
proof (cases "eps_ok p s")
  case True
  with c have "delivered p s = xs" "room_in s = R" by (auto simp: carries_def eps_ok_def eps_lost_def)
  with put_ok [OF True room] show ?thesis by (auto simp: carries_def appends_def)
next
  case False
  with c have "eps_lost p s" "concat (eo_blocks s) = take R xs" "R \<le> length xs" "q \<longrightarrow> R < length xs"
    by (auto simp: carries_def)
  moreover from this lost_put [OF _ room] obtain s' where
    "at_ptr (\<lambda>i m. put i bs m) p s = Inr (ptr_plus p (length bs), s')" "eps_lost (ptr_plus p (length bs)) s'"
    "eo_blocks s' = eo_blocks s" "eo_end s' = eo_end s" by blast
  moreover have "R \<le> length (xs @ bs)" "q \<or> bs \<noteq> [] \<longrightarrow> R < length (xs @ bs)"
    using calculation(3,4) by (auto simp flip: length_greater_0_conv)
  ultimately show ?thesis by (auto simp: carries_def)
qed

section \<open>Making room\<close>

lemma EnsureSpaceFallback_lost:
  "eps_lost p s \<Longrightarrow> EnsureSpaceFallback p s = ret ((Patch, 0), s) \<and> eps_lost (Patch, 0) s"
  by (subst EnsureSpaceFallback.simps) (simp add: eps_lost_def)

lemma EnsureSpaceFallback_ok:
  "eps_ok p s \<Longrightarrow> snd (eo_end s) \<le> snd p \<Longrightarrow>
    \<exists>p' s'. EnsureSpaceFallback p s = ret (p', s') \<and> carries False (room_in s) (delivered p s) p' s' \<and>
      snd p' \<le> snd (eo_end s')"
proof (induction "blocks_left s" arbitrary: p s rule: less_induct)
  case less
  let ?n = "snd p - snd (eo_end s)"
  obtain q s1 where 1: "Eps_Next s = Inr (q, s1)"
      "appends [] p s (ptr_plus q ?n) s1 \<and> blocks_left s1 < blocks_left s \<or>
       q = (Patch, 0) \<and> eps_lost (ptr_plus q ?n) s1 \<and> room_in s + ?n = length (delivered p s) \<and>
         concat (eo_blocks s1) = take (room_in s) (delivered p s)"
    using Next_ok [OF less(2,3)] by blast
  let ?p = "ptr_plus q ?n"
  have run: "EnsureSpaceFallback p s = (if ptr_ge ?p (eo_end s1) then EnsureSpaceFallback ?p s1 else ret (?p, s1))"
    using less(2) 1(1) by (subst EnsureSpaceFallback.simps) (simp add: eps_ok_def Let_def)
  from 1(2) show ?case
  proof (elim disjE conjE)
    assume a: "appends [] p s ?p s1" and d: "blocks_left s1 < blocks_left s"
    show ?thesis
    proof (cases "ptr_ge ?p (eo_end s1)")
      case True
      with a less(1) [OF d, of ?p] show ?thesis by (simp add: run appends_def ptr_ge_def)
    next
      case False
      with a show ?thesis by (auto simp: run appends_def ptr_ge_def carries_def)
    qed
  next
    assume l: "eps_lost ?p s1" and full: "room_in s + ?n = length (delivered p s)"
      and b: "concat (eo_blocks s1) = take (room_in s) (delivered p s)"
    have c: "carries False (room_in s) (delivered p s) p' s1" if "eps_lost p' s1" for p'
      using that full b by (auto simp: carries_def)
    show ?thesis
    proof (cases "ptr_ge ?p (eo_end s1)")
      case True
      with EnsureSpaceFallback_lost [OF l] c [of "(Patch, 0)"] show ?thesis by (simp add: run)
    next
      case False
      with c [OF l] show ?thesis by (intro exI [of _ ?p] exI [of _ s1]) (simp add: run ptr_ge_def)
    qed
  qed
qed

lemma EnsureSpaceFallback_carries:
  assumes "carries q R xs p s" and "snd (eo_end s) \<le> snd p"
  shows "\<exists>p' s'. EnsureSpaceFallback p s = ret (p', s') \<and> carries False R xs p' s' \<and> snd p' \<le> snd (eo_end s')"
proof (cases "eps_ok p s")
  case True
  with assms EnsureSpaceFallback_ok [OF True assms(2)] show ?thesis
    by (auto simp: carries_def eps_ok_def eps_lost_def)
next
  case False
  with assms(1) have l: "eps_lost p s" by (auto simp: carries_def)
  with assms(1) EnsureSpaceFallback_lost [OF l] show ?thesis by (auto simp: carries_def eps_ok_def eps_lost_def)
qed

lemma EnsureSpace_carries:
  assumes "carries q R xs p s"
  shows "\<exists>p' s'. EnsureSpace p s = ret (p', s') \<and> carries False R xs p' s' \<and> snd p' \<le> snd (eo_end s')"
  using EnsureSpaceFallback_carries [OF assms] carries_weak [OF assms]
  by (cases "ptr_ge p (eo_end s)") (simp_all add: EnsureSpace_def ptr_ge_def)

section \<open>Writers\<close>

text \<open>
  A writer that stays in the buffer it starts in; one that may be called when there is room for \<open>k\<close>
  bytes; one that may be called at any time. None of them ever faults, with room in the stream or not.
\<close>

definition raws :: "(ptr \<Rightarrow> eps_out \<Rightarrow> (ptr \<times> eps_out) run) \<Rightarrow> byte list \<Rightarrow> bool" where
  "raws w bs \<longleftrightarrow> (\<forall>q R xs p s. carries q R xs p s \<and> snd p + length bs \<le> snd (eo_end s) + SLOP \<longrightarrow>
     (\<exists>s'. w p s = ret (ptr_plus p (length bs), s') \<and>
       carries (q \<or> bs \<noteq> []) R (xs @ bs) (ptr_plus p (length bs)) s' \<and> eo_end s' = eo_end s))"

definition roomy :: "nat \<Rightarrow> (ptr \<Rightarrow> eps_out \<Rightarrow> (ptr \<times> eps_out) run) \<Rightarrow> byte list \<Rightarrow> bool" where
  "roomy k w bs \<longleftrightarrow> (\<forall>q R xs p s. carries q R xs p s \<and> snd p + k \<le> snd (eo_end s) + SLOP \<longrightarrow>
     (\<exists>p' s'. w p s = ret (p', s') \<and> carries (q \<or> bs \<noteq> []) R (xs @ bs) p' s'))"

abbreviation streams :: "(ptr \<Rightarrow> eps_out \<Rightarrow> (ptr \<times> eps_out) run) \<Rightarrow> byte list \<Rightarrow> bool" where
  "streams \<equiv> roomy 0"

lemma rawsD:
  assumes "raws w bs" and "carries q R xs p s" and "snd p + length bs \<le> snd (eo_end s) + SLOP"
  obtains s' where "w p s = ret (ptr_plus p (length bs), s')"
    "carries (q \<or> bs \<noteq> []) R (xs @ bs) (ptr_plus p (length bs)) s'" "eo_end s' = eo_end s"
  using assms unfolding raws_def by blast

lemma roomyD:
  assumes "roomy k w bs" and "carries q R xs p s" and "snd p + k \<le> snd (eo_end s) + SLOP"
  obtains p' s' where "w p s = ret (p', s')" "carries (q \<or> bs \<noteq> []) R (xs @ bs) p' s'"
  using assms unfolding roomy_def by blast

lemma streamsD:
  assumes "streams w bs" and "carries q R xs p s"
  obtains p' s' where "w p s = ret (p', s')" "carries (q \<or> bs \<noteq> []) R (xs @ bs) p' s'"
  using roomyD [OF assms] carries_room [OF assms(2)] by auto

lemma raws_put: "(\<And>i m. f i m = put i bs m) \<Longrightarrow> raws (\<lambda>p s. Some (at_ptr f p s)) bs"
proof -
  assume "\<And>i m. f i m = put i bs m"
  then have "f = (\<lambda>i m. put i bs m)" by (intro ext)
  then show ?thesis unfolding raws_def using carries_put by (fastforce simp: ret_def)
qed

lemma raws_copy: "raws (\<lambda>p s. Some (copy_to bs p s)) bs"
  unfolding copy_to_def by (rule raws_put) simp

lemma raws_roomy: "raws w bs \<Longrightarrow> roomy (length bs) w bs"
  unfolding raws_def roomy_def by blast

lemma roomy_more: "roomy k w bs \<Longrightarrow> k \<le> k' \<Longrightarrow> roomy k' w bs"
  by (auto simp: roomy_def)

lemma raws_comp:
  assumes "raws v bs" and "raws w cs"
  shows "raws (\<lambda>p s. bind_run (v p s) (\<lambda>(q, t). w q t)) (bs @ cs)"
  unfolding raws_def
proof (intro allI impI)
  fix q R xs p s assume a: "carries q R xs p s \<and> snd p + length (bs @ cs) \<le> snd (eo_end s) + SLOP"
  let ?p = "ptr_plus p (length bs)"
  obtain s1 where 1: "v p s = ret (?p, s1)" "carries (q \<or> bs \<noteq> []) R (xs @ bs) ?p s1" "eo_end s1 = eo_end s"
    using a by (auto elim: rawsD [OF assms(1)])
  have "snd ?p + length cs \<le> snd (eo_end s1) + SLOP" using 1(3) a by (simp add: ptr_plus_def)
  from rawsD [OF assms(2) 1(2) this] obtain s2 where 2: "w ?p s1 = ret (ptr_plus ?p (length cs), s2)"
      "carries ((q \<or> bs \<noteq> []) \<or> cs \<noteq> []) R ((xs @ bs) @ cs) (ptr_plus ?p (length cs)) s2" "eo_end s2 = eo_end s1" .
  have "ptr_plus ?p (length cs) = ptr_plus p (length (bs @ cs))" by (simp add: ptr_plus_def)
  with 1 2 show "\<exists>s'. bind_run (v p s) (\<lambda>(q, t). w q t) = ret (ptr_plus p (length (bs @ cs)), s') \<and>
      carries (q \<or> bs @ cs \<noteq> []) R (xs @ bs @ cs) (ptr_plus p (length (bs @ cs))) s' \<and> eo_end s' = eo_end s"
    by (simp add: disj_assoc)
qed

lemma raws_then:
  assumes "raws v bs" and "roomy k w cs"
  shows "roomy (length bs + k) (\<lambda>p s. bind_run (v p s) (\<lambda>(q, t). w q t)) (bs @ cs)"
  unfolding roomy_def
proof (intro allI impI)
  fix q R xs p s assume a: "carries q R xs p s \<and> snd p + (length bs + k) \<le> snd (eo_end s) + SLOP"
  let ?p = "ptr_plus p (length bs)"
  obtain s1 where 1: "v p s = ret (?p, s1)" "carries (q \<or> bs \<noteq> []) R (xs @ bs) ?p s1" "eo_end s1 = eo_end s"
    using a by (auto elim: rawsD [OF assms(1)])
  have "snd ?p + k \<le> snd (eo_end s1) + SLOP" using 1(3) a by (simp add: ptr_plus_def)
  from roomyD [OF assms(2) 1(2) this] obtain p' s' where
    "w ?p s1 = ret (p', s')" "carries ((q \<or> bs \<noteq> []) \<or> cs \<noteq> []) R ((xs @ bs) @ cs) p' s'" .
  with 1 show "\<exists>p' s'. bind_run (v p s) (\<lambda>(q, t). w q t) = ret (p', s') \<and> carries (q \<or> bs @ cs \<noteq> []) R (xs @ bs @ cs) p' s'"
    by (simp add: disj_assoc)
qed

lemma roomy_then:
  assumes "roomy k v bs" and "streams w cs"
  shows "roomy k (\<lambda>p s. bind_run (v p s) (\<lambda>(q, t). w q t)) (bs @ cs)"
  unfolding roomy_def
proof (intro allI impI)
  fix q R xs p s assume a: "carries q R xs p s \<and> snd p + k \<le> snd (eo_end s) + SLOP"
  then obtain p1 s1 where 1: "v p s = ret (p1, s1)" "carries (q \<or> bs \<noteq> []) R (xs @ bs) p1 s1"
    by (auto elim: roomyD [OF assms(1)])
  from streamsD [OF assms(2) 1(2)] obtain p' s' where
    "w p1 s1 = ret (p', s')" "carries ((q \<or> bs \<noteq> []) \<or> cs \<noteq> []) R ((xs @ bs) @ cs) p' s'" .
  with 1 show "\<exists>p' s'. bind_run (v p s) (\<lambda>(q, t). w q t) = ret (p', s') \<and> carries (q \<or> bs @ cs \<noteq> []) R (xs @ bs @ cs) p' s'"
    by (simp add: disj_assoc)
qed

text \<open>After \<^verbatim>\<open>EnsureSpace\<close> sixteen bytes can be written without asking.\<close>

lemma streams_EnsureSpace:
  assumes "roomy k w bs" and "k \<le> SLOP" and "bs \<noteq> []"
  shows "streams (\<lambda>p s. bind_run (EnsureSpace p s) (\<lambda>(q, t). w q t)) bs"
  unfolding roomy_def
proof (intro allI impI)
  fix q R xs p s assume a: "carries q R xs p s \<and> snd p + 0 \<le> snd (eo_end s) + SLOP"
  then obtain p1 s1 where 1: "EnsureSpace p s = ret (p1, s1)" "carries False R xs p1 s1" "snd p1 \<le> snd (eo_end s1)"
    using EnsureSpace_carries by blast
  then have "snd p1 + k \<le> snd (eo_end s1) + SLOP" using assms(2) by simp
  from roomyD [OF assms(1) 1(2) this] obtain p' s' where "w p1 s1 = ret (p', s')" "carries (False \<or> bs \<noteq> []) R (xs @ bs) p' s'" .
  with 1(1) assms(3) show "\<exists>p' s'. bind_run (EnsureSpace p s) (\<lambda>(q, t). w q t) = ret (p', s') \<and>
      carries (q \<or> bs \<noteq> []) R (xs @ bs) p' s'" by simp
qed

lemma streams_Nil: "streams (\<lambda>p s. ret (p, s)) []"
  by (simp add: roomy_def)

section \<open>Long strings\<close>

lemma WriteRawFallback_carries:
  "carries q R xs p s \<Longrightarrow>
    \<exists>p' s'. WriteRawFallback data p s = ret (p', s') \<and> carries (q \<or> data \<noteq> []) R (xs @ data) p' s'"
proof (induction "2 * length data + (if snd p < snd (eo_end s) + SLOP then 0 else 1)" arbitrary: data q xs p s
    rule: less_induct)
  case less
  let ?n = "snd (eo_end s) + SLOP - snd p"
  have room: "snd p \<le> snd (eo_end s) + SLOP" by (rule carries_room [OF less(2)])
  have n: "GetSize p s = int ?n" using room by (simp add: GetSize_def)
  show ?case
  proof (cases "?n < length data")
    case False
    then have "snd p + length data \<le> snd (eo_end s) + SLOP" using room by simp
    from rawsD [OF raws_copy less(2) this] obtain s' where
      "Some (copy_to data p s) = ret (ptr_plus p (length data), s')"
      "carries (q \<or> data \<noteq> []) R (xs @ data) (ptr_plus p (length data)) s'" .
    moreover have "WriteRawFallback data p s = Some (copy_to data p s)"
      using False n by (subst WriteRawFallback.simps) (simp add: Let_def)
    ultimately show ?thesis by auto
  next
    case True
    let ?now = "take ?n data" and ?p = "ptr_plus p ?n"
    have l: "length ?now = ?n" using True by simp
    have le: "snd p + length ?now \<le> snd (eo_end s) + SLOP" unfolding l using room by simp
    obtain s1 where 1: "copy_to ?now p s = Inr (?p, s1)" "carries (q \<or> ?now \<noteq> []) R (xs @ ?now) ?p s1" "eo_end s1 = eo_end s"
      using rawsD [OF raws_copy less(2) le] unfolding l by (auto simp: ret_def)
    have "snd (eo_end s1) \<le> snd ?p" using room 1(3) by (simp add: ptr_plus_def)
    with EnsureSpaceFallback_carries [OF 1(2)] obtain p2 s2 where
      2: "EnsureSpaceFallback ?p s1 = ret (p2, s2)" "carries False R (xs @ ?now) p2 s2" "snd p2 \<le> snd (eo_end s2)" by blast
    have "2 * length (drop ?n data) + (if snd p2 < snd (eo_end s2) + SLOP then 0 else 1) <
        2 * length data + (if snd p < snd (eo_end s) + SLOP then 0 else 1)"
      using 2(3) True by (auto simp: SLOP_def)
    from less(1) [OF this 2(2)] obtain p' s' where
      "WriteRawFallback (drop ?n data) p2 s2 = ret (p', s')" "carries (False \<or> drop ?n data \<noteq> []) R ((xs @ ?now) @ drop ?n data) p' s'"
      by blast
    moreover have "WriteRawFallback data p s = WriteRawFallback (drop ?n data) p2 s2"
      using n True 1(1) 2(1) by (subst WriteRawFallback.simps) (simp add: Let_def)
    moreover have "drop ?n data \<noteq> []" "data \<noteq> []" using True by auto
    ultimately show ?thesis by simp
  qed
qed

lemma streams_WriteRaw: "streams (WriteRaw data) data"
  unfolding roomy_def
proof (intro allI impI)
  fix q R xs p s assume a: "carries q R xs p s \<and> snd p + 0 \<le> snd (eo_end s) + SLOP"
  show "\<exists>p' s'. WriteRaw data p s = ret (p', s') \<and> carries (q \<or> data \<noteq> []) R (xs @ data) p' s'"
  proof (cases "int (snd (eo_end s)) - int (snd p) < int (length data)")
    case True
    then show ?thesis using a WriteRawFallback_carries by (simp add: WriteRaw_def)
  next
    case False
    then have "snd p + length data \<le> snd (eo_end s) + SLOP" by linarith
    then obtain s' where "Some (copy_to data p s) = ret (ptr_plus p (length data), s')"
      "carries (q \<or> data \<noteq> []) R (xs @ data) (ptr_plus p (length data)) s'"
      using a by (auto elim: rawsD [OF raws_copy])
    with False show ?thesis by (auto simp: WriteRaw_def)
  qed
qed

section \<open>Giving the stream back\<close>

text \<open>
  After \<^verbatim>\<open>Flush\<close> everything is in the blocks; the last \<open>n\<close> bytes of them, from \<open>be\<close> on,
  are unused.
\<close>

definition flushed :: "byte list \<Rightarrow> ptr \<Rightarrow> nat \<Rightarrow> eps_out \<Rightarrow> bool" where
  "flushed xs be n s \<longleftrightarrow>
     \<not> eo_had_error s \<and> eo_stream s \<noteq> None \<and> length (eo_buffer s) = 32 \<and> eo_buffer_end s = Some be \<and>
     (if eo_blocks s = [] then be = (Patch, 0) \<and> n = 0 \<and> xs = []
      else fst be = last_block s \<and> snd be + n = length (last (eo_blocks s)) \<and>
        xs = concat (butlast (eo_blocks s)) @ take (snd be) (last (eo_blocks s)))"

lemma flush_here:
  assumes ok: "eps_ok p s" and be: "eo_buffer_end s = Some be" and le: "snd p \<le> snd (eo_end s)"
  shows "\<exists>s'. Flush p s = ret (int (snd (eo_end s) - snd p), s') \<and> room_in s' = room_in s \<and>
    flushed (delivered p s) (ptr_plus be (snd p)) (snd (eo_end s) - snd p) s'"
proof -
  let ?bs = "take (snd p) (eo_buffer s)" and ?be = "ptr_plus be (snd p)"
  have b: "length (eo_buffer s) = 32" "snd (eo_end s) \<le> SLOP" using ok be by (auto simp: eps_ok_def)
  then have "snd p \<le> 32" using le by (simp add: SLOP_def)
  then have rd: "read_ptr (Patch, 0) (snd p) s = Inr ?bs" and l: "length ?bs = snd p"
    using b by (simp_all add: read_ptr_def mem_read_def window_def)
  define s1 where "s1 = (if eo_blocks s = [] then s
    else s\<lparr>eo_blocks := butlast (eo_blocks s) @ [overwrite (snd be) ?bs (last (eo_blocks s))]\<rparr>)"
  have s1: "eo_end s1 = eo_end s" "eo_had_error s1 = False" "eo_stream s1 \<noteq> None" "eo_stream s1 = eo_stream s"
      "eo_buffer s1 = eo_buffer s"
    using ok by (auto simp: s1_def eps_ok_def)
  let ?s = "s1\<lparr>eo_buffer_end := Some ?be\<rparr>"
  have "copy_to ?bs be s = Inr (?be, s1) \<and> room_in ?s = room_in s \<and>
      flushed (delivered p s) ?be (snd (eo_end s) - snd p) ?s"
  proof (cases "eo_blocks s = []")
    case True
    then have e: "be = (Patch, 0)" "snd p = 0" "snd (eo_end s) = 0" using ok be le by (simp_all add: eps_ok_def)
    then show ?thesis
      using True b(1) be s1
      by (simp add: copy_to_def at_ptr_def put_def overwrite_def s1_def ptr_plus_def flushed_def delivered_def room_in_def)
  next
    case False
    then have e: "fst be = last_block s" "snd be + snd (eo_end s) = length (last (eo_blocks s))"
      using ok be by (simp_all add: eps_ok_def)
    have "copy_to ?bs be s = Inr (?be, s1)"
      using False e le l by (simp add: copy_to_def at_ptr_def put_def s1_def ptr_plus_def)
    moreover have "take (snd be + snd p) (overwrite (snd be) ?bs (last (eo_blocks s))) = take (snd be) (last (eo_blocks s)) @ ?bs"
      using e(2) le l take_overwrite [of "snd be" ?bs "last (eo_blocks s)"] by simp
    moreover have "length (overwrite (snd be) ?bs (last (eo_blocks s))) = length (last (eo_blocks s))"
      using e(2) le l by simp
    ultimately show ?thesis
      using False e le l s1 b(1) be
      by (auto simp: s1_def flushed_def delivered_def ptr_plus_def room_in_def length_concat_last)
  qed
  moreover have "Flush p s = ret (int (snd (eo_end s) - snd p), ?s)" if "copy_to ?bs be s = Inr (?be, s1)"
    using be le rd that s1(1) by (subst Flush.simps) (simp add: of_nat_diff ret_def)
  ultimately show ?thesis by blast
qed

lemma Flush_ok:
  "eps_ok p s \<Longrightarrow> \<exists>n s'. Flush p s = ret (int n, s') \<and>
    (length (delivered p s) \<le> room_in s \<and> room_in s' = room_in s \<and> (\<exists>be. flushed (delivered p s) be n s') \<or>
     n = 0 \<and> room_in s < length (delivered p s) \<and> eps_lost (Patch, 0) s' \<and>
       concat (eo_blocks s') = take (room_in s) (delivered p s))"
proof (induction "blocks_left s" arbitrary: p s rule: less_induct)
  case less
  note ok = less(2)
  show ?case
  proof (cases "eo_buffer_end s")
    case None
    then have b: "eo_blocks s \<noteq> []" "length (last (eo_blocks s)) = snd (eo_end s) + SLOP" "fst p = last_block s"
      using ok by (simp_all add: eps_ok_def)
    let ?n = "snd (eo_end s) + SLOP - snd p" let ?s = "s\<lparr>eo_buffer_end := Some p\<rparr>"
    have le: "snd p \<le> snd (eo_end s) + SLOP" using ok by (simp add: eps_ok_def)
    then have "Flush p s = ret (int ?n, ?s)" using None by (subst Flush.simps) simp
    moreover have "flushed (delivered p s) p ?n ?s"
      using ok b None le by (simp add: flushed_def eps_ok_def delivered_def)
    moreover have "length (delivered p s) \<le> room_in s"
      using b None by (simp add: delivered_def room_in_def length_concat_last)
    moreover have "room_in ?s = room_in s" by (simp add: room_in_def)
    ultimately show ?thesis by blast
  next
    case (Some be)
    show ?thesis
    proof (cases "snd (eo_end s) < snd p")
      case True
      let ?o = "snd p - snd (eo_end s)"
      obtain q s1 where 1: "Eps_Next s = Inr (q, s1)"
          "appends [] p s (ptr_plus q ?o) s1 \<and> blocks_left s1 < blocks_left s \<or>
           q = (Patch, 0) \<and> eps_lost (ptr_plus q ?o) s1 \<and> room_in s + ?o = length (delivered p s) \<and>
             concat (eo_blocks s1) = take (room_in s) (delivered p s)"
        using Next_ok [OF ok] True by (meson less_imp_le)
      have run: "Flush p s = (if eo_had_error s1 then ret (0, s1) else Flush (ptr_plus q ?o) s1)"
        using Some True 1(1) by (subst Flush.simps) simp
      from 1(2) show ?thesis
      proof (elim disjE conjE)
        assume a: "appends [] p s (ptr_plus q ?o) s1" and d: "blocks_left s1 < blocks_left s"
        then have a': "eps_ok (ptr_plus q ?o) s1" "delivered (ptr_plus q ?o) s1 = delivered p s" "room_in s1 = room_in s"
          by (simp_all add: appends_def)
        show ?thesis using less(1) [OF d a'(1)] had_error_simps(1) [OF a'(1)] unfolding run a'(2,3) by (simp only: if_False)
      next
        assume l: "eps_lost (ptr_plus q ?o) s1" "room_in s + ?o = length (delivered p s)"
          "concat (eo_blocks s1) = take (room_in s) (delivered p s)"
        moreover have "eps_lost (Patch, 0) s1" using l(1) by (simp add: eps_lost_def)
        moreover have "room_in s < length (delivered p s)" using l(2) True by linarith
        ultimately show ?thesis
          using had_error_simps(2) [OF l(1)] by (intro exI [of _ 0] exI [of _ s1]) (simp add: run)
      qed
    next
      case False
      then have le: "snd p \<le> snd (eo_end s)" by simp
      have "length (delivered p s) \<le> room_in s"
      proof (cases "eo_blocks s = []")
        case True
        then show ?thesis using ok Some le by (simp add: eps_ok_def delivered_def)
      next
        case False
        then show ?thesis
          using ok Some le by (auto simp: eps_ok_def delivered_def room_in_def length_concat_last)
      qed
      with flush_here [OF ok Some le] show ?thesis by blast
    qed
  qed
qed

text \<open>Going on in the rest of the last block.\<close>

lemma SetInitialBuffer_ok:
  assumes "flushed xs be n s" and "SetInitialBuffer be n s = (p', s')"
  shows "eps_ok p' s'" and "delivered p' s' = xs" and "room_in s' = room_in s"
  using assms
  by (auto simp: flushed_def SetInitialBuffer_def eps_ok_def delivered_def room_in_def ptr_plus_def SLOP_def
      split: if_splits)

lemma back_up_concat:
  assumes "flushed xs be n s"
  shows "concat (eo_blocks (stream_back_up n s)) = xs" and "eo_had_error (stream_back_up n s) = eo_had_error s"
proof -
  show "eo_had_error (stream_back_up n s) = eo_had_error s" by (simp add: stream_back_up_def split: list.split)
  show "concat (eo_blocks (stream_back_up n s)) = xs"
  proof (cases "eo_blocks s" rule: rev_cases)
    case Nil
    with assms show ?thesis by (simp add: flushed_def stream_back_up_def)
  next
    case (snoc bs b)
    then have "snd be + n = length b" "xs = concat bs @ take (snd be) b" using assms by (simp_all add: flushed_def)
    moreover from this have "length b - n = snd be" by linarith
    ultimately show ?thesis using snoc by (simp add: stream_back_up_def)
  qed
qed

lemma Trim_ok:
  assumes c: "carries True R xs p s"
  shows "\<exists>q s'. Trim p s = ret (q, s') \<and> (eo_had_error s' \<longleftrightarrow> R < length xs) \<and> concat (eo_blocks s') = take R xs"
proof (cases "eps_ok p s")
  case True
  then have d: "delivered p s = xs" "room_in s = R" using c by (auto simp: carries_def eps_ok_def eps_lost_def)
  obtain n s1 where f: "Flush p s = ret (int n, s1)"
      "length xs \<le> R \<and> (\<exists>be. flushed xs be n s1) \<or>
       n = 0 \<and> R < length xs \<and> eps_lost (Patch, 0) s1 \<and> concat (eo_blocks s1) = take R xs"
    using Flush_ok [OF True] unfolding d by blast
  have run: "Trim p s = (if eo_stream s1 = None then Some (Inl NullDeref)
      else ret ((Patch, 0), (stream_back_up n s1)\<lparr>eo_buffer_end := Some (Patch, 0), eo_end := (Patch, 0)\<rparr>))"
    using f(1) True by (simp add: Trim_def Let_def eps_ok_def)
  from f(2) show ?thesis
  proof (elim disjE conjE exE)
    fix be assume "length xs \<le> R" and "flushed xs be n s1"
    with back_up_concat [of xs be n s1] show ?thesis by (auto simp: run flushed_def)
  next
    assume l: "n = 0" "R < length xs" "eps_lost (Patch, 0) s1" "concat (eo_blocks s1) = take R xs"
    have "stream_back_up 0 s1 = s1" by (simp add: stream_back_up_def split: list.split)
    with l show ?thesis by (auto simp: run eps_lost_def)
  qed
next
  case False
  with c show ?thesis by (auto simp: carries_def Trim_def eps_lost_def)
qed

lemma stream_start:
  assumes "EpsCopyOutputStream_stream sizes = (p, s)"
  shows "carries True (sum_list sizes) [] p s"
  using assms by (auto simp: EpsCopyOutputStream_stream_def carries_def eps_ok_def delivered_def room_in_def)

end
