(* ===== verification/Eps_Stream.thy ===== *)
theory Eps_Stream
  imports Eps_Buffer Zero_Fields
begin

unbundle bit_operations_syntax

text \<open>
  Serializing unknown fields and whole messages to a stream with blocks of any sizes, over the
  writers of \<open>Eps_Buffer\<close>.
\<close>

section \<open>Fields\<close>

text \<open>The size computed for a tag does not depend on its wire type.\<close>

lemma TagSize_tag: "TagSize (push_bit 3 n) = length (tag_bytes n ty)"
proof -
  let ?t = "push_bit 3 n"
  have p: "?t = n * 8" by (simp add: push_bit_eq_mult)
  have c: "unat (wire_code ty :: uint32) < 8" by (cases ty) (simp_all add: wire_code_def)
  have "unat ?t = unat n * 8 mod 4294967296" unfolding p by (simp add: unat_word_ariths)
  moreover have "unat n * 8 mod 4294967296 mod 8 = unat n * 8 mod 8" by (rule mod_mod_cancel) simp
  ultimately have "unat ?t mod 8 = 0" by simp
  then have m: "unat ?t = 8 * (unat ?t div 8)" by (metis add.right_neutral mult_div_mod_eq)
  have s: "?t OR wire_code ty = ?t + wire_code ty" using tag_sum [of n ty] unfolding p by simp
  have "unat ?t + unat (wire_code ty :: uint32) < 2 ^ 32"
  proof -
    have "8 * (unat ?t div 8) < 8 * 536870912" using m unsigned_less [of ?t, where 'a = nat] by simp
    then have "unat ?t div 8 \<le> 536870911" by linarith
    with m c show ?thesis by simp
  qed
  then have u: "unat (?t OR wire_code ty) = 8 * (unat ?t div 8) + unat (wire_code ty :: uint32)"
    unfolding s using m by (simp add: unat_word_ariths)
  have "?t OR wire_code ty < k \<longleftrightarrow> ?t < k" if "unat k = 8 * b" for k b
  proof -
    have "8 * q + r < 8 * b \<longleftrightarrow> 8 * q < 8 * b" if "r < 8" for q r :: nat using that by auto
    from this [OF c, of "unat ?t div 8"] m show ?thesis unfolding word_less_nat_alt that u by simp
  qed
  from this [of "2 ^ 7" 16] this [of "2 ^ 14" 2048] this [of "2 ^ 21" 262144] this [of "2 ^ 28" 33554432]
  have "TagSize (?t OR wire_code ty) = TagSize ?t" by (simp add: TagSize_def)
  then show ?thesis by (simp add: TagSize_length tag_bytes_def)
qed

lemma short_tag: "length (tag_bytes n ty) \<le> 5"
  using length_varint_bytes [of "unat (push_bit 3 n OR wire_code ty)" 5]
    unsigned_less [of "push_bit 3 n OR wire_code ty", where 'a = nat] by (simp add: tag_bytes_def)

lemma short_varint: "length (varint_bytes (unat (v :: uint64))) \<le> 10" "length (varint_bytes (unat (w :: uint32))) \<le> 5"
  using length_varint_bytes [of "unat v" 10] unsigned_less [of v, where 'a = nat]
    length_varint_bytes [of "unat w" 5] unsigned_less [of w, where 'a = nat] by simp_all

lemma raws_tag: "raws (\<lambda>p s. Some (WriteTagToArray (sint n) ty p s)) (tag_bytes n ty)"
  unfolding WriteTagToArray_def
  by (rule raws_put) (simp add: WriteVarint32ToArray_def UnsafeVarint_put MakeTag_sint tag_bytes_def)

lemma raws_scalars:
  "raws (\<lambda>p s. Some (WriteUInt64ToArray (sint n) v p s)) (field_bytes (TYPE_VARINT n v))"
  "raws (\<lambda>p s. Some (WriteFixed32ToArray (sint n) w p s)) (field_bytes (TYPE_FIXED32 n w))"
  "raws (\<lambda>p s. Some (WriteFixed64ToArray (sint n) v p s)) (field_bytes (TYPE_FIXED64 n v))"
  unfolding WriteUInt64ToArray_def WriteFixed32ToArray_def WriteFixed64ToArray_def Some_bind_res
    case_prod_Some field_bytes.simps
  by (intro raws_comp [OF raws_tag] raws_put;
      simp add: WriteVarint64ToArray_def UnsafeVarint_put WriteLittleEndian32ToArray_def
        WriteLittleEndian64ToArray_def)+

lemma raws_WriteLengthDelim:
  "raws (\<lambda>p s. Some (WriteLengthDelim n k p s)) (tag_bytes n WIRETYPE_LENGTH_DELIMITED @ varint_bytes (unat k))"
  unfolding WriteLengthDelim_def WriteTag_def Some_bind_res case_prod_Some
  by (intro raws_comp raws_put)
    (simp_all add: UnsafeVarint_put UnsafeWriteSize_put tag_bytes_def wire_code_def)

lemma streams_WriteString:
  assumes "length str < 2 ^ 31"
  shows "streams (WriteString n str) (field_bytes (TYPE_LENGTH_DELIMITED n str))"
proof -
  let ?b = "field_bytes (TYPE_LENGTH_DELIMITED n str)" and ?k = "word_of_nat (length str) :: uint32"
  have k: "unat ?k = length str" using assms by (simp add: unat_of_nat)
  have delim: "length (tag_bytes n WIRETYPE_LENGTH_DELIMITED @ varint_bytes (unat ?k)) \<le> SLOP"
    using short_tag [of n WIRETYPE_LENGTH_DELIMITED] short_varint(2) [of ?k] by (simp add: SLOP_def)
  have outline: "streams (WriteStringOutline n str) ?b"
    unfolding WriteStringOutline_def
    by (rule streams_EnsureSpace [where k = "length (tag_bytes n WIRETYPE_LENGTH_DELIMITED @ varint_bytes (unat ?k))"])
      (use raws_then [OF raws_WriteLengthDelim streams_WriteRaw, of n ?k str] delim tag_bytes_pos [of n WIRETYPE_LENGTH_DELIMITED]
        in \<open>simp_all add: k\<close>)
  have inline: "raws (\<lambda>p s. Some (bind_res (at_ptr (UnsafeVarint (push_bit 3 n OR 2)) p s) (\<lambda>(p1, s1).
      bind_res (copy_to [word_of_nat (length str)] p1 s1) (\<lambda>(p2, s2). copy_to str p2 s2))))
    (tag_bytes n WIRETYPE_LENGTH_DELIMITED @ [word_of_nat (length str)] @ str)"
    unfolding Some_bind_res case_prod_Some
    by (intro raws_comp raws_put raws_copy) (simp add: UnsafeVarint_put tag_bytes_def wire_code_def)
  show ?thesis
    unfolding roomy_def
  proof (intro allI impI)
    fix q R xs p s assume a: "carries q R xs p s \<and> snd p + 0 \<le> snd (eo_end s) + SLOP"
    show "\<exists>p' s'. WriteString n str p s = ret (p', s') \<and> carries (q \<or> ?b \<noteq> []) R (xs @ ?b) p' s'"
    proof (cases "128 \<le> int (length str) \<or>
        int (snd (eo_end s)) - int (snd p) + 16 - int (TagSize (push_bit 3 n)) - 1 < int (length str)")
      case True
      have "WriteString n str p s = WriteStringOutline n str p s" using True by (simp add: WriteString_def Let_def)
      then show ?thesis using outline a unfolding roomy_def by metis
    next
      case False
      then have one: "?b = tag_bytes n WIRETYPE_LENGTH_DELIMITED @ [word_of_nat (length str)] @ str"
        by (simp add: varint_bytes_one)
      have "snd p + length (tag_bytes n WIRETYPE_LENGTH_DELIMITED @ [word_of_nat (length str)] @ str) \<le> snd (eo_end s) + SLOP"
        using False unfolding TagSize_tag [of n WIRETYPE_LENGTH_DELIMITED] by (simp add: SLOP_def)
      moreover have "WriteString n str p s = Some (bind_res (at_ptr (UnsafeVarint (push_bit 3 n OR 2)) p s) (\<lambda>(p1, s1).
          bind_res (copy_to [word_of_nat (length str)] p1 s1) (\<lambda>(p2, s2). copy_to str p2 s2)))"
        using False by (simp add: WriteString_def Let_def)
      ultimately show ?thesis using inline a unfolding raws_def one by metis
    qed
  qed
qed

lemma streams_fields:
  "list_all short_strings fs \<Longrightarrow> streams (InternalSerializeUnknownFieldsToArray fs) (fields_bytes fs)"
proof (induction fs rule: ComputeUnknownFieldsSize.induct)
  case 1
  then show ?case using streams_Nil by (simp add: eta_contract_eq)
next
  case (2 field fs)
  have rest: "streams (InternalSerializeUnknownFieldsToArray fs) (fields_bytes fs)" using 2 by simp
  let ?w = "\<lambda>p1 s1. case field of
          TYPE_VARINT n v \<Rightarrow> Some (WriteUInt64ToArray (sint n) v p1 s1)
        | TYPE_FIXED32 n v \<Rightarrow> Some (WriteFixed32ToArray (sint n) v p1 s1)
        | TYPE_FIXED64 n v \<Rightarrow> Some (WriteFixed64ToArray (sint n) v p1 s1)
        | TYPE_LENGTH_DELIMITED n str \<Rightarrow> WriteString n str p1 s1
        | TYPE_GROUP n g \<Rightarrow>
            bind_run (Some (WriteTagToArray (sint n) WIRETYPE_START_GROUP p1 s1)) (\<lambda>(p2, s2).
            bind_run (InternalSerializeUnknownFieldsToArray g p2 s2) (\<lambda>(p3, s3).
            bind_run (EnsureSpace p3 s3) (\<lambda>(p4, s4).
              Some (WriteTagToArray (sint n) WIRETYPE_END_GROUP p4 s4))))"
  have w: "roomy SLOP ?w (field_bytes field)"
  proof (cases field)
    case (TYPE_VARINT n v)
    show ?thesis
      unfolding TYPE_VARINT unknown_field.case
      by (rule roomy_more [OF raws_roomy [OF raws_scalars(1)]])
        (use short_tag [of n WIRETYPE_VARINT] short_varint(1) [of v] in \<open>simp add: SLOP_def\<close>)
  next
    case (TYPE_FIXED32 n v)
    show ?thesis
      unfolding TYPE_FIXED32 unknown_field.case
      by (rule roomy_more [OF raws_roomy [OF raws_scalars(2)]])
        (use short_tag [of n WIRETYPE_FIXED32] in \<open>simp add: SLOP_def\<close>)
  next
    case (TYPE_FIXED64 n v)
    show ?thesis
      unfolding TYPE_FIXED64 unknown_field.case
      by (rule roomy_more [OF raws_roomy [OF raws_scalars(3)]])
        (use short_tag [of n WIRETYPE_FIXED64] in \<open>simp add: SLOP_def\<close>)
  next
    case (TYPE_LENGTH_DELIMITED n str)
    have "streams (WriteString n str) (field_bytes (TYPE_LENGTH_DELIMITED n str))"
      using 2(3) TYPE_LENGTH_DELIMITED by (intro streams_WriteString) simp
    then show ?thesis
      unfolding TYPE_LENGTH_DELIMITED unknown_field.case by (rule roomy_more) simp
  next
    case (TYPE_GROUP n g)
    have g: "streams (InternalSerializeUnknownFieldsToArray g) (fields_bytes g)" using 2 TYPE_GROUP by simp
    have "streams (\<lambda>p s. bind_run (EnsureSpace p s) (\<lambda>(q, t). Some (WriteTagToArray (sint n) WIRETYPE_END_GROUP q t)))
        (tag_bytes n WIRETYPE_END_GROUP)"
      using short_tag [of n WIRETYPE_END_GROUP] tag_bytes_pos [of n WIRETYPE_END_GROUP]
      by (intro streams_EnsureSpace [OF raws_roomy [OF raws_tag]]) (auto simp: SLOP_def)
    from raws_then [OF raws_tag roomy_then [OF g this], of n WIRETYPE_START_GROUP]
    have "roomy (length (tag_bytes n WIRETYPE_START_GROUP) + 0) ?w (field_bytes field)"
      by (simp add: TYPE_GROUP fields_bytes_def)
    then show ?thesis
      by (rule roomy_more) (use short_tag [of n WIRETYPE_START_GROUP] in \<open>simp add: SLOP_def\<close>)
  qed
  have "field_bytes field \<noteq> []" by (cases field) (simp_all add: tag_bytes_def)
  then have "streams (\<lambda>p s. bind_run (EnsureSpace p s) (\<lambda>(p1, s1).
      bind_run (?w p1 s1) (\<lambda>(p5, s5). InternalSerializeUnknownFieldsToArray fs p5 s5))) (field_bytes field @ fields_bytes fs)"
    by (intro streams_EnsureSpace [OF roomy_then [OF w rest]]) simp_all
  then show ?case by (simp only: InternalSerializeUnknownFieldsToArray.simps fields_bytes_simps roomy_def)
qed

section \<open>Messages\<close>

text \<open>
  C29: Serializing a message to a stream never faults, whatever the sizes of the stream's blocks. It
  reports success exactly when the blocks together have room for the bytes that serializing to a string
  gives, and what arrives in them are these bytes, as many as there is room for.
\<close>

theorem stream_output_is_string_output:
  assumes ok: "Zero_ok m" and lim: "int (length (fields_bytes (unknown_fields m))) \<le> INT_MAX"
  shows "\<exists>b blocks bs. Zero_SerializePartialToZeroCopyStream m sizes = ret (b, blocks) \<and>
    Zero_SerializeAsString m = ret bs \<and> (b \<longleftrightarrow> length bs \<le> sum_list sizes) \<and> concat blocks = take (sum_list sizes) bs"
proof -
  let ?bs = "fields_bytes (unknown_fields m)"
  obtain p s where s: "EpsCopyOutputStream_stream sizes = (p, s)" by (metis surj_pair)
  have b: "Zero_ByteSizeLong m = length ?bs" by (rule Zero_ByteSizeLong_length [OF ok])
  have "streams (Zero_InternalSerialize m) ?bs"
  proof (cases "have_unknown_fields m")
    case True
    then show ?thesis
      using streams_fields [OF readable_shorts [OF Zero_ok_fields [OF ok]]] by (simp add: Zero_InternalSerialize_def roomy_def)
  next
    case False
    then show ?thesis using streams_Nil by (simp add: Zero_InternalSerialize_def roomy_def have_unknown_fields_def)
  qed
  then obtain p1 s1 where w: "Zero_InternalSerialize m p s = ret (p1, s1)" "carries True (sum_list sizes) ?bs p1 s1"
    using stream_start [OF s] by (auto elim: streamsD)
  obtain q s2 where "Trim p1 s1 = ret (q, s2)" "eo_had_error s2 \<longleftrightarrow> sum_list sizes < length ?bs"
      "concat (eo_blocks s2) = take (sum_list sizes) ?bs"
    using Trim_ok [OF w(2)] by blast
  moreover from this have "Zero_SerializePartialToZeroCopyStream m sizes = ret (\<not> eo_had_error s2, eo_blocks s2)"
    using lim b s w(1) by (simp add: Zero_SerializePartialToZeroCopyStream_def)
  moreover have "Zero_SerializeAsString m = ret ?bs"
    using SerializeToArrayImpl_bytes [OF ok, of 0 "replicate (Zero_ByteSizeLong m) 0"] lim b
    by (simp add: Zero_SerializeAsString_def Zero_AppendToString_def Zero_AppendPartialToString_def Let_def overwrite_def)
  ultimately show ?thesis by (simp add: not_less)
qed

theorem stream_output_is_string_output_witness:
  "\<exists>b blocks bs. Zero_SerializePartialToZeroCopyStream (Some [TYPE_VARINT 1 300, TYPE_LENGTH_DELIMITED 2 [7, 8]]) [1, 0, 3] =
     ret (b, blocks) \<and> \<not> b \<and> concat blocks = [8, 172, 2, 18]"
proof -
  let ?m = "Some [TYPE_VARINT 1 300, TYPE_LENGTH_DELIMITED 2 [7, 8]]"
  have bytes: "fields_bytes [TYPE_VARINT 1 300, TYPE_LENGTH_DELIMITED 2 [7, 8]] = [8, 172, 2, 18, 2, 7, 8]" by code_simp
  have str: "Zero_SerializeAsString ?m = ret [8, 172, 2, 18, 2, 7, 8]" by code_simp
  have "Zero_ok ?m" by (simp add: Zero_ok_def INT_MAX_def kSlopBytes_def)
  moreover have u: "unknown_fields ?m = [TYPE_VARINT 1 300, TYPE_LENGTH_DELIMITED 2 [7, 8]]" by simp
  moreover have "int (length (fields_bytes (unknown_fields ?m))) \<le> INT_MAX" unfolding u bytes by (simp add: INT_MAX_def)
  ultimately show ?thesis
    using stream_output_is_string_output [of ?m "[1, 0, 3]"] unfolding str by (auto simp: ret_def)
qed

end
