(* ===== verification/Zero_Copy_Input.thy ===== *)
theory Zero_Copy_Input
  imports Prelude
begin

text \<open>
  Streams of blocks of bytes, \<^verbatim>\<open>io/zero_copy_stream_impl_lite.{h,cc}\<close>. An implementation of
  \<^verbatim>\<open>ZeroCopyInputStream\<close> is a record of its four functions on a state; the contract its
  users rely on is the locale \<open>zero_copy_stream\<close>; \<^verbatim>\<open>ArrayInputStream\<close> and
  \<^verbatim>\<open>LimitingInputStream\<close> meet it.
\<close>

record 's zero_copy_input =
  zi_Next :: "'s \<Rightarrow> byte list option \<times> 's"
  zi_BackUp :: "int \<Rightarrow> 's \<Rightarrow> 's res"
  zi_Skip :: "int \<Rightarrow> 's \<Rightarrow> (bool \<times> 's) res"
  zi_ByteCount :: "'s \<Rightarrow> int"

section \<open>\<^verbatim>\<open>ArrayInputStream\<close>\<close>

record array_input =
  as_data :: "byte list"
  as_size :: int
  as_block_size :: int
  as_position :: int
  as_last_returned_size :: int

definition ArrayInputStream :: "byte list \<Rightarrow> int \<Rightarrow> array_input" where
  "ArrayInputStream data block_size =
     (let size = int (length data) in
      \<lparr>as_data = data, as_size = size, as_block_size = (if block_size > 0 then block_size else size),
       as_position = 0, as_last_returned_size = 0\<rparr>)"

definition Array_Next :: "array_input \<Rightarrow> byte list option \<times> array_input" where
  "Array_Next s =
     (if as_position s < as_size s then
        let n = min (as_block_size s) (as_size s - as_position s) in
        (Some (window (nat (as_position s)) (nat n) (as_data s)),
         s\<lparr>as_last_returned_size := n, as_position := as_position s + n\<rparr>)
      else (None, s\<lparr>as_last_returned_size := 0\<rparr>))"

definition Array_BackUp :: "int \<Rightarrow> array_input \<Rightarrow> array_input res" where
  "Array_BackUp count s =
     (if \<not> as_last_returned_size s > 0 then Inl FatalLog
      else if \<not> count \<le> as_last_returned_size s then Inl FatalLog
      else if \<not> count \<ge> 0 then Inl FatalLog
      else Inr (s\<lparr>as_position := as_position s - count, as_last_returned_size := 0\<rparr>))"

definition Array_Skip :: "int \<Rightarrow> array_input \<Rightarrow> (bool \<times> array_input) res" where
  "Array_Skip count s =
     (if \<not> count \<ge> 0 then Inl FatalLog
      else
        let s1 = s\<lparr>as_last_returned_size := 0\<rparr> in
        if count > as_size s1 - as_position s1 then Inr (False, s1\<lparr>as_position := as_size s1\<rparr>)
        else Inr (True, s1\<lparr>as_position := as_position s1 + count\<rparr>))"

definition array_input_stream :: "array_input zero_copy_input" where
  "array_input_stream =
     \<lparr>zi_Next = Array_Next, zi_BackUp = Array_BackUp, zi_Skip = Array_Skip, zi_ByteCount = as_position\<rparr>"

section \<open>\<^verbatim>\<open>LimitingInputStream\<close>\<close>

record 's limiting_input =
  li_input :: 's
  li_limit :: int
  li_prior_bytes_read :: int

definition LimitingInputStream :: "'s zero_copy_input \<Rightarrow> 's \<Rightarrow> int \<Rightarrow> 's limiting_input" where
  "LimitingInputStream Z input limit =
     \<lparr>li_input = input, li_limit = limit, li_prior_bytes_read = zi_ByteCount Z input\<rparr>"

definition LimitingInputStream_destroy :: "'s zero_copy_input \<Rightarrow> 's limiting_input \<Rightarrow> 's res" where
  "LimitingInputStream_destroy Z s =
     (if li_limit s < 0 then zi_BackUp Z (- li_limit s) (li_input s) else Inr (li_input s))"

definition Limiting_Next :: "'s zero_copy_input \<Rightarrow> 's limiting_input \<Rightarrow> byte list option \<times> 's limiting_input" where
  "Limiting_Next Z s =
     (if li_limit s \<le> 0 then (None, s)
      else
        (case zi_Next Z (li_input s) of
           (None, input) \<Rightarrow> (None, s\<lparr>li_input := input\<rparr>)
         | (Some data, input) \<Rightarrow>
             let size = int (length data); lim = li_limit s - size;
                 size' = (if lim < 0 then size + lim else size) in
             (Some (take (nat size') data), s\<lparr>li_input := input, li_limit := lim\<rparr>)))"

definition Limiting_BackUp :: "'s zero_copy_input \<Rightarrow> int \<Rightarrow> 's limiting_input \<Rightarrow> 's limiting_input res" where
  "Limiting_BackUp Z count s =
     (if li_limit s < 0 then
        bind_res (zi_BackUp Z (count - li_limit s) (li_input s)) (\<lambda>input.
          Inr (s\<lparr>li_input := input, li_limit := count\<rparr>))
      else
        bind_res (zi_BackUp Z count (li_input s)) (\<lambda>input.
          Inr (s\<lparr>li_input := input, li_limit := li_limit s + count\<rparr>)))"

definition Limiting_Skip :: "'s zero_copy_input \<Rightarrow> int \<Rightarrow> 's limiting_input \<Rightarrow> (bool \<times> 's limiting_input) res" where
  "Limiting_Skip Z count s =
     (if count > li_limit s then
        (if li_limit s < 0 then Inr (False, s)
         else
           bind_res (zi_Skip Z (li_limit s) (li_input s)) (\<lambda>(_, input).
             Inr (False, s\<lparr>li_input := input, li_limit := 0\<rparr>)))
      else
        bind_res (zi_Skip Z count (li_input s)) (\<lambda>(ok, input).
          if \<not> ok then Inr (False, s\<lparr>li_input := input\<rparr>)
          else Inr (True, s\<lparr>li_input := input, li_limit := li_limit s - count\<rparr>)))"

definition Limiting_ByteCount :: "'s zero_copy_input \<Rightarrow> 's limiting_input \<Rightarrow> int" where
  "Limiting_ByteCount Z s =
     (if li_limit s < 0 then zi_ByteCount Z (li_input s) + li_limit s - li_prior_bytes_read s
      else zi_ByteCount Z (li_input s) - li_prior_bytes_read s)"

definition limiting_input_stream :: "'s zero_copy_input \<Rightarrow> 's limiting_input zero_copy_input" where
  "limiting_input_stream Z =
     \<lparr>zi_Next = Limiting_Next Z, zi_BackUp = Limiting_BackUp Z, zi_Skip = Limiting_Skip Z,
      zi_ByteCount = Limiting_ByteCount Z\<rparr>"

section \<open>The contract\<close>

text \<open>
  \<open>rest\<close> is what the stream will still deliver, \<open>chunk\<close> what \<^verbatim>\<open>BackUp\<close> may take
  back: it ends in what the last call of \<^verbatim>\<open>Next\<close> delivered; \<open>budget\<close> bounds the number of calls.
\<close>

locale zero_copy_stream =
  fixes Z :: "'s zero_copy_input"
    and ok :: "'s \<Rightarrow> bool"
    and rest :: "'s \<Rightarrow> byte list"
    and chunk :: "'s \<Rightarrow> byte list"
    and budget :: "'s \<Rightarrow> nat"
  assumes next_law: "ok s \<Longrightarrow> zi_Next Z s = (r, s') \<Longrightarrow> ok s' \<and>
      (case r of
         None \<Rightarrow> rest s = [] \<and> rest s' = [] \<and> zi_ByteCount Z s' = zi_ByteCount Z s
       | Some d \<Rightarrow> rest s = d @ rest s' \<and> (\<exists>pre. chunk s' = pre @ d) \<and> budget s' < budget s \<and> int (length d) \<le> INT_MAX \<and>
           zi_ByteCount Z s' = zi_ByteCount Z s + int (length d))"
    and backup_law: "ok s \<Longrightarrow> 0 \<le> n \<Longrightarrow> n \<le> int (length (chunk s)) \<Longrightarrow> chunk s \<noteq> [] \<Longrightarrow>
      \<exists>s'. zi_BackUp Z n s = Inr s' \<and> ok s' \<and> rest s' = drop (length (chunk s) - nat n) (chunk s) @ rest s \<and>
        zi_ByteCount Z s' = zi_ByteCount Z s - n"
    and skip_law: "ok s \<Longrightarrow> 0 \<le> n \<Longrightarrow> n \<le> INT_MAX \<Longrightarrow>
      \<exists>b s'. zi_Skip Z n s = Inr (b, s') \<and> (0 < n \<longrightarrow> b = (n \<le> int (length (rest s)))) \<and>
        (\<not> b \<longrightarrow> rest s' = []) \<and> ok s' \<and>
        rest s' = drop (nat n) (rest s) \<and>
        zi_ByteCount Z s' = zi_ByteCount Z s + int (min (nat n) (length (rest s)))"

text \<open>
  A \<^verbatim>\<open>Skip\<close> of no bytes may fail: \<^verbatim>\<open>LimitingInputStream\<close> refuses it when its last
  block reached beyond the limit.
\<close>

definition array_ok :: "array_input \<Rightarrow> bool" where
  "array_ok s \<longleftrightarrow> as_size s = int (length (as_data s)) \<and> as_size s \<le> INT_MAX \<and> 0 \<le> as_position s \<and> as_position s \<le> as_size s \<and>
     (0 < as_size s \<longrightarrow> 0 < as_block_size s) \<and> 0 \<le> as_last_returned_size s \<and>
     as_last_returned_size s \<le> as_position s"

definition array_rest :: "array_input \<Rightarrow> byte list" where
  "array_rest s = drop (nat (as_position s)) (as_data s)"

definition array_chunk :: "array_input \<Rightarrow> byte list" where
  "array_chunk s = window (nat (as_position s - as_last_returned_size s)) (nat (as_last_returned_size s)) (as_data s)"

lemma array_ok_start: "int (length data) \<le> INT_MAX \<Longrightarrow> array_ok (ArrayInputStream data block_size)"
  by (simp add: array_ok_def ArrayInputStream_def Let_def)

lemma array_rest_start: "array_rest (ArrayInputStream data block_size) = data"
  by (simp add: array_rest_def ArrayInputStream_def Let_def)

lemma drop_window_append: "drop i xs = window i n xs @ drop (i + n) xs"
  by (metis append_take_drop_id drop_drop add.commute window_def)

interpretation array_stream: zero_copy_stream array_input_stream array_ok array_rest array_chunk
  "\<lambda>s. length (array_rest s)"
proof (unfold_locales, goal_cases)
  case (1 s r s')
  show ?case
  proof (cases "as_position s < as_size s")
    case True
    let ?n = "min (as_block_size s) (as_size s - as_position s)"
    have n: "0 < ?n" "nat (as_position s + ?n) = nat (as_position s) + nat ?n"
      using True 1(1) by (auto simp: array_ok_def nat_add_distrib)
    have s': "r = Some (window (nat (as_position s)) (nat ?n) (as_data s))"
        "s' = s\<lparr>as_last_returned_size := ?n, as_position := as_position s + ?n\<rparr>"
      using 1(2) True by (auto simp: array_input_stream_def Array_Next_def Let_def)
    have l: "length (window (nat (as_position s)) (nat ?n) (as_data s)) = nat ?n"
      using 1(1) n True by (intro length_window) (auto simp: array_ok_def)
    have "array_rest s = window (nat (as_position s)) (nat ?n) (as_data s) @ array_rest s'"
      unfolding array_rest_def s' using drop_window_append n(2) by simp
    moreover have "array_ok s'" using 1(1) n(1) True by (auto simp: array_ok_def s')
    moreover have "array_chunk s' = window (nat (as_position s)) (nat ?n) (as_data s)"
      by (simp add: array_chunk_def s'(2))
    moreover have "?n \<le> INT_MAX" using 1(1) by (auto simp: array_ok_def)
    ultimately show ?thesis
      using n(1) l by (simp add: s' array_input_stream_def)
  next
    case False
    then show ?thesis
      using 1 by (auto simp: array_input_stream_def Array_Next_def array_ok_def array_rest_def)
  qed
next
  case (2 s n)
  have l: "length (array_chunk s) = nat (as_last_returned_size s)"
    unfolding array_chunk_def using 2(1) by (intro length_window) (auto simp: array_ok_def)
  have pos: "0 < as_last_returned_size s" using 2(4) l by (cases "0 < as_last_returned_size s") auto
  have le: "n \<le> as_last_returned_size s" using 2(3) l pos by simp
  let ?p = "as_position s" and ?k = "as_last_returned_size s"
  have i: "nat (?p - n) = nat (?p - ?k) + (nat ?k - nat n)" "nat ?p = nat (?p - ?k) + nat ?k"
    using 2(1,2) le by (auto simp: array_ok_def)
  have "drop (nat ?k - nat n) (array_chunk s) = window (nat (?p - n)) (nat n) (as_data s)"
    unfolding array_chunk_def drop_window i(1) using le 2(2) by simp
  moreover have "drop (nat (?p - n)) (as_data s) = window (nat (?p - n)) (nat n) (as_data s) @ drop (nat ?p) (as_data s)"
    using drop_window_append [of "nat (?p - n)" "as_data s" "nat n"] 2(1,2) le by (simp add: array_ok_def flip: nat_add_distrib)
  ultimately show ?case
    using 2(1,2) le pos l
    by (simp add: array_input_stream_def Array_BackUp_def array_ok_def array_rest_def)
next
  case (3 s n)
  have d: "length (array_rest s) = nat (as_size s - as_position s)"
    using 3(1) by (auto simp: array_rest_def array_ok_def)
  show ?case
    using 3 d by (auto simp: array_input_stream_def Array_Skip_def Let_def array_ok_def array_rest_def
        nat_add_distrib add.commute)
qed

text \<open>A limited stream is a stream whenever the one below is.\<close>

definition lim_rest :: "('s \<Rightarrow> byte list) \<Rightarrow> 's limiting_input \<Rightarrow> byte list" where
  "lim_rest rest s = take (nat (li_limit s)) (rest (li_input s))"

definition lim_chunk :: "('s \<Rightarrow> byte list) \<Rightarrow> 's limiting_input \<Rightarrow> byte list" where
  "lim_chunk chunk s =
     (if li_limit s < 0 then take (length (chunk (li_input s)) - nat (- li_limit s)) (chunk (li_input s))
      else chunk (li_input s))"

definition lim_ok :: "('s \<Rightarrow> bool) \<Rightarrow> ('s \<Rightarrow> byte list) \<Rightarrow> 's limiting_input \<Rightarrow> bool" where
  "lim_ok ok chunk s \<longleftrightarrow> ok (li_input s) \<and> (li_limit s < 0 \<longrightarrow> - li_limit s \<le> int (length (chunk (li_input s))))"

context zero_copy_stream
begin

lemma limiting_next:
  assumes ok: "lim_ok ok chunk s" and nx: "Limiting_Next Z s = (r, s')"
  shows "lim_ok ok chunk s' \<and>
      (case r of
         None \<Rightarrow> lim_rest rest s = [] \<and> lim_rest rest s' = [] \<and> Limiting_ByteCount Z s' = Limiting_ByteCount Z s
       | Some d \<Rightarrow> lim_rest rest s = d @ lim_rest rest s' \<and> (\<exists>pre. lim_chunk chunk s' = pre @ d) \<and>
           budget (li_input s') < budget (li_input s) \<and> int (length d) \<le> INT_MAX \<and>
           Limiting_ByteCount Z s' = Limiting_ByteCount Z s + int (length d))"
proof (cases "li_limit s \<le> 0")
  case True
  then show ?thesis using ok nx by (auto simp: Limiting_Next_def lim_rest_def)
next
  case False
  obtain x input where x: "zi_Next Z (li_input s) = (x, input)" by (metis surj_pair)
  have ok0: "ok (li_input s)" using ok by (simp add: lim_ok_def)
  note L = next_law [OF ok0 x]
  show ?thesis
  proof (cases x)
    case None
    then show ?thesis
      using False nx x L by (auto simp: Limiting_Next_def lim_ok_def lim_rest_def Limiting_ByteCount_def)
  next
    case (Some d)
    let ?lim = "li_limit s - int (length d)"
    have r: "r = Some (take (nat (if ?lim < 0 then li_limit s else int (length d))) d)"
        "s' = s\<lparr>li_input := input, li_limit := ?lim\<rparr>"
      using False nx x Some by (auto simp: Limiting_Next_def Let_def)
    obtain pre where pre: "chunk input = pre @ d" using L Some by auto
    have cut: "lim_chunk chunk s' = pre @ take (nat (if ?lim < 0 then li_limit s else int (length d))) d"
    proof (cases "?lim < 0")
      case True
      then have "length (pre @ d) - nat (- ?lim) = length pre + nat (li_limit s)" using False by simp
      then show ?thesis using True by (simp add: r lim_chunk_def pre)
    qed (simp add: r lim_chunk_def pre)
    have "nat (- ?lim) \<le> length d" if "?lim < 0" using that False by auto
    moreover have "\<exists>pre. lim_chunk chunk s' = pre @ take (nat (if ?lim < 0 then li_limit s else int (length d))) d"
      using cut by blast
    ultimately show ?thesis
      using False L Some pre
      by (cases "?lim < 0") (simp_all add: r lim_ok_def lim_rest_def Limiting_ByteCount_def nat_diff_distrib' min_def)
  qed
qed

lemma limiting_backup:
  assumes ok: "lim_ok ok chunk s" and n: "0 \<le> n" "n \<le> int (length (lim_chunk chunk s))"
    and ne: "lim_chunk chunk s \<noteq> []"
  shows "\<exists>s'. Limiting_BackUp Z n s = Inr s' \<and> lim_ok ok chunk s' \<and>
    lim_rest rest s' = drop (length (lim_chunk chunk s) - nat n) (lim_chunk chunk s) @ lim_rest rest s \<and>
    Limiting_ByteCount Z s' = Limiting_ByteCount Z s - n"
proof (cases "li_limit s < 0")
  case True
  let ?c = "chunk (li_input s)" and ?m = "nat (- li_limit s)"
  have c: "?c \<noteq> []" "?m \<le> length ?c" "nat n + ?m \<le> length ?c"
    using ok n ne True by (auto simp: lim_ok_def lim_chunk_def)
  have "n - li_limit s \<le> int (length ?c)" using c(3) n(1) True by linarith
  then obtain input where b: "zi_BackUp Z (n - li_limit s) (li_input s) = Inr input" "ok input"
      "rest input = drop (length ?c - nat (n - li_limit s)) ?c @ rest (li_input s)"
      "zi_ByteCount Z input = zi_ByteCount Z (li_input s) - (n - li_limit s)"
    using backup_law [of "li_input s" "n - li_limit s"] ok n c True by (auto simp: lim_ok_def)
  have k: "nat (n - li_limit s) = nat n + ?m" using True n(1) by simp
  have "take (nat n) (drop (length ?c - (nat n + ?m)) ?c) =
      drop (length ?c - ?m - nat n) (take (length ?c - ?m) ?c)"
    using c by (simp add: drop_take add.commute)
  then show ?thesis
    using True b c n(1)
    by (simp add: Limiting_BackUp_def lim_ok_def lim_rest_def lim_chunk_def Limiting_ByteCount_def k
        min_absorb2 diff_commute add.commute)
next
  case False
  let ?c = "chunk (li_input s)"
  obtain input where b: "zi_BackUp Z n (li_input s) = Inr input" "ok input"
      "rest input = drop (length ?c - nat n) ?c @ rest (li_input s)"
      "zi_ByteCount Z input = zi_ByteCount Z (li_input s) - n"
    using backup_law [of "li_input s" n] ok n ne False by (auto simp: lim_ok_def lim_chunk_def)
  have "nat (li_limit s + n) = nat n + nat (li_limit s)" using n(1) False by simp
  then show ?thesis
    using False b n
    by (simp add: Limiting_BackUp_def lim_ok_def lim_rest_def lim_chunk_def Limiting_ByteCount_def)
qed

lemma limiting_skip:
  assumes ok: "lim_ok ok chunk s" and n: "0 \<le> n" "n \<le> INT_MAX"
  shows "\<exists>b s'. Limiting_Skip Z n s = Inr (b, s') \<and> (0 < n \<longrightarrow> b = (n \<le> int (length (lim_rest rest s)))) \<and>
    (\<not> b \<longrightarrow> lim_rest rest s' = []) \<and> lim_ok ok chunk s' \<and> lim_rest rest s' = drop (nat n) (lim_rest rest s) \<and>
    Limiting_ByteCount Z s' = Limiting_ByteCount Z s + int (min (nat n) (length (lim_rest rest s)))"
proof -
  have ok0: "ok (li_input s)" using ok by (simp add: lim_ok_def)
  consider "li_limit s < 0" | "0 \<le> li_limit s" "li_limit s < n" | "0 \<le> li_limit s" "n \<le> li_limit s"
    by linarith
  then show ?thesis
  proof cases
    case 1
    then show ?thesis using ok n by (intro exI [of _ False]) (simp add: Limiting_Skip_def lim_rest_def)
  next
    case 2
    obtain b input where "zi_Skip Z (li_limit s) (li_input s) = Inr (b, input)" "ok input"
        "zi_ByteCount Z input = zi_ByteCount Z (li_input s) +
          int (min (nat (li_limit s)) (length (rest (li_input s))))"
      using skip_law [OF ok0 2(1)] 2(2) n(2) by force
    moreover have len: "length (lim_rest rest s) = min (nat (li_limit s)) (length (rest (li_input s)))"
      by (simp add: lim_rest_def min.commute)
    moreover have lt: "nat (li_limit s) < nat n" using 2 by simp
    then have "\<not> n \<le> int (length (lim_rest rest s))" "drop (nat n) (lim_rest rest s) = []"
        "min (nat n) (length (lim_rest rest s)) = length (lim_rest rest s)"
      unfolding len by (auto simp: min_def len)
    ultimately show ?thesis
      using 2 by (intro exI [of _ False]) (simp add: Limiting_Skip_def lim_ok_def Limiting_ByteCount_def lim_rest_def)
  next
    case 3
    obtain b input where b: "zi_Skip Z n (li_input s) = Inr (b, input)" "ok input"
        "0 < n \<longrightarrow> b = (n \<le> int (length (rest (li_input s))))" "\<not> b \<longrightarrow> rest input = []"
        "rest input = drop (nat n) (rest (li_input s))" "zi_ByteCount Z input =
          zi_ByteCount Z (li_input s) + int (min (nat n) (length (rest (li_input s))))"
      using skip_law [OF ok0 n] by blast
    have d: "nat (li_limit s - n) = nat (li_limit s) - nat n" using n by (simp add: nat_diff_distrib')
    have len: "length (lim_rest rest s) = min (nat (li_limit s)) (length (rest (li_input s)))"
      by (simp add: lim_rest_def min.commute)
    have le: "nat n \<le> nat (li_limit s)" using 3 by simp
    have e: "n \<le> int (length (lim_rest rest s)) \<longleftrightarrow> n \<le> int (length (rest (li_input s)))"
      unfolding len using 3 by (simp add: min_def) linarith
    have m: "min (nat n) (length (lim_rest rest s)) = min (nat n) (length (rest (li_input s)))"
      unfolding len using le by (simp add: min.assoc [symmetric] min_absorb1)
    show ?thesis
    proof (cases b)
      case True
      then have "Limiting_Skip Z n s = Inr (True, s\<lparr>li_input := input, li_limit := li_limit s - n\<rparr>)"
        using 3 b(1) by (simp add: Limiting_Skip_def)
      moreover have "0 < n \<longrightarrow> True = (n \<le> int (length (lim_rest rest s)))" unfolding e using b(3) True by simp
      ultimately show ?thesis
        unfolding m using 3 b(2,5,6) d by (intro exI [of _ True]) (simp add: lim_ok_def lim_rest_def Limiting_ByteCount_def drop_take)
    next
      case False
      then have "Limiting_Skip Z n s = Inr (False, s\<lparr>li_input := input\<rparr>)"
        using 3 b(1) by (simp add: Limiting_Skip_def)
      moreover have "0 < n \<longrightarrow> False = (n \<le> int (length (lim_rest rest s)))" unfolding e using b(3) False by simp
      moreover have "take (nat (li_limit s)) (drop (nat n) (rest (li_input s))) =
          drop (nat n) (take (nat (li_limit s)) (rest (li_input s)))"
        using b(3) False n(1) by (cases "n = 0") simp_all
      ultimately show ?thesis
        unfolding m using 3 b(2,4-6) False by (intro exI [of _ False]) (simp add: lim_ok_def lim_rest_def Limiting_ByteCount_def)
    qed
  qed
qed

lemma limiting_stream:
  "zero_copy_stream (limiting_input_stream Z) (lim_ok ok chunk) (lim_rest rest) (lim_chunk chunk)
     (\<lambda>s. budget (li_input s))"
proof (unfold_locales, goal_cases)
  case (1 s r s')
  then show ?case using limiting_next [of s r s'] by (cases r) (simp_all add: limiting_input_stream_def)
next
  case (2 s n)
  then show ?case using limiting_backup [of s n] by (simp add: limiting_input_stream_def)
next
  case (3 s n)
  then show ?case using limiting_skip [of s n] by (simp add: limiting_input_stream_def)
qed

end

interpretation limited_array: zero_copy_stream "limiting_input_stream array_input_stream"
    "lim_ok array_ok array_chunk" "lim_rest array_rest" "lim_chunk array_chunk"
    "\<lambda>s. length (array_rest (li_input s))"
  by (rule array_stream.limiting_stream)

end
