(* ===== verification/Coded_Input.thy ===== *)
theory Coded_Input
  imports Zero_Copy_Input Wire_Writers
begin

unbundle bit_operations_syntax

text \<open>
  \<^verbatim>\<open>CodedInputStream\<close>, \<^verbatim>\<open>io/coded_stream.{h,cc}\<close>: the reader of the wire format
  below the older entry points of the library. It reads an array, or the blocks of a
  \<^verbatim>\<open>ZeroCopyInputStream\<close> \<open>Z\<close>; \<^verbatim>\<open>buffer_\<close> and \<^verbatim>\<open>buffer_end_\<close> are offsets into
  the current block. The error messages and the extension pool are left out.
\<close>

section \<open>State\<close>

record 's coded_input =
  ci_block :: "byte list"
  ci_buffer :: int
  ci_buffer_end :: int
  ci_input :: "'s option"
  ci_total_bytes_read :: int
  ci_overflow_bytes :: int
  ci_last_tag :: uint32
  ci_legitimate_message_end :: bool
  ci_aliasing_enabled :: bool
  ci_current_limit :: int
  ci_buffer_size_after_limit :: int
  ci_total_bytes_limit :: int
  ci_recursion_budget :: int
  ci_recursion_limit :: int

definition kDefaultTotalBytesLimit :: int where
  "kDefaultTotalBytesLimit = INT_MAX"

definition kMaxVarintBytes :: nat where "kMaxVarintBytes = 10"
definition kMaxVarint32Bytes :: nat where "kMaxVarint32Bytes = 5"

definition default_recursion_limit :: int where
  "default_recursion_limit = 100"

definition BufferSize :: "'s coded_input \<Rightarrow> int" where
  "BufferSize c = ci_buffer_end c - ci_buffer c"

definition Advance :: "int \<Rightarrow> 's coded_input \<Rightarrow> 's coded_input" where
  "Advance amount c = c\<lparr>ci_buffer := ci_buffer c + amount\<rparr>"

definition CurrentPosition :: "'s coded_input \<Rightarrow> int" where
  "CurrentPosition c = ci_total_bytes_read c - (BufferSize c + ci_buffer_size_after_limit c)"

text \<open>The memory from \<^verbatim>\<open>buffer_\<close> on, and \<^verbatim>\<open>buffer_end_[-1]\<close>.\<close>

definition at_buffer :: "'s coded_input \<Rightarrow> byte list res" where
  "at_buffer c =
     (if 0 \<le> ci_buffer c \<and> ci_buffer c \<le> int (length (ci_block c))
      then Inr (drop (nat (ci_buffer c)) (ci_block c)) else Inl OutOfBounds)"

definition byte_here :: "'s coded_input \<Rightarrow> byte res" where
  "byte_here c = bind_res (at_buffer c) (\<lambda>p. byte_at p 0)"

definition last_byte :: "'s coded_input \<Rightarrow> byte res" where
  "last_byte c = (if 0 < ci_buffer_end c then byte_at (ci_block c) (nat (ci_buffer_end c - 1)) else Inl OutOfBounds)"

definition copy_out :: "int \<Rightarrow> 's coded_input \<Rightarrow> byte list res" where
  "copy_out n c = mem_read (ci_block c) (ci_buffer c) n"

section \<open>Limits\<close>

definition RecomputeBufferLimits :: "'s coded_input \<Rightarrow> 's coded_input" where
  "RecomputeBufferLimits c =
     (let e = ci_buffer_end c + ci_buffer_size_after_limit c;
          closest_limit = min (ci_current_limit c) (ci_total_bytes_limit c) in
      if closest_limit < ci_total_bytes_read c then
        let n = ci_total_bytes_read c - closest_limit in
        c\<lparr>ci_buffer_end := e - n, ci_buffer_size_after_limit := n\<rparr>
      else c\<lparr>ci_buffer_end := e, ci_buffer_size_after_limit := 0\<rparr>)"

definition Ci_PushLimit :: "int \<Rightarrow> 's coded_input \<Rightarrow> int \<times> 's coded_input" where
  "Ci_PushLimit byte_limit c =
     (let current_position = CurrentPosition c; old_limit = ci_current_limit c in
      if byte_limit \<ge> 0 \<and> byte_limit \<le> INT_MAX - current_position \<and>
         byte_limit < ci_current_limit c - current_position
      then (old_limit, RecomputeBufferLimits (c\<lparr>ci_current_limit := current_position + byte_limit\<rparr>))
      else (old_limit, c))"

definition Ci_PopLimit :: "int \<Rightarrow> 's coded_input \<Rightarrow> 's coded_input" where
  "Ci_PopLimit limit c =
     (RecomputeBufferLimits (c\<lparr>ci_current_limit := limit\<rparr>))\<lparr>ci_legitimate_message_end := False\<rparr>"

definition Ci_BytesUntilLimit :: "'s coded_input \<Rightarrow> int" where
  "Ci_BytesUntilLimit c =
     (if ci_current_limit c = INT_MAX then - 1 else ci_current_limit c - CurrentPosition c)"

definition SetTotalBytesLimit :: "int \<Rightarrow> 's coded_input \<Rightarrow> 's coded_input" where
  "SetTotalBytesLimit total_bytes_limit c =
     RecomputeBufferLimits (c\<lparr>ci_total_bytes_limit := max (CurrentPosition c) total_bytes_limit\<rparr>)"

definition BytesUntilTotalBytesLimit :: "'s coded_input \<Rightarrow> int" where
  "BytesUntilTotalBytesLimit c =
     (if ci_total_bytes_limit c = INT_MAX then - 1 else ci_total_bytes_limit c - CurrentPosition c)"

section \<open>Construction, refilling, destruction\<close>

text \<open>\<^verbatim>\<open>NextNonEmpty\<close>: blocks of no bytes are passed over.\<close>

partial_function (option) NextNonEmpty :: "'s zero_copy_input \<Rightarrow> 's \<Rightarrow> (byte list option \<times> 's) run" where
  "NextNonEmpty Z s =
     (case zi_Next Z s of (r, s') \<Rightarrow> if r = Some [] then NextNonEmpty Z s' else ret (r, s'))"

definition Ci_Refresh :: "'s zero_copy_input \<Rightarrow> 's coded_input \<Rightarrow> (bool \<times> 's coded_input) run" where
  "Ci_Refresh Z c =
     (if ci_buffer_size_after_limit c > 0 \<or> ci_overflow_bytes c > 0 \<or>
         ci_total_bytes_read c = ci_current_limit c
      then ret (False, c)
      else
        (case ci_input c of
           None \<Rightarrow> Some (Inl NullDeref)
         | Some s \<Rightarrow>
             bind_run (NextNonEmpty Z s) (\<lambda>(r, s').
               case r of
                 None \<Rightarrow>
                   ret (False, c\<lparr>ci_input := Some s', ci_block := [], ci_buffer := 0, ci_buffer_end := 0\<rparr>)
               | Some data \<Rightarrow>
                   let n = int (length data);
                       c1 = c\<lparr>ci_input := Some s', ci_block := data, ci_buffer := 0, ci_buffer_end := n\<rparr>;
                       c2 = (if ci_total_bytes_read c \<le> INT_MAX - n
                             then c1\<lparr>ci_total_bytes_read := ci_total_bytes_read c + n\<rparr>
                             else
                               let over = ci_total_bytes_read c - (INT_MAX - n) in
                               c1\<lparr>ci_overflow_bytes := over, ci_buffer_end := n - over, ci_total_bytes_read := INT_MAX\<rparr>) in
                   ret (True, RecomputeBufferLimits c2))))"

definition CodedInputStream_empty :: "'s coded_input" where
  "CodedInputStream_empty =
     \<lparr>ci_block = [], ci_buffer = 0, ci_buffer_end = 0, ci_input = None, ci_total_bytes_read = 0,
      ci_overflow_bytes = 0, ci_last_tag = 0, ci_legitimate_message_end = False,
      ci_aliasing_enabled = False, ci_current_limit = INT_MAX, ci_buffer_size_after_limit = 0,
      ci_total_bytes_limit = kDefaultTotalBytesLimit, ci_recursion_budget = default_recursion_limit,
      ci_recursion_limit = default_recursion_limit\<rparr>"

definition CodedInputStream :: "'s zero_copy_input \<Rightarrow> 's \<Rightarrow> 's coded_input run" where
  "CodedInputStream Z s =
     bind_run (Ci_Refresh Z (CodedInputStream_empty\<lparr>ci_input := Some s\<rparr>)) (\<lambda>(_, c). ret c)"

definition CodedInputStream_array :: "byte list \<Rightarrow> 's coded_input" where
  "CodedInputStream_array buffer =
     (let n = int (length buffer) in
      CodedInputStream_empty\<lparr>ci_block := buffer, ci_buffer_end := n, ci_total_bytes_read := n,
        ci_current_limit := n\<rparr>)"

definition BackUpInputToCurrentPosition :: "'s zero_copy_input \<Rightarrow> 's \<Rightarrow> 's coded_input \<Rightarrow> ('s \<times> 's coded_input) res" where
  "BackUpInputToCurrentPosition Z s c =
     (let backup_bytes = BufferSize c + ci_buffer_size_after_limit c + ci_overflow_bytes c in
      if backup_bytes > 0 then
        bind_res (zi_BackUp Z backup_bytes s) (\<lambda>s'.
          Inr (s', c\<lparr>ci_input := Some s',
            ci_total_bytes_read := ci_total_bytes_read c - (BufferSize c + ci_buffer_size_after_limit c),
            ci_buffer_end := ci_buffer c, ci_buffer_size_after_limit := 0, ci_overflow_bytes := 0\<rparr>))
      else Inr (s, c))"

text \<open>The destructor; the state of the underlying stream afterwards.\<close>

definition CodedInputStream_destroy :: "'s zero_copy_input \<Rightarrow> 's coded_input \<Rightarrow> 's option res" where
  "CodedInputStream_destroy Z c =
     (case ci_input c of
        None \<Rightarrow> Inr None
      | Some s \<Rightarrow> bind_res (BackUpInputToCurrentPosition Z s c) (\<lambda>(s', _). Inr (Some s')))"

section \<open>Bytes\<close>

definition Ci_SkipFallback ::
    "'s zero_copy_input \<Rightarrow> int \<Rightarrow> int \<Rightarrow> 's coded_input \<Rightarrow> (bool \<times> 's coded_input) res" where
  "Ci_SkipFallback Z count original_buffer_size c =
     (if ci_buffer_size_after_limit c > 0 then Inr (False, Advance original_buffer_size c)
      else
        let count' = count - original_buffer_size;
            c1 = c\<lparr>ci_block := [], ci_buffer := 0, ci_buffer_end := 0\<rparr>;
            closest_limit = min (ci_current_limit c) (ci_total_bytes_limit c);
            bytes_until_limit = closest_limit - ci_total_bytes_read c in
        if bytes_until_limit < count' then
          (if bytes_until_limit > 0 then
             (case ci_input c1 of
                None \<Rightarrow> Inl NullDeref
              | Some s \<Rightarrow> bind_res (zi_Skip Z bytes_until_limit s) (\<lambda>(_, s').
                  Inr (False, c1\<lparr>ci_total_bytes_read := closest_limit, ci_input := Some s'\<rparr>)))
           else Inr (False, c1))
        else
          (case ci_input c1 of
             None \<Rightarrow> Inl NullDeref
           | Some s \<Rightarrow> bind_res (zi_Skip Z count' s) (\<lambda>(ok, s').
               if \<not> ok then Inr (False, c1\<lparr>ci_input := Some s', ci_total_bytes_read := zi_ByteCount Z s'\<rparr>)
               else Inr (True, c1\<lparr>ci_input := Some s', ci_total_bytes_read := ci_total_bytes_read c1 + count'\<rparr>))))"

definition Ci_Skip :: "'s zero_copy_input \<Rightarrow> int \<Rightarrow> 's coded_input \<Rightarrow> (bool \<times> 's coded_input) res" where
  "Ci_Skip Z count c =
     (if count < 0 then Inr (False, c)
      else if count \<le> BufferSize c then Inr (True, Advance count c)
      else Ci_SkipFallback Z count (BufferSize c) c)"

definition Ci_GetDirectBufferPointer ::
    "'s zero_copy_input \<Rightarrow> 's coded_input \<Rightarrow> ((int \<times> int) option \<times> 's coded_input) run" where
  "Ci_GetDirectBufferPointer Z c =
     (if BufferSize c = 0 then
        bind_run (Ci_Refresh Z c) (\<lambda>(ok, c1).
          ret (if ok then Some (ci_buffer c1, BufferSize c1) else None, c1))
      else ret (Some (ci_buffer c, BufferSize c), c))"

definition Ci_IsFlat :: "'s coded_input \<Rightarrow> bool" where
  "Ci_IsFlat c \<longleftrightarrow> ci_input c = None"

text \<open>The pointer, as an offset into the block, and the size.\<close>

definition Ci_GetDirectBufferPointerInline :: "'s coded_input \<Rightarrow> int \<times> int" where
  "Ci_GetDirectBufferPointerInline c = (ci_buffer c, ci_buffer_end c - ci_buffer c)"

text \<open>The loop of \<^verbatim>\<open>ReadRaw\<close> and of \<^verbatim>\<open>ReadStringFallback\<close>; \<open>acc\<close> is what was copied so far.\<close>

partial_function (option) Ci_read_loop ::
    "'s zero_copy_input \<Rightarrow> int \<Rightarrow> byte list \<Rightarrow> 's coded_input \<Rightarrow> (bool \<times> byte list \<times> 's coded_input) run" where
  "Ci_read_loop Z n acc c =
     (let k = BufferSize c in
      if k < n then
        bind_run (Some (copy_out k c)) (\<lambda>bs.
        bind_run (Ci_Refresh Z (Advance k c)) (\<lambda>(ok, c1).
          if \<not> ok then ret (False, acc @ bs, c1) else Ci_read_loop Z (n - k) (acc @ bs) c1))
      else bind_run (Some (copy_out n c)) (\<lambda>bs. ret (True, acc @ bs, Advance n c)))"

definition Ci_ReadRaw ::
    "'s zero_copy_input \<Rightarrow> int \<Rightarrow> 's coded_input \<Rightarrow> (bool \<times> byte list \<times> 's coded_input) run" where
  "Ci_ReadRaw Z n c = Ci_read_loop Z n [] c"

definition Ci_ReadStringFallback ::
    "'s zero_copy_input \<Rightarrow> int \<Rightarrow> 's coded_input \<Rightarrow> (bool \<times> byte list \<times> 's coded_input) run" where
  "Ci_ReadStringFallback Z n c = Ci_read_loop Z n [] c"

definition Ci_ReadString ::
    "'s zero_copy_input \<Rightarrow> int \<Rightarrow> byte list \<Rightarrow> 's coded_input \<Rightarrow> (bool \<times> byte list \<times> 's coded_input) run" where
  "Ci_ReadString Z n str c =
     (if n < 0 then ret (False, str, c)
      else if BufferSize c \<ge> n then bind_run (Some (copy_out n c)) (\<lambda>bs. ret (True, bs, Advance n c))
      else Ci_ReadStringFallback Z n c)"

text \<open>
  Fixed-width integers: \<^verbatim>\<open>memcpy\<close> on a little-endian machine, shifts elsewhere. The result
  of a failed read is \<open>None\<close>.
\<close>

definition ReadLittleEndian32FromArray :: "byte list \<Rightarrow> (nat \<times> uint32) res" where
  "ReadLittleEndian32FromArray p = bind_res (mem_read p 0 4) (\<lambda>bs. Inr (4, word_of_nat (le_value bs)))"

definition ReadLittleEndian32FromArray_portable :: "byte list \<Rightarrow> (nat \<times> uint32) res" where
  "ReadLittleEndian32FromArray_portable p =
     bind_res (mem_read p 0 4) (\<lambda>b. Inr (4, ucast (b ! 0) OR push_bit 8 (ucast (b ! 1)) OR
       push_bit 16 (ucast (b ! 2)) OR push_bit 24 (ucast (b ! 3))))"

definition ReadLittleEndian64FromArray :: "byte list \<Rightarrow> (nat \<times> uint64) res" where
  "ReadLittleEndian64FromArray p = bind_res (mem_read p 0 8) (\<lambda>bs. Inr (8, word_of_nat (le_value bs)))"

definition ReadLittleEndian64FromArray_portable :: "byte list \<Rightarrow> (nat \<times> uint64) res" where
  "ReadLittleEndian64FromArray_portable p =
     bind_res (mem_read p 0 8) (\<lambda>b.
       let part0 = ucast (b ! 0) OR push_bit 8 (ucast (b ! 1)) OR push_bit 16 (ucast (b ! 2)) OR
             push_bit 24 (ucast (b ! 3)) :: uint32;
           part1 = ucast (b ! 4) OR push_bit 8 (ucast (b ! 5)) OR push_bit 16 (ucast (b ! 6)) OR
             push_bit 24 (ucast (b ! 7)) :: uint32 in
       Inr (8, ucast part0 OR push_bit 32 (ucast part1)))"

definition Ci_ReadLittleEndian32Fallback ::
    "'s zero_copy_input \<Rightarrow> 's coded_input \<Rightarrow> (uint32 option \<times> 's coded_input) run" where
  "Ci_ReadLittleEndian32Fallback Z c =
     (if BufferSize c \<ge> 4 then
        bind_run (Some (bind_res (at_buffer c) ReadLittleEndian32FromArray)) (\<lambda>(_, v). ret (Some v, Advance 4 c))
      else
        bind_run (Ci_ReadRaw Z 4 c) (\<lambda>(ok, bs, c1).
          if \<not> ok then ret (None, c1)
          else bind_run (Some (ReadLittleEndian32FromArray bs)) (\<lambda>(_, v). ret (Some v, c1))))"

definition Ci_ReadLittleEndian32 ::
    "'s zero_copy_input \<Rightarrow> 's coded_input \<Rightarrow> (uint32 option \<times> 's coded_input) run" where
  "Ci_ReadLittleEndian32 Z c =
     (if BufferSize c \<ge> 4 then
        bind_run (Some (bind_res (at_buffer c) ReadLittleEndian32FromArray)) (\<lambda>(n, v). ret (Some v, Advance (int n) c))
      else Ci_ReadLittleEndian32Fallback Z c)"

definition Ci_ReadLittleEndian64Fallback ::
    "'s zero_copy_input \<Rightarrow> 's coded_input \<Rightarrow> (uint64 option \<times> 's coded_input) run" where
  "Ci_ReadLittleEndian64Fallback Z c =
     (if BufferSize c \<ge> 8 then
        bind_run (Some (bind_res (at_buffer c) ReadLittleEndian64FromArray)) (\<lambda>(_, v). ret (Some v, Advance 8 c))
      else
        bind_run (Ci_ReadRaw Z 8 c) (\<lambda>(ok, bs, c1).
          if \<not> ok then ret (None, c1)
          else bind_run (Some (ReadLittleEndian64FromArray bs)) (\<lambda>(_, v). ret (Some v, c1))))"

definition Ci_ReadLittleEndian64 ::
    "'s zero_copy_input \<Rightarrow> 's coded_input \<Rightarrow> (uint64 option \<times> 's coded_input) run" where
  "Ci_ReadLittleEndian64 Z c =
     (if BufferSize c \<ge> 8 then
        bind_run (Some (bind_res (at_buffer c) ReadLittleEndian64FromArray)) (\<lambda>(n, v). ret (Some v, Advance (int n) c))
      else Ci_ReadLittleEndian64Fallback Z c)"

section \<open>Variable-length integers in the buffer\<close>

text \<open>\<^verbatim>\<open>DecodeVarint64KnownSize<N>\<close>\<close>

definition DecodeVarint64KnownSize :: "nat \<Rightarrow> byte list \<Rightarrow> uint64 res" where
  "DecodeVarint64KnownSize n p =
     bind_res (mem_read p 0 (int n)) (\<lambda>bs.
       Inr (push_bit (7 * (n - 1)) (ucast (bs ! (n - 1))) +
         (\<Sum>i\<leftarrow>[0..<n - 1]. push_bit (7 * i) (ucast (bs ! i) - 0x80))))"

text \<open>The chain of tests of \<^verbatim>\<open>ReadVarint64FromArray\<close>, from the second byte to the tenth.\<close>

fun varint64_search :: "nat list \<Rightarrow> byte list \<Rightarrow> (nat \<times> uint64) option res" where
  "varint64_search [] p = Inr None"
| "varint64_search (i # is) p =
     bind_res (byte_at p i) (\<lambda>b.
       if b < 128 then bind_res (DecodeVarint64KnownSize (i + 1) p) (\<lambda>v. Inr (Some (i + 1, v)))
       else varint64_search is p)"

definition ReadVarint64FromArray :: "byte list \<Rightarrow> (nat \<times> uint64) option res" where
  "ReadVarint64FromArray p = varint64_search [1, 2, 3, 4, 5, 6, 7, 8, 9] p"

text \<open>
  \<^verbatim>\<open>ReadVarint32FromArray\<close>: four unrolled steps, then the bytes beyond 32 bits are read and
  dropped.
\<close>

fun varint32_high :: "nat \<Rightarrow> nat \<Rightarrow> byte list \<Rightarrow> uint32 \<Rightarrow> (nat \<times> uint32) option res" where
  "varint32_high 0 i p result = Inr None"
| "varint32_high (Suc n) i p result =
     bind_res (byte_at p i) (\<lambda>b.
       if b AND 0x80 = 0 then Inr (Some (i + 1, result)) else varint32_high n (i + 1) p result)"

fun varint32_low :: "nat \<Rightarrow> nat \<Rightarrow> byte list \<Rightarrow> uint32 \<Rightarrow> (nat \<times> uint32) option res" where
  "varint32_low 0 i p result = varint32_high (kMaxVarintBytes - kMaxVarint32Bytes) i p result"
| "varint32_low (Suc n) i p result =
     bind_res (byte_at p i) (\<lambda>b.
       let result1 = result + push_bit (7 * i) (ucast b) in
       if b AND 0x80 = 0 then Inr (Some (i + 1, result1))
       else varint32_low n (i + 1) p (if n = 0 then result1 else result1 - push_bit (7 * i) 0x80))"

definition ReadVarint32FromArray :: "uint32 \<Rightarrow> byte list \<Rightarrow> (nat \<times> uint32) option res" where
  "ReadVarint32FromArray first_byte p = varint32_low 4 1 p (first_byte - 0x80)"

text \<open>
  Are there ten bytes left, or does the buffer end with a byte that ends a number?
\<close>

definition varint_in_buffer :: "'s coded_input \<Rightarrow> bool res" where
  "varint_in_buffer c =
     (if BufferSize c \<ge> int kMaxVarintBytes then Inr True
      else if ci_buffer c < ci_buffer_end c then
        bind_res (last_byte c) (\<lambda>b. Inr (b AND 0x80 = 0))
      else Inr False)"

section \<open>Variable-length integers across buffers\<close>

text \<open>\<^verbatim>\<open>while (buffer_ == buffer_end_) if (!Refresh()) return false\<close>\<close>

partial_function (option) refresh_loop :: "'s zero_copy_input \<Rightarrow> 's coded_input \<Rightarrow> (bool \<times> 's coded_input) run" where
  "refresh_loop Z c =
     (if ci_buffer c = ci_buffer_end c then
        bind_run (Ci_Refresh Z c) (\<lambda>(ok, c1). if \<not> ok then ret (False, c1) else refresh_loop Z c1)
      else ret (True, c))"

text \<open>The outer loop; \<open>n\<close> is what \<^verbatim>\<open>count\<close> is short of the maximum.\<close>

fun varint64_slow_loop ::
    "'s zero_copy_input \<Rightarrow> nat \<Rightarrow> nat \<Rightarrow> uint64 \<Rightarrow> 's coded_input \<Rightarrow> (uint64 option \<times> 's coded_input) run" where
  "varint64_slow_loop Z 0 count result c = ret (None, c)"
| "varint64_slow_loop Z (Suc n) count result c =
     bind_run (refresh_loop Z c) (\<lambda>(ok, c1).
       if \<not> ok then ret (None, c1)
       else
         bind_run (Some (byte_here c1)) (\<lambda>b.
           let result1 = result OR push_bit (7 * count) (ucast (b AND 0x7F)); c2 = Advance 1 c1 in
           if b AND 0x80 \<noteq> 0 then varint64_slow_loop Z n (count + 1) result1 c2
           else ret (Some result1, c2)))"

definition Ci_ReadVarint64Slow :: "'s zero_copy_input \<Rightarrow> 's coded_input \<Rightarrow> (uint64 option \<times> 's coded_input) run" where
  "Ci_ReadVarint64Slow Z c = varint64_slow_loop Z kMaxVarintBytes 0 0 c"

text \<open>A failed read yields \<^verbatim>\<open>(0, false)\<close>: \<open>None\<close>.\<close>

definition Ci_ReadVarint64Fallback :: "'s zero_copy_input \<Rightarrow> 's coded_input \<Rightarrow> (uint64 option \<times> 's coded_input) run" where
  "Ci_ReadVarint64Fallback Z c =
     bind_run (Some (varint_in_buffer c)) (\<lambda>fast.
       if fast then
         bind_run (Some (bind_res (at_buffer c) ReadVarint64FromArray)) (\<lambda>r.
           ret (case r of None \<Rightarrow> (None, c) | Some (n, v) \<Rightarrow> (Some v, Advance (int n) c)))
       else Ci_ReadVarint64Slow Z c)"

definition Ci_ReadVarint64 :: "'s zero_copy_input \<Rightarrow> 's coded_input \<Rightarrow> (uint64 option \<times> 's coded_input) run" where
  "Ci_ReadVarint64 Z c =
     bind_run (Some (if ci_buffer c < ci_buffer_end c then bind_res (byte_here c) (\<lambda>b. Inr (Some b)) else Inr None))
       (\<lambda>b.
         case b of
           Some v \<Rightarrow>
             if v < 0x80 then ret (Some (ucast v), Advance 1 c) else Ci_ReadVarint64Fallback Z c
         | None \<Rightarrow> Ci_ReadVarint64Fallback Z c)"

definition Ci_ReadVarint32Slow :: "'s zero_copy_input \<Rightarrow> 's coded_input \<Rightarrow> (uint32 option \<times> 's coded_input) run" where
  "Ci_ReadVarint32Slow Z c =
     bind_run (Ci_ReadVarint64Fallback Z c) (\<lambda>(r, c1). ret (map_option ucast r, c1))"

definition Ci_ReadVarint32Fallback ::
    "'s zero_copy_input \<Rightarrow> uint32 \<Rightarrow> 's coded_input \<Rightarrow> (uint32 option \<times> 's coded_input) run" where
  "Ci_ReadVarint32Fallback Z first_byte_or_zero c =
     bind_run (Some (varint_in_buffer c)) (\<lambda>fast.
       if fast then
         bind_run (Some (bind_res (at_buffer c) (ReadVarint32FromArray first_byte_or_zero))) (\<lambda>r.
           ret (case r of None \<Rightarrow> (None, c) | Some (n, v) \<Rightarrow> (Some v, Advance (int n) c)))
       else Ci_ReadVarint32Slow Z c)"

text \<open>The first byte, or zero when the buffer is empty.\<close>

definition peek_byte :: "'s coded_input \<Rightarrow> uint32 res" where
  "peek_byte c =
     (if ci_buffer c < ci_buffer_end c then bind_res (byte_here c) (\<lambda>b. Inr (ucast b)) else Inr 0)"

definition Ci_ReadVarint32 :: "'s zero_copy_input \<Rightarrow> 's coded_input \<Rightarrow> (uint32 option \<times> 's coded_input) run" where
  "Ci_ReadVarint32 Z c =
     bind_run (Some (peek_byte c)) (\<lambda>v.
       if ci_buffer c < ci_buffer_end c \<and> v < 0x80 then ret (Some v, Advance 1 c)
       else Ci_ReadVarint32Fallback Z v c)"

definition Ci_ReadVarintSizeAsIntSlow :: "'s zero_copy_input \<Rightarrow> 's coded_input \<Rightarrow> (int \<times> 's coded_input) run" where
  "Ci_ReadVarintSizeAsIntSlow Z c =
     bind_run (Ci_ReadVarint64Fallback Z c) (\<lambda>(r, c1).
       ret (case r of None \<Rightarrow> - 1 | Some v \<Rightarrow> if uint v > INT_MAX then - 1 else uint v, c1))"

definition Ci_ReadVarintSizeAsIntFallback :: "'s zero_copy_input \<Rightarrow> 's coded_input \<Rightarrow> (int \<times> 's coded_input) run" where
  "Ci_ReadVarintSizeAsIntFallback Z c =
     bind_run (Some (varint_in_buffer c)) (\<lambda>fast.
       if fast then
         bind_run (Some (bind_res (at_buffer c) ReadVarint64FromArray)) (\<lambda>r.
           ret (case r of None \<Rightarrow> (- 1, c)
             | Some (n, v) \<Rightarrow> if uint v > INT_MAX then (- 1, c) else (uint v, Advance (int n) c)))
       else Ci_ReadVarintSizeAsIntSlow Z c)"

definition Ci_ReadVarintSizeAsInt :: "'s zero_copy_input \<Rightarrow> 's coded_input \<Rightarrow> (int option \<times> 's coded_input) run" where
  "Ci_ReadVarintSizeAsInt Z c =
     bind_run (Some (peek_byte c)) (\<lambda>v.
       if ci_buffer c < ci_buffer_end c \<and> v < 0x80 then ret (Some (uint v), Advance 1 c)
       else bind_run (Ci_ReadVarintSizeAsIntFallback Z c) (\<lambda>(r, c1). ret (if r \<ge> 0 then Some r else None, c1)))"

section \<open>Tags\<close>

definition Ci_ReadTagSlow :: "'s zero_copy_input \<Rightarrow> 's coded_input \<Rightarrow> (uint32 \<times> 's coded_input) run" where
  "Ci_ReadTagSlow Z c =
     bind_run (if ci_buffer c = ci_buffer_end c then Ci_Refresh Z c else ret (True, c)) (\<lambda>(ok, c1).
       if \<not> ok then
         let current_position = ci_total_bytes_read c1 - ci_buffer_size_after_limit c1 in
         ret (0, c1\<lparr>ci_legitimate_message_end :=
           (if current_position \<ge> ci_total_bytes_limit c1 then ci_current_limit c1 = ci_total_bytes_limit c1
            else True)\<rparr>)
       else
         bind_run (Ci_ReadVarint64 Z c1) (\<lambda>(r, c2).
           ret (case r of None \<Rightarrow> 0 | Some result \<Rightarrow> ucast result, c2)))"

definition Ci_ReadTagFallback :: "'s zero_copy_input \<Rightarrow> uint32 \<Rightarrow> 's coded_input \<Rightarrow> (uint32 \<times> 's coded_input) run" where
  "Ci_ReadTagFallback Z first_byte_or_zero c =
     bind_run (Some (varint_in_buffer c)) (\<lambda>fast.
       if fast then
         (if first_byte_or_zero = 0 then ret (0, Advance 1 c)
          else
            bind_run (Some (bind_res (at_buffer c) (ReadVarint32FromArray first_byte_or_zero))) (\<lambda>r.
              ret (case r of None \<Rightarrow> (0, c) | Some (n, tag) \<Rightarrow> (tag, Advance (int n) c))))
       else if BufferSize c = 0 \<and>
           (ci_buffer_size_after_limit c > 0 \<or> ci_total_bytes_read c = ci_current_limit c) \<and>
           ci_total_bytes_read c - ci_buffer_size_after_limit c < ci_total_bytes_limit c
         then ret (0, c\<lparr>ci_legitimate_message_end := True\<rparr>)
       else Ci_ReadTagSlow Z c)"

definition Ci_ReadTagNoLastTag :: "'s zero_copy_input \<Rightarrow> 's coded_input \<Rightarrow> (uint32 \<times> 's coded_input) run" where
  "Ci_ReadTagNoLastTag Z c =
     bind_run (Some (peek_byte c)) (\<lambda>v.
       if ci_buffer c < ci_buffer_end c \<and> v < 0x80 then ret (v, Advance 1 c)
       else Ci_ReadTagFallback Z v c)"

definition Ci_ReadTag :: "'s zero_copy_input \<Rightarrow> 's coded_input \<Rightarrow> (uint32 \<times> 's coded_input) run" where
  "Ci_ReadTag Z c = bind_run (Ci_ReadTagNoLastTag Z c) (\<lambda>(tag, c1). ret (tag, c1\<lparr>ci_last_tag := tag\<rparr>))"

definition Ci_ReadTagWithCutoffNoLastTag ::
    "'s zero_copy_input \<Rightarrow> uint32 \<Rightarrow> 's coded_input \<Rightarrow> ((uint32 \<times> bool) \<times> 's coded_input) run" where
  "Ci_ReadTagWithCutoffNoLastTag Z cutoff c =
     (let slow = (\<lambda>v. bind_run (Ci_ReadTagFallback Z v c) (\<lambda>(tag, c1). ret ((tag, tag - 1 < cutoff), c1))) in
      if ci_buffer c < ci_buffer_end c then
        bind_run (Some (bind_res (at_buffer c) (\<lambda>p. bind_res (byte_at p 0) (\<lambda>b0.
            if cutoff \<ge> 0x80 \<and> ci_buffer c + 1 < ci_buffer_end c
            then bind_res (byte_at p 1) (\<lambda>b1. Inr (b0, Some b1)) else Inr (b0, None)))))
          (\<lambda>(b0, b1).
            if 0 < b0 \<and> b0 < 0x80 then
              (let tag = ucast b0 in ret ((tag, cutoff \<ge> 0x7f \<or> tag \<le> cutoff), Advance 1 c))
            else
              (case b1 of
                 None \<Rightarrow> slow (ucast b0)
               | Some y \<Rightarrow>
                   if b0 AND NOT y \<ge> 0x80 then
                     let tag = 128 * ucast y + (ucast b0 - 0x80) in
                     ret ((tag, cutoff \<ge> 0x3fff \<or> tag \<le> cutoff), Advance 2 c)
                   else slow (ucast b0)))
      else slow 0)"

definition Ci_ReadTagWithCutoff ::
    "'s zero_copy_input \<Rightarrow> uint32 \<Rightarrow> 's coded_input \<Rightarrow> ((uint32 \<times> bool) \<times> 's coded_input) run" where
  "Ci_ReadTagWithCutoff Z cutoff c =
     bind_run (Ci_ReadTagWithCutoffNoLastTag Z cutoff c) (\<lambda>(r, c1). ret (r, c1\<lparr>ci_last_tag := fst r\<rparr>))"

definition Ci_LastTagWas :: "uint32 \<Rightarrow> 's coded_input \<Rightarrow> bool" where
  "Ci_LastTagWas expected c \<longleftrightarrow> ci_last_tag c = expected"

definition Ci_ConsumedEntireMessage :: "'s coded_input \<Rightarrow> bool" where
  "Ci_ConsumedEntireMessage c \<longleftrightarrow> ci_legitimate_message_end c"

definition ExpectTagFromArray :: "byte list \<Rightarrow> uint32 \<Rightarrow> nat option res" where
  "ExpectTagFromArray p expected =
     (if expected < 2 ^ 7 then
        bind_res (byte_at p 0) (\<lambda>b0. Inr (if ucast b0 = expected then Some 1 else None))
      else if expected < 2 ^ 14 then
        bind_res (byte_at p 0) (\<lambda>b0.
          if b0 = ucast (expected OR 0x80) then
            bind_res (byte_at p 1) (\<lambda>b1. Inr (if b1 = ucast (drop_bit 7 expected) then Some 2 else None))
          else Inr None)
      else Inr None)"

definition Ci_ExpectTag :: "uint32 \<Rightarrow> 's coded_input \<Rightarrow> (bool \<times> 's coded_input) res" where
  "Ci_ExpectTag expected c =
     (if expected < 2 ^ 7 then
        (if ci_buffer c < ci_buffer_end c then
           bind_res (byte_here c) (\<lambda>b0. Inr (if ucast b0 = expected then (True, Advance 1 c) else (False, c)))
         else Inr (False, c))
      else if expected < 2 ^ 14 then
        (if BufferSize c \<ge> 2 then
           bind_res (copy_out 2 c) (\<lambda>bs.
             Inr (if bs ! 0 = ucast (expected OR 0x80) \<and> bs ! 1 = ucast (drop_bit 7 expected)
                  then (True, Advance 2 c) else (False, c)))
         else Inr (False, c))
      else Inr (False, c))"

definition Ci_ExpectAtEnd :: "'s coded_input \<Rightarrow> bool \<times> 's coded_input" where
  "Ci_ExpectAtEnd c =
     (if ci_buffer c = ci_buffer_end c \<and>
         (ci_buffer_size_after_limit c \<noteq> 0 \<or> ci_total_bytes_read c = ci_current_limit c)
      then (True, c\<lparr>ci_last_tag := 0, ci_legitimate_message_end := True\<rparr>) else (False, c))"

section \<open>Recursion\<close>

definition SetRecursionLimit :: "int \<Rightarrow> 's coded_input \<Rightarrow> 's coded_input" where
  "SetRecursionLimit limit c =
     c\<lparr>ci_recursion_budget := ci_recursion_budget c + (limit - ci_recursion_limit c), ci_recursion_limit := limit\<rparr>"

definition IncrementRecursionDepth :: "'s coded_input \<Rightarrow> bool \<times> 's coded_input" where
  "IncrementRecursionDepth c =
     (let c1 = c\<lparr>ci_recursion_budget := ci_recursion_budget c - 1\<rparr> in (ci_recursion_budget c1 \<ge> 0, c1))"

definition DecrementRecursionDepth :: "'s coded_input \<Rightarrow> 's coded_input" where
  "DecrementRecursionDepth c =
     (if ci_recursion_budget c < ci_recursion_limit c
      then c\<lparr>ci_recursion_budget := ci_recursion_budget c + 1\<rparr> else c)"

definition UnsafeDecrementRecursionDepth :: "'s coded_input \<Rightarrow> 's coded_input" where
  "UnsafeDecrementRecursionDepth c = c\<lparr>ci_recursion_budget := ci_recursion_budget c + 1\<rparr>"

definition IncrementRecursionDepthAndPushLimit :: "int \<Rightarrow> 's coded_input \<Rightarrow> (int \<times> int) \<times> 's coded_input" where
  "IncrementRecursionDepthAndPushLimit byte_limit c =
     (case Ci_PushLimit byte_limit c of (old, c1) \<Rightarrow>
        let budget = ci_recursion_budget c1 - 1 in ((old, budget), c1\<lparr>ci_recursion_budget := budget\<rparr>))"

definition ReadLengthAndPushLimit :: "'s zero_copy_input \<Rightarrow> 's coded_input \<Rightarrow> (int \<times> 's coded_input) run" where
  "ReadLengthAndPushLimit Z c =
     bind_run (Ci_ReadVarint32 Z c) (\<lambda>(r, c1).
       ret (Ci_PushLimit (case r of None \<Rightarrow> 0 | Some n \<Rightarrow> sint n) c1))"

definition DecrementRecursionDepthAndPopLimit :: "int \<Rightarrow> 's coded_input \<Rightarrow> bool \<times> 's coded_input" where
  "DecrementRecursionDepthAndPopLimit limit c =
     (let result = Ci_ConsumedEntireMessage c; c1 = Ci_PopLimit limit c in
      (result, c1\<lparr>ci_recursion_budget := ci_recursion_budget c1 + 1\<rparr>))"

definition CheckEntireMessageConsumedAndPopLimit :: "int \<Rightarrow> 's coded_input \<Rightarrow> bool \<times> 's coded_input" where
  "CheckEntireMessageConsumedAndPopLimit limit c =
     (let result = Ci_ConsumedEntireMessage c in (result, Ci_PopLimit limit c))"

end
