(* ===== verification/Wire_Skip.thy ===== *)
theory Wire_Skip
  imports Coded_Input Unknown_Fields
begin

unbundle bit_operations_syntax

text \<open>
  The field skippers that read through a \<^verbatim>\<open>CodedInputStream\<close>:
  \<^verbatim>\<open>WireFormat::SkipField\<close> and \<^verbatim>\<open>SkipMessage\<close>, which keep what they skip in an
  \<^verbatim>\<open>UnknownFieldSet\<close> when they are given one (\<^verbatim>\<open>nullptr\<close> is \<open>None\<close>), their
  counterparts in \<^verbatim>\<open>WireFormatLite\<close>, which keep nothing, and the functions of
  \<^verbatim>\<open>UnknownFieldSet\<close> built on them. The first argument is fuel for the nested groups and
  for the fields of a message; no fuel left is the result \<open>None\<close>.
\<close>

text \<open>The set of fields of the group just added, and the set it was added to.\<close>

definition add_group :: "uint32 \<Rightarrow> fields option \<Rightarrow> fields option \<Rightarrow> fields option" where
  "add_group n u g = (case (u, g) of (Some fs, Some gs) \<Rightarrow> Some (AddGroup n gs fs) | _ \<Rightarrow> None)"

fun WF_SkipField :: "nat \<Rightarrow> 's zero_copy_input \<Rightarrow> uint32 \<Rightarrow> fields option \<Rightarrow> 's coded_input \<Rightarrow>
      (bool \<times> fields option \<times> 's coded_input) run"
  and WF_SkipMessage :: "nat \<Rightarrow> 's zero_copy_input \<Rightarrow> fields option \<Rightarrow> 's coded_input \<Rightarrow>
      (bool \<times> fields option \<times> 's coded_input) run"
where
  "WF_SkipField k Z tag u c =
     (let number = GetTagFieldNumber tag; n = word_of_int number in
      if number = 0 then ret (False, u, c)
      else
        (case GetTagWireType tag of
           Some WIRETYPE_VARINT \<Rightarrow>
             bind_run (Ci_ReadVarint64 Z c) (\<lambda>(r, c1).
               ret (case r of None \<Rightarrow> (False, u, c1) | Some v \<Rightarrow> (True, map_option (AddVarint n v) u, c1)))
         | Some WIRETYPE_FIXED64 \<Rightarrow>
             bind_run (Ci_ReadLittleEndian64 Z c) (\<lambda>(r, c1).
               ret (case r of None \<Rightarrow> (False, u, c1) | Some v \<Rightarrow> (True, map_option (AddFixed64 n v) u, c1)))
         | Some WIRETYPE_LENGTH_DELIMITED \<Rightarrow>
             bind_run (Ci_ReadVarint32 Z c) (\<lambda>(r, c1).
               case r of
                 None \<Rightarrow> ret (False, u, c1)
               | Some len \<Rightarrow>
                   (case u of
                      None \<Rightarrow> bind_run (Some (Ci_Skip Z (sint len) c1)) (\<lambda>(ok, c2). ret (ok, u, c2))
                    | Some fs \<Rightarrow>
                        bind_run (Ci_ReadString Z (sint len) [] c1) (\<lambda>(ok, str, c2).
                          ret (ok, Some (AddLengthDelimited n str fs), c2))))
         | Some WIRETYPE_START_GROUP \<Rightarrow>
             (case IncrementRecursionDepth c of
                (ok, c1) \<Rightarrow>
                  if \<not> ok then ret (False, u, c1)
                  else
                    (case k of
                       0 \<Rightarrow> None
                     | Suc k' \<Rightarrow>
                         bind_run (WF_SkipMessage k' Z (map_option (\<lambda>_. []) u) c1) (\<lambda>(ok, g, c2).
                           if \<not> ok then ret (False, add_group n u g, c2)
                           else
                             let c3 = DecrementRecursionDepth c2 in
                             ret (Ci_LastTagWas (MakeTag (GetTagFieldNumber tag) WIRETYPE_END_GROUP) c3,
                                  add_group n u g, c3))))
         | Some WIRETYPE_END_GROUP \<Rightarrow> ret (False, u, c)
         | Some WIRETYPE_FIXED32 \<Rightarrow>
             bind_run (Ci_ReadLittleEndian32 Z c) (\<lambda>(r, c1).
               ret (case r of None \<Rightarrow> (False, u, c1) | Some v \<Rightarrow> (True, map_option (AddFixed32 n v) u, c1)))
         | None \<Rightarrow> ret (False, u, c)))"
| "WF_SkipMessage 0 Z u c = None"
| "WF_SkipMessage (Suc k) Z u c =
     bind_run (Ci_ReadTag Z c) (\<lambda>(tag, c1).
       if tag = 0 then ret (True, u, c1)
       else if GetTagWireType tag = Some WIRETYPE_END_GROUP then ret (True, u, c1)
       else
         bind_run (WF_SkipField k Z tag u c1) (\<lambda>(ok, u1, c2).
           if \<not> ok then ret (False, u1, c2) else WF_SkipMessage k Z u1 c2))"

declare WF_SkipField.simps [simp del] WF_SkipMessage.simps [simp del]

text \<open>\<^verbatim>\<open>WireFormatLite\<close>\<close>

fun Lite_SkipField :: "nat \<Rightarrow> 's zero_copy_input \<Rightarrow> uint32 \<Rightarrow> 's coded_input \<Rightarrow> (bool \<times> 's coded_input) run"
  and Lite_SkipMessage :: "nat \<Rightarrow> 's zero_copy_input \<Rightarrow> 's coded_input \<Rightarrow> (bool \<times> 's coded_input) run"
where
  "Lite_SkipField k Z tag c =
     (if GetTagFieldNumber tag = 0 then ret (False, c)
      else
        (case GetTagWireType tag of
           Some WIRETYPE_VARINT \<Rightarrow> bind_run (Ci_ReadVarint64 Z c) (\<lambda>(r, c1). ret (r \<noteq> None, c1))
         | Some WIRETYPE_FIXED64 \<Rightarrow> bind_run (Ci_ReadLittleEndian64 Z c) (\<lambda>(r, c1). ret (r \<noteq> None, c1))
         | Some WIRETYPE_LENGTH_DELIMITED \<Rightarrow>
             bind_run (Ci_ReadVarint32 Z c) (\<lambda>(r, c1).
               case r of
                 None \<Rightarrow> ret (False, c1)
               | Some len \<Rightarrow> Some (Ci_Skip Z (sint len) c1))
         | Some WIRETYPE_START_GROUP \<Rightarrow>
             (case IncrementRecursionDepth c of
                (ok, c1) \<Rightarrow>
                  if \<not> ok then ret (False, c1)
                  else
                    (case k of
                       0 \<Rightarrow> None
                     | Suc k' \<Rightarrow>
                         bind_run (Lite_SkipMessage k' Z c1) (\<lambda>(ok, c2).
                           if \<not> ok then ret (False, c2)
                           else
                             let c3 = DecrementRecursionDepth c2 in
                             ret (Ci_LastTagWas (MakeTag (GetTagFieldNumber tag) WIRETYPE_END_GROUP) c3, c3))))
         | Some WIRETYPE_END_GROUP \<Rightarrow> ret (False, c)
         | Some WIRETYPE_FIXED32 \<Rightarrow> bind_run (Ci_ReadLittleEndian32 Z c) (\<lambda>(r, c1). ret (r \<noteq> None, c1))
         | None \<Rightarrow> ret (False, c)))"
| "Lite_SkipMessage 0 Z c = None"
| "Lite_SkipMessage (Suc k) Z c =
     bind_run (Ci_ReadTag Z c) (\<lambda>(tag, c1).
       if tag = 0 then ret (True, c1)
       else if GetTagWireType tag = Some WIRETYPE_END_GROUP then ret (True, c1)
       else
         bind_run (Lite_SkipField k Z tag c1) (\<lambda>(ok, c2).
           if \<not> ok then ret (False, c2) else Lite_SkipMessage k Z c2))"

declare Lite_SkipField.simps [simp del] Lite_SkipMessage.simps [simp del]

text \<open>The same skip, with nowhere to keep the fields.\<close>

lemma null_result:
  "bind_run m (\<lambda>(r, c1). ret (case r of None \<Rightarrow> (False, None, c1) | Some v \<Rightarrow> (True, map_option (f v) None, c1))) =
    bind_run (bind_run m (\<lambda>(r, c1). ret (\<exists>v. r = Some v, c1))) (\<lambda>(ok, c'). ret (ok, None, c'))"
  unfolding bind_run_assoc by (rule arg_cong [of _ _ "bind_run m"]) (auto split: option.split)

lemma bind_run_case_prod: "bind_run (case p of (x, y) \<Rightarrow> f x y) g = (case p of (x, y) \<Rightarrow> bind_run (f x y) g)"
  by (simp add: case_prod_beta)

lemma WF_Skip_null:
  "WF_SkipField k Z tag None c = bind_run (Lite_SkipField k Z tag c) (\<lambda>(ok, c'). ret (ok, None, c'))"
  "WF_SkipMessage k Z None c = bind_run (Lite_SkipMessage k Z c) (\<lambda>(ok, c'). ret (ok, None, c'))"
proof (induction k Z tag c and k Z c rule: Lite_SkipField_Lite_SkipMessage.induct)
  case (1 k Z tag c)
  show ?case
  proof (cases "GetTagFieldNumber tag = 0 \<or> GetTagWireType tag = None")
    case True
    then show ?thesis by (auto simp: WF_SkipField.simps Lite_SkipField.simps)
  next
    case False
    then obtain ty where ty: "GetTagFieldNumber tag \<noteq> 0" "GetTagWireType tag = Some ty" by auto
    note code = WF_SkipField.simps [of k Z tag None c] Lite_SkipField.simps [of k Z tag c]
    show ?thesis
    proof (cases ty)
      case WIRETYPE_LENGTH_DELIMITED
      show ?thesis
        using ty unfolding code WIRETYPE_LENGTH_DELIMITED
        by (simp add: bind_run_assoc Let_def)
          (intro arg_cong [of _ _ "bind_run _"] ext, auto split: option.split)
    next
      case WIRETYPE_START_GROUP
      then show ?thesis
        using ty 1 unfolding code WIRETYPE_START_GROUP
        by (auto simp: bind_run_assoc Let_def add_group_def split: nat.split prod.split
            intro!: arg_cong [of _ _ "bind_run _"])
    qed (use ty in \<open>simp_all add: code null_result\<close>)
  qed
next
  case (2 Z c)
  show ?case by (simp add: WF_SkipMessage.simps Lite_SkipMessage.simps)
next
  case (3 k Z c)
  show ?case
  proof (cases "Ci_ReadTag Z c")
    case (Some r)
    then show ?thesis
    proof (cases r)
      case (Inr p)
      obtain tag c1 where p: "p = (tag, c1)" by fastforce
      have e: "Ci_ReadTag Z c = ret (tag, c1)" using Some Inr p by (simp add: ret_def)
      show ?thesis
        using 3 unfolding WF_SkipMessage.simps Lite_SkipMessage.simps e
        by (auto simp: bind_run_assoc intro!: arg_cong [of _ _ "bind_run _"] split: prod.split)
    qed (simp add: WF_SkipMessage.simps Lite_SkipMessage.simps)
  qed (simp add: WF_SkipMessage.simps Lite_SkipMessage.simps)
qed

section \<open>\<^verbatim>\<open>UnknownFieldSet\<close>\<close>

definition MergeFromCodedStream :: "nat \<Rightarrow> 's zero_copy_input \<Rightarrow> fields \<Rightarrow> 's coded_input \<Rightarrow>
    (bool \<times> fields \<times> 's coded_input) run" where
  "MergeFromCodedStream k Z fs c =
     bind_run (WF_SkipMessage k Z (Some []) c) (\<lambda>(ok, other, c1).
       ret (case other of
           Some gs \<Rightarrow> if ok \<and> Ci_ConsumedEntireMessage c1 then (True, fst (MergeFromAndDestroy fs gs), c1) else (False, fs, c1)
         | None \<Rightarrow> (False, fs, c1)))"

definition ParseFromCodedStream :: "nat \<Rightarrow> 's zero_copy_input \<Rightarrow> fields \<Rightarrow> 's coded_input \<Rightarrow>
    (bool \<times> fields \<times> 's coded_input) run" where
  "ParseFromCodedStream k Z fs c = MergeFromCodedStream k Z (UnknownFieldSet_Clear fs) c"

text \<open>The reader is destroyed on return: the stream gets the unread bytes back.\<close>

definition Ufs_ParseFromZeroCopyStream :: "nat \<Rightarrow> 's zero_copy_input \<Rightarrow> fields \<Rightarrow> 's \<Rightarrow> (bool \<times> fields \<times> 's) run" where
  "Ufs_ParseFromZeroCopyStream k Z fs s =
     bind_run (CodedInputStream Z s) (\<lambda>c.
     bind_run (ParseFromCodedStream k Z fs c) (\<lambda>(ok, fs1, c1).
     bind_run (Some (CodedInputStream_destroy Z c1)) (\<lambda>s1.
       case s1 of
         None \<Rightarrow> Some (Inl NullDeref)
       | Some s' \<Rightarrow> ret (ok \<and> Ci_ConsumedEntireMessage c1, fs1, s'))))"

definition Ufs_ParseFromArray :: "nat \<Rightarrow> fields \<Rightarrow> byte list \<Rightarrow> (bool \<times> fields) run" where
  "Ufs_ParseFromArray k fs data =
     bind_run (Ufs_ParseFromZeroCopyStream k array_input_stream fs (ArrayInputStream data (- 1))) (\<lambda>(ok, fs1, _).
       ret (ok, fs1))"

end
