(* ===== verification/Coded_Varint.thy ===== *)
theory Coded_Varint
  imports Coded_Input
begin

unbundle bit_operations_syntax

text \<open>
  The readers of \<^verbatim>\<open>io/coded_stream.cc\<close> on bytes in memory compute the reference's
  \<open>varint_value\<close>: the unrolled and the table-driven decoders of variable-length integers, and
  the fixed-width loads.
\<close>

section \<open>Bytes that continue\<close>

text \<open>The contribution of the first \<open>i\<close> bytes when all of them have the continuation bit.\<close>

definition low_value :: "nat \<Rightarrow> byte list \<Rightarrow> nat" where
  "low_value i p = (\<Sum>j\<leftarrow>[0..<i]. 128 ^ j * (unat (p ! j) - 128))"

definition continues :: "nat \<Rightarrow> byte list \<Rightarrow> bool" where
  "continues i p \<longleftrightarrow> i \<le> length p \<and> list_all (\<lambda>b. \<not> b < 128) (take i p)"

lemma low_value_0 [simp]: "low_value 0 p = 0"
  by (simp add: low_value_def)

lemma low_value_Suc [simp]: "low_value (Suc i) p = low_value i p + 128 ^ i * (unat (p ! i) - 128)"
  by (simp add: low_value_def)

lemma continues_Suc: "continues (Suc i) p \<longleftrightarrow> continues i p \<and> i < length p \<and> \<not> p ! i < 128"
  by (auto simp: continues_def take_Suc_conv_app_nth)

lemma varint_value_continues:
  assumes "continues i p" and "i \<le> k"
  shows "varint_value k p = map_option (\<lambda>(n, v). (i + n, low_value i p + 128 ^ i * v)) (varint_value (k - i) (drop i p))"
  using assms
proof (induction i)
  case 0
  then show ?case by (cases "varint_value k p") auto
next
  case (Suc i)
  then have c: "continues i p" "i < length p" "\<not> p ! i < 128" "i \<le> k" by (simp_all add: continues_Suc)
  have d: "drop i p = p ! i # drop (Suc i) p" using c(2) by (simp add: Cons_nth_drop_Suc)
  have k: "k - i = Suc (k - Suc i)" using Suc.prems(2) by simp
  show ?case
    unfolding Suc.IH [OF c(1,4)] d k
    using c(3) by (cases "varint_value (k - Suc i) (drop (Suc i) p)") (auto simp: algebra_simps)
qed

lemma varint_value_stops:
  assumes "continues i p" and "i < k" and "i < length p" and "p ! i < 128"
  shows "varint_value k p = Some (Suc i, low_value i p + 128 ^ i * unat (p ! i))"
proof -
  have "drop i p = p ! i # drop (Suc i) p" using assms(3) by (simp add: Cons_nth_drop_Suc)
  with assms show ?thesis
    using varint_value_continues [of i p k] varint_value_1 [of "p ! i" "k - i" "drop (Suc i) p"] by simp
qed

lemma varint_value_never: "continues k p \<Longrightarrow> varint_value k p = None"
  using varint_value_continues [of k p k] by simp

text \<open>Enough bytes for ten, or a byte that ends the number.\<close>

definition ends_inside :: "byte list \<Rightarrow> bool" where
  "ends_inside p \<longleftrightarrow> 10 \<le> length p \<or> \<not> list_all (\<lambda>b. \<not> b < 128) p"

lemma ends_inside_next: "ends_inside p \<Longrightarrow> continues i p \<Longrightarrow> i < 10 \<Longrightarrow> i < length p"
  unfolding ends_inside_def continues_def by (metis leD le_less_trans linorder_le_less_linear nle_le take_all)

section \<open>The 64-bit decoder\<close>

lemma push_bit_word: "push_bit (7 * j) (word_of_nat v :: 'w::len word) = word_of_nat (128 ^ j * v)"
proof -
  have p: "(2 :: 'w word) ^ (7 * j) = word_of_nat (128 ^ j)" by (simp add: power_mult)
  show ?thesis unfolding push_bit_eq_mult p by (simp add: mult.commute)
qed

lemma byte_less_high: "\<not> (b :: byte) < 128 \<Longrightarrow> (ucast b :: 'w::len word) - 0x80 = word_of_nat (unat b - 128)"
  by (simp add: word_less_nat_alt of_nat_diff)

lemma DecodeVarint64_value:
  assumes "continues i p" and "i < length p"
  shows "DecodeVarint64KnownSize (i + 1) p = Inr (word_of_nat (low_value i p + 128 ^ i * unat (p ! i)))"
proof -
  have sum: "(\<Sum>j\<leftarrow>[0..<n]. push_bit (7 * j) (ucast (take (Suc i) p ! j) - 0x80)) = (word_of_nat (low_value n p) :: uint64)"
    if "continues n p" "n \<le> i" for n
    using that
  proof (induction n)
    case (Suc n)
    then have "\<not> p ! n < 128" "continues n p" by (simp_all add: continues_Suc)
    moreover have "push_bit (7 * n) (ucast (p ! n) - 0x80) = (word_of_nat (128 ^ n * (unat (p ! n) - 128)) :: uint64)"
      unfolding byte_less_high [OF \<open>\<not> p ! n < 128\<close>] by (rule push_bit_word)
    ultimately show ?case using Suc by simp
  qed simp
  have last: "push_bit (7 * i) (ucast (p ! i)) = (word_of_nat (128 ^ i * unat (p ! i)) :: uint64)"
    unfolding ucast_byte by (rule push_bit_word)
  have "mem_read p 0 (int (i + 1)) = Inr (take (Suc i) p)"
    using assms(2) by (simp add: mem_read_Inr window_def nat_add_distrib)
  then show ?thesis
    using sum [OF assms(1) order_refl] last by (simp add: DecodeVarint64KnownSize_def add.commute)
qed

lemma varint64_search_value:
  assumes "ends_inside p"
  shows "i \<le> 10 \<Longrightarrow> continues i p \<Longrightarrow> varint64_search [i..<10] p = Inr (varint_word (varint_value 10 p))"
proof (induction "10 - i" arbitrary: i)
  case 0
  then show ?case using varint_value_never [of 10 p] by (simp add: varint_word_def)
next
  case (Suc n)
  then have i: "i < 10" by simp
  have l: "i < length p" by (rule ends_inside_next [OF assms Suc.prems(2) i])
  have u: "[i..<10] = i # [Suc i..<10]" using i by (simp add: upt_conv_Cons)
  show ?case
  proof (cases "p ! i < 128")
    case True
    then show ?thesis
      unfolding u using l DecodeVarint64_value [OF Suc.prems(2) l] varint_value_stops [OF Suc.prems(2) i l True]
      by (simp add: byte_at_def varint_word_def)
  next
    case False
    then have "varint64_search [Suc i..<10] p = Inr (varint_word (varint_value 10 p))"
      using Suc l i by (intro Suc.hyps(1)) (auto simp: continues_Suc)
    then show ?thesis unfolding u using l False by (simp add: byte_at_def)
  qed
qed

lemma ReadVarint64FromArray_value:
  assumes "ends_inside p" and "continues 1 p"
  shows "ReadVarint64FromArray p = Inr (varint_word (varint_value 10 p))"
proof -
  have "[1, 2, 3, 4, 5, 6, 7, 8, 9] = [1..<10]" by (simp add: upt_rec)
  then show ?thesis
    using varint64_search_value [OF assms(1) _ assms(2)] by (simp add: ReadVarint64FromArray_def)
qed

section \<open>The 32-bit decoder\<close>

lemma byte_and_0x80: "(b :: byte) AND 0x80 = 0 \<longleftrightarrow> b < 128"
proof -
  have "b AND 2 ^ 7 = 0 \<longleftrightarrow> \<not> bit b 7" by (rule and_exp_eq_0_iff_not_bit)
  then show ?thesis by (simp add: bit7_byte)
qed

lemma high_bits_vanish:
  assumes "5 \<le> i"
  shows "(word_of_nat (V + 128 ^ i * v) :: uint32) = word_of_nat V"
  using wval_high [OF assms, of V "Some (0, v)"] by (simp add: wval_def)

lemma varint_word_stops:
  assumes "continues i p" and "i < 10" and "i < length p" and "p ! i < 128"
  shows "(varint_word (varint_value 10 p) :: (nat \<times> 'w::len word) option) =
    Some (Suc i, word_of_nat (low_value i p + 128 ^ i * unat (p ! i)))"
  using varint_value_stops [OF assms] by (simp add: varint_word_def)

lemma varint32_high_value:
  assumes "ends_inside p"
  shows "5 \<le> i \<Longrightarrow> i + n = 10 \<Longrightarrow> continues i p \<Longrightarrow>
    varint32_high n i p (word_of_nat (low_value i p)) = Inr (varint_word (varint_value 10 p))"
proof (induction n arbitrary: i)
  case 0
  then show ?case using varint_value_never [of 10 p] by (simp add: varint_word_def)
next
  case (Suc n)
  then have i: "i < 10" by simp
  have l: "i < length p" by (rule ends_inside_next [OF assms Suc.prems(3) i])
  show ?case
  proof (cases "p ! i < 128")
    case True
    then show ?thesis
      using l varint_word_stops [OF Suc.prems(3) i l True, where 'w = 32] high_bits_vanish [OF Suc.prems(1)]
      by (simp add: byte_at_def byte_and_0x80 del: of_nat_add)
  next
    case False
    then have "continues (Suc i) p" using Suc.prems l by (simp add: continues_Suc)
    moreover have "(word_of_nat (low_value (Suc i) p) :: uint32) = word_of_nat (low_value i p)"
      unfolding low_value_Suc by (rule high_bits_vanish [OF Suc.prems(1)])
    ultimately show ?thesis
      using Suc.IH [of "Suc i"] Suc.prems l False by (simp add: byte_at_def byte_and_0x80)
  qed
qed

lemma varint32_low_value:
  assumes "ends_inside p"
  shows "i + n = 5 \<Longrightarrow> continues i p \<Longrightarrow>
    varint32_low n i p (word_of_nat (low_value i p)) = Inr (varint_word (varint_value 10 p))"
proof (induction n arbitrary: i)
  case 0
  then show ?case
    using varint32_high_value [OF assms, of i 5] by (simp add: kMaxVarintBytes_def kMaxVarint32Bytes_def)
next
  case (Suc n)
  then have i: "i < 10" by simp
  have l: "i < length p" by (rule ends_inside_next [OF assms Suc.prems(2) i])
  let ?r = "word_of_nat (low_value i p + 128 ^ i * unat (p ! i)) :: uint32"
  have r: "word_of_nat (low_value i p) + push_bit (7 * i) (ucast (p ! i)) = ?r"
    unfolding ucast_byte push_bit_word by simp
  show ?case
  proof (cases "p ! i < 128")
    case True
    then show ?thesis
      using l varint_word_stops [OF Suc.prems(2) i l True, where 'w = 32] r
      by (simp add: byte_at_def byte_and_0x80 Let_def del: of_nat_add)
  next
    case False
    then have b: "unat (p ! i) = (unat (p ! i) - 128) + 128" by (simp add: word_less_nat_alt)
    have c: "continues (Suc i) p" using Suc.prems l False by (simp add: continues_Suc)
    have "?r - push_bit (7 * i) 0x80 = word_of_nat (low_value (Suc i) p)"
      using push_bit_word [of i 128, where 'w = 32] by (subst b) (simp add: algebra_simps)
    moreover have "?r = word_of_nat (low_value (Suc i) p)" if "n = 0"
    proof -
      have e: "low_value i p + 128 ^ i * unat (p ! i) = low_value (Suc i) p + 128 ^ Suc i * 1"
        by (subst b) (simp add: algebra_simps)
      show ?thesis unfolding e using that Suc.prems(1) by (intro high_bits_vanish) simp
    qed
    ultimately have "(if n = 0 then ?r else ?r - push_bit (7 * i) 0x80) = word_of_nat (low_value (Suc i) p)"
      by simp
    moreover have "varint32_low (Suc n) i p w = varint32_low n (Suc i) p
        (if n = 0 then w + push_bit (7 * i) (ucast (p ! i)) else w + push_bit (7 * i) (ucast (p ! i)) - push_bit (7 * i) 0x80)"
      for w using l False by (simp add: byte_at_def byte_and_0x80 Let_def)
    ultimately show ?thesis
      unfolding r using Suc.IH [of "Suc i"] Suc.prems(1) c by (simp only: r add_Suc add_Suc_right)
  qed
qed

lemma ReadVarint32FromArray_value:
  assumes "ends_inside p" and "continues 1 p"
  shows "ReadVarint32FromArray (ucast (p ! 0)) p = Inr (varint_word (varint_value 10 p))"
proof -
  have "\<not> p ! 0 < 128" using assms(2) continues_Suc [of 0 p] by simp
  then have "(ucast (p ! 0) :: uint32) - 0x80 = word_of_nat (low_value 1 p)"
    using byte_less_high [of "p ! 0", where 'w = 32] by simp
  then show ?thesis
    using varint32_low_value [OF assms(1) _ assms(2), of 4] by (simp add: ReadVarint32FromArray_def)
qed

section \<open>Fixed-width integers\<close>

lemma le_value_less: "le_value bs < 256 ^ length bs"
proof (induction bs)
  case (Cons b bs)
  then have "le_value bs + 1 \<le> 256 ^ length bs" by simp
  then have "256 * le_value bs + 256 \<le> 256 ^ length (b # bs)" by (simp only: length_Cons power_Suc)
  then show ?case using unat_less_256 [of b] by simp
qed simp

end
