(* ===== verification/Coded_Input_Spec.thy ===== *)
theory Coded_Input_Spec
  imports Coded_Varint
begin

unbundle bit_operations_syntax

text \<open>
  A \<^verbatim>\<open>CodedInputStream\<close> over any stream that keeps the contract \<open>zero_copy_stream\<close> is a
  cursor on a list of bytes: \<open>ci_ahead\<close> is everything the stream holds from the position on,
  \<open>ci_readable\<close> the part of it before the closest limit. Every read takes a prefix of the
  readable bytes, however they are split into blocks, and the destructor hands back to the stream
  exactly the bytes that were not read.
\<close>

section \<open>The abstraction\<close>

definition ci_closest :: "'s coded_input \<Rightarrow> int" where
  "ci_closest c = min (ci_current_limit c) (ci_total_bytes_limit c)"

text \<open>What the stream delivered and the reader has not consumed; the part of it in the block.\<close>

definition ci_inside :: "'s coded_input \<Rightarrow> int" where
  "ci_inside c = BufferSize c + ci_buffer_size_after_limit c"

definition ci_kept :: "'s coded_input \<Rightarrow> int" where
  "ci_kept c = ci_inside c + ci_overflow_bytes c"

definition ci_pending :: "('s \<Rightarrow> byte list) \<Rightarrow> 's coded_input \<Rightarrow> byte list" where
  "ci_pending chunk c =
     (case ci_input c of
        None \<Rightarrow> drop (nat (ci_buffer c)) (ci_block c)
      | Some s \<Rightarrow> drop (length (chunk s) - nat (ci_kept c)) (chunk s))"

definition ci_behind :: "('s \<Rightarrow> byte list) \<Rightarrow> 's coded_input \<Rightarrow> byte list" where
  "ci_behind rest c = (case ci_input c of None \<Rightarrow> [] | Some s \<Rightarrow> rest s)"

definition ci_ahead :: "('s \<Rightarrow> byte list) \<Rightarrow> ('s \<Rightarrow> byte list) \<Rightarrow> 's coded_input \<Rightarrow> byte list" where
  "ci_ahead rest chunk c = ci_pending chunk c @ ci_behind rest c"

definition ci_readable :: "('s \<Rightarrow> byte list) \<Rightarrow> ('s \<Rightarrow> byte list) \<Rightarrow> 's coded_input \<Rightarrow> byte list" where
  "ci_readable rest chunk c = take (nat (ci_closest c - CurrentPosition c)) (ci_ahead rest chunk c)"

definition ci_ok :: "('s \<Rightarrow> bool) \<Rightarrow> ('s \<Rightarrow> byte list) \<Rightarrow> 's coded_input \<Rightarrow> bool" where
  "ci_ok ok chunk c \<longleftrightarrow>
     0 \<le> ci_buffer c \<and> ci_buffer c \<le> ci_buffer_end c \<and>
     ci_buffer_end c + ci_buffer_size_after_limit c \<le> int (length (ci_block c)) \<and>
     ci_buffer_size_after_limit c = max 0 (ci_total_bytes_read c - ci_closest c) \<and>
     0 \<le> CurrentPosition c \<and> ci_total_bytes_read c \<le> INT_MAX \<and>
     ci_current_limit c \<le> INT_MAX \<and> ci_total_bytes_limit c \<le> INT_MAX \<and>
     0 \<le> ci_overflow_bytes c \<and> (0 < ci_overflow_bytes c \<longrightarrow> ci_total_bytes_read c = INT_MAX) \<and>
     int (length (ci_pending chunk c)) = ci_kept c \<and>
     window (nat (ci_buffer c)) (nat (ci_inside c)) (ci_block c) = take (nat (ci_inside c)) (ci_pending chunk c) \<and>
     (case ci_input c of
        None \<Rightarrow> ci_overflow_bytes c = 0 \<and> ci_current_limit c \<le> ci_total_bytes_read c
      | Some s \<Rightarrow> ok s)"

text \<open>What a read leaves alone.\<close>

definition ci_config :: "'s coded_input \<Rightarrow> int \<times> int \<times> int \<times> int \<times> bool \<times> bool" where
  "ci_config c = (ci_current_limit c, ci_total_bytes_limit c, ci_recursion_budget c, ci_recursion_limit c,
     ci_aliasing_enabled c, ci_input c = None)"

definition ci_marks :: "'s coded_input \<Rightarrow> uint32 \<times> bool" where
  "ci_marks c = (ci_last_tag c, ci_legitimate_message_end c)"

definition ci_reads ::
    "('s \<Rightarrow> bool) \<Rightarrow> ('s \<Rightarrow> byte list) \<Rightarrow> ('s \<Rightarrow> byte list) \<Rightarrow> nat \<Rightarrow> 's coded_input \<Rightarrow> 's coded_input \<Rightarrow> bool"
where
  "ci_reads ok rest chunk n c c' \<longleftrightarrow>
     ci_ok ok chunk c' \<and> ci_ahead rest chunk c' = drop n (ci_ahead rest chunk c) \<and>
     CurrentPosition c' = CurrentPosition c + int n \<and> ci_config c' = ci_config c"

lemmas ci_parts = ci_inside_def ci_kept_def BufferSize_def CurrentPosition_def

lemma ci_reads_refl: "ci_ok ok chunk c \<Longrightarrow> ci_reads ok rest chunk 0 c c"
  by (simp add: ci_reads_def)

lemma ci_reads_trans:
  "ci_reads ok rest chunk m c c1 \<Longrightarrow> ci_reads ok rest chunk n c1 c2 \<Longrightarrow> ci_reads ok rest chunk (m + n) c c2"
  by (auto simp: ci_reads_def add.commute)

lemma ci_reads_ok: "ci_reads ok rest chunk n c c' \<Longrightarrow> ci_ok ok chunk c'"
  by (simp add: ci_reads_def)

lemma ci_reads_readable:
  "ci_reads ok rest chunk n c c' \<Longrightarrow> ci_readable rest chunk c' = drop n (ci_readable rest chunk c)"
proof -
  assume r: "ci_reads ok rest chunk n c c'"
  have "ci_closest c' = ci_closest c" using r by (simp add: ci_reads_def ci_config_def ci_closest_def)
  moreover have "nat (i - (j + int n)) = nat (i - j) - n" for i j by linarith
  ultimately show ?thesis using r by (simp add: ci_reads_def ci_readable_def drop_take)
qed

text \<open>The readable bytes are the buffer, and what may follow from the stream when no limit is in the block.\<close>

definition ci_window :: "'s coded_input \<Rightarrow> byte list" where
  "ci_window c = window (nat (ci_buffer c)) (nat (BufferSize c)) (ci_block c)"

definition ci_later :: "('s \<Rightarrow> byte list) \<Rightarrow> 's coded_input \<Rightarrow> byte list" where
  "ci_later rest c =
     (if ci_buffer_size_after_limit c = 0 \<and> ci_overflow_bytes c = 0
      then take (nat (ci_closest c - ci_total_bytes_read c)) (ci_behind rest c) else [])"

lemma length_ci_window:
  "ci_ok ok chunk c \<Longrightarrow> length (ci_window c) = nat (BufferSize c)"
  unfolding ci_window_def by (rule length_window) (auto simp: ci_ok_def ci_parts)

lemma ci_window_pending:
  assumes "ci_ok ok chunk c"
  shows "ci_window c = take (nat (BufferSize c)) (ci_pending chunk c)"
proof -
  let ?i = "nat (ci_inside c)" and ?b = "nat (BufferSize c)"
  have le: "?b \<le> ?i" using assms by (auto simp: ci_ok_def ci_parts)
  have "ci_window c = take ?b (window (nat (ci_buffer c)) ?i (ci_block c))"
    using le by (simp add: ci_window_def window_def)
  also have "\<dots> = take ?b (take ?i (ci_pending chunk c))" using assms by (simp add: ci_ok_def)
  also have "\<dots> = take ?b (ci_pending chunk c)" using le by simp
  finally show ?thesis .
qed

lemma ci_readable_buffer:
  assumes "ci_ok ok chunk c"
  shows "ci_readable rest chunk c = ci_window c @ ci_later rest c"
proof -
  have len: "int (length (ci_pending chunk c)) = ci_kept c" using assms by (simp add: ci_ok_def)
  have b: "0 \<le> BufferSize c" using assms by (simp add: ci_ok_def BufferSize_def)
  show ?thesis
  proof (cases "ci_buffer_size_after_limit c = 0 \<and> ci_overflow_bytes c = 0")
    case True
    let ?d = "ci_closest c - ci_total_bytes_read c"
    have "0 \<le> ?d" using assms True by (auto simp: ci_ok_def)
    then have room: "nat (ci_closest c - CurrentPosition c) = nat (BufferSize c) + nat ?d"
      using True b by (simp add: CurrentPosition_def flip: nat_add_distrib)
    have "length (ci_pending chunk c) = nat (BufferSize c)" using len True by (simp add: ci_kept_def ci_inside_def)
    then show ?thesis
      using True by (simp add: ci_readable_def room ci_ahead_def ci_later_def ci_window_pending [OF assms])
  next
    case False
    then have room: "ci_closest c - CurrentPosition c = BufferSize c"
      using assms by (auto simp: ci_ok_def CurrentPosition_def max_def ci_closest_def split: if_splits)
    have "nat (BufferSize c) \<le> length (ci_pending chunk c)"
      using len assms by (auto simp: ci_ok_def ci_parts)
    then show ?thesis
      using False unfolding ci_readable_def room by (auto simp: ci_ahead_def ci_later_def ci_window_pending [OF assms])
  qed
qed

lemma buffer_nonempty:
  "ci_ok ok chunk c \<Longrightarrow> 0 < BufferSize c \<Longrightarrow> ci_readable rest chunk c \<noteq> []"
  using length_ci_window [of ok chunk c] by (auto simp: ci_readable_buffer)

section \<open>Moving on inside the buffer\<close>

lemma Advance_reads:
  assumes ok: "ci_ok ok chunk c" and n: "0 \<le> n" "n \<le> BufferSize c"
  shows "ci_reads ok rest chunk (nat n) c (Advance n c)" and "ci_marks (Advance n c) = ci_marks c"
proof -
  let ?c = "Advance n c"
  have f: "ci_buffer_end ?c = ci_buffer_end c" "ci_buffer_size_after_limit ?c = ci_buffer_size_after_limit c"
    "ci_overflow_bytes ?c = ci_overflow_bytes c" "ci_total_bytes_read ?c = ci_total_bytes_read c"
    "ci_closest ?c = ci_closest c" "ci_block ?c = ci_block c" "ci_input ?c = ci_input c"
    "ci_buffer ?c = ci_buffer c + n" "ci_current_limit ?c = ci_current_limit c"
    "ci_total_bytes_limit ?c = ci_total_bytes_limit c"
    by (simp_all add: Advance_def ci_closest_def)
  have sizes: "BufferSize ?c = BufferSize c - n" "ci_inside ?c = ci_inside c - n" "ci_kept ?c = ci_kept c - n"
    "CurrentPosition ?c = CurrentPosition c + n" by (simp_all add: ci_parts f)
  have len: "int (length (ci_pending chunk c)) = ci_kept c" and buf: "0 \<le> ci_buffer c"
    and win: "window (nat (ci_buffer c)) (nat (ci_inside c)) (ci_block c) = take (nat (ci_inside c)) (ci_pending chunk c)"
    using ok by (simp_all add: ci_ok_def)
  have ins: "BufferSize c \<le> ci_inside c" "ci_inside c \<le> ci_kept c" using ok by (auto simp: ci_ok_def ci_parts)
  have pend: "ci_pending chunk ?c = drop (nat n) (ci_pending chunk c)"
  proof (cases "ci_input c")
    case None
    then show ?thesis using n buf by (simp add: ci_pending_def f nat_add_distrib add.commute)
  next
    case (Some s)
    then have "nat (ci_kept c) \<le> length (chunk s)" using len by (auto simp: ci_pending_def)
    then show ?thesis using n ins Some by (simp add: ci_pending_def f sizes nat_diff_distrib' add.commute)
  qed
  have "window (nat (ci_buffer c + n)) (nat (ci_inside c - n)) (ci_block c) =
      drop (nat n) (window (nat (ci_buffer c)) (nat (ci_inside c)) (ci_block c))"
    unfolding drop_window using n buf ins by (simp add: nat_add_distrib nat_diff_distrib')
  also have "\<dots> = take (nat (ci_inside c - n)) (drop (nat n) (ci_pending chunk c))"
    unfolding win using n ins by (simp add: drop_take nat_diff_distrib')
  finally have win': "window (nat (ci_buffer c + n)) (nat (ci_inside c - n)) (ci_block c) =
      take (nat (ci_inside c - n)) (drop (nat n) (ci_pending chunk c))" .
  have "int (length (drop (nat n) (ci_pending chunk c))) = ci_kept c - n" using len n ins by simp
  then have "ci_ok ok chunk ?c"
    using ok n win' unfolding ci_ok_def f sizes pend by (auto simp: BufferSize_def split: option.splits)
  moreover have "nat n \<le> length (ci_pending chunk c)" using len n ins by simp
  moreover have "ci_config ?c = ci_config c" by (simp add: ci_config_def Advance_def)
  ultimately show "ci_reads ok rest chunk (nat n) c ?c"
    using n by (simp add: ci_reads_def ci_ahead_def pend sizes ci_behind_def f)
  show "ci_marks ?c = ci_marks c" by (simp add: ci_marks_def Advance_def)
qed

lemma copy_out_window:
  assumes "ci_ok ok chunk c" and "0 \<le> n" and "n \<le> BufferSize c"
  shows "copy_out n c = Inr (take (nat n) (ci_window c))"
  using assms by (auto simp: copy_out_def mem_read_def ci_ok_def ci_window_def window_def BufferSize_def min_def nat_mono)

lemma at_buffer_window:
  assumes "ci_ok ok chunk c"
  shows "\<exists>q. at_buffer c = Inr (ci_window c @ q)"
proof -
  have "drop (nat (ci_buffer c)) (ci_block c) = ci_window c @ drop (nat (ci_buffer c) + nat (BufferSize c)) (ci_block c)"
    unfolding ci_window_def by (rule drop_window_append)
  moreover have "at_buffer c = Inr (drop (nat (ci_buffer c)) (ci_block c))"
    using assms by (auto simp: at_buffer_def ci_ok_def)
  ultimately show ?thesis by auto
qed

lemma byte_here_window:
  "ci_ok ok chunk c \<Longrightarrow> 0 < BufferSize c \<Longrightarrow> byte_here c = Inr (ci_window c ! 0)"
  using at_buffer_window [of ok chunk c] length_ci_window [of ok chunk c]
  by (auto simp: byte_here_def byte_at_def nth_append)

section \<open>Limits\<close>

lemma RecomputeBufferLimits_ok:
  assumes ok: "ci_ok ok chunk c"
    and c1: "c1 = c\<lparr>ci_current_limit := l, ci_total_bytes_limit := t\<rparr>"
    and lt: "l \<le> INT_MAX" "t \<le> INT_MAX" "CurrentPosition c \<le> min l t" "ci_input c \<noteq> None \<or> l \<le> ci_total_bytes_read c"
  shows "ci_ok ok chunk (RecomputeBufferLimits c1)"
    and "ci_ahead rest chunk (RecomputeBufferLimits c1) = ci_ahead rest chunk c"
    and "CurrentPosition (RecomputeBufferLimits c1) = CurrentPosition c"
    and "ci_closest (RecomputeBufferLimits c1) = min l t"
proof -
  let ?c = "RecomputeBufferLimits c1" and ?e = "ci_buffer_end c + ci_buffer_size_after_limit c"
  let ?a = "max 0 (ci_total_bytes_read c - min l t)"
  have c: "?c = c\<lparr>ci_current_limit := l, ci_total_bytes_limit := t, ci_buffer_end := ?e - ?a, ci_buffer_size_after_limit := ?a\<rparr>"
    by (auto simp: RecomputeBufferLimits_def Let_def c1 max_def not_less)
  have f: "ci_block ?c = ci_block c" "ci_input ?c = ci_input c" "ci_buffer ?c = ci_buffer c"
    "ci_buffer_end ?c = ?e - ?a" "ci_buffer_size_after_limit ?c = ?a" "ci_overflow_bytes ?c = ci_overflow_bytes c"
    "ci_total_bytes_read ?c = ci_total_bytes_read c" "ci_current_limit ?c = l" "ci_total_bytes_limit ?c = t"
    by (simp_all add: c)
  have sizes: "ci_inside ?c = ci_inside c" "ci_kept ?c = ci_kept c" "CurrentPosition ?c = CurrentPosition c"
    by (simp_all add: ci_parts f)
  have pend: "ci_pending chunk ?c = ci_pending chunk c"
    by (simp add: ci_pending_def sizes f split: option.split)
  show "ci_closest ?c = min l t" by (simp add: ci_closest_def f)
  show "CurrentPosition ?c = CurrentPosition c" by (rule sizes(3))
  show "ci_ahead rest chunk ?c = ci_ahead rest chunk c"
    by (simp add: ci_ahead_def pend ci_behind_def f)
  have "ci_buffer c \<le> ?e - ?a"
    using ok lt(3) by (auto simp: ci_ok_def CurrentPosition_def BufferSize_def)
  then show "ci_ok ok chunk ?c"
    using ok lt unfolding ci_ok_def sizes pend \<open>ci_closest ?c = min l t\<close> f
    by (auto split: option.splits)
qed

section \<open>The next block\<close>

definition ci_budget :: "('s \<Rightarrow> nat) \<Rightarrow> 's coded_input \<Rightarrow> nat" where
  "ci_budget budget c = (case ci_input c of None \<Rightarrow> 0 | Some s \<Rightarrow> budget s)"

lemma room_nonneg: "ci_ok ok chunk c \<Longrightarrow> CurrentPosition c \<le> ci_closest c"
  by (auto simp: ci_ok_def CurrentPosition_def BufferSize_def)

lemma ci_config_limits:
  "ci_config c' = ci_config c \<Longrightarrow> ci_current_limit c' = ci_current_limit c \<and>
    ci_total_bytes_limit c' = ci_total_bytes_limit c \<and> ci_closest c' = ci_closest c"
  by (simp add: ci_config_def ci_closest_def)

text \<open>A block just taken from the stream, before the limits are applied to it.\<close>

lemma new_block_ok:
  assumes d: "chunk s = pre @ d" "ok s" and total: "0 \<le> t" "t \<le> INT_MAX"
    and over: "over = max 0 (t - (INT_MAX - int (length d)))" and fit: "int (length d) \<le> INT_MAX"
    and c: "ci_input c = Some s" "ci_block c = d" "ci_buffer c = 0" "ci_buffer_end c = int (length d) - over"
      "ci_buffer_size_after_limit c = 0" "ci_overflow_bytes c = over"
      "ci_total_bytes_read c = t + int (length d) - over" "ci_current_limit c = INT_MAX" "ci_total_bytes_limit c = INT_MAX"
  shows "ci_ok ok chunk c" and "ci_ahead rest chunk c = d @ rest s" and "CurrentPosition c = t"
proof -
  have sizes: "ci_kept c = int (length d)" "ci_inside c = int (length d) - over" "BufferSize c = int (length d) - over"
    "CurrentPosition c = t" "ci_closest c = INT_MAX"
    by (simp_all add: ci_parts ci_closest_def c)
  have pend: "ci_pending chunk c = d" by (simp add: ci_pending_def c d sizes)
  then show "ci_ahead rest chunk c = d @ rest s" by (simp add: ci_ahead_def ci_behind_def c)
  show "CurrentPosition c = t" by (rule sizes(4))
  have o: "0 \<le> over" "over \<le> int (length d)" "0 < over \<longrightarrow> t + int (length d) - over = INT_MAX"
    "t + int (length d) - over \<le> INT_MAX" using over total fit by auto
  then show "ci_ok ok chunk c"
    unfolding ci_ok_def sizes pend c by (simp add: window_def d total)
qed

context zero_copy_stream
begin

abbreviation "cok \<equiv> ci_ok ok chunk"
abbreviation "reads \<equiv> ci_reads ok rest chunk"
abbreviation "readable \<equiv> ci_readable rest chunk"
abbreviation "cbudget \<equiv> ci_budget budget"

lemma NextNonEmpty_result:
  "ok s \<Longrightarrow> \<exists>r s'. NextNonEmpty Z s = ret (r, s') \<and> ok s' \<and>
     (case r of
        None \<Rightarrow> rest s = [] \<and> rest s' = []
      | Some d \<Rightarrow> d \<noteq> [] \<and> rest s = d @ rest s' \<and> (\<exists>pre. chunk s' = pre @ d) \<and> budget s' < budget s \<and> int (length d) \<le> INT_MAX)"
proof (induction "budget s" arbitrary: s rule: less_induct)
  case less
  obtain r s1 where n: "zi_Next Z s = (r, s1)" by (metis surj_pair)
  note L = next_law [OF less.prems n]
  show ?case
  proof (cases "r = Some []")
    case True
    with L have b: "budget s1 < budget s" "ok s1" "rest s = rest s1" by auto
    have e: "NextNonEmpty Z s = NextNonEmpty Z s1" by (subst NextNonEmpty.simps) (simp add: n True)
    show ?thesis using less.hyps [OF b(1,2)] unfolding e b(3) using b(1) by (fastforce split: option.splits)
  next
    case False
    then have "NextNonEmpty Z s = ret (r, s1)" by (subst NextNonEmpty.simps) (simp add: n)
    with L False show ?thesis by (auto split: option.splits)
  qed
qed

text \<open>
  \<^verbatim>\<open>Refresh\<close> on an empty buffer reads nothing; if it fails there is nothing left to read. If
  it succeeds the buffer may still be empty, when the total limit is the one that was hit.
\<close>

lemma Refresh_at_limit:
  assumes ok: "cok c" and empty: "BufferSize c = 0"
    and stop: "ci_buffer_size_after_limit c > 0 \<or> ci_overflow_bytes c > 0 \<or> ci_total_bytes_read c = ci_current_limit c"
  shows "Ci_Refresh Z c = ret (False, c)" and "readable c = []"
proof -
  show "Ci_Refresh Z c = ret (False, c)" using stop by (simp add: Ci_Refresh_def)
  have "ci_window c = []" using length_ci_window [OF ok] empty by simp
  moreover have "ci_later rest c = []" using ok stop by (auto simp: ci_later_def ci_ok_def ci_closest_def)
  ultimately show "readable c = []" by (simp add: ci_readable_buffer [OF ok])
qed

lemma Refresh_new_block:
  assumes ok: "cok c" and empty: "BufferSize c = 0"
    and go: "ci_buffer_size_after_limit c = 0" "ci_overflow_bytes c = 0"
    and s: "ci_input c = Some s" "NextNonEmpty Z s = ret (Some d, s')"
    and s': "ok s'" "rest s = d @ rest s'" "chunk s' = pre @ d" "int (length d) \<le> INT_MAX"
    and more: "ci_total_bytes_read c \<noteq> ci_current_limit c"
  shows "\<exists>c'. Ci_Refresh Z c = ret (True, c') \<and> reads 0 c c' \<and> ci_marks c' = ci_marks c \<and> ci_input c' = Some s'"
proof -
  let ?t = "ci_total_bytes_read c" and ?n = "int (length d)"
  let ?over = "max 0 (?t - (INT_MAX - ?n))"
  let ?c2 = "c\<lparr>ci_input := Some s', ci_block := d, ci_buffer := 0, ci_buffer_end := ?n - ?over,
    ci_overflow_bytes := ?over, ci_total_bytes_read := ?t + ?n - ?over\<rparr>"
  let ?o = "?c2\<lparr>ci_current_limit := INT_MAX, ci_total_bytes_limit := INT_MAX\<rparr>"
  have t: "0 \<le> ?t" "?t \<le> INT_MAX" "CurrentPosition c = ?t" "?t \<le> ci_closest c"
    using ok empty go(1) by (auto simp: ci_ok_def CurrentPosition_def)
  note block = new_block_ok [where ok = ok and chunk = chunk and s = s' and d = d and t = ?t and over = ?over,
      OF s'(3,1) t(1,2) refl s'(4)]
  have o_ok: "cok ?o" "ci_ahead rest chunk ?o = d @ rest s'" "CurrentPosition ?o = ?t"
    using go(1) by (simp_all add: block)
  have c2: "?c2 = ?o\<lparr>ci_current_limit := ci_current_limit c, ci_total_bytes_limit := ci_total_bytes_limit c\<rparr>" by simp
  have lim: "ci_current_limit c \<le> INT_MAX" "ci_total_bytes_limit c \<le> INT_MAX"
    "CurrentPosition ?o \<le> min (ci_current_limit c) (ci_total_bytes_limit c)"
    using ok t(4) unfolding o_ok(3) by (auto simp: ci_ok_def ci_closest_def)
  have "ci_input ?o \<noteq> None \<or> ci_current_limit c \<le> ci_total_bytes_read ?o" by simp
  note r = RecomputeBufferLimits_ok [OF o_ok(1) c2 lim this]
  let ?c' = "RecomputeBufferLimits ?c2"
  have ahead: "ci_ahead rest chunk c = d @ rest s'"
    using ok empty go s s'(2) by (simp add: ci_ahead_def ci_behind_def ci_pending_def ci_ok_def ci_parts)
  have keep: "ci_config ?c' = ci_config c" "ci_marks ?c' = ci_marks c" "ci_input ?c' = Some s'"
    using s(1) by (simp_all add: RecomputeBufferLimits_def Let_def ci_config_def ci_marks_def)
  have "reads 0 c ?c'"
    unfolding ci_reads_def using r(1-3) o_ok(2,3) t(3) ahead keep(1) by simp
  moreover have "Ci_Refresh Z c = ret (True, ?c')"
    using s go more t(2) by (auto simp: Ci_Refresh_def Let_def max_def intro!: arg_cong [of _ _ RecomputeBufferLimits])
  ultimately show ?thesis using keep by blast
qed

lemma Refresh_result:
  assumes ok: "cok c" and empty: "BufferSize c = 0"
  shows "\<exists>b c'. Ci_Refresh Z c = ret (b, c') \<and> reads 0 c c' \<and> ci_marks c' = ci_marks c \<and>
    (b \<longrightarrow> cbudget c' < cbudget c \<and> (ci_current_limit c \<le> ci_total_bytes_limit c \<longrightarrow> readable c \<noteq> [])) \<and>
    (\<not> b \<longrightarrow> readable c = [] \<and> BufferSize c' = 0)"
proof (cases "ci_buffer_size_after_limit c > 0 \<or> ci_overflow_bytes c > 0 \<or> ci_total_bytes_read c = ci_current_limit c")
  case True
  then show ?thesis using Refresh_at_limit [OF ok empty True] ok empty by (auto simp: ci_reads_refl)
next
  case False
  then have go: "ci_buffer_size_after_limit c = 0" "ci_overflow_bytes c = 0"
    "ci_total_bytes_read c \<noteq> ci_current_limit c" using ok by (auto simp: ci_ok_def)
  then obtain s where s: "ci_input c = Some s" "ok s"
    using ok by (cases "ci_input c") (auto simp: ci_ok_def ci_closest_def)
  obtain r s' where n: "NextNonEmpty Z s = ret (r, s')" "ok s'"
      "case r of None \<Rightarrow> rest s = [] \<and> rest s' = []
       | Some d \<Rightarrow> d \<noteq> [] \<and> rest s = d @ rest s' \<and> (\<exists>pre. chunk s' = pre @ d) \<and> budget s' < budget s \<and> int (length d) \<le> INT_MAX"
    using NextNonEmpty_result [OF s(2)] by blast
  show ?thesis
  proof (cases r)
    case (Some d)
    have "readable c \<noteq> []" if "ci_current_limit c \<le> ci_total_bytes_limit c"
    proof -
      have "0 < ci_closest c - CurrentPosition c"
        using ok empty go that by (auto simp: ci_ok_def CurrentPosition_def ci_closest_def split: if_splits)
      moreover have "ci_ahead rest chunk c \<noteq> []" using n(3) Some s(1) by (simp add: ci_ahead_def ci_behind_def)
      ultimately show ?thesis by (simp add: ci_readable_def)
    qed
    then show ?thesis
      using Refresh_new_block [OF ok empty go(1,2) s(1) _ _ _ _ _ go(3)] n s(1) Some by (fastforce simp: ci_budget_def)
  next
    case None
    let ?c = "c\<lparr>ci_input := Some s', ci_block := [], ci_buffer := 0, ci_buffer_end := 0\<rparr>"
    have f: "BufferSize ?c = 0" "ci_inside ?c = 0" "ci_kept ?c = 0" "CurrentPosition ?c = CurrentPosition c"
      "ci_closest ?c = ci_closest c" "ci_pending chunk ?c = []"
      using empty go by (simp_all add: ci_parts ci_closest_def ci_pending_def)
    have empty_c: "ci_ahead rest chunk c = []"
      using ok empty go None n(3) s by (simp add: ci_ahead_def ci_behind_def ci_pending_def ci_ok_def ci_parts)
    have "cok ?c" unfolding ci_ok_def f using ok n(2) go by (simp add: ci_ok_def)
    then have "reads 0 c ?c"
      unfolding ci_reads_def using empty_c f n(3) None s by (simp add: ci_ahead_def ci_behind_def ci_config_def)
    moreover have "Ci_Refresh Z c = ret (False, ?c)" using False s n(1) None by (simp add: Ci_Refresh_def)
    moreover have "readable c = []" by (simp add: ci_readable_def empty_c)
    moreover have "ci_marks ?c = ci_marks c" by (simp add: ci_marks_def)
    ultimately show ?thesis using f(1) by blast
  qed
qed

lemma buffer_empty_iff: "cok c \<Longrightarrow> ci_buffer c = ci_buffer_end c \<longleftrightarrow> BufferSize c = 0"
  by (auto simp: BufferSize_def)

lemma refresh_loop_result:
  "cok c \<Longrightarrow> \<exists>b c'. refresh_loop Z c = ret (b, c') \<and> reads 0 c c' \<and> ci_marks c' = ci_marks c \<and>
     (if b then 0 < BufferSize c' else readable c = [])"
proof (induction "cbudget c" arbitrary: c rule: less_induct)
  case less
  show ?case
  proof (cases "BufferSize c = 0")
    case True
    obtain b c1 where r: "Ci_Refresh Z c = ret (b, c1)" "reads 0 c c1" "ci_marks c1 = ci_marks c"
        "b \<longrightarrow> cbudget c1 < cbudget c" "\<not> b \<longrightarrow> readable c = []"
      using Refresh_result [OF less.prems True] by blast
    have e: "refresh_loop Z c = (if b then refresh_loop Z c1 else ret (False, c1))"
      using True r(1) buffer_empty_iff [OF less.prems] by (subst refresh_loop.simps) simp
    show ?thesis
    proof (cases b)
      case True
      with r(4) less.hyps [of c1] ci_reads_ok [OF r(2)] obtain b' c' where h: "refresh_loop Z c1 = ret (b', c')"
          "reads 0 c1 c'" "ci_marks c' = ci_marks c1" "if b' then 0 < BufferSize c' else readable c1 = []" by blast
      have "readable c1 = readable c" using ci_reads_readable [OF r(2)] by simp
      with h True e r(3) ci_reads_trans [OF r(2) h(2)] show ?thesis by (simp split: if_splits)
    next
      case False
      with e r show ?thesis by (intro exI [of _ False]) simp
    qed
  next
    case False
    then have "0 < BufferSize c" using less.prems by (simp add: ci_ok_def BufferSize_def)
    moreover have "refresh_loop Z c = ret (True, c)"
      using False buffer_empty_iff [OF less.prems] by (subst refresh_loop.simps) simp
    ultimately show ?thesis using less.prems by (intro exI [of _ True]) (simp add: ci_reads_refl)
  qed
qed

section \<open>Bytes\<close>

lemma read_loop_result:
  "cok c \<Longrightarrow> 0 \<le> n \<Longrightarrow> \<exists>c'.
     Ci_read_loop Z n acc c = ret (n \<le> int (length (readable c)), acc @ take (nat n) (readable c), c') \<and>
     reads (min (nat n) (length (readable c))) c c' \<and> ci_marks c' = ci_marks c"
proof (induction "cbudget c" arbitrary: c n acc rule: less_induct)
  case less
  let ?k = "BufferSize c"
  have k: "0 \<le> ?k" using less.prems by (simp add: ci_ok_def BufferSize_def)
  note win = length_ci_window [OF less.prems(1)]
  note buf = ci_readable_buffer [OF less.prems(1), of rest]
  show ?case
  proof (cases "?k < n")
    case False
    then have "Ci_read_loop Z n acc c = ret (True, acc @ take (nat n) (readable c), Advance n c)"
      using less.prems copy_out_window [of ok chunk c n] win
      by (subst Ci_read_loop.simps) (simp add: Let_def buf)
    moreover have "nat n \<le> nat ?k" using False k less.prems(2) by simp
    ultimately show ?thesis
      using False Advance_reads(1) [OF less.prems, where rest = rest] Advance_reads(2) [OF less.prems] win k less.prems(2)
      by (simp add: buf min_def)
  next
    case True
    let ?c0 = "Advance ?k c"
    have A: "reads (nat ?k) c ?c0" "ci_marks ?c0 = ci_marks c" using Advance_reads [OF less.prems(1) k] by auto
    have b0: "BufferSize ?c0 = 0" "cbudget ?c0 = cbudget c"
      by (simp_all add: BufferSize_def Advance_def ci_budget_def)
    obtain b c1 where r: "Ci_Refresh Z ?c0 = ret (b, c1)" "reads 0 ?c0 c1" "ci_marks c1 = ci_marks ?c0"
        "b \<longrightarrow> cbudget c1 < cbudget c" "\<not> b \<longrightarrow> readable ?c0 = []"
      using Refresh_result [OF ci_reads_ok [OF A(1)] b0(1)] unfolding b0(2) by blast
    have rd: "readable c1 = drop (nat ?k) (readable c)"
      using ci_reads_readable [OF A(1)] ci_reads_readable [OF r(2)] by simp
    have r1: "reads (nat ?k) c c1" using ci_reads_trans [OF A(1) r(2)] by simp
    have kl: "nat ?k \<le> length (readable c)" and kw: "ci_window c = take (nat ?k) (readable c)" using win by (simp_all add: buf)
    have e: "Ci_read_loop Z n acc c =
        (if b then Ci_read_loop Z (n - ?k) (acc @ ci_window c) c1 else ret (False, acc @ ci_window c, c1))"
      using True r(1) copy_out_window [OF less.prems(1) k] win by (subst Ci_read_loop.simps) (simp add: Let_def)
    show ?thesis
    proof (cases b)
      case True
      obtain c' where h: "Ci_read_loop Z (n - ?k) (acc @ ci_window c) c1 =
            ret (n - ?k \<le> int (length (readable c1)), (acc @ ci_window c) @ take (nat (n - ?k)) (readable c1), c')"
          "reads (min (nat (n - ?k)) (length (readable c1))) c1 c'" "ci_marks c' = ci_marks c1"
        using less.hyps [of c1 "n - ?k" "acc @ ci_window c"] r(4) True \<open>?k < n\<close> ci_reads_ok [OF r(2)] by auto
      have n: "nat n = nat ?k + nat (n - ?k)" using \<open>?k < n\<close> k by simp
      have "min (nat n) (length (readable c)) = nat ?k + min (nat (n - ?k)) (length (readable c1))"
        using kl unfolding rd n by simp
      moreover have "ci_window c @ take (nat (n - ?k)) (readable c1) = take (nat n) (readable c)"
        unfolding kw rd n take_add by simp
      moreover have "n - ?k \<le> int (length (readable c1)) \<longleftrightarrow> n \<le> int (length (readable c))" using kl k unfolding rd by auto
      ultimately show ?thesis
        using ci_reads_trans [OF r1 h(2)] h(1,3) e True r(3) A(2) by simp
    next
      case False
      then have "readable c = ci_window c" using r(5) ci_reads_readable [OF A(1)] kw by simp
      moreover have "length (ci_window c) < nat n" using win \<open>?k < n\<close> k by simp
      moreover have "take (nat n) (ci_window c) = ci_window c" using calculation(2) by simp
      ultimately show ?thesis using False e r1 r(3) A(2) win k by simp
    qed
  qed
qed

end

end
