(* ===== verification/Coded_Input_Reads.thy ===== *)
theory Coded_Input_Reads
  imports Coded_Input_Spec
begin

unbundle bit_operations_syntax

text \<open>
  The operations of \<^verbatim>\<open>CodedInputStream\<close> on the list of readable bytes: bytes, integers,
  tags, limits, construction and destruction, over every stream that keeps the contract.
\<close>

section \<open>Variable-length integers\<close>

lemma or_shift:
  assumes "V < 128 ^ i"
  shows "(word_of_nat V :: uint64) OR push_bit (7 * i) (word_of_nat u) = word_of_nat (V + 128 ^ i * u)"
proof -
  have V: "V < 2 ^ (7 * i)" using assms by (simp add: power_mult)
  have "(word_of_nat V :: uint64) AND push_bit (7 * i) (word_of_nat u) = 0"
  proof (rule bit_word_eqI)
    fix j
    have "\<not> bit V j" if "7 * i \<le> j"
    proof -
      have "V < 2 ^ j" using V that power_increasing [of "7 * i" j "2 :: nat"] by linarith
      then show ?thesis by (simp add: bit_iff_odd)
    qed
    then show "bit ((word_of_nat V :: uint64) AND push_bit (7 * i) (word_of_nat u)) j \<longleftrightarrow> bit (0 :: uint64) j"
      by (auto simp: bit_simps)
  qed
  then show ?thesis by (simp only: disjunctive_add_eq_or [symmetric] push_bit_word of_nat_add)
qed

lemma byte_and_0x7F: "(ucast ((b :: byte) AND 0x7F) :: uint64) = word_of_nat (unat b mod 128)"
proof -
  have "b AND 0x7F = take_bit 7 b" by (simp add: take_bit_eq_mask mask_eq_exp_minus_1)
  then have "unat (b AND 0x7F) = unat b mod 128" by (simp only: unsigned_take_bit_eq) (simp add: take_bit_eq_mod)
  then show ?thesis by (metis ucast_byte)
qed

lemma byte_and_0x80_not: "(b :: byte) AND 0x80 \<noteq> 0 \<longleftrightarrow> \<not> b < 128"
  by (simp add: byte_and_0x80)

definition takes :: "(nat \<times> nat) option \<Rightarrow> nat \<Rightarrow> bool" where
  "takes d n \<longleftrightarrow> (case d of None \<Rightarrow> True | Some (m, v) \<Rightarrow> n = m)"

lemma takes_simps [simp]: "takes None n" "takes (Some (m, v)) n \<longleftrightarrow> n = m"
  by (simp_all add: takes_def)

definition value_of :: "(nat \<times> nat) option \<Rightarrow> 'w::len word option" where
  "value_of d = map_option (\<lambda>(n, v). word_of_nat v) d"

lemma value_of_word: "map_option snd (varint_word d) = value_of d"
  by (cases d) (auto simp: value_of_def varint_word_def)

lemma value_of_simps [simp]: "value_of None = None" "value_of (Some (n, v)) = Some (word_of_nat v)"
  by (simp_all add: value_of_def)

lemma ends_inside_append: "ends_inside w \<Longrightarrow> ends_inside (w @ q)"
  by (auto simp: ends_inside_def)

text \<open>A number that ends in a prefix is decoded alike whatever follows.\<close>

lemma ends_inside_value:
  assumes "ends_inside w"
  shows "varint_value 10 (w @ q) = varint_value 10 w"
proof (cases "varint_value 10 w")
  case (Some r)
  then show ?thesis using varint_value_more [OF Some] by simp
next
  case None
  have "continues i w" if "i \<le> 10" for i
    using that
  proof (induction i)
    case 0
    then show ?case by (simp add: continues_def)
  next
    case (Suc i)
    then have l: "i < length w" using ends_inside_next [OF assms, of i] by simp
    show ?case
      using Suc l varint_value_stops [of i w 10] None by (auto simp: continues_Suc)
  qed
  from this [of 10] have "continues 10 (w @ q)" by (auto simp: continues_def)
  then show ?thesis using None varint_value_never by metis
qed

lemma varint_value_1_byte: "w \<noteq> [] \<Longrightarrow> hd w < 128 \<Longrightarrow> varint_value 10 (w @ q) = Some (1, unat (hd w))"
  by (cases w) (simp_all add: varint_value_1)

lemma takes_length: "takes d n \<Longrightarrow> d = varint_value k bs \<Longrightarrow> d \<noteq> None \<Longrightarrow> n \<le> length bs"
  using varint_value_bound [of k bs] by (auto simp: takes_def)

lemma first_continues: "w \<noteq> [] \<Longrightarrow> \<not> hd w < 128 \<Longrightarrow> continues 1 (w @ q)"
  by (cases w) (simp_all add: continues_def)

definition tag_of :: "(nat \<times> nat) option \<Rightarrow> uint32" where
  "tag_of d = (case d of None \<Rightarrow> 0 | Some (n, v) \<Rightarrow> word_of_nat v)"

text \<open>What a reader of a number promises, for a result \<open>r\<close> computed from the reference's.\<close>

definition ci_number ::
    "('s \<Rightarrow> bool) \<Rightarrow> ('s \<Rightarrow> byte list) \<Rightarrow> ('s \<Rightarrow> byte list) \<Rightarrow> 's coded_input \<Rightarrow> ('a \<times> 's coded_input) run \<Rightarrow> 'a \<Rightarrow> bool"
where
  "ci_number ok rest chunk c m r \<longleftrightarrow>
     (\<exists>n c'. m = ret (r, c') \<and> ci_reads ok rest chunk n c c' \<and> ci_marks c' = ci_marks c \<and>
        takes (varint_value 10 (ci_readable rest chunk c)) n)"

context zero_copy_stream
begin

abbreviation "number_read \<equiv> ci_number ok rest chunk"

lemma varint_in_buffer_result:
  assumes ok: "cok c"
  shows "\<exists>b. varint_in_buffer c = Inr b \<and> (b \<longrightarrow> 0 < BufferSize c \<and> ends_inside (ci_window c))"
proof (cases "BufferSize c \<ge> 10")
  case True
  then have "10 \<le> nat (BufferSize c)" by linarith
  with True show ?thesis
    using length_ci_window [OF ok] by (intro exI [of _ True]) (simp add: varint_in_buffer_def kMaxVarintBytes_def ends_inside_def)
next
  case False
  show ?thesis
  proof (cases "ci_buffer c < ci_buffer_end c")
    case True
    let ?i = "nat (BufferSize c - 1)" and ?b = "ci_block c ! nat (ci_buffer_end c - 1)"
    have b: "0 \<le> ci_buffer c" "ci_buffer_end c \<le> int (length (ci_block c))" using ok by (auto simp: ci_ok_def)
    have last: "last_byte c = Inr ?b" using True b by (auto simp: last_byte_def byte_at_def)
    have i: "?i < length (ci_window c)" "nat (ci_buffer_end c - 1) = nat (ci_buffer c) + ?i"
      using length_ci_window [OF ok] True b by (auto simp: BufferSize_def)
    then have "ci_window c ! ?i = ?b" using b by (simp add: ci_window_def window_def)
    then have "?b < 128 \<Longrightarrow> ends_inside (ci_window c)"
      using i(1) unfolding ends_inside_def by (metis list_all_length)
    then show ?thesis
      using True False last by (auto simp: varint_in_buffer_def kMaxVarintBytes_def byte_and_0x80 BufferSize_def)
  next
    case f: False
    with False show ?thesis by (intro exI [of _ False]) (simp add: varint_in_buffer_def kMaxVarintBytes_def)
  qed
qed

text \<open>The slow loop; the bytes seen so far have the value \<open>V\<close>.\<close>

lemma varint64_slow_result:
  "cok c \<Longrightarrow> V < 128 ^ i \<Longrightarrow> \<exists>m c'.
     varint64_slow_loop Z n i (word_of_nat V) c =
       ret (value_of (map_option (\<lambda>(m, v). (m, V + 128 ^ i * v)) (varint_value n (readable c))), c') \<and>
     reads m c c' \<and> ci_marks c' = ci_marks c \<and> takes (varint_value n (readable c)) m"
proof (induction n arbitrary: i V c)
  case 0
  then show ?case using ci_reads_refl by fastforce
next
  case (Suc n)
  obtain b c1 where r: "refresh_loop Z c = ret (b, c1)" "reads 0 c c1" "ci_marks c1 = ci_marks c"
      "if b then 0 < BufferSize c1 else readable c = []"
    using refresh_loop_result [OF Suc.prems(1)] by blast
  have rd: "readable c1 = readable c" using ci_reads_readable [OF r(2)] by simp
  show ?case
  proof (cases b)
    case False
    with r show ?thesis by (intro exI [of _ 0] exI [of _ c1]) simp
  next
    case True
    with r(4) have pos: "0 < BufferSize c1" by simp
    note ok1 = ci_reads_ok [OF r(2)]
    let ?b = "ci_window c1 ! 0" and ?c2 = "Advance 1 c1"
    obtain w where w: "readable c = ?b # w"
      using length_ci_window [OF ok1] pos ci_readable_buffer [OF ok1, of rest] rd by (cases "ci_window c1") auto
    have A: "reads 1 c ?c2" "ci_marks ?c2 = ci_marks c"
      using Advance_reads(1) [OF ok1, of 1 rest] Advance_reads(2) [OF ok1, of 1] pos ci_reads_trans [OF r(2)] r(3) by auto
    have rd2: "readable ?c2 = w" using ci_reads_readable [OF A(1)] w by simp
    let ?V = "V + 128 ^ i * (unat ?b mod 128)"
    have step: "varint64_slow_loop Z (Suc n) i (word_of_nat V) c =
        (if ?b < 128 then ret (Some (word_of_nat ?V), ?c2) else varint64_slow_loop Z n (i + 1) (word_of_nat ?V) ?c2)"
      using r(1) True byte_here_window [OF ok1 pos] or_shift [OF Suc.prems(2), of "unat ?b mod 128"]
      by (simp add: Let_def byte_and_0x7F byte_and_0x80_not del: of_nat_add of_nat_mult)
    show ?thesis
    proof (cases "?b < 128")
      case True
      then have "unat ?b mod 128 = unat ?b" by (simp add: word_less_nat_alt)
      then show ?thesis
        using step True A by (intro exI [of _ 1] exI [of _ ?c2]) (simp add: w del: of_nat_add of_nat_mult)
    next
      case False
      have m: "unat ?b mod 128 = unat ?b - 128"
        using False unat_less_256 [of ?b] by (simp add: word_less_nat_alt mod_if)
      have "V + 128 ^ i * (unat ?b - 128) < 128 ^ (i + 1)"
      proof -
        have "unat ?b - 128 \<le> 127" using unat_less_256 [of ?b] by simp
        then have "128 ^ i * (unat ?b - 128) \<le> 128 ^ i * 127" by (rule mult_le_mono2)
        with Suc.prems(2) show ?thesis unfolding power_add power_one_right by linarith
      qed
      then obtain k c' where h: "varint64_slow_loop Z n (i + 1) (word_of_nat ?V) ?c2 =
            ret (value_of (map_option (\<lambda>(m, v). (m, ?V + 128 ^ (i + 1) * v)) (varint_value n w)), c')"
          "reads k ?c2 c'" "ci_marks c' = ci_marks ?c2" "takes (varint_value n w) k"
        using Suc.IH [OF ci_reads_ok [OF A(1)], of "V + 128 ^ i * (unat ?b - 128)" "i + 1"] unfolding rd2 m by blast
      have e: "?V + 128 ^ (i + 1) * v = V + 128 ^ i * (unat ?b - 128 + 128 * v)" for v
        unfolding m by (simp add: algebra_simps)
      show ?thesis
        using False step h(1,3,4) A(2) ci_reads_trans [OF A(1) h(2)] unfolding e w
        by (intro exI [of _ "1 + k"] exI [of _ c'])
          (cases "varint_value n w", auto simp: value_of_def simp del: of_nat_add of_nat_mult)
    qed
  qed
qed

text \<open>The fast path, from an array; the first byte is not the last one.\<close>

lemma fast_value:
  assumes ok: "cok c" and w: "ends_inside (ci_window c)" "0 < BufferSize c" and big: "\<not> ci_window c ! 0 < 128"
  shows "bind_res (at_buffer c) ReadVarint64FromArray = Inr (varint_word (varint_value 10 (readable c)))"
    and "bind_res (at_buffer c) (ReadVarint32FromArray (ucast (ci_window c ! 0))) =
      Inr (varint_word (varint_value 10 (readable c)))"
proof -
  obtain q where q: "at_buffer c = Inr (ci_window c @ q)" using at_buffer_window [OF ok] by blast
  have ne: "ci_window c \<noteq> []" using length_ci_window [OF ok] w(2) by auto
  then have c1: "continues 1 (ci_window c @ q)" using big first_continues [of "ci_window c" q] by (simp add: hd_conv_nth)
  have v: "varint_value 10 (ci_window c @ q) = varint_value 10 (readable c)"
    using ends_inside_value [OF w(1)] ci_readable_buffer [OF ok, of rest] by simp
  note e = ends_inside_append [OF w(1), of q]
  show "bind_res (at_buffer c) ReadVarint64FromArray = Inr (varint_word (varint_value 10 (readable c)))"
    using ReadVarint64FromArray_value [OF e c1] by (simp add: q v)
  show "bind_res (at_buffer c) (ReadVarint32FromArray (ucast (ci_window c ! 0))) =
      Inr (varint_word (varint_value 10 (readable c)))"
    using ReadVarint32FromArray_value [OF e c1] ne by (simp add: q v nth_append)
qed

lemma fast_length:
  assumes ok: "cok c" and w: "ends_inside (ci_window c)" and v: "varint_value 10 (readable c) = Some (n, v)"
  shows "int n \<le> BufferSize c"
proof -
  have "varint_value 10 (ci_window c) = Some (n, v)"
    using v ends_inside_value [OF w] ci_readable_buffer [OF ok, of rest] by simp
  then have "n \<le> length (ci_window c)" using varint_value_bound by blast
  moreover have "0 \<le> BufferSize c" using ok by (simp add: ci_ok_def BufferSize_def)
  ultimately show ?thesis using length_ci_window [OF ok] by simp
qed

lemma number_readI:
  "m = ret (r, c') \<Longrightarrow> reads n c c' \<Longrightarrow> ci_marks c' = ci_marks c \<Longrightarrow> takes (varint_value 10 (readable c)) n \<Longrightarrow>
    number_read c m r"
  unfolding ci_number_def by blast

lemma number_read_map:
  assumes "number_read c m r" and "\<And>c'. f (r, c') = ret (g r, c')"
  shows "number_read c (bind_run m f) (g r)"
proof -
  obtain n c' where "m = ret (r, c')" "reads n c c'" "ci_marks c' = ci_marks c" "takes (varint_value 10 (readable c)) n"
    using assms(1) unfolding ci_number_def by blast
  then show ?thesis using assms(2) by (intro number_readI [of _ _ c' n]) simp_all
qed

lemma fast_advance:
  assumes ok: "cok c" and w: "ends_inside (ci_window c)"
  shows "number_read c (ret (case varint_word (varint_value 10 (readable c)) of None \<Rightarrow> (None, c)
      | Some (n, v) \<Rightarrow> (Some v, Advance (int n) c))) (value_of (varint_value 10 (readable c)))"
proof (cases "varint_value 10 (readable c)")
  case None
  then show ?thesis using ci_reads_refl [OF ok] by (intro number_readI [of _ _ c 0]) (simp_all add: varint_word_def)
next
  case (Some r)
  obtain n v where r: "r = (n, v)" by fastforce
  have n: "int n \<le> BufferSize c" using fast_length [OF ok w] Some r by simp
  show ?thesis
    using Some r Advance_reads(1) [OF ok _ n, of rest] Advance_reads(2) [OF ok _ n]
    by (intro number_readI [of _ _ "Advance (int n) c" n]) (simp_all add: varint_word_def)
qed

lemma one_byte:
  assumes ok: "cok c" and pos: "0 < BufferSize c" and small: "ci_window c ! 0 < 128"
  shows "varint_value 10 (readable c) = Some (1, unat (ci_window c ! 0))"
    and "number_read c (ret (r, Advance 1 c)) r"
proof -
  have ne: "ci_window c \<noteq> []" using length_ci_window [OF ok] pos by auto
  show v: "varint_value 10 (readable c) = Some (1, unat (ci_window c ! 0))"
    using varint_value_1_byte [OF ne] small ci_readable_buffer [OF ok, of rest] by (simp add: hd_conv_nth [OF ne])
  show "number_read c (ret (r, Advance 1 c)) r"
    using Advance_reads(1) [OF ok, of 1 rest] Advance_reads(2) [OF ok, of 1] pos v
    by (intro number_readI [of _ _ "Advance 1 c" 1]) simp_all
qed

lemma ReadVarint64Fallback_result:
  assumes ok: "cok c" and big: "0 < BufferSize c \<longrightarrow> \<not> ci_window c ! 0 < 128"
  shows "number_read c (Ci_ReadVarint64Fallback Z c) (value_of (varint_value 10 (readable c)))"
proof -
  obtain b where b: "varint_in_buffer c = Inr b" "b \<longrightarrow> 0 < BufferSize c \<and> ends_inside (ci_window c)"
    using varint_in_buffer_result [OF ok] by blast
  show ?thesis
  proof (cases b)
    case True
    with b have w: "0 < BufferSize c" "ends_inside (ci_window c)" by simp_all
    then show ?thesis
      using fast_advance [OF ok w(2)] fast_value(1) [OF ok w(2,1)] big True b(1)
      by (simp add: Ci_ReadVarint64Fallback_def)
  next
    case False
    obtain m c' where "varint64_slow_loop Z 10 0 0 c = ret (value_of (varint_value 10 (readable c)), c')"
        "reads m c c'" "ci_marks c' = ci_marks c" "takes (varint_value 10 (readable c)) m"
      using varint64_slow_result [OF ok, of 0 0 10] by (auto simp: option.map_id)
    then show ?thesis
      using False b(1) by (intro number_readI [of _ _ c' m])
        (simp_all add: Ci_ReadVarint64Fallback_def Ci_ReadVarint64Slow_def kMaxVarintBytes_def)
  qed
qed

lemma first_byte:
  assumes ok: "cok c"
  shows "ci_buffer c < ci_buffer_end c \<longleftrightarrow> 0 < BufferSize c"
    and "0 < BufferSize c \<Longrightarrow> byte_here c = Inr (ci_window c ! 0)"
    and "peek_byte c = Inr (if 0 < BufferSize c then ucast (ci_window c ! 0) else 0)"
  using byte_here_window [OF ok] by (simp_all add: peek_byte_def BufferSize_def)

lemma ReadVarint64_result:
  assumes ok: "cok c"
  shows "number_read c (Ci_ReadVarint64 Z c) (value_of (varint_value 10 (readable c)))"
proof (cases "0 < BufferSize c \<and> ci_window c ! 0 < 128")
  case True
  then have e: "Ci_ReadVarint64 Z c = ret (Some (ucast (ci_window c ! 0)), Advance 1 c)"
    using first_byte [OF ok] by (simp add: Ci_ReadVarint64_def)
  show ?thesis using one_byte [OF ok] True unfolding e by simp
next
  case False
  then have "Ci_ReadVarint64 Z c = Ci_ReadVarint64Fallback Z c"
    using first_byte [OF ok] by (auto simp: Ci_ReadVarint64_def)
  then show ?thesis using ReadVarint64Fallback_result [OF ok] False by auto
qed

lemma ReadVarint32_result:
  assumes ok: "cok c"
  shows "number_read c (Ci_ReadVarint32 Z c) (value_of (varint_value 10 (readable c)))"
proof (cases "0 < BufferSize c \<and> ci_window c ! 0 < 128")
  case True
  then have e: "Ci_ReadVarint32 Z c = ret (Some (ucast (ci_window c ! 0)), Advance 1 c)"
    using first_byte [OF ok] by (simp add: Ci_ReadVarint32_def less_128_byte)
  show ?thesis using one_byte [OF ok] True unfolding e by simp
next
  case False
  let ?v = "if 0 < BufferSize c then ucast (ci_window c ! 0) else 0"
  have e: "Ci_ReadVarint32 Z c = Ci_ReadVarint32Fallback Z ?v c"
    using first_byte [OF ok] False by (auto simp: Ci_ReadVarint32_def less_128_byte)
  obtain b where b: "varint_in_buffer c = Inr b" "b \<longrightarrow> 0 < BufferSize c \<and> ends_inside (ci_window c)"
    using varint_in_buffer_result [OF ok] by blast
  show ?thesis
  proof (cases b)
    case True
    with b have w: "0 < BufferSize c" "ends_inside (ci_window c)" by simp_all
    then show ?thesis
      using fast_advance [OF ok w(2)] fast_value(2) [OF ok w(2,1)] False True b(1)
      by (simp add: e Ci_ReadVarint32Fallback_def)
  next
    case f: False
    have m: "map_option ucast (value_of d :: uint64 option) = (value_of d :: uint32 option)" for d
      by (cases d) (auto simp: value_of_def bit_simps intro!: bit_word_eqI)
    show ?thesis
      using number_read_map [OF ReadVarint64Fallback_result [OF ok],
          where f = "\<lambda>(r, c1). ret (map_option ucast r :: uint32 option, c1)" and g = "map_option ucast"] f b(1) False
      by (simp add: e Ci_ReadVarint32Fallback_def Ci_ReadVarint32Slow_def m)
  qed
qed

section \<open>Tags\<close>

lemma marks_reads:
  "reads n c (c'\<lparr>ci_last_tag := t\<rparr>) = reads n c c'"
  "reads n c (c'\<lparr>ci_legitimate_message_end := b\<rparr>) = reads n c c'"
  by (simp_all add: ci_reads_def ci_ok_def ci_ahead_def ci_behind_def ci_pending_def ci_parts ci_closest_def
      ci_config_def cong: option.case_cong)

lemma marks_readable [simp]:
  "readable (c\<lparr>ci_last_tag := t\<rparr>) = readable c"
  "readable (c\<lparr>ci_legitimate_message_end := b\<rparr>) = readable c"
  by (simp_all add: ci_readable_def ci_ahead_def ci_behind_def ci_pending_def ci_parts ci_closest_def
      cong: option.case_cong)

text \<open>At the end of the readable bytes: a place where a message may end.\<close>

lemma ReadTag_end:
  assumes ok: "cok c" and lim: "ci_current_limit c \<le> ci_total_bytes_limit c" and none: "readable c = []"
  shows "\<exists>c'. Ci_ReadTag Z c = ret (0, c') \<and> reads 0 c c' \<and> ci_marks c' = (0, True)"
proof -
  have b0: "BufferSize c = 0"
    using buffer_nonempty [OF ok, of rest] none ok by (force simp: ci_ok_def BufferSize_def)
  have fast: "varint_in_buffer c = Inr False"
    using b0 by (simp add: varint_in_buffer_def kMaxVarintBytes_def BufferSize_def)
  have "\<exists>c'. Ci_ReadTagFallback Z 0 c = ret (0, c') \<and> reads 0 c c' \<and> snd (ci_marks c')"
  proof (cases "(ci_buffer_size_after_limit c > 0 \<or> ci_total_bytes_read c = ci_current_limit c) \<and>
      ci_total_bytes_read c - ci_buffer_size_after_limit c < ci_total_bytes_limit c")
    case True
    then show ?thesis
      using b0 fast ok by (auto simp: Ci_ReadTagFallback_def marks_reads ci_reads_refl ci_marks_def)
  next
    case False
    obtain b c1 where r: "Ci_Refresh Z c = ret (b, c1)" "reads 0 c c1" "BufferSize c1 = 0" "\<not> b"
      using Refresh_result [OF ok b0] lim none by blast
    have p: "ci_total_bytes_read c1 - ci_buffer_size_after_limit c1 \<le> ci_closest c1" "ci_closest c1 = ci_closest c"
      "ci_current_limit c1 \<le> ci_total_bytes_limit c1"
      using room_nonneg [OF ci_reads_ok [OF r(2)]] r(2,3) lim
      by (auto simp: CurrentPosition_def ci_reads_def ci_config_def ci_closest_def)
    have "Ci_ReadTagFallback Z 0 c = ret (0, c1\<lparr>ci_legitimate_message_end := True\<rparr>)"
      using False fast r(1,4) buffer_empty_iff [OF ok] b0 p(1,3)
      by (auto simp: Ci_ReadTagFallback_def Ci_ReadTagSlow_def Let_def ci_closest_def)
    then show ?thesis using r(2) by (auto simp: marks_reads ci_marks_def)
  qed
  then obtain c' where "Ci_ReadTagFallback Z 0 c = ret (0, c')" "reads 0 c c'" "snd (ci_marks c')" by blast
  then show ?thesis
    using b0 first_byte [OF ok]
    by (auto simp: Ci_ReadTag_def Ci_ReadTagNoLastTag_def marks_reads ci_marks_def intro!: exI [of _ "c'\<lparr>ci_last_tag := 0\<rparr>"])
qed

lemma tag_of_value: "(case (value_of d :: uint64 option) of None \<Rightarrow> 0 | Some r \<Rightarrow> ucast r) = tag_of d"
  by (cases d) (auto simp: value_of_def tag_of_def bit_simps intro!: bit_word_eqI)

lemma tag_of_word: "(case (varint_word d) of None \<Rightarrow> 0 | Some (n, t) \<Rightarrow> t) = tag_of d"
  by (cases d) (auto simp: varint_word_def tag_of_def)

lemma ReadTagSlow_result:
  assumes ok: "cok c" and some: "readable c \<noteq> []" and big: "0 < BufferSize c \<longrightarrow> \<not> ci_window c ! 0 < 128"
  shows "number_read c (Ci_ReadTagSlow Z c) (tag_of (varint_value 10 (readable c)))"
proof -
  have "\<exists>c1. (if ci_buffer c = ci_buffer_end c then Ci_Refresh Z c else ret (True, c)) = ret (True, c1) \<and>
      reads 0 c c1 \<and> ci_marks c1 = ci_marks c"
    using Refresh_result [OF ok] some ci_reads_refl [OF ok, of rest] buffer_empty_iff [OF ok] by fastforce
  then obtain c1 where c1: "(if ci_buffer c = ci_buffer_end c then Ci_Refresh Z c else ret (True, c)) = ret (True, c1)"
      "reads 0 c c1" "ci_marks c1 = ci_marks c" by blast
  have rd: "readable c1 = readable c" using ci_reads_readable [OF c1(2)] by simp
  obtain n c' where r: "Ci_ReadVarint64 Z c1 = ret (value_of (varint_value 10 (readable c)), c')" "reads n c1 c'"
      "ci_marks c' = ci_marks c1" "takes (varint_value 10 (readable c)) n"
    using ReadVarint64_result [OF ci_reads_ok [OF c1(2)]] unfolding ci_number_def rd by blast
  have "Ci_ReadTagSlow Z c = ret (tag_of (varint_value 10 (readable c)), c')"
    unfolding Ci_ReadTagSlow_def c1(1) using r(1) by (simp add: tag_of_value)
  then show ?thesis
    using ci_reads_trans [OF c1(2) r(2)] r(3,4) c1(3) by (intro number_readI [of _ _ c' n]) simp_all
qed

lemma ReadTagNoLastTag_result:
  assumes ok: "cok c" and some: "readable c \<noteq> []"
  shows "number_read c (Ci_ReadTagNoLastTag Z c) (tag_of (varint_value 10 (readable c)))"
proof (cases "0 < BufferSize c \<and> ci_window c ! 0 < 128")
  case True
  then have e: "Ci_ReadTagNoLastTag Z c = ret (ucast (ci_window c ! 0), Advance 1 c)"
    using first_byte [OF ok] by (simp add: Ci_ReadTagNoLastTag_def less_128_byte)
  show ?thesis using one_byte [OF ok] True unfolding e by (simp add: tag_of_def)
next
  case False
  let ?v = "if 0 < BufferSize c then ucast (ci_window c ! 0) else 0"
  have e: "Ci_ReadTagNoLastTag Z c = Ci_ReadTagFallback Z ?v c"
    using first_byte [OF ok] False by (auto simp: Ci_ReadTagNoLastTag_def less_128_byte)
  obtain b where b: "varint_in_buffer c = Inr b" "b \<longrightarrow> 0 < BufferSize c \<and> ends_inside (ci_window c)"
    using varint_in_buffer_result [OF ok] by blast
  show ?thesis
  proof (cases b)
    case True
    with b have w: "0 < BufferSize c" "ends_inside (ci_window c)" by simp_all
    have "(ucast (ci_window c ! 0) :: uint32) \<noteq> 0"
      using False w(1) less_128_byte [of "ci_window c ! 0"] by auto
    then have "Ci_ReadTagNoLastTag Z c =
        ret (case varint_word (varint_value 10 (readable c)) of None \<Rightarrow> (0, c) | Some (n, tag) \<Rightarrow> (tag, Advance (int n) c))"
      using fast_value(2) [OF ok w(2,1)] False True b(1) w(1) by (simp add: e Ci_ReadTagFallback_def)
    moreover have "\<dots> = bind_run (ret (case varint_word (varint_value 10 (readable c)) of None \<Rightarrow> (None, c)
        | Some (n, v) \<Rightarrow> (Some v, Advance (int n) c))) (\<lambda>(r, c'). ret (case r of None \<Rightarrow> 0 | Some t \<Rightarrow> t, c'))"
      by (cases "varint_value 10 (readable c)") (auto simp: varint_word_def)
    moreover have "(case (value_of d :: uint32 option) of None \<Rightarrow> 0 | Some t \<Rightarrow> t) = tag_of d" for d
      by (cases d) (auto simp: tag_of_def)
    ultimately show ?thesis
      using number_read_map [OF fast_advance [OF ok w(2)], where g = "case_option (0 :: uint32) (\<lambda>t. t)"
          and f = "\<lambda>(r, c'). ret (case r of None \<Rightarrow> 0 :: uint32 | Some t \<Rightarrow> t, c')"] by simp
  next
    case f: False
    have "\<not> (BufferSize c = 0 \<and> (ci_buffer_size_after_limit c > 0 \<or> ci_total_bytes_read c = ci_current_limit c))"
      using Refresh_at_limit(2) [OF ok] some by blast
    then have "Ci_ReadTagNoLastTag Z c = Ci_ReadTagSlow Z c" using f b(1) by (auto simp: e Ci_ReadTagFallback_def)
    then show ?thesis using ReadTagSlow_result [OF ok some] False by auto
  qed
qed

lemma ReadTag_result:
  assumes "cok c" and "readable c \<noteq> []"
  shows "\<exists>n c'. Ci_ReadTag Z c = ret (tag_of (varint_value 10 (readable c)), c') \<and> reads n c c' \<and>
    ci_marks c' = (tag_of (varint_value 10 (readable c)), snd (ci_marks c)) \<and> takes (varint_value 10 (readable c)) n"
proof -
  let ?t = "tag_of (varint_value 10 (readable c))"
  obtain n c' where "Ci_ReadTagNoLastTag Z c = ret (?t, c')" "reads n c c'" "ci_marks c' = ci_marks c"
      "takes (varint_value 10 (readable c)) n"
    using ReadTagNoLastTag_result [OF assms] unfolding ci_number_def by blast
  then show ?thesis
    by (intro exI [of _ n] exI [of _ "c'\<lparr>ci_last_tag := ?t\<rparr>"]) (simp add: Ci_ReadTag_def marks_reads ci_marks_def)
qed

section \<open>Bytes and fixed-width integers\<close>

lemma window_readable:
  assumes "cok c" and "0 \<le> n" and "n \<le> BufferSize c"
  shows "take (nat n) (ci_window c) = take (nat n) (readable c)" and "nat n \<le> length (readable c)"
  using assms length_ci_window [OF assms(1)] by (simp_all add: ci_readable_buffer)

lemma ReadRaw_result:
  assumes "cok c" and "0 \<le> n"
  shows "\<exists>c'. Ci_ReadRaw Z n c = ret (n \<le> int (length (readable c)), take (nat n) (readable c), c') \<and>
    reads (min (nat n) (length (readable c))) c c' \<and> ci_marks c' = ci_marks c"
  using read_loop_result [OF assms, of "[]"] by (simp add: Ci_ReadRaw_def)

lemma ReadString_result:
  assumes ok: "cok c"
  shows "if n < 0 then Ci_ReadString Z n str c = ret (False, str, c)
    else \<exists>c'. Ci_ReadString Z n str c = ret (n \<le> int (length (readable c)), take (nat n) (readable c), c') \<and>
      reads (min (nat n) (length (readable c))) c c' \<and> ci_marks c' = ci_marks c"
proof (cases "0 \<le> n \<and> n \<le> BufferSize c")
  case True
  then show ?thesis
    using copy_out_window [OF ok] window_readable [OF ok, of n] Advance_reads(1) [OF ok, of n rest] Advance_reads(2) [OF ok, of n]
    by (simp add: Ci_ReadString_def min_def nat_le_iff)
next
  case False
  then show ?thesis
    using read_loop_result [OF ok, of n "[]"] by (simp add: Ci_ReadString_def Ci_ReadStringFallback_def)
qed

text \<open>A fixed-width read of \<open>k\<close> bytes with the decoder \<open>f\<close>.\<close>

lemma fixed_result:
  fixes f :: "byte list \<Rightarrow> (nat \<times> 'w::len word) res"
  assumes ok: "cok c" and f: "\<And>p. f p = bind_res (mem_read p 0 (int k)) (\<lambda>bs. Inr (k, word_of_nat (le_value bs)))"
    and g: "g = (if BufferSize c \<ge> int k
        then bind_run (Some (bind_res (at_buffer c) f)) (\<lambda>(n, v). ret (Some v, Advance (int k) c))
        else bind_run (Ci_ReadRaw Z (int k) c) (\<lambda>(ok, bs, c1).
          if \<not> ok then ret (None, c1) else bind_run (Some (f bs)) (\<lambda>(_, v). ret (Some v, c1))))"
  shows "\<exists>c'. g = ret (if k \<le> length (readable c) then Some (word_of_nat (le_value (take k (readable c)))) else None, c') \<and>
    reads (min k (length (readable c))) c c' \<and> ci_marks c' = ci_marks c"
proof -
  have f_bytes: "f (bs @ q) = Inr (k, word_of_nat (le_value (take k bs)))" if "k \<le> length bs" for bs q
    using that by (simp add: f mem_read_def window_def)
  show ?thesis
  proof (cases "BufferSize c \<ge> int k")
    case True
    obtain q where q: "at_buffer c = Inr (ci_window c @ q)" using at_buffer_window [OF ok] by blast
    have w: "take k (ci_window c) = take k (readable c)" "k \<le> length (readable c)"
      using window_readable [OF ok _ True] by simp_all
    have "k \<le> length (ci_window c)" using length_ci_window [OF ok] True by simp
    then show ?thesis
      using True Advance_reads(1) [OF ok _ True, of rest] Advance_reads(2) [OF ok _ True] w
      by (simp add: g q f_bytes min_def)
  next
    case False
    obtain c' where r: "Ci_ReadRaw Z (int k) c = ret (k \<le> length (readable c), take k (readable c), c')"
        "reads (min k (length (readable c))) c c'" "ci_marks c' = ci_marks c"
      using ReadRaw_result [OF ok, of "int k"] by auto
    show ?thesis
    proof (cases "k \<le> length (readable c)")
      case True
      then show ?thesis
        using r False f_bytes [of "take k (readable c)" "[]"] by (simp add: g)
    next
      case f: False
      with r False show ?thesis by (simp add: g)
    qed
  qed
qed

lemma LittleEndian_code:
  "Ci_ReadLittleEndian32 Z c = (if BufferSize c \<ge> int 4
     then bind_run (Some (bind_res (at_buffer c) ReadLittleEndian32FromArray)) (\<lambda>(n, v). ret (Some v, Advance (int 4) c))
     else bind_run (Ci_ReadRaw Z (int 4) c) (\<lambda>(ok, bs, c1).
       if \<not> ok then ret (None, c1) else bind_run (Some (ReadLittleEndian32FromArray bs)) (\<lambda>(_, v). ret (Some v, c1))))"
  "Ci_ReadLittleEndian64 Z c = (if BufferSize c \<ge> int 8
     then bind_run (Some (bind_res (at_buffer c) ReadLittleEndian64FromArray)) (\<lambda>(n, v). ret (Some v, Advance (int 8) c))
     else bind_run (Ci_ReadRaw Z (int 8) c) (\<lambda>(ok, bs, c1).
       if \<not> ok then ret (None, c1) else bind_run (Some (ReadLittleEndian64FromArray bs)) (\<lambda>(_, v). ret (Some v, c1))))"
  by (auto simp: Ci_ReadLittleEndian32_def Ci_ReadLittleEndian32Fallback_def ReadLittleEndian32FromArray_def
      Ci_ReadLittleEndian64_def Ci_ReadLittleEndian64Fallback_def ReadLittleEndian64FromArray_def
      at_buffer_def mem_read_def)

lemma ReadLittleEndian32_result:
  assumes "cok c"
  shows "\<exists>c'. Ci_ReadLittleEndian32 Z c =
      ret (if 4 \<le> length (readable c) then Some (word_of_nat (le_value (take 4 (readable c)))) else None, c') \<and>
    reads (min 4 (length (readable c))) c c' \<and> ci_marks c' = ci_marks c"
  by (rule fixed_result [OF assms _ LittleEndian_code(1)]) (simp add: ReadLittleEndian32FromArray_def)

lemma ReadLittleEndian64_result:
  assumes "cok c"
  shows "\<exists>c'. Ci_ReadLittleEndian64 Z c =
      ret (if 8 \<le> length (readable c) then Some (word_of_nat (le_value (take 8 (readable c)))) else None, c') \<and>
    reads (min 8 (length (readable c))) c c' \<and> ci_marks c' = ci_marks c"
  by (rule fixed_result [OF assms _ LittleEndian_code(2)]) (simp add: ReadLittleEndian64FromArray_def)

section \<open>Skipping\<close>

text \<open>The skip leaves the buffer; the stream skips the rest.\<close>

lemma closest_distance:
  assumes "cok c"
  shows "ci_closest c - ci_total_bytes_read c \<le> INT_MAX"
proof -
  have "0 \<le> ci_total_bytes_read c"
    using assms by (auto simp: ci_ok_def CurrentPosition_def BufferSize_def)
  moreover have "ci_closest c \<le> INT_MAX" using assms by (auto simp: ci_ok_def ci_closest_def)
  ultimately show ?thesis by linarith
qed

lemma SkipFallback_inside:
  assumes ok: "cok c" and n: "BufferSize c < n" "n - BufferSize c \<le> ci_closest c - ci_total_bytes_read c"
  shows "\<exists>c'. Ci_SkipFallback Z n (BufferSize c) c = Inr (n \<le> int (length (readable c)), c') \<and>
    ci_marks c' = ci_marks c \<and> (n \<le> int (length (readable c)) \<longrightarrow> reads (nat n) c c')"
proof -
  let ?n = "n - BufferSize c" and ?d = "ci_closest c - ci_total_bytes_read c"
  have b: "0 \<le> BufferSize c" using ok by (simp add: ci_ok_def BufferSize_def)
  have after: "ci_buffer_size_after_limit c = 0" "ci_overflow_bytes c = 0"
    using n ok by (auto simp: ci_ok_def ci_closest_def)
  obtain s where s: "ci_input c = Some s" "ok s"
    using ok n after by (cases "ci_input c") (auto simp: ci_ok_def ci_closest_def)
  have later: "ci_later rest c = take (nat ?d) (rest s)" using after s by (simp add: ci_later_def ci_behind_def)
  obtain r s' where sk: "zi_Skip Z ?n s = Inr (r, s')" "r = (?n \<le> int (length (rest s)))" "ok s'"
      "rest s' = drop (nat ?n) (rest s)" using skip_law [OF s(2), of ?n] n(1) closest_distance [OF ok] n(2) by fastforce
  have iff: "r \<longleftrightarrow> n \<le> int (length (readable c))"
    unfolding sk(2) ci_readable_buffer [OF ok] length_append length_ci_window [OF ok] later
    using b n by (simp add: nat_le_iff) linarith
  let ?c' = "c\<lparr>ci_block := [], ci_buffer := 0, ci_buffer_end := 0, ci_input := Some s',
    ci_total_bytes_read := ci_total_bytes_read c + ?n\<rparr>"
  let ?f = "c\<lparr>ci_block := [], ci_buffer := 0, ci_buffer_end := 0, ci_input := Some s',
    ci_total_bytes_read := zi_ByteCount Z s'\<rparr>"
  have f: "Ci_SkipFallback Z n (BufferSize c) c = Inr (r, if r then ?c' else ?f)"
    using after n s sk(1) by (auto simp: Ci_SkipFallback_def Let_def ci_closest_def)
  have sizes: "BufferSize ?c' = 0" "ci_inside ?c' = 0" "ci_kept ?c' = 0" "CurrentPosition ?c' = CurrentPosition c + n"
    "ci_closest ?c' = ci_closest c" "ci_pending chunk ?c' = []"
    using after by (simp_all add: ci_parts ci_closest_def ci_pending_def)
  have "cok ?c'" unfolding ci_ok_def sizes using ok n b sk(3) after by (auto simp: ci_ok_def ci_closest_def)
  moreover have "ci_ahead rest chunk ?c' = drop (nat n) (ci_ahead rest chunk c)"
  proof -
    have "int (length (ci_pending chunk c)) = BufferSize c" using ok after by (simp add: ci_ok_def ci_kept_def ci_inside_def)
    then have "length (ci_pending chunk c) \<le> nat n" "nat n - length (ci_pending chunk c) = nat ?n" using n(1) by linarith+
    then show ?thesis using s sk(4) by (simp add: ci_ahead_def sizes ci_behind_def)
  qed
  ultimately have "reads (nat n) c ?c'" using n b s by (simp add: ci_reads_def sizes(4) ci_config_def)
  then show ?thesis unfolding f using iff by (auto simp: ci_marks_def)
qed

text \<open>
  A skip over the end of the readable bytes fails without a fault, but the position it leaves may
  be wrong: \<^verbatim>\<open>total_bytes_read_\<close> is set to the limit or to the stream's own count.
\<close>

lemma Skip_result:
  assumes ok: "cok c" and n: "0 \<le> n"
  shows "\<exists>c'. Ci_Skip Z n c = Inr (n \<le> int (length (readable c)), c') \<and> ci_marks c' = ci_marks c \<and>
    (n \<le> int (length (readable c)) \<longrightarrow> reads (nat n) c c')"
proof (cases "n \<le> BufferSize c")
  case True
  then show ?thesis
    using Advance_reads(1) [OF ok n True, of rest] Advance_reads(2) [OF ok n True] window_readable(2) [OF ok n True] n
    by (auto simp: Ci_Skip_def)
next
  case big: False
  let ?n = "n - BufferSize c" and ?d = "ci_closest c - ci_total_bytes_read c"
  have code: "Ci_Skip Z n c = Ci_SkipFallback Z n (BufferSize c) c" using big n by (simp add: Ci_Skip_def)
  show ?thesis
  proof (cases "?d < ?n")
    case True
    have "length (ci_later rest c) < nat ?n" using True big by (auto simp: ci_later_def)
    then have "\<not> n \<le> int (length (readable c))"
      using length_ci_window [OF ok] ok unfolding ci_readable_buffer [OF ok, of rest]
      by (auto simp: ci_ok_def BufferSize_def)
    moreover have "\<exists>c'. Ci_Skip Z n c = Inr (False, c') \<and> ci_marks c' = ci_marks c"
    proof (cases "ci_input c")
      case None
      with True show ?thesis
        using ok unfolding code by (auto simp: Ci_SkipFallback_def Let_def ci_ok_def ci_closest_def ci_marks_def Advance_def)
    next
      case (Some s)
      moreover have "ok s" using ok Some by (simp add: ci_ok_def)
      then have "0 \<le> ?d \<Longrightarrow> \<exists>b s'. zi_Skip Z ?d s = Inr (b, s')" using skip_law [of s ?d] closest_distance [OF ok] by blast
      ultimately show ?thesis
        using True unfolding code
        by (fastforce simp: Ci_SkipFallback_def Let_def ci_closest_def ci_marks_def Advance_def)
    qed
    ultimately show ?thesis by auto
  next
    case False
    then show ?thesis using SkipFallback_inside [OF ok, of n] big unfolding code by simp
  qed
qed

section \<open>Limits\<close>

lemma set_limit:
  assumes ok: "cok c" and l: "l \<le> INT_MAX" "CurrentPosition c \<le> l" "ci_input c \<noteq> None \<or> l \<le> ci_total_bytes_read c"
  defines "c' \<equiv> RecomputeBufferLimits (c\<lparr>ci_current_limit := l\<rparr>)"
  shows "cok c' \<and> ci_ahead rest chunk c' = ci_ahead rest chunk c \<and> CurrentPosition c' = CurrentPosition c \<and>
    ci_closest c' = min l (ci_total_bytes_limit c) \<and> ci_config c' = (l, snd (ci_config c)) \<and> ci_marks c' = ci_marks c"
proof -
  have e: "c\<lparr>ci_current_limit := l\<rparr> = c\<lparr>ci_current_limit := l, ci_total_bytes_limit := ci_total_bytes_limit c\<rparr>" by simp
  have t: "ci_total_bytes_limit c \<le> INT_MAX" "CurrentPosition c \<le> min l (ci_total_bytes_limit c)"
    using ok l room_nonneg [OF ok] by (auto simp: ci_ok_def ci_closest_def)
  note r = RecomputeBufferLimits_ok [OF ok e l(1) t l(3)]
  have "ci_config c' = (l, snd (ci_config c))" "ci_marks c' = ci_marks c"
    by (simp_all add: c'_def RecomputeBufferLimits_def Let_def ci_config_def ci_marks_def)
  then show ?thesis using r unfolding c'_def by simp
qed

text \<open>
  \<^verbatim>\<open>PushLimit\<close> hides the bytes behind the limit, never shows more, and ignores a negative or
  overflowing size; \<^verbatim>\<open>PopLimit\<close> with the value it returned shows them again.
\<close>

lemma PushLimit_result:
  assumes ok: "cok c"
  shows "\<exists>c' l. Ci_PushLimit n c = (ci_current_limit c, c') \<and> cok c' \<and>
    ci_ahead rest chunk c' = ci_ahead rest chunk c \<and> CurrentPosition c' = CurrentPosition c \<and>
    readable c' = (if n < 0 then readable c else take (nat n) (readable c)) \<and>
    ci_config c' = (l, snd (ci_config c)) \<and> l \<le> ci_current_limit c \<and> ci_marks c' = ci_marks c"
proof (cases "n \<ge> 0 \<and> n \<le> INT_MAX - CurrentPosition c \<and> n < ci_current_limit c - CurrentPosition c")
  case True
  let ?l = "CurrentPosition c + n" and ?c = "RecomputeBufferLimits (c\<lparr>ci_current_limit := CurrentPosition c + n\<rparr>)"
  have "ci_input c \<noteq> None \<or> ?l \<le> ci_total_bytes_read c"
    using ok True by (cases "ci_input c") (auto simp: ci_ok_def)
  then have s: "cok ?c" "ci_ahead rest chunk ?c = ci_ahead rest chunk c" "CurrentPosition ?c = CurrentPosition c"
      "ci_closest ?c = min ?l (ci_total_bytes_limit c)" "ci_config ?c = (?l, snd (ci_config c))" "ci_marks ?c = ci_marks c"
    using set_limit [OF ok, of ?l] True by auto
  have "nat (min ?l (ci_total_bytes_limit c) - CurrentPosition c) = min (nat n) (nat (ci_closest c - CurrentPosition c))"
    using True room_nonneg [OF ok] by (auto simp: ci_closest_def min_def)
  then have "readable ?c = take (nat n) (readable c)" by (simp add: ci_readable_def s(2-4))
  with True s show ?thesis by (auto simp: Ci_PushLimit_def Let_def)
next
  case False
  have "readable c = take (nat n) (readable c)" if "0 \<le> n"
  proof -
    have "ci_closest c - CurrentPosition c \<le> n"
      using False that ok by (auto simp: ci_ok_def ci_closest_def)
    then have "length (readable c) \<le> nat n" by (auto simp: ci_readable_def min_def)
    then show ?thesis by simp
  qed
  then show ?thesis
    using False ok by (auto simp: Ci_PushLimit_def Let_def ci_config_def)
qed

lemma flat_total:
  "cok c \<Longrightarrow> ci_input c = None \<Longrightarrow> ci_total_bytes_read c = CurrentPosition c + int (length (ci_ahead rest chunk c))"
  by (simp add: ci_ok_def ci_ahead_def ci_behind_def ci_kept_def ci_inside_def CurrentPosition_def)

lemma PopLimit_result:
  assumes ok: "cok c" and push: "Ci_PushLimit n c = (old, c1)" and r: "reads m c1 c2"
  shows "reads m c (Ci_PopLimit old c2)" and "ci_marks (Ci_PopLimit old c2) = (fst (ci_marks c2), False)"
proof -
  obtain l where p: "old = ci_current_limit c" "cok c1" "ci_ahead rest chunk c1 = ci_ahead rest chunk c"
      "CurrentPosition c1 = CurrentPosition c" "ci_config c1 = (l, snd (ci_config c))" "l \<le> old"
    using PushLimit_result [OF ok, of n] push by auto
  have c2: "cok c2" "ci_config c2 = (l, snd (ci_config c))" "ci_ahead rest chunk c2 = drop m (ci_ahead rest chunk c)"
    "CurrentPosition c2 = CurrentPosition c + int m" using r p by (simp_all add: ci_reads_def)
  have lim: "old \<le> INT_MAX" "CurrentPosition c2 \<le> old"
    using ok p(1,6) room_nonneg [OF c2(1)] c2(2) by (auto simp: ci_ok_def ci_closest_def ci_config_def)
  have flat: "ci_input c2 \<noteq> None \<or> old \<le> ci_total_bytes_read c2"
  proof (cases "ci_input c2")
    case None
    then have "ci_input c = None" using c2(2) by (auto simp: ci_config_def)
    moreover from this have "old \<le> ci_total_bytes_read c" using ok p(1) by (simp add: ci_ok_def)
    moreover have "int (length (ci_ahead rest chunk c)) - int m \<le> int (length (ci_ahead rest chunk c2))"
      unfolding c2(3) by simp
    ultimately show ?thesis
      using flat_total [OF c2(1) None] flat_total [OF ok] c2(4) by (intro disjI2) linarith
  qed simp
  show "ci_marks (Ci_PopLimit old c2) = (fst (ci_marks c2), False)"
    using set_limit [OF c2(1) lim flat] by (simp add: Ci_PopLimit_def ci_marks_def)
  show "reads m c (Ci_PopLimit old c2)"
    unfolding Ci_PopLimit_def marks_reads
    using set_limit [OF c2(1) lim flat] c2 p(1) by (simp add: ci_reads_def ci_config_def)
qed

section \<open>Construction and destruction\<close>

lemma fresh_reader:
  assumes "ok s"
  shows "cok (CodedInputStream_empty\<lparr>ci_input := Some s\<rparr>)"
    and "ci_ahead rest chunk (CodedInputStream_empty\<lparr>ci_input := Some s\<rparr>) = rest s"
  using assms by (simp_all add: CodedInputStream_empty_def ci_ok_def ci_parts ci_closest_def ci_pending_def ci_ahead_def
      ci_behind_def kDefaultTotalBytesLimit_def INT_MAX_def window_def)

text \<open>The configuration of a new reader, without and with a limit.\<close>

lemma CodedInputStream_result:
  assumes "ok s"
  shows "\<exists>c. CodedInputStream Z s = ret c \<and> cok c \<and> ci_ahead rest chunk c = rest s \<and>
    readable c = take (nat INT_MAX) (rest s) \<and> CurrentPosition c = 0 \<and> ci_marks c = (0, False) \<and>
    ci_config c = (INT_MAX, INT_MAX, default_recursion_limit, default_recursion_limit, False, False)"
proof -
  let ?c = "CodedInputStream_empty\<lparr>ci_input := Some s\<rparr>"
  have f: "BufferSize ?c = 0" "CurrentPosition ?c = 0" "ci_marks ?c = (0, False)"
    "ci_config ?c = (INT_MAX, INT_MAX, default_recursion_limit, default_recursion_limit, False, False)"
    by (simp_all add: CodedInputStream_empty_def BufferSize_def CurrentPosition_def ci_marks_def ci_config_def
        kDefaultTotalBytesLimit_def)
  obtain b c' where r: "Ci_Refresh Z ?c = ret (b, c')" "reads 0 ?c c'" "ci_marks c' = ci_marks ?c"
    using Refresh_result [OF fresh_reader(1) [OF assms] f(1)] by blast
  have "CodedInputStream Z s = ret c'" using r(1) by (simp add: CodedInputStream_def)
  moreover have "cok c'" "ci_ahead rest chunk c' = rest s" "CurrentPosition c' = 0" "ci_config c' = ci_config ?c"
    using r(2) f(2) fresh_reader(2) [OF assms] by (simp_all add: ci_reads_def)
  moreover from this have "readable c' = take (nat INT_MAX) (rest s)"
    unfolding f(4) by (simp add: ci_readable_def ci_closest_def ci_config_def)
  ultimately show ?thesis using r(3) f(3,4) by auto
qed

text \<open>The destructor hands back exactly the bytes that were not read.\<close>

lemma CodedInputStream_destroy_result:
  assumes ok: "cok c" and s: "ci_input c = Some s"
  shows "\<exists>s'. CodedInputStream_destroy Z c = Inr (Some s') \<and> ok s' \<and> rest s' = ci_ahead rest chunk c \<and>
    zi_ByteCount Z s' = zi_ByteCount Z s - ci_kept c"
proof -
  have len: "int (length (ci_pending chunk c)) = ci_kept c" and oks: "ok s" using ok s by (simp_all add: ci_ok_def)
  have kept: "BufferSize c + ci_buffer_size_after_limit c + ci_overflow_bytes c = ci_kept c"
    by (simp add: ci_kept_def ci_inside_def)
  show ?thesis
  proof (cases "0 < ci_kept c")
    case False
    moreover have "0 \<le> ci_kept c" using len by linarith
    ultimately show ?thesis
      using len oks s kept by (simp add: CodedInputStream_destroy_def BackUpInputToCurrentPosition_def Let_def ci_ahead_def
          ci_behind_def)
  next
    case True
    then have "nat (ci_kept c) \<le> length (chunk s)" "chunk s \<noteq> []" using len s by (auto simp: ci_pending_def)
    then obtain s' where "zi_BackUp Z (ci_kept c) s = Inr s'" "ok s'"
        "rest s' = drop (length (chunk s) - nat (ci_kept c)) (chunk s) @ rest s"
        "zi_ByteCount Z s' = zi_ByteCount Z s - ci_kept c"
      using backup_law [OF oks, of "ci_kept c"] True by (auto simp: nat_le_iff)
    then show ?thesis
      using True s kept by (simp add: CodedInputStream_destroy_def BackUpInputToCurrentPosition_def Let_def ci_ahead_def
          ci_behind_def ci_pending_def)
  qed
qed

end

end
