(* ===== verification/Wire_Skip_Spec.thy ===== *)
theory Wire_Skip_Spec
  imports Wire_Skip Coded_Input_Reads Unknown_Parse
begin

unbundle bit_operations_syntax

text \<open>
  What skipping a message through a \<^verbatim>\<open>CodedInputStream\<close> computes: a reference parser
  \<open>old_fields\<close> on the list of readable bytes, the proof that \<^verbatim>\<open>SkipMessage\<close> refines it over
  every stream that keeps its contract, and its relation to the reference of the newer parser. The
  two differ in what they tolerate: this one reads tags and sizes of up to ten bytes.
\<close>

section \<open>The reference parser\<close>

definition old_tag :: "byte list \<Rightarrow> (nat \<times> uint32) option" where
  "old_tag bs = varint_word (varint_value 10 bs)"

definition old_string :: "byte list \<Rightarrow> (byte list \<times> byte list) option" where
  "old_string bs =
     (case old_tag bs of
        None \<Rightarrow> None
      | Some (n, sz) \<Rightarrow>
          if int (unat sz) \<le> INT_MAX \<and> n + unat sz \<le> length bs
          then Some (take (unat sz) (drop n bs), drop (n + unat sz) bs) else None)"

lemma old_string_code:
  "old_string bs =
     (case old_tag bs of
        None \<Rightarrow> None
      | Some (n, sz) \<Rightarrow>
          if unat sz < 2 ^ 31 \<and> n + unat sz \<le> length bs
          then Some (take (unat sz) (drop n bs), drop (n + unat sz) bs) else None)"
proof -
  have "int n \<le> INT_MAX \<longleftrightarrow> n < 2 ^ 31" for n by (simp add: INT_MAX_def) linarith
  then show ?thesis by (simp only: old_string_def)
qed

definition old_scalar :: "uint32 \<Rightarrow> byte list \<Rightarrow> (unknown_field \<times> byte list) option" where
  "old_scalar tag bs =
     (if tag AND 7 = 2
      then map_option (\<lambda>(str, rest). (TYPE_LENGTH_DELIMITED (drop_bit 3 tag) str, rest)) (old_string bs)
      else ref_scalar tag bs)"

text \<open>\<open>d\<close> more groups may be nested; the outer option is the fuel.\<close>

fun old_field :: "nat \<Rightarrow> nat \<Rightarrow> uint32 \<Rightarrow> byte list \<Rightarrow> (unknown_field \<times> byte list) option option"
  and old_fields :: "nat \<Rightarrow> nat \<Rightarrow> byte list \<Rightarrow> (fields \<times> ending \<times> byte list) option option"
where
  "old_field k d tag bs =
     (if drop_bit 3 tag = 0 then Some None
      else if tag AND 7 = 3 then
        (if d = 0 then Some None
         else
           case k of
             0 \<Rightarrow> None
           | Suc k' \<Rightarrow>
               map_option (\<lambda>r. case r of
                   Some (g, AtTag t, rest) \<Rightarrow> if t = tag + 1 then Some (TYPE_GROUP (drop_bit 3 tag) g, rest) else None
                 | _ \<Rightarrow> None)
                 (old_fields k' (d - 1) bs))
      else Some (old_scalar tag bs))"
| "old_fields 0 d bs = None"
| "old_fields (Suc k) d bs =
     (if bs = [] then Some (Some ([], AtEnd, []))
      else case old_tag bs of
        None \<Rightarrow> Some None
      | Some (n, tag) \<Rightarrow>
          if tag = 0 then Some None
          else if tag AND 7 = 4 then Some (Some ([], AtTag tag, drop n bs))
          else case old_field k d tag (drop n bs) of
            None \<Rightarrow> None
          | Some None \<Rightarrow> Some None
          | Some (Some (f, bs2)) \<Rightarrow>
              map_option (map_option (\<lambda>(fs, e, bs3). (f # fs, e, bs3))) (old_fields k d bs2))"

declare old_field.simps [simp del] old_fields.simps [simp del]

section \<open>Reading one field\<close>

fun end_marks :: "ending \<Rightarrow> uint32 \<times> bool" where
  "end_marks AtEnd = (0, True)"
| "end_marks (AtTag t) = (t, False)"

text \<open>A reader between two fields, at most \<open>d\<close> groups below its recursion limit.\<close>

definition ready :: "('s \<Rightarrow> bool) \<Rightarrow> ('s \<Rightarrow> byte list) \<Rightarrow> nat \<Rightarrow> 's coded_input \<Rightarrow> bool" where
  "ready ok chunk d c \<longleftrightarrow> ci_ok ok chunk c \<and> ci_current_limit c \<le> ci_total_bytes_limit c \<and>
     \<not> ci_legitimate_message_end c \<and> ci_recursion_budget c = int d \<and> int d \<le> ci_recursion_limit c"

text \<open>A failed read leaves a reader that can be destroyed, on the same kind of input.\<close>

definition still :: "('s \<Rightarrow> bool) \<Rightarrow> ('s \<Rightarrow> byte list) \<Rightarrow> 's coded_input \<Rightarrow> 's coded_input \<Rightarrow> bool" where
  "still ok chunk c c' \<longleftrightarrow> ci_ok ok chunk c' \<and> (ci_input c' = None \<longleftrightarrow> ci_input c = None)"

lemma reads_still: "ci_reads ok rest chunk n c c' \<Longrightarrow> still ok chunk c c'"
  by (simp add: ci_reads_def ci_config_def still_def)

lemma still_refl: "ready ok chunk d c \<Longrightarrow> still ok chunk c c"
  by (simp add: ready_def still_def)

lemma still_trans: "still ok chunk c c1 \<Longrightarrow> still ok chunk c1 c2 \<Longrightarrow> still ok chunk c c2"
  by (simp add: still_def)

definition scalar_outcome ::
    "('s \<Rightarrow> bool) \<Rightarrow> ('s \<Rightarrow> byte list) \<Rightarrow> ('s \<Rightarrow> byte list) \<Rightarrow> 's coded_input \<Rightarrow> fields \<Rightarrow>
     (unknown_field \<times> byte list) option \<Rightarrow> (bool \<times> fields option \<times> 's coded_input) run \<Rightarrow> bool"
where
  "scalar_outcome ok rest chunk c u r R \<longleftrightarrow>
     (case r of
        None \<Rightarrow> \<exists>u' c'. R = ret (False, u', c') \<and> still ok chunk c c'
      | Some (f, bs) \<Rightarrow> \<exists>n c'. R = ret (True, Some (u @ [f]), c') \<and> ci_reads ok rest chunk n c c' \<and>
          bs = drop n (ci_readable rest chunk c) \<and> \<not> ci_legitimate_message_end c')"

definition skip_outcome ::
    "('s \<Rightarrow> bool) \<Rightarrow> ('s \<Rightarrow> byte list) \<Rightarrow> ('s \<Rightarrow> byte list) \<Rightarrow> 's coded_input \<Rightarrow> fields \<Rightarrow>
     (fields \<times> ending \<times> byte list) option \<Rightarrow> (bool \<times> fields option \<times> 's coded_input) run \<Rightarrow> bool"
where
  "skip_outcome ok rest chunk c u r R \<longleftrightarrow>
     (case r of
        None \<Rightarrow> \<exists>b u' c'. R = ret (b, u', c') \<and> still ok chunk c c' \<and>
          (b \<longrightarrow> ci_marks c' = (0, False) \<and> u' \<noteq> None)
      | Some (fs, e, bs) \<Rightarrow> \<exists>n c'. R = ret (True, Some (u @ fs), c') \<and> ci_reads ok rest chunk n c c' \<and>
          bs = drop n (ci_readable rest chunk c) \<and> ci_marks c' = end_marks e)"

lemma wire_type_code:
  "GetTagWireType tag = Some ty \<longleftrightarrow> tag AND 7 = wire_code ty"
  "GetTagWireType tag = None \<longleftrightarrow> (\<forall>ty. tag AND 7 \<noteq> wire_code ty)"
proof -
  show e: "GetTagWireType tag = Some ty \<longleftrightarrow> tag AND 7 = wire_code ty" for ty
    by (cases ty) (auto simp: GetTagWireType_def kTagTypeMask_def wire_code_def Let_def)
  show "GetTagWireType tag = None \<longleftrightarrow> (\<forall>ty. tag AND 7 \<noteq> wire_code ty)"
    using e by (metis not_None_eq)
qed

lemma number_code:
  "GetTagFieldNumber tag = 0 \<longleftrightarrow> drop_bit 3 tag = 0" "word_of_int (GetTagFieldNumber tag) = drop_bit 3 tag"
  by (simp_all add: GetTagFieldNumber_def kTagTypeBits_def uint_0_iff)

lemma end_tag:
  assumes "tag AND 7 = 3"
  shows "MakeTag (GetTagFieldNumber tag) WIRETYPE_END_GROUP = tag + 1"
proof -
  have "MakeTag (GetTagFieldNumber tag) WIRETYPE_END_GROUP = push_bit 3 (drop_bit 3 tag) OR wire_code WIRETYPE_END_GROUP"
    by (simp add: MakeTag_def number_code)
  also have "\<dots> = drop_bit 3 tag * 8 + 4" unfolding tag_sum [symmetric] by (simp add: wire_code_def)
  also have "\<dots> = tag + 1" using tag_split [of tag] assms by (simp add: algebra_simps)
  finally show ?thesis .
qed

lemma next_tag_nonzero: "(tag :: uint32) AND 7 = 3 \<Longrightarrow> tag + 1 \<noteq> 0"
proof
  assume t: "tag AND 7 = 3" and "tag + 1 = 0"
  then have "tag = - 1" by (simp add: eq_neg_iff_add_eq_0)
  with t show False by simp
qed

lemma signed_of_unsigned:
  fixes u :: int
  assumes "0 \<le> u" and "u < 4294967296"
  shows "(u + 2147483648) mod 4294967296 - 2147483648 = (if u < 2147483648 then u else u - 4294967296)"
proof (cases "u < 2147483648")
  case True
  then have "(u + 2147483648) mod 4294967296 = u + 2147483648" using assms by (intro mod_pos_pos_trivial) linarith+
  with True show ?thesis by simp
next
  case False
  have "(u - 2147483648 + 4294967296) mod 4294967296 = u - 2147483648"
    unfolding mod_add_self2 using assms False by (intro mod_pos_pos_trivial) linarith+
  moreover have "u - 2147483648 + 4294967296 = u + 2147483648" by simp
  ultimately show ?thesis using False by (simp only:) simp
qed

lemma sint_size:
  fixes v :: uint32
  shows "sint v < 0 \<longleftrightarrow> \<not> unat v < 2 ^ 31" and "unat v < 2 ^ 31 \<Longrightarrow> sint v = int (unat v)"
proof -
  define u where "u = uint v"
  have u: "0 \<le> u" "u < 4294967296" using unsigned_less [of v, where 'a = int] by (simp_all add: u_def)
  have s: "sint v = (u + 2147483648) mod 4294967296 - 2147483648"
    using int_word_sint [of u, where 'a = 32] by (simp add: u_def)
  have n: "unat v = nat u" by (simp add: u_def)
  show "sint v < 0 \<longleftrightarrow> \<not> unat v < 2 ^ 31" "unat v < 2 ^ 31 \<Longrightarrow> sint v = int (unat v)"
    unfolding s n signed_of_unsigned [OF u] using u by auto
qed

lemma number_result:
  assumes "ci_number ok rest chunk c m (value_of (varint_value 10 (ci_readable rest chunk c)))"
  obtains n c' where "m = ret (value_of (varint_value 10 (ci_readable rest chunk c)), c')"
    "ci_reads ok rest chunk n c c'" "ci_marks c' = ci_marks c" "takes (varint_value 10 (ci_readable rest chunk c)) n"
  using assms unfolding ci_number_def by blast

lemma marks_legit: "ci_marks c' = ci_marks c \<Longrightarrow> ci_legitimate_message_end c' = ci_legitimate_message_end c"
  by (simp add: ci_marks_def)

context zero_copy_stream
begin

lemma SkipField_varint:
  assumes r: "ready ok chunk d c" and t: "drop_bit 3 tag \<noteq> 0" "tag AND 7 = 0"
  shows "scalar_outcome ok rest chunk c u (old_scalar tag (readable c)) (WF_SkipField k Z tag (Some u) c)"
proof -
  have ty: "GetTagWireType tag = Some WIRETYPE_VARINT" by (simp add: wire_type_code t(2) wire_code_def)
  obtain n c' where v: "Ci_ReadVarint64 Z c = ret (value_of (varint_value 10 (readable c)), c')" "reads n c c'"
      "ci_marks c' = ci_marks c" "takes (varint_value 10 (readable c)) n"
    using ReadVarint64_result [of c] r by (auto simp: ready_def elim: number_result)
  show ?thesis
    using v marks_legit [OF v(3)] r t
    by (cases "varint_value 10 (readable c)")
      (auto simp: WF_SkipField.simps Let_def ty number_code scalar_outcome_def old_scalar_def ref_scalar_def
        dec_varint_def varint_word_def AddVarint_def ready_def intro: reads_still)
qed

lemma SkipField_fixed64:
  assumes r: "ready ok chunk d c" and t: "drop_bit 3 tag \<noteq> 0" "tag AND 7 = 1"
  shows "scalar_outcome ok rest chunk c u (old_scalar tag (readable c)) (WF_SkipField k Z tag (Some u) c)"
proof -
  have ty: "GetTagWireType tag = Some WIRETYPE_FIXED64" by (simp add: wire_type_code t(2) wire_code_def)
  have ok: "cok c" using r by (simp add: ready_def)
  show ?thesis
    using ReadLittleEndian64_result [OF ok] r t
    by (auto simp: WF_SkipField.simps Let_def ty number_code scalar_outcome_def old_scalar_def ref_scalar_def
        AddFixed64_def ready_def min_def dest!: marks_legit intro: reads_still)
qed

lemma SkipField_fixed32:
  assumes r: "ready ok chunk d c" and t: "drop_bit 3 tag \<noteq> 0" "tag AND 7 = 5"
  shows "scalar_outcome ok rest chunk c u (old_scalar tag (readable c)) (WF_SkipField k Z tag (Some u) c)"
proof -
  have ty: "GetTagWireType tag = Some WIRETYPE_FIXED32" by (simp add: wire_type_code t(2) wire_code_def)
  have ok: "cok c" using r by (simp add: ready_def)
  show ?thesis
    using ReadLittleEndian32_result [OF ok] r t
    by (auto simp: WF_SkipField.simps Let_def ty number_code scalar_outcome_def old_scalar_def ref_scalar_def
        AddFixed32_def ready_def min_def dest!: marks_legit intro: reads_still)
qed

lemma SkipField_string:
  assumes r: "ready ok chunk d c" and t: "drop_bit 3 tag \<noteq> 0" "tag AND 7 = 2"
  shows "scalar_outcome ok rest chunk c u (old_scalar tag (readable c)) (WF_SkipField k Z tag (Some u) c)"
proof -
  have ty: "GetTagWireType tag = Some WIRETYPE_LENGTH_DELIMITED" by (simp add: wire_type_code t(2) wire_code_def)
  have ok: "cok c" using r by (simp add: ready_def)
  note code = WF_SkipField.simps [of k Z tag "Some u" c]
  obtain n c1 where v: "Ci_ReadVarint32 Z c = ret (value_of (varint_value 10 (readable c)), c1)" "reads n c c1"
      "ci_marks c1 = ci_marks c" "takes (varint_value 10 (readable c)) n"
    using ReadVarint32_result [OF ok] by (auto elim: number_result)
  show ?thesis
  proof (cases "varint_value 10 (readable c)")
    case None
    then show ?thesis
      using v t reads_still [OF v(2)]
      by (simp add: code Let_def ty number_code scalar_outcome_def old_scalar_def old_string_code old_tag_def varint_word_def)
  next
    case (Some p)
    obtain m x where p: "p = (m, x)" by fastforce
    let ?len = "word_of_nat x :: uint32" and ?bs = "readable c"
    have n: "n = m" "m \<le> length ?bs" using v(4) Some p varint_value_bound [of 10 ?bs m x] by auto
    have rd: "readable c1 = drop m ?bs" using ci_reads_readable [OF v(2)] n by simp
    have fits: "sint ?len \<le> int (length (drop m ?bs)) \<longleftrightarrow> m + unat ?len \<le> length ?bs" if "unat ?len < 2 ^ 31"
      using n(2) unfolding sint_size(2) [OF that] by (simp del: of_nat_unat) linarith
    have run: "WF_SkipField k Z tag (Some u) c = bind_run (Ci_ReadString Z (sint ?len) [] c1) (\<lambda>(ok, str, c2).
        ret (ok, Some (AddLengthDelimited (drop_bit 3 tag) str u), c2))"
      using v(1) Some p t by (simp add: code Let_def ty number_code)
    note str = ReadString_result [OF ci_reads_ok [OF v(2)], of "sint ?len" "[]"]
    have spec: "old_scalar tag ?bs = (if unat ?len < 2 ^ 31 \<and> m + unat ?len \<le> length ?bs
        then Some (TYPE_LENGTH_DELIMITED (drop_bit 3 tag) (take (unat ?len) (drop m ?bs)), drop (m + unat ?len) ?bs) else None)"
      using t Some p by (simp add: old_scalar_def old_string_code old_tag_def varint_word_def)
    show ?thesis
    proof (cases "unat ?len < 2 ^ 31")
      case False
      then have "sint ?len < 0" using sint_size(1) [of ?len] by blast
      then show ?thesis using str False reads_still [OF v(2)] by (simp add: run spec scalar_outcome_def)
    next
      case True
      then have nn: "\<not> sint ?len < 0" "nat (sint ?len) = unat ?len" using sint_size [of ?len] by simp_all
      with str obtain c' where s: "Ci_ReadString Z (sint ?len) [] c1 =
            ret (m + unat ?len \<le> length ?bs, take (unat ?len) (drop m ?bs), c')"
          "reads (min (unat ?len) (length (readable c1))) c1 c'" "ci_marks c' = ci_marks c1"
        unfolding rd fits [OF True] by auto
      show ?thesis
        using True s(1) ci_reads_trans [OF v(2) s(2)] marks_legit [OF s(3)] marks_legit [OF v(3)] r n rd
        by (auto simp: run spec scalar_outcome_def AddLengthDelimited_def ready_def min_def intro: reads_still)
    qed
  qed
qed

section \<open>Groups and messages\<close>

lemma budget_simps [simp]:
  "cok (c\<lparr>ci_recursion_budget := b\<rparr>) = cok c" "readable (c\<lparr>ci_recursion_budget := b\<rparr>) = readable c"
  "ci_marks (c\<lparr>ci_recursion_budget := b\<rparr>) = ci_marks c"
  "ci_ahead rest chunk (c\<lparr>ci_recursion_budget := b\<rparr>) = ci_ahead rest chunk c"
  "CurrentPosition (c\<lparr>ci_recursion_budget := b\<rparr>) = CurrentPosition c"
  by (simp_all add: ci_ok_def ci_readable_def ci_ahead_def ci_behind_def ci_pending_def ci_parts ci_closest_def
      ci_marks_def cong: option.case_cong)

lemma budget_still [simp]:
  "still ok chunk (c\<lparr>ci_recursion_budget := b\<rparr>) c' = still ok chunk c c'"
  "still ok chunk c (c'\<lparr>ci_recursion_budget := b\<rparr>) = still ok chunk c c'"
  "still ok chunk c (DecrementRecursionDepth c') = still ok chunk c c'"
  by (simp_all add: still_def DecrementRecursionDepth_def)

lemma budget_reads:
  assumes "reads n (c\<lparr>ci_recursion_budget := b\<rparr>) c2"
  shows "reads n c (c2\<lparr>ci_recursion_budget := ci_recursion_budget c\<rparr>)" and "ci_recursion_budget c2 = b"
    and "ci_recursion_limit c2 = ci_recursion_limit c"
  using assms by (simp_all add: ci_reads_def ci_config_def)

lemma ready_reads:
  "ready ok chunk d c \<Longrightarrow> reads n c c' \<Longrightarrow> \<not> ci_legitimate_message_end c' \<Longrightarrow> ready ok chunk d c'"
  by (auto simp: ready_def ci_reads_def ci_config_def)

lemma SkipField_scalar:
  assumes "ready ok chunk d c" and "drop_bit 3 tag \<noteq> 0" and "tag AND 7 \<noteq> 3"
  shows "scalar_outcome ok rest chunk c u (old_scalar tag (readable c)) (WF_SkipField k Z tag (Some u) c)"
proof (cases "GetTagWireType tag")
  case None
  then have "tag AND 7 \<noteq> wire_code ty" for ty by (simp add: wire_type_code)
  from this [of WIRETYPE_VARINT] this [of WIRETYPE_FIXED64] this [of WIRETYPE_LENGTH_DELIMITED] this [of WIRETYPE_FIXED32]
  show ?thesis
    using assms None still_refl [OF assms(1)]
    by (simp add: WF_SkipField.simps Let_def number_code scalar_outcome_def old_scalar_def ref_scalar_def wire_code_def)
next
  case (Some ty)
  then have t: "tag AND 7 = wire_code ty" by (simp add: wire_type_code)
  show ?thesis
  proof (cases ty)
    case WIRETYPE_END_GROUP
    with t Some assms still_refl [OF assms(1)] show ?thesis
      by (simp add: WF_SkipField.simps Let_def number_code scalar_outcome_def old_scalar_def ref_scalar_def wire_code_def)
  qed (use t assms SkipField_varint SkipField_fixed64 SkipField_fixed32 SkipField_string
      in \<open>simp_all add: wire_code_def\<close>)
qed

text \<open>A group, given what skipping the message inside does.\<close>

lemma SkipField_group:
  assumes r: "ready ok chunk d c" and t: "drop_bit 3 tag \<noteq> 0" "tag AND 7 = 3" and d: "d \<noteq> 0"
    and inner: "skip_outcome ok rest chunk (c\<lparr>ci_recursion_budget := int d - 1\<rparr>) []
      g (WF_SkipMessage k' Z (Some []) (c\<lparr>ci_recursion_budget := int d - 1\<rparr>))"
  shows "scalar_outcome ok rest chunk c u (case g of
      Some (gs, AtTag t, bs) \<Rightarrow> if t = tag + 1 then Some (TYPE_GROUP (drop_bit 3 tag) gs, bs) else None | _ \<Rightarrow> None)
    (WF_SkipField (Suc k') Z tag (Some u) c)"
proof -
  have ty: "GetTagWireType tag = Some WIRETYPE_START_GROUP" by (simp add: wire_type_code t(2) wire_code_def)
  have budget: "ci_recursion_budget c = int d" "int d \<le> ci_recursion_limit c" using r by (simp_all add: ready_def)
  let ?c1 = "c\<lparr>ci_recursion_budget := int d - 1\<rparr>"
  have inc: "IncrementRecursionDepth c = (True, ?c1)" using d by (simp add: IncrementRecursionDepth_def Let_def budget)
  have run: "WF_SkipField (Suc k') Z tag (Some u) c = bind_run (WF_SkipMessage k' Z (Some []) ?c1) (\<lambda>(ok, gs, c2).
      if \<not> ok then ret (False, add_group (drop_bit 3 tag) (Some u) gs, c2)
      else ret (Ci_LastTagWas (tag + 1) (DecrementRecursionDepth c2), add_group (drop_bit 3 tag) (Some u) gs,
        DecrementRecursionDepth c2))"
    unfolding WF_SkipField.simps Let_def number_code end_tag [OF t(2)] using t ty by (simp add: inc)
  have dec_marks: "ci_last_tag (DecrementRecursionDepth c2) = ci_last_tag c2"
    "ci_legitimate_message_end (DecrementRecursionDepth c2) = ci_legitimate_message_end c2" for c2 :: "'s coded_input"
    by (simp_all add: DecrementRecursionDepth_def)
  note t1 = next_tag_nonzero [OF t(2)]
  show ?thesis
  proof (cases g)
    case None
    with inner obtain b u' c' where "WF_SkipMessage k' Z (Some []) ?c1 = ret (b, u', c')" "b \<longrightarrow> ci_marks c' = (0, False)"
        "still ok chunk c c'"
      by (auto simp: skip_outcome_def)
    then show ?thesis
      using None t1 by (cases b) (auto simp: run scalar_outcome_def Ci_LastTagWas_def dec_marks ci_marks_def)
  next
    case (Some x)
    then obtain gs e bs where g: "g = Some (gs, e, bs)" by (cases x) auto
    with inner obtain n c2 where i: "WF_SkipMessage k' Z (Some []) ?c1 = ret (True, Some gs, c2)" "reads n ?c1 c2"
        "bs = drop n (readable c)" "ci_marks c2 = end_marks e"
      by (auto simp: skip_outcome_def)
    have dec: "DecrementRecursionDepth c2 = c2\<lparr>ci_recursion_budget := ci_recursion_budget c\<rparr>"
      using budget_reads(2,3) [OF i(2)] budget by (simp add: DecrementRecursionDepth_def)
    show ?thesis
      using i budget_reads(1) [OF i(2)] reads_still [OF budget_reads(1) [OF i(2)]] t1
      by (cases e) (auto simp: g run scalar_outcome_def dec Ci_LastTagWas_def ci_marks_def add_group_def AddGroup_def)
  qed
qed

lemma SkipMessage_step:
  assumes r: "ready ok chunk d c" and some: "readable c \<noteq> []" and tag: "old_tag (readable c) = Some (n, t)"
    and t: "t \<noteq> 0" "t AND 7 \<noteq> 4"
    and field: "\<And>c'. ready ok chunk d c' \<Longrightarrow> readable c' = drop n (readable c) \<Longrightarrow>
      scalar_outcome ok rest chunk c' u f (WF_SkipField k Z t (Some u) c')"
  shows "case f of
      None \<Rightarrow> skip_outcome ok rest chunk c u None (WF_SkipMessage (Suc k) Z (Some u) c)
    | Some (x, bs) \<Rightarrow> \<exists>m c2. ready ok chunk d c2 \<and> readable c2 = bs \<and> reads m c c2 \<and>
        WF_SkipMessage (Suc k) Z (Some u) c = WF_SkipMessage k Z (Some (u @ [x])) c2"
proof -
  have ok: "cok c" using r by (simp add: ready_def)
  obtain v where v: "varint_value 10 (readable c) = Some (n, v)" "t = word_of_nat v"
    using tag by (auto simp: old_tag_def varint_word_def)
  obtain c1 where c1: "Ci_ReadTag Z c = ret (t, c1)" "reads n c c1" "ci_marks c1 = (t, snd (ci_marks c))"
    using ReadTag_result [OF ok some] v by (auto simp: tag_of_def)
  have legit: "\<not> ci_legitimate_message_end c1" using c1(3) r by (simp add: ci_marks_def ready_def)
  have ty: "GetTagWireType t \<noteq> Some WIRETYPE_END_GROUP" using t(2) by (simp add: wire_type_code wire_code_def)
  have run: "WF_SkipMessage (Suc k) Z (Some u) c = bind_run (WF_SkipField k Z t (Some u) c1) (\<lambda>(ok, u1, c2).
      if \<not> ok then ret (False, u1, c2) else WF_SkipMessage k Z u1 c2)"
    using c1(1) t(1) ty by (simp add: WF_SkipMessage.simps)
  have f: "scalar_outcome ok rest chunk c1 u f (WF_SkipField k Z t (Some u) c1)"
    by (rule field [OF ready_reads [OF r c1(2) legit] ci_reads_readable [OF c1(2)]])
  show ?thesis
  proof (cases f)
    case None
    with f still_trans [OF reads_still [OF c1(2)]] show ?thesis by (auto simp: scalar_outcome_def run skip_outcome_def)
  next
    case (Some y)
    obtain x bs where y: "y = (x, bs)" by fastforce
    with f Some obtain m c2 where c2: "WF_SkipField k Z t (Some u) c1 = ret (True, Some (u @ [x]), c2)" "reads m c1 c2"
        "bs = drop m (readable c1)" "\<not> ci_legitimate_message_end c2"
      by (auto simp: scalar_outcome_def)
    have "reads (n + m) c c2" by (rule ci_reads_trans [OF c1(2) c2(2)])
    then show ?thesis
      using Some y c2 ready_reads [OF r _ c2(4)] ci_reads_readable [OF c2(2)] by (auto simp: run)
  qed
qed

lemma skip_outcome_later:
  assumes m: "reads m c c2" and out: "skip_outcome ok rest chunk c2 (u @ [x]) r R"
  shows "skip_outcome ok rest chunk c u (map_option (\<lambda>(fs, e, bs). (x # fs, e, bs)) r) R"
proof (cases r)
  case None
  with out still_trans [OF reads_still [OF m]] show ?thesis unfolding skip_outcome_def by auto
next
  case (Some y)
  obtain fs e bs where y: "y = (fs, e, bs)" by (cases y)
  with Some out obtain n c' where c': "R = ret (True, Some ((u @ [x]) @ fs), c')" "reads n c2 c'"
      "bs = drop n (readable c2)" "ci_marks c' = end_marks e"
    by (auto simp: skip_outcome_def)
  have "bs = drop (m + n) (readable c)" using c'(3) ci_reads_readable [OF m] by (simp add: add.commute)
  with Some y c'(1,4) ci_reads_trans [OF m c'(2)] show ?thesis by (auto simp: skip_outcome_def)
qed

lemma SkipMessage_stops:
  assumes r: "ready ok chunk d c" and some: "readable c \<noteq> []"
    and t: "tag_of (varint_value 10 (readable c)) = t" "t = 0 \<or> t AND 7 = 4"
  shows "\<exists>n c'. WF_SkipMessage (Suc k) Z (Some u) c = ret (True, Some u, c') \<and> reads n c c' \<and>
    ci_marks c' = (t, False) \<and> takes (varint_value 10 (readable c)) n"
proof -
  have ok: "cok c" and legit: "snd (ci_marks c) = False" using r by (simp_all add: ready_def ci_marks_def)
  obtain n c' where "Ci_ReadTag Z c = ret (t, c')" "reads n c c'" "ci_marks c' = (t, False)"
      "takes (varint_value 10 (readable c)) n"
    using ReadTag_result [OF ok some] unfolding t(1) legit by blast
  then show ?thesis using t(2) by (auto simp: WF_SkipMessage.simps wire_type_code wire_code_def)
qed

lemma skip_refines:
  "ready ok chunk d c \<Longrightarrow> readable c = bs \<Longrightarrow> old_field k d tag bs = Some f \<Longrightarrow>
    scalar_outcome ok rest chunk c u f (WF_SkipField k Z tag (Some u) c)"
  "ready ok chunk d c \<Longrightarrow> readable c = bs \<Longrightarrow> old_fields k d bs = Some r \<Longrightarrow>
    skip_outcome ok rest chunk c u r (WF_SkipMessage k Z (Some u) c)"
proof (induction k d tag bs and k d bs arbitrary: c u f and c u r rule: old_field_old_fields.induct)
  case (1 k d tag bs)
  show ?case
  proof (cases "drop_bit 3 tag = 0 \<or> tag AND 7 \<noteq> 3")
    case True
    then show ?thesis
      using 1(2-4) SkipField_scalar [OF 1(2), of tag u k] still_refl [OF 1(2)]
      by (auto simp: old_field.simps WF_SkipField.simps Let_def number_code scalar_outcome_def split: if_splits)
  next
    case False
    then have t: "drop_bit 3 tag \<noteq> 0" "tag AND 7 = 3" by auto
    have budget: "ci_recursion_budget c = int d" using 1(2) by (simp add: ready_def)
    show ?thesis
    proof (cases "d = 0")
      case True
      have "GetTagWireType tag = Some WIRETYPE_START_GROUP" by (simp add: wire_type_code t(2) wire_code_def)
      then show ?thesis
        using t 1(4) True budget still_refl [OF 1(2)]
        by (simp add: old_field.simps WF_SkipField.simps Let_def number_code scalar_outcome_def IncrementRecursionDepth_def)
    next
      case d: False
      then obtain k' g where k: "k = Suc k'" and g: "old_fields k' (d - 1) bs = Some g"
          "f = (case g of Some (gs, AtTag t, bs) \<Rightarrow> if t = tag + 1 then Some (TYPE_GROUP (drop_bit 3 tag) gs, bs) else None
            | _ \<Rightarrow> None)"
        using 1(4) t by (auto simp: old_field.simps split: nat.splits)
      have "ready ok chunk (d - 1) (c\<lparr>ci_recursion_budget := int d - 1\<rparr>)"
        using 1(2) d by (simp add: ready_def)
      then have "skip_outcome ok rest chunk (c\<lparr>ci_recursion_budget := int d - 1\<rparr>) [] g
          (WF_SkipMessage k' Z (Some []) (c\<lparr>ci_recursion_budget := int d - 1\<rparr>))"
        using 1(1) [of k' "c\<lparr>ci_recursion_budget := int d - 1\<rparr>" g "[]"] t d k g(1) 1(3) by simp
      from SkipField_group [OF 1(2) t d this, of u] show ?thesis unfolding g(2) k .
    qed
  qed
next
  case (2 d bs)
  then show ?case by (simp add: old_fields.simps)
next
  case (3 k d bs)
  have ok: "cok c" and lim: "ci_current_limit c \<le> ci_total_bytes_limit c" and legit: "\<not> ci_legitimate_message_end c"
    using 3(3) by (simp_all add: ready_def)
  show ?case
  proof (cases "bs = [] \<or> old_tag bs = None \<or> (\<exists>n t. old_tag bs = Some (n, t) \<and> (t = 0 \<or> t AND 7 = 4))")
    case True
    show ?thesis
    proof (cases "bs = []")
      case True
      then show ?thesis
        using ReadTag_end [OF ok lim] 3(4,5)
        by (auto simp: old_fields.simps WF_SkipMessage.simps skip_outcome_def)
    next
      case ne: False
      let ?t = "tag_of (varint_value 10 (readable c))"
      have stop: "?t = 0 \<or> ?t AND 7 = 4" using True ne 3(4) by (auto simp: old_tag_def varint_word_def tag_of_def)
      obtain n c' where r: "WF_SkipMessage (Suc k) Z (Some u) c = ret (True, Some u, c')" "reads n c c'"
          "ci_marks c' = (?t, False)" "takes (varint_value 10 (readable c)) n"
        using SkipMessage_stops [OF 3(3) _ refl stop] ne 3(4) by blast
      show ?thesis
      proof (cases "?t = 0")
        case True
        then have "r = None"
          using 3(4,5) ne by (auto simp: old_fields.simps old_tag_def varint_word_def tag_of_def split: option.splits)
        then show ?thesis using r True reads_still [OF r(2)] by (auto simp: skip_outcome_def intro!: exI [of _ True])
      next
        case False
        then obtain v where v: "varint_value 10 bs = Some (n, v)" "?t = word_of_nat v"
          using r(4) 3(4) by (cases "varint_value 10 bs") (auto simp: tag_of_def)
        then have "r = Some ([], AtTag ?t, drop n bs)"
          using 3(4,5) ne stop False by (auto simp: old_fields.simps old_tag_def varint_word_def)
        then show ?thesis using r 3(4) by (auto simp: skip_outcome_def)
      qed
    qed
  next
    case False
    then obtain n t where t: "bs \<noteq> []" "old_tag bs = Some (n, t)" "t \<noteq> 0" "t AND 7 \<noteq> 4" by auto
    obtain f where f: "old_field k d t (drop n bs) = Some f" using 3(5) t by (auto simp: old_fields.simps split: option.splits)
    have step: "case f of
        None \<Rightarrow> skip_outcome ok rest chunk c u None (WF_SkipMessage (Suc k) Z (Some u) c)
      | Some (x, bs') \<Rightarrow> \<exists>m c2. ready ok chunk d c2 \<and> readable c2 = bs' \<and> reads m c c2 \<and>
          WF_SkipMessage (Suc k) Z (Some u) c = WF_SkipMessage k Z (Some (u @ [x])) c2"
      by (rule SkipMessage_step [OF 3(3)]) (use 3(1) [OF t(1,2) refl t(3,4) _ _ f] t 3(4) in auto)
    show ?thesis
    proof (cases f)
      case None
      with step 3(5) t f show ?thesis by (auto simp: old_fields.simps)
    next
      case (Some y)
      obtain x bs' where y: "y = (x, bs')" by fastforce
      with Some step obtain m c2 where c2: "ready ok chunk d c2" "readable c2 = bs'" "reads m c c2"
          "WF_SkipMessage (Suc k) Z (Some u) c = WF_SkipMessage k Z (Some (u @ [x])) c2" by auto
      obtain r' where r': "old_fields k d bs' = Some r'" "r = map_option (\<lambda>(fs, e, bs3). (x # fs, e, bs3)) r'"
        using 3(5) t f Some y by (auto simp: old_fields.simps)
      have "skip_outcome ok rest chunk c2 (u @ [x]) r' (WF_SkipMessage k Z (Some (u @ [x])) c2)"
        using 3(2) [OF t(1,2) refl t(3,4) f Some y [symmetric] c2(1,2) r'(1)] .
      then show ?thesis unfolding c2(4) r'(2) by (rule skip_outcome_later [OF c2(3)])
    qed
  qed
qed

end

end
