(* ===== verification/Wire_Skip_Properties.thy ===== *)
theory Wire_Skip_Properties
  imports Wire_Skip_Spec
begin

unbundle bit_operations_syntax

text \<open>
  What the parser of unknown fields over a \<^verbatim>\<open>CodedInputStream\<close> promises: it implements the
  reference parser however the input is split into blocks, accepts everything the parser over flat
  buffers accepts, and reads back what the serializer writes.
\<close>

section \<open>The reference parser\<close>

lemma old_tag_bound: "old_tag bs = Some (n, t) \<Longrightarrow> 0 < n \<and> n \<le> length bs"
  by (auto simp: old_tag_def varint_word_def dest!: varint_value_bound)

lemma old_scalar_length: "old_scalar tag bs = Some (f, bs2) \<Longrightarrow> length bs2 \<le> length bs"
  by (auto simp: old_scalar_def old_string_def dest!: ref_scalar_length split: if_splits option.splits)

lemma old_fields_length:
  "old_field k d tag bs = Some (Some (f, bs2)) \<Longrightarrow> length bs2 \<le> length bs"
  "old_fields k d bs = Some (Some (fs, e, bs3)) \<Longrightarrow> length bs3 \<le> length bs"
proof (induction k d tag bs and k d bs arbitrary: f bs2 and fs e bs3 rule: old_field_old_fields.induct)
  case (1 k d tag bs)
  then show ?case
    by (auto simp: old_field.simps closed_group dest: old_scalar_length split: if_splits nat.splits)
next
  case (2 d bs)
  then show ?case by (simp add: old_fields.simps)
next
  case (3 k d bs)
  show ?case
  proof (cases "bs = []")
    case True
    with 3(3) show ?thesis by (simp add: old_fields.simps)
  next
    case bs: False
    then obtain n t where t: "old_tag bs = Some (n, t)" "t \<noteq> 0" using 3(3) by (auto simp: old_fields.simps split: option.splits if_splits)
    show ?thesis
    proof (cases "t AND 7 = 4")
      case True
      with 3(3) bs t show ?thesis by (auto simp: old_fields.simps)
    next
      case False
      then obtain f bs2 gs where f: "old_field k d t (drop n bs) = Some (Some (f, bs2))"
          "old_fields k d bs2 = Some (Some (gs, e, bs3))"
        using 3(3) bs t by (auto simp: old_fields.simps split: option.splits)
      from 3(1) [OF bs t(1) refl t(2) False f(1)] 3(2) [OF bs t(1) refl t(2) False f(1) refl refl f(2)]
      show ?thesis by simp
    qed
  qed
qed

lemma old_fields_end: "old_fields k d bs = Some (Some (fs, AtEnd, bs3)) \<Longrightarrow> bs3 = []"
proof (induction k arbitrary: bs fs bs3)
  case (Suc k)
  then show ?case by (auto simp: old_fields.simps split: if_splits option.splits)
qed (simp add: old_fields.simps)

text \<open>Twice the number of bytes is fuel enough.\<close>

lemma old_fields_fuel:
  "2 * length bs + 1 < k \<Longrightarrow> old_field k d tag bs \<noteq> None"
  "2 * length bs < k \<Longrightarrow> old_fields k d bs \<noteq> None"
proof (induction k d tag bs and k d bs rule: old_field_old_fields.induct)
  case (1 k d tag bs)
  obtain k' where k: "k = Suc k'" using 1(2) by (cases k) auto
  show ?case using 1 by (auto simp: old_field.simps k)
next
  case (2 d bs)
  then show ?case by simp
next
  case (3 k d bs)
  show ?case
  proof (cases "bs = [] \<or> old_tag bs = None \<or> (\<exists>n t. old_tag bs = Some (n, t) \<and> (t = 0 \<or> t AND 7 = 4))")
    case True
    then show ?thesis by (auto simp: old_fields.simps)
  next
    case False
    then obtain n t where t: "bs \<noteq> []" "old_tag bs = Some (n, t)" "t \<noteq> 0" "t AND 7 \<noteq> 4" by auto
    have n: "2 * length (drop n bs) + 1 < k" using 3(3) old_tag_bound [OF t(2)] by auto
    obtain r where r: "old_field k d t (drop n bs) = Some r" using 3(1) [OF t(1,2) refl t(3,4) n] by auto
    show ?thesis
    proof (cases r)
      case None
      with t r show ?thesis by (simp add: old_fields.simps)
    next
      case (Some y)
      obtain f bs2 where y: "y = (f, bs2)" by fastforce
      have "2 * length bs2 < k" using old_fields_length(1) [of k d t "drop n bs" f bs2] r Some y n by auto
      from 3(2) [OF t(1,2) refl t(3,4) r Some y [symmetric] this] show ?thesis
        using t r Some y by (simp add: old_fields.simps)
    qed
  qed
qed

lemma varint_value_limit: "varint_value j bs = Some p \<Longrightarrow> j \<le> k \<Longrightarrow> varint_value k bs = Some p"
proof (induction j bs arbitrary: k p rule: varint_value.induct)
  case (3 j b bs)
  obtain k' where k: "k = Suc k'" "j \<le> k'" using 3(3) by (cases k) auto
  show ?case
  proof (cases "b < 128")
    case True
    with 3(2) k show ?thesis by simp
  next
    case False
    then obtain q where "varint_value j bs = Some q" using 3(2) by auto
    with 3(1) [OF False this k(2)] 3(2) False k(1) show ?thesis by simp
  qed
qed simp_all

lemma old_tag_new: "dec_tag bs = Some r \<Longrightarrow> old_tag bs = Some r"
proof -
  assume r: "dec_tag bs = Some r"
  then obtain p where p: "varint_value 5 bs = Some p" by (auto simp: dec_tag_def varint_word_def)
  from varint_value_limit [OF p, of 10] r p show "old_tag bs = Some r" by (simp add: dec_tag_def old_tag_def)
qed

lemma old_string_new: "ref_string bs = Some r \<Longrightarrow> old_string bs = Some r"
proof -
  assume r: "ref_string bs = Some r"
  then obtain n sz where d: "dec_size bs = Some (n, sz)" by (auto simp: ref_string_def split: option.splits)
  then have "dec_tag bs = Some (n, sz)"
    by (auto simp: dec_size_def dec_tag_def varint_word_def size_limit_def bind_eq_Some_conv split: if_splits)
  moreover have "unat sz < 2 ^ 31" using dec_size_5(2) [OF d] sint_size(1) [of sz] by (metis not_less of_nat_0_le_iff)
  ultimately show "old_string bs = Some r"
    using r d old_tag_new [of bs] by (simp add: old_string_code ref_string_def)
qed

lemma old_scalar_new: "ref_scalar tag bs = Some r \<Longrightarrow> old_scalar tag bs = Some r"
  by (auto simp: old_scalar_def ref_scalar_def Let_def dest!: old_string_new)

text \<open>What the reference of the newer parser accepts, this one reads the same way, a zero tag apart.\<close>

lemma old_fields_new:
  "ref_fields k d bs = Some (Some (fs, e, bs3)) \<Longrightarrow> e \<noteq> AtTag 0 \<Longrightarrow> old_fields k d bs = Some (Some (fs, e, bs3))"
  "ref_field k d tag bs = Some (Some x) \<Longrightarrow> old_field k d tag bs = Some (Some x)"
  "ref_group k d tag bs = Some (Some (g, bs2)) \<Longrightarrow> tag AND 7 = 3 \<Longrightarrow>
    \<exists>k'. k = Suc k' \<and> d \<noteq> 0 \<and> old_fields k' (d - 1) bs = Some (Some (g, AtTag (tag + 1), bs2))"
proof (induction k d bs and k d tag bs and k d tag bs arbitrary: fs e bs3 and x and g bs2
    rule: ref_fields_ref_field_ref_group.induct)
  case (1 d bs)
  then show ?case by (simp add: ref_fields.simps)
next
  case (2 k d bs)
  show ?case
  proof (cases "bs = []")
    case True
    then show ?thesis using 2(3) by (simp add: ref_fields.simps old_fields.simps)
  next
    case bs: False
    then obtain n t where t: "dec_tag bs = Some (n, t)" using 2(3) by (auto simp: ref_fields.simps split: option.splits)
    show ?thesis
    proof (cases "t = 0 \<or> t AND 7 = 4")
      case True
      then show ?thesis using 2(3,4) bs t old_tag_new [OF t] by (auto simp: ref_fields.simps old_fields.simps)
    next
      case False
      then obtain f bs2 fs' where f: "ref_field k d t (drop n bs) = Some (Some (f, bs2))"
          "ref_fields k d bs2 = Some (Some (fs', e, bs3))" "fs = f # fs'"
        using 2(3) bs t by (auto simp: ref_fields.simps split: option.splits)
      have "old_field k d t (drop n bs) = Some (Some (f, bs2))" using 2(1) [OF bs t refl False f(1)] .
      moreover have "old_fields k d bs2 = Some (Some (fs', e, bs3))"
        using 2(2) [OF bs t refl False f(1) refl refl f(2) 2(4)] .
      ultimately show ?thesis using False bs old_tag_new [OF t] f(3) by (simp add: old_fields.simps)
    qed
  qed
next
  case (3 k d tag bs)
  show ?case
  proof (cases "tag AND 7 = 3")
    case True
    then obtain g bs2 where g: "ref_group k d tag bs = Some (Some (g, bs2))" "x = (TYPE_GROUP (drop_bit 3 tag) g, bs2)"
        "drop_bit 3 tag \<noteq> 0"
      using 3(2) by (auto simp: ref_field.simps split: if_splits)
    then show ?thesis using 3(1) [OF g(3) True g(1) True] True by (auto simp: old_field.simps)
  next
    case False
    then show ?thesis using 3(2) by (auto simp: ref_field.simps old_field.simps dest!: old_scalar_new split: if_splits)
  qed
next
  case (4 d tag bs)
  then show ?case by (simp add: ref_group.simps)
next
  case (5 k d tag bs)
  have r: "d \<noteq> 0" "ref_fields k (d - 1) bs = Some (Some (g, AtTag (tag + 1), bs2))"
    using 5(2) by (auto simp: ref_group.simps closed_group split: if_splits)
  have "AtTag (tag + 1) \<noteq> AtTag 0" using next_tag_nonzero [OF 5(3)] by simp
  from 5(1) [OF r this] r(1) show ?case by simp
qed

section \<open>A whole stream\<close>

lemma UnknownFieldSet_Clear_empty: "UnknownFieldSet_Clear fs = []"
proof -
  have "clear_loop n gs = []" for n gs by (induction n gs rule: clear_loop.induct) simp_all
  then show ?thesis by (simp add: UnknownFieldSet_Clear_def)
qed

context zero_copy_stream
begin

lemma parse_stream:
  assumes s: "ok s" and k: "2 * length (rest s) < k"
  defines "parsed \<equiv> whole (old_fields k 100 (take (nat INT_MAX) (rest s)))"
  shows "\<exists>b gs s'. Ufs_ParseFromZeroCopyStream k Z fs s = ret (b, gs, s') \<and> ok s' \<and>
    (case parsed of Some hs \<Rightarrow> b \<and> gs = hs \<and> (length (rest s) \<le> nat INT_MAX \<longrightarrow> rest s' = []) | None \<Rightarrow> \<not> b \<and> gs = [])"
proof -
  let ?bs = "take (nat INT_MAX) (rest s)"
  obtain c where c: "CodedInputStream Z s = ret c" "cok c" "readable c = ?bs" "ci_marks c = (0, False)"
      "ci_config c = (INT_MAX, INT_MAX, default_recursion_limit, default_recursion_limit, False, False)"
      "ci_ahead rest chunk c = rest s"
    using CodedInputStream_result [OF s] by blast
  have r: "ready ok chunk 100 c"
    using c(2,4,5) by (simp add: ready_def ci_marks_def ci_config_def default_recursion_limit_def)
  have "2 * length ?bs < k" using k by simp
  then obtain x where x: "old_fields k 100 ?bs = Some x" using old_fields_fuel(2) by blast
  have out: "skip_outcome ok rest chunk c [] x (WF_SkipMessage k Z (Some []) c)"
    by (rule skip_refines(2) [OF r c(3) x])
  have bye: "\<exists>s'. CodedInputStream_destroy Z c' = Inr (Some s') \<and> ok s' \<and> rest s' = ci_ahead rest chunk c'"
    if st: "still ok chunk c c'" for c'
  proof -
    obtain t where "ci_input c' = Some t" using st c(5) by (auto simp: still_def ci_config_def)
    then show ?thesis using CodedInputStream_destroy_result st by (fastforce simp: still_def)
  qed
  note code = Ufs_ParseFromZeroCopyStream_def ParseFromCodedStream_def MergeFromCodedStream_def
    UnknownFieldSet_Clear_empty MergeFromAndDestroy_def Ci_ConsumedEntireMessage_def
  show ?thesis
  proof (cases x)
    case None
    with out obtain b u' c' where m: "WF_SkipMessage k Z (Some []) c = ret (b, u', c')" "still ok chunk c c'"
        "b \<longrightarrow> \<not> ci_legitimate_message_end c'"
      by (auto simp: skip_outcome_def ci_marks_def)
    obtain s' where "CodedInputStream_destroy Z c' = Inr (Some s')" "ok s'" using bye [OF m(2)] by blast
    then show ?thesis
      using m(1,3) None x by (cases u') (auto simp: code c(1) parsed_def whole_def)
  next
    case (Some y)
    then obtain gs e bs where y: "x = Some (gs, e, bs)" by (cases y) auto
    with out obtain n c' where m: "WF_SkipMessage k Z (Some []) c = ret (True, Some gs, c')"
        "reads n c c'" "bs = drop n ?bs" "ci_marks c' = end_marks e"
      by (auto simp: skip_outcome_def c(3))
    obtain s' where s': "CodedInputStream_destroy Z c' = Inr (Some s')" "ok s'" "rest s' = drop n (rest s)"
      using bye [OF reads_still [OF m(2)]] m(2) c(6) by (auto simp: ci_reads_def)
    show ?thesis
    proof (cases e)
      case AtEnd
      have "bs = []" if "e = AtEnd" using old_fields_end x y that by blast
      then have "drop n (rest s) = []" if "length (rest s) \<le> nat INT_MAX" using m(3) that AtEnd by simp
      then show ?thesis using m(1,4) AtEnd x y s' by (auto simp: code c(1) parsed_def whole_def ci_marks_def)
    next
      case (AtTag t)
      then show ?thesis using m(1,4) x y s' by (auto simp: code c(1) parsed_def whole_def ci_marks_def)
    qed
  qed
qed

end

lemma parse_array:
  assumes "int (length data) \<le> INT_MAX" and "2 * length data < k"
  shows "\<exists>b gs s'. Ufs_ParseFromZeroCopyStream k array_input_stream fs (ArrayInputStream data block_size) = ret (b, gs, s') \<and>
    (case whole (old_fields k 100 data) of Some hs \<Rightarrow> b \<and> gs = hs \<and> array_rest s' = [] | None \<Rightarrow> \<not> b \<and> gs = [])"
proof -
  have "length data \<le> nat INT_MAX" using assms(1) by (simp add: nat_le_iff le_nat_iff)
  then show ?thesis
    using array_stream.parse_stream [OF array_ok_start [OF assms(1)], of block_size k fs] assms(2)
    unfolding array_rest_start by (auto split: option.splits)
qed

lemma parse_from_array:
  assumes "int (length data) \<le> INT_MAX" and "2 * length data < k"
  shows "Ufs_ParseFromArray k fs data = ret (case whole (old_fields k 100 data) of Some hs \<Rightarrow> (True, hs) | None \<Rightarrow> (False, []))"
  using parse_array [OF assms, of fs "- 1"] by (auto simp: Ufs_ParseFromArray_def split: option.splits)

section \<open>Properties\<close>

text \<open>
  C26: Parsing an \<^verbatim>\<open>UnknownFieldSet\<close> from a stream returns, whatever the bytes and
  however the stream splits them into blocks. It succeeds exactly when the reference parser accepts the
  whole input, then holds the fields of the reference and has consumed the stream; otherwise the set is
  left empty.
\<close>

theorem stream_parse_refines:
  assumes "int (length data) \<le> INT_MAX" and "2 * length data < k"
  shows "\<exists>b gs s'. Ufs_ParseFromZeroCopyStream k array_input_stream fs (ArrayInputStream data block_size) = ret (b, gs, s') \<and>
    (case whole (old_fields k 100 data) of Some hs \<Rightarrow> b \<and> gs = hs \<and> array_rest s' = [] | None \<Rightarrow> \<not> b \<and> gs = [])"
  using assms by (rule parse_array)

theorem stream_parse_refines_witness:
  "whole (old_fields 20 100 [10, 2, 7, 8, 24, 5]) = Some [TYPE_LENGTH_DELIMITED 1 [7, 8], TYPE_VARINT 3 5] \<and>
   (\<exists>s'. Ufs_ParseFromZeroCopyStream 20 array_input_stream [TYPE_FIXED32 1 1] (ArrayInputStream [10, 2, 7, 8, 24, 5] 1) =
     ret (True, [TYPE_LENGTH_DELIMITED 1 [7, 8], TYPE_VARINT 3 5], s'))"
proof -
  have r: "whole (old_fields 20 100 [10, 2, 7, 8, 24, 5]) = Some [TYPE_LENGTH_DELIMITED 1 [7, 8], TYPE_VARINT 3 5]"
    by code_simp
  have "int (length [10, 2, 7, 8, 24, 5 :: byte]) \<le> INT_MAX" by (simp add: INT_MAX_def)
  from stream_parse_refines [OF this, of 20 "[TYPE_FIXED32 1 1]" 1] r show ?thesis by auto
qed

text \<open>
  Everything the parser over flat buffers accepts, the parser over a stream accepts, with the same
  fields. The converse fails: the stream's parser reads a tag of six bytes.
\<close>

theorem stream_parse_accepts_flat:
  assumes "int (length data) \<le> INT_MAX" and "2 * length data < k"
    and "ParseContext_flat 100 data = (p, c)" and "UnknownGroupParse k [] p c = ret (q, c', fs)"
    and "q \<noteq> None" and "EndedAtLimit c'"
  shows "Ufs_ParseFromArray k gs data = ret (True, fs) \<and>
    Ufs_ParseFromArray 20 [] [0x88, 0x80, 0x80, 0x80, 0x80, 0x00, 0x05] = ret (True, [TYPE_VARINT 1 5]) \<and>
    whole (ref_fields 20 100 [0x88, 0x80, 0x80, 0x80, 0x80, 0x00, 0x05]) = None"
proof (intro conjI)
  have "ParseContext_flat (int 100) data = (p, c)" using assms(3) by simp
  then obtain g where "starts c p 100 data g" using ParseContext_flat_starts by blast
  from set_parse [OF this assms(2), of "[]"] assms(4-6) have "whole (ref_fields k 100 data) = Some fs"
    unfolding UnknownGroupParse_def by (auto split: option.splits)
  then obtain bs where "ref_fields k 100 data = Some (Some (fs, AtEnd, bs))"
    by (auto simp: whole_def split: option.splits ending.splits)
  then have "whole (old_fields k 100 data) = Some fs" using old_fields_new(1) by (fastforce simp: whole_def)
  then show "Ufs_ParseFromArray k gs data = ret (True, fs)" using parse_from_array [OF assms(1,2)] by simp
  have "whole (old_fields 20 100 [0x88, 0x80, 0x80, 0x80, 0x80, 0x00, 0x05]) = Some [TYPE_VARINT 1 5]" by code_simp
  then show "Ufs_ParseFromArray 20 [] [0x88, 0x80, 0x80, 0x80, 0x80, 0x00, 0x05] = ret (True, [TYPE_VARINT 1 5])"
    using parse_from_array [of "[0x88, 0x80, 0x80, 0x80, 0x80, 0x00, 0x05]" 20 "[]"] by (simp add: INT_MAX_def)
  show "whole (ref_fields 20 100 [0x88, 0x80, 0x80, 0x80, 0x80, 0x00, 0x05]) = None" by code_simp
qed

theorem stream_parse_accepts_flat_witness:
  "Ufs_ParseFromArray 9 [TYPE_VARINT 7 7] [24, 5] = ret (True, [TYPE_VARINT 3 5])"
proof -
  obtain p c where c: "ParseContext_flat (int 100) [24, 5] = (p, c)" by (metis surj_pair)
  have r: "whole (ref_fields 9 100 [24, 5]) = Some [TYPE_VARINT 3 5]" by code_simp
  obtain g where "starts c p 100 [24, 5] g" using ParseContext_flat_starts [OF c] ..
  from set_parse [OF this, of 9 "[]"] r obtain q c' where
    "UnknownGroupParse 9 [] p c = ret (q, c', [TYPE_VARINT 3 5])" "q \<noteq> None" "EndedAtLimit c'"
    unfolding UnknownGroupParse_def by auto
  then show ?thesis
    using stream_parse_accepts_flat [of "[24, 5]" 9 p c q c' "[TYPE_VARINT 3 5]" "[TYPE_VARINT 7 7]"] c
    by (simp add: INT_MAX_def)
qed

text \<open>
  A set of unknown fields written by the serializer, whose numbers are in range, whose strings are
  under 2 GB and whose groups are nested at most 100 deep, is read back from a stream as it was, whatever
  the set held before.
\<close>

theorem stream_round_trip:
  assumes "list_all (readable_field 100) fs" and "int (length (fields_bytes fs)) \<le> INT_MAX"
    and "2 * length (fields_bytes fs) < k"
  shows "Ufs_ParseFromArray k gs (fields_bytes fs) = ret (True, fs)"
proof -
  have "ref_fields k 100 (fields_bytes fs) = Some (Some (fs, AtEnd, []))"
    using ref_fields_bytes [OF assms(1), of AtEnd "[]" "[]" k] assms(3) by (simp add: follows_def)
  then have "whole (old_fields k 100 (fields_bytes fs)) = Some fs" using old_fields_new(1) by (fastforce simp: whole_def)
  then show ?thesis using parse_from_array [OF assms(2,3)] by simp
qed

theorem stream_round_trip_witness:
  "Ufs_ParseFromArray 30 [TYPE_VARINT 1 1] (fields_bytes [TYPE_VARINT 1 300, TYPE_GROUP 2 [TYPE_FIXED32 3 7]]) =
    ret (True, [TYPE_VARINT 1 300, TYPE_GROUP 2 [TYPE_FIXED32 3 7]])"
proof -
  have "length (fields_bytes [TYPE_VARINT 1 300, TYPE_GROUP 2 [TYPE_FIXED32 3 7]]) = 10" by code_simp
  then show ?thesis
    using stream_round_trip [of "[TYPE_VARINT 1 300, TYPE_GROUP 2 [TYPE_FIXED32 3 7]]" 30 "[TYPE_VARINT 1 1]"]
    by (simp add: INT_MAX_def)
qed

end
