(* ===== verification/Coded_Output.thy ===== *)
theory Coded_Output
  imports Eps_Buffer
begin

unbundle bit_operations_syntax

text \<open>
  \<^verbatim>\<open>CodedOutputStream\<close>, \<^verbatim>\<open>io/coded_stream.{h,cc}\<close>: the writer of the wire format
  for the users of the library, an \<^verbatim>\<open>EpsCopyOutputStream\<close> with a pointer of its own. The
  underlying stream has no other user, so its byte count is what it has handed out. Aliasing and the
  flag for deterministic serialization are left out.
\<close>

section \<open>What \<^verbatim>\<open>EpsCopyOutputStream\<close> does for it\<close>

definition stream_ByteCount :: "eps_out \<Rightarrow> int" where
  "stream_ByteCount s = int (length (concat (eo_blocks s)))"

definition Eps_ByteCount :: "ptr \<Rightarrow> eps_out \<Rightarrow> int res" where
  "Eps_ByteCount p s =
     (let delta = int (snd (eo_end s)) - int (snd p) + (if eo_buffer_end s = None then int SLOP else 0) in
      if eo_stream s = None then Inl NullDeref else Inr (stream_ByteCount s - delta))"

text \<open>\<^verbatim>\<open>stream_->Next(&data, &size)\<close>: the next block as it comes, also an empty one.\<close>

definition stream_block :: "nat \<Rightarrow> nat list \<Rightarrow> eps_out \<Rightarrow> ptr \<times> eps_out" where
  "stream_block n rest s =
     ((Block (length (eo_blocks s)), 0),
      s\<lparr>eo_stream := Some rest, eo_blocks := eo_blocks s @ [replicate n 0]\<rparr>)"

fun skip_blocks :: "nat list \<Rightarrow> nat \<Rightarrow> nat \<Rightarrow> ptr \<Rightarrow> eps_out \<Rightarrow> bool \<times> ptr \<times> eps_out" where
  "skip_blocks sizes count sz data s =
     (if count \<le> sz then (True, SetInitialBuffer (ptr_plus data count) (sz - count) s)
      else
        (case sizes of
           [] \<Rightarrow> (False, Eps_Error s)
         | n # rest \<Rightarrow> (case stream_block n rest s of (data', s') \<Rightarrow> skip_blocks rest (count - sz) n data' s')))"

declare skip_blocks.simps [simp del]

definition Eps_Skip :: "int \<Rightarrow> ptr \<Rightarrow> eps_out \<Rightarrow> (bool \<times> ptr \<times> eps_out) run" where
  "Eps_Skip count p s =
     (if count < 0 then ret (False, p, s)
      else if eo_had_error s then ret (False, (Patch, 0), s)
      else bind_run (Flush p s) (\<lambda>(size, s1).
        if eo_had_error s1 then ret (False, (Patch, 0), s1)
        else
          (case (eo_buffer_end s1, eo_stream s1) of
             (Some data, Some sizes) \<Rightarrow> ret (skip_blocks sizes (nat count) (nat size) data s1)
           | (Some data, None) \<Rightarrow>
               if count \<le> size then ret (True, SetInitialBuffer (ptr_plus data (nat count)) (nat (size - count)) s1)
               else Some (Inl NullDeref)
           | (None, _) \<Rightarrow> Some (Inl NullDeref))))"

fun direct_block :: "nat list \<Rightarrow> nat \<Rightarrow> ptr \<Rightarrow> eps_out \<Rightarrow> (ptr \<times> nat) option \<times> ptr \<times> eps_out" where
  "direct_block sizes sz data s =
     (if sz \<noteq> 0 then (Some (data, sz), SetInitialBuffer data sz s)
      else
        (case sizes of
           [] \<Rightarrow> (None, Eps_Error s)
         | n # rest \<Rightarrow> (case stream_block n rest s of (data', s') \<Rightarrow> direct_block rest n data' s')))"

declare direct_block.simps [simp del]

text \<open>The result of \<^verbatim>\<open>GetDirectBufferPointer\<close> is the buffer and its size, \<open>None\<close> is false.\<close>

definition Eps_GetDirectBufferPointer :: "ptr \<Rightarrow> eps_out \<Rightarrow> ((ptr \<times> nat) option \<times> ptr \<times> eps_out) run" where
  "Eps_GetDirectBufferPointer p s =
     (if eo_had_error s then ret (None, (Patch, 0), s)
      else bind_run (Flush p s) (\<lambda>(size, s1).
        if eo_had_error s1 then ret (None, (Patch, 0), s1)
        else
          (case (eo_buffer_end s1, eo_stream s1) of
             (Some data, Some sizes) \<Rightarrow> ret (direct_block sizes (nat size) data s1)
           | (Some data, None) \<Rightarrow>
               if size \<noteq> 0 then ret (Some (data, nat size), SetInitialBuffer data (nat size) s1) else Some (Inl NullDeref)
           | (None, _) \<Rightarrow> Some (Inl NullDeref))))"

section \<open>The class\<close>

record coded_output =
  co_impl :: eps_out
  co_cur :: ptr
  co_start_count :: int

text \<open>\<^verbatim>\<open>InitEagerly\<close> takes the first block of the stream; an empty one is dropped.\<close>

definition InitEagerly :: "coded_output \<Rightarrow> coded_output" where
  "InitEagerly w =
     (case eo_stream (co_impl w) of
        Some (n # rest) \<Rightarrow>
          if n > 0 then
            (case stream_block n rest (co_impl w) of (data, s) \<Rightarrow>
               case SetInitialBuffer data n s of (p, s') \<Rightarrow> w\<lparr>co_impl := s', co_cur := p\<rparr>)
          else w\<lparr>co_impl := (co_impl w)\<lparr>eo_stream := Some rest\<rparr>\<rparr>
      | _ \<Rightarrow> w)"

definition CodedOutputStream_lazy :: "nat list \<Rightarrow> coded_output" where
  "CodedOutputStream_lazy sizes =
     (case EpsCopyOutputStream_stream sizes of (p, s) \<Rightarrow>
        \<lparr>co_impl = s, co_cur = p, co_start_count = stream_ByteCount s\<rparr>)"

definition CodedOutputStream :: "bool \<Rightarrow> nat list \<Rightarrow> coded_output" where
  "CodedOutputStream eager_init sizes =
     (if eager_init then InitEagerly (CodedOutputStream_lazy sizes) else CodedOutputStream_lazy sizes)"

text \<open>\<^verbatim>\<open>cur_ = impl_.f(..., cur_)\<close>\<close>

definition with_cur :: "(ptr \<Rightarrow> eps_out \<Rightarrow> (ptr \<times> eps_out) run) \<Rightarrow> coded_output \<Rightarrow> coded_output run" where
  "with_cur f w = bind_run (f (co_cur w) (co_impl w)) (\<lambda>(p, s). ret (w\<lparr>co_cur := p, co_impl := s\<rparr>))"

definition Co_Trim :: "coded_output \<Rightarrow> coded_output run" where
  "Co_Trim = with_cur Trim"

definition CodedOutputStream_destroy :: "coded_output \<Rightarrow> coded_output run" where
  "CodedOutputStream_destroy w = Co_Trim w"

definition Co_HadError :: "coded_output \<Rightarrow> (bool \<times> coded_output) run" where
  "Co_HadError w =
     bind_run (with_cur FlushAndResetBuffer w) (\<lambda>w1. ret (eo_had_error (co_impl w1), w1))"

definition Co_Skip :: "int \<Rightarrow> coded_output \<Rightarrow> (bool \<times> coded_output) run" where
  "Co_Skip count w =
     bind_run (Eps_Skip count (co_cur w) (co_impl w)) (\<lambda>(ok, p, s). ret (ok, w\<lparr>co_cur := p, co_impl := s\<rparr>))"

definition Co_GetDirectBufferPointer :: "coded_output \<Rightarrow> ((ptr \<times> nat) option \<times> coded_output) run" where
  "Co_GetDirectBufferPointer w =
     bind_run (Eps_GetDirectBufferPointer (co_cur w) (co_impl w)) (\<lambda>(r, p, s). ret (r, w\<lparr>co_cur := p, co_impl := s\<rparr>))"

definition Co_GetDirectBufferForNBytesAndAdvance :: "nat \<Rightarrow> coded_output \<Rightarrow> (ptr option \<times> coded_output) run" where
  "Co_GetDirectBufferForNBytesAndAdvance n w =
     bind_run (GetDirectBufferForNBytesAndAdvance n (co_cur w) (co_impl w)) (\<lambda>(r, p, s).
       ret (r, w\<lparr>co_cur := p, co_impl := s\<rparr>))"

definition Co_WriteRaw :: "byte list \<Rightarrow> coded_output \<Rightarrow> coded_output run" where
  "Co_WriteRaw bs = with_cur (WriteRaw bs)"

definition Co_WriteString :: "byte list \<Rightarrow> coded_output \<Rightarrow> coded_output run" where
  "Co_WriteString str = Co_WriteRaw str"

text \<open>\<^verbatim>\<open>cur_ = impl_.EnsureSpace(cur_); SetCur(f(value, Cur()))\<close>\<close>

definition ensured :: "(nat \<Rightarrow> byte list \<Rightarrow> (nat \<times> byte list) res) \<Rightarrow> ptr \<Rightarrow> eps_out \<Rightarrow> (ptr \<times> eps_out) run" where
  "ensured f p s = bind_run (EnsureSpace p s) (\<lambda>(p1, s1). Some (at_ptr f p1 s1))"

definition Co_WriteLittleEndian32 :: "uint32 \<Rightarrow> coded_output \<Rightarrow> coded_output run" where
  "Co_WriteLittleEndian32 value = with_cur (ensured (WriteLittleEndian32ToArray value))"

definition Co_WriteLittleEndian64 :: "uint64 \<Rightarrow> coded_output \<Rightarrow> coded_output run" where
  "Co_WriteLittleEndian64 value = with_cur (ensured (WriteLittleEndian64ToArray value))"

definition Co_WriteVarint32 :: "uint32 \<Rightarrow> coded_output \<Rightarrow> coded_output run" where
  "Co_WriteVarint32 value = with_cur (ensured (WriteVarint32ToArray value))"

definition Co_WriteVarint64 :: "uint64 \<Rightarrow> coded_output \<Rightarrow> coded_output run" where
  "Co_WriteVarint64 value = with_cur (ensured (WriteVarint64ToArray value))"

text \<open>The conversion of a negative \<^verbatim>\<open>int32_t\<close> extends its sign.\<close>

definition Co_WriteVarint32SignExtended :: "uint32 \<Rightarrow> coded_output \<Rightarrow> coded_output run" where
  "Co_WriteVarint32SignExtended value = Co_WriteVarint64 (scast value)"

definition Co_WriteTag :: "uint32 \<Rightarrow> coded_output \<Rightarrow> coded_output run" where
  "Co_WriteTag value = Co_WriteVarint32 value"

definition Co_ByteCount :: "coded_output \<Rightarrow> int res" where
  "Co_ByteCount w =
     bind_res (Eps_ByteCount (co_cur w) (co_impl w)) (\<lambda>n.
       Inr (sint (word_of_int (n - co_start_count w) :: uint32)))"

section \<open>The functions on arrays\<close>

definition WriteRawToArray :: "byte list \<Rightarrow> nat \<Rightarrow> byte list \<Rightarrow> (nat \<times> byte list) res" where
  "WriteRawToArray bs target m = put target bs m"

definition WriteStringToArray :: "byte list \<Rightarrow> nat \<Rightarrow> byte list \<Rightarrow> (nat \<times> byte list) res" where
  "WriteStringToArray str target m = WriteRawToArray str target m"

definition WriteStringWithSizeToArray :: "byte list \<Rightarrow> nat \<Rightarrow> byte list \<Rightarrow> (nat \<times> byte list) res" where
  "WriteStringWithSizeToArray str target m =
     bind_res (WriteVarint32ToArray (word_of_nat (length str)) target m) (\<lambda>(target1, m1).
       WriteStringToArray str target1 m1)"

definition WriteVarint32SignExtendedToArray :: "uint32 \<Rightarrow> nat \<Rightarrow> byte list \<Rightarrow> (nat \<times> byte list) res" where
  "WriteVarint32SignExtendedToArray value target m = WriteVarint64ToArray (scast value) target m"

definition Co_WriteTagToArray :: "uint32 \<Rightarrow> nat \<Rightarrow> byte list \<Rightarrow> (nat \<times> byte list) res" where
  "Co_WriteTagToArray value target m = WriteVarint32ToArray value target m"

definition VarintSize32SignExtended :: "uint32 \<Rightarrow> nat" where
  "VarintSize32SignExtended value = VarintSize64 (scast value)"

definition VarintSize32SignExtendedPlusOne :: "uint32 \<Rightarrow> nat" where
  "VarintSize32SignExtendedPlusOne value = VarintSize64PlusOne (scast value)"

definition StaticVarintSize32 :: "uint32 \<Rightarrow> nat" where
  "StaticVarintSize32 v =
     (if v < 2 ^ 7 then 1 else if v < 2 ^ 14 then 2 else if v < 2 ^ 21 then 3 else if v < 2 ^ 28 then 4 else 5)"

section \<open>Writing\<close>

definition co_carries :: "bool \<Rightarrow> nat \<Rightarrow> byte list \<Rightarrow> coded_output \<Rightarrow> bool" where
  "co_carries strict R xs w \<longleftrightarrow> carries strict R xs (co_cur w) (co_impl w) \<and> co_start_count w = 0"

lemma with_cur_carries:
  assumes "streams f bs" and "co_carries q R xs w"
  obtains w' where "with_cur f w = ret w'" "co_carries (q \<or> bs \<noteq> []) R (xs @ bs) w'"
proof -
  have "carries q R xs (co_cur w) (co_impl w)" using assms(2) by (simp add: co_carries_def)
  from streamsD [OF assms(1) this] obtain p s where
    "f (co_cur w) (co_impl w) = ret (p, s)" "carries (q \<or> bs \<noteq> []) R (xs @ bs) p s" .
  with assms(2) show thesis by (intro that) (auto simp: with_cur_def co_carries_def)
qed

lemma streams_ensured:
  assumes "\<And>i m. f i m = put i bs m" and "length bs \<le> SLOP" and "bs \<noteq> []"
  shows "streams (ensured f) bs"
  using streams_EnsureSpace [OF raws_roomy [OF raws_put [OF assms(1)]] assms(2,3)]
  unfolding ensured_def by (simp add: roomy_def)

lemma varint_fits:
  "length (varint_bytes (unat (v :: uint64))) \<le> SLOP" "length (varint_bytes (unat (w :: uint32))) \<le> SLOP"
  using length_varint_bytes [of "unat v" 10] unsigned_less [of v, where 'a = nat]
    length_varint_bytes [of "unat w" 5] unsigned_less [of w, where 'a = nat] by (simp_all add: SLOP_def)

lemma streams_calls:
  "streams (ensured (WriteVarint32ToArray w)) (varint_bytes (unat w))"
  "streams (ensured (WriteVarint64ToArray v)) (varint_bytes (unat v))"
  "streams (ensured (WriteLittleEndian32ToArray w)) (le_bytes 4 w)"
  "streams (ensured (WriteLittleEndian64ToArray v)) (le_bytes 8 v)"
  using varint_fits(1) [of v] varint_fits(2) [of w]
  by (intro streams_ensured;
      simp add: WriteVarint32ToArray_def WriteVarint64ToArray_def UnsafeVarint_put WriteLittleEndian32ToArray_def
        WriteLittleEndian64ToArray_def SLOP_def flip: length_greater_0_conv)+

lemma FlushAndResetBuffer_carries:
  assumes c: "carries True R xs p s"
  shows "\<exists>p' s'. FlushAndResetBuffer p s = ret (p', s') \<and> carries True R xs p' s' \<and>
    (eo_had_error s' \<longleftrightarrow> R < length xs)"
proof (cases "eps_ok p s")
  case True
  then have d: "delivered p s = xs" "room_in s = R" using c had_error_simps [of p s] by (auto simp: carries_def)
  obtain n s1 where f: "Flush p s = ret (int n, s1)"
      "length xs \<le> R \<and> room_in s1 = R \<and> (\<exists>be. flushed xs be n s1) \<or>
       n = 0 \<and> R < length xs \<and> eps_lost (Patch, 0) s1 \<and> concat (eo_blocks s1) = take R xs"
    using Flush_ok [OF True] unfolding d by blast
  have run: "FlushAndResetBuffer p s = (if eo_had_error s1 then ret ((Patch, 0), s1)
      else case eo_buffer_end s1 of None \<Rightarrow> Some (Inl NullDeref) | Some be \<Rightarrow> ret (SetInitialBuffer be n s1))"
    using f(1) had_error_simps(1) [OF True] by (simp add: FlushAndResetBuffer_def split: option.split)
  from f(2) show ?thesis
  proof (elim disjE conjE exE)
    fix be assume a: "length xs \<le> R" "room_in s1 = R" "flushed xs be n s1"
    obtain p2 s2 where s2: "SetInitialBuffer be n s1 = (p2, s2)" by (metis surj_pair)
    have "FlushAndResetBuffer p s = ret (p2, s2)" using a(3) s2 by (simp add: run flushed_def)
    moreover have "eps_ok p2 s2" "carries True R xs p2 s2"
      using SetInitialBuffer_ok [OF a(3) s2] a(2) by (simp_all add: carries_def)
    ultimately show ?thesis using a(1) had_error_simps(1) by fastforce
  next
    assume "R < length xs" "eps_lost (Patch, 0) s1" "concat (eo_blocks s1) = take R xs"
    then show ?thesis by (auto simp: run carries_def eps_lost_def)
  qed
next
  case False
  with c show ?thesis by (auto simp: carries_def FlushAndResetBuffer_def eps_lost_def)
qed

lemma Co_HadError_carries:
  assumes "co_carries True R xs w"
  obtains w' where "Co_HadError w = ret (R < length xs, w')" "co_carries True R xs w'"
proof -
  obtain p s where "FlushAndResetBuffer (co_cur w) (co_impl w) = ret (p, s)" "carries True R xs p s"
      "eo_had_error s \<longleftrightarrow> R < length xs"
    using FlushAndResetBuffer_carries assms unfolding co_carries_def by blast
  then show thesis
    using assms by (intro that [of "w\<lparr>co_cur := p, co_impl := s\<rparr>"]) (auto simp: Co_HadError_def with_cur_def co_carries_def)
qed

lemma Co_ByteCount_carries:
  assumes "co_carries q R xs w" and "\<not> eo_had_error (co_impl w)" and "int (length xs) \<le> INT_MAX"
  shows "Co_ByteCount w = Inr (int (length xs))"
proof -
  let ?p = "co_cur w" and ?s = "co_impl w"
  have ok: "eps_ok ?p ?s" and d: "delivered ?p ?s = xs" and start: "co_start_count w = 0"
    using assms(1,2) by (auto simp: co_carries_def carries_def eps_lost_def)
  have "Eps_ByteCount ?p ?s = Inr (int (length xs))"
  proof (cases "eo_buffer_end ?s")
    case None
    then show ?thesis
      using ok unfolding d [symmetric]
      by (auto simp: Eps_ByteCount_def stream_ByteCount_def delivered_def eps_ok_def length_concat_last Let_def)
  next
    case (Some be)
    then show ?thesis
      using ok unfolding d [symmetric]
      by (auto simp: Eps_ByteCount_def stream_ByteCount_def delivered_def eps_ok_def length_concat_last Let_def SLOP_def
          split: if_splits)
  qed
  moreover have "sint (word_of_int (int (length xs)) :: uint32) = int (length xs)"
    using assms(3) unfolding sint_sbintrunc' by (intro signed_take_bit_int_eq_self) (simp_all add: INT_MAX_def)
  ultimately show ?thesis using start by (simp add: Co_ByteCount_def)
qed

lemma CodedOutputStream_start: "co_carries True (sum_list sizes) [] (CodedOutputStream eager sizes)"
proof -
  obtain p s where s: "EpsCopyOutputStream_stream sizes = (p, s)" by (metis surj_pair)
  have lazy: "co_carries True (sum_list sizes) [] (CodedOutputStream_lazy sizes)"
    using stream_start [OF s] s by (auto simp: CodedOutputStream_lazy_def co_carries_def stream_ByteCount_def
        EpsCopyOutputStream_stream_def)
  show ?thesis
  proof (cases "eager \<and> sizes \<noteq> []")
    case True
    then obtain n rest where sz: "sizes = n # rest" by (cases sizes) auto
    have flushed: "flushed [] (Block 0, 0) n (s\<lparr>eo_buffer_end := Some (Block 0, 0), eo_stream := Some rest, eo_blocks := [replicate n 0]\<rparr>)"
      using s by (auto simp: EpsCopyOutputStream_stream_def flushed_def last_block_def)
    show ?thesis
      using True lazy s
      by (auto simp: CodedOutputStream_def InitEagerly_def CodedOutputStream_lazy_def sz EpsCopyOutputStream_stream_def
          stream_block_def SetInitialBuffer_def co_carries_def carries_def eps_ok_def delivered_def room_in_def
          stream_ByteCount_def ptr_plus_def last_block_def SLOP_def split: prod.splits)
  next
    case False
    with lazy show ?thesis
      by (cases sizes) (auto simp: CodedOutputStream_def InitEagerly_def CodedOutputStream_lazy_def EpsCopyOutputStream_stream_def)
  qed
qed

section \<open>Writing around the class\<close>

text \<open>
  \<^verbatim>\<open>Skip\<close> leaves bytes in the stream that nobody wrote; \<^verbatim>\<open>GetDirectBufferPointer\<close>
  gives out the rest of the last block, or a new one. The two are meant to be used together.
\<close>

lemma flushed_all:
  assumes "flushed xs be n s"
  obtains ys where "concat (eo_blocks s) = xs @ ys" "length ys = n"
proof (cases "eo_blocks s" rule: rev_cases)
  case Nil
  with assms that [of "[]"] show thesis by (simp add: flushed_def)
next
  case (snoc bs b)
  with assms that [of "drop (snd be) b"] show thesis by (auto simp: flushed_def)
qed

lemma flushed_further:
  assumes "flushed xs be n s" and "k \<le> n"
  obtains ys where "flushed (xs @ ys) (ptr_plus be k) (n - k) (s\<lparr>eo_buffer_end := Some (ptr_plus be k)\<rparr>)" "length ys = k"
proof (cases "eo_blocks s" rule: rev_cases)
  case Nil
  with assms that [of "[]"] show thesis by (simp add: flushed_def ptr_plus_def)
next
  case (snoc bs b)
  with assms that [of "window (snd be) k b"] show thesis
    by (auto simp: flushed_def ptr_plus_def last_block_def window_def take_add)
qed

lemma SetInitialBuffer_end: "SetInitialBuffer p n (s\<lparr>eo_buffer_end := e\<rparr>) = SetInitialBuffer p n s"
  by (simp add: SetInitialBuffer_def)

lemma flushed_next:
  assumes "flushed xs be n s" and "eo_stream s = Some (m # rest)" and "stream_block m rest s = (data, s')"
  shows "flushed (concat (eo_blocks s)) data m (s'\<lparr>eo_buffer_end := Some data\<rparr>)" and "room_in s' = room_in s"
    and "eo_stream s' = Some rest"
  using assms by (auto simp: flushed_def stream_block_def last_block_def room_in_def)

lemma flushed_room: "flushed xs be n s \<Longrightarrow> length xs + n \<le> room_in s"
  by (erule flushed_all) (simp add: room_in_def)

text \<open>What a skip of \<open>n\<close> bytes promises.\<close>

definition skipped :: "nat \<Rightarrow> nat \<Rightarrow> byte list \<Rightarrow> bool \<times> ptr \<times> eps_out \<Rightarrow> bool" where
  "skipped R n xs r \<longleftrightarrow>
     (case r of (b, p, s) \<Rightarrow>
        (b \<longleftrightarrow> length xs + n \<le> R) \<and> (\<exists>ys. length ys = n \<and> carries True R (xs @ ys) p s))"

lemma skip_here:
  assumes fl: "flushed xs data sz (s\<lparr>eo_buffer_end := Some data\<rparr>)" and le: "count \<le> sz"
  shows "skipped (room_in s) count xs (skip_blocks sizes count sz data s)"
proof -
  obtain ys where ys: "flushed (xs @ ys) (ptr_plus data count) (sz - count)
      (s\<lparr>eo_buffer_end := Some (ptr_plus data count)\<rparr>)" "length ys = count"
    using flushed_further [OF fl le] by auto
  obtain p' s' where i: "SetInitialBuffer (ptr_plus data count) (sz - count) s = (p', s')" by (metis surj_pair)
  have "carries True (room_in s) (xs @ ys) p' s'"
    using SetInitialBuffer_ok [OF ys(1), unfolded SetInitialBuffer_end, OF i] by (simp add: carries_def room_in_def)
  moreover have "length xs + count \<le> room_in s" using flushed_room [OF fl] le by (simp add: room_in_def)
  moreover have "skip_blocks sizes count sz data s = (True, p', s')" using le i by (subst skip_blocks.simps) simp
  ultimately show ?thesis using ys(2) by (auto simp: skipped_def)
qed

lemma skip_blocks_skips:
  "flushed xs data sz (s\<lparr>eo_buffer_end := Some data\<rparr>) \<Longrightarrow> eo_stream s = Some sizes \<Longrightarrow>
    skipped (room_in s) count xs (skip_blocks sizes count sz data s)"
proof (induction sizes arbitrary: xs count sz data s)
  case (Nil xs count sz data s)
  show ?case
  proof (cases "count \<le> sz")
    case True
    with Nil.prems(1) show ?thesis by (rule skip_here)
  next
    case False
    obtain p' s' where e: "Eps_Error s = (p', s')" by (metis surj_pair)
    obtain ys where ys: "concat (eo_blocks s) = xs @ ys" "length ys = sz"
      using flushed_all [OF Nil.prems(1)] by auto
    have l: "eps_lost p' s'" "eo_blocks s' = eo_blocks s" "room_in s = length xs + sz"
      using Nil.prems e ys by (auto simp: Eps_Error_def eps_lost_def flushed_def SLOP_def room_in_def)
    have "skip_blocks [] count sz data s = (False, p', s')" using False e by (subst skip_blocks.simps) simp
    moreover have "carries True (room_in s) (xs @ ys @ replicate (count - sz) 0) p' s'"
      using l ys False by (auto simp: carries_def)
    ultimately show ?thesis
      using l(3) ys(2) False by (auto simp: skipped_def intro!: exI [of _ "ys @ replicate (count - sz) 0"])
  qed
next
  case (Cons m rest xs count sz data s)
  show ?case
  proof (cases "count \<le> sz")
    case True
    with Cons.prems(1) show ?thesis by (rule skip_here)
  next
    case False
    obtain data' s' where n: "stream_block m rest s = (data', s')" by (metis surj_pair)
    obtain ys where ys: "concat (eo_blocks s) = xs @ ys" "length ys = sz"
      using flushed_all [OF Cons.prems(1)] by auto
    have st: "eo_stream (s\<lparr>eo_buffer_end := Some data\<rparr>) = Some (m # rest)" using Cons.prems(2) by simp
    have "stream_block m rest (s\<lparr>eo_buffer_end := Some data\<rparr>) = (data', s'\<lparr>eo_buffer_end := Some data\<rparr>)"
      using n by (auto simp: stream_block_def)
    note nx = flushed_next [OF Cons.prems(1) st this]
    have "skipped (room_in s') (count - sz) (xs @ ys) (skip_blocks rest (count - sz) m data' s')"
      using Cons.IH [of "xs @ ys" data' m s' "count - sz"] nx ys(1) by simp
    moreover have "room_in s' = room_in s" using nx(2) by (simp add: room_in_def)
    moreover have "skip_blocks (m # rest) count sz data s = skip_blocks rest (count - sz) m data' s'"
      using False n by (subst skip_blocks.simps) simp
    moreover have "\<exists>zs. length zs = count \<and> carries True R (xs @ zs) p t" 
      if "length us = count - sz" "carries True R ((xs @ ys) @ us) p t" for R us p t
      using that ys(2) False by (intro exI [of _ "ys @ us"]) simp
    ultimately show ?thesis using ys(2) False by (fastforce simp: skipped_def)
  qed
qed

lemma Flush_result:
  assumes "carries True R xs p s" and "\<not> eo_had_error s"
  shows "\<exists>n s'. Flush p s = ret (int n, s') \<and>
    (\<not> eo_had_error s' \<and> room_in s' = R \<and> (\<exists>be. flushed xs be n s') \<or>
     eo_had_error s' \<and> n = 0 \<and> R < length xs \<and> carries True R xs (Patch, 0) s')"
proof -
  have "eps_ok p s" "delivered p s = xs" "room_in s = R" using assms had_error_simps(2) [of p s] by (auto simp: carries_def)
  with Flush_ok [of p s] show ?thesis by (fastforce simp: carries_def flushed_def eps_lost_def)
qed

lemma Skip_skips:
  assumes c: "carries True R xs p s" and n: "0 \<le> n"
  shows "\<exists>r. Eps_Skip n p s = ret r \<and> skipped R (nat n) xs r"
proof -
  have failed: "skipped R (nat n) xs (False, (Patch, 0), t)" if "carries True R xs (Patch, 0) t" "eo_had_error t" for t
    using that had_error_simps(1) [of "(Patch, 0)" t]
    by (auto simp: skipped_def carries_def intro!: exI [of _ "replicate (nat n) 0"])
  show ?thesis
  proof (cases "eo_had_error s")
    case True
    then have "carries True R xs (Patch, 0) s" using c had_error_simps(1) [of p s] by (auto simp: carries_def eps_lost_def)
    with True n failed [of s] show ?thesis by (simp add: Eps_Skip_def)
  next
    case False
    then obtain m s1 where f: "Flush p s = ret (int m, s1)"
        "\<not> eo_had_error s1 \<and> room_in s1 = R \<and> (\<exists>be. flushed xs be m s1) \<or>
         eo_had_error s1 \<and> m = 0 \<and> R < length xs \<and> carries True R xs (Patch, 0) s1"
      using Flush_result [OF c] by blast
    from f(2) show ?thesis
    proof (elim disjE conjE exE)
      fix be assume a: "\<not> eo_had_error s1" "room_in s1 = R" "flushed xs be m s1"
      then obtain sizes where e: "eo_stream s1 = Some sizes" "eo_buffer_end s1 = Some be" by (auto simp: flushed_def)
      have "s1\<lparr>eo_buffer_end := Some be\<rparr> = s1" using e(2) by simp
      with skip_blocks_skips [of xs be m s1 sizes "nat n"] a e f(1) False n show ?thesis
        by (simp add: Eps_Skip_def)
    next
      assume "eo_had_error s1" "carries True R xs (Patch, 0) s1"
      with f(1) False n failed [of s1] show ?thesis by (simp add: Eps_Skip_def)
    qed
  qed
qed

text \<open>What asking for a buffer promises: free space, or a stream that is full.\<close>

definition direct :: "nat \<Rightarrow> byte list \<Rightarrow> (ptr \<times> nat) option \<times> ptr \<times> eps_out \<Rightarrow> bool" where
  "direct R xs r \<longleftrightarrow>
     (case r of
        (Some (data, n), p, s) \<Rightarrow> 0 < n \<and> length xs + n \<le> R \<and> carries True R xs p s
      | (None, p, s) \<Rightarrow> R \<le> length xs \<and> carries False R xs p s)"

lemma direct_block_direct:
  "flushed xs data sz (s\<lparr>eo_buffer_end := Some data\<rparr>) \<Longrightarrow> eo_stream s = Some sizes \<Longrightarrow>
    direct (room_in s) xs (direct_block sizes sz data s)"
proof (induction sizes arbitrary: sz data s)
  case (Nil sz data s)
  obtain p' s' where i: "SetInitialBuffer data sz s = (p', s')" by (metis surj_pair)
  obtain q t where e: "Eps_Error s = (q, t)" by (metis surj_pair)
  obtain ys where ys: "concat (eo_blocks s) = xs @ ys" "length ys = sz" using flushed_all [OF Nil.prems(1)] by auto
  show ?case
  proof (cases "sz = 0")
    case True
    then have "eps_lost q t" "eo_blocks t = eo_blocks s" "room_in s = length xs"
      using Nil.prems e ys by (auto simp: Eps_Error_def eps_lost_def flushed_def SLOP_def room_in_def)
    then show ?thesis using True e ys by (subst direct_block.simps) (simp add: direct_def carries_def)
  next
    case False
    then show ?thesis
      using SetInitialBuffer_ok [OF Nil.prems(1), unfolded SetInitialBuffer_end, OF i] i ys
      by (subst direct_block.simps) (simp add: direct_def carries_def room_in_def)
  qed
next
  case (Cons m rest sz data s)
  obtain p' s' where i: "SetInitialBuffer data sz s = (p', s')" by (metis surj_pair)
  obtain data' t where n: "stream_block m rest s = (data', t)" by (metis surj_pair)
  obtain ys where ys: "concat (eo_blocks s) = xs @ ys" "length ys = sz" using flushed_all [OF Cons.prems(1)] by auto
  show ?case
  proof (cases "sz = 0")
    case True
    have st: "eo_stream (s\<lparr>eo_buffer_end := Some data\<rparr>) = Some (m # rest)" using Cons.prems(2) by simp
    have "stream_block m rest (s\<lparr>eo_buffer_end := Some data\<rparr>) = (data', t\<lparr>eo_buffer_end := Some data\<rparr>)"
      using n by (auto simp: stream_block_def)
    note nx = flushed_next [OF Cons.prems(1) st this]
    then have "direct (room_in t) xs (direct_block rest m data' t)" using Cons.IH [of data' m t] ys True by simp
    moreover have "room_in t = room_in s" using nx(2) by (simp add: room_in_def)
    ultimately show ?thesis using True n by (subst direct_block.simps) simp
  next
    case False
    then show ?thesis
      using SetInitialBuffer_ok [OF Cons.prems(1), unfolded SetInitialBuffer_end, OF i] i ys
      by (subst direct_block.simps) (simp add: direct_def carries_def room_in_def)
  qed
qed

lemma GetDirectBufferPointer_direct:
  assumes c: "carries True R xs p s"
  shows "\<exists>r. Eps_GetDirectBufferPointer p s = ret r \<and> direct R xs r"
proof -
  have failed: "direct R xs (None, (Patch, 0), t)" if "carries True R xs (Patch, 0) t" "eo_had_error t" for t
    using that had_error_simps(1) [of "(Patch, 0)" t] by (auto simp: direct_def carries_def)
  show ?thesis
  proof (cases "eo_had_error s")
    case True
    then have "carries True R xs (Patch, 0) s" using c had_error_simps(1) [of p s] by (auto simp: carries_def eps_lost_def)
    with True failed [of s] show ?thesis by (simp add: Eps_GetDirectBufferPointer_def)
  next
    case False
    then obtain m s1 where f: "Flush p s = ret (int m, s1)"
        "\<not> eo_had_error s1 \<and> room_in s1 = R \<and> (\<exists>be. flushed xs be m s1) \<or>
         eo_had_error s1 \<and> m = 0 \<and> R < length xs \<and> carries True R xs (Patch, 0) s1"
      using Flush_result [OF c] by blast
    from f(2) show ?thesis
    proof (elim disjE conjE exE)
      fix be assume a: "\<not> eo_had_error s1" "room_in s1 = R" "flushed xs be m s1"
      then obtain sizes where e: "eo_stream s1 = Some sizes" "eo_buffer_end s1 = Some be" by (auto simp: flushed_def)
      have "s1\<lparr>eo_buffer_end := Some be\<rparr> = s1" using e(2) by simp
      with direct_block_direct [of xs be m s1 sizes] a e f(1) False show ?thesis
        by (simp add: Eps_GetDirectBufferPointer_def)
    next
      assume "eo_had_error s1" "carries True R xs (Patch, 0) s1"
      with f(1) False failed [of s1] show ?thesis by (simp add: Eps_GetDirectBufferPointer_def)
    qed
  qed
qed

section \<open>Any sequence of calls\<close>

datatype write_call =
    Put_Varint32 uint32 | Put_Varint64 uint64 | Put_Varint32SignExtended uint32 | Put_Tag uint32
  | Put_LittleEndian32 uint32 | Put_LittleEndian64 uint64 | Put_Raw "byte list" | Put_String "byte list"
  | Ask_HadError

fun run_call :: "write_call \<Rightarrow> coded_output \<Rightarrow> coded_output run" where
  "run_call (Put_Varint32 v) = Co_WriteVarint32 v"
| "run_call (Put_Varint64 v) = Co_WriteVarint64 v"
| "run_call (Put_Varint32SignExtended v) = Co_WriteVarint32SignExtended v"
| "run_call (Put_Tag v) = Co_WriteTag v"
| "run_call (Put_LittleEndian32 v) = Co_WriteLittleEndian32 v"
| "run_call (Put_LittleEndian64 v) = Co_WriteLittleEndian64 v"
| "run_call (Put_Raw bs) = Co_WriteRaw bs"
| "run_call (Put_String str) = Co_WriteString str"
| "run_call Ask_HadError = (\<lambda>w. bind_run (Co_HadError w) (\<lambda>(_, w1). ret w1))"

fun write_calls :: "write_call list \<Rightarrow> coded_output \<Rightarrow> coded_output run" where
  "write_calls [] w = ret w"
| "write_calls (c # cs) w = bind_run (run_call c w) (write_calls cs)"

fun call_bytes :: "write_call \<Rightarrow> byte list" where
  "call_bytes (Put_Varint32 v) = varint_bytes (unat v)"
| "call_bytes (Put_Varint64 v) = varint_bytes (unat v)"
| "call_bytes (Put_Varint32SignExtended v) = varint_bytes (unat (scast v :: uint64))"
| "call_bytes (Put_Tag v) = varint_bytes (unat v)"
| "call_bytes (Put_LittleEndian32 v) = le_bytes 4 v"
| "call_bytes (Put_LittleEndian64 v) = le_bytes 8 v"
| "call_bytes (Put_Raw bs) = bs"
| "call_bytes (Put_String str) = str"
| "call_bytes Ask_HadError = []"

lemma co_carries_strict: "co_carries (True \<or> b) R xs w \<Longrightarrow> co_carries True R xs w"
  by simp

lemma run_call_carries:
  assumes "co_carries True R xs w"
  obtains w' where "run_call c w = ret w'" "co_carries True R (xs @ call_bytes c) w'"
proof (cases "c = Ask_HadError")
  case True
  with assms that show thesis by (auto elim: Co_HadError_carries)
next
  case False
  then have "\<exists>f. run_call c = with_cur f \<and> streams f (call_bytes c)"
    using streams_calls streams_WriteRaw
    by (cases c) (auto simp: fun_eq_iff Co_WriteVarint32_def Co_WriteVarint64_def Co_WriteVarint32SignExtended_def
        Co_WriteTag_def Co_WriteLittleEndian32_def Co_WriteLittleEndian64_def Co_WriteRaw_def Co_WriteString_def)
  then obtain f where f: "run_call c = with_cur f" "streams f (call_bytes c)" by blast
  from with_cur_carries [OF f(2) assms] obtain w' where
    "with_cur f w = ret w'" "co_carries (True \<or> call_bytes c \<noteq> []) R (xs @ call_bytes c) w'" .
  with that f(1) show thesis by simp
qed

lemma write_calls_carries:
  "co_carries True R xs w \<Longrightarrow>
    \<exists>w'. write_calls cs w = ret w' \<and> co_carries True R (xs @ concat (map call_bytes cs)) w'"
proof (induction cs arbitrary: xs w)
  case (Cons c cs)
  obtain w1 where "run_call c w = ret w1" "co_carries True R (xs @ call_bytes c) w1"
    using Cons.prems by (rule run_call_carries)
  with Cons.IH [OF this(2)] show ?case by simp
qed simp

lemma destroy_delivers:
  assumes "co_carries True R xs w"
  shows "\<exists>w'. CodedOutputStream_destroy w = ret w' \<and> concat (eo_blocks (co_impl w')) = take R xs \<and>
    (eo_had_error (co_impl w') \<longleftrightarrow> R < length xs)"
proof -
  have "carries True R xs (co_cur w) (co_impl w)" using assms by (simp add: co_carries_def)
  from Trim_ok [OF this] show ?thesis by (auto simp: CodedOutputStream_destroy_def Co_Trim_def with_cur_def)
qed



end
