(* ===== verification/Wire_Copy.thy ===== *)
theory Wire_Copy
  imports Wire_Skip_Properties Coded_Output
begin

unbundle bit_operations_syntax

text \<open>
  Skipping fields from a \<^verbatim>\<open>CodedInputStream\<close> to a \<^verbatim>\<open>CodedOutputStream\<close>, the functions
  \<^verbatim>\<open>SkipField\<close> and \<^verbatim>\<open>SkipMessage\<close> of \<^verbatim>\<open>wire_format_lite.cc\<close> with two
  streams: what they write is the encoding of the fields that the parser into an
  \<^verbatim>\<open>UnknownFieldSet\<close> would have collected. The first argument is fuel as in \<open>Wire_Skip\<close>.
\<close>

fun Lite_SkipField_to :: "nat \<Rightarrow> 's zero_copy_input \<Rightarrow> uint32 \<Rightarrow> 's coded_input \<Rightarrow> coded_output \<Rightarrow>
      (bool \<times> 's coded_input \<times> coded_output) run"
  and Lite_SkipMessage_to :: "nat \<Rightarrow> 's zero_copy_input \<Rightarrow> 's coded_input \<Rightarrow> coded_output \<Rightarrow>
      (bool \<times> 's coded_input \<times> coded_output) run"
where
  "Lite_SkipField_to k Z tag c w =
     (if GetTagFieldNumber tag = 0 then ret (False, c, w)
      else
        (case GetTagWireType tag of
           Some WIRETYPE_VARINT \<Rightarrow>
             bind_run (Ci_ReadVarint64 Z c) (\<lambda>(r, c1).
               case r of
                 None \<Rightarrow> ret (False, c1, w)
               | Some v \<Rightarrow>
                   bind_run (Co_WriteVarint32 tag w) (\<lambda>w1.
                   bind_run (Co_WriteVarint64 v w1) (\<lambda>w2. ret (True, c1, w2))))
         | Some WIRETYPE_FIXED64 \<Rightarrow>
             bind_run (Ci_ReadLittleEndian64 Z c) (\<lambda>(r, c1).
               case r of
                 None \<Rightarrow> ret (False, c1, w)
               | Some v \<Rightarrow>
                   bind_run (Co_WriteVarint32 tag w) (\<lambda>w1.
                   bind_run (Co_WriteLittleEndian64 v w1) (\<lambda>w2. ret (True, c1, w2))))
         | Some WIRETYPE_LENGTH_DELIMITED \<Rightarrow>
             bind_run (Ci_ReadVarint32 Z c) (\<lambda>(r, c1).
               case r of
                 None \<Rightarrow> ret (False, c1, w)
               | Some len \<Rightarrow>
                   bind_run (Co_WriteVarint32 tag w) (\<lambda>w1.
                   bind_run (Co_WriteVarint32 len w1) (\<lambda>w2.
                   bind_run (Ci_ReadString Z (sint len) [] c1) (\<lambda>(ok, temp, c2).
                     if \<not> ok then ret (False, c2, w2)
                     else bind_run (Co_WriteString temp w2) (\<lambda>w3. ret (True, c2, w3))))))
         | Some WIRETYPE_START_GROUP \<Rightarrow>
             bind_run (Co_WriteVarint32 tag w) (\<lambda>w1.
               case IncrementRecursionDepth c of
                 (ok, c1) \<Rightarrow>
                   if \<not> ok then ret (False, c1, w1)
                   else
                     (case k of
                        0 \<Rightarrow> None
                      | Suc k' \<Rightarrow>
                          bind_run (Lite_SkipMessage_to k' Z c1 w1) (\<lambda>(ok, c2, w2).
                            if \<not> ok then ret (False, c2, w2)
                            else
                              let c3 = DecrementRecursionDepth c2 in
                              ret (Ci_LastTagWas (MakeTag (GetTagFieldNumber tag) WIRETYPE_END_GROUP) c3, c3, w2))))
         | Some WIRETYPE_END_GROUP \<Rightarrow> ret (False, c, w)
         | Some WIRETYPE_FIXED32 \<Rightarrow>
             bind_run (Ci_ReadLittleEndian32 Z c) (\<lambda>(r, c1).
               case r of
                 None \<Rightarrow> ret (False, c1, w)
               | Some v \<Rightarrow>
                   bind_run (Co_WriteVarint32 tag w) (\<lambda>w1.
                   bind_run (Co_WriteLittleEndian32 v w1) (\<lambda>w2. ret (True, c1, w2))))
         | None \<Rightarrow> ret (False, c, w)))"
| "Lite_SkipMessage_to 0 Z c w = None"
| "Lite_SkipMessage_to (Suc k) Z c w =
     bind_run (Ci_ReadTag Z c) (\<lambda>(tag, c1).
       if tag = 0 then ret (True, c1, w)
       else if GetTagWireType tag = Some WIRETYPE_END_GROUP then
         bind_run (Co_WriteVarint32 tag w) (\<lambda>w1. ret (True, c1, w1))
       else
         bind_run (Lite_SkipField_to k Z tag c1 w) (\<lambda>(ok, c2, w2).
           if \<not> ok then ret (False, c2, w2) else Lite_SkipMessage_to k Z c2 w2))"

declare Lite_SkipField_to.simps [simp del] Lite_SkipMessage_to.simps [simp del]

section \<open>Strings have the length that was asked for\<close>

lemma bind_run_eq_ret: "bind_run m f = ret y \<longleftrightarrow> (\<exists>x. m = ret x \<and> f x = ret y)"
  by (simp add: ret_def bind_run_eq_Inr)

lemma copy_out_length: "Some (copy_out n c) = ret bs \<Longrightarrow> 0 \<le> n \<and> length bs = nat n"
  by (auto simp: copy_out_def mem_read_def ret_def length_window split: if_splits)

lemma read_loop_length:
  fixes c :: "'s coded_input"
  assumes "Ci_read_loop Z n acc c = ret (True, str, c')"
  shows "0 \<le> n \<and> length str = length acc + nat n"
proof -
  let ?P = "\<lambda>(Z :: 's zero_copy_input) n (acc :: byte list) (c :: 's coded_input)
      (r :: (bool \<times> byte list \<times> 's coded_input) res). \<forall>str c'. r = Inr (True, str, c') \<longrightarrow> 0 \<le> n \<and> length str = length acc + nat n"
  have run: "Ci_read_loop Z n acc c = Some (Inr (True, str, c'))" using assms by (simp add: ret_def)
  have "?P Z n acc c (Inr (True, str, c'))"
  proof (rule Ci_read_loop.raw_induct [of ?P, OF _ run], goal_cases)
    case (1 loop Z n acc c r)
    show ?case
    proof (intro allI impI)
      fix str c' assume r: "r = Inr (True, str, c')"
      let ?k = "BufferSize c"
      show "0 \<le> n \<and> length str = length acc + nat n"
      proof (cases "?k < n")
        case True
        then obtain bs c1 where k: "Some (copy_out ?k c) = ret bs" "loop Z (n - ?k) (acc @ bs) c1 = Some r"
          using 1(2) by (auto simp: r Let_def bind_run_eq_Inr ret_def split: if_splits)
        have "0 \<le> n - ?k" "length str = length (acc @ bs) + nat (n - ?k)" using 1(1) [OF k(2)] r by blast+
        moreover have "0 \<le> ?k" "length bs = nat ?k" using copy_out_length [OF k(1)] by auto
        ultimately show ?thesis by simp
      next
        case False
        with 1(2) obtain bs where "Some (copy_out n c) = ret bs" "str = acc @ bs"
          by (auto simp: r bind_run_eq_Inr ret_def Let_def)
        with copy_out_length show ?thesis by simp
      qed
    qed
  qed
  then show ?thesis by blast
qed

lemma ReadString_length: "Ci_ReadString Z n s c = ret (True, str, c') \<Longrightarrow> 0 \<le> n \<and> length str = nat n"
  using read_loop_length [of Z n "[]" c str c'] copy_out_length [of n c str]
  by (auto simp: Ci_ReadString_def Ci_ReadStringFallback_def bind_run_eq_ret split: if_splits)

section \<open>What is written\<close>

text \<open>The tag that ended a message was written too.\<close>

definition end_bytes :: "'s coded_input \<Rightarrow> byte list" where
  "end_bytes c =
     (if GetTagWireType (ci_last_tag c) = Some WIRETYPE_END_GROUP then varint_bytes (unat (ci_last_tag c)) else [])"

lemma tag_written:
  assumes "GetTagWireType tag = Some ty"
  shows "varint_bytes (unat tag) = tag_bytes (drop_bit 3 tag) ty"
proof -
  have "push_bit 3 (drop_bit 3 tag) OR wire_code ty = tag"
    using assms tag_split [of tag] unfolding tag_sum [symmetric] wire_type_code by simp
  then show ?thesis by (simp add: tag_bytes_def)
qed

lemma end_tag_written:
  assumes "GetTagWireType tag = Some WIRETYPE_START_GROUP"
  shows "varint_bytes (unat (tag + 1)) = tag_bytes (drop_bit 3 tag) WIRETYPE_END_GROUP"
    and "GetTagWireType (tag + 1) = Some WIRETYPE_END_GROUP"
proof -
  have t: "tag AND 7 = 3" using assms by (simp add: wire_type_code wire_code_def)
  have m: "MakeTag (GetTagFieldNumber tag) WIRETYPE_END_GROUP = tag + 1" by (rule end_tag [OF t])
  then show "varint_bytes (unat (tag + 1)) = tag_bytes (drop_bit 3 tag) WIRETYPE_END_GROUP"
    by (simp add: MakeTag_def number_code tag_bytes_def)
  have "uint (drop_bit 3 tag) < 2 ^ 29"
    using number_bound [of tag] by (simp add: word_less_def)
  then show "GetTagWireType (tag + 1) = Some WIRETYPE_END_GROUP"
    using MakeTag_parts(1) [of "GetTagFieldNumber tag" WIRETYPE_END_GROUP] unfolding m
    by (simp add: GetTagFieldNumber_def kTagTypeBits_def)
qed

lemma two_writes:
  assumes "co_carries True R xs w"
  obtains w1 w2 where "run_call a w = ret w1" "run_call b w1 = ret w2"
    "co_carries True R (xs @ call_bytes a) w1" "co_carries True R (xs @ call_bytes a @ call_bytes b) w2"
proof -
  obtain w1 where 1: "run_call a w = ret w1" "co_carries True R (xs @ call_bytes a) w1"
    using assms by (rule run_call_carries)
  from 1(2) obtain w2 where "run_call b w1 = ret w2" "co_carries True R ((xs @ call_bytes a) @ call_bytes b) w2"
    by (rule run_call_carries)
  with 1 that show thesis by simp
qed

text \<open>The bytes written by a skip that succeeds.\<close>

definition copied :: "nat \<Rightarrow> byte list \<Rightarrow> bool \<Rightarrow> (byte list \<Rightarrow> bool) \<Rightarrow> 's coded_input \<Rightarrow>
    (bool \<times> 's coded_input \<times> coded_output) run \<Rightarrow> bool" where
  "copied R xs b P c' r \<longleftrightarrow>
     (\<exists>w' ys. r = ret (b, c', w') \<and> co_carries True R (xs @ ys) w' \<and> (b \<longrightarrow> P ys))"

definition field_copied :: "fields \<Rightarrow> fields option \<Rightarrow> byte list \<Rightarrow> bool" where
  "field_copied u u' ys \<longleftrightarrow> (\<exists>f. u' = Some (u @ [f]) \<and> ys = field_bytes f)"

definition message_copied :: "fields \<Rightarrow> fields option \<Rightarrow> 's coded_input \<Rightarrow> byte list \<Rightarrow> bool" where
  "message_copied u u' c' ys \<longleftrightarrow> (\<exists>fs. u' = Some (u @ fs) \<and> ys = fields_bytes fs @ end_bytes c')"

lemma copiedI: "r = ret (b, c', w') \<Longrightarrow> co_carries True R (xs @ ys) w' \<Longrightarrow> (b \<Longrightarrow> P ys) \<Longrightarrow> copied R xs b P c' r"
  unfolding copied_def by blast

lemma copied_nothing: "co_carries True R xs w \<Longrightarrow> copied R xs False P c' (ret (False, c', w))"
  by (rule copiedI [of _ _ _ w _ _ "[]"]) simp_all

text \<open>A field of one number.\<close>

lemma copy_number:
  assumes w: "co_carries True R xs w"
    and run: "bind_run m (\<lambda>(r, c1). ret (case r of None \<Rightarrow> (False, Some u, c1) | Some v \<Rightarrow> (True, Some (u @ [F v]), c1))) = ret (b, u', c')"
    and bytes: "\<And>v. field_bytes (F v) = varint_bytes (unat tag) @ call_bytes (G v)"
  shows "copied R xs b (field_copied u u') c' (bind_run m (\<lambda>(r, c1).
    case r of None \<Rightarrow> ret (False, c1, w)
    | Some v \<Rightarrow> bind_run (Co_WriteVarint32 tag w) (\<lambda>w1. bind_run (run_call (G v) w1) (\<lambda>w2. ret (True, c1, w2)))))"
proof -
  obtain r c1 where r: "m = ret (r, c1)"
    "(case r of None \<Rightarrow> (False, Some u, c1) | Some v \<Rightarrow> (True, Some (u @ [F v]), c1)) = (b, u', c')"
    using run by (auto simp: bind_run_eq_ret)
  show ?thesis
  proof (cases r)
    case None
    with r copied_nothing [OF w] show ?thesis by auto
  next
    case (Some v)
    from two_writes [OF w, of "Put_Varint32 tag" "G v"] obtain w1 w2 where
      "run_call (Put_Varint32 tag) w = ret w1" "run_call (G v) w1 = ret w2"
      "co_carries True R (xs @ field_bytes (F v)) w2" unfolding bytes by (metis call_bytes.simps(1))
    with Some r show ?thesis by (intro copiedI [of _ _ _ w2]) (auto simp: field_copied_def)
  qed
qed

lemma LastTagWas_end:
  assumes "Ci_LastTagWas (MakeTag (GetTagFieldNumber tag) WIRETYPE_END_GROUP) (DecrementRecursionDepth c)"
    and "GetTagWireType tag = Some WIRETYPE_START_GROUP"
  shows "end_bytes c = tag_bytes (drop_bit 3 tag) WIRETYPE_END_GROUP"
proof -
  have "tag AND 7 = 3" using assms(2) by (simp add: wire_type_code wire_code_def)
  from end_tag [OF this] have "ci_last_tag c = tag + 1"
    using assms(1) by (simp add: Ci_LastTagWas_def DecrementRecursionDepth_def split: if_splits)
  with end_tag_written [OF assms(2)] show ?thesis by (simp add: end_bytes_def)
qed

text \<open>
  Step for step the two skippers read alike: the copying one succeeds when the collecting one does,
  and has written the encoding of what that one collected.
\<close>

lemma copy_string:
  assumes w: "co_carries True R xs w" and ty: "GetTagFieldNumber tag \<noteq> 0" "GetTagWireType tag = Some WIRETYPE_LENGTH_DELIMITED"
    and run: "WF_SkipField k Z tag (Some u) c = ret (b, u', c')"
  shows "copied R xs b (field_copied u u') c' (Lite_SkipField_to k Z tag c w)"
proof -
  obtain r c1 where r: "Ci_ReadVarint32 Z c = ret (r, c1)"
    "(case r of None \<Rightarrow> ret (False, Some u, c1)
      | Some len \<Rightarrow> bind_run (Ci_ReadString Z (sint len) [] c1) (\<lambda>(ok, str, c2).
          ret (ok, Some (AddLengthDelimited (drop_bit 3 tag) str u), c2))) = ret (b, u', c')"
    using run ty by (auto simp: WF_SkipField.simps Let_def bind_run_eq_ret number_code cong: option.case_cong)
  show ?thesis
  proof (cases r)
    case None
    with r ty copied_nothing [OF w] show ?thesis by (auto simp: Lite_SkipField_to.simps)
  next
    case (Some len)
    with r(2) obtain str where str: "Ci_ReadString Z (sint len) [] c1 = ret (b, str, c')"
        "u' = Some (AddLengthDelimited (drop_bit 3 tag) str u)"
      by (auto simp: bind_run_eq_ret)
    obtain w1 w2 where w2: "Co_WriteVarint32 tag w = ret w1" "Co_WriteVarint32 len w1 = ret w2"
      "co_carries True R (xs @ varint_bytes (unat tag) @ varint_bytes (unat len)) w2"
      using two_writes [OF w, of "Put_Varint32 tag" "Put_Varint32 len"] by simp metis
    from w2(3) obtain w3 where w3: "run_call (Put_String str) w2 = ret w3"
      "co_carries True R ((xs @ varint_bytes (unat tag) @ varint_bytes (unat len)) @ call_bytes (Put_String str)) w3"
      by (rule run_call_carries)
    show ?thesis
    proof (cases b)
      case True
      have "0 \<le> sint len \<and> length str = nat (sint len)" by (rule ReadString_length) (use str(1) True in simp)
      then have "length str = unat len" using sint_size [of len] by auto
      then show ?thesis
        using True Some r(1) ty str w2(1,2) w3 tag_written [OF ty(2)]
        by (intro copiedI [of _ _ _ w3]) (simp_all add: Lite_SkipField_to.simps field_copied_def AddLengthDelimited_def)
    next
      case False
      then show ?thesis
        using Some r(1) ty str w2 by (intro copiedI [of _ _ _ w2]) (simp_all add: Lite_SkipField_to.simps)
    qed
  qed
qed

lemma copy_group:
  assumes w: "co_carries True R xs w" and ty: "GetTagFieldNumber tag \<noteq> 0" "GetTagWireType tag = Some WIRETYPE_START_GROUP"
    and run: "WF_SkipField k Z tag (Some u) c = ret (b, u', c')"
    and inner: "\<And>k' c1 b u' c' xs w. k = Suc k' \<Longrightarrow> IncrementRecursionDepth c = (True, c1) \<Longrightarrow>
      WF_SkipMessage k' Z (Some []) c1 = ret (b, u', c') \<Longrightarrow> co_carries True R xs w \<Longrightarrow>
      copied R xs b (message_copied [] u' c') c' (Lite_SkipMessage_to k' Z c1 w)"
  shows "copied R xs b (field_copied u u') c' (Lite_SkipField_to k Z tag c w)"
proof -
  from w obtain w1 where w1: "Co_WriteVarint32 tag w = ret w1" "co_carries True R (xs @ varint_bytes (unat tag)) w1"
    using run_call_carries [of R xs w "Put_Varint32 tag"] by auto
  obtain ok c1 where inc: "IncrementRecursionDepth c = (ok, c1)" by (metis surj_pair)
  show ?thesis
  proof (cases ok)
    case False
    with run ty inc w1 show ?thesis
      by (intro copiedI [of _ _ _ w1]) (auto simp: WF_SkipField.simps Lite_SkipField_to.simps Let_def)
  next
    case True
    obtain k' where k: "k = Suc k'" using run ty inc True by (cases k) (auto simp: WF_SkipField.simps Let_def ret_def)
    obtain ok2 g c2 where g: "WF_SkipMessage k' Z (Some []) c1 = ret (ok2, g, c2)"
        "(if \<not> ok2 then (False, add_group (drop_bit 3 tag) (Some u) g, c2)
          else (Ci_LastTagWas (MakeTag (GetTagFieldNumber tag) WIRETYPE_END_GROUP) (DecrementRecursionDepth c2),
            add_group (drop_bit 3 tag) (Some u) g, DecrementRecursionDepth c2)) = (b, u', c')"
      using run ty inc True k by (auto simp: WF_SkipField.simps Let_def bind_run_eq_ret number_code split: if_splits)
    obtain w2 ys where w2: "Lite_SkipMessage_to k' Z c1 w1 = ret (ok2, c2, w2)"
        "co_carries True R ((xs @ varint_bytes (unat tag)) @ ys) w2" "ok2 \<longrightarrow> message_copied [] g c2 ys"
      using inner [OF k _ g(1) w1(2)] inc True by (auto simp: copied_def)
    have "field_copied u u' (varint_bytes (unat tag) @ ys)" if b
    proof -
      have "ok2" and last: "Ci_LastTagWas (MakeTag (GetTagFieldNumber tag) WIRETYPE_END_GROUP) (DecrementRecursionDepth c2)"
        and u': "u' = add_group (drop_bit 3 tag) (Some u) g"
        using g(2) that by (auto split: if_splits)
      with w2(3) obtain gs where "g = Some gs" "ys = fields_bytes gs @ end_bytes c2"
        by (auto simp: message_copied_def)
      with u' show ?thesis
        using tag_written [OF ty(2)] LastTagWas_end [OF last ty(2)]
        by (auto simp: field_copied_def add_group_def AddGroup_def fields_bytes_def)
    qed
    then show ?thesis
      using ty inc True k w1(1) w2(1,2) g(2)
      by (intro copiedI [of _ _ _ w2 _ _ "varint_bytes (unat tag) @ ys"]) (auto simp: Lite_SkipField_to.simps Let_def split: if_splits)
  qed
qed

lemma copy_collects:
  "WF_SkipField k Z tag (Some u) c = ret (b, u', c') \<Longrightarrow> co_carries True R xs w \<Longrightarrow>
    copied R xs b (field_copied u u') c' (Lite_SkipField_to k Z tag c w)"
  "WF_SkipMessage k Z (Some u) c = ret (b, u', c') \<Longrightarrow> co_carries True R xs w \<Longrightarrow>
    copied R xs b (message_copied u u' c') c' (Lite_SkipMessage_to k Z c w)"
proof (induction k Z tag c and k Z c arbitrary: u b u' c' xs w and u b u' c' xs w rule: Lite_SkipField_Lite_SkipMessage.induct)
  case (1 k Z tag c)
  note w = 1(3) and run = 1(2)
  note code = Lite_SkipField_to.simps [of k Z tag c w] WF_SkipField.simps [of k Z tag "Some u" c]
  show ?case
  proof (cases "GetTagFieldNumber tag = 0 \<or> GetTagWireType tag = None \<or> GetTagWireType tag = Some WIRETYPE_END_GROUP")
    case True
    with run copied_nothing [OF w] show ?thesis by (auto simp: code Let_def)
  next
    case False
    then obtain ty where ty: "GetTagFieldNumber tag \<noteq> 0" "GetTagWireType tag = Some ty" "ty \<noteq> WIRETYPE_END_GROUP" by auto
    note tagw = tag_written [OF ty(2)] and number = copy_number [OF w, of _ u _ b u' c' tag]
    show ?thesis
    proof (cases ty)
      case WIRETYPE_VARINT
      with run ty number [of "Ci_ReadVarint64 Z c" "TYPE_VARINT (drop_bit 3 tag)" Put_Varint64] tagw show ?thesis
        by (simp add: code AddVarint_def number_code cong: option.case_cong)
    next
      case WIRETYPE_FIXED64
      with run ty number [of "Ci_ReadLittleEndian64 Z c" "TYPE_FIXED64 (drop_bit 3 tag)" Put_LittleEndian64] tagw show ?thesis
        by (simp add: code AddFixed64_def number_code cong: option.case_cong)
    next
      case WIRETYPE_FIXED32
      with run ty number [of "Ci_ReadLittleEndian32 Z c" "TYPE_FIXED32 (drop_bit 3 tag)" Put_LittleEndian32] tagw show ?thesis
        by (simp add: code AddFixed32_def number_code cong: option.case_cong)
    next
      case WIRETYPE_LENGTH_DELIMITED
      with ty show ?thesis by (intro copy_string [OF w _ _ run]) simp_all
    next
      case WIRETYPE_START_GROUP
      with ty 1(1) show ?thesis by (intro copy_group [OF w _ _ run]) auto
    qed (use ty in simp)
  qed
next
  case (2 Z c)
  then show ?case by (simp add: WF_SkipMessage.simps ret_def)
next
  case (3 k Z c)
  note w = 3(4) and run = 3(3)
  obtain tag c1 where t: "Ci_ReadTag Z c = ret (tag, c1)"
    "(if tag = 0 \<or> GetTagWireType tag = Some WIRETYPE_END_GROUP then ret (True, Some u, c1)
      else bind_run (WF_SkipField k Z tag (Some u) c1) (\<lambda>(ok, u1, c2).
        if \<not> ok then ret (False, u1, c2) else WF_SkipMessage k Z u1 c2)) = ret (b, u', c')"
    using run by (auto simp: WF_SkipMessage.simps bind_run_eq_ret split: if_splits)
  have last: "ci_last_tag c1 = tag" using t(1) by (auto simp: Ci_ReadTag_def bind_run_eq_ret)
  note code = Lite_SkipMessage_to.simps(2) [of k Z c w]
  have zero: "GetTagWireType 0 \<noteq> Some WIRETYPE_END_GROUP" by (simp add: wire_type_code wire_code_def)
  consider "tag = 0" | "tag \<noteq> 0" "GetTagWireType tag = Some WIRETYPE_END_GROUP"
    | "tag \<noteq> 0" "GetTagWireType tag \<noteq> Some WIRETYPE_END_GROUP" by blast
  then show ?case
  proof cases
    case 1
    with t last zero w show ?thesis
      by (intro copiedI [of _ _ _ w _ _ "[]"]) (auto simp: code message_copied_def end_bytes_def fields_bytes_def)
  next
    case 2
    obtain w1 where "Co_WriteVarint32 tag w = ret w1" "co_carries True R (xs @ varint_bytes (unat tag)) w1"
      using run_call_carries [OF w, of "Put_Varint32 tag"] by auto
    with 2 t last show ?thesis
      by (intro copiedI [of _ _ _ w1]) (auto simp: code message_copied_def end_bytes_def fields_bytes_def)
  next
    case go: 3
    obtain ok u1 c2 where f: "WF_SkipField k Z tag (Some u) c1 = ret (ok, u1, c2)"
      "(if \<not> ok then ret (False, u1, c2) else WF_SkipMessage k Z u1 c2) = ret (b, u', c')"
      using t(2) go by (auto simp: bind_run_eq_ret)
    obtain w1 ys where w1: "Lite_SkipField_to k Z tag c1 w = ret (ok, c2, w1)" "co_carries True R (xs @ ys) w1"
        "ok \<longrightarrow> field_copied u u1 ys"
      using 3(1) [OF go f(1) w] by (auto simp: copied_def)
    show ?thesis
    proof (cases ok)
      case False
      with t(1) go f(2) w1 show ?thesis by (intro copiedI [of _ _ _ w1]) (auto simp: code)
    next
      case True
      with w1(3) obtain x where x: "u1 = Some (u @ [x])" "ys = field_bytes x" by (auto simp: field_copied_def)
      have "WF_SkipMessage k Z (Some (u @ [x])) c2 = ret (b, u', c')" using f(2) True x by simp
      from 3(2) [OF go _ this w1(2), of True] obtain w2 zs where
        w2: "Lite_SkipMessage_to k Z c2 w1 = ret (b, c', w2)" "co_carries True R ((xs @ ys) @ zs) w2"
        "b \<longrightarrow> message_copied (u @ [x]) u' c' zs" using True by (auto simp: copied_def)
      have "message_copied u u' c' (ys @ zs)" if b
        using w2(3) that x(2) by (auto simp: message_copied_def fields_bytes_def)
      then show ?thesis
        using t(1) go True w1(1) w2(1,2) by (intro copiedI [of _ _ _ w2 _ _ "ys @ zs"]) (simp_all add: code)
    qed
  qed
qed

section \<open>From bytes to bytes\<close>

context zero_copy_stream
begin

lemma message_from_stream:
  assumes s: "ok s" and k: "2 * length (rest s) < k"
  obtains c x where "CodedInputStream Z s = ret c" "old_fields k 100 (take (nat INT_MAX) (rest s)) = Some x"
    "skip_outcome ok rest chunk c [] x (WF_SkipMessage k Z (Some []) c)"
proof -
  let ?bs = "take (nat INT_MAX) (rest s)"
  obtain c where c: "CodedInputStream Z s = ret c" "cok c" "readable c = ?bs" "ci_marks c = (0, False)"
      "ci_config c = (INT_MAX, INT_MAX, default_recursion_limit, default_recursion_limit, False, False)"
    using CodedInputStream_result [OF s] by blast
  have r: "ready ok chunk 100 c"
    using c(2,4,5) by (simp add: ready_def ci_marks_def ci_config_def default_recursion_limit_def)
  have "2 * length ?bs < k" using k by simp
  then obtain x where x: "old_fields k 100 ?bs = Some x" using old_fields_fuel(2) by blast
  show thesis by (rule that [OF c(1) x skip_refines(2) [OF r c(3) x]])
qed

end

fun ending_bytes :: "ending \<Rightarrow> byte list" where
  "ending_bytes AtEnd = []"
| "ending_bytes (AtTag t) = varint_bytes (unat t)"

lemma old_fields_tag: "old_fields k d bs = Some (Some (fs, AtTag t, rest)) \<Longrightarrow> t AND 7 = 4"
proof (induction k arbitrary: bs fs)
  case (Suc k)
  then show ?case by (auto simp: old_fields.simps split: if_splits option.splits)
qed (simp add: old_fields.simps)

lemma end_bytes_marks:
  assumes "ci_marks c = end_marks e" and "\<And>t. e = AtTag t \<Longrightarrow> t AND 7 = 4"
  shows "end_bytes c = ending_bytes e"
  using assms by (cases e) (auto simp: end_bytes_def ci_marks_def wire_type_code wire_code_def)

text \<open>
  C31: Skipping a message from an array, read in blocks of any size, to an output stream with blocks of
  any sizes returns without a fault. When the reference parser accepts the bytes the skip succeeds, and
  the output is the encoding of the fields the parser found and of the tag that ended them, as many bytes
  as there is room for, with the error flag set exactly if some are missing. When the reference rejects
  the bytes, a skip that succeeds has not found the end of a message.
\<close>

theorem copy_is_parse_and_serialize:
  assumes "int (length data) \<le> INT_MAX" and "2 * length data < k"
  shows "\<exists>c b c' w w'. CodedInputStream array_input_stream (ArrayInputStream data block_size) = ret c \<and>
    Lite_SkipMessage_to k array_input_stream c (CodedOutputStream eager sizes) = ret (b, c', w) \<and>
    CodedOutputStream_destroy w = ret w' \<and>
    (case old_fields k 100 data of
       Some (Some (fs, e, rest)) \<Rightarrow> b \<and>
         concat (eo_blocks (co_impl w')) = take (sum_list sizes) (fields_bytes fs @ ending_bytes e) \<and>
         (eo_had_error (co_impl w') \<longleftrightarrow> sum_list sizes < length (fields_bytes fs @ ending_bytes e))
     | _ \<Rightarrow> \<not> (b \<and> Ci_ConsumedEntireMessage c'))"
proof -
  have len: "take (nat INT_MAX) data = data" using assms(1) by simp
  have fuel: "2 * length (array_rest (ArrayInputStream data block_size)) < k" using assms(2) by (simp add: array_rest_start)
  obtain c x where c: "CodedInputStream array_input_stream (ArrayInputStream data block_size) = ret c"
      "old_fields k 100 data = Some x"
      "skip_outcome array_ok array_rest array_chunk c [] x (WF_SkipMessage k array_input_stream (Some []) c)"
    using array_stream.message_from_stream [OF array_ok_start [OF assms(1)] fuel] unfolding array_rest_start len by blast
  obtain b u' c' where run: "WF_SkipMessage k array_input_stream (Some []) c = ret (b, u', c')"
    using c(3) by (auto simp: skip_outcome_def split: option.splits)
  obtain w ys where w: "Lite_SkipMessage_to k array_input_stream c (CodedOutputStream eager sizes) = ret (b, c', w)"
      "co_carries True (sum_list sizes) ys w" "b \<longrightarrow> message_copied [] u' c' ys"
    using copy_collects(2) [OF run CodedOutputStream_start, of sizes eager] by (auto simp: copied_def)
  obtain w' where w': "CodedOutputStream_destroy w = ret w'"
      "concat (eo_blocks (co_impl w')) = take (sum_list sizes) ys"
      "eo_had_error (co_impl w') \<longleftrightarrow> sum_list sizes < length ys"
    using destroy_delivers [OF w(2)] by blast
  have "case x of
       Some (fs, e, rest) \<Rightarrow> b \<and> ys = fields_bytes fs @ ending_bytes e
     | None \<Rightarrow> \<not> (b \<and> Ci_ConsumedEntireMessage c')"
  proof (cases x)
    case None
    with c(3) run show ?thesis by (auto simp: skip_outcome_def ci_marks_def Ci_ConsumedEntireMessage_def)
  next
    case (Some y)
    obtain fs e bs where y: "y = (fs, e, bs)" by (cases y)
    with Some c(3) run have r: "b" "u' = Some fs" "ci_marks c' = end_marks e" by (auto simp: skip_outcome_def)
    have "end_bytes c' = ending_bytes e"
      using end_bytes_marks [OF r(3)] old_fields_tag c(2) Some y by blast
    then show ?thesis using Some y r w(3) by (simp add: message_copied_def)
  qed
  with c(1,2) w(1) w' show ?thesis by (cases x) auto
qed

theorem copy_is_parse_and_serialize_witness:
  "\<exists>c b c' w w'. CodedInputStream array_input_stream (ArrayInputStream [0x88, 0, 5, 18, 2, 7, 8] 2) = ret c \<and>
    Lite_SkipMessage_to 20 array_input_stream c (CodedOutputStream False [1, 3]) = ret (b, c', w) \<and>
    CodedOutputStream_destroy w = ret w' \<and> b \<and> concat (eo_blocks (co_impl w')) = [8, 5, 18, 2] \<and>
    eo_had_error (co_impl w')"
proof -
  have r: "old_fields 20 100 [0x88, 0, 5, 18, 2, 7, 8] = Some (Some ([TYPE_VARINT 1 5, TYPE_LENGTH_DELIMITED 2 [7, 8]], AtEnd, []))"
    by code_simp
  have b: "fields_bytes [TYPE_VARINT 1 5, TYPE_LENGTH_DELIMITED 2 [7, 8]] = [8, 5, 18, 2, 7, 8]" by code_simp
  show ?thesis
    using copy_is_parse_and_serialize [of "[0x88, 0, 5, 18, 2, 7, 8]" 20 2 False "[1, 3]"]
    unfolding r option.case prod.case b by (simp add: INT_MAX_def)
qed

end
