(* ===== verification/Concat_Input.thy ===== *)
theory Concat_Input
  imports Wire_Skip_Properties
begin

text \<open>
  \<^verbatim>\<open>ConcatenatingInputStream\<close>, \<^verbatim>\<open>io/zero_copy_stream_impl.{h,cc}\<close>: a number of
  streams read one after the other. It keeps the contract of the streams it is made of, so everything
  that reads through \<open>zero_copy_stream\<close> reads the concatenation, whatever is stacked on it.
\<close>

record 's concat_input =
  cs_streams :: "'s list"
  cs_bytes_retired :: int

definition ConcatenatingInputStream :: "'s list \<Rightarrow> 's concat_input" where
  "ConcatenatingInputStream streams = \<lparr>cs_streams = streams, cs_bytes_retired = 0\<rparr>"

definition concat_at :: "'s list \<Rightarrow> int \<Rightarrow> 's concat_input" where
  "concat_at streams retired = \<lparr>cs_streams = streams, cs_bytes_retired = retired\<rparr>"

fun concat_next :: "'s zero_copy_input \<Rightarrow> 's list \<Rightarrow> int \<Rightarrow> byte list option \<times> 's concat_input" where
  "concat_next Z [] retired = (None, concat_at [] retired)"
| "concat_next Z (s # ss) retired =
     (case zi_Next Z s of
        (Some d, s') \<Rightarrow> (Some d, concat_at (s' # ss) retired)
      | (None, s') \<Rightarrow> concat_next Z ss (retired + zi_ByteCount Z s'))"

definition Concat_Next :: "'s zero_copy_input \<Rightarrow> 's concat_input \<Rightarrow> byte list option \<times> 's concat_input" where
  "Concat_Next Z c = concat_next Z (cs_streams c) (cs_bytes_retired c)"

text \<open>Without a stream left \<^verbatim>\<open>BackUp\<close> only logs in a release build.\<close>

definition Concat_BackUp :: "'s zero_copy_input \<Rightarrow> int \<Rightarrow> 's concat_input \<Rightarrow> 's concat_input res" where
  "Concat_BackUp Z count c =
     (case cs_streams c of
        s # ss \<Rightarrow> bind_res (zi_BackUp Z count s) (\<lambda>s'. Inr (c\<lparr>cs_streams := s' # ss\<rparr>))
      | [] \<Rightarrow> Inr c)"

fun concat_skip :: "'s zero_copy_input \<Rightarrow> int \<Rightarrow> 's list \<Rightarrow> int \<Rightarrow> (bool \<times> 's concat_input) res" where
  "concat_skip Z count [] retired = Inr (False, concat_at [] retired)"
| "concat_skip Z count (s # ss) retired =
     (let target_byte_count = zi_ByteCount Z s + count in
      bind_res (zi_Skip Z count s) (\<lambda>(ok, s').
        if ok then Inr (True, concat_at (s' # ss) retired)
        else
          let final_byte_count = zi_ByteCount Z s' in
          concat_skip Z (sint (word_of_int (target_byte_count - final_byte_count) :: uint32)) ss
            (retired + final_byte_count)))"

definition Concat_Skip :: "'s zero_copy_input \<Rightarrow> int \<Rightarrow> 's concat_input \<Rightarrow> (bool \<times> 's concat_input) res" where
  "Concat_Skip Z count c = concat_skip Z count (cs_streams c) (cs_bytes_retired c)"

definition Concat_ByteCount :: "'s zero_copy_input \<Rightarrow> 's concat_input \<Rightarrow> int" where
  "Concat_ByteCount Z c =
     (case cs_streams c of [] \<Rightarrow> cs_bytes_retired c | s # _ \<Rightarrow> cs_bytes_retired c + zi_ByteCount Z s)"

definition concatenating_input_stream :: "'s zero_copy_input \<Rightarrow> 's concat_input zero_copy_input" where
  "concatenating_input_stream Z =
     \<lparr>zi_Next = Concat_Next Z, zi_BackUp = Concat_BackUp Z, zi_Skip = Concat_Skip Z,
      zi_ByteCount = Concat_ByteCount Z\<rparr>"

section \<open>The contract is kept\<close>

text \<open>Every stream but the current one is still unread.\<close>

definition concat_ok :: "'s zero_copy_input \<Rightarrow> ('s \<Rightarrow> bool) \<Rightarrow> 's concat_input \<Rightarrow> bool" where
  "concat_ok Z ok c \<longleftrightarrow> list_all ok (cs_streams c) \<and> list_all (\<lambda>s. zi_ByteCount Z s = 0) (tl (cs_streams c))"

definition concat_rest :: "('s \<Rightarrow> byte list) \<Rightarrow> 's concat_input \<Rightarrow> byte list" where
  "concat_rest rest c = concat (map rest (cs_streams c))"

definition concat_chunk :: "('s \<Rightarrow> byte list) \<Rightarrow> 's concat_input \<Rightarrow> byte list" where
  "concat_chunk chunk c = (case cs_streams c of [] \<Rightarrow> [] | s # _ \<Rightarrow> chunk s)"

definition concat_budget :: "('s \<Rightarrow> nat) \<Rightarrow> 's concat_input \<Rightarrow> nat" where
  "concat_budget budget c = sum_list (map budget (cs_streams c))"

lemmas concat_abs = concat_ok_def concat_rest_def concat_chunk_def concat_budget_def concat_at_def Concat_ByteCount_def

context zero_copy_stream
begin

lemma concat_drop:
  assumes "concat_ok Z ok (concat_at (s # ss) retired)"
  shows "concat_ok Z ok (concat_at ss (retired + k))"
    "Concat_ByteCount Z (concat_at ss (retired + k)) = retired + k"
  using assms by (cases ss; simp add: concat_abs)+

lemma concat_next_law:
  assumes "concat_ok Z ok (concat_at ss retired)" and "concat_next Z ss retired = (r, c')"
  shows "concat_ok Z ok c' \<and>
    (case r of
       None \<Rightarrow> concat (map rest ss) = [] \<and> concat_rest rest c' = [] \<and>
         Concat_ByteCount Z c' = Concat_ByteCount Z (concat_at ss retired)
     | Some d \<Rightarrow> concat (map rest ss) = d @ concat_rest rest c' \<and> (\<exists>pre. concat_chunk chunk c' = pre @ d) \<and>
         concat_budget budget c' < sum_list (map budget ss) \<and> int (length d) \<le> INT_MAX \<and>
         Concat_ByteCount Z c' = Concat_ByteCount Z (concat_at ss retired) + int (length d))"
  using assms
proof (induction ss arbitrary: retired)
  case Nil
  then show ?case by (auto simp: concat_abs)
next
  case (Cons s ss)
  obtain x s' where x: "zi_Next Z s = (x, s')" by (metis surj_pair)
  have ok: "ok s" using Cons.prems(1) by (simp add: concat_abs)
  note L = next_law [OF ok x]
  show ?case
  proof (cases x)
    case None
    let ?r = "retired + zi_ByteCount Z s'"
    have "concat_next Z ss ?r = (r, c')" using Cons.prems(2) x None by simp
    note IH = Cons.IH [OF concat_drop(1) [OF Cons.prems(1)] this]
    have "Concat_ByteCount Z (concat_at ss ?r) = Concat_ByteCount Z (concat_at (s # ss) retired)"
      unfolding concat_drop(2) [OF Cons.prems(1)] using L None by (simp add: concat_abs)
    then show ?thesis using IH L None by (auto split: option.splits)
  next
    case (Some d)
    then have "r = Some d" "c' = concat_at (s' # ss) retired" using Cons.prems(2) x by simp_all
    then show ?thesis using L Some Cons.prems(1) by (simp add: concat_abs)
  qed
qed

lemma concat_skip_law:
  assumes "concat_ok Z ok (concat_at ss retired)" and "0 \<le> n" "n \<le> INT_MAX"
  shows "\<exists>b c'. concat_skip Z n ss retired = Inr (b, c') \<and>
    (0 < n \<longrightarrow> b = (n \<le> int (length (concat (map rest ss))))) \<and>
    (\<not> b \<longrightarrow> concat_rest rest c' = []) \<and> concat_ok Z ok c' \<and>
    concat_rest rest c' = drop (nat n) (concat (map rest ss)) \<and>
    Concat_ByteCount Z c' = Concat_ByteCount Z (concat_at ss retired) +
      int (min (nat n) (length (concat (map rest ss))))"
  using assms
proof (induction ss arbitrary: n retired)
  case Nil
  then show ?case by (auto simp: concat_abs)
next
  case (Cons s ss)
  have ok: "ok s" using Cons.prems(1) by (simp add: concat_abs)
  obtain b s' where b: "zi_Skip Z n s = Inr (b, s')" "0 < n \<longrightarrow> b = (n \<le> int (length (rest s)))"
      "\<not> b \<longrightarrow> rest s' = []" "ok s'" "rest s' = drop (nat n) (rest s)"
      "zi_ByteCount Z s' = zi_ByteCount Z s + int (min (nat n) (length (rest s)))"
    using skip_law [OF ok Cons.prems(2,3)] by blast
  have take: "nat n \<le> length (rest s)" if b using that b(2) Cons.prems(2) by (cases "n = 0") auto
  show ?case
  proof (cases b)
    case True
    then have "concat_skip Z n (s # ss) retired = Inr (True, concat_at (s' # ss) retired)" using b(1) by (simp add: Let_def)
    moreover have "n \<le> int (length (concat (map rest (s # ss))))"
      using take [OF True] by (simp add: nat_le_iff)
    ultimately show ?thesis
      using Cons.prems(1) b(4-6) take [OF True]
      by (intro exI [of _ True]) (simp add: concat_abs)
  next
    case False
    let ?k = "length (rest s)" and ?r = "retired + zi_ByteCount Z s'"
    have k: "?k \<le> nat n" using b(3,5) False by simp
    have lt: "0 < n \<longrightarrow> int ?k < n" using b(2) False by (simp add: not_le)
    have m: "zi_ByteCount Z s + n - zi_ByteCount Z s' = n - int ?k" using b(6) k by simp
    have w: "sint (word_of_int (n - int ?k) :: uint32) = n - int ?k"
      using k Cons.prems(2,3) unfolding sint_sbintrunc'
      by (intro signed_take_bit_int_eq_self) (auto simp: INT_MAX_def)
    have eq: "concat_skip Z n (s # ss) retired = concat_skip Z (n - int ?k) ss ?r"
      using b(1) False by (simp add: Let_def m w del: of_int_add of_int_diff)
    have n': "0 \<le> n - int ?k" "n - int ?k \<le> INT_MAX" using k Cons.prems(2,3) by auto
    obtain b' c' where IH: "concat_skip Z (n - int ?k) ss ?r = Inr (b', c')"
        "0 < n - int ?k \<longrightarrow> b' = (n - int ?k \<le> int (length (concat (map rest ss))))"
        "\<not> b' \<longrightarrow> concat_rest rest c' = []" "concat_ok Z ok c'"
        "concat_rest rest c' = drop (nat (n - int ?k)) (concat (map rest ss))"
        "Concat_ByteCount Z c' = Concat_ByteCount Z (concat_at ss ?r) +
          int (min (nat (n - int ?k)) (length (concat (map rest ss))))"
      using Cons.IH [OF concat_drop(1) [OF Cons.prems(1)] n'] by blast
    have d: "nat (n - int ?k) = nat n - ?k" using k by simp
    have whole: "0 < n \<longrightarrow> b' = (n \<le> int (length (concat (map rest (s # ss)))))"
      using IH(2) lt by auto
    have bc: "Concat_ByteCount Z c' = Concat_ByteCount Z (concat_at (s # ss) retired) +
        int (min (nat n) (length (concat (map rest (s # ss)))))"
    proof -
      have "min (nat n) ?k + min (nat n - ?k) (length (concat (map rest ss))) = min (nat n) (length (concat (map rest (s # ss))))"
        using k by simp
      then show ?thesis
        unfolding IH(6) concat_drop(2) [OF Cons.prems(1)] b(6) d
        by (simp only: concat_abs list.case concat_input.simps add.assoc flip: of_nat_add)
    qed
    have "concat_rest rest c' = drop (nat n) (concat (map rest (s # ss)))" using IH(5) d k by simp
    then show ?thesis unfolding eq using IH(1,3,4) whole bc by blast
  qed
qed

lemma concatenating_stream:
  "zero_copy_stream (concatenating_input_stream Z) (concat_ok Z ok) (concat_rest rest) (concat_chunk chunk)
     (concat_budget budget)"
proof (unfold_locales, goal_cases)
  case (1 c r c')
  have "concat_at (cs_streams c) (cs_bytes_retired c) = c" by (simp add: concat_at_def)
  then show ?case
    using concat_next_law [of "cs_streams c" "cs_bytes_retired c" r c'] 1
    by (cases r) (simp_all add: concatenating_input_stream_def Concat_Next_def concat_rest_def [of _ c] concat_budget_def [of _ c])
next
  case (2 c n)
  obtain s ss where c: "cs_streams c = s # ss" using 2(4) by (cases "cs_streams c") (auto simp: concat_abs)
  have ok: "ok s" and ch: "concat_chunk chunk c = chunk s" using 2(1) c by (simp_all add: concat_abs)
  obtain s' where "zi_BackUp Z n s = Inr s'" "ok s'" "rest s' = drop (length (chunk s) - nat n) (chunk s) @ rest s"
      "zi_ByteCount Z s' = zi_ByteCount Z s - n"
    using backup_law [OF ok 2(2)] 2(3,4) unfolding ch by blast
  then show ?case
    using 2(1) c by (simp add: concatenating_input_stream_def Concat_BackUp_def concat_abs)
next
  case (3 c n)
  have "concat_at (cs_streams c) (cs_bytes_retired c) = c" by (simp add: concat_at_def)
  then show ?case
    using concat_skip_law [of "cs_streams c" "cs_bytes_retired c" n] 3
    by (simp add: concatenating_input_stream_def Concat_Skip_def concat_rest_def [of _ c])
qed

end

section \<open>What lies beyond a limit\<close>

text \<open>
  The bytes below a \<^verbatim>\<open>LimitingInputStream\<close> that its limit keeps from the reader: nothing it
  does changes them, and its destructor leaves the stream below in front of them.
\<close>

definition lim_tail :: "('s \<Rightarrow> byte list) \<Rightarrow> ('s \<Rightarrow> byte list) \<Rightarrow> 's limiting_input \<Rightarrow> byte list" where
  "lim_tail rest chunk s =
     (if li_limit s < 0
      then drop (length (chunk (li_input s)) - nat (- li_limit s)) (chunk (li_input s)) @ rest (li_input s)
      else drop (nat (li_limit s)) (rest (li_input s)))"

definition guarded :: "('s \<Rightarrow> bool) \<Rightarrow> ('s \<Rightarrow> byte list) \<Rightarrow> ('s \<Rightarrow> byte list) \<Rightarrow> byte list \<Rightarrow> 's limiting_input \<Rightarrow> bool" where
  "guarded ok rest chunk bs s \<longleftrightarrow> lim_ok ok chunk s \<and> lim_tail rest chunk s = bs"

context zero_copy_stream
begin

lemma next_tail:
  assumes ok: "lim_ok ok chunk s" and nx: "Limiting_Next Z s = (r, s')"
  shows "lim_tail rest chunk s' = lim_tail rest chunk s"
proof (cases "li_limit s \<le> 0")
  case True
  then show ?thesis using nx by (simp add: Limiting_Next_def)
next
  case False
  obtain x input where x: "zi_Next Z (li_input s) = (x, input)" by (metis surj_pair)
  have ok0: "ok (li_input s)" using ok by (simp add: lim_ok_def)
  note L = next_law [OF ok0 x]
  show ?thesis
  proof (cases x)
    case None
    then show ?thesis using False nx x L by (auto simp: Limiting_Next_def lim_tail_def)
  next
    case (Some d)
    let ?lim = "li_limit s - int (length d)"
    have s': "s' = s\<lparr>li_input := input, li_limit := ?lim\<rparr>"
      using False nx x Some by (auto simp: Limiting_Next_def Let_def)
    obtain pre where pre: "chunk input = pre @ d" using L Some by auto
    have "drop (length (chunk input) - nat (- ?lim)) (chunk input) = drop (nat (li_limit s)) d" if "?lim < 0"
    proof -
      have "length (pre @ d) - nat (- ?lim) = length pre + nat (li_limit s)" using that False by simp
      then show ?thesis by (simp add: pre)
    qed
    moreover have "nat ?lim = nat (li_limit s) - length d" by (simp add: nat_diff_distrib')
    ultimately show ?thesis using False L Some by (simp add: s' lim_tail_def)
  qed
qed

lemma backup_tail:
  assumes ok: "lim_ok ok chunk s" and n: "0 \<le> n" "n \<le> int (length (lim_chunk chunk s))"
    and ne: "lim_chunk chunk s \<noteq> []" and b: "Limiting_BackUp Z n s = Inr s'"
  shows "lim_tail rest chunk s' = lim_tail rest chunk s"
proof -
  let ?c = "chunk (li_input s)" and ?m = "nat (- li_limit s)"
  let ?k = "n + (if li_limit s < 0 then - li_limit s else 0)"
  have c: "?c \<noteq> []" "li_limit s < 0 \<longrightarrow> nat n + ?m \<le> length ?c" "0 \<le> li_limit s \<longrightarrow> nat n \<le> length ?c"
    using ok n ne by (auto simp: lim_ok_def lim_chunk_def split: if_splits)
  have "0 \<le> ?k" "?k \<le> int (length ?c)" using c(2,3) n(1) by auto
  then obtain input where i: "zi_BackUp Z ?k (li_input s) = Inr input"
      "rest input = drop (length ?c - nat ?k) ?c @ rest (li_input s)"
    using backup_law [of "li_input s" ?k] ok c(1) by (auto simp: lim_ok_def)
  show ?thesis
  proof (cases "li_limit s < 0")
    case True
    then have "s' = s\<lparr>li_input := input, li_limit := n\<rparr>" "nat ?k = nat n + ?m"
      using b i(1) n(1) by (auto simp: Limiting_BackUp_def)
    then show ?thesis using True i(2) n(1) c(2) by (simp add: lim_tail_def add.commute)
  next
    case False
    then have "s' = s\<lparr>li_input := input, li_limit := li_limit s + n\<rparr>" "nat (li_limit s + n) = nat n + nat (li_limit s)"
      using b i(1) n(1) by (auto simp: Limiting_BackUp_def)
    then show ?thesis using False i(2) n(1) c(3) by (simp add: lim_tail_def)
  qed
qed

lemma skip_tail:
  assumes ok: "lim_ok ok chunk s" and n: "0 \<le> n" "n \<le> INT_MAX" and sk: "Limiting_Skip Z n s = Inr (b, s')"
  shows "lim_tail rest chunk s' = lim_tail rest chunk s"
proof -
  have ok0: "ok (li_input s)" using ok by (simp add: lim_ok_def)
  consider "li_limit s < 0" | "0 \<le> li_limit s" "li_limit s < n" | "0 \<le> li_limit s" "n \<le> li_limit s"
    by linarith
  then show ?thesis
  proof cases
    case 1
    then show ?thesis using sk n by (auto simp: Limiting_Skip_def)
  next
    case 2
    obtain b' input where i: "zi_Skip Z (li_limit s) (li_input s) = Inr (b', input)"
        "rest input = drop (nat (li_limit s)) (rest (li_input s))"
      using skip_law [OF ok0 2(1)] 2(2) n(2) by force
    then show ?thesis using 2 sk by (auto simp: Limiting_Skip_def lim_tail_def)
  next
    case 3
    obtain b' input where i: "zi_Skip Z n (li_input s) = Inr (b', input)" "\<not> b' \<longrightarrow> rest input = []"
        "rest input = drop (nat n) (rest (li_input s))"
      using skip_law [OF ok0 n] by blast
    have le: "nat n \<le> nat (li_limit s)" "nat (li_limit s - n) = nat (li_limit s) - nat n"
      using 3 n(1) by (auto simp: nat_diff_distrib')
    have "drop (nat (li_limit s)) (rest (li_input s)) = []" if "rest input = []" using that i(3) le(1) by simp
    then show ?thesis using 3 sk i le by (auto simp: Limiting_Skip_def lim_tail_def split: if_splits)
  qed
qed

lemma guarded_stream:
  "zero_copy_stream (limiting_input_stream Z) (guarded ok rest chunk bs) (lim_rest rest) (lim_chunk chunk)
     (\<lambda>s. budget (li_input s))"
proof (unfold_locales, goal_cases)
  case (1 s r s')
  then have "lim_ok ok chunk s" "Limiting_Next Z s = (r, s')" "lim_tail rest chunk s = bs"
    by (simp_all add: guarded_def limiting_input_stream_def)
  then show ?case using limiting_next [of s r s'] next_tail [of s r s']
    by (cases r) (simp_all add: guarded_def limiting_input_stream_def)
next
  case (2 s n)
  then show ?case using limiting_backup [of s n] backup_tail [of s n]
    by (auto simp: guarded_def limiting_input_stream_def)
next
  case (3 s n)
  then have "lim_ok ok chunk s" "lim_tail rest chunk s = bs" by (simp_all add: guarded_def)
  then show ?case using limiting_skip [OF _ 3(2,3)] skip_tail [OF _ 3(2,3)]
    by (fastforce simp: guarded_def limiting_input_stream_def)
qed

lemma guarded_start:
  assumes "ok s" and "0 \<le> limit"
  shows "guarded ok rest chunk (drop (nat limit) (rest s)) (LimitingInputStream Z s limit)"
    "lim_rest rest (LimitingInputStream Z s limit) = take (nat limit) (rest s)"
  using assms by (simp_all add: guarded_def lim_ok_def lim_tail_def lim_rest_def LimitingInputStream_def)

lemma guarded_end:
  assumes g: "guarded ok rest chunk bs s" and empty: "lim_rest rest s = []"
  shows "\<exists>t. LimitingInputStream_destroy Z s = Inr t \<and> ok t \<and> rest t = bs"
proof (cases "li_limit s < 0")
  case True
  have "0 \<le> - li_limit s" "- li_limit s \<le> int (length (chunk (li_input s)))" "chunk (li_input s) \<noteq> []" "ok (li_input s)"
    using g True by (auto simp: guarded_def lim_ok_def)
  then show ?thesis
    using g True backup_law [of "li_input s" "- li_limit s"]
    by (auto simp: LimitingInputStream_destroy_def guarded_def lim_tail_def)
next
  case False
  then show ?thesis
    using g empty by (auto simp: LimitingInputStream_destroy_def guarded_def lim_tail_def lim_ok_def lim_rest_def)
qed

text \<open>Parsing through a limit over any stream.\<close>

lemma parse_limited:
  assumes s: "ok s" and l: "0 \<le> limit" "limit \<le> INT_MAX" and k: "2 * nat limit < k"
  shows "\<exists>b gs s'. Ufs_ParseFromZeroCopyStream k (limiting_input_stream Z) fs (LimitingInputStream Z s limit) = ret (b, gs, s') \<and>
    (case whole (old_fields k 100 (take (nat limit) (rest s))) of
       Some hs \<Rightarrow> b \<and> gs = hs \<and>
         (\<exists>t. LimitingInputStream_destroy Z s' = Inr t \<and> ok t \<and> rest t = drop (nat limit) (rest s))
     | None \<Rightarrow> \<not> b \<and> gs = [])"
proof -
  let ?s = "LimitingInputStream Z s limit" and ?bs = "take (nat limit) (rest s)"
  have le: "length ?bs \<le> nat INT_MAX" "take (nat INT_MAX) ?bs = ?bs" "2 * length ?bs < k"
    using nat_mono [OF l(2)] k by (simp_all add: min_absorb1 min_absorb2)
  show ?thesis
    using zero_copy_stream.parse_stream [OF guarded_stream guarded_start(1) [OF s l(1)], of k fs] le
      guarded_end [of "drop (nat limit) (rest s)"]
    unfolding guarded_start(2) [OF s l(1)] by (fastforce split: option.splits)
qed

end

interpretation concat_arrays: zero_copy_stream "concatenating_input_stream array_input_stream"
    "concat_ok array_input_stream array_ok" "concat_rest array_rest" "concat_chunk array_chunk"
    "concat_budget (\<lambda>s. length (array_rest s))"
  by (rule array_stream.concatenating_stream)

interpretation limited_concat: zero_copy_stream "limiting_input_stream (concatenating_input_stream array_input_stream)"
    "lim_ok (concat_ok array_input_stream array_ok) (concat_chunk array_chunk)" "lim_rest (concat_rest array_rest)"
    "lim_chunk (concat_chunk array_chunk)"
    "\<lambda>s. concat_budget (\<lambda>s. length (array_rest s)) (li_input s)"
  by (rule concat_arrays.limiting_stream)

section \<open>Properties\<close>

lemma concat_arrays_start:
  assumes "list_all (\<lambda>(d, b). int (length d) \<le> INT_MAX) parts"
  shows "concat_ok array_input_stream array_ok (ConcatenatingInputStream (map (\<lambda>(d, b). ArrayInputStream d b) parts))"
    "concat_rest array_rest (ConcatenatingInputStream (map (\<lambda>(d, b). ArrayInputStream d b) parts)) = concat (map fst parts)"
proof -
  have "zi_ByteCount array_input_stream (ArrayInputStream d b) = 0" for d b
    by (simp add: array_input_stream_def ArrayInputStream_def Let_def)
  then have "list_all (\<lambda>s. zi_ByteCount array_input_stream s = 0) (map (\<lambda>(d, b). ArrayInputStream d b) parts)" for parts
    by (induction parts) auto
  then show "concat_ok array_input_stream array_ok (ConcatenatingInputStream (map (\<lambda>(d, b). ArrayInputStream d b) parts))"
    using assms array_ok_start
    by (cases parts) (auto simp: concat_ok_def ConcatenatingInputStream_def list_all_iff)
  show "concat_rest array_rest (ConcatenatingInputStream (map (\<lambda>(d, b). ArrayInputStream d b) parts)) = concat (map fst parts)"
    by (induction parts) (auto simp: concat_rest_def ConcatenatingInputStream_def array_rest_start)
qed

text \<open>
  C32: A message of unknown fields that lies at the front of several arrays read one after the other,
  each in blocks of its own size, can be parsed through a \<^verbatim>\<open>LimitingInputStream\<close>: parsing
  returns and agrees with the reference parser on the first \<open>limit\<close> bytes of the concatenation,
  wherever the arrays and the blocks are cut. When it succeeds, the destructor of the limiting stream
  leaves the concatenation in front of the first byte after the limit, however far the last block reached.
\<close>

theorem delimited_parse:
  assumes "list_all (\<lambda>(d, b). int (length d) \<le> INT_MAX) parts"
    and "0 \<le> limit" and "limit \<le> INT_MAX" and "2 * nat limit < k"
    and "Z = concatenating_input_stream array_input_stream"
    and "c = ConcatenatingInputStream (map (\<lambda>(d, b). ArrayInputStream d b) parts)"
  shows "\<exists>b gs s. Ufs_ParseFromZeroCopyStream k (limiting_input_stream Z) fs (LimitingInputStream Z c limit) = ret (b, gs, s) \<and>
    (case whole (old_fields k 100 (take (nat limit) (concat (map fst parts)))) of
       Some hs \<Rightarrow> b \<and> gs = hs \<and>
         (\<exists>t. LimitingInputStream_destroy Z s = Inr t \<and> concat_rest array_rest t = drop (nat limit) (concat (map fst parts)))
     | None \<Rightarrow> \<not> b \<and> gs = [])"
  using concat_arrays.parse_limited [OF concat_arrays_start(1) [OF assms(1)] assms(2-4), of fs]
  unfolding assms(5,6) concat_arrays_start(2) [OF assms(1)] by (fastforce split: option.splits)

theorem delimited_parse_witness:
  "\<exists>s t. Ufs_ParseFromZeroCopyStream 20
      (limiting_input_stream (concatenating_input_stream array_input_stream)) [TYPE_FIXED32 1 1]
      (LimitingInputStream (concatenating_input_stream array_input_stream)
        (ConcatenatingInputStream (map (\<lambda>(d, b). ArrayInputStream d b) [([10, 2, 7], 1), ([], 0), ([8, 24, 5, 9, 9], - 1)])) 6) =
      ret (True, [TYPE_LENGTH_DELIMITED 1 [7, 8], TYPE_VARINT 3 5], s) \<and>
    LimitingInputStream_destroy (concatenating_input_stream array_input_stream) s = Inr t \<and>
    concat_rest array_rest t = [9, 9]"
proof -
  have r: "whole (old_fields 20 100 [10, 2, 7, 8, 24, 5]) = Some [TYPE_LENGTH_DELIMITED 1 [7, 8], TYPE_VARINT 3 5]"
    by code_simp
  show ?thesis
    using delimited_parse [of "[([10, 2, 7], 1), ([], 0), ([8, 24, 5, 9, 9], - 1)]" 6 20 _ _ "[TYPE_FIXED32 1 1]", OF _ _ _ _ refl refl] r
    by (auto simp: INT_MAX_def)
qed

end
