(* ===== verification/Copying_Input.thy ===== *)
theory Copying_Input
  imports Concat_Input
begin

text \<open>
  Streams of blocks over streams that copy into a buffer of the caller,
  \<^verbatim>\<open>io/zero_copy_stream_impl_lite.{h,cc}\<close> and \<^verbatim>\<open>io/zero_copy_stream_impl.{h,cc}\<close>:
  \<^verbatim>\<open>CopyingInputStream\<close>, \<^verbatim>\<open>CopyingInputStreamAdaptor\<close> and, for a \<^verbatim>\<open>std::istream\<close>,
  \<^verbatim>\<open>IstreamInputStream\<close>. The adaptor keeps the contract \<open>zero_copy_stream\<close> whenever the stream
  below keeps \<open>copying_source\<close>, so all readers of such streams read from a \<^verbatim>\<open>std::istream\<close>.
\<close>

section \<open>\<^verbatim>\<open>CopyingInputStream\<close>\<close>

text \<open>\<^verbatim>\<open>Read\<close> gives the bytes it copied, none at the end of the stream, or \<open>None\<close> for -1.\<close>

record 's copying_input =
  cy_Read :: "int \<Rightarrow> 's \<Rightarrow> byte list option \<times> 's"
  cy_Skip :: "int \<Rightarrow> 's \<Rightarrow> int \<times> 's"

text \<open>The default implementation of \<^verbatim>\<open>Skip\<close>: it reads into an array of 4096 bytes.\<close>

function skip_reading :: "(int \<Rightarrow> 's \<Rightarrow> byte list option \<times> 's) \<Rightarrow> int \<Rightarrow> int \<Rightarrow> 's \<Rightarrow> int \<times> 's" where
  "skip_reading Read count skipped s =
     (if skipped < count then
        (case Read (min (count - skipped) 4096) s of
           (None, s') \<Rightarrow> (skipped, s')
         | (Some [], s') \<Rightarrow> (skipped, s')
         | (Some (x # xs), s') \<Rightarrow> skip_reading Read count (skipped + int (length (x # xs))) s')
      else (skipped, s))"
  by pat_completeness auto
termination by (relation "measure (\<lambda>(Read, count, skipped, s). nat (count - skipped))") auto

declare skip_reading.simps [simp del]

definition CopyingInputStream_Skip :: "(int \<Rightarrow> 's \<Rightarrow> byte list option \<times> 's) \<Rightarrow> int \<Rightarrow> 's \<Rightarrow> int \<times> 's" where
  "CopyingInputStream_Skip Read count s = skip_reading Read count 0 s"

section \<open>\<^verbatim>\<open>CopyingInputStreamAdaptor\<close>\<close>

record 's copying_adaptor =
  ca_copying_stream :: 's
  ca_failed :: bool
  ca_position :: int
  ca_buffer :: "byte list option"
  ca_buffer_size :: int
  ca_buffer_used :: int
  ca_backup_bytes :: int

definition kDefaultBlockSize :: int where "kDefaultBlockSize = 8192"

definition CopyingInputStreamAdaptor :: "'s \<Rightarrow> int \<Rightarrow> 's copying_adaptor" where
  "CopyingInputStreamAdaptor copying_stream block_size =
     \<lparr>ca_copying_stream = copying_stream, ca_failed = False, ca_position = 0, ca_buffer = None,
      ca_buffer_size = (if block_size > 0 then block_size else kDefaultBlockSize),
      ca_buffer_used = 0, ca_backup_bytes = 0\<rparr>"

definition Adaptor_AllocateBufferIfNeeded :: "'s copying_adaptor \<Rightarrow> 's copying_adaptor" where
  "Adaptor_AllocateBufferIfNeeded a =
     (case ca_buffer a of
        None \<Rightarrow> a\<lparr>ca_buffer := Some (replicate (nat (ca_buffer_size a)) 0)\<rparr>
      | Some _ \<Rightarrow> a)"

definition Adaptor_FreeBuffer :: "'s copying_adaptor \<Rightarrow> 's copying_adaptor res" where
  "Adaptor_FreeBuffer a =
     (if ca_backup_bytes a \<noteq> 0 then Inl FatalLog
      else Inr (a\<lparr>ca_buffer_used := 0, ca_buffer := None\<rparr>))"

text \<open>A pointer into the buffer, to read \<open>n\<close> bytes from it.\<close>

definition adaptor_bytes :: "'s copying_adaptor \<Rightarrow> int \<Rightarrow> int \<Rightarrow> byte list res" where
  "adaptor_bytes a i n = (case ca_buffer a of None \<Rightarrow> Inl NullDeref | Some b \<Rightarrow> mem_read b i n)"

definition Adaptor_Next :: "'s copying_input \<Rightarrow> 's copying_adaptor \<Rightarrow> (byte list option \<times> 's copying_adaptor) res" where
  "Adaptor_Next C a =
     (if ca_failed a then Inr (None, a)
      else
        let a1 = Adaptor_AllocateBufferIfNeeded a in
        if ca_backup_bytes a1 > 0 then
          bind_res (adaptor_bytes a1 (ca_buffer_used a1 - ca_backup_bytes a1) (ca_backup_bytes a1)) (\<lambda>d.
            Inr (Some d, a1\<lparr>ca_backup_bytes := 0\<rparr>))
        else
          (case cy_Read C (ca_buffer_size a1) (ca_copying_stream a1) of
             (None, s) \<Rightarrow>
               bind_res (Adaptor_FreeBuffer (a1\<lparr>ca_copying_stream := s, ca_failed := True\<rparr>)) (\<lambda>a2. Inr (None, a2))
           | (Some bs, s) \<Rightarrow>
               bind_res (mem_write (the (ca_buffer a1)) 0 bs) (\<lambda>buf.
                 let a2 = a1\<lparr>ca_copying_stream := s, ca_buffer := Some buf, ca_buffer_used := int (length bs)\<rparr> in
                 if ca_buffer_used a2 \<le> 0 then bind_res (Adaptor_FreeBuffer a2) (\<lambda>a3. Inr (None, a3))
                 else
                   let a3 = a2\<lparr>ca_position := ca_position a2 + ca_buffer_used a2\<rparr> in
                   bind_res (adaptor_bytes a3 0 (ca_buffer_used a3)) (\<lambda>d. Inr (Some d, a3)))))"

definition Adaptor_BackUp :: "int \<Rightarrow> 's copying_adaptor \<Rightarrow> 's copying_adaptor res" where
  "Adaptor_BackUp count a =
     (if \<not> (ca_backup_bytes a = 0 \<and> ca_buffer a \<noteq> None) then Inl FatalLog
      else if \<not> count \<le> ca_buffer_used a then Inl FatalLog
      else if \<not> count \<ge> 0 then Inl FatalLog
      else Inr (a\<lparr>ca_backup_bytes := count\<rparr>))"

definition Adaptor_Skip :: "'s copying_input \<Rightarrow> int \<Rightarrow> 's copying_adaptor \<Rightarrow> (bool \<times> 's copying_adaptor) res" where
  "Adaptor_Skip C count a =
     (if \<not> count \<ge> 0 then Inl FatalLog
      else if ca_failed a then Inr (False, a)
      else if ca_backup_bytes a \<ge> count then Inr (True, a\<lparr>ca_backup_bytes := ca_backup_bytes a - count\<rparr>)
      else
        let count' = count - ca_backup_bytes a;
            (skipped, s) = cy_Skip C count' (ca_copying_stream a) in
        Inr (skipped = count',
             a\<lparr>ca_backup_bytes := 0, ca_copying_stream := s, ca_position := ca_position a + skipped\<rparr>))"

definition Adaptor_ByteCount :: "'s copying_adaptor \<Rightarrow> int" where
  "Adaptor_ByteCount a = ca_position a - ca_backup_bytes a"

text \<open>
  The adaptor as a \<^verbatim>\<open>ZeroCopyInputStream\<close>. That \<^verbatim>\<open>Next\<close> does not fault is part of
  the lemma \<open>adaptor_next\<close> below.
\<close>

definition copying_input_stream :: "'s copying_input \<Rightarrow> 's copying_adaptor zero_copy_input" where
  "copying_input_stream C =
     \<lparr>zi_Next = (\<lambda>a. case Adaptor_Next C a of Inr r \<Rightarrow> r | Inl _ \<Rightarrow> (None, a)),
      zi_BackUp = Adaptor_BackUp, zi_Skip = Adaptor_Skip C, zi_ByteCount = Adaptor_ByteCount\<rparr>"

section \<open>\<^verbatim>\<open>IstreamInputStream\<close>\<close>

text \<open>
  A \<^verbatim>\<open>std::istream\<close>: what its device still has, its state bits, and \<^verbatim>\<open>gcount\<close>. A
  \<^verbatim>\<open>read\<close> on a stream that is not \<^verbatim>\<open>good\<close> sets \<^verbatim>\<open>failbit\<close> and reads nothing; one
  that comes up short sets \<^verbatim>\<open>eofbit\<close> and \<^verbatim>\<open>failbit\<close>.
\<close>

record istream =
  is_data :: "byte list"
  is_eofbit :: bool
  is_failbit :: bool
  is_badbit :: bool
  is_gcount :: int

definition is_good :: "istream \<Rightarrow> bool" where
  "is_good s \<longleftrightarrow> \<not> is_eofbit s \<and> \<not> is_failbit s \<and> \<not> is_badbit s"

definition is_fail :: "istream \<Rightarrow> bool" where
  "is_fail s \<longleftrightarrow> is_failbit s \<or> is_badbit s"

definition istream_read :: "int \<Rightarrow> istream \<Rightarrow> byte list \<times> istream" where
  "istream_read n s =
     (if is_good s then
        let d = take (nat n) (is_data s); short = int (length d) < n in
        (d, s\<lparr>is_data := drop (nat n) (is_data s), is_gcount := int (length d),
              is_eofbit := short, is_failbit := short\<rparr>)
      else ([], s\<lparr>is_failbit := True, is_gcount := 0\<rparr>))"

definition Istream_Read :: "int \<Rightarrow> istream \<Rightarrow> byte list option \<times> istream" where
  "Istream_Read n s =
     (let (d, s') = istream_read n s; result = is_gcount s' in
      if result = 0 \<and> is_fail s' \<and> \<not> is_eofbit s' then (None, s') else (Some d, s'))"

definition copying_istream :: "istream copying_input" where
  "copying_istream = \<lparr>cy_Read = Istream_Read, cy_Skip = CopyingInputStream_Skip Istream_Read\<rparr>"

definition IstreamInputStream :: "istream \<Rightarrow> int \<Rightarrow> istream copying_adaptor" where
  "IstreamInputStream input block_size = CopyingInputStreamAdaptor input block_size"

definition istream_input_stream :: "istream copying_adaptor zero_copy_input" where
  "istream_input_stream = copying_input_stream copying_istream"

section \<open>The contract of a copying stream\<close>

text \<open>\<open>srest\<close> is what the stream delivers before its end or its first error.\<close>

locale byte_reader =
  fixes Read :: "int \<Rightarrow> 's \<Rightarrow> byte list option \<times> 's"
    and sok :: "'s \<Rightarrow> bool"
    and srest :: "'s \<Rightarrow> byte list"
  assumes read_law: "sok s \<Longrightarrow> 0 < n \<Longrightarrow> Read n s = (r, s') \<Longrightarrow> sok s' \<and>
      (case r of
         None \<Rightarrow> srest s = [] \<and> srest s' = []
       | Some d \<Rightarrow> srest s = d @ srest s' \<and> int (length d) \<le> n \<and> (d = [] \<longrightarrow> srest s = []))"

locale copying_source = byte_reader "cy_Read C" sok srest
    for C :: "'s copying_input" and sok :: "'s \<Rightarrow> bool" and srest :: "'s \<Rightarrow> byte list" +
  assumes source_skip_law: "sok s \<Longrightarrow> 0 < n \<Longrightarrow>
      \<exists>s'. cy_Skip C n s = (int (min (nat n) (length (srest s))), s') \<and> sok s' \<and> srest s' = drop (nat n) (srest s)"

text \<open>The default \<^verbatim>\<open>Skip\<close> does what the contract asks.\<close>

context byte_reader
begin

lemma skip_reading_result:
  assumes "sok s" and "skipped \<le> count"
  shows "\<exists>s'. skip_reading Read count skipped s =
      (skipped + int (min (nat (count - skipped)) (length (srest s))), s') \<and> sok s' \<and>
    srest s' = drop (nat (count - skipped)) (srest s)"
  using assms
proof (induction "nat (count - skipped)" arbitrary: skipped s rule: less_induct)
  case less
  show ?case
  proof (cases "skipped < count")
    case False
    then have "skipped = count" using less.prems(2) by simp
    then show ?thesis using less.prems(1) by (simp add: skip_reading.simps)
  next
    case True
    let ?n = "min (count - skipped) 4096"
    obtain r s1 where r: "Read ?n s = (r, s1)" by (metis surj_pair)
    have "0 < ?n" using True by simp
    note L = read_law [OF less.prems(1) this r]
    show ?thesis
    proof (cases "r = None \<or> r = Some []")
      case True
      then have "srest s = []" "srest s1 = []" "sok s1" using L by auto
      then show ?thesis using True r \<open>skipped < count\<close> by (auto simp: skip_reading.simps)
    next
      case False
      then obtain x xs where d: "r = Some (x # xs)" by (metis list.exhaust option.exhaust)
      let ?k = "int (length (x # xs))"
      have le: "skipped + ?k \<le> count" "nat (count - (skipped + ?k)) < nat (count - skipped)"
        using L d True by auto
      have e: "skip_reading Read count skipped s = skip_reading Read count (skipped + ?k) s1"
        using True r d by (simp add: skip_reading.simps [of _ _ skipped])
      have n: "nat (count - skipped) = length (x # xs) + nat (count - (skipped + ?k))" using le(1) by simp
      have s: "srest s = (x # xs) @ srest s1" using L d by simp
      obtain s' where "skip_reading Read count (skipped + ?k) s1 =
          (skipped + ?k + int (min (nat (count - (skipped + ?k))) (length (srest s1))), s')" "sok s'"
          "srest s' = drop (nat (count - (skipped + ?k))) (srest s1)"
        using less.hyps [OF le(2) _ le(1)] L by blast
      then show ?thesis unfolding e n s by simp
    qed
  qed
qed

lemma default_skip: "copying_source \<lparr>cy_Read = Read, cy_Skip = CopyingInputStream_Skip Read\<rparr> sok srest"
proof (unfold_locales, goal_cases)
  case (1 s n r s')
  then show ?case using read_law by simp
next
  case (2 s n)
  then show ?case using skip_reading_result [of s 0 n] by (simp add: CopyingInputStream_Skip_def)
qed

end

section \<open>The adaptor is a stream of blocks\<close>

definition adaptor_ok :: "('s \<Rightarrow> bool) \<Rightarrow> ('s \<Rightarrow> byte list) \<Rightarrow> 's copying_adaptor \<Rightarrow> bool" where
  "adaptor_ok sok srest a \<longleftrightarrow> sok (ca_copying_stream a) \<and> 0 < ca_buffer_size a \<and> ca_buffer_size a \<le> INT_MAX \<and>
     0 \<le> ca_backup_bytes a \<and> ca_backup_bytes a \<le> ca_buffer_used a \<and> ca_buffer_used a \<le> ca_buffer_size a \<and>
     (case ca_buffer a of None \<Rightarrow> ca_buffer_used a = 0 | Some b \<Rightarrow> int (length b) = ca_buffer_size a) \<and>
     (ca_failed a \<longrightarrow> srest (ca_copying_stream a) = [] \<and> ca_buffer a = None)"

definition adaptor_buffer :: "'s copying_adaptor \<Rightarrow> byte list" where
  "adaptor_buffer a = (case ca_buffer a of None \<Rightarrow> [] | Some b \<Rightarrow> take (nat (ca_buffer_used a)) b)"

definition adaptor_rest :: "('s \<Rightarrow> byte list) \<Rightarrow> 's copying_adaptor \<Rightarrow> byte list" where
  "adaptor_rest srest a =
     drop (nat (ca_buffer_used a - ca_backup_bytes a)) (adaptor_buffer a) @ srest (ca_copying_stream a)"

definition adaptor_chunk :: "'s copying_adaptor \<Rightarrow> byte list" where
  "adaptor_chunk a = (if ca_backup_bytes a = 0 then adaptor_buffer a else [])"

lemma adaptor_buffer_simps [simp]:
  "adaptor_buffer (a\<lparr>ca_backup_bytes := k\<rparr>) = adaptor_buffer a"
  "adaptor_buffer (a\<lparr>ca_backup_bytes := k, ca_copying_stream := s, ca_position := i\<rparr>) = adaptor_buffer a"
  by (cases "ca_buffer a"; simp add: adaptor_buffer_def)+

lemma length_adaptor_buffer: "adaptor_ok sok srest a \<Longrightarrow> length (adaptor_buffer a) = nat (ca_buffer_used a)"
  by (auto simp: adaptor_ok_def adaptor_buffer_def split: option.splits)

lemma allocated:
  assumes "adaptor_ok sok srest a" and "\<not> ca_failed a"
  defines "b \<equiv> Adaptor_AllocateBufferIfNeeded a"
  shows "adaptor_ok sok srest b" "adaptor_rest srest b = adaptor_rest srest a" "ca_buffer b \<noteq> None"
    "ca_copying_stream b = ca_copying_stream a" "ca_failed b = ca_failed a" "ca_position b = ca_position a"
    "ca_buffer_size b = ca_buffer_size a" "ca_buffer_used b = ca_buffer_used a" "ca_backup_bytes b = ca_backup_bytes a"
  using assms
  by (auto simp: Adaptor_AllocateBufferIfNeeded_def adaptor_ok_def adaptor_rest_def adaptor_buffer_def
      split: option.splits)

context copying_source
begin

abbreviation "aok \<equiv> adaptor_ok sok srest"
abbreviation "arest \<equiv> adaptor_rest srest"

lemma adaptor_backed_up:
  assumes ok: "aok a" and live: "\<not> ca_failed a" and b: "ca_backup_bytes a > 0"
  shows "\<exists>d a'. Adaptor_Next C a = Inr (Some d, a') \<and> aok a' \<and> arest a = d @ arest a' \<and> d \<noteq> [] \<and>
    int (length d) \<le> INT_MAX \<and> (\<exists>pre. adaptor_chunk a' = pre @ d) \<and>
    Adaptor_ByteCount a' = Adaptor_ByteCount a + int (length d)"
proof -
  let ?i = "ca_buffer_used a - ca_backup_bytes a" and ?n = "ca_backup_bytes a"
  obtain buf where buf: "ca_buffer a = Some buf" "int (length buf) = ca_buffer_size a"
    using ok b by (auto simp: adaptor_ok_def split: option.splits)
  have al: "Adaptor_AllocateBufferIfNeeded a = a" by (simp add: Adaptor_AllocateBufferIfNeeded_def buf)
  have i: "0 \<le> ?i" "0 \<le> ?n" "?i + ?n = ca_buffer_used a" "ca_buffer_used a \<le> ca_buffer_size a" "ca_buffer_size a \<le> INT_MAX"
    using ok by (auto simp: adaptor_ok_def)
  have u: "nat (ca_buffer_used a) = nat ?i + nat ?n" using nat_add_distrib [of ?i ?n] i by simp
  let ?d = "window (nat ?i) (nat ?n) buf" and ?a' = "a\<lparr>ca_backup_bytes := 0\<rparr>"
  have split: "adaptor_buffer a = take (nat ?i) buf @ ?d" by (simp add: adaptor_buffer_def buf(1) u take_add window_def)
  have li: "length (take (nat ?i) buf) = nat ?i" using buf(2) i by simp
  have d: "int (length ?d) = ?n" using i buf(2) by (subst length_window) auto
  have nx: "Adaptor_Next C a = Inr (Some ?d, ?a')"
    using live b i buf(2) by (simp add: Adaptor_Next_def al adaptor_bytes_def buf(1) mem_read_def)
  have rest: "arest a = ?d @ arest ?a'"
    using length_adaptor_buffer [OF ok] li by (simp add: adaptor_rest_def adaptor_buffer_def buf(1) u take_add window_def)
  have "adaptor_chunk ?a' = take (nat ?i) buf @ ?d" using split by (simp add: adaptor_chunk_def)
  moreover have "aok ?a'" using ok buf by (simp add: adaptor_ok_def)
  moreover have "?d \<noteq> []" "int (length ?d) \<le> INT_MAX" using d b i(4,5) i(1) by auto
  moreover have "Adaptor_ByteCount ?a' = Adaptor_ByteCount a + int (length ?d)" by (simp add: Adaptor_ByteCount_def d)
  ultimately show ?thesis using nx rest by blast
qed

lemma adaptor_reads:
  assumes ok: "aok a" and live: "\<not> ca_failed a" and b: "\<not> ca_backup_bytes a > 0"
  shows "\<exists>r a'. Adaptor_Next C a = Inr (r, a') \<and> aok a' \<and>
    (case r of
       None \<Rightarrow> arest a = [] \<and> arest a' = [] \<and> Adaptor_ByteCount a' = Adaptor_ByteCount a
     | Some d \<Rightarrow> arest a = d @ arest a' \<and> d \<noteq> [] \<and> int (length d) \<le> INT_MAX \<and> (\<exists>pre. adaptor_chunk a' = pre @ d) \<and>
         Adaptor_ByteCount a' = Adaptor_ByteCount a + int (length d))"
proof -
  let ?b = "Adaptor_AllocateBufferIfNeeded a" and ?n = "ca_buffer_size a"
  note A = allocated [OF ok live]
  obtain buf where buf: "ca_buffer ?b = Some buf" "int (length buf) = ?n"
    using A(1,3,7) by (auto simp: adaptor_ok_def split: option.splits)
  have n: "0 < ?n" "?n \<le> INT_MAX" and bk: "ca_backup_bytes a = 0" using ok b by (auto simp: adaptor_ok_def)
  have here: "arest a = srest (ca_copying_stream a)"
    using length_adaptor_buffer [OF ok] bk by (simp add: adaptor_rest_def)
  obtain r s where r: "cy_Read C ?n (ca_copying_stream a) = (r, s)" by (metis surj_pair)
  have "sok (ca_copying_stream a)" using ok by (simp add: adaptor_ok_def)
  note L = read_law [OF this n(1) r]
  show ?thesis
  proof (cases r)
    case None
    let ?a' = "?b\<lparr>ca_copying_stream := s, ca_failed := True, ca_buffer_used := 0, ca_buffer := None\<rparr>"
    have "Adaptor_Next C a = Inr (None, ?a')"
      using live r None bk by (simp add: Adaptor_Next_def Let_def A(4-9) Adaptor_FreeBuffer_def)
    moreover have "aok ?a'" "arest ?a' = []"
      using L None n bk by (simp_all add: adaptor_ok_def A(4-9) adaptor_rest_def adaptor_buffer_def)
    ultimately show ?thesis using L None here bk by (simp add: Adaptor_ByteCount_def A(4-9))
  next
    case (Some d)
    have d: "srest (ca_copying_stream a) = d @ srest s" "int (length d) \<le> ?n" "d = [] \<longrightarrow> srest (ca_copying_stream a) = []" "sok s"
      using L Some by auto
    have w: "mem_write buf 0 d = Inr (overwrite 0 d buf)" using d(2) buf(2) by (simp add: mem_write_def)
    have lo: "length (overwrite 0 d buf) = length buf" using d(2) buf(2) by simp
    show ?thesis
    proof (cases "d = []")
      case True
      let ?a' = "?b\<lparr>ca_copying_stream := s, ca_buffer_used := 0, ca_buffer := None\<rparr>"
      have "Adaptor_Next C a = Inr (None, ?a')"
        using live r Some bk True w by (simp add: Adaptor_Next_def Let_def A(4-9) Adaptor_FreeBuffer_def buf(1))
      moreover have "aok ?a'" "arest ?a' = []"
        using d True n bk live by (simp_all add: adaptor_ok_def A(4-9) adaptor_rest_def adaptor_buffer_def)
      ultimately show ?thesis using d True here bk by (simp add: Adaptor_ByteCount_def A(4-9))
    next
      case False
      let ?a' = "?b\<lparr>ca_copying_stream := s, ca_buffer := Some (overwrite 0 d buf), ca_buffer_used := int (length d),
        ca_position := ca_position a + int (length d)\<rparr>"
      have pos: "0 < int (length d)" using False by simp
      have "window 0 (length d) (overwrite 0 d buf) = d" by (rule window_overwrite_same) simp
      then have "mem_read (overwrite 0 d buf) 0 (int (length d)) = Inr d"
        using d(2) buf(2) lo by (simp add: mem_read_def)
      then have nx: "Adaptor_Next C a = Inr (Some d, ?a')"
        using live r Some bk False w pos by (simp add: Adaptor_Next_def Let_def A(4-9) buf(1) adaptor_bytes_def)
      have buffer: "adaptor_buffer ?a' = d" by (simp add: adaptor_buffer_def overwrite_def)
      have "aok ?a'"
        using d(2,4) n bk live lo buf(2) by (simp add: adaptor_ok_def A(4-9))
      moreover have "arest a = d @ arest ?a'" using d(1) bk unfolding here by (simp add: adaptor_rest_def buffer A(4-9))
      moreover have "adaptor_chunk ?a' = [] @ d" by (simp add: adaptor_chunk_def buffer bk A(4-9))
      moreover have "int (length d) \<le> INT_MAX" using d(2) n(2) by simp
      moreover have "Adaptor_ByteCount ?a' = Adaptor_ByteCount a + int (length d)" by (simp add: Adaptor_ByteCount_def A(4-9))
      ultimately show ?thesis using nx False by (intro exI [of _ "Some d"] exI [of _ ?a']) auto
    qed
  qed
qed

lemma adaptor_next:
  assumes ok: "aok a"
  shows "\<exists>r a'. Adaptor_Next C a = Inr (r, a') \<and> aok a' \<and>
    (case r of
       None \<Rightarrow> arest a = [] \<and> arest a' = [] \<and> Adaptor_ByteCount a' = Adaptor_ByteCount a
     | Some d \<Rightarrow> arest a = d @ arest a' \<and> d \<noteq> [] \<and> int (length d) \<le> INT_MAX \<and> (\<exists>pre. adaptor_chunk a' = pre @ d) \<and>
         Adaptor_ByteCount a' = Adaptor_ByteCount a + int (length d))"
proof (cases "ca_failed a")
  case True
  then have "srest (ca_copying_stream a) = []" "ca_backup_bytes a = 0" using ok by (auto simp: adaptor_ok_def)
  then have "arest a = []" using length_adaptor_buffer [OF ok] by (simp add: adaptor_rest_def)
  then show ?thesis using True ok by (auto simp: Adaptor_Next_def)
next
  case False
  show ?thesis
  proof (cases "ca_backup_bytes a > 0")
    case True
    from adaptor_backed_up [OF ok False this] obtain d a' where
      "Adaptor_Next C a = Inr (Some d, a') \<and> aok a' \<and> arest a = d @ arest a' \<and> d \<noteq> [] \<and>
        int (length d) \<le> INT_MAX \<and> (\<exists>pre. adaptor_chunk a' = pre @ d) \<and>
        Adaptor_ByteCount a' = Adaptor_ByteCount a + int (length d)" by blast
    then show ?thesis by (intro exI [of _ "Some d"] exI [of _ a']) simp
  qed (rule adaptor_reads [OF ok False])
qed

lemma adaptor_backup:
  assumes ok: "aok a" and n: "0 \<le> n" "n \<le> int (length (adaptor_chunk a))" and ne: "adaptor_chunk a \<noteq> []"
  shows "\<exists>a'. Adaptor_BackUp n a = Inr a' \<and> aok a' \<and>
    arest a' = drop (length (adaptor_chunk a) - nat n) (adaptor_chunk a) @ arest a \<and>
    Adaptor_ByteCount a' = Adaptor_ByteCount a - n"
proof -
  have bk: "ca_backup_bytes a = 0" and ch: "adaptor_chunk a = adaptor_buffer a"
    using ne by (auto simp: adaptor_chunk_def split: if_splits)
  have buf: "ca_buffer a \<noteq> None" using ne ch by (auto simp: adaptor_buffer_def split: option.splits)
  have le: "n \<le> ca_buffer_used a" and len: "length (adaptor_buffer a) = nat (ca_buffer_used a)"
    using n(2) ch length_adaptor_buffer [OF ok] ok by (auto simp: adaptor_ok_def)
  let ?a' = "a\<lparr>ca_backup_bytes := n\<rparr>"
  have "nat (ca_buffer_used a - n) = nat (ca_buffer_used a) - nat n" using n(1) by (simp add: nat_diff_distrib')
  then show ?thesis
    using ok n(1) le bk buf len
    by (auto simp: Adaptor_BackUp_def ch adaptor_ok_def adaptor_rest_def Adaptor_ByteCount_def)
qed

lemma adaptor_skip:
  assumes ok: "aok a" and n: "0 \<le> n"
  shows "\<exists>b a'. Adaptor_Skip C n a = Inr (b, a') \<and> (0 < n \<longrightarrow> b = (n \<le> int (length (arest a)))) \<and>
    (\<not> b \<longrightarrow> arest a' = []) \<and> aok a' \<and> arest a' = drop (nat n) (arest a) \<and>
    Adaptor_ByteCount a' = Adaptor_ByteCount a + int (min (nat n) (length (arest a)))"
proof -
  let ?k = "ca_backup_bytes a"
  have k: "0 \<le> ?k" "?k \<le> ca_buffer_used a" using ok by (auto simp: adaptor_ok_def)
  have len: "length (adaptor_buffer a) = nat (ca_buffer_used a)" by (rule length_adaptor_buffer [OF ok])
  have la: "length (arest a) = nat ?k + length (srest (ca_copying_stream a))"
    using k by (simp add: adaptor_rest_def len nat_diff_distrib')
  consider "ca_failed a" | "\<not> ca_failed a" "n \<le> ?k" | "\<not> ca_failed a" "?k < n" by linarith
  then show ?thesis
  proof cases
    case 1
    then have "arest a = []" using ok by (simp add: adaptor_ok_def adaptor_rest_def adaptor_buffer_def)
    then show ?thesis using 1 ok n by (intro exI [of _ False]) (simp add: Adaptor_Skip_def)
  next
    case 2
    let ?a' = "a\<lparr>ca_backup_bytes := ?k - n\<rparr>"
      have "nat (ca_buffer_used a - (?k - n)) = nat n + nat (ca_buffer_used a - ?k)"
      using k n by (simp add: algebra_simps flip: nat_add_distrib)
    moreover have "nat n \<le> length (drop (nat (ca_buffer_used a - ?k)) (adaptor_buffer a))"
      using 2 k n by (simp add: len nat_diff_distrib' nat_mono)
    ultimately have "arest ?a' = drop (nat n) (arest a)" by (simp add: adaptor_rest_def)
    moreover have "n \<le> int (length (arest a))" using la 2 k by simp
    moreover have "aok ?a'" using ok 2 n k by (cases "ca_buffer a") (auto simp: adaptor_ok_def)
    ultimately show ?thesis
      using 2 n by (intro exI [of _ True]) (auto simp: Adaptor_Skip_def Adaptor_ByteCount_def)
  next
    case 3
    have "sok (ca_copying_stream a)" "0 < n - ?k" using ok 3 by (simp_all add: adaptor_ok_def)
    from source_skip_law [OF this] obtain s
      where s: "cy_Skip C (n - ?k) (ca_copying_stream a) = (int (min (nat (n - ?k)) (length (srest (ca_copying_stream a)))), s)"
        "sok s" "srest s = drop (nat (n - ?k)) (srest (ca_copying_stream a))" by blast
    let ?m = "int (min (nat (n - ?k)) (length (srest (ca_copying_stream a))))"
    let ?a' = "a\<lparr>ca_backup_bytes := 0, ca_copying_stream := s, ca_position := ca_position a + ?m\<rparr>"
    have sk: "Adaptor_Skip C n a = Inr (?m = n - ?k, ?a')" using 3 n s(1) by (simp add: Adaptor_Skip_def Let_def)
    have d: "nat n = nat ?k + nat (n - ?k)" using 3 k by simp
    have "length (drop (nat (ca_buffer_used a - ?k)) (adaptor_buffer a)) = nat ?k" using k by (simp add: len nat_diff_distrib')
    then have dr: "drop (nat n) (arest a) = srest s" by (simp add: adaptor_rest_def d s(3))
    have r: "arest ?a' = srest s" by (simp add: adaptor_rest_def len)
    have m: "?m = n - ?k \<longleftrightarrow> n \<le> int (length (arest a))" using 3 k by (simp add: la min_def) linarith
    have "arest ?a' = []" if "?m \<noteq> n - ?k" using that 3 unfolding r s(3) by simp
    moreover have "aok ?a'" using ok s(2) 3 k by (cases "ca_buffer a") (auto simp: adaptor_ok_def)
    moreover have "Adaptor_ByteCount ?a' = Adaptor_ByteCount a + int (min (nat n) (length (arest a)))"
      unfolding Adaptor_ByteCount_def la d using k by (simp add: min_add_distrib_right)
    ultimately show ?thesis
      using sk m r dr by (intro exI [of _ "?m = n - ?k"] exI [of _ ?a'] conjI) auto
  qed
qed

lemma copying_stream:
  "zero_copy_stream (copying_input_stream C) aok arest adaptor_chunk (\<lambda>a. length (arest a))"
proof (unfold_locales, goal_cases)
  case (1 a r a')
  obtain x b where x: "Adaptor_Next C a = Inr (x, b)" "aok b"
      "case x of None \<Rightarrow> arest a = [] \<and> arest b = [] \<and> Adaptor_ByteCount b = Adaptor_ByteCount a
       | Some d \<Rightarrow> arest a = d @ arest b \<and> d \<noteq> [] \<and> int (length d) \<le> INT_MAX \<and> (\<exists>pre. adaptor_chunk b = pre @ d) \<and>
           Adaptor_ByteCount b = Adaptor_ByteCount a + int (length d)"
    using adaptor_next [OF 1(1)] by blast
  then have "r = x" "a' = b" using 1(2) by (simp_all add: copying_input_stream_def)
  then show ?case using x(2,3) by (cases x) (simp_all add: copying_input_stream_def)
next
  case (2 a n)
  then show ?case using adaptor_backup [of a n] by (simp add: copying_input_stream_def)
next
  case (3 a n)
  then show ?case using adaptor_skip [of a n] by (simp add: copying_input_stream_def)
qed

lemma adaptor_start:
  assumes "sok s" and "block_size \<le> INT_MAX"
  shows "aok (CopyingInputStreamAdaptor s block_size)" "arest (CopyingInputStreamAdaptor s block_size) = srest s"
  using assms
  by (simp_all add: CopyingInputStreamAdaptor_def adaptor_ok_def adaptor_rest_def adaptor_buffer_def kDefaultBlockSize_def INT_MAX_def)

end

interpretation istream_reader: byte_reader Istream_Read "\<lambda>s. True" "\<lambda>s. if is_good s then is_data s else []"
proof (unfold_locales, goal_cases)
  case (1 s n r s')
  show ?case
  proof (cases "is_good s")
    case True
    let ?d = "take (nat n) (is_data s)"
    have "istream_read n s = (?d, s\<lparr>is_data := drop (nat n) (is_data s), is_gcount := int (length ?d),
        is_eofbit := int (length ?d) < n, is_failbit := int (length ?d) < n\<rparr>)"
      using True by (simp add: istream_read_def Let_def)
    then have s': "s' = s\<lparr>is_data := drop (nat n) (is_data s), is_gcount := int (length ?d),
        is_eofbit := int (length ?d) < n, is_failbit := int (length ?d) < n\<rparr>" and r: "r = Some ?d"
      using 1(2,3) True by (auto simp: Istream_Read_def Let_def is_fail_def is_good_def)
    have bits: "\<not> is_eofbit s" "\<not> is_failbit s" "\<not> is_badbit s" using True by (simp_all add: is_good_def)
    show ?thesis
    proof (cases "int (length ?d) < n")
      case True
      then have "length (is_data s) \<le> nat n" by simp
      moreover have "\<not> is_good s'" unfolding s' eq_True [THEN iffD2, OF True] by (simp add: is_good_def)
      ultimately show ?thesis using \<open>is_good s\<close> True by (simp add: r)
    next
      case False
      have "is_good s'" using bits unfolding s' eq_False [THEN iffD2, OF False] by (simp add: is_good_def)
      moreover have "is_data s' = drop (nat n) (is_data s)" by (simp add: s')
      moreover have "?d \<noteq> []" "int (length ?d) \<le> n" using False 1(2) by auto
      ultimately show ?thesis using \<open>is_good s\<close> by (simp add: r)
    qed
  next
    case False
    then have "istream_read n s = ([], s\<lparr>is_failbit := True, is_gcount := 0\<rparr>)" by (simp add: istream_read_def)
    then have "s' = s\<lparr>is_failbit := True, is_gcount := 0\<rparr>" "r = None \<or> r = Some []"
      using 1(3) by (auto simp: Istream_Read_def split: if_splits)
    then show ?thesis using False 1(2) by (auto simp: is_good_def)
  qed
qed

interpretation istream_source: copying_source copying_istream "\<lambda>s. True" "\<lambda>s. if is_good s then is_data s else []"
  unfolding copying_istream_def by (rule istream_reader.default_skip)

interpretation istream_blocks: zero_copy_stream istream_input_stream
    "adaptor_ok (\<lambda>s. True) (\<lambda>s. if is_good s then is_data s else [])"
    "adaptor_rest (\<lambda>s. if is_good s then is_data s else [])" adaptor_chunk
    "\<lambda>a. length (adaptor_rest (\<lambda>s. if is_good s then is_data s else []) a)"
  unfolding istream_input_stream_def by (rule istream_source.copying_stream)

section \<open>Properties\<close>

definition istream_left :: "istream copying_adaptor \<Rightarrow> byte list" where
  "istream_left = adaptor_rest (\<lambda>s. if is_good s then is_data s else [])"

text \<open>
  C39: A message of unknown fields at the front of a \<^verbatim>\<open>std::istream\<close> that is in a good state
  can be parsed through an \<^verbatim>\<open>IstreamInputStream\<close> with blocks of any size and a
  \<^verbatim>\<open>LimitingInputStream\<close> on it: parsing returns and agrees with the reference parser on the
  first \<open>limit\<close> bytes. When it succeeds, the destructor of the limiting stream leaves the
  \<^verbatim>\<open>IstreamInputStream\<close> in front of the first byte after the limit, although the bytes after it
  may have been read from the \<^verbatim>\<open>std::istream\<close> already. In any other state the stream is empty.
\<close>

theorem istream_parse:
  assumes "block_size \<le> INT_MAX" and "0 \<le> limit" and "limit \<le> INT_MAX" and "2 * nat limit < k"
    and "data = (if is_good input then is_data input else [])"
  shows "\<exists>b gs s. Ufs_ParseFromZeroCopyStream k (limiting_input_stream istream_input_stream) fs
        (LimitingInputStream istream_input_stream (IstreamInputStream input block_size) limit) = ret (b, gs, s) \<and>
    (case whole (old_fields k 100 (take (nat limit) data)) of
       Some hs \<Rightarrow> b \<and> gs = hs \<and>
         (\<exists>t. LimitingInputStream_destroy istream_input_stream s = Inr t \<and> istream_left t = drop (nat limit) data)
     | None \<Rightarrow> \<not> b \<and> gs = [])"
proof -
  have s: "adaptor_ok (\<lambda>s. True) (\<lambda>s. if is_good s then is_data s else []) (IstreamInputStream input block_size)"
      "adaptor_rest (\<lambda>s. if is_good s then is_data s else []) (IstreamInputStream input block_size) = data"
    unfolding IstreamInputStream_def assms(5) using istream_source.adaptor_start [OF TrueI assms(1)] by simp_all
  show ?thesis
    using istream_blocks.parse_limited [OF s(1) assms(2-4), of fs] unfolding s(2) istream_left_def
    by (fastforce split: option.splits)
qed

theorem istream_parse_witness:
  "\<exists>s t. Ufs_ParseFromZeroCopyStream 20 (limiting_input_stream istream_input_stream) [TYPE_FIXED32 1 1]
      (LimitingInputStream istream_input_stream
        (IstreamInputStream \<lparr>is_data = [10, 2, 7, 8, 24, 5, 9, 9], is_eofbit = False, is_failbit = False,
           is_badbit = False, is_gcount = 0\<rparr> 4) 6) =
      ret (True, [TYPE_LENGTH_DELIMITED 1 [7, 8], TYPE_VARINT 3 5], s) \<and>
    LimitingInputStream_destroy istream_input_stream s = Inr t \<and> istream_left t = [9, 9]"
proof -
  have r: "whole (old_fields 20 100 [10, 2, 7, 8, 24, 5]) = Some [TYPE_LENGTH_DELIMITED 1 [7, 8], TYPE_VARINT 3 5]"
    by code_simp
  let ?i = "\<lparr>is_data = [10, 2, 7, 8, 24, 5, 9, 9], is_eofbit = False, is_failbit = False, is_badbit = False, is_gcount = 0\<rparr>"
  have "[10, 2, 7, 8, 24, 5, 9, 9 :: byte] = (if is_good ?i then is_data ?i else [])" by (simp add: is_good_def)
  from istream_parse [of 4 6 20 _ ?i "[TYPE_FIXED32 1 1]", OF _ _ _ _ this] r show ?thesis
    by (auto simp: INT_MAX_def)
qed

end
