(* ===== verification/Zero_Copy_Output.thy ===== *)
theory Zero_Copy_Output
  imports Prelude
begin

text \<open>
  The output streams of \<^verbatim>\<open>io/zero_copy_stream_impl_lite.{h,cc}\<close> and
  \<^verbatim>\<open>io/zero_copy_stream_impl.{h,cc}\<close>: \<^verbatim>\<open>ArrayOutputStream\<close>,
  \<^verbatim>\<open>StringOutputStream\<close>, \<^verbatim>\<open>CopyingOutputStreamAdaptor\<close> and, for a
  \<^verbatim>\<open>std::ostream\<close>, \<^verbatim>\<open>OstreamOutputStream\<close>. Such a stream lends blocks of its
  memory: \<^verbatim>\<open>Next\<close> gives an address in it and a size, the client stores there, and
  \<^verbatim>\<open>BackUp\<close> gives back what it did not use. The contract is the locale \<open>zero_copy_sink\<close>.
\<close>

record 's zero_copy_output =
  zo_Next :: "'s \<Rightarrow> (int \<times> int) option \<times> 's"
  zo_store :: "int \<Rightarrow> byte list \<Rightarrow> 's \<Rightarrow> 's res"
  zo_BackUp :: "int \<Rightarrow> 's \<Rightarrow> 's res"
  zo_ByteCount :: "'s \<Rightarrow> int"

text \<open>A stream that does not override \<^verbatim>\<open>WriteAliasedRaw\<close> ends the program in it.\<close>

definition ZeroCopyOutputStream_WriteAliasedRaw :: "byte list \<Rightarrow> 's \<Rightarrow> (bool \<times> 's) res" where
  "ZeroCopyOutputStream_WriteAliasedRaw data s = Inl FatalLog"

section \<open>\<^verbatim>\<open>ArrayOutputStream\<close>\<close>

record array_output =
  ao_data :: "byte list"
  ao_size :: int
  ao_block_size :: int
  ao_position :: int
  ao_last_returned_size :: int

definition ArrayOutputStream :: "byte list \<Rightarrow> int \<Rightarrow> array_output" where
  "ArrayOutputStream data block_size =
     (let n = int (length data) in
      \<lparr>ao_data = data, ao_size = n, ao_block_size = (if block_size > 0 then block_size else n),
       ao_position = 0, ao_last_returned_size = 0\<rparr>)"

definition ArrayOut_Next :: "array_output \<Rightarrow> (int \<times> int) option \<times> array_output" where
  "ArrayOut_Next s =
     (if ao_position s < ao_size s then
        let n = min (ao_block_size s) (ao_size s - ao_position s) in
        (Some (ao_position s, n), s\<lparr>ao_last_returned_size := n, ao_position := ao_position s + n\<rparr>)
      else (None, s\<lparr>ao_last_returned_size := 0\<rparr>))"

definition ArrayOut_BackUp :: "int \<Rightarrow> array_output \<Rightarrow> array_output res" where
  "ArrayOut_BackUp count s =
     (if \<not> count \<le> ao_last_returned_size s then Inl FatalLog
      else if \<not> count \<ge> 0 then Inl FatalLog
      else Inr (s\<lparr>ao_position := ao_position s - count, ao_last_returned_size := ao_last_returned_size s - count\<rparr>))"

definition ArrayOut_store :: "int \<Rightarrow> byte list \<Rightarrow> array_output \<Rightarrow> array_output res" where
  "ArrayOut_store p bs s = bind_res (mem_write (ao_data s) p bs) (\<lambda>m. Inr (s\<lparr>ao_data := m\<rparr>))"

definition array_output_stream :: "array_output zero_copy_output" where
  "array_output_stream =
     \<lparr>zo_Next = ArrayOut_Next, zo_store = ArrayOut_store, zo_BackUp = ArrayOut_BackUp, zo_ByteCount = ao_position\<rparr>"

section \<open>\<^verbatim>\<open>StringOutputStream\<close>\<close>

text \<open>
  A \<^verbatim>\<open>std::string\<close> has a capacity; what it becomes when the string outgrows it is up to the
  library, the parameter \<open>grow\<close>. New characters are zero, and allocating them does not fail; so
  sizes stay below \<^verbatim>\<open>max_size\<close>, which is less than half of what a \<^verbatim>\<open>size_t\<close> holds. A
  null target is a failed check.
\<close>

record string_output =
  so_target :: "byte list option"
  so_capacity :: nat

definition kMinimumSize :: nat where "kMinimumSize = 16"

definition string_resize :: "(nat \<Rightarrow> nat) \<Rightarrow> nat \<Rightarrow> byte list \<Rightarrow> nat \<Rightarrow> byte list \<times> nat" where
  "string_resize grow n str capacity =
     (take n str @ replicate (n - length str) 0, if n \<le> capacity then capacity else max n (grow n))"

definition StringOutputStream :: "byte list option \<Rightarrow> nat \<Rightarrow> string_output" where
  "StringOutputStream target capacity = \<lparr>so_target = target, so_capacity = capacity\<rparr>"

definition StringOut_Next :: "(nat \<Rightarrow> nat) \<Rightarrow> string_output \<Rightarrow> ((int \<times> int) option \<times> string_output) res" where
  "StringOut_Next grow s =
     (case so_target s of
        None \<Rightarrow> Inl FatalLog
      | Some target \<Rightarrow>
          let old_size = length target;
              new_size = (if old_size < so_capacity s then so_capacity s else old_size * 2);
              new_size' = min new_size (old_size + nat INT_MAX);
              (str, cap) = string_resize grow (max new_size' (kMinimumSize + 0)) target (so_capacity s) in
          Inr (Some (int old_size, sint (word_of_int (int (length str) - int old_size) :: uint32)),
               s\<lparr>so_target := Some str, so_capacity := cap\<rparr>))"

definition StringOut_BackUp :: "int \<Rightarrow> string_output \<Rightarrow> string_output res" where
  "StringOut_BackUp count s =
     (if \<not> count \<ge> 0 then Inl FatalLog
      else
        (case so_target s of
           None \<Rightarrow> Inl FatalLog
         | Some target \<Rightarrow>
             if \<not> nat count \<le> length target then Inl FatalLog
             else Inr (s\<lparr>so_target := Some (take (length target - nat count) target)\<rparr>)))"

definition StringOut_ByteCount :: "string_output \<Rightarrow> int res" where
  "StringOut_ByteCount s =
     (case so_target s of None \<Rightarrow> Inl FatalLog | Some target \<Rightarrow> Inr (int (length target)))"

definition StringOut_store :: "int \<Rightarrow> byte list \<Rightarrow> string_output \<Rightarrow> string_output res" where
  "StringOut_store p bs s =
     (case so_target s of
        None \<Rightarrow> Inl NullDeref
      | Some target \<Rightarrow> bind_res (mem_write target p bs) (\<lambda>m. Inr (s\<lparr>so_target := Some m\<rparr>)))"

text \<open>On a target that is not null neither \<^verbatim>\<open>Next\<close> nor \<^verbatim>\<open>ByteCount\<close> faults.\<close>

definition string_output_stream :: "(nat \<Rightarrow> nat) \<Rightarrow> string_output zero_copy_output" where
  "string_output_stream grow =
     \<lparr>zo_Next = (\<lambda>s. case StringOut_Next grow s of Inr r \<Rightarrow> r | Inl _ \<Rightarrow> (None, s)), zo_store = StringOut_store,
      zo_BackUp = StringOut_BackUp, zo_ByteCount = (\<lambda>s. case StringOut_ByteCount s of Inr n \<Rightarrow> n | Inl _ \<Rightarrow> 0)\<rparr>"

section \<open>\<^verbatim>\<open>CopyingOutputStreamAdaptor\<close>\<close>

text \<open>A \<^verbatim>\<open>CopyingOutputStream\<close> is its one function, \<^verbatim>\<open>Write\<close>, a parameter.\<close>

record 'o copying_output =
  co_copying_stream :: 'o
  cd_failed :: bool
  cd_position :: int
  cd_buffer :: "byte list option"
  cd_buffer_size :: int
  cd_buffer_used :: int

definition out_kDefaultBlockSize :: int where "out_kDefaultBlockSize = 8192"

definition CopyingOutputStreamAdaptor :: "'o \<Rightarrow> int \<Rightarrow> 'o copying_output" where
  "CopyingOutputStreamAdaptor copying_stream block_size =
     \<lparr>co_copying_stream = copying_stream, cd_failed = False, cd_position = 0, cd_buffer = None,
      cd_buffer_size = (if block_size > 0 then block_size else out_kDefaultBlockSize), cd_buffer_used = 0\<rparr>"

definition Out_AllocateBufferIfNeeded :: "'o copying_output \<Rightarrow> 'o copying_output" where
  "Out_AllocateBufferIfNeeded a =
     (case cd_buffer a of
        None \<Rightarrow> a\<lparr>cd_buffer := Some (replicate (nat (cd_buffer_size a)) 0)\<rparr>
      | Some _ \<Rightarrow> a)"

definition Out_FreeBuffer :: "'o copying_output \<Rightarrow> 'o copying_output" where
  "Out_FreeBuffer a = a\<lparr>cd_buffer_used := 0, cd_buffer := None\<rparr>"

definition WriteBuffer :: "(byte list \<Rightarrow> 'o \<Rightarrow> bool \<times> 'o) \<Rightarrow> 'o copying_output \<Rightarrow> (bool \<times> 'o copying_output) res" where
  "WriteBuffer Put a =
     (if cd_failed a then Inr (False, a)
      else if cd_buffer_used a = 0 then Inr (True, a)
      else
        (case cd_buffer a of
           None \<Rightarrow> Inl NullDeref
         | Some buf \<Rightarrow>
             bind_res (mem_read buf 0 (cd_buffer_used a)) (\<lambda>bs.
               let (sent, out) = Put bs (co_copying_stream a); a1 = a\<lparr>co_copying_stream := out\<rparr> in
               if sent then Inr (True, a1\<lparr>cd_position := cd_position a1 + cd_buffer_used a1, cd_buffer_used := 0\<rparr>)
               else Inr (False, Out_FreeBuffer (a1\<lparr>cd_failed := True\<rparr>)))))"

definition Adaptor_Flush :: "(byte list \<Rightarrow> 'o \<Rightarrow> bool \<times> 'o) \<Rightarrow> 'o copying_output \<Rightarrow> (bool \<times> 'o copying_output) res" where
  "Adaptor_Flush Put a = WriteBuffer Put a"

definition CopyingOutputStreamAdaptor_destroy :: "(byte list \<Rightarrow> 'o \<Rightarrow> bool \<times> 'o) \<Rightarrow> 'o copying_output \<Rightarrow> 'o res" where
  "CopyingOutputStreamAdaptor_destroy Put a =
     bind_res (WriteBuffer Put a) (\<lambda>(_, a'). Inr (co_copying_stream a'))"

definition AdaptorOut_Next ::
    "(byte list \<Rightarrow> 'o \<Rightarrow> bool \<times> 'o) \<Rightarrow> 'o copying_output \<Rightarrow> ((int \<times> int) option \<times> 'o copying_output) res" where
  "AdaptorOut_Next Put a =
     bind_res (if cd_buffer_used a = cd_buffer_size a then WriteBuffer Put a else Inr (True, a)) (\<lambda>(go, a1).
       if \<not> go then Inr (None, a1)
       else
         let a2 = Out_AllocateBufferIfNeeded a1 in
         Inr (Some (cd_buffer_used a2, cd_buffer_size a2 - cd_buffer_used a2),
              a2\<lparr>cd_buffer_used := cd_buffer_size a2\<rparr>))"

definition AdaptorOut_BackUp ::
    "(byte list \<Rightarrow> 'o \<Rightarrow> bool \<times> 'o) \<Rightarrow> int \<Rightarrow> 'o copying_output \<Rightarrow> 'o copying_output res" where
  "AdaptorOut_BackUp Put count a =
     (if count = 0 then bind_res (Adaptor_Flush Put a) (\<lambda>(_, a'). Inr a')
      else if \<not> count \<ge> 0 then Inl FatalLog
      else if cd_buffer_used a \<noteq> cd_buffer_size a then Inl FatalLog
      else if \<not> count \<le> cd_buffer_used a then Inl FatalLog
      else Inr (a\<lparr>cd_buffer_used := cd_buffer_used a - count\<rparr>))"

definition AdaptorOut_ByteCount :: "'o copying_output \<Rightarrow> int" where
  "AdaptorOut_ByteCount a = cd_position a + cd_buffer_used a"

definition AdaptorOut_store :: "int \<Rightarrow> byte list \<Rightarrow> 'o copying_output \<Rightarrow> 'o copying_output res" where
  "AdaptorOut_store p bs a =
     (case cd_buffer a of
        None \<Rightarrow> Inl NullDeref
      | Some buf \<Rightarrow> bind_res (mem_write buf p bs) (\<lambda>m. Inr (a\<lparr>cd_buffer := Some m\<rparr>)))"

definition copying_output_stream :: "(byte list \<Rightarrow> 'o \<Rightarrow> bool \<times> 'o) \<Rightarrow> 'o copying_output zero_copy_output" where
  "copying_output_stream Put =
     \<lparr>zo_Next = (\<lambda>a. case AdaptorOut_Next Put a of Inr r \<Rightarrow> r | Inl _ \<Rightarrow> (None, a)), zo_store = AdaptorOut_store,
      zo_BackUp = AdaptorOut_BackUp Put, zo_ByteCount = AdaptorOut_ByteCount\<rparr>"

text \<open>
  The loop that copies bytes into one block after the other. \<^verbatim>\<open>WriteAliasedRaw\<close> runs it on
  the adaptor itself; it is what any client of an output stream does. It may not end when the
  stream lends empty blocks for ever.
\<close>

partial_function (option) copy_out :: "'s zero_copy_output \<Rightarrow> byte list \<Rightarrow> 's \<Rightarrow> (bool \<times> 's) run" where
  "copy_out Z data s =
     (case zo_Next Z s of
        (None, s1) \<Rightarrow> ret (False, s1)
      | (Some (out, out_size), s1) \<Rightarrow>
          if int (length data) \<le> out_size then
            (case bind_res (zo_store Z out data s1) (zo_BackUp Z (out_size - int (length data))) of
               Inl e \<Rightarrow> Some (Inl e)
             | Inr s2 \<Rightarrow> ret (True, s2))
          else
            (case zo_store Z out (take (nat out_size) data) s1 of
               Inl e \<Rightarrow> Some (Inl e)
             | Inr s2 \<Rightarrow> copy_out Z (drop (nat out_size) data) s2))"

definition Adaptor_WriteAliasedRaw ::
    "(byte list \<Rightarrow> 'o \<Rightarrow> bool \<times> 'o) \<Rightarrow> byte list \<Rightarrow> 'o copying_output \<Rightarrow> (bool \<times> 'o copying_output) run" where
  "Adaptor_WriteAliasedRaw Put data a =
     (if int (length data) \<ge> cd_buffer_size a then
        (case Adaptor_Flush Put a of
           Inl e \<Rightarrow> Some (Inl e)
         | Inr (flushed, a1) \<Rightarrow>
             if \<not> flushed then ret (False, a1)
             else
               let (sent, out) = Put data (co_copying_stream a1); a2 = a1\<lparr>co_copying_stream := out\<rparr> in
               if \<not> sent then ret (False, a2)
               else ret (True, a2\<lparr>cd_position := cd_position a2 + int (length data)\<rparr>))
      else copy_out (copying_output_stream Put) data a)"

section \<open>\<^verbatim>\<open>OstreamOutputStream\<close>\<close>

text \<open>
  A \<^verbatim>\<open>std::ostream\<close>: what its device has received, how much more it will take, and whether the
  state is \<^verbatim>\<open>good\<close>. A \<^verbatim>\<open>write\<close> on a stream that is not \<^verbatim>\<open>good\<close> does
  nothing; one the device does not take in full sets \<^verbatim>\<open>badbit\<close>.
\<close>

record ostream =
  os_data :: "byte list"
  os_room :: nat
  os_good :: bool

definition ostream_write :: "byte list \<Rightarrow> ostream \<Rightarrow> ostream" where
  "ostream_write bs s =
     (if os_good s then
        s\<lparr>os_data := os_data s @ take (os_room s) bs, os_room := os_room s - length bs,
          os_good := (length bs \<le> os_room s)\<rparr>
      else s)"

definition Ostream_Write :: "byte list \<Rightarrow> ostream \<Rightarrow> bool \<times> ostream" where
  "Ostream_Write bs s = (let s' = ostream_write bs s in (os_good s', s'))"

definition OstreamOutputStream :: "ostream \<Rightarrow> int \<Rightarrow> ostream copying_output" where
  "OstreamOutputStream output block_size = CopyingOutputStreamAdaptor output block_size"

definition ostream_output_stream :: "ostream copying_output zero_copy_output" where
  "ostream_output_stream = copying_output_stream Ostream_Write"

definition OstreamOutputStream_destroy :: "ostream copying_output \<Rightarrow> ostream res" where
  "OstreamOutputStream_destroy a =
     bind_res (Adaptor_Flush Ostream_Write a) (\<lambda>(_, a'). CopyingOutputStreamAdaptor_destroy Ostream_Write a')"

section \<open>The contract\<close>

text \<open>
  \<open>held xs p k s\<close>: the stream has accepted \<open>xs\<close>, the last \<open>k\<close> bytes of it being in the block at \<open>p\<close>
  the client still holds. A stream that refuses a block is \<open>ended\<close>.
\<close>

locale zero_copy_sink =
  fixes Z :: "'s zero_copy_output"
    and held :: "byte list \<Rightarrow> int \<Rightarrow> nat \<Rightarrow> 's \<Rightarrow> bool"
    and ended :: "'s \<Rightarrow> bool"
  assumes sink_next_law: "held xs p k s \<Longrightarrow> zo_Next Z s = (r, s') \<Longrightarrow>
      (case r of
         None \<Rightarrow> held xs p 0 s' \<and> ended s'
       | Some (q, n) \<Rightarrow> 0 < n \<and> n \<le> INT_MAX \<and> (\<exists>x. length x = nat n \<and> held (xs @ x) q (nat n) s'))"
    and sink_store_law: "held xs p k s \<Longrightarrow> 0 < k \<Longrightarrow> length bs \<le> k \<Longrightarrow>
      \<exists>s'. zo_store Z p bs s = Inr s' \<and> held (overwrite (length xs - k) bs xs) p k s'"
    and sink_backup_law: "held xs p k s \<Longrightarrow> 0 < k \<Longrightarrow> n \<le> k \<Longrightarrow>
      \<exists>s'. zo_BackUp Z (int n) s = Inr s' \<and> held (take (length xs - n) xs) p 0 s'"
begin

lemma copy_out_holds:
  "held xs p k s \<Longrightarrow> \<exists>b s'. copy_out Z data s = ret (b, s') \<and>
    (if b then \<exists>q. held (xs @ data) q 0 s'
     else ended s' \<and> (\<exists>m q. (m < length data \<or> data = []) \<and> held (xs @ take m data) q 0 s'))"
proof (induction "length data" arbitrary: data xs p k s rule: less_induct)
  case less
  obtain r s1 where r: "zo_Next Z s = (r, s1)" by (metis surj_pair)
  note N = sink_next_law [OF less.prems r]
  show ?case
  proof (cases r)
    case None
    then have "copy_out Z data s = ret (False, s1)" by (simp add: copy_out.simps r)
    moreover have "ended s1" "held (xs @ take 0 data) p 0 s1" using N None by simp_all
    ultimately show ?thesis by fastforce
  next
    case (Some b)
    obtain q n where b: "b = (q, n)" by (cases b)
    obtain x where x: "0 < n" "length x = nat n" "held (xs @ x) q (nat n) s1" using N Some b by auto
    show ?thesis
    proof (cases "int (length data) \<le> n")
      case True
      then have le: "length data \<le> nat n" by simp
      obtain s2 where s2: "zo_store Z q data s1 = Inr s2"
          "held (overwrite (length (xs @ x) - nat n) data (xs @ x)) q (nat n) s2"
        using sink_store_law [OF x(3) _ le] x(1) by auto
      have o: "overwrite (length (xs @ x) - nat n) data (xs @ x) = xs @ data @ drop (length data) x"
        by (simp add: overwrite_def x(2))
      have "0 < nat n" "nat n - length data \<le> nat n" using x(1) by simp_all
      from sink_backup_law [OF s2(2) this] obtain s3
        where s3: "zo_BackUp Z (int (nat n - length data)) s2 = Inr s3"
          "held (take (length (xs @ data @ drop (length data) x) - (nat n - length data)) (xs @ data @ drop (length data) x)) q 0 s3"
        unfolding o by blast
      have len: "length (xs @ data @ drop (length data) x) - (nat n - length data) = length (xs @ data)"
        using le x(2) by simp
      have "held (xs @ data) q 0 s3" using s3(2) unfolding len by simp
      moreover have "n - int (length data) = int (nat n - length data)" using True by simp
      ultimately show ?thesis
        using s2(1) s3(1) True by (intro exI [of _ True] exI [of _ s3]) (auto simp: copy_out.simps [of Z data s] r Some b)
    next
      case False
      let ?now = "take (nat n) data" and ?later = "drop (nat n) data"
      have "length ?now \<le> nat n" by simp
      from sink_store_law [OF x(3) _ this] x(1) obtain s2 where s2: "zo_store Z q ?now s1 = Inr s2"
          "held (overwrite (length (xs @ x) - nat n) ?now (xs @ x)) q (nat n) s2" by auto
      have "overwrite (length (xs @ x) - nat n) ?now (xs @ x) = xs @ ?now"
        using False x(2) by (simp add: overwrite_def)
      then have h: "held (xs @ ?now) q (nat n) s2" using s2(2) by simp
      have "length ?later < length data" using False x(1) by simp
      from less.hyps [OF this h] obtain b' s' where IH: "copy_out Z ?later s2 = ret (b', s')"
          "if b' then \<exists>q. held ((xs @ ?now) @ ?later) q 0 s'
           else ended s' \<and> (\<exists>m q. (m < length ?later \<or> ?later = []) \<and> held ((xs @ ?now) @ take m ?later) q 0 s')" by blast
      have e: "copy_out Z data s = ret (b', s')"
        using False s2(1) IH(1) by (simp add: copy_out.simps [of Z data s] r Some b)
      have t: "take m ?later = drop (nat n) (take (nat n + m) data)" "?now = take (nat n) (take (nat n + m) data)" for m
        by (simp_all add: drop_take min_def)
      have "\<exists>m q. (m < length data \<or> data = []) \<and> held (xs @ take m data) q 0 s'" if "\<not> b'"
      proof -
        have "\<exists>m q. (m < length ?later \<or> ?later = []) \<and> held ((xs @ ?now) @ take m ?later) q 0 s'"
          using IH(2) \<open>\<not> b'\<close> by (simp only: if_False)
        then obtain m q' where m: "m < length ?later \<or> ?later = []" "held ((xs @ ?now) @ take m ?later) q' 0 s'" by blast
        have "(xs @ ?now) @ take m ?later = xs @ take (nat n + m) data" by (simp add: take_add)
        moreover have "nat n < length data" using False x(1) by linarith
        then have "nat n + m < length data" using m(1) by auto
        ultimately show ?thesis using m(2) by metis
      qed
      then show ?thesis using IH(2) e by (intro exI [of _ b'] exI [of _ s']) auto
    qed
  qed
qed

end

text \<open>A stream whose \<^verbatim>\<open>ByteCount\<close> is the number of bytes it has accepted.\<close>

locale counting_sink = zero_copy_sink +
  assumes sink_count_law: "held xs p k s \<Longrightarrow> \<not> ended s \<Longrightarrow> zo_ByteCount Z s = int (length xs)"
begin

lemma copy_out_counts:
  assumes "held xs p k s" and "copy_out Z data s = ret (True, s')" and "\<not> ended s'"
  shows "zo_ByteCount Z s' = int (length xs + length data)"
proof -
  obtain q where "held (xs @ data) q 0 s'" using copy_out_holds [OF assms(1), of data] assms(2) by auto
  from sink_count_law [OF this assms(3)] show ?thesis by simp
qed

end

section \<open>Arrays and strings\<close>

definition array_held :: "nat \<Rightarrow> byte list \<Rightarrow> int \<Rightarrow> nat \<Rightarrow> array_output \<Rightarrow> bool" where
  "array_held cap xs p k s \<longleftrightarrow> length (ao_data s) = cap \<and> ao_size s = int cap \<and> ao_size s \<le> INT_MAX \<and>
     (0 < ao_size s \<longrightarrow> 0 < ao_block_size s) \<and> 0 \<le> ao_position s \<and> ao_position s \<le> ao_size s \<and>
     take (nat (ao_position s)) (ao_data s) = xs \<and>
     (0 < k \<longrightarrow> 0 \<le> p \<and> p + int k = ao_position s \<and> ao_last_returned_size s = int k)"

definition array_full :: "array_output \<Rightarrow> bool" where
  "array_full s \<longleftrightarrow> ao_position s = ao_size s"

lemma array_held_start:
  "int (length data) \<le> INT_MAX \<Longrightarrow> array_held (length data) [] 0 0 (ArrayOutputStream data block_size)"
  by (simp add: array_held_def ArrayOutputStream_def Let_def)

lemma take_overwrite_inside:
  assumes "i + length bs \<le> j" and "j \<le> length xs"
  shows "take j (overwrite i bs xs) = overwrite i bs (take j xs)"
proof -
  have "take j (take i xs @ bs @ drop (i + length bs) xs) = take i xs @ bs @ take (j - i - length bs) (drop (i + length bs) xs)"
    using assms by simp
  moreover have "drop (i + length bs) (take j xs) = take (j - i - length bs) (drop (i + length bs) xs)" by (simp add: drop_take)
  ultimately show ?thesis using assms by (simp add: overwrite_def min_def)
qed

interpretation array_sink: counting_sink array_output_stream "array_held cap" array_full
proof (unfold_locales, goal_cases)
  case (1 xs p k s r s')
  let ?n = "min (ao_block_size s) (ao_size s - ao_position s)"
  show ?case
  proof (cases "ao_position s < ao_size s")
    case True
    have r: "r = Some (ao_position s, ?n)" "s' = s\<lparr>ao_last_returned_size := ?n, ao_position := ao_position s + ?n\<rparr>"
      using 1(2) True by (auto simp: array_output_stream_def ArrayOut_Next_def Let_def)
    have n: "0 < ?n" "?n \<le> INT_MAX" "nat (ao_position s + ?n) = nat (ao_position s) + nat ?n"
      using 1(1) True by (auto simp: array_held_def nat_add_distrib)
    have x: "length (window (nat (ao_position s)) (nat ?n) (ao_data s)) = nat ?n"
      using 1(1) n True by (intro length_window) (auto simp: array_held_def)
    have "array_held cap (xs @ window (nat (ao_position s)) (nat ?n) (ao_data s)) (ao_position s) (nat ?n) s'"
      using 1(1) n True by (auto simp: array_held_def r(2) take_add window_def)
    then show ?thesis using n(1,2) x unfolding r(1) by auto
  next
    case False
    then show ?thesis
      using 1 by (auto simp: array_output_stream_def ArrayOut_Next_def array_held_def array_full_def)
  qed
next
  case (2 xs p k s bs)
  let ?d = "ao_data s"
  have p: "0 \<le> p" "nat (ao_position s) = nat p + k" "nat p + k \<le> length ?d" "length xs = nat p + k"
    using 2 by (auto simp: array_held_def nat_add_distrib)
  then have w: "mem_write ?d p bs = Inr (overwrite (nat p) bs ?d)" using 2(3) by (simp add: mem_write_def)
  have "take (nat p + k) (overwrite (nat p) bs ?d) = overwrite (nat p) bs (take (nat p + k) ?d)"
    using 2(3) p by (intro take_overwrite_inside) auto
  then have "array_held cap (overwrite (length xs - k) bs xs) p k (s\<lparr>ao_data := overwrite (nat p) bs ?d\<rparr>)"
    using 2 p by (auto simp: array_held_def)
  then show ?case using w by (simp add: array_output_stream_def ArrayOut_store_def)
next
  case (3 xs p k s n)
  have xs: "xs = take (nat (ao_position s)) (ao_data s)" "length xs = nat (ao_position s)"
    and p: "0 \<le> p" "p + int k = ao_position s" "ao_last_returned_size s = int k"
    using 3 by (auto simp: array_held_def)
  have "take (nat (ao_position s - int n)) (ao_data s) = take (length xs - n) xs"
    unfolding xs(2) using 3(3) p by (simp add: xs(1) nat_diff_distrib' min_def)
  then show ?case
    using 3 p by (auto simp: array_output_stream_def ArrayOut_BackUp_def array_held_def)
next
  case (4 xs p k s)
  then show ?case by (auto simp: array_output_stream_def array_held_def)
qed

text \<open>Copying to an array succeeds when there is room, and otherwise fills it.\<close>

lemma array_copy_out:
  assumes "int (length arr) \<le> INT_MAX"
  shows "\<exists>b s. copy_out array_output_stream data (ArrayOutputStream arr block_size) = ret (b, s) \<and>
    take (nat (ao_position s)) (ao_data s) = take (length arr) data \<and>
    (data \<noteq> [] \<longrightarrow> b = (length data \<le> length arr)) \<and> (b \<longrightarrow> ao_position s = int (length data))"
proof -
  obtain b s where s: "copy_out array_output_stream data (ArrayOutputStream arr block_size) = ret (b, s)"
      "if b then \<exists>q. array_held (length arr) ([] @ data) q 0 s
       else array_full s \<and> (\<exists>m q. (m < length data \<or> data = []) \<and> array_held (length arr) ([] @ take m data) q 0 s)"
    using array_sink.copy_out_holds [OF array_held_start [OF assms]] by blast
  show ?thesis
  proof (cases b)
    case True
    then have "take (nat (ao_position s)) (ao_data s) = data" "0 \<le> ao_position s" "ao_position s \<le> int (length arr)"
        "length (ao_data s) = length arr"
      using s(2) by (auto simp: array_held_def)
    moreover from this have "length data = nat (ao_position s)" by (metis length_take min_absorb2 nat_le_iff)
    ultimately show ?thesis using s(1) True by (intro exI [of _ True] exI [of _ s]) auto
  next
    case False
    then have "array_full s \<and> (\<exists>m q. (m < length data \<or> data = []) \<and> array_held (length arr) (take m data) q 0 s)"
      using s(2) by (simp only: if_False append_Nil)
    then obtain m q where m0: "m < length data \<or> data = []" "array_held (length arr) (take m data) q 0 s" "array_full s" by blast
    then have m: "m < length data \<or> data = []" "ao_data s = take m data" "length (ao_data s) = length arr"
        "ao_position s = int (length arr)"
      unfolding array_held_def array_full_def by auto
    then have l: "length arr = min (length data) m" using m(3) by simp
    then have "take (length arr) data = take m data" "data \<noteq> [] \<longrightarrow> \<not> length data \<le> length arr" using m(1) by auto
    then show ?thesis using s(1) False m(2-4) by (intro exI [of _ False] exI [of _ s]) auto
  qed
qed

definition string_held :: "byte list \<Rightarrow> int \<Rightarrow> nat \<Rightarrow> string_output \<Rightarrow> bool" where
  "string_held xs p k s \<longleftrightarrow> so_target s = Some xs \<and> (0 < k \<longrightarrow> 0 \<le> p \<and> p + int k = int (length xs))"

interpretation string_sink: counting_sink "string_output_stream grow" string_held "\<lambda>s. False"
proof (unfold_locales, goal_cases)
  case (1 xs p k s r s')
  have t: "so_target s = Some xs" using 1(1) by (simp add: string_held_def)
  let ?new = "if length xs < so_capacity s then so_capacity s else length xs * 2"
  obtain N where N: "N = max (min ?new (length xs + nat INT_MAX)) 16" by simp
  have n: "length xs < N" "N \<le> length xs + nat INT_MAX" by (auto simp: INT_MAX_def N)
  let ?str = "xs @ replicate (N - length xs) (0 :: byte)"
  obtain cap where nx: "StringOut_Next grow s =
      Inr (Some (int (length xs), sint (word_of_int (int N - int (length xs)) :: uint32)), s\<lparr>so_target := Some ?str, so_capacity := cap\<rparr>)"
    using n(1) unfolding StringOut_Next_def t option.case Let_def string_resize_def kMinimumSize_def add_0_right N [symmetric] by simp
  have "sint (word_of_int (int N - int (length xs)) :: uint32) = int N - int (length xs)"
    using n unfolding sint_sbintrunc' by (intro signed_take_bit_int_eq_self) (auto simp: INT_MAX_def)
  then have r: "r = Some (int (length xs), int N - int (length xs))" "s' = s\<lparr>so_target := Some ?str, so_capacity := cap\<rparr>"
    using 1(2) nx by (simp_all add: string_output_stream_def)
  have "string_held ?str (int (length xs)) (N - length xs) s'" by (simp add: string_held_def r(2))
  moreover have "nat (int N - int (length xs)) = N - length xs" by simp
  moreover have "0 < int N - int (length xs)" "int N - int (length xs) \<le> INT_MAX" using n by (auto simp: INT_MAX_def)
  ultimately show ?case
    unfolding r(1) by (auto intro!: exI [of _ "replicate (N - length xs) 0"])
next
  case (2 xs p k s bs)
  then have "nat p = length xs - k" by (auto simp: string_held_def)
  then show ?case
    using 2 by (auto simp: string_output_stream_def StringOut_store_def string_held_def mem_write_def)
next
  case (3 xs p k s n)
  then show ?case by (auto simp: string_output_stream_def StringOut_BackUp_def string_held_def)
next
  case (4 xs p k s)
  then show ?case by (simp add: string_output_stream_def StringOut_ByteCount_def string_held_def)
qed

text \<open>Copying to a string appends.\<close>

lemma string_copy_out:
  "\<exists>cap. copy_out (string_output_stream grow) data (StringOutputStream (Some str) capacity) =
    ret (True, \<lparr>so_target = Some (str @ data), so_capacity = cap\<rparr>)"
proof -
  have "string_held str 0 0 (StringOutputStream (Some str) capacity)"
    by (simp add: string_held_def StringOutputStream_def)
  from string_sink.copy_out_holds [OF this, of grow data] show ?thesis
    by (auto simp: string_held_def split: if_splits) (metis string_output.surjective old.unit.exhaust)
qed

end
