(* ===== verification/Copying_Output.thy ===== *)
theory Copying_Output
  imports Zero_Copy_Output
begin

text \<open>
  What arrives below a \<^verbatim>\<open>CopyingOutputStreamAdaptor\<close>. The stream below is the locale
  \<open>copying_sink\<close>, with the \<^verbatim>\<open>std::ostream\<close> as its instance: it takes what it has room for.
  The adaptor is an instance of \<open>zero_copy_sink\<close> also after an error, and whatever its clients
  do, the stream below gets the front of what they wrote.
\<close>

locale copying_sink =
  fixes Put :: "byte list \<Rightarrow> 'o \<Rightarrow> bool \<times> 'o"
    and got :: "'o \<Rightarrow> byte list"
    and room :: "'o \<Rightarrow> nat"
  assumes put_law: "bs \<noteq> [] \<Longrightarrow> Put bs s = (b, s') \<Longrightarrow>
      b = (length bs \<le> room s) \<and> got s' = got s @ take (room s) bs \<and> room s' = room s - length bs"

text \<open>
  The stream below started with \<open>c\<close> and room for \<open>R\<close> bytes. Either all accepted bytes are in it or in
  the buffer, or some are lost; then no byte will follow. When \<open>q\<close> holds, no call has said so yet.
\<close>

definition out_pending :: "'o copying_output \<Rightarrow> byte list" where
  "out_pending a = (case cd_buffer a of None \<Rightarrow> [] | Some b \<Rightarrow> take (nat (cd_buffer_used a)) b)"

definition out_shape :: "'o copying_output \<Rightarrow> bool" where
  "out_shape a \<longleftrightarrow> 0 < cd_buffer_size a \<and> cd_buffer_size a \<le> INT_MAX \<and> 0 \<le> cd_buffer_used a \<and>
     cd_buffer_used a \<le> cd_buffer_size a \<and>
     (case cd_buffer a of None \<Rightarrow> cd_buffer_used a = 0 | Some b \<Rightarrow> int (length b) = cd_buffer_size a)"

definition out_block :: "int \<Rightarrow> nat \<Rightarrow> 'o copying_output \<Rightarrow> bool" where
  "out_block p k a \<longleftrightarrow>
     (0 < k \<longrightarrow> 0 \<le> p \<and> p + int k = cd_buffer_used a \<and> cd_buffer_used a = cd_buffer_size a)"

definition out_whole :: "('o \<Rightarrow> byte list) \<Rightarrow> ('o \<Rightarrow> nat) \<Rightarrow> byte list \<Rightarrow> nat \<Rightarrow> byte list \<Rightarrow> 'o copying_output \<Rightarrow> bool" where
  "out_whole got room c R xs a \<longleftrightarrow> \<not> cd_failed a \<and>
     (\<exists>sent. got (co_copying_stream a) = c @ sent \<and> sent @ out_pending a = xs \<and>
        length sent + room (co_copying_stream a) = R \<and> cd_position a = int (length sent))"

definition out_lost :: "('o \<Rightarrow> byte list) \<Rightarrow> ('o \<Rightarrow> nat) \<Rightarrow> bool \<Rightarrow> byte list \<Rightarrow> nat \<Rightarrow> byte list \<Rightarrow> nat \<Rightarrow> 'o copying_output \<Rightarrow> bool" where
  "out_lost got room q c R xs k a \<longleftrightarrow> got (co_copying_stream a) = c @ take R xs \<and> R + k < length xs \<and>
     (cd_failed a \<or> \<not> q \<and> room (co_copying_stream a) = 0)"

definition out_held :: "('o \<Rightarrow> byte list) \<Rightarrow> ('o \<Rightarrow> nat) \<Rightarrow> bool \<Rightarrow> byte list \<Rightarrow> nat \<Rightarrow> byte list \<Rightarrow> int \<Rightarrow> nat \<Rightarrow> 'o copying_output \<Rightarrow> bool" where
  "out_held got room q c R xs p k a \<longleftrightarrow> out_shape a \<and> out_block p k a \<and>
     (out_whole got room c R xs a \<or> out_lost got room q c R xs k a)"

lemma out_held_closed: "out_held got room q c R xs p k a \<Longrightarrow> out_held got room q c R xs p' 0 a"
  by (auto simp: out_held_def out_block_def out_lost_def)

lemma out_held_weak: "out_held got room q c R xs p k a \<Longrightarrow> \<not> q' \<Longrightarrow> out_held got room q' c R xs p k a"
  by (auto simp: out_held_def out_lost_def)

lemma length_out_pending: "out_shape a \<Longrightarrow> length (out_pending a) = nat (cd_buffer_used a)"
  by (auto simp: out_shape_def out_pending_def split: option.splits)

lemma out_lost_more: "out_lost got room q c R xs 0 a \<Longrightarrow> out_lost got room q c R (xs @ ys) 0 a"
  by (simp add: out_lost_def)

lemma allocated_shape:
  assumes "out_shape a" and "cd_buffer_used a \<noteq> cd_buffer_size a"
  defines "b \<equiv> (Out_AllocateBufferIfNeeded a)\<lparr>cd_buffer_used := cd_buffer_size a\<rparr>"
  shows "out_shape b" "co_copying_stream b = co_copying_stream a" "cd_failed b = cd_failed a"
    "cd_position b = cd_position a" "cd_buffer_size b = cd_buffer_size a" "cd_buffer b \<noteq> None"
    "\<exists>x. length x = nat (cd_buffer_size a - cd_buffer_used a) \<and> out_pending b = out_pending a @ x"
proof -
  obtain buf where buf: "cd_buffer b = Some buf" "int (length buf) = cd_buffer_size a"
      "out_pending a = take (nat (cd_buffer_used a)) buf"
    using assms(1) unfolding b_def
    by (auto simp: Out_AllocateBufferIfNeeded_def out_shape_def out_pending_def split: option.splits)
  show f: "co_copying_stream b = co_copying_stream a" "cd_failed b = cd_failed a"
    "cd_position b = cd_position a" "cd_buffer_size b = cd_buffer_size a"
    by (simp_all add: b_def Out_AllocateBufferIfNeeded_def split: option.splits)
  have u: "cd_buffer_used b = cd_buffer_size a" by (simp add: b_def)
  show "out_shape b" "cd_buffer b \<noteq> None" using assms(1) buf by (simp_all add: out_shape_def f u)
  have "out_pending b = buf" using buf by (simp add: out_pending_def u)
  then have "out_pending b = out_pending a @ drop (nat (cd_buffer_used a)) buf" by (simp add: buf(3))
  moreover have "length (drop (nat (cd_buffer_used a)) buf) = nat (cd_buffer_size a - cd_buffer_used a)"
    using buf(2) assms(1) by (auto simp: out_shape_def nat_diff_distrib')
  ultimately show "\<exists>x. length x = nat (cd_buffer_size a - cd_buffer_used a) \<and> out_pending b = out_pending a @ x" by blast
qed

context copying_sink
begin

abbreviation "oheld \<equiv> out_held got room"

text \<open>Writing out the buffer.\<close>

lemma WriteBuffer_result:
  assumes h: "oheld q c R xs p k a"
  shows "\<exists>b a'. WriteBuffer Put a = Inr (b, a') \<and> oheld q c R xs p 0 a' \<and> b = (\<not> cd_failed a') \<and>
    cd_buffer_size a' = cd_buffer_size a \<and> (b \<longrightarrow> cd_buffer_used a' = 0) \<and> (cd_failed a \<longrightarrow> a' = a)"
proof -
  have sh: "out_shape a" using h by (simp add: out_held_def)
  then have "0 \<le> cd_buffer_used a" by (simp add: out_shape_def)
  then consider "cd_failed a" | "\<not> cd_failed a" "cd_buffer_used a = 0" | "\<not> cd_failed a" "0 < cd_buffer_used a"
    by linarith
  then show ?thesis
  proof cases
    case 1
    then show ?thesis using out_held_closed [OF h] by (auto simp: WriteBuffer_def)
  next
    case 2
    then show ?thesis using out_held_closed [OF h] by (auto simp: WriteBuffer_def)
  next
    case 3
    then obtain buf where buf: "cd_buffer a = Some buf" "int (length buf) = cd_buffer_size a" "cd_buffer_used a \<le> cd_buffer_size a"
      using sh by (auto simp: out_shape_def split: option.splits)
    let ?bs = "out_pending a"
    have bs: "mem_read buf 0 (cd_buffer_used a) = Inr ?bs" "length ?bs = nat (cd_buffer_used a)" "?bs \<noteq> []"
      using 3 buf length_out_pending [OF sh] by (auto simp: mem_read_def window_def out_pending_def)
    obtain b out where put: "Put ?bs (co_copying_stream a) = (b, out)" by (metis surj_pair)
    note P = put_law [OF bs(3) put]
    let ?sent = "a\<lparr>co_copying_stream := out, cd_position := cd_position a + cd_buffer_used a, cd_buffer_used := 0\<rparr>"
    let ?lost = "a\<lparr>co_copying_stream := out, cd_failed := True, cd_buffer_used := 0, cd_buffer := None\<rparr>"
    have w: "WriteBuffer Put a = Inr (b, if b then ?sent else ?lost)"
      using 3 bs(1) put by (simp add: WriteBuffer_def buf(1) Out_FreeBuffer_def)
    have shapes: "out_shape ?sent" "out_shape ?lost" using sh buf by (simp_all add: out_shape_def)
    have "oheld q c R xs p 0 (if b then ?sent else ?lost)"
    proof (cases "out_whole got room c R xs a")
      case True
      then obtain sent where s: "got (co_copying_stream a) = c @ sent" "sent @ ?bs = xs"
          "length sent + room (co_copying_stream a) = R" "cd_position a = int (length sent)"
        by (auto simp: out_whole_def)
      have xs: "xs = sent @ ?bs" using s(2) by simp
      show ?thesis
      proof (cases b)
        case True
        then have "got out = c @ xs" "length xs + room out = R" using P s(1,3) by (simp_all add: xs)
        moreover have "out_pending ?sent = []" by (simp add: out_pending_def buf(1))
        moreover have "cd_position a + cd_buffer_used a = int (length xs)" using bs(2) 3 by (simp add: s(4) xs)
        ultimately have "out_whole got room c R xs ?sent" using 3 by (simp add: out_whole_def)
        then show ?thesis using True shapes by (simp add: out_held_def out_block_def)
      next
        case False
        have "take R xs = sent @ take (room (co_copying_stream a)) ?bs" by (simp add: xs flip: s(3))
        moreover have "R < length xs" using P False s(3) by (simp add: xs)
        ultimately have "out_lost got room q c R xs 0 ?lost" using P s(1) by (simp add: out_lost_def)
        then show ?thesis using False shapes by (simp add: out_held_def out_block_def)
      qed
    next
      case False
      then have l: "got (co_copying_stream a) = c @ take R xs" "R < length xs" "room (co_copying_stream a) = 0"
        using h 3 by (auto simp: out_held_def out_lost_def)
      then have "\<not> b" "got out = c @ take R xs" using P bs(3) by auto
      then show ?thesis using l(2) shapes by (simp add: out_held_def out_block_def out_lost_def)
    qed
    then show ?thesis
      using w 3 by (intro exI [of _ b] exI [of _ "if b then ?sent else ?lost"]) (cases b; simp)
  qed
qed

lemma AdaptorOut_Next_result:
  assumes h: "oheld q c R xs p k a"
  shows "\<exists>r a'. AdaptorOut_Next Put a = Inr (r, a') \<and>
    (case r of
       None \<Rightarrow> oheld q c R xs p 0 a' \<and> cd_failed a'
     | Some (s, n) \<Rightarrow> 0 < n \<and> n \<le> INT_MAX \<and> (\<exists>x. length x = nat n \<and> oheld q c R (xs @ x) s (nat n) a'))"
proof -
  obtain go a1 where w: "(if cd_buffer_used a = cd_buffer_size a then WriteBuffer Put a else Inr (True, a)) = Inr (go, a1)"
      "oheld q c R xs p 0 a1" "\<not> go \<longrightarrow> cd_failed a1" "go \<longrightarrow> cd_buffer_used a1 \<noteq> cd_buffer_size a1"
  proof (cases "cd_buffer_used a = cd_buffer_size a")
    case True
    obtain b a' where b: "WriteBuffer Put a = Inr (b, a')" "oheld q c R xs p 0 a'" "b = (\<not> cd_failed a')"
        "b \<longrightarrow> cd_buffer_used a' = 0"
      using WriteBuffer_result [OF h] by blast
    have "cd_buffer_size a' \<noteq> 0" using b(2) by (auto simp: out_held_def out_shape_def)
    then show ?thesis using that True b by auto
  next
    case False
    then show ?thesis using that out_held_closed [OF h] by auto
  qed
  show ?thesis
  proof (cases go)
    case False
    then show ?thesis using w by (simp add: AdaptorOut_Next_def)
  next
    case True
    have sh: "out_shape a1" "cd_buffer_used a1 \<noteq> cd_buffer_size a1" using w True by (auto simp: out_held_def)
    let ?b = "(Out_AllocateBufferIfNeeded a1)\<lparr>cd_buffer_used := cd_buffer_size a1\<rparr>"
    note A = allocated_shape [OF sh]
    let ?n = "cd_buffer_size a1 - cd_buffer_used a1"
    have al: "cd_buffer_used (Out_AllocateBufferIfNeeded a1) = cd_buffer_used a1"
      "cd_buffer_size (Out_AllocateBufferIfNeeded a1) = cd_buffer_size a1"
      by (simp_all add: Out_AllocateBufferIfNeeded_def split: option.splits)
    have nx: "AdaptorOut_Next Put a = Inr (Some (cd_buffer_used a1, ?n), ?b)"
      using True w(1) by (simp add: AdaptorOut_Next_def Let_def al)
    obtain x where x: "length x = nat ?n" "out_pending ?b = out_pending a1 @ x" using A(7) by blast
    have n: "0 < ?n" "?n \<le> INT_MAX" "0 \<le> cd_buffer_used a1" using sh by (auto simp: out_shape_def)
    have "out_block (cd_buffer_used a1) (nat ?n) ?b" using n A(5) by (simp add: out_block_def)
    moreover have "out_whole got room c R (xs @ x) ?b \<or> out_lost got room q c R (xs @ x) (nat ?n) ?b"
    proof (cases "out_whole got room c R xs a1")
      case True
      then have "out_whole got room c R (xs @ x) ?b" by (auto simp: out_whole_def A(2-4) x(2))
      then show ?thesis ..
    next
      case False
      then have "out_lost got room q c R xs 0 a1" using w(2) by (simp add: out_held_def)
      then have "out_lost got room q c R (xs @ x) (nat ?n) ?b" by (auto simp: out_lost_def A(2,3) x(1))
      then show ?thesis ..
    qed
    ultimately have "oheld q c R (xs @ x) (cd_buffer_used a1) (nat ?n) ?b" using A(1) by (simp add: out_held_def)
    then show ?thesis using nx n x(1) by auto
  qed
qed

lemma AdaptorOut_store_result:
  assumes h: "oheld q c R xs p k a" and k: "0 < k" "length bs \<le> k"
  shows "\<exists>a'. AdaptorOut_store p bs a = Inr a' \<and> oheld q c R (overwrite (length xs - k) bs xs) p k a'"
proof -
  have sh: "out_shape a" and p: "0 \<le> p" "p + int k = cd_buffer_used a" "cd_buffer_used a = cd_buffer_size a"
    using h k(1) by (auto simp: out_held_def out_block_def)
  then obtain buf where buf: "cd_buffer a = Some buf" "int (length buf) = cd_buffer_size a"
    using k(1) by (auto simp: out_shape_def split: option.splits)
  let ?m = "overwrite (nat p) bs buf" and ?xs = "overwrite (length xs - k) bs xs"
  let ?a = "a\<lparr>cd_buffer := Some ?m\<rparr>"
  have len: "length buf = nat p + k" "length ?m = length buf" using p buf(2) k(2) by auto
  have st: "AdaptorOut_store p bs a = Inr ?a"
    using p k(2) buf by (simp add: AdaptorOut_store_def mem_write_def)
  have u: "nat (cd_buffer_used a) = length buf" using p(3) buf(2) by simp
  have pend: "out_pending a = buf" "out_pending ?a = ?m" using u len by (simp_all add: out_pending_def buf(1))
  have "out_whole got room c R ?xs ?a \<or> out_lost got room q c R ?xs k ?a"
  proof (cases "out_whole got room c R xs a")
    case True
    then obtain sent where s: "got (co_copying_stream a) = c @ sent" "sent @ buf = xs"
        "length sent + room (co_copying_stream a) = R" "cd_position a = int (length sent)" "\<not> cd_failed a"
      by (auto simp: out_whole_def pend)
    have "?xs = sent @ ?m" using len(1) k(2) by (simp add: overwrite_def flip: s(2))
    then show ?thesis using s pend(2) by (auto simp: out_whole_def)
  next
    case False
    then have l: "out_lost got room q c R xs k a" using h by (simp add: out_held_def)
    then have "R \<le> length xs - k" "k \<le> length xs" by (auto simp: out_lost_def)
    then have "take R ?xs = take R xs" "length ?xs = length xs" using k(2) by (auto simp: overwrite_def)
    then show ?thesis using l by (simp add: out_lost_def)
  qed
  moreover have "out_shape ?a" "out_block p k ?a" using sh buf p len by (simp_all add: out_shape_def out_block_def)
  ultimately show ?thesis using st by (auto simp: out_held_def)
qed

lemma AdaptorOut_BackUp_result:
  assumes h: "oheld q c R xs p k a" and k: "0 < k" "n \<le> k"
  shows "\<exists>a'. AdaptorOut_BackUp Put (int n) a = Inr a' \<and> oheld q c R (take (length xs - n) xs) p 0 a'"
proof (cases "n = 0")
  case True
  then show ?thesis using WriteBuffer_result [OF h] by (auto simp: AdaptorOut_BackUp_def Adaptor_Flush_def)
next
  case False
  have sh: "out_shape a" and p: "0 \<le> p" "p + int k = cd_buffer_used a" "cd_buffer_used a = cd_buffer_size a"
    using h k(1) by (auto simp: out_held_def out_block_def)
  then obtain buf where buf: "cd_buffer a = Some buf" "int (length buf) = cd_buffer_size a"
    using k(1) by (auto simp: out_shape_def split: option.splits)
  let ?a = "a\<lparr>cd_buffer_used := cd_buffer_used a - int n\<rparr>"
  have b: "AdaptorOut_BackUp Put (int n) a = Inr ?a" using False p k by (simp add: AdaptorOut_BackUp_def)
  have u: "cd_buffer_used a = int (length buf)" using p(3) buf(2) by simp
  have pend: "out_pending a = buf" "out_pending ?a = take (length buf - n) buf"
    by (simp_all add: out_pending_def buf(1) u nat_diff_distrib')
  have le: "n \<le> length buf" using p buf(2) k(2) by linarith
  have "out_whole got room c R (take (length xs - n) xs) ?a \<or> out_lost got room q c R (take (length xs - n) xs) 0 ?a"
  proof (cases "out_whole got room c R xs a")
    case True
    then obtain sent where s: "got (co_copying_stream a) = c @ sent" "sent @ buf = xs"
        "length sent + room (co_copying_stream a) = R" "cd_position a = int (length sent)" "\<not> cd_failed a"
      by (auto simp: out_whole_def pend)
    have "take (length xs - n) xs = sent @ take (length buf - n) buf" using le by (simp flip: s(2))
    then show ?thesis using s pend(2) by (auto simp: out_whole_def)
  next
    case False
    then have l: "out_lost got room q c R xs k a" using h by (simp add: out_held_def)
    then have "R < length xs - n" using k(2) by (auto simp: out_lost_def)
    then show ?thesis using l by (simp add: out_lost_def min_def)
  qed
  moreover have "out_shape ?a" "out_block p 0 ?a" using sh buf p le k by (auto simp: out_shape_def out_block_def)
  ultimately show ?thesis using b by (auto simp: out_held_def)
qed

lemma adaptor_sink: "zero_copy_sink (copying_output_stream Put) (oheld q c R) cd_failed"
proof (unfold_locales, goal_cases)
  case (1 xs p k a r a')
  obtain x b where x: "AdaptorOut_Next Put a = Inr (x, b)" "case x of
       None \<Rightarrow> oheld q c R xs p 0 b \<and> cd_failed b
     | Some (s, n) \<Rightarrow> 0 < n \<and> n \<le> INT_MAX \<and> (\<exists>x. length x = nat n \<and> oheld q c R (xs @ x) s (nat n) b)"
    using AdaptorOut_Next_result [OF 1(1)] by blast
  have "r = x" "a' = b" using 1(2) x(1) by (simp_all add: copying_output_stream_def)
  show ?case unfolding \<open>r = x\<close> \<open>a' = b\<close> by (rule x(2))
next
  case (2 xs p k a bs)
  then show ?case using AdaptorOut_store_result [of q c R xs p k a bs] by (simp add: copying_output_stream_def)
next
  case (3 xs p k a n)
  then show ?case using AdaptorOut_BackUp_result [of q c R xs p k a n] by (simp add: copying_output_stream_def)
qed

text \<open>As long as no call has reported a loss and the adaptor has not failed, \<^verbatim>\<open>ByteCount\<close> is right.\<close>

lemma counting_adaptor: "counting_sink (copying_output_stream Put) (oheld True c R) cd_failed"
proof (rule counting_sink.intro [OF adaptor_sink], unfold_locales, goal_cases)
  case (1 xs p k a)
  then have sh: "out_shape a" and w: "out_whole got room c R xs a" by (auto simp: out_held_def out_lost_def)
  then obtain sent where "sent @ out_pending a = xs" "cd_position a = int (length sent)" by (auto simp: out_whole_def)
  moreover have "length (out_pending a) = nat (cd_buffer_used a)" "0 \<le> cd_buffer_used a"
    using length_out_pending [OF sh] sh by (auto simp: out_shape_def)
  ultimately show ?case by (auto simp: copying_output_stream_def AdaptorOut_ByteCount_def)
qed

lemma adaptor_out_start:
  assumes "block_size \<le> INT_MAX"
  shows "oheld q (got s) (room s) [] 0 0 (CopyingOutputStreamAdaptor s block_size)"
  using assms
  by (simp add: out_held_def out_shape_def out_block_def out_whole_def out_pending_def CopyingOutputStreamAdaptor_def
      out_kDefaultBlockSize_def INT_MAX_def)

text \<open>Copying and writing without a copy; a result of false means that bytes were lost.\<close>

lemma copy_out_result:
  assumes h: "oheld q c R xs p k a"
  shows "\<exists>b a'. copy_out (copying_output_stream Put) data a = ret (b, a') \<and>
    oheld (q \<and> b) c R (xs @ data) p 0 a' \<and> (\<not> b \<longrightarrow> R < length (xs @ data))"
proof -
  obtain b a' where b: "copy_out (copying_output_stream Put) data a = ret (b, a')"
      "if b then \<exists>p. oheld q c R (xs @ data) p 0 a'
       else cd_failed a' \<and> (\<exists>m p. (m < length data \<or> data = []) \<and> oheld q c R (xs @ take m data) p 0 a')"
    using zero_copy_sink.copy_out_holds [OF adaptor_sink h] by blast
  show ?thesis
  proof (cases b)
    case True
    then obtain r where "oheld q c R (xs @ data) r 0 a'" using b(2) by auto
    from out_held_closed [OF this] show ?thesis using b(1) True by (intro exI [of _ True] exI [of _ a']) simp
  next
    case False
    then obtain m r where m: "cd_failed a'" "oheld q c R (xs @ take m data) r 0 a'" using b(2) by auto
    then have l: "out_lost got room q c R (xs @ take m data) 0 a'" and sh: "out_shape a'"
      by (auto simp: out_held_def out_whole_def)
    have "xs @ data = (xs @ take m data) @ drop m data" by simp
    then have l': "out_lost got room q c R (xs @ data) 0 a'" using out_lost_more [OF l] by metis
    then have "out_lost got room False c R (xs @ data) 0 a'" "R < length (xs @ data)" using m(1) by (auto simp: out_lost_def)
    then show ?thesis using False b(1) sh by (intro exI [of _ False] exI [of _ a']) (simp add: out_held_def out_block_def)
  qed
qed

lemma WriteAliasedRaw_result:
  assumes h: "oheld q c R xs p k a"
  shows "\<exists>b a'. Adaptor_WriteAliasedRaw Put data a = ret (b, a') \<and>
    oheld (q \<and> b) c R (xs @ data) p 0 a' \<and> (\<not> b \<longrightarrow> R < length (xs @ data))"
proof (cases "int (length data) \<ge> cd_buffer_size a")
  case False
  then show ?thesis using copy_out_result [OF h] by (simp add: Adaptor_WriteAliasedRaw_def)
next
  case True
  have ne: "data \<noteq> []" using True h by (auto simp: out_held_def out_shape_def)
  obtain b a1 where w: "WriteBuffer Put a = Inr (b, a1)" "oheld q c R xs p 0 a1" "b = (\<not> cd_failed a1)"
      "b \<longrightarrow> cd_buffer_used a1 = 0"
    using WriteBuffer_result [OF h] by blast
  show ?thesis
  proof (cases b)
    case False
    then have "out_lost got room q c R xs 0 a1" "out_shape a1" "cd_failed a1"
      using w by (auto simp: out_held_def out_whole_def)
    then have "out_lost got room False c R (xs @ data) 0 a1" "R < length (xs @ data)" "out_shape a1"
      using out_lost_more [of got room q c R xs a1 data] by (auto simp: out_lost_def)
    moreover have "Adaptor_WriteAliasedRaw Put data a = ret (False, a1)"
      using True False w(1) by (simp add: Adaptor_WriteAliasedRaw_def Adaptor_Flush_def)
    ultimately show ?thesis by (intro exI [of _ False] exI [of _ a1]) (simp add: out_held_def out_block_def)
  next
    case flushed: True
    obtain s out where put: "Put data (co_copying_stream a1) = (s, out)" by (metis surj_pair)
    note P = put_law [OF ne put]
    let ?a2 = "if s then a1\<lparr>co_copying_stream := out, cd_position := cd_position a1 + int (length data)\<rparr>
      else a1\<lparr>co_copying_stream := out\<rparr>"
    have r: "Adaptor_WriteAliasedRaw Put data a = ret (s, ?a2)"
      using True flushed w(1) put by (simp add: Adaptor_WriteAliasedRaw_def Adaptor_Flush_def)
    have same: "cd_buffer ?a2 = cd_buffer a1" "cd_buffer_used ?a2 = cd_buffer_used a1" "cd_buffer_size ?a2 = cd_buffer_size a1"
      "cd_failed ?a2 = cd_failed a1" "co_copying_stream ?a2 = out" by simp_all
    have sh: "out_shape ?a2" using w(2) unfolding out_held_def out_shape_def same by simp
    have pend: "out_pending a1 = []" "out_pending ?a2 = []"
      using w(4) flushed unfolding out_pending_def same by (simp_all split: option.splits)
    have "(out_whole got room c R (xs @ data) ?a2 \<or> out_lost got room (q \<and> s) c R (xs @ data) 0 ?a2) \<and>
        (\<not> s \<longrightarrow> R < length (xs @ data))" (is "?goal")
    proof (cases "out_whole got room c R xs a1")
      case True
      then have t: "got (co_copying_stream a1) = c @ xs" "length xs + room (co_copying_stream a1) = R"
          "cd_position a1 = int (length xs)" "\<not> cd_failed a1"
        by (auto simp: out_whole_def pend)
      show ?goal
      proof (cases s)
        case True
        then have "out_whole got room c R (xs @ data) ?a2" using P t pend(2) unfolding out_whole_def same by simp
        then show ?goal using True by simp
      next
        case False
        moreover have "take R (xs @ data) = xs @ take (room (co_copying_stream a1)) data" by (simp flip: t(2))
        moreover have "R < length (xs @ data)" using P False by (simp flip: t(2))
        ultimately have "out_lost got room (q \<and> s) c R (xs @ data) 0 ?a2" using P t(1) unfolding out_lost_def same by simp
        then show ?goal using \<open>R < length (xs @ data)\<close> by simp
      qed
    next
      case False
      then have l: "out_lost got room q c R xs 0 a1" using w(2) by (simp add: out_held_def)
      then have "\<not> q" "room (co_copying_stream a1) = 0" "R < length xs" "got (co_copying_stream a1) = c @ take R xs"
        using flushed w(3) by (auto simp: out_lost_def)
      then have "out_lost got room (q \<and> s) c R (xs @ data) 0 ?a2" using P unfolding out_lost_def same by simp
      then show ?goal using \<open>R < length xs\<close> by simp
    qed
    then have "oheld (q \<and> s) c R (xs @ data) p 0 ?a2" using sh by (auto simp: out_held_def out_block_def)
    then show ?thesis using r \<open>?goal\<close> by blast
  qed
qed

end

section \<open>Clients\<close>

text \<open>The calls of a client: copying into blocks, writing without a copy, flushing.\<close>

datatype out_call = Copy "byte list" | Aliased "byte list" | Flush_now

fun out_call_bytes :: "out_call \<Rightarrow> byte list" where
  "out_call_bytes (Copy bs) = bs"
| "out_call_bytes (Aliased bs) = bs"
| "out_call_bytes Flush_now = []"

fun out_call_run ::
    "(byte list \<Rightarrow> 'o \<Rightarrow> bool \<times> 'o) \<Rightarrow> out_call \<Rightarrow> 'o copying_output \<Rightarrow> (bool \<times> 'o copying_output) run" where
  "out_call_run Put (Copy bs) a = copy_out (copying_output_stream Put) bs a"
| "out_call_run Put (Aliased bs) a = Adaptor_WriteAliasedRaw Put bs a"
| "out_call_run Put Flush_now a = Some (Adaptor_Flush Put a)"

fun out_calls_run ::
    "(byte list \<Rightarrow> 'o \<Rightarrow> bool \<times> 'o) \<Rightarrow> out_call list \<Rightarrow> 'o copying_output \<Rightarrow> (bool \<times> 'o copying_output) run" where
  "out_calls_run Put [] a = ret (True, a)"
| "out_calls_run Put (x # xs) a =
     bind_run (out_call_run Put x a) (\<lambda>(b, a1). bind_run (out_calls_run Put xs a1) (\<lambda>(bs, a2). ret (b \<and> bs, a2)))"

definition out_data :: "out_call list \<Rightarrow> byte list" where
  "out_data calls = concat (map out_call_bytes calls)"

context copying_sink
begin

lemma out_call_result:
  assumes h: "oheld q c R xs p k a"
  shows "\<exists>b a'. out_call_run Put x a = ret (b, a') \<and> oheld (q \<and> b) c R (xs @ out_call_bytes x) p 0 a' \<and>
    (\<not> b \<longrightarrow> R < length (xs @ out_call_bytes x))"
proof (cases x)
  case (Copy bs)
  then show ?thesis using copy_out_result [OF h] by simp
next
  case (Aliased bs)
  then show ?thesis using WriteAliasedRaw_result [OF h] by simp
next
  case Flush_now
  obtain b a' where w: "WriteBuffer Put a = Inr (b, a')" "oheld q c R xs p 0 a'" "b = (\<not> cd_failed a')"
    using WriteBuffer_result [OF h] by blast
  have "oheld (q \<and> b) c R xs p 0 a' \<and> (\<not> b \<longrightarrow> R < length xs)"
  proof (cases b)
    case False
    then have "out_lost got room False c R xs 0 a'" "out_shape a'" using w(2,3) by (auto simp: out_held_def out_whole_def out_lost_def)
    then show ?thesis using False by (auto simp: out_held_def out_block_def out_lost_def)
  qed (use w(2) in simp)
  then show ?thesis using w(1) Flush_now by (simp add: Adaptor_Flush_def ret_def)
qed

lemma out_calls_result:
  "oheld q c R xs p k a \<Longrightarrow>
    \<exists>b a'. out_calls_run Put calls a = ret (b, a') \<and> oheld (q \<and> b) c R (xs @ out_data calls) p 0 a' \<and>
      (\<not> b \<longrightarrow> R < length (xs @ out_data calls))"
proof (induction calls arbitrary: q xs k a)
  case Nil
  then show ?case using out_held_closed by (fastforce simp: out_data_def)
next
  case (Cons x calls)
  obtain b a1 where a1: "out_call_run Put x a = ret (b, a1)" "oheld (q \<and> b) c R (xs @ out_call_bytes x) p 0 a1"
      "\<not> b \<longrightarrow> R < length (xs @ out_call_bytes x)"
    using out_call_result [OF Cons.prems] by blast
  obtain b' a2 where a2: "out_calls_run Put calls a1 = ret (b', a2)"
      "oheld ((q \<and> b) \<and> b') c R ((xs @ out_call_bytes x) @ out_data calls) p 0 a2"
      "\<not> b' \<longrightarrow> R < length ((xs @ out_call_bytes x) @ out_data calls)"
    using Cons.IH [OF a1(2)] by blast
  have "(xs @ out_call_bytes x) @ out_data calls = xs @ out_data (x # calls)" by (simp add: out_data_def)
  moreover have "out_calls_run Put (x # calls) a = ret (b \<and> b', a2)" using a1(1) a2(1) by simp
  moreover have "length (xs @ out_data (x # calls)) = length (xs @ out_call_bytes x) + length (out_data calls)"
    by (simp add: out_data_def)
  ultimately show ?case using a1(3) a2(2,3) by (intro exI [of _ "b \<and> b'"] exI [of _ a2]) (auto simp: conj_assoc)
qed

lemma flushed_result:
  assumes h: "oheld q c R xs p k a"
  shows "\<exists>b a'. Adaptor_Flush Put a = Inr (b, a') \<and> got (co_copying_stream a') = c @ take R xs \<and>
    (length xs \<le> R \<longrightarrow> b) \<and> (q \<and> b \<longrightarrow> length xs \<le> R \<and> AdaptorOut_ByteCount a' = int (length xs)) \<and>
    WriteBuffer Put a' = Inr (b, a')"
proof -
  obtain b a' where w: "WriteBuffer Put a = Inr (b, a')" "oheld q c R xs p 0 a'" "b = (\<not> cd_failed a')"
      "b \<longrightarrow> cd_buffer_used a' = 0"
    using WriteBuffer_result [OF h] by blast
  have again: "WriteBuffer Put a' = Inr (b, a')" using w(3,4) by (simp add: WriteBuffer_def)
  consider "out_whole got room c R xs a'" | "out_lost got room q c R xs 0 a'" using w(2) by (auto simp: out_held_def)
  then show ?thesis
  proof cases
    case 1
    then have b: b using w(3) by (simp add: out_whole_def)
    then have "out_pending a' = []" using w(4) by (simp add: out_pending_def split: option.splits)
    then have "got (co_copying_stream a') = c @ xs" "length xs \<le> R" "cd_position a' = int (length xs)"
      using 1 by (auto simp: out_whole_def)
    then show ?thesis
      using w(1,4) again b by (intro exI [of _ True] exI [of _ a']) (simp add: Adaptor_Flush_def AdaptorOut_ByteCount_def)
  next
    case 2
    then show ?thesis using w(1,3) again by (auto simp: Adaptor_Flush_def out_lost_def)
  qed
qed

end

text \<open>A \<^verbatim>\<open>std::ostream\<close>, once it is good or has been found not to be.\<close>

definition ostream_room :: "ostream \<Rightarrow> nat" where
  "ostream_room s = (if os_good s then os_room s else 0)"

interpretation ostream_sink: copying_sink Ostream_Write os_data ostream_room
proof (unfold_locales, goal_cases)
  case (1 bs s b s')
  then show ?case
    by (cases "os_good s") (auto simp: Ostream_Write_def ostream_write_def Let_def ostream_room_def)
qed

interpretation ostream_blocks: zero_copy_sink ostream_output_stream "out_held os_data ostream_room q c R" cd_failed
  unfolding ostream_output_stream_def by (rule ostream_sink.adaptor_sink)

interpretation ostream_counts: counting_sink ostream_output_stream "out_held os_data ostream_room True c R" cd_failed
  unfolding ostream_output_stream_def by (rule ostream_sink.counting_adaptor)

section \<open>Properties\<close>

text \<open>
  C40: Whatever a client writes through a \<^verbatim>\<open>CopyingOutputStreamAdaptor\<close> with blocks of any
  size to a \<^verbatim>\<open>std::ostream\<close>, by copying into blocks, without a copy, with flushes in between,
  every call returns without a fault, and after a final flush the \<^verbatim>\<open>std::ostream\<close> has
  received the bytes in order, all of them or as many as it had room for. All calls and the flush
  report success exactly when nothing is missing; then \<^verbatim>\<open>ByteCount\<close> is the number of bytes, and
  the destructor adds nothing.
\<close>

theorem copying_output_delivers:
  assumes "block_size \<le> INT_MAX"
  shows "\<exists>b a flushed a'. out_calls_run Ostream_Write calls (CopyingOutputStreamAdaptor out block_size) = ret (b, a) \<and>
    Adaptor_Flush Ostream_Write a = Inr (flushed, a') \<and>
    os_data (co_copying_stream a') = os_data out @ take (ostream_room out) (out_data calls) \<and>
    (b \<and> flushed \<longleftrightarrow> length (out_data calls) \<le> ostream_room out) \<and>
    (b \<and> flushed \<longrightarrow> AdaptorOut_ByteCount a' = int (length (out_data calls))) \<and>
    CopyingOutputStreamAdaptor_destroy Ostream_Write a' = Inr (co_copying_stream a')"
proof -
  let ?c = "os_data out" and ?R = "ostream_room out"
  obtain b a where a: "out_calls_run Ostream_Write calls (CopyingOutputStreamAdaptor out block_size) = ret (b, a)"
      "out_held os_data ostream_room (True \<and> b) ?c ?R ([] @ out_data calls) 0 0 a" "\<not> b \<longrightarrow> ?R < length ([] @ out_data calls)"
    using ostream_sink.out_calls_result [OF ostream_sink.adaptor_out_start [OF assms]] by blast
  from ostream_sink.flushed_result [OF a(2)] show ?thesis
    using a(1,3) by (auto simp: CopyingOutputStreamAdaptor_destroy_def)
qed

theorem copying_output_delivers_witness:
  "\<exists>b a flushed a'. out_calls_run Ostream_Write [Copy [1, 2, 3], Flush_now, Aliased [4, 5], Copy [6]]
      (CopyingOutputStreamAdaptor \<lparr>os_data = [0], os_room = 4, os_good = True\<rparr> 2) = ret (b, a) \<and>
    Adaptor_Flush Ostream_Write a = Inr (flushed, a') \<and>
    os_data (co_copying_stream a') = [0, 1, 2, 3, 4] \<and> \<not> (b \<and> flushed)"
  using copying_output_delivers [of 2 "[Copy [1, 2, 3], Flush_now, Aliased [4, 5], Copy [6]]"
      "\<lparr>os_data = [0], os_room = 4, os_good = True\<rparr>"]
  by (auto simp: INT_MAX_def out_data_def ostream_room_def)

text \<open>
  A failed adaptor lends one more block, and the bytes stored there are counted and lost: the second
  write below cannot be sent, yet the third is accepted. Only \<^verbatim>\<open>Flush\<close> still tells.
\<close>

declare copy_out.simps [code]

lemma Next_after_failure:
  "(case out_calls_run Ostream_Write [Copy [1, 2], Copy [3]]
        (CopyingOutputStreamAdaptor \<lparr>os_data = [], os_room = 1, os_good = True\<rparr> 2) of
      Some (Inr (b, a)) \<Rightarrow> b \<and> cd_failed a \<and> AdaptorOut_ByteCount a = 1 \<and> os_data (co_copying_stream a) = [1] \<and>
        Adaptor_Flush Ostream_Write a = Inr (False, a)
    | _ \<Rightarrow> False)"
  by code_simp

end
