(* ===== verification/Repeated_Field.thy ===== *)
theory Repeated_Field
  imports Prelude
begin

text \<open>
  \<^verbatim>\<open>RepeatedField<Element>\<close>, \<^verbatim>\<open>repeated_field.h\<close>: the growing array in which the
  wire format's readers put the values of repeated fields. The array is a list of cells that are
  \<open>None\<close> until they are written; \<open>sz\<close> is \<^verbatim>\<open>sizeof(Element)\<close>, \<open>rf_arena\<close> the arena
  the array lives on, \<open>None\<close> for the heap. A call outside its preconditions, which the source
  only states as debug checks, is a fault or an out-of-range size, never an unspecified value.
\<close>

section \<open>The array\<close>

record 'a repeated_field =
  rf_current_size :: int
  rf_total_size :: int
  rf_elements :: "'a option list"
  rf_arena :: "nat option"

definition RepeatedField :: "nat option \<Rightarrow> 'a repeated_field" where
  "RepeatedField arena = \<lparr>rf_current_size = 0, rf_total_size = 0, rf_elements = [], rf_arena = arena\<rparr>"

definition rf_empty :: "'a repeated_field \<Rightarrow> bool" where
  "rf_empty r \<longleftrightarrow> rf_current_size r = 0"

definition kRepHeaderSize :: "int \<Rightarrow> int" where
  "kRepHeaderSize sz = (if 8 < sz then sz else 8)"

definition RepeatedFieldLowerClampLimit :: "int \<Rightarrow> int" where
  "RepeatedFieldLowerClampLimit sz = kRepHeaderSize sz div sz"

definition CalculateReserveSize :: "int \<Rightarrow> int \<Rightarrow> int \<Rightarrow> int" where
  "CalculateReserveSize sz total_size new_size =
     (if new_size < RepeatedFieldLowerClampLimit sz then RepeatedFieldLowerClampLimit sz
      else if total_size > (INT_MAX - kRepHeaderSize sz) div 2 then INT_MAX
      else max (2 * total_size + kRepHeaderSize sz div sz) new_size)"

text \<open>The computation of an \<^verbatim>\<open>int\<close>.\<close>

definition checked :: "int \<Rightarrow> int res" where
  "checked i = (if in_int32 i then Inr i else Inl SignedOverflow)"

definition Reserve :: "int \<Rightarrow> int \<Rightarrow> 'a repeated_field \<Rightarrow> 'a repeated_field res" where
  "Reserve sz new_size r =
     (if rf_total_size r \<ge> new_size then Inr r
      else
        let n = CalculateReserveSize sz (rf_total_size r) new_size in
        bind_res (if rf_current_size r > 0 then mem_read (rf_elements r) 0 (rf_current_size r) else Inr []) (\<lambda>old.
          Inr (r\<lparr>rf_total_size := n, rf_elements := overwrite 0 old (replicate (nat n) None)\<rparr>)))"

section \<open>Single elements\<close>

definition put_element :: "int \<Rightarrow> 'a \<Rightarrow> 'a repeated_field \<Rightarrow> 'a repeated_field res" where
  "put_element i value r =
     bind_res (mem_write (rf_elements r) i [Some value]) (\<lambda>els. Inr (r\<lparr>rf_elements := els\<rparr>))"

definition get_element :: "int \<Rightarrow> 'a repeated_field \<Rightarrow> 'a res" where
  "get_element i r =
     bind_res (mem_read (rf_elements r) i 1) (\<lambda>cells.
       case cells of [Some value] \<Rightarrow> Inr value | _ \<Rightarrow> Inl Uninitialised)"

definition RF_AddAlreadyReserved :: "'a \<Rightarrow> 'a repeated_field \<Rightarrow> 'a repeated_field res" where
  "RF_AddAlreadyReserved value r =
     bind_res (put_element (rf_current_size r) value r) (\<lambda>r1.
       Inr (r1\<lparr>rf_current_size := rf_current_size r + 1\<rparr>))"

text \<open>The result is the index from which the caller writes.\<close>

definition RF_AddNAlreadyReserved :: "int \<Rightarrow> 'a repeated_field \<Rightarrow> int \<times> 'a repeated_field" where
  "RF_AddNAlreadyReserved n r = (rf_current_size r, r\<lparr>rf_current_size := rf_current_size r + n\<rparr>)"

definition RF_Resize :: "int \<Rightarrow> int \<Rightarrow> 'a \<Rightarrow> 'a repeated_field \<Rightarrow> 'a repeated_field res" where
  "RF_Resize sz new_size value r =
     (if new_size > rf_current_size r then
        bind_res (Reserve sz new_size r) (\<lambda>r1.
        bind_res (mem_write (rf_elements r1) (rf_current_size r)
            (replicate (nat (new_size - rf_current_size r)) (Some value))) (\<lambda>els.
          Inr (r1\<lparr>rf_elements := els, rf_current_size := new_size\<rparr>)))
      else Inr (r\<lparr>rf_current_size := new_size\<rparr>))"

definition RF_Get :: "int \<Rightarrow> 'a repeated_field \<Rightarrow> 'a res" where
  "RF_Get index r = get_element index r"

definition RF_at :: "int \<Rightarrow> 'a repeated_field \<Rightarrow> 'a res" where
  "RF_at index r =
     (if \<not> index \<ge> 0 then Inl FatalLog
      else if \<not> index < rf_current_size r then Inl FatalLog
      else get_element index r)"

definition RF_Set :: "int \<Rightarrow> 'a \<Rightarrow> 'a repeated_field \<Rightarrow> 'a repeated_field res" where
  "RF_Set index value r = put_element index value r"

definition RF_Add :: "int \<Rightarrow> 'a \<Rightarrow> 'a repeated_field \<Rightarrow> 'a repeated_field res" where
  "RF_Add sz value r =
     (let size = rf_current_size r in
      bind_res
        (if size = rf_total_size r
         then bind_res (checked (rf_total_size r + 1)) (\<lambda>n. bind_res (Reserve sz n r) (put_element size value))
         else put_element size value r) (\<lambda>r1.
        Inr (r1\<lparr>rf_current_size := size + 1\<rparr>)))"

definition RF_RemoveLast :: "'a repeated_field \<Rightarrow> 'a repeated_field" where
  "RF_RemoveLast r = r\<lparr>rf_current_size := rf_current_size r - 1\<rparr>"

definition RF_Clear :: "'a repeated_field \<Rightarrow> 'a repeated_field" where
  "RF_Clear r = r\<lparr>rf_current_size := 0\<rparr>"

definition RF_Truncate :: "int \<Rightarrow> 'a repeated_field \<Rightarrow> 'a repeated_field" where
  "RF_Truncate new_size r = (if rf_current_size r > 0 then r\<lparr>rf_current_size := new_size\<rparr> else r)"

definition RF_SwapElements :: "int \<Rightarrow> int \<Rightarrow> 'a repeated_field \<Rightarrow> 'a repeated_field res" where
  "RF_SwapElements index1 index2 r =
     bind_res (get_element index1 r) (\<lambda>a.
     bind_res (get_element index2 r) (\<lambda>b.
     bind_res (put_element index1 b r) (put_element index2 a)))"

section \<open>Ranges\<close>

text \<open>\<^verbatim>\<open>Add(begin, end)\<close> for forward iterators, whose distance is known.\<close>

definition RF_AddRange :: "int \<Rightarrow> 'a list \<Rightarrow> 'a repeated_field \<Rightarrow> 'a repeated_field res" where
  "RF_AddRange sz values r =
     (let reserve = int (length values) in
      if reserve = 0 then Inr r
      else
        bind_res (checked (reserve + rf_current_size r)) (\<lambda>n.
        bind_res (Reserve sz n r) (\<lambda>r1.
        bind_res (mem_write (rf_elements r1) (rf_current_size r1) (map Some values)) (\<lambda>els.
          Inr (r1\<lparr>rf_elements := els, rf_current_size := reserve + rf_current_size r1\<rparr>)))))"

text \<open>\<^verbatim>\<open>FastAdder\<close>, which keeps the size in a local variable, and \<^verbatim>\<open>Add\<close> for input iterators.\<close>

record 'a fast_adder =
  fa_field :: "'a repeated_field"
  fa_index :: int
  fa_capacity :: int

definition FastAdder :: "'a repeated_field \<Rightarrow> 'a fast_adder" where
  "FastAdder r = \<lparr>fa_field = r, fa_index = rf_current_size r, fa_capacity = rf_total_size r\<rparr>"

definition FastAdder_destroy :: "'a fast_adder \<Rightarrow> 'a repeated_field" where
  "FastAdder_destroy a = (fa_field a)\<lparr>rf_current_size := fa_index a\<rparr>"

definition FastAdder_Add :: "int \<Rightarrow> 'a \<Rightarrow> 'a fast_adder \<Rightarrow> 'a fast_adder res" where
  "FastAdder_Add sz value a =
     bind_res
       (if fa_index a = fa_capacity a then
          bind_res (checked (fa_index a + 1)) (\<lambda>n.
          bind_res (Reserve sz n ((fa_field a)\<lparr>rf_current_size := fa_index a\<rparr>)) (\<lambda>r.
            Inr (a\<lparr>fa_field := r, fa_capacity := rf_total_size r\<rparr>)))
        else Inr a) (\<lambda>a1.
       bind_res (put_element (fa_index a1) value (fa_field a1)) (\<lambda>r.
         Inr (a1\<lparr>fa_field := r, fa_index := fa_index a1 + 1\<rparr>)))"

fun fast_add_loop :: "int \<Rightarrow> 'a list \<Rightarrow> 'a fast_adder \<Rightarrow> 'a fast_adder res" where
  "fast_add_loop sz [] a = Inr a"
| "fast_add_loop sz (v # vs) a = bind_res (FastAdder_Add sz v a) (fast_add_loop sz vs)"

definition RF_AddInput :: "int \<Rightarrow> 'a list \<Rightarrow> 'a repeated_field \<Rightarrow> 'a repeated_field res" where
  "RF_AddInput sz values r =
     bind_res (fast_add_loop sz values (FastAdder r)) (\<lambda>a. Inr (FastAdder_destroy a))"

text \<open>\<open>slide_elements i n num\<close> moves \<open>n\<close> elements from index \<open>i\<close> on down by \<open>num\<close>.\<close>

fun slide_elements :: "int \<Rightarrow> nat \<Rightarrow> int \<Rightarrow> 'a repeated_field \<Rightarrow> 'a repeated_field res" where
  "slide_elements i 0 num r = Inr r"
| "slide_elements i (Suc n) num r =
     bind_res (RF_Get i r) (\<lambda>v. bind_res (RF_Set (i - num) v r) (slide_elements (i + 1) n num))"

fun get_elements :: "int \<Rightarrow> nat \<Rightarrow> 'a repeated_field \<Rightarrow> 'a list res" where
  "get_elements i 0 r = Inr []"
| "get_elements i (Suc n) r =
     bind_res (RF_Get i r) (\<lambda>v. bind_res (get_elements (i + 1) n r) (\<lambda>vs. Inr (v # vs)))"

definition RF_ExtractSubrange :: "int \<Rightarrow> int \<Rightarrow> 'a repeated_field \<Rightarrow> ('a list \<times> 'a repeated_field) res" where
  "RF_ExtractSubrange start num r =
     bind_res (get_elements start (nat num) r) (\<lambda>vs.
       if num > 0 then
         bind_res (slide_elements (start + num) (nat (rf_current_size r - (start + num))) num r) (\<lambda>r1.
           Inr (vs, RF_Truncate (rf_current_size r1 - num) r1))
       else Inr (vs, r))"

definition RF_erase :: "int \<Rightarrow> int \<Rightarrow> 'a repeated_field \<Rightarrow> 'a repeated_field res" where
  "RF_erase i j r =
     (if i \<noteq> j then
        bind_res (mem_read (rf_elements r) j (rf_current_size r - j)) (\<lambda>cells.
        bind_res (mem_write (rf_elements r) i cells) (\<lambda>els.
          Inr (RF_Truncate (i + int (length cells)) (r\<lparr>rf_elements := els\<rparr>))))
      else Inr r)"

section \<open>Whole fields\<close>

definition RF_MergeFrom :: "int \<Rightarrow> 'a repeated_field \<Rightarrow> 'a repeated_field \<Rightarrow> 'a repeated_field res" where
  "RF_MergeFrom sz other r =
     (if rf_current_size other \<noteq> 0 then
        let existing_size = rf_current_size r in
        bind_res (checked (existing_size + rf_current_size other)) (\<lambda>n.
        bind_res (Reserve sz n r) (\<lambda>r1.
        case RF_AddNAlreadyReserved (rf_current_size other) r1 of
          (_, r2) \<Rightarrow>
            bind_res (mem_read (rf_elements other) 0 (rf_current_size other)) (\<lambda>cells.
            bind_res (mem_write (rf_elements r2) existing_size cells) (\<lambda>els.
              Inr (r2\<lparr>rf_elements := els\<rparr>)))))
      else Inr r)"

text \<open>A field copied from itself is left alone: \<open>None\<close> is \<^verbatim>\<open>*this\<close>.\<close>

definition RF_CopyFrom :: "int \<Rightarrow> 'a repeated_field option \<Rightarrow> 'a repeated_field \<Rightarrow> 'a repeated_field res" where
  "RF_CopyFrom sz other r =
     (case other of None \<Rightarrow> Inr r | Some x \<Rightarrow> RF_MergeFrom sz x (RF_Clear r))"

text \<open>The copy constructor.\<close>

definition RepeatedField_copy :: "int \<Rightarrow> 'a repeated_field \<Rightarrow> 'a repeated_field res" where
  "RepeatedField_copy sz other =
     (let r = RepeatedField None in
      if rf_current_size other \<noteq> 0 then
        bind_res (Reserve sz (rf_current_size other) r) (\<lambda>r1.
        case RF_AddNAlreadyReserved (rf_current_size other) r1 of
          (_, r2) \<Rightarrow>
            bind_res (mem_read (rf_elements other) 0 (rf_current_size other)) (\<lambda>cells.
            bind_res (mem_write (rf_elements r2) 0 cells) (\<lambda>els.
              Inr (r2\<lparr>rf_elements := els\<rparr>))))
      else Inr r)"

definition RF_Assign :: "int \<Rightarrow> 'a list \<Rightarrow> 'a repeated_field \<Rightarrow> 'a repeated_field res" where
  "RF_Assign sz values r = RF_AddRange sz values (RF_Clear r)"

definition RF_InternalSwap :: "'a repeated_field \<Rightarrow> 'a repeated_field \<Rightarrow> 'a repeated_field \<times> 'a repeated_field" where
  "RF_InternalSwap r other = (other, r)"

definition RF_UnsafeArenaSwap :: "'a repeated_field \<Rightarrow> 'a repeated_field \<Rightarrow> 'a repeated_field \<times> 'a repeated_field" where
  "RF_UnsafeArenaSwap r other = RF_InternalSwap r other"

text \<open>\<^verbatim>\<open>Swap\<close> of two different fields; on different arenas it copies.\<close>

definition RF_Swap :: "int \<Rightarrow> 'a repeated_field \<Rightarrow> 'a repeated_field \<Rightarrow> ('a repeated_field \<times> 'a repeated_field) res" where
  "RF_Swap sz r other =
     (if rf_arena r = rf_arena other then Inr (RF_InternalSwap r other)
      else
        bind_res (RF_MergeFrom sz r (RepeatedField (rf_arena other))) (\<lambda>temp.
        bind_res (RF_CopyFrom sz (Some other) r) (\<lambda>r1.
          Inr (r1, fst (RF_UnsafeArenaSwap other temp)))))"

text \<open>The move constructor; what is left in the other field comes second.\<close>

definition RepeatedField_move :: "int \<Rightarrow> 'a repeated_field \<Rightarrow> ('a repeated_field \<times> 'a repeated_field) res" where
  "RepeatedField_move sz other =
     (if rf_arena other \<noteq> None
      then bind_res (RF_CopyFrom sz (Some other) (RepeatedField None)) (\<lambda>r. Inr (r, other))
      else Inr (RF_InternalSwap (RepeatedField None) other))"

text \<open>Move assignment between two different fields.\<close>

definition RepeatedField_move_assign ::
    "int \<Rightarrow> 'a repeated_field \<Rightarrow> 'a repeated_field \<Rightarrow> ('a repeated_field \<times> 'a repeated_field) res" where
  "RepeatedField_move_assign sz r other =
     (if rf_arena r \<noteq> rf_arena other
      then bind_res (RF_CopyFrom sz (Some other) r) (\<lambda>r1. Inr (r1, other))
      else Inr (RF_InternalSwap r other))"

section \<open>The list a field holds\<close>

definition holds :: "'a repeated_field \<Rightarrow> 'a list \<Rightarrow> bool" where
  "holds r xs \<longleftrightarrow>
     rf_current_size r = int (length xs) \<and> take (length xs) (rf_elements r) = map Some xs \<and>
     rf_total_size r = int (length (rf_elements r)) \<and> rf_total_size r \<le> INT_MAX"

definition items :: "'a repeated_field \<Rightarrow> 'a list" where
  "items r = map the (take (nat (rf_current_size r)) (rf_elements r))"

lemma holds_items: "holds r xs \<Longrightarrow> items r = xs"
  by (simp add: holds_def items_def comp_def)

lemma holds_fits: "holds r xs \<Longrightarrow> length xs \<le> length (rf_elements r)"
proof -
  assume "holds r xs"
  then have "length (take (length xs) (rf_elements r)) = length xs" by (simp add: holds_def)
  then show ?thesis by simp
qed

lemma holds_size: "holds r xs \<Longrightarrow> rf_current_size r = int (length xs)"
  by (simp add: holds_def)

lemma holds_total: "holds r xs \<Longrightarrow> rf_total_size r = int (length (rf_elements r))"
  by (simp add: holds_def)

lemma holds_start: "holds (RepeatedField arena) []"
  by (simp add: holds_def RepeatedField_def INT_MAX_def)

lemma length_overwrite_max: "i \<le> length xs \<Longrightarrow> length (overwrite i ys xs) = max (length xs) (i + length ys)"
  by (auto simp: overwrite_def)

lemma cells_read:
  assumes "holds r xs" and "i + n \<le> length xs"
  shows "mem_read (rf_elements r) (int i) (int n) = Inr (map Some (window i n xs))"
proof -
  have "window i n (rf_elements r) = window i n (take (length xs) (rf_elements r))"
    using assms(2) by (simp add: window_def drop_take min_def)
  also have "\<dots> = map Some (window i n xs)" using assms(1) by (simp add: holds_def window_def drop_map take_map)
  finally show ?thesis using assms(2) holds_fits [OF assms(1)] by (simp add: mem_read_def)
qed

lemma cells_write:
  assumes h: "holds r xs" and i: "i \<le> length xs" "i + length ys \<le> length (rf_elements r)"
  shows "\<exists>els. mem_write (rf_elements r) (int i) (map Some ys) = Inr els \<and> length els = length (rf_elements r) \<and>
    holds (r\<lparr>rf_elements := els, rf_current_size := int (length (overwrite i ys xs))\<rparr>) (overwrite i ys xs)"
proof -
  let ?e = "rf_elements r" and ?els = "overwrite i (map Some ys) (rf_elements r)"
  have le: "length xs \<le> length ?e" by (rule holds_fits [OF h])
  obtain rest where e: "?e = map Some xs @ rest"
    using h by (metis append_take_drop_id holds_def)
  have "take (length (overwrite i ys xs)) ?els = map Some (overwrite i ys xs)"
    using i le unfolding length_overwrite_max [OF i(1)]
    by (auto simp: overwrite_def e take_map drop_map max_def)
  moreover have "length ?els = length ?e" using i(2) by simp
  moreover have "mem_write ?e (int i) (map Some ys) = Inr ?els" using i(2) by (simp add: mem_write_def)
  ultimately show ?thesis using h by (simp add: holds_def)
qed

text \<open>Growth: the capacity asked for is reached without leaving the range of \<^verbatim>\<open>int\<close>.\<close>

lemma header_bounds:
  assumes "0 < sz"
  shows "1 \<le> kRepHeaderSize sz div sz" "kRepHeaderSize sz div sz \<le> 8" "kRepHeaderSize sz div sz \<le> kRepHeaderSize sz"
    "8 \<le> kRepHeaderSize sz"
proof -
  have h: "sz \<le> kRepHeaderSize sz" "8 \<le> kRepHeaderSize sz" using assms by (auto simp: kRepHeaderSize_def)
  then show "1 \<le> kRepHeaderSize sz div sz" "8 \<le> kRepHeaderSize sz" using assms by (auto simp: zdiv_mono1 pos_imp_zdiv_pos_iff int_one_le_iff_zero_less)
  show "kRepHeaderSize sz div sz \<le> kRepHeaderSize sz" using zdiv_mono2 [of "kRepHeaderSize sz" 1 sz] h assms by simp
  show "kRepHeaderSize sz div sz \<le> 8"
    using assms zdiv_mono2 [of 8 1 sz] by (auto simp: kRepHeaderSize_def)
qed

lemma CalculateReserveSize_bounds:
  assumes "0 < sz" "0 \<le> t" "t < n" "n \<le> INT_MAX"
  shows "n \<le> CalculateReserveSize sz t n" "CalculateReserveSize sz t n \<le> INT_MAX"
    "CalculateReserveSize sz t n \<noteq> INT_MAX \<Longrightarrow> t = 0 \<or> RepeatedFieldLowerClampLimit sz \<le> t \<Longrightarrow>
      2 * t \<le> CalculateReserveSize sz t n"
  using assms header_bounds [OF assms(1)]
  by (auto simp: CalculateReserveSize_def RepeatedFieldLowerClampLimit_def INT_MAX_def)

lemma Reserve_holds:
  assumes h: "holds r xs" and sz: "0 < sz" and n: "n \<le> INT_MAX"
  shows "\<exists>r'. Reserve sz n r = Inr r' \<and> holds r' xs \<and> n \<le> rf_total_size r' \<and> rf_total_size r \<le> rf_total_size r' \<and>
    rf_arena r' = rf_arena r"
proof (cases "rf_total_size r \<ge> n")
  case True
  then show ?thesis using h by (simp add: Reserve_def)
next
  case False
  let ?n = "CalculateReserveSize sz (rf_total_size r) n"
  have b: "n \<le> ?n" "?n \<le> INT_MAX"
    using CalculateReserveSize_bounds [of sz "rf_total_size r" n] False h sz n by (auto simp: holds_def)
  have le: "length xs \<le> nat ?n" using holds_fits [OF h] False b(1) h by (auto simp: holds_def)
  let ?r = "r\<lparr>rf_total_size := ?n, rf_elements := overwrite 0 (map Some xs) (replicate (nat ?n) None)\<rparr>"
  have old: "(if rf_current_size r > 0 then mem_read (rf_elements r) 0 (rf_current_size r) else Inr []) = Inr (map Some xs)"
    using cells_read [OF h, of 0 "length xs"] h by (auto simp: holds_def window_def)
  have run: "Reserve sz n r = Inr ?r" using False by (simp add: Reserve_def Let_def old)
  have "length (overwrite 0 (map Some xs) (replicate (nat ?n) None)) = nat ?n" using le by simp
  moreover have "take (length xs) (overwrite 0 (map Some xs) (replicate (nat ?n) None)) = map Some xs"
    by (simp add: overwrite_def)
  moreover have "0 \<le> rf_total_size r" using h by (simp add: holds_def)
  ultimately have "holds ?r xs" using h b(2) False b(1) by (simp add: holds_def)
  then show ?thesis using run b(1) False by simp
qed

section \<open>Every operation is the operation on the list\<close>

definition becomes :: "'a repeated_field res \<Rightarrow> nat option \<Rightarrow> 'a list \<Rightarrow> bool" where
  "becomes m arena ys \<longleftrightarrow> (\<exists>r. m = Inr r \<and> holds r ys \<and> rf_arena r = arena)"

lemma becomesI: "m = Inr r \<Longrightarrow> holds r ys \<Longrightarrow> rf_arena r = arena \<Longrightarrow> becomes m arena ys"
  by (auto simp: becomes_def)

lemma overwrite_end [simp]: "overwrite (length xs) ys xs = xs @ ys"
  by (simp add: overwrite_def)

lemma overwrite_one: "i < length xs \<Longrightarrow> overwrite i [v] xs = xs[i := v]"
  by (simp add: overwrite_def upd_conv_take_nth_drop)

lemma holds_cut: "holds r xs \<Longrightarrow> n \<le> length xs \<Longrightarrow> holds (r\<lparr>rf_current_size := int n\<rparr>) (take n xs)"
  by (auto simp: holds_def min_def) (metis take_map take_take min.absorb1)

lemma get_holds: "holds r xs \<Longrightarrow> i < length xs \<Longrightarrow> get_element (int i) r = Inr (xs ! i)"
  using cells_read [of r xs i 1] by (simp add: get_element_def window_def take_Suc_conv_app_nth hd_drop_conv_nth take_Suc)

lemma put_holds:
  assumes "holds r xs" and "i < length xs"
  shows "becomes (put_element (int i) v r) (rf_arena r) (xs[i := v])"
proof -
  obtain els where "mem_write (rf_elements r) (int i) [Some v] = Inr els"
      "holds (r\<lparr>rf_elements := els, rf_current_size := int (length xs)\<rparr>) (xs[i := v])"
    using cells_write [OF assms(1), of i "[v]"] assms(2) holds_fits [OF assms(1)] by (auto simp: overwrite_one)
  then show ?thesis using assms(1) by (intro becomesI [of _ "r\<lparr>rf_elements := els\<rparr>"]) (simp_all add: put_element_def holds_def)
qed

lemma append_holds:
  assumes "holds r xs" and "length xs + length ys \<le> length (rf_elements r)"
  shows "\<exists>els. mem_write (rf_elements r) (rf_current_size r) (map Some ys) = Inr els \<and>
    holds (r\<lparr>rf_elements := els, rf_current_size := int (length xs) + int (length ys)\<rparr>) (xs @ ys)"
  using cells_write [OF assms(1) _ assms(2)] assms(1) by (auto simp: holds_def)

lemma AddAlreadyReserved_holds:
  assumes "holds r xs" and "length xs < length (rf_elements r)"
  shows "becomes (RF_AddAlreadyReserved v r) (rf_arena r) (xs @ [v])"
proof -
  obtain els where "mem_write (rf_elements r) (rf_current_size r) [Some v] = Inr els"
      "holds (r\<lparr>rf_elements := els, rf_current_size := int (length xs) + 1\<rparr>) (xs @ [v])"
    using append_holds [of r xs "[v]"] assms by auto
  then show ?thesis
    using holds_size [OF assms(1)]
    by (intro becomesI [of _ "r\<lparr>rf_elements := els, rf_current_size := int (length xs) + 1\<rparr>"])
      (simp_all add: RF_AddAlreadyReserved_def put_element_def)
qed

text \<open>Reserving room for \<open>n\<close> more elements and writing them behind the last one.\<close>

lemma reserve_append:
  assumes h: "holds r xs" and sz: "0 < sz" and n: "int (length xs) + int (length ys) \<le> INT_MAX"
  shows "\<exists>r1 els. Reserve sz (int (length xs) + int (length ys)) r = Inr r1 \<and> holds r1 xs \<and> rf_arena r1 = rf_arena r \<and>
    mem_write (rf_elements r1) (rf_current_size r1) (map Some ys) = Inr els \<and>
    holds (r1\<lparr>rf_elements := els, rf_current_size := int (length xs) + int (length ys)\<rparr>) (xs @ ys)"
proof -
  obtain r1 where r1: "Reserve sz (int (length xs) + int (length ys)) r = Inr r1" "holds r1 xs" "rf_arena r1 = rf_arena r"
      "int (length xs) + int (length ys) \<le> rf_total_size r1"
    using Reserve_holds [OF h sz n] by blast
  then have "length xs + length ys \<le> length (rf_elements r1)" by (simp add: holds_def)
  from append_holds [OF r1(2) this] r1 show ?thesis by auto
qed

lemma checked_holds: "0 \<le> i \<Longrightarrow> i \<le> INT_MAX \<Longrightarrow> checked i = Inr i"
  by (simp add: checked_def in_int32_def INT_MAX_def)

lemma Add_holds:
  assumes h: "holds r xs" and sz: "0 < sz" and n: "int (length xs) < INT_MAX"
  shows "becomes (RF_Add sz v r) (rf_arena r) (xs @ [v])"
proof (cases "int (length xs) = rf_total_size r")
  case True
  obtain r1 els where "Reserve sz (int (length xs) + 1) r = Inr r1" "rf_arena r1 = rf_arena r"
      "mem_write (rf_elements r1) (rf_current_size r1) [Some v] = Inr els" "holds r1 xs"
      "holds (r1\<lparr>rf_elements := els, rf_current_size := int (length xs) + 1\<rparr>) (xs @ [v])"
    using reserve_append [OF h sz, of "[v]"] n by auto
  then show ?thesis
    using True n checked_holds [of "int (length xs) + 1"] holds_size [OF h] holds_size [of r1 xs]
    by (intro becomesI [of _ "r1\<lparr>rf_elements := els, rf_current_size := int (length xs) + 1\<rparr>"])
      (simp_all add: RF_Add_def Let_def put_element_def)
next
  case False
  then have "length xs < length (rf_elements r)" using holds_fits [OF h] holds_total [OF h] by simp
  then show ?thesis
    using AddAlreadyReserved_holds [OF h, of v] False holds_size [OF h]
    by (simp add: RF_Add_def RF_AddAlreadyReserved_def Let_def)
qed

lemma AddRange_holds:
  assumes h: "holds r xs" and sz: "0 < sz" and n: "int (length xs) + int (length ys) \<le> INT_MAX"
  shows "becomes (RF_AddRange sz ys r) (rf_arena r) (xs @ ys)"
proof (cases "ys = []")
  case True
  then show ?thesis using h by (auto simp: RF_AddRange_def becomes_def)
next
  case False
  obtain r1 els where "Reserve sz (int (length xs) + int (length ys)) r = Inr r1" "rf_arena r1 = rf_arena r"
      "mem_write (rf_elements r1) (rf_current_size r1) (map Some ys) = Inr els" "holds r1 xs"
      "holds (r1\<lparr>rf_elements := els, rf_current_size := int (length xs) + int (length ys)\<rparr>) (xs @ ys)"
    using reserve_append [OF h sz n] by blast
  then show ?thesis
    using False n checked_holds [of "int (length xs) + int (length ys)"] holds_size [OF h] holds_size [of r1 xs]
    by (intro becomesI [of _ "r1\<lparr>rf_elements := els, rf_current_size := int (length xs) + int (length ys)\<rparr>"])
      (simp_all add: RF_AddRange_def Let_def add.commute)
qed

lemma Resize_holds:
  assumes h: "holds r xs" and sz: "0 < sz" and n: "int n \<le> INT_MAX"
  shows "becomes (RF_Resize sz (int n) v r) (rf_arena r) (take n xs @ replicate (n - length xs) v)"
proof (cases "length xs < n")
  case True
  obtain r1 els where "Reserve sz (int n) r = Inr r1" "rf_arena r1 = rf_arena r"
      "mem_write (rf_elements r1) (rf_current_size r1) (replicate (n - length xs) (Some v)) = Inr els" "holds r1 xs"
      "holds (r1\<lparr>rf_elements := els, rf_current_size := int n\<rparr>) (xs @ replicate (n - length xs) v)"
    using reserve_append [OF h sz, of "replicate (n - length xs) v"] n True by auto
  moreover have "nat (int n - int (length xs)) = n - length xs" by simp
  ultimately show ?thesis
    using True holds_size [OF h] holds_size [of r1 xs]
    by (intro becomesI [of _ "r1\<lparr>rf_elements := els, rf_current_size := int n\<rparr>"]) (simp_all add: RF_Resize_def)
next
  case False
  then show ?thesis using holds_size [OF h] holds_cut [OF h, of n] by (simp add: RF_Resize_def becomes_def)
qed

lemma Truncate_holds: "holds r xs \<Longrightarrow> n \<le> length xs \<Longrightarrow> holds (RF_Truncate (int n) r) (take n xs)"
  using holds_cut [of r xs n] by (auto simp: RF_Truncate_def holds_def)

lemma truncate_arena [simp]: "rf_arena (RF_Truncate n r) = rf_arena r"
  by (simp add: RF_Truncate_def)

lemma RemoveLast_holds: "holds r xs \<Longrightarrow> xs \<noteq> [] \<Longrightarrow> holds (RF_RemoveLast r) (butlast xs)"
  using holds_cut [of r xs "length xs - 1"] by (simp add: RF_RemoveLast_def butlast_conv_take holds_def Suc_leI)

lemma Clear_holds: "holds r xs \<Longrightarrow> holds (RF_Clear r) []"
  by (simp add: RF_Clear_def holds_def)

lemma at_holds: "holds r xs \<Longrightarrow> RF_at i r = (if 0 \<le> i \<and> i < int (length xs) then Inr (xs ! nat i) else Inl FatalLog)"
  using get_holds [of r xs "nat i"] by (auto simp: RF_at_def holds_def)

lemma SwapElements_holds:
  assumes h: "holds r xs" and i: "i < length xs" "j < length xs"
  shows "becomes (RF_SwapElements (int i) (int j) r) (rf_arena r) (xs[i := xs ! j, j := xs ! i])"
proof -
  obtain r1 where "put_element (int i) (xs ! j) r = Inr r1" "holds r1 (xs[i := xs ! j])" "rf_arena r1 = rf_arena r"
    using put_holds [OF h i(1), of "xs ! j"] by (auto simp: becomes_def)
  then show ?thesis
    using put_holds [of r1 "xs[i := xs ! j]" j "xs ! i"] get_holds [OF h] i by (auto simp: RF_SwapElements_def becomes_def)
qed

text \<open>The adder's field holds the list once the size is written back.\<close>

lemma FastAdder_Add_holds:
  assumes h: "holds (FastAdder_destroy a) xs" and cap: "fa_capacity a = rf_total_size (fa_field a)"
    and sz: "0 < sz" and n: "int (length xs) < INT_MAX"
  shows "\<exists>a'. FastAdder_Add sz v a = Inr a' \<and> holds (FastAdder_destroy a') (xs @ [v]) \<and>
    fa_capacity a' = rf_total_size (fa_field a') \<and> rf_arena (fa_field a') = rf_arena (fa_field a)"
proof -
  let ?g = "FastAdder_destroy a"
  have g: "fa_index a = int (length xs)" "rf_total_size ?g = fa_capacity a" "rf_elements ?g = rf_elements (fa_field a)"
    "rf_arena ?g = rf_arena (fa_field a)"
    using holds_size [OF h] cap by (simp_all add: FastAdder_destroy_def)
  show ?thesis
  proof (cases "fa_index a = fa_capacity a")
    case True
    obtain r els where "Reserve sz (int (length xs) + 1) ?g = Inr r" "rf_arena r = rf_arena ?g" "holds r xs"
        "mem_write (rf_elements r) (rf_current_size r) [Some v] = Inr els"
        "holds (r\<lparr>rf_elements := els, rf_current_size := int (length xs) + 1\<rparr>) (xs @ [v])"
      using reserve_append [OF h sz, of "[v]"] n by auto
    then show ?thesis
      using True g n checked_holds [of "int (length xs) + 1"] holds_size [of r xs]
      by (simp add: FastAdder_Add_def put_element_def FastAdder_destroy_def)
  next
    case False
    then have "length xs < length (rf_elements ?g)" using holds_fits [OF h] holds_total [OF h] g by simp
    then obtain els where "mem_write (rf_elements ?g) (rf_current_size ?g) [Some v] = Inr els"
        "holds (?g\<lparr>rf_elements := els, rf_current_size := int (length xs) + 1\<rparr>) (xs @ [v])"
      using append_holds [OF h, of "[v]"] by auto
    then show ?thesis
      using False g cap holds_size [OF h] by (simp add: FastAdder_Add_def put_element_def FastAdder_destroy_def)
  qed
qed

lemma fast_add_loop_holds:
  assumes "holds (FastAdder_destroy a) xs" and "fa_capacity a = rf_total_size (fa_field a)"
    and "0 < sz" and "int (length xs) + int (length ys) \<le> INT_MAX"
  shows "\<exists>a'. fast_add_loop sz ys a = Inr a' \<and> holds (FastAdder_destroy a') (xs @ ys) \<and>
    rf_arena (fa_field a') = rf_arena (fa_field a)"
  using assms
proof (induction ys arbitrary: a xs)
  case Nil
  then show ?case by simp
next
  case (Cons v ys)
  obtain a1 where "FastAdder_Add sz v a = Inr a1" "holds (FastAdder_destroy a1) (xs @ [v])"
      "fa_capacity a1 = rf_total_size (fa_field a1)" "rf_arena (fa_field a1) = rf_arena (fa_field a)"
    using FastAdder_Add_holds [OF Cons.prems(1-3), of v] Cons.prems(4) by auto
  then show ?case using Cons.IH [of a1 "xs @ [v]"] Cons.prems(3,4) by auto
qed

lemma AddInput_holds:
  assumes "holds r xs" and "0 < sz" and "int (length xs) + int (length ys) \<le> INT_MAX"
  shows "becomes (RF_AddInput sz ys r) (rf_arena r) (xs @ ys)"
proof -
  have "FastAdder_destroy (FastAdder r) = r" by (simp add: FastAdder_destroy_def FastAdder_def)
  with fast_add_loop_holds [of "FastAdder r" xs sz ys] assms obtain a where
    "fast_add_loop sz ys (FastAdder r) = Inr a" "holds (FastAdder_destroy a) (xs @ ys)" "rf_arena (fa_field a) = rf_arena r"
    by (auto simp: FastAdder_def)
  then show ?thesis by (intro becomesI [of _ "FastAdder_destroy a"]) (simp_all add: RF_AddInput_def, simp add: FastAdder_destroy_def)
qed

lemma get_elements_holds: "holds r xs \<Longrightarrow> i + n \<le> length xs \<Longrightarrow> get_elements (int i) n r = Inr (window i n xs)"
proof (induction n arbitrary: i)
  case 0
  then show ?case by simp
next
  case (Suc n)
  have "get_elements (int (Suc i)) n r = Inr (window (Suc i) n xs)"
    using Suc.IH [OF Suc.prems(1), of "Suc i"] Suc.prems(2) by (simp only: add_Suc add_Suc_right)
  moreover have "get_element (int i) r = Inr (xs ! i)" using get_holds Suc.prems by fastforce
  moreover have "window i (Suc n) xs = xs ! i # window (Suc i) n xs"
    using Suc.prems(2) by (simp add: window_def Cons_nth_drop_Suc [symmetric])
  ultimately show ?case by (simp add: RF_Get_def add.commute)
qed

lemma slide_holds:
  "holds r xs \<Longrightarrow> i + n = length xs \<Longrightarrow> num \<le> i \<Longrightarrow>
    \<exists>r' zs. slide_elements (int i) n (int num) r = Inr r' \<and> holds r' zs \<and> rf_arena r' = rf_arena r \<and>
      length zs = length xs \<and> take (length xs - num) zs = take (i - num) xs @ drop i xs"
proof (induction n arbitrary: i r xs)
  case 0
  then show ?case by auto
next
  case (Suc n)
  let ?ys = "xs[i - num := xs ! i]"
  have pos: "int i - int num = int (i - num)" "i - num < length xs" "i < length xs" using Suc.prems by auto
  obtain r1 where r1: "put_element (int i - int num) (xs ! i) r = Inr r1" "holds r1 ?ys" "rf_arena r1 = rf_arena r"
    using put_holds [OF Suc.prems(1) pos(2), of "xs ! i"] unfolding pos(1) by (auto simp: becomes_def)
  have "get_element (int i) r = Inr (xs ! i)" using get_holds [OF Suc.prems(1) pos(3)] .
  with r1(1) have run: "slide_elements (int i) (Suc n) (int num) r = slide_elements (int (Suc i)) n (int num) r1"
    by (simp add: RF_Get_def RF_Set_def add.commute)
  have "Suc i + n = length ?ys" "num \<le> Suc i" using Suc.prems by auto
  from Suc.IH [OF r1(2) this] obtain r2 zs where
    "slide_elements (int (Suc i)) n (int num) r1 = Inr r2" "holds r2 zs" "rf_arena r2 = rf_arena r" "length zs = length xs"
    "take (length xs - num) zs = take (Suc i - num) ?ys @ drop (Suc i) ?ys"
    unfolding r1(3) by auto
  moreover have "take (Suc i - num) ?ys @ drop (Suc i) ?ys = take (i - num) xs @ drop i xs"
    using pos Suc.prems(3)
    by (simp add: Suc_diff_le take_Suc_conv_app_nth Cons_nth_drop_Suc [symmetric])
  ultimately show ?case using run by auto
qed

lemma ExtractSubrange_holds:
  assumes h: "holds r xs" and i: "i + n \<le> length xs"
  shows "\<exists>r'. RF_ExtractSubrange (int i) (int n) r = Inr (window i n xs, r') \<and>
    holds r' (take i xs @ drop (i + n) xs) \<and> rf_arena r' = rf_arena r"
proof (cases "n = 0")
  case True
  then show ?thesis using h get_elements_holds [OF h i] by (simp add: RF_ExtractSubrange_def)
next
  case False
  have "(i + n) + (length xs - (i + n)) = length xs" using i by simp
  from slide_holds [OF h this, of n] obtain r1 zs where r1:
    "slide_elements (int (i + n)) (length xs - (i + n)) (int n) r = Inr r1" "holds r1 zs" "rf_arena r1 = rf_arena r"
    "length zs = length xs" "take (length xs - n) zs = take i xs @ drop (i + n) xs" by auto
  have "nat (rf_current_size r - (int i + int n)) = length xs - (i + n)" using holds_size [OF h] by simp
  moreover have "rf_current_size r1 - int n = int (length xs - n)" using holds_size [OF r1(2)] r1(4) i by simp
  ultimately show ?thesis
    using False r1 get_elements_holds [OF h i] Truncate_holds [OF r1(2), of "length xs - n"]
    by (simp add: RF_ExtractSubrange_def)
qed

lemma erase_holds:
  assumes h: "holds r xs" and i: "i \<le> j" "j \<le> length xs"
  shows "becomes (RF_erase (int i) (int j) r) (rf_arena r) (take i xs @ drop j xs)"
proof (cases "i = j")
  case True
  then show ?thesis using h by (auto simp: RF_erase_def becomes_def)
next
  case False
  let ?n = "length xs - j" and ?ys = "drop j xs"
  have rd: "mem_read (rf_elements r) (int j) (int ?n) = Inr (map Some ?ys)"
    using cells_read [OF h, of j ?n] i by (simp add: window_def)
  have sizes: "rf_current_size r - int j = int ?n" using holds_size [OF h] i by simp
  have fit: "i \<le> length xs" "i + length ?ys \<le> length (rf_elements r)" using i holds_fits [OF h] by auto
  obtain els where w: "mem_write (rf_elements r) (int i) (map Some ?ys) = Inr els"
      "holds (r\<lparr>rf_elements := els, rf_current_size := int (length (overwrite i ?ys xs))\<rparr>) (overwrite i ?ys xs)"
    using cells_write [OF h fit] by blast
  have len: "length (overwrite i ?ys xs) = length xs" using i by simp
  have "r\<lparr>rf_elements := els, rf_current_size := int (length xs)\<rparr> = r\<lparr>rf_elements := els\<rparr>" using holds_size [OF h] by simp
  with w(2) have "holds (r\<lparr>rf_elements := els\<rparr>) (overwrite i ?ys xs)" unfolding len by simp
  moreover have "length (take i xs @ ?ys) = i + ?n" using fit(1) by simp
  then have "take (i + ?n) (overwrite i ?ys xs) = take i xs @ ?ys"
    unfolding overwrite_def append_assoc [symmetric] by (metis append_eq_conv_conj)
  moreover have "i + ?n \<le> length (overwrite i ?ys xs)" using i unfolding len by simp
  ultimately have "holds (RF_Truncate (int (i + ?n)) (r\<lparr>rf_elements := els\<rparr>)) (take i xs @ ?ys)"
    using Truncate_holds by metis
  then show ?thesis
    using False rd w(1) i
    by (intro becomesI [of _ "RF_Truncate (int (i + ?n)) (r\<lparr>rf_elements := els\<rparr>)"])
      (simp_all add: RF_erase_def sizes add_diff_eq)
qed

lemma MergeFrom_holds:
  assumes h: "holds r xs" "holds other ys" and sz: "0 < sz" and n: "int (length xs) + int (length ys) \<le> INT_MAX"
  shows "becomes (RF_MergeFrom sz other r) (rf_arena r) (xs @ ys)"
proof (cases "ys = []")
  case True
  then show ?thesis using h holds_size [OF h(2)] by (simp add: RF_MergeFrom_def becomes_def)
next
  case False
  obtain r1 els where "Reserve sz (int (length xs) + int (length ys)) r = Inr r1" "rf_arena r1 = rf_arena r" "holds r1 xs"
      "mem_write (rf_elements r1) (rf_current_size r1) (map Some ys) = Inr els"
      "holds (r1\<lparr>rf_elements := els, rf_current_size := int (length xs) + int (length ys)\<rparr>) (xs @ ys)"
    using reserve_append [OF h(1) sz n] by blast
  moreover have "mem_read (rf_elements other) 0 (int (length ys)) = Inr (map Some ys)"
    using cells_read [OF h(2), of 0 "length ys"] by (simp add: window_def)
  ultimately show ?thesis
    using False n checked_holds [of "int (length xs) + int (length ys)"] holds_size [OF h(1)] holds_size [OF h(2)] holds_size [of r1 xs]
    by (intro becomesI [of _ "r1\<lparr>rf_elements := els, rf_current_size := int (length xs) + int (length ys)\<rparr>"])
      (simp_all add: RF_MergeFrom_def RF_AddNAlreadyReserved_def Let_def)
qed

lemma CopyFrom_holds:
  assumes "holds r xs" "holds other ys" and "0 < sz" and "int (length ys) \<le> INT_MAX"
  shows "becomes (RF_CopyFrom sz (Some other) r) (rf_arena r) ys"
  using MergeFrom_holds [OF Clear_holds [OF assms(1)] assms(2,3)] assms(4)
  by (simp add: RF_CopyFrom_def RF_Clear_def)

lemma Assign_holds:
  assumes "holds r xs" and "0 < sz" and "int (length ys) \<le> INT_MAX"
  shows "becomes (RF_Assign sz ys r) (rf_arena r) ys"
  using AddRange_holds [OF Clear_holds [OF assms(1)] assms(2), of ys] assms(3)
  by (simp add: RF_Assign_def RF_Clear_def)

lemma copy_holds:
  assumes h: "holds other ys" and sz: "0 < sz" and n: "int (length ys) \<le> INT_MAX"
  shows "becomes (RepeatedField_copy sz other) None ys"
proof -
  have "RepeatedField_copy sz other = RF_MergeFrom sz other (RepeatedField None)"
    using holds_size [OF h] n checked_holds [of "int (length ys)"]
    by (simp add: RepeatedField_copy_def RF_MergeFrom_def RepeatedField_def Let_def)
  then show ?thesis
    using MergeFrom_holds [OF holds_start h sz, of None] n by (simp add: RepeatedField_def)
qed

lemma Swap_holds:
  assumes h: "holds r xs" "holds other ys" and sz: "0 < sz" and n: "int (length xs) \<le> INT_MAX" "int (length ys) \<le> INT_MAX"
  shows "\<exists>r' other'. RF_Swap sz r other = Inr (r', other') \<and> holds r' ys \<and> holds other' xs \<and>
    rf_arena r' = rf_arena r \<and> rf_arena other' = rf_arena other"
proof (cases "rf_arena r = rf_arena other")
  case True
  then show ?thesis using h by (simp add: RF_Swap_def RF_InternalSwap_def)
next
  case False
  obtain temp where "RF_MergeFrom sz r (RepeatedField (rf_arena other)) = Inr temp" "holds temp xs" "rf_arena temp = rf_arena other"
    using MergeFrom_holds [OF holds_start h(1) sz, of "rf_arena other"] n(1) by (auto simp: becomes_def RepeatedField_def)
  moreover obtain r1 where "RF_CopyFrom sz (Some other) r = Inr r1" "holds r1 ys" "rf_arena r1 = rf_arena r"
    using CopyFrom_holds [OF h sz n(2)] by (auto simp: becomes_def)
  ultimately show ?thesis using False by (simp add: RF_Swap_def RF_UnsafeArenaSwap_def RF_InternalSwap_def)
qed

lemma move_holds:
  assumes "holds other ys" and "0 < sz" and "int (length ys) \<le> INT_MAX"
  shows "\<exists>r rest. RepeatedField_move sz other = Inr (r, rest) \<and> holds r ys \<and> rf_arena r = None"
  using CopyFrom_holds [OF holds_start assms, of None] assms(1)
  by (auto simp: RepeatedField_move_def RF_InternalSwap_def becomes_def RepeatedField_def)

section \<open>Sequences of operations\<close>

datatype 'a rf_op =
    Op_Add 'a | Op_AddRange "'a list" | Op_AddInput "'a list" | Op_Reserve int | Op_Resize int 'a
  | Op_Set int 'a | Op_RemoveLast | Op_Clear | Op_Truncate int | Op_Extract int int | Op_erase int int
  | Op_SwapElements int int | Op_MergeFrom "'a repeated_field" | Op_CopyFrom "'a repeated_field" | Op_Assign "'a list"

text \<open>The call, and what it does to the list: \<open>None\<close> outside the documented preconditions.\<close>

fun rf_call :: "int \<Rightarrow> 'a rf_op \<Rightarrow> 'a repeated_field \<Rightarrow> 'a repeated_field res" where
  "rf_call sz (Op_Add v) r = RF_Add sz v r"
| "rf_call sz (Op_AddRange vs) r = RF_AddRange sz vs r"
| "rf_call sz (Op_AddInput vs) r = RF_AddInput sz vs r"
| "rf_call sz (Op_Reserve n) r = Reserve sz n r"
| "rf_call sz (Op_Resize n v) r = RF_Resize sz n v r"
| "rf_call sz (Op_Set i v) r = RF_Set i v r"
| "rf_call sz Op_RemoveLast r = Inr (RF_RemoveLast r)"
| "rf_call sz Op_Clear r = Inr (RF_Clear r)"
| "rf_call sz (Op_Truncate n) r = Inr (RF_Truncate n r)"
| "rf_call sz (Op_Extract i n) r = bind_res (RF_ExtractSubrange i n r) (\<lambda>(_, r1). Inr r1)"
| "rf_call sz (Op_erase i j) r = RF_erase i j r"
| "rf_call sz (Op_SwapElements i j) r = RF_SwapElements i j r"
| "rf_call sz (Op_MergeFrom x) r = RF_MergeFrom sz x r"
| "rf_call sz (Op_CopyFrom x) r = RF_CopyFrom sz (Some x) r"
| "rf_call sz (Op_Assign vs) r = RF_Assign sz vs r"

definition provided :: "bool \<Rightarrow> 'a \<Rightarrow> 'a option" where
  "provided b x = (if b then Some x else None)"

fun list_call :: "'a rf_op \<Rightarrow> 'a list \<Rightarrow> 'a list option" where
  "list_call (Op_Add v) xs = Some (xs @ [v])"
| "list_call (Op_AddRange vs) xs = Some (xs @ vs)"
| "list_call (Op_AddInput vs) xs = Some (xs @ vs)"
| "list_call (Op_Reserve n) xs = provided (n \<le> INT_MAX) xs"
| "list_call (Op_Resize n v) xs = provided (0 \<le> n) (take (nat n) xs @ replicate (nat n - length xs) v)"
| "list_call (Op_Set i v) xs = provided (0 \<le> i \<and> i < int (length xs)) (xs[nat i := v])"
| "list_call Op_RemoveLast xs = provided (xs \<noteq> []) (butlast xs)"
| "list_call Op_Clear xs = Some []"
| "list_call (Op_Truncate n) xs = provided (0 \<le> n \<and> n \<le> int (length xs)) (take (nat n) xs)"
| "list_call (Op_Extract i n) xs =
     provided (0 \<le> i \<and> 0 \<le> n \<and> i + n \<le> int (length xs)) (take (nat i) xs @ drop (nat i + nat n) xs)"
| "list_call (Op_erase i j) xs =
     provided (0 \<le> i \<and> i \<le> j \<and> j \<le> int (length xs)) (take (nat i) xs @ drop (nat j) xs)"
| "list_call (Op_SwapElements i j) xs =
     provided (0 \<le> i \<and> i < int (length xs) \<and> 0 \<le> j \<and> j < int (length xs))
       (xs[nat i := xs ! nat j, nat j := xs ! nat i])"
| "list_call (Op_MergeFrom x) xs = provided (holds x (items x)) (xs @ items x)"
| "list_call (Op_CopyFrom x) xs = provided (holds x (items x)) (items x)"
| "list_call (Op_Assign vs) xs = Some vs"

fun list_calls :: "'a rf_op list \<Rightarrow> 'a list \<Rightarrow> 'a list option" where
  "list_calls [] xs = Some xs"
| "list_calls (c # cs) xs =
     (case list_call c xs of
        Some ys \<Rightarrow> if int (length ys) \<le> INT_MAX then list_calls cs ys else None
      | None \<Rightarrow> None)"

fun rf_calls :: "int \<Rightarrow> 'a rf_op list \<Rightarrow> 'a repeated_field \<Rightarrow> 'a repeated_field res" where
  "rf_calls sz [] r = Inr r"
| "rf_calls sz (c # cs) r = bind_res (rf_call sz c r) (rf_calls sz cs)"

lemma when_Some [simp]: "provided b x = Some y \<longleftrightarrow> b \<and> x = y"
  by (simp add: provided_def)

lemma rf_call_refines:
  assumes h: "holds r xs" and sz: "0 < sz" and l: "list_call c xs = Some ys" "int (length ys) \<le> INT_MAX"
  shows "becomes (rf_call sz c r) (rf_arena r) ys"
proof -
  show ?thesis
  proof (cases c)
    case (Op_Reserve n)
    then show ?thesis using Reserve_holds [OF h sz, of n] l by (auto simp: becomes_def)
  next
    case (Op_Resize n v)
    then show ?thesis using Resize_holds [OF h sz, of "nat n" v] l by (cases "nat n \<le> length xs") auto
  next
    case (Op_Set i v)
    then show ?thesis using put_holds [OF h, of "nat i" v] l by (auto simp: RF_Set_def)
  next
    case (Op_Truncate n)
    then show ?thesis using Truncate_holds [OF h, of "nat n"] l by (auto simp: becomes_def)
  next
    case (Op_Extract i n)
    then show ?thesis using ExtractSubrange_holds [OF h, of "nat i" "nat n"] l by (force simp: becomes_def)
  next
    case (Op_erase i j)
    then show ?thesis using erase_holds [OF h, of "nat i" "nat j"] l by auto
  next
    case (Op_SwapElements i j)
    then show ?thesis using SwapElements_holds [OF h, of "nat i" "nat j"] l by auto
  next
    case (Op_MergeFrom x)
    then show ?thesis using MergeFrom_holds [OF h _ sz, of x "items x"] l by auto
  next
    case (Op_CopyFrom x)
    then show ?thesis using CopyFrom_holds [OF h _ sz, of x ys] l by auto
  qed (use l Add_holds [OF h sz] AddRange_holds [OF h sz] AddInput_holds [OF h sz] Assign_holds [OF h sz]
      RemoveLast_holds [OF h] Clear_holds [OF h] in
      \<open>auto simp: becomes_def RF_RemoveLast_def RF_Clear_def\<close>)
qed

lemma rf_calls_refine:
  assumes "holds r xs" and "0 < sz" and "list_calls cs xs = Some ys"
  shows "becomes (rf_calls sz cs r) (rf_arena r) ys"
  using assms
proof (induction cs arbitrary: r xs)
  case Nil
  then show ?case by (simp add: becomes_def)
next
  case (Cons c cs)
  obtain zs where zs: "list_call c xs = Some zs" "int (length zs) \<le> INT_MAX" "list_calls cs zs = Some ys"
    using Cons.prems(3) by (auto split: option.splits if_splits)
  obtain r1 where "rf_call sz c r = Inr r1" "holds r1 zs" "rf_arena r1 = rf_arena r"
    using rf_call_refines [OF Cons.prems(1,2) zs(1,2)] by (auto simp: becomes_def)
  then show ?case using Cons.IH [OF _ Cons.prems(2) zs(3)] by fastforce
qed

section \<open>Properties\<close>

text \<open>
  C33: A \<^verbatim>\<open>RepeatedField\<close> is a list: any sequence of its operations within their
  documented preconditions and below \<^verbatim>\<open>INT_MAX\<close> elements runs without a fault, whatever the
  capacities it grows through, and leaves the elements of the corresponding list operations; the checked
  access reads each of them and refuses every other index, and the field stays on its arena.
\<close>

theorem repeated_field_is_list:
  assumes "0 < sz" and "list_calls cs [] = Some ys"
  shows "\<exists>r. rf_calls sz cs (RepeatedField arena) = Inr r \<and> items r = ys \<and>
    rf_current_size r = int (length ys) \<and> rf_current_size r \<le> rf_total_size r \<and> rf_arena r = arena \<and>
    (\<forall>i. RF_at i r = (if 0 \<le> i \<and> i < int (length ys) then Inr (ys ! nat i) else Inl FatalLog))"
proof -
  obtain r where r: "rf_calls sz cs (RepeatedField arena) = Inr r" "holds r ys" "rf_arena r = arena"
    using rf_calls_refine [OF holds_start assms] by (auto simp: becomes_def RepeatedField_def)
  then show ?thesis
    using holds_items [OF r(2)] holds_size [OF r(2)] holds_total [OF r(2)] holds_fits [OF r(2)] at_holds [OF r(2)] by simp
qed

theorem repeated_field_is_list_witness:
  "\<exists>r. rf_calls 4 [Op_AddRange [1, 2, 3, 4], Op_Extract 1 2, Op_Add 5, Op_Resize 5 9, Op_SwapElements 0 2]
      (RepeatedField None) = Inr r \<and> items r = [5, 4, 1, 9, 9 :: int] \<and> RF_at 5 r = Inl FatalLog"
proof -
  have "list_calls [Op_AddRange [1, 2, 3, 4], Op_Extract 1 2, Op_Add 5, Op_Resize 5 9, Op_SwapElements 0 2] [] =
      Some [5, 4, 1, 9, 9 :: int]" by code_simp
  from repeated_field_is_list [OF _ this, of 4 None] show ?thesis by force
qed

end
