(* ===== verification/Wire_Types.thy ===== *)
theory Wire_Types
  imports Wire_Copy Repeated_Field
begin

unbundle bit_operations_syntax

text \<open>
  The typed reading and writing functions of \<^verbatim>\<open>WireFormatLite\<close>,
  \<^verbatim>\<open>wire_format_lite.{h,cc}\<close>, that generated messages call for their fields: one
  reader, two writers and a size for each scalar type, and the functions for repeated, packed and
  length-delimited fields on top of them. Signed integers, enums and floating-point numbers are their
  bit patterns, so that the casts between them are the identity. A template parameter
  \<^verbatim>\<open>CType, DeclaredType\<close> is the instance of \<^verbatim>\<open>ReadPrimitive\<close> it selects and
  \<open>sz\<close>, the size of an element.
\<close>

section \<open>Reading one value\<close>

text \<open>\<^verbatim>\<open>EncodeFloat\<close> and its three relatives are \<^verbatim>\<open>bit_cast\<close>.\<close>

definition EncodeFloat :: "uint32 \<Rightarrow> uint32" where "EncodeFloat value = value"
definition DecodeFloat :: "uint32 \<Rightarrow> uint32" where "DecodeFloat value = value"
definition EncodeDouble :: "uint64 \<Rightarrow> uint64" where "EncodeDouble value = value"
definition DecodeDouble :: "uint64 \<Rightarrow> uint64" where "DecodeDouble value = value"

text \<open>The end of a reader: \<^verbatim>\<open>if (!read(&temp)) return false; *value = f(temp);\<close>\<close>

definition read_as :: "('a \<Rightarrow> 'b) \<Rightarrow> ('a option \<times> 'c) run \<Rightarrow> ('b option \<times> 'c) run" where
  "read_as f m = bind_run m (\<lambda>(temp, c). case temp of None \<Rightarrow> ret (None, c) | Some v \<Rightarrow> ret (Some (f v), c))"

definition ReadPrimitive_INT32 :: "'s zero_copy_input \<Rightarrow> 's coded_input \<Rightarrow> (uint32 option \<times> 's coded_input) run" where
  "ReadPrimitive_INT32 Z c = read_as (\<lambda>temp. temp) (Ci_ReadVarint32 Z c)"

definition ReadPrimitive_INT64 :: "'s zero_copy_input \<Rightarrow> 's coded_input \<Rightarrow> (uint64 option \<times> 's coded_input) run" where
  "ReadPrimitive_INT64 Z c = read_as (\<lambda>temp. temp) (Ci_ReadVarint64 Z c)"

definition ReadPrimitive_UINT32 :: "'s zero_copy_input \<Rightarrow> 's coded_input \<Rightarrow> (uint32 option \<times> 's coded_input) run" where
  "ReadPrimitive_UINT32 Z c = Ci_ReadVarint32 Z c"

definition ReadPrimitive_UINT64 :: "'s zero_copy_input \<Rightarrow> 's coded_input \<Rightarrow> (uint64 option \<times> 's coded_input) run" where
  "ReadPrimitive_UINT64 Z c = Ci_ReadVarint64 Z c"

definition ReadPrimitive_SINT32 :: "'s zero_copy_input \<Rightarrow> 's coded_input \<Rightarrow> (uint32 option \<times> 's coded_input) run" where
  "ReadPrimitive_SINT32 Z c = read_as ZigZagDecode32 (Ci_ReadVarint32 Z c)"

definition ReadPrimitive_SINT64 :: "'s zero_copy_input \<Rightarrow> 's coded_input \<Rightarrow> (uint64 option \<times> 's coded_input) run" where
  "ReadPrimitive_SINT64 Z c = read_as ZigZagDecode64 (Ci_ReadVarint64 Z c)"

definition ReadPrimitive_FIXED32 :: "'s zero_copy_input \<Rightarrow> 's coded_input \<Rightarrow> (uint32 option \<times> 's coded_input) run" where
  "ReadPrimitive_FIXED32 Z c = Ci_ReadLittleEndian32 Z c"

definition ReadPrimitive_FIXED64 :: "'s zero_copy_input \<Rightarrow> 's coded_input \<Rightarrow> (uint64 option \<times> 's coded_input) run" where
  "ReadPrimitive_FIXED64 Z c = Ci_ReadLittleEndian64 Z c"

definition ReadPrimitive_SFIXED32 :: "'s zero_copy_input \<Rightarrow> 's coded_input \<Rightarrow> (uint32 option \<times> 's coded_input) run" where
  "ReadPrimitive_SFIXED32 Z c = read_as (\<lambda>temp. temp) (Ci_ReadLittleEndian32 Z c)"

definition ReadPrimitive_SFIXED64 :: "'s zero_copy_input \<Rightarrow> 's coded_input \<Rightarrow> (uint64 option \<times> 's coded_input) run" where
  "ReadPrimitive_SFIXED64 Z c = read_as (\<lambda>temp. temp) (Ci_ReadLittleEndian64 Z c)"

definition ReadPrimitive_FLOAT :: "'s zero_copy_input \<Rightarrow> 's coded_input \<Rightarrow> (uint32 option \<times> 's coded_input) run" where
  "ReadPrimitive_FLOAT Z c = read_as DecodeFloat (Ci_ReadLittleEndian32 Z c)"

definition ReadPrimitive_DOUBLE :: "'s zero_copy_input \<Rightarrow> 's coded_input \<Rightarrow> (uint64 option \<times> 's coded_input) run" where
  "ReadPrimitive_DOUBLE Z c = read_as DecodeDouble (Ci_ReadLittleEndian64 Z c)"

definition ReadPrimitive_BOOL :: "'s zero_copy_input \<Rightarrow> 's coded_input \<Rightarrow> (bool option \<times> 's coded_input) run" where
  "ReadPrimitive_BOOL Z c = read_as (\<lambda>temp. temp \<noteq> 0) (Ci_ReadVarint64 Z c)"

definition ReadPrimitive_ENUM :: "'s zero_copy_input \<Rightarrow> 's coded_input \<Rightarrow> (uint32 option \<times> 's coded_input) run" where
  "ReadPrimitive_ENUM Z c = read_as (\<lambda>temp. temp) (Ci_ReadVarint32 Z c)"

text \<open>From an array, which the caller has checked to be long enough.\<close>

definition ReadPrimitiveFromArray_FIXED32 :: "byte list \<Rightarrow> (nat \<times> uint32) res" where
  "ReadPrimitiveFromArray_FIXED32 buffer = ReadLittleEndian32FromArray buffer"

definition ReadPrimitiveFromArray_FIXED64 :: "byte list \<Rightarrow> (nat \<times> uint64) res" where
  "ReadPrimitiveFromArray_FIXED64 buffer = ReadLittleEndian64FromArray buffer"

definition ReadPrimitiveFromArray_SFIXED32 :: "byte list \<Rightarrow> (nat \<times> uint32) res" where
  "ReadPrimitiveFromArray_SFIXED32 buffer = bind_res (ReadLittleEndian32FromArray buffer) (\<lambda>(n, temp). Inr (n, temp))"

definition ReadPrimitiveFromArray_SFIXED64 :: "byte list \<Rightarrow> (nat \<times> uint64) res" where
  "ReadPrimitiveFromArray_SFIXED64 buffer = bind_res (ReadLittleEndian64FromArray buffer) (\<lambda>(n, temp). Inr (n, temp))"

definition ReadPrimitiveFromArray_FLOAT :: "byte list \<Rightarrow> (nat \<times> uint32) res" where
  "ReadPrimitiveFromArray_FLOAT buffer = bind_res (ReadLittleEndian32FromArray buffer) (\<lambda>(n, temp). Inr (n, DecodeFloat temp))"

definition ReadPrimitiveFromArray_DOUBLE :: "byte list \<Rightarrow> (nat \<times> uint64) res" where
  "ReadPrimitiveFromArray_DOUBLE buffer = bind_res (ReadLittleEndian64FromArray buffer) (\<lambda>(n, temp). Inr (n, DecodeDouble temp))"

section \<open>Writing one value to a stream\<close>

definition Lite_WriteTag :: "int \<Rightarrow> WireType \<Rightarrow> coded_output \<Rightarrow> coded_output run" where
  "Lite_WriteTag number ty output = Co_WriteTag (MakeTag number ty) output"

definition WriteInt32NoTag :: "uint32 \<Rightarrow> coded_output \<Rightarrow> coded_output run" where
  "WriteInt32NoTag value output = Co_WriteVarint32SignExtended value output"

definition WriteInt64NoTag :: "uint64 \<Rightarrow> coded_output \<Rightarrow> coded_output run" where
  "WriteInt64NoTag value output = Co_WriteVarint64 value output"

definition WriteUInt32NoTag :: "uint32 \<Rightarrow> coded_output \<Rightarrow> coded_output run" where
  "WriteUInt32NoTag value output = Co_WriteVarint32 value output"

definition WriteUInt64NoTag :: "uint64 \<Rightarrow> coded_output \<Rightarrow> coded_output run" where
  "WriteUInt64NoTag value output = Co_WriteVarint64 value output"

definition WriteSInt32NoTag :: "uint32 \<Rightarrow> coded_output \<Rightarrow> coded_output run" where
  "WriteSInt32NoTag value output = Co_WriteVarint32 (ZigZagEncode32 value) output"

definition WriteSInt64NoTag :: "uint64 \<Rightarrow> coded_output \<Rightarrow> coded_output run" where
  "WriteSInt64NoTag value output = Co_WriteVarint64 (ZigZagEncode64 value) output"

definition WriteFixed32NoTag :: "uint32 \<Rightarrow> coded_output \<Rightarrow> coded_output run" where
  "WriteFixed32NoTag value output = Co_WriteLittleEndian32 value output"

definition WriteFixed64NoTag :: "uint64 \<Rightarrow> coded_output \<Rightarrow> coded_output run" where
  "WriteFixed64NoTag value output = Co_WriteLittleEndian64 value output"

definition WriteSFixed32NoTag :: "uint32 \<Rightarrow> coded_output \<Rightarrow> coded_output run" where
  "WriteSFixed32NoTag value output = Co_WriteLittleEndian32 value output"

definition WriteSFixed64NoTag :: "uint64 \<Rightarrow> coded_output \<Rightarrow> coded_output run" where
  "WriteSFixed64NoTag value output = Co_WriteLittleEndian64 value output"

definition WriteFloatNoTag :: "uint32 \<Rightarrow> coded_output \<Rightarrow> coded_output run" where
  "WriteFloatNoTag value output = Co_WriteLittleEndian32 (EncodeFloat value) output"

definition WriteDoubleNoTag :: "uint64 \<Rightarrow> coded_output \<Rightarrow> coded_output run" where
  "WriteDoubleNoTag value output = Co_WriteLittleEndian64 (EncodeDouble value) output"

definition WriteBoolNoTag :: "bool \<Rightarrow> coded_output \<Rightarrow> coded_output run" where
  "WriteBoolNoTag value output = Co_WriteVarint32 (if value then 1 else 0) output"

definition WriteEnumNoTag :: "uint32 \<Rightarrow> coded_output \<Rightarrow> coded_output run" where
  "WriteEnumNoTag value output = Co_WriteVarint32SignExtended value output"

definition WriteInt32 :: "int \<Rightarrow> uint32 \<Rightarrow> coded_output \<Rightarrow> coded_output run" where
  "WriteInt32 number value output =
     bind_run (Lite_WriteTag number WIRETYPE_VARINT output) (WriteInt32NoTag value)"

definition WriteInt64 :: "int \<Rightarrow> uint64 \<Rightarrow> coded_output \<Rightarrow> coded_output run" where
  "WriteInt64 number value output =
     bind_run (Lite_WriteTag number WIRETYPE_VARINT output) (WriteInt64NoTag value)"

definition WriteUInt32 :: "int \<Rightarrow> uint32 \<Rightarrow> coded_output \<Rightarrow> coded_output run" where
  "WriteUInt32 number value output =
     bind_run (Lite_WriteTag number WIRETYPE_VARINT output) (WriteUInt32NoTag value)"

definition WriteUInt64 :: "int \<Rightarrow> uint64 \<Rightarrow> coded_output \<Rightarrow> coded_output run" where
  "WriteUInt64 number value output =
     bind_run (Lite_WriteTag number WIRETYPE_VARINT output) (WriteUInt64NoTag value)"

definition WriteSInt32 :: "int \<Rightarrow> uint32 \<Rightarrow> coded_output \<Rightarrow> coded_output run" where
  "WriteSInt32 number value output =
     bind_run (Lite_WriteTag number WIRETYPE_VARINT output) (WriteSInt32NoTag value)"

definition WriteSInt64 :: "int \<Rightarrow> uint64 \<Rightarrow> coded_output \<Rightarrow> coded_output run" where
  "WriteSInt64 number value output =
     bind_run (Lite_WriteTag number WIRETYPE_VARINT output) (WriteSInt64NoTag value)"

definition WriteFixed32 :: "int \<Rightarrow> uint32 \<Rightarrow> coded_output \<Rightarrow> coded_output run" where
  "WriteFixed32 number value output =
     bind_run (Lite_WriteTag number WIRETYPE_FIXED32 output) (WriteFixed32NoTag value)"

definition WriteFixed64 :: "int \<Rightarrow> uint64 \<Rightarrow> coded_output \<Rightarrow> coded_output run" where
  "WriteFixed64 number value output =
     bind_run (Lite_WriteTag number WIRETYPE_FIXED64 output) (WriteFixed64NoTag value)"

definition WriteSFixed32 :: "int \<Rightarrow> uint32 \<Rightarrow> coded_output \<Rightarrow> coded_output run" where
  "WriteSFixed32 number value output =
     bind_run (Lite_WriteTag number WIRETYPE_FIXED32 output) (WriteSFixed32NoTag value)"

definition WriteSFixed64 :: "int \<Rightarrow> uint64 \<Rightarrow> coded_output \<Rightarrow> coded_output run" where
  "WriteSFixed64 number value output =
     bind_run (Lite_WriteTag number WIRETYPE_FIXED64 output) (WriteSFixed64NoTag value)"

definition WriteFloat :: "int \<Rightarrow> uint32 \<Rightarrow> coded_output \<Rightarrow> coded_output run" where
  "WriteFloat number value output =
     bind_run (Lite_WriteTag number WIRETYPE_FIXED32 output) (WriteFloatNoTag value)"

definition WriteDouble :: "int \<Rightarrow> uint64 \<Rightarrow> coded_output \<Rightarrow> coded_output run" where
  "WriteDouble number value output =
     bind_run (Lite_WriteTag number WIRETYPE_FIXED64 output) (WriteDoubleNoTag value)"

definition WriteBool :: "int \<Rightarrow> bool \<Rightarrow> coded_output \<Rightarrow> coded_output run" where
  "WriteBool number value output =
     bind_run (Lite_WriteTag number WIRETYPE_VARINT output) (WriteBoolNoTag value)"

definition WriteEnum :: "int \<Rightarrow> uint32 \<Rightarrow> coded_output \<Rightarrow> coded_output run" where
  "WriteEnum number value output =
     bind_run (Lite_WriteTag number WIRETYPE_VARINT output) (WriteEnumNoTag value)"

section \<open>Writing one value to an array\<close>

definition WriteTagToArray_at :: "int \<Rightarrow> WireType \<Rightarrow> nat \<Rightarrow> byte list \<Rightarrow> (nat \<times> byte list) res" where
  "WriteTagToArray_at number ty target m = Co_WriteTagToArray (MakeTag number ty) target m"

text \<open>\<^verbatim>\<open>target = write(..., target); return next(target);\<close>\<close>

definition then_write ::
    "(nat \<times> byte list) res \<Rightarrow> (nat \<Rightarrow> byte list \<Rightarrow> (nat \<times> byte list) res) \<Rightarrow> (nat \<times> byte list) res" where
  "then_write r f = bind_res r (\<lambda>(target, m). f target m)"

definition WriteInt32NoTagToArray :: "uint32 \<Rightarrow> nat \<Rightarrow> byte list \<Rightarrow> (nat \<times> byte list) res" where
  "WriteInt32NoTagToArray value target m = WriteVarint32SignExtendedToArray value target m"

definition WriteInt64NoTagToArray :: "uint64 \<Rightarrow> nat \<Rightarrow> byte list \<Rightarrow> (nat \<times> byte list) res" where
  "WriteInt64NoTagToArray value target m = WriteVarint64ToArray value target m"

definition WriteUInt32NoTagToArray :: "uint32 \<Rightarrow> nat \<Rightarrow> byte list \<Rightarrow> (nat \<times> byte list) res" where
  "WriteUInt32NoTagToArray value target m = WriteVarint32ToArray value target m"

definition WriteUInt64NoTagToArray :: "uint64 \<Rightarrow> nat \<Rightarrow> byte list \<Rightarrow> (nat \<times> byte list) res" where
  "WriteUInt64NoTagToArray value target m = WriteVarint64ToArray value target m"

definition WriteSInt32NoTagToArray :: "uint32 \<Rightarrow> nat \<Rightarrow> byte list \<Rightarrow> (nat \<times> byte list) res" where
  "WriteSInt32NoTagToArray value target m = WriteVarint32ToArray (ZigZagEncode32 value) target m"

definition WriteSInt64NoTagToArray :: "uint64 \<Rightarrow> nat \<Rightarrow> byte list \<Rightarrow> (nat \<times> byte list) res" where
  "WriteSInt64NoTagToArray value target m = WriteVarint64ToArray (ZigZagEncode64 value) target m"

definition WriteFixed32NoTagToArray :: "uint32 \<Rightarrow> nat \<Rightarrow> byte list \<Rightarrow> (nat \<times> byte list) res" where
  "WriteFixed32NoTagToArray value target m = WriteLittleEndian32ToArray value target m"

definition WriteFixed64NoTagToArray :: "uint64 \<Rightarrow> nat \<Rightarrow> byte list \<Rightarrow> (nat \<times> byte list) res" where
  "WriteFixed64NoTagToArray value target m = WriteLittleEndian64ToArray value target m"

definition WriteSFixed32NoTagToArray :: "uint32 \<Rightarrow> nat \<Rightarrow> byte list \<Rightarrow> (nat \<times> byte list) res" where
  "WriteSFixed32NoTagToArray value target m = WriteLittleEndian32ToArray value target m"

definition WriteSFixed64NoTagToArray :: "uint64 \<Rightarrow> nat \<Rightarrow> byte list \<Rightarrow> (nat \<times> byte list) res" where
  "WriteSFixed64NoTagToArray value target m = WriteLittleEndian64ToArray value target m"

definition WriteFloatNoTagToArray :: "uint32 \<Rightarrow> nat \<Rightarrow> byte list \<Rightarrow> (nat \<times> byte list) res" where
  "WriteFloatNoTagToArray value target m = WriteLittleEndian32ToArray (EncodeFloat value) target m"

definition WriteDoubleNoTagToArray :: "uint64 \<Rightarrow> nat \<Rightarrow> byte list \<Rightarrow> (nat \<times> byte list) res" where
  "WriteDoubleNoTagToArray value target m = WriteLittleEndian64ToArray (EncodeDouble value) target m"

definition WriteBoolNoTagToArray :: "bool \<Rightarrow> nat \<Rightarrow> byte list \<Rightarrow> (nat \<times> byte list) res" where
  "WriteBoolNoTagToArray value target m = WriteVarint32ToArray (if value then 1 else 0) target m"

definition WriteEnumNoTagToArray :: "uint32 \<Rightarrow> nat \<Rightarrow> byte list \<Rightarrow> (nat \<times> byte list) res" where
  "WriteEnumNoTagToArray value target m = WriteVarint32SignExtendedToArray value target m"

definition WriteInt32ToArray :: "int \<Rightarrow> uint32 \<Rightarrow> nat \<Rightarrow> byte list \<Rightarrow> (nat \<times> byte list) res" where
  "WriteInt32ToArray number value target m =
     then_write (WriteTagToArray_at number WIRETYPE_VARINT target m) (WriteInt32NoTagToArray value)"

definition WriteInt64ToArray :: "int \<Rightarrow> uint64 \<Rightarrow> nat \<Rightarrow> byte list \<Rightarrow> (nat \<times> byte list) res" where
  "WriteInt64ToArray number value target m =
     then_write (WriteTagToArray_at number WIRETYPE_VARINT target m) (WriteInt64NoTagToArray value)"

definition WriteUInt32ToArray :: "int \<Rightarrow> uint32 \<Rightarrow> nat \<Rightarrow> byte list \<Rightarrow> (nat \<times> byte list) res" where
  "WriteUInt32ToArray number value target m =
     then_write (WriteTagToArray_at number WIRETYPE_VARINT target m) (WriteUInt32NoTagToArray value)"

definition WriteUInt64ToArray_at :: "int \<Rightarrow> uint64 \<Rightarrow> nat \<Rightarrow> byte list \<Rightarrow> (nat \<times> byte list) res" where
  "WriteUInt64ToArray_at number value target m =
     then_write (WriteTagToArray_at number WIRETYPE_VARINT target m) (WriteUInt64NoTagToArray value)"

definition WriteSInt32ToArray :: "int \<Rightarrow> uint32 \<Rightarrow> nat \<Rightarrow> byte list \<Rightarrow> (nat \<times> byte list) res" where
  "WriteSInt32ToArray number value target m =
     then_write (WriteTagToArray_at number WIRETYPE_VARINT target m) (WriteSInt32NoTagToArray value)"

definition WriteSInt64ToArray :: "int \<Rightarrow> uint64 \<Rightarrow> nat \<Rightarrow> byte list \<Rightarrow> (nat \<times> byte list) res" where
  "WriteSInt64ToArray number value target m =
     then_write (WriteTagToArray_at number WIRETYPE_VARINT target m) (WriteSInt64NoTagToArray value)"

definition WriteFixed32ToArray_at :: "int \<Rightarrow> uint32 \<Rightarrow> nat \<Rightarrow> byte list \<Rightarrow> (nat \<times> byte list) res" where
  "WriteFixed32ToArray_at number value target m =
     then_write (WriteTagToArray_at number WIRETYPE_FIXED32 target m) (WriteFixed32NoTagToArray value)"

definition WriteFixed64ToArray_at :: "int \<Rightarrow> uint64 \<Rightarrow> nat \<Rightarrow> byte list \<Rightarrow> (nat \<times> byte list) res" where
  "WriteFixed64ToArray_at number value target m =
     then_write (WriteTagToArray_at number WIRETYPE_FIXED64 target m) (WriteFixed64NoTagToArray value)"

definition WriteSFixed32ToArray :: "int \<Rightarrow> uint32 \<Rightarrow> nat \<Rightarrow> byte list \<Rightarrow> (nat \<times> byte list) res" where
  "WriteSFixed32ToArray number value target m =
     then_write (WriteTagToArray_at number WIRETYPE_FIXED32 target m) (WriteSFixed32NoTagToArray value)"

definition WriteSFixed64ToArray :: "int \<Rightarrow> uint64 \<Rightarrow> nat \<Rightarrow> byte list \<Rightarrow> (nat \<times> byte list) res" where
  "WriteSFixed64ToArray number value target m =
     then_write (WriteTagToArray_at number WIRETYPE_FIXED64 target m) (WriteSFixed64NoTagToArray value)"

definition WriteFloatToArray :: "int \<Rightarrow> uint32 \<Rightarrow> nat \<Rightarrow> byte list \<Rightarrow> (nat \<times> byte list) res" where
  "WriteFloatToArray number value target m =
     then_write (WriteTagToArray_at number WIRETYPE_FIXED32 target m) (WriteFloatNoTagToArray value)"

definition WriteDoubleToArray :: "int \<Rightarrow> uint64 \<Rightarrow> nat \<Rightarrow> byte list \<Rightarrow> (nat \<times> byte list) res" where
  "WriteDoubleToArray number value target m =
     then_write (WriteTagToArray_at number WIRETYPE_FIXED64 target m) (WriteDoubleNoTagToArray value)"

definition WriteBoolToArray :: "int \<Rightarrow> bool \<Rightarrow> nat \<Rightarrow> byte list \<Rightarrow> (nat \<times> byte list) res" where
  "WriteBoolToArray number value target m =
     then_write (WriteTagToArray_at number WIRETYPE_VARINT target m) (WriteBoolNoTagToArray value)"

definition WriteEnumToArray :: "int \<Rightarrow> uint32 \<Rightarrow> nat \<Rightarrow> byte list \<Rightarrow> (nat \<times> byte list) res" where
  "WriteEnumToArray number value target m =
     then_write (WriteTagToArray_at number WIRETYPE_VARINT target m) (WriteEnumNoTagToArray value)"

section \<open>Sizes\<close>

definition Int32Size :: "uint32 \<Rightarrow> nat" where "Int32Size value = VarintSize32SignExtended value"

definition Int64Size :: "uint64 \<Rightarrow> nat" where "Int64Size value = VarintSize64 value"

definition UInt32Size :: "uint32 \<Rightarrow> nat" where "UInt32Size value = VarintSize32 value"

definition UInt64Size :: "uint64 \<Rightarrow> nat" where "UInt64Size value = VarintSize64 value"

definition SInt32Size :: "uint32 \<Rightarrow> nat" where "SInt32Size value = VarintSize32 (ZigZagEncode32 value)"

definition SInt64Size :: "uint64 \<Rightarrow> nat" where "SInt64Size value = VarintSize64 (ZigZagEncode64 value)"

definition kFixed32Size :: nat where "kFixed32Size = 4"

definition kFixed64Size :: nat where "kFixed64Size = 8"

definition kSFixed32Size :: nat where "kSFixed32Size = 4"

definition kSFixed64Size :: nat where "kSFixed64Size = 8"

definition kFloatSize :: nat where "kFloatSize = 4"

definition kDoubleSize :: nat where "kDoubleSize = 8"

definition kBoolSize :: nat where "kBoolSize = 1"

definition EnumSize :: "uint32 \<Rightarrow> nat" where "EnumSize value = VarintSize32SignExtended value"

definition Int32SizePlusOne :: "uint32 \<Rightarrow> nat" where "Int32SizePlusOne value = VarintSize32SignExtendedPlusOne value"

definition Int64SizePlusOne :: "uint64 \<Rightarrow> nat" where "Int64SizePlusOne value = VarintSize64PlusOne value"

definition UInt32SizePlusOne :: "uint32 \<Rightarrow> nat" where "UInt32SizePlusOne value = VarintSize32PlusOne value"

definition UInt64SizePlusOne :: "uint64 \<Rightarrow> nat" where "UInt64SizePlusOne value = VarintSize64PlusOne value"

definition SInt32SizePlusOne :: "uint32 \<Rightarrow> nat" where "SInt32SizePlusOne value = VarintSize32PlusOne (ZigZagEncode32 value)"

definition SInt64SizePlusOne :: "uint64 \<Rightarrow> nat" where "SInt64SizePlusOne value = VarintSize64PlusOne (ZigZagEncode64 value)"

definition EnumSizePlusOne :: "uint32 \<Rightarrow> nat" where "EnumSizePlusOne value = VarintSize32SignExtendedPlusOne value"

definition LengthDelimitedSize :: "nat \<Rightarrow> nat" where
  "LengthDelimitedSize len = len + VarintSize32 (word_of_nat len)"

definition StringSize :: "byte list \<Rightarrow> nat" where "StringSize value = LengthDelimitedSize (length value)"
definition BytesSize :: "byte list \<Rightarrow> nat" where "BytesSize value = LengthDelimitedSize (length value)"

text \<open>A message counts with its \<^verbatim>\<open>ByteSizeLong\<close>.\<close>

definition GroupSize :: "nat \<Rightarrow> nat" where "GroupSize byte_size = byte_size"
definition MessageSize :: "nat \<Rightarrow> nat" where "MessageSize byte_size = LengthDelimitedSize byte_size"

section \<open>Repeated values\<close>

text \<open>\<^verbatim>\<open>do target = Writer(ii[i], target); while (++i < n);\<close> with \<open>k\<close> rounds to go.\<close>

fun write_loop ::
    "('v \<Rightarrow> nat \<Rightarrow> byte list \<Rightarrow> (nat \<times> byte list) res) \<Rightarrow> 'v repeated_field \<Rightarrow> int \<Rightarrow> nat \<Rightarrow> nat \<Rightarrow> byte list \<Rightarrow>
      (nat \<times> byte list) res"
where
  "write_loop Writer value i 0 target m = Inr (target, m)"
| "write_loop Writer value i (Suc k) target m =
     bind_res (get_element i value) (\<lambda>v.
     bind_res (Writer v target m) (\<lambda>(target1, m1). write_loop Writer value (i + 1) k target1 m1))"

definition WritePrimitiveNoTagToArray ::
    "('v \<Rightarrow> nat \<Rightarrow> byte list \<Rightarrow> (nat \<times> byte list) res) \<Rightarrow> 'v repeated_field \<Rightarrow> nat \<Rightarrow> byte list \<Rightarrow> (nat \<times> byte list) res"
where
  "WritePrimitiveNoTagToArray Writer value target m =
     write_loop Writer value 0 (nat (max 1 (rf_current_size value))) target m"

text \<open>
  On a little-endian machine the elements are copied as they lie in memory; \<open>layout\<close> is the
  memory of one element, a cell that was never written has none.
\<close>

definition element_bytes :: "('v \<Rightarrow> byte list) \<Rightarrow> 'v option list \<Rightarrow> byte list res" where
  "element_bytes layout cells =
     (if None \<in> set cells then Inl Uninitialised else Inr (concat (map (\<lambda>v. layout (the v)) cells)))"

definition WriteFixedNoTagToArray ::
    "('v \<Rightarrow> byte list) \<Rightarrow> 'v repeated_field \<Rightarrow> nat \<Rightarrow> byte list \<Rightarrow> (nat \<times> byte list) res" where
  "WriteFixedNoTagToArray layout value target m =
     bind_res (mem_read (rf_elements value) 0 (rf_current_size value)) (\<lambda>cells.
     bind_res (element_bytes layout cells) (\<lambda>bs. put target bs m))"

definition WritePrimitiveToArray ::
    "(int \<Rightarrow> 'v \<Rightarrow> nat \<Rightarrow> byte list \<Rightarrow> (nat \<times> byte list) res) \<Rightarrow> int \<Rightarrow> 'v repeated_field \<Rightarrow> nat \<Rightarrow> byte list \<Rightarrow>
      (nat \<times> byte list) res"
where
  "WritePrimitiveToArray Writer number value target m =
     (if rf_current_size value = 0 then Inr (target, m)
      else write_loop (Writer number) value 0 (nat (max 1 (rf_current_size value))) target m)"

text \<open>\<^verbatim>\<open>for (int i = 0; i < n; i++) out += Size(value.Get(i));\<close>\<close>

fun size_loop :: "('v \<Rightarrow> nat) \<Rightarrow> 'v repeated_field \<Rightarrow> int \<Rightarrow> nat \<Rightarrow> nat \<Rightarrow> nat res" where
  "size_loop Size value i 0 out = Inr out"
| "size_loop Size value i (Suc k) out =
     bind_res (RF_Get i value) (\<lambda>v. size_loop Size value (i + 1) k (out + Size v))"

definition repeated_size :: "('v \<Rightarrow> nat) \<Rightarrow> 'v repeated_field \<Rightarrow> nat res" where
  "repeated_size Size value = size_loop Size value 0 (nat (rf_current_size value)) 0"

text \<open>The vectorised forms of the same sums, on the elements' bit patterns.\<close>

definition size_steps :: "'w::len word \<Rightarrow> 'w word" where
  "size_steps x =
     (if x > 0x7F then 1 else 0) + (if x > 0x3FFF then 1 else 0) + (if x > 0x1FFFFF then 1 else 0) +
     (if x > 0xFFFFFFF then 1 else 0)"

fun varint_size_loop :: "bool \<Rightarrow> bool \<Rightarrow> uint32 list \<Rightarrow> uint32 \<Rightarrow> uint32 \<Rightarrow> uint32" where
  "varint_size_loop zigzag sign_extended [] acc msb_sum = (if sign_extended then acc + msb_sum * 5 else acc)"
| "varint_size_loop zigzag sign_extended (d # data) acc msb_sum =
     (let x = (if zigzag then ZigZagEncode32 d else d);
          msb = (if \<not> zigzag \<and> sign_extended then msb_sum + drop_bit 31 d else msb_sum) in
      varint_size_loop zigzag sign_extended data (acc + size_steps x) msb)"

definition VarintSize :: "bool \<Rightarrow> bool \<Rightarrow> uint32 list \<Rightarrow> nat" where
  "VarintSize zigzag sign_extended data =
     unat (varint_size_loop zigzag sign_extended data (word_of_nat (length data)) 0)"

fun varint_size64_loop :: "bool \<Rightarrow> uint64 list \<Rightarrow> uint64 \<Rightarrow> uint64" where
  "varint_size64_loop zigzag [] acc = acc"
| "varint_size64_loop zigzag (d # data) acc =
     (let x = (if zigzag then ZigZagEncode64 d else d);
          tmp = (if x \<ge> push_bit 35 1 then - 1 else 0 :: uint64);
          sum1 = acc + (5 AND tmp);
          x1 = drop_bit (unat (35 AND tmp)) x in
      varint_size64_loop zigzag data (sum1 + size_steps x1))"

definition Vector_VarintSize64 :: "bool \<Rightarrow> uint64 list \<Rightarrow> nat" where
  "Vector_VarintSize64 zigzag data = unat (varint_size64_loop zigzag data (word_of_nat (length data)))"

section \<open>Reading repeated fields\<close>

text \<open>
  A repeated field that is not packed: one value, then further ones as long as there is reserved room and
  the same tag follows in the buffer.
\<close>

fun repeated_loop ::
    "('s coded_input \<Rightarrow> ('v option \<times> 's coded_input) run) \<Rightarrow> uint32 \<Rightarrow> nat \<Rightarrow> 'v repeated_field \<Rightarrow> 's coded_input \<Rightarrow>
      (bool \<times> 'v repeated_field \<times> 's coded_input) run"
where
  "repeated_loop read tag 0 values c = ret (True, values, c)"
| "repeated_loop read tag (Suc k) values c =
     bind_run (Some (Ci_ExpectTag tag c)) (\<lambda>(b, c1).
       if \<not> b then ret (True, values, c1)
       else
         bind_run (read c1) (\<lambda>(r, c2).
           case r of
             None \<Rightarrow> ret (False, values, c2)
           | Some v \<Rightarrow> bind_run (Some (RF_AddAlreadyReserved v values)) (\<lambda>vs. repeated_loop read tag k vs c2)))"

definition ReadRepeatedPrimitive ::
    "int \<Rightarrow> ('s coded_input \<Rightarrow> ('v option \<times> 's coded_input) run) \<Rightarrow> uint32 \<Rightarrow> 'v repeated_field \<Rightarrow> 's coded_input \<Rightarrow>
      (bool \<times> 'v repeated_field \<times> 's coded_input) run"
where
  "ReadRepeatedPrimitive sz read tag values c =
     bind_run (read c) (\<lambda>(r, c1).
       case r of
         None \<Rightarrow> ret (False, values, c1)
       | Some v \<Rightarrow>
           bind_run (Some (RF_Add sz v values)) (\<lambda>vs.
             let elements_already_reserved = rf_total_size vs - rf_current_size vs in
             repeated_loop read tag (nat elements_already_reserved) vs c1))"

text \<open>\<^verbatim>\<open>ReadRepeatedFixedSizePrimitive\<close> reads the further ones from the buffer \<open>buf\<close> itself.\<close>

fun from_array_loop ::
    "(byte list \<Rightarrow> (nat \<times> 'v) res) \<Rightarrow> uint32 \<Rightarrow> nat \<Rightarrow> byte list \<Rightarrow> int \<Rightarrow> 'v repeated_field \<Rightarrow>
      (int \<times> 'v repeated_field) res"
where
  "from_array_loop from_array tag 0 buf num_read values = Inr (num_read, values)"
| "from_array_loop from_array tag (Suc k) buf num_read values =
     bind_res (ExpectTagFromArray buf tag) (\<lambda>t.
       case t of
         None \<Rightarrow> Inr (num_read, values)
       | Some n \<Rightarrow>
           bind_res (from_array (drop n buf)) (\<lambda>(k', v).
           bind_res (RF_AddAlreadyReserved v values) (\<lambda>vs.
             from_array_loop from_array tag k (drop k' (drop n buf)) (num_read + 1) vs)))"

definition ReadRepeatedFixedSizePrimitive ::
    "'s zero_copy_input \<Rightarrow> int \<Rightarrow> ('s coded_input \<Rightarrow> ('v option \<times> 's coded_input) run) \<Rightarrow>
      (byte list \<Rightarrow> (nat \<times> 'v) res) \<Rightarrow> int \<Rightarrow> uint32 \<Rightarrow> 'v repeated_field \<Rightarrow> 's coded_input \<Rightarrow>
      (bool \<times> 'v repeated_field \<times> 's coded_input) run"
where
  "ReadRepeatedFixedSizePrimitive Z sz read from_array tag_size tag values c =
     bind_run (read c) (\<lambda>(r, c1).
       case r of
         None \<Rightarrow> ret (False, values, c1)
       | Some v \<Rightarrow>
           bind_run (Some (RF_Add sz v values)) (\<lambda>vs.
             let (ptr, size) = Ci_GetDirectBufferPointerInline c1 in
             if size > 0 then
               let per_value_size = tag_size + sz;
                   elements_available = min (rf_total_size vs - rf_current_size vs) (size div per_value_size) in
               bind_run (Some (bind_res (at_buffer c1) (\<lambda>buf.
                   from_array_loop from_array tag (nat elements_available) buf 0 vs))) (\<lambda>(num_read, vs1).
                 let read_bytes = num_read * per_value_size in
                 if read_bytes > 0 then bind_run (Some (Ci_Skip Z read_bytes c1)) (\<lambda>(_, c2). ret (True, vs1, c2))
                 else ret (True, vs1, c1))
             else ret (True, vs, c1)))"

text \<open>
  The loop over a packed field, \<^verbatim>\<open>while (input->BytesUntilLimit() > 0)\<close>; \<open>add\<close> is what the
  caller does with a value.
\<close>

partial_function (option) packed_loop ::
    "('s coded_input \<Rightarrow> ('v option \<times> 's coded_input) run) \<Rightarrow> ('v \<Rightarrow> 't \<Rightarrow> 't run) \<Rightarrow> 't \<Rightarrow> 's coded_input \<Rightarrow>
      (bool \<times> 't \<times> 's coded_input) run"
where
  "packed_loop read add t c =
     (if Ci_BytesUntilLimit c > 0 then
        bind_run (read c) (\<lambda>(r, c1).
          case r of
            None \<Rightarrow> ret (False, t, c1)
          | Some v \<Rightarrow> bind_run (add v t) (\<lambda>t1. packed_loop read add t1 c1))
      else ret (True, t, c))"

definition ReadPackedPrimitive ::
    "'s zero_copy_input \<Rightarrow> int \<Rightarrow> ('s coded_input \<Rightarrow> ('v option \<times> 's coded_input) run) \<Rightarrow> 'v repeated_field \<Rightarrow>
      's coded_input \<Rightarrow> (bool \<times> 'v repeated_field \<times> 's coded_input) run"
where
  "ReadPackedPrimitive Z sz read values c =
     bind_run (Ci_ReadVarintSizeAsInt Z c) (\<lambda>(r, c1).
       case r of
         None \<Rightarrow> ret (False, values, c1)
       | Some len \<Rightarrow>
           (case Ci_PushLimit len c1 of
              (limit, c2) \<Rightarrow>
                bind_run (packed_loop read (\<lambda>v vs. Some (RF_Add sz v vs)) values c2) (\<lambda>(ok, vs, c3).
                  if \<not> ok then ret (False, vs, c3) else ret (True, vs, Ci_PopLimit limit c3))))"

text \<open>A packed field of fixed-size values; \<open>decode\<close> is the element that lies in \<open>sz\<close> bytes of memory.\<close>

fun read_loop ::
    "int \<Rightarrow> ('s coded_input \<Rightarrow> ('v option \<times> 's coded_input) run) \<Rightarrow> nat \<Rightarrow> 'v repeated_field \<Rightarrow> 's coded_input \<Rightarrow>
      (bool \<times> 'v repeated_field \<times> 's coded_input) run"
where
  "read_loop sz read 0 values c = ret (True, values, c)"
| "read_loop sz read (Suc k) values c =
     bind_run (read c) (\<lambda>(r, c1).
       case r of
         None \<Rightarrow> ret (False, values, c1)
       | Some v \<Rightarrow> bind_run (Some (RF_Add sz v values)) (\<lambda>vs. read_loop sz read k vs c1))"

fun memory_elements :: "nat \<Rightarrow> nat \<Rightarrow> (byte list \<Rightarrow> 'v) \<Rightarrow> byte list \<Rightarrow> 'v list" where
  "memory_elements 0 sz decode bs = []"
| "memory_elements (Suc n) sz decode bs = decode (take sz bs) # memory_elements n sz decode (drop sz bs)"

definition ReadPackedFixedSizePrimitive ::
    "'s zero_copy_input \<Rightarrow> int \<Rightarrow> 'v \<Rightarrow> (byte list \<Rightarrow> 'v) \<Rightarrow> ('s coded_input \<Rightarrow> ('v option \<times> 's coded_input) run) \<Rightarrow>
      'v repeated_field \<Rightarrow> 's coded_input \<Rightarrow> (bool \<times> 'v repeated_field \<times> 's coded_input) run"
where
  "ReadPackedFixedSizePrimitive Z sz zero decode read values c =
     bind_run (Ci_ReadVarintSizeAsInt Z c) (\<lambda>(r, c1).
       case r of
         None \<Rightarrow> ret (False, values, c1)
       | Some len \<Rightarrow>
           let old_entries = rf_current_size values; new_entries = len div sz; new_bytes = new_entries * sz in
           if new_bytes \<noteq> len then ret (False, values, c1)
           else
             let total_limit = BytesUntilTotalBytesLimit c1;
                 bytes_limit = (if total_limit = - 1 then Ci_BytesUntilLimit c1 else min total_limit (Ci_BytesUntilLimit c1)) in
             if bytes_limit \<ge> new_bytes then
               bind_run (Some (bind_res (checked (old_entries + new_entries)) (\<lambda>n. RF_Resize sz n zero values))) (\<lambda>vs.
               bind_run (Ci_ReadRaw Z new_bytes c1) (\<lambda>(ok, bs, c2).
                 if \<not> ok then ret (False, RF_Truncate old_entries vs, c2)
                 else
                   bind_run (Some (mem_write (rf_elements vs) old_entries
                       (map Some (memory_elements (nat new_entries) (nat sz) decode bs)))) (\<lambda>els.
                     ret (True, vs\<lparr>rf_elements := els\<rparr>, c2))))
             else read_loop sz read (nat new_entries) values c1)"

text \<open>Packed enums, whose unknown values go to the unknown fields: to a set or to a stream.\<close>

definition valid_enum :: "(uint32 \<Rightarrow> bool) option \<Rightarrow> uint32 \<Rightarrow> bool" where
  "valid_enum is_valid value \<longleftrightarrow> (case is_valid of None \<Rightarrow> True | Some f \<Rightarrow> f value)"

definition WF_ReadPackedEnumPreserveUnknowns ::
    "'s zero_copy_input \<Rightarrow> uint32 \<Rightarrow> (uint32 \<Rightarrow> bool) option \<Rightarrow> fields \<Rightarrow> uint32 repeated_field \<Rightarrow> 's coded_input \<Rightarrow>
      (bool \<times> (uint32 repeated_field \<times> fields) \<times> 's coded_input) run"
where
  "WF_ReadPackedEnumPreserveUnknowns Z number is_valid unknown_set values c =
     bind_run (Ci_ReadVarint32 Z c) (\<lambda>(r, c1).
       case r of
         None \<Rightarrow> ret (False, (values, unknown_set), c1)
       | Some len \<Rightarrow>
           (case Ci_PushLimit (sint len) c1 of
              (limit, c2) \<Rightarrow>
                bind_run (packed_loop (ReadPrimitive_ENUM Z)
                    (\<lambda>value (vs, fs).
                      if valid_enum is_valid value then bind_run (Some (RF_Add 4 value vs)) (\<lambda>vs1. ret (vs1, fs))
                      else ret (vs, AddVarint number (scast value) fs))
                    (values, unknown_set) c2) (\<lambda>(ok, t, c3).
                  if \<not> ok then ret (False, t, c3) else ret (True, t, Ci_PopLimit limit c3))))"

definition Lite_ReadPackedEnumPreserveUnknowns ::
    "'s zero_copy_input \<Rightarrow> int \<Rightarrow> (uint32 \<Rightarrow> bool) option \<Rightarrow> coded_output \<Rightarrow> uint32 repeated_field \<Rightarrow> 's coded_input \<Rightarrow>
      (bool \<times> (uint32 repeated_field \<times> coded_output) \<times> 's coded_input) run"
where
  "Lite_ReadPackedEnumPreserveUnknowns Z number is_valid unknown_fields_stream values c =
     bind_run (Ci_ReadVarint32 Z c) (\<lambda>(r, c1).
       case r of
         None \<Rightarrow> ret (False, (values, unknown_fields_stream), c1)
       | Some len \<Rightarrow>
           (case Ci_PushLimit (sint len) c1 of
              (limit, c2) \<Rightarrow>
                bind_run (packed_loop (ReadPrimitive_ENUM Z)
                    (\<lambda>value (vs, w).
                      if valid_enum is_valid value then bind_run (Some (RF_Add 4 value vs)) (\<lambda>vs1. ret (vs1, w))
                      else
                        bind_run (Co_WriteVarint32 (MakeTag number WIRETYPE_VARINT) w) (\<lambda>w1.
                        bind_run (Co_WriteVarint32 value w1) (\<lambda>w2. ret (vs, w2))))
                    (values, unknown_fields_stream) c2) (\<lambda>(ok, t, c3).
                  if \<not> ok then ret (False, t, c3) else ret (True, t, Ci_PopLimit limit c3))))"

section \<open>Strings and nested messages\<close>

definition ReadBytesToString ::
    "'s zero_copy_input \<Rightarrow> byte list \<Rightarrow> 's coded_input \<Rightarrow> (bool \<times> byte list \<times> 's coded_input) run" where
  "ReadBytesToString Z value c =
     bind_run (Ci_ReadVarint32 Z c) (\<lambda>(r, c1).
       case r of
         None \<Rightarrow> ret (False, value, c1)
       | Some len \<Rightarrow> Ci_ReadString Z (sint len) value c1)"

definition Lite_ReadBytes ::
    "'s zero_copy_input \<Rightarrow> byte list \<Rightarrow> 's coded_input \<Rightarrow> (bool \<times> byte list \<times> 's coded_input) run" where
  "Lite_ReadBytes Z value c = ReadBytesToString Z value c"

definition Lite_ReadString ::
    "'s zero_copy_input \<Rightarrow> byte list \<Rightarrow> 's coded_input \<Rightarrow> (bool \<times> byte list \<times> 's coded_input) run" where
  "Lite_ReadString Z value c = Lite_ReadBytes Z value c"

definition Lite_WriteString :: "int \<Rightarrow> byte list \<Rightarrow> coded_output \<Rightarrow> coded_output run" where
  "Lite_WriteString number value output =
     bind_run (Lite_WriteTag number WIRETYPE_LENGTH_DELIMITED output) (\<lambda>w.
       if \<not> int (length value) \<le> INT_MAX then Some (Inl FatalLog)
       else bind_run (Co_WriteVarint32 (word_of_nat (length value)) w) (Co_WriteString value))"

definition Lite_WriteBytes :: "int \<Rightarrow> byte list \<Rightarrow> coded_output \<Rightarrow> coded_output run" where
  "Lite_WriteBytes number value output =
     bind_run (Lite_WriteTag number WIRETYPE_LENGTH_DELIMITED output) (\<lambda>w.
       if \<not> int (length value) \<le> INT_MAX then Some (Inl FatalLog)
       else bind_run (Co_WriteVarint32 (word_of_nat (length value)) w) (Co_WriteString value))"

definition Lite_WriteStringToArray :: "int \<Rightarrow> byte list \<Rightarrow> nat \<Rightarrow> byte list \<Rightarrow> (nat \<times> byte list) res" where
  "Lite_WriteStringToArray number value target m =
     then_write (WriteTagToArray_at number WIRETYPE_LENGTH_DELIMITED target m) (WriteStringWithSizeToArray value)"

definition Lite_WriteBytesToArray :: "int \<Rightarrow> byte list \<Rightarrow> nat \<Rightarrow> byte list \<Rightarrow> (nat \<times> byte list) res" where
  "Lite_WriteBytesToArray number value target m =
     then_write (WriteTagToArray_at number WIRETYPE_LENGTH_DELIMITED target m) (WriteStringWithSizeToArray value)"

text \<open>\<open>merge\<close> is the message's \<^verbatim>\<open>MergePartialFromCodedStream\<close>.\<close>

definition ReadGroup ::
    "int \<Rightarrow> ('m \<Rightarrow> 's coded_input \<Rightarrow> (bool \<times> 'm \<times> 's coded_input) run) \<Rightarrow> 'm \<Rightarrow> 's coded_input \<Rightarrow>
      (bool \<times> 'm \<times> 's coded_input) run"
where
  "ReadGroup number merge value c =
     (case IncrementRecursionDepth c of
        (ok, c1) \<Rightarrow>
          if \<not> ok then ret (False, value, c1)
          else
            bind_run (merge value c1) (\<lambda>(ok, value1, c2).
              if \<not> ok then ret (False, value1, c2)
              else
                let c3 = UnsafeDecrementRecursionDepth c2 in
                ret (Ci_LastTagWas (MakeTag number WIRETYPE_END_GROUP) c3, value1, c3)))"

definition ReadMessage ::
    "'s zero_copy_input \<Rightarrow> ('m \<Rightarrow> 's coded_input \<Rightarrow> (bool \<times> 'm \<times> 's coded_input) run) \<Rightarrow> 'm \<Rightarrow> 's coded_input \<Rightarrow>
      (bool \<times> 'm \<times> 's coded_input) run"
where
  "ReadMessage Z merge value c =
     bind_run (Ci_ReadVarintSizeAsInt Z c) (\<lambda>(r, c1).
       case r of
         None \<Rightarrow> ret (False, value, c1)
       | Some len \<Rightarrow>
           (case IncrementRecursionDepthAndPushLimit len c1 of
              ((limit, budget), c2) \<Rightarrow>
                if budget < 0 then ret (False, value, c2)
                else
                  bind_run (merge value c2) (\<lambda>(ok, value1, c3).
                    if \<not> ok then ret (False, value1, c3)
                    else (case DecrementRecursionDepthAndPopLimit limit c3 of (b, c4) \<Rightarrow> ret (b, value1, c4)))))"

text \<open>\<open>serialize\<close> is the message's \<^verbatim>\<open>SerializeWithCachedSizes\<close>, \<open>cached_size\<close> its \<^verbatim>\<open>GetCachedSize\<close>.\<close>

definition WriteGroup :: "int \<Rightarrow> (coded_output \<Rightarrow> coded_output run) \<Rightarrow> coded_output \<Rightarrow> coded_output run" where
  "WriteGroup number serialize output =
     bind_run (Lite_WriteTag number WIRETYPE_START_GROUP output) (\<lambda>w1.
     bind_run (serialize w1) (\<lambda>w2. Lite_WriteTag number WIRETYPE_END_GROUP w2))"

definition WriteMessage :: "int \<Rightarrow> int \<Rightarrow> (coded_output \<Rightarrow> coded_output run) \<Rightarrow> coded_output \<Rightarrow> coded_output run" where
  "WriteMessage number cached_size serialize output =
     bind_run (Lite_WriteTag number WIRETYPE_LENGTH_DELIMITED output) (\<lambda>w1.
     bind_run (Co_WriteVarint32 (word_of_int cached_size) w1) serialize)"

section \<open>Field skippers\<close>

text \<open>The classes that forward to \<^verbatim>\<open>WireFormatLite\<close> and \<^verbatim>\<open>WireFormat\<close>; the first keeps nothing.\<close>

definition FieldSkipper_SkipField :: "nat \<Rightarrow> 's zero_copy_input \<Rightarrow> uint32 \<Rightarrow> 's coded_input \<Rightarrow> (bool \<times> 's coded_input) run" where
  "FieldSkipper_SkipField k Z tag c = Lite_SkipField k Z tag c"

definition FieldSkipper_SkipMessage :: "nat \<Rightarrow> 's zero_copy_input \<Rightarrow> 's coded_input \<Rightarrow> (bool \<times> 's coded_input) run" where
  "FieldSkipper_SkipMessage k Z c = Lite_SkipMessage k Z c"

definition FieldSkipper_SkipUnknownEnum :: "int \<Rightarrow> uint32 \<Rightarrow> unit" where
  "FieldSkipper_SkipUnknownEnum number value = ()"

definition CodedOutputStreamFieldSkipper_SkipField ::
    "nat \<Rightarrow> 's zero_copy_input \<Rightarrow> uint32 \<Rightarrow> 's coded_input \<Rightarrow> coded_output \<Rightarrow> (bool \<times> 's coded_input \<times> coded_output) run" where
  "CodedOutputStreamFieldSkipper_SkipField k Z tag c w = Lite_SkipField_to k Z tag c w"

definition CodedOutputStreamFieldSkipper_SkipMessage ::
    "nat \<Rightarrow> 's zero_copy_input \<Rightarrow> 's coded_input \<Rightarrow> coded_output \<Rightarrow> (bool \<times> 's coded_input \<times> coded_output) run" where
  "CodedOutputStreamFieldSkipper_SkipMessage k Z c w = Lite_SkipMessage_to k Z c w"

definition CodedOutputStreamFieldSkipper_SkipUnknownEnum :: "int \<Rightarrow> uint32 \<Rightarrow> coded_output \<Rightarrow> coded_output run" where
  "CodedOutputStreamFieldSkipper_SkipUnknownEnum number value w =
     bind_run (Co_WriteVarint32 (word_of_int number) w) (Co_WriteVarint64 (scast value))"

definition UnknownFieldSetFieldSkipper_SkipField ::
    "nat \<Rightarrow> 's zero_copy_input \<Rightarrow> uint32 \<Rightarrow> fields \<Rightarrow> 's coded_input \<Rightarrow> (bool \<times> fields option \<times> 's coded_input) run" where
  "UnknownFieldSetFieldSkipper_SkipField k Z tag fs c = WF_SkipField k Z tag (Some fs) c"

definition UnknownFieldSetFieldSkipper_SkipMessage ::
    "nat \<Rightarrow> 's zero_copy_input \<Rightarrow> fields \<Rightarrow> 's coded_input \<Rightarrow> (bool \<times> fields option \<times> 's coded_input) run" where
  "UnknownFieldSetFieldSkipper_SkipMessage k Z fs c = WF_SkipMessage k Z (Some fs) c"

definition UnknownFieldSetFieldSkipper_SkipUnknownEnum :: "int \<Rightarrow> uint32 \<Rightarrow> fields \<Rightarrow> fields" where
  "UnknownFieldSetFieldSkipper_SkipUnknownEnum number value fs = AddVarint (word_of_int number) (scast value) fs"

end
