(* ===== verification/Wire_Codecs.thy ===== *)
theory Wire_Codecs
  imports Wire_Types
begin

unbundle bit_operations_syntax

text \<open>
  What each scalar type of \<open>Wire_Types\<close> is on the wire: the laws of its encoding and of its
  writers are the locale \<open>wire_codec\<close>, those of its reader over any stream are \<open>wire_reader\<close>,
  and every type of the source is an instance of both. What holds for repeated and packed fields is
  proved once, in the locales.
\<close>

section \<open>Encodings\<close>

definition decode_varint :: "('w::len word \<Rightarrow> 'v) \<Rightarrow> byte list \<Rightarrow> (nat \<times> 'v) option" where
  "decode_varint f bs = map_option (\<lambda>(n, v). (n, f (word_of_nat v))) (varint_value 10 bs)"

definition decode_fixed :: "nat \<Rightarrow> ('w::len word \<Rightarrow> 'v) \<Rightarrow> byte list \<Rightarrow> (nat \<times> 'v) option" where
  "decode_fixed k f bs = (if k \<le> length bs then Some (k, f (word_of_nat (le_value (take k bs)))) else None)"

text \<open>The values of a packed field, up to a byte string that is not one; whether there was none.\<close>

fun decode_upto :: "nat \<Rightarrow> (byte list \<Rightarrow> (nat \<times> 'v) option) \<Rightarrow> byte list \<Rightarrow> 'v list \<times> bool" where
  "decode_upto 0 dec bs = ([], bs = [])"
| "decode_upto (Suc k) dec bs =
     (if bs = [] then ([], True)
      else
        (case dec bs of
           None \<Rightarrow> ([], False)
         | Some (n, v) \<Rightarrow> (case decode_upto k dec (drop n bs) of (vs, b) \<Rightarrow> (v # vs, b))))"

definition decode_all :: "(byte list \<Rightarrow> (nat \<times> 'v) option) \<Rightarrow> byte list \<Rightarrow> 'v list \<times> bool" where
  "decode_all dec bs = decode_upto (length bs) dec bs"

locale wire_decoder =
  fixes enc :: "'v \<Rightarrow> byte list"
    and dec :: "byte list \<Rightarrow> (nat \<times> 'v) option"
  assumes dec_enc: "dec (enc v @ bs) = Some (length (enc v), v)"
    and dec_bound: "dec bs = Some (n, v) \<Longrightarrow> 0 < n \<and> n \<le> length bs"
begin

lemma enc_nonempty: "0 < length (enc v)"
  using dec_enc [of v "[]"] dec_bound [of "enc v @ []" "length (enc v)" v] by simp

lemma decode_upto_fuel: "length bs \<le> k \<Longrightarrow> decode_upto k dec bs = decode_upto (length bs) dec bs"
proof (induction "length bs" arbitrary: k bs rule: less_induct)
  case less
  show ?case
  proof (cases "bs = []")
    case True
    then show ?thesis by (cases k) simp_all
  next
    case False
    obtain k' where k: "k = Suc k'" using less.prems False by (cases k) auto
    obtain l where l: "length bs = Suc l" using False by (cases bs) auto
    have "decode_upto k' dec (drop n bs) = decode_upto l dec (drop n bs)" if "dec bs = Some (n, v)" for n v
    proof -
      have "0 < n" using dec_bound [OF that] by simp
      then have d: "length (drop n bs) < length bs" "length (drop n bs) \<le> k'" "length (drop n bs) \<le> l"
        using l less.prems k by auto
      then show ?thesis using less.hyps [OF d(1)] by metis
    qed
    then show ?thesis using False by (auto simp: k l split: option.splits)
  qed
qed

lemma decode_all_Nil [simp]: "decode_all dec [] = ([], True)"
  by (simp add: decode_all_def)

lemma decode_all_step:
  assumes "bs \<noteq> []"
  shows "decode_all dec bs =
    (case dec bs of None \<Rightarrow> ([], False) | Some (n, v) \<Rightarrow> (case decode_all dec (drop n bs) of (vs, b) \<Rightarrow> (v # vs, b)))"
proof -
  obtain l where l: "length bs = Suc l" using assms by (cases bs) auto
  have "decode_upto l dec (drop n bs) = decode_upto (length (drop n bs)) dec (drop n bs)" if "dec bs = Some (n, v)" for n v
    using dec_bound [OF that] l by (intro decode_upto_fuel) auto
  then show ?thesis using assms by (auto simp: decode_all_def l split: option.splits)
qed

lemma decode_all_enc: "decode_all dec (concat (map enc vs)) = (vs, True)"
proof (induction vs)
  case Nil
  then show ?case by simp
next
  case (Cons v vs)
  have "enc v @ concat (map enc vs) \<noteq> []" using enc_nonempty [of v] by auto
  then show ?case using Cons by (simp add: decode_all_step dec_enc)
qed

lemma decode_all_length: "length (fst (decode_all dec bs)) \<le> length bs"
proof (induction "length bs" arbitrary: bs rule: less_induct)
  case less
  show ?case
  proof (cases "dec bs")
    case None
    then show ?thesis by (cases "bs = []") (simp_all add: decode_all_step)
  next
    case (Some r)
    obtain n v where r: "r = (n, v)" by fastforce
    have b: "0 < n" "n \<le> length bs" using dec_bound Some r by auto
    then have "length (fst (decode_all dec (drop n bs))) \<le> length (drop n bs)" by (intro less.hyps) simp
    with b Some r show ?thesis by (cases "decode_all dec (drop n bs)", cases "bs = []") (simp_all add: decode_all_step)
  qed
qed

end

text \<open>The writers: both write the encoding, the size is its length.\<close>

locale wire_codec = wire_decoder enc dec
  for enc :: "'v \<Rightarrow> byte list" and dec +
  fixes to_array :: "'v \<Rightarrow> nat \<Rightarrow> byte list \<Rightarrow> (nat \<times> byte list) res"
    and to_stream :: "'v \<Rightarrow> coded_output \<Rightarrow> coded_output run"
    and size_of :: "'v \<Rightarrow> nat"
  assumes to_array_law: "to_array v i m = put i (enc v) m"
    and to_stream_law: "\<exists>f. (\<forall>w. to_stream v w = with_cur f w) \<and> streams f (enc v)"
    and size_law: "size_of v = length (enc v)"
begin

lemma to_stream_carries:
  assumes "co_carries True R xs w"
  obtains w' where "to_stream v w = ret w'" "co_carries True R (xs @ enc v) w'"
proof -
  obtain f where f: "to_stream v w = with_cur f w" "streams f (enc v)" using to_stream_law [of v] by blast
  from with_cur_carries [OF f(2) assms] that f(1) show thesis by auto
qed

end

section \<open>The scalar types\<close>

lemma decode_varint_bytes:
  assumes "n < 2 ^ 64"
  shows "decode_varint f (varint_bytes n @ bs) = Some (length (varint_bytes n), f (word_of_nat n))"
proof -
  have "n < 128 ^ 10" using assms by simp
  then show ?thesis using varint_value_bytes [of n 10 bs] by (simp add: decode_varint_def)
qed

lemma decode_varint_bound: "decode_varint f bs = Some (n, v) \<Longrightarrow> 0 < n \<and> n \<le> length bs"
  using varint_value_bound [of 10 bs] by (auto simp: decode_varint_def)

lemma decode_fixed_bytes:
  assumes "k = LENGTH('w) div 8" and "8 * k = LENGTH('w)"
  shows "decode_fixed k f (le_bytes k (v :: 'w::len word) @ bs) = Some (k, f v)"
proof -
  have "(256 :: nat) ^ k = 2 ^ LENGTH('w)" unfolding assms(2) [symmetric] by (simp add: power_mult)
  then have "le_value (le_bytes k v) = unat v" using unsigned_less [of v] by (simp add: le_value_bytes)
  then show ?thesis by (simp add: decode_fixed_def)
qed

lemma decode_fixed_bound: "0 < k \<Longrightarrow> decode_fixed k f bs = Some (n, v) \<Longrightarrow> 0 < n \<and> n \<le> length bs"
  by (auto simp: decode_fixed_def split: if_splits)

lemma word_bounds:
  "unat (v :: uint32) < 2 ^ 64" "unat (w :: uint64) < 2 ^ 64"
  using unsigned_less [of v, where 'a = nat] unsigned_less [of w, where 'a = nat] by simp_all

lemma sign_extension_back: "(ucast (scast (v :: uint32) :: uint64) :: uint32) = v"
  by (rule bit_word_eqI) (simp add: bit_simps)

lemmas array_puts = WriteVarint32ToArray_def WriteVarint64ToArray_def UnsafeVarint_put WriteLittleEndian32ToArray_def
  WriteLittleEndian64ToArray_def WriteVarint32SignExtendedToArray_def

lemma stream_puts:
  "\<exists>f. (\<forall>x. Co_WriteVarint32 v x = with_cur f x) \<and> streams f (varint_bytes (unat v))"
  "\<exists>f. (\<forall>x. Co_WriteVarint64 w x = with_cur f x) \<and> streams f (varint_bytes (unat w))"
  "\<exists>f. (\<forall>x. Co_WriteVarint32SignExtended v x = with_cur f x) \<and> streams f (varint_bytes (unat (scast v :: uint64)))"
  "\<exists>f. (\<forall>x. Co_WriteLittleEndian32 v x = with_cur f x) \<and> streams f (le_bytes 4 v)"
  "\<exists>f. (\<forall>x. Co_WriteLittleEndian64 w x = with_cur f x) \<and> streams f (le_bytes 8 w)"
  using streams_calls
  by (auto simp: Co_WriteVarint32_def Co_WriteVarint64_def Co_WriteVarint32SignExtended_def
      Co_WriteLittleEndian32_def Co_WriteLittleEndian64_def)

lemmas size_puts = VarintSize32_length VarintSize64_length VarintSize32SignExtended_def
lemmas decode_puts = decode_varint_bytes [OF word_bounds(1)] decode_varint_bytes [OF word_bounds(2)] sign_extension_back
  decode_fixed_bytes ZigZag_decode_encode

definition enc_INT32 :: "uint32 \<Rightarrow> byte list" where "enc_INT32 v = varint_bytes (unat (scast v :: uint64))"
definition enc_INT64 :: "uint64 \<Rightarrow> byte list" where "enc_INT64 v = varint_bytes (unat v)"
definition enc_UINT32 :: "uint32 \<Rightarrow> byte list" where "enc_UINT32 v = varint_bytes (unat v)"
definition enc_UINT64 :: "uint64 \<Rightarrow> byte list" where "enc_UINT64 v = varint_bytes (unat v)"
definition enc_SINT32 :: "uint32 \<Rightarrow> byte list" where "enc_SINT32 v = varint_bytes (unat (ZigZagEncode32 v))"
definition enc_SINT64 :: "uint64 \<Rightarrow> byte list" where "enc_SINT64 v = varint_bytes (unat (ZigZagEncode64 v))"
definition enc_FIXED32 :: "uint32 \<Rightarrow> byte list" where "enc_FIXED32 v = le_bytes 4 v"
definition enc_FIXED64 :: "uint64 \<Rightarrow> byte list" where "enc_FIXED64 v = le_bytes 8 v"
definition enc_SFIXED32 :: "uint32 \<Rightarrow> byte list" where "enc_SFIXED32 v = le_bytes 4 v"
definition enc_SFIXED64 :: "uint64 \<Rightarrow> byte list" where "enc_SFIXED64 v = le_bytes 8 v"
definition enc_FLOAT :: "uint32 \<Rightarrow> byte list" where "enc_FLOAT v = le_bytes 4 v"
definition enc_DOUBLE :: "uint64 \<Rightarrow> byte list" where "enc_DOUBLE v = le_bytes 8 v"
definition enc_BOOL :: "bool \<Rightarrow> byte list" where "enc_BOOL v = varint_bytes (if v then 1 else 0)"
definition enc_ENUM :: "uint32 \<Rightarrow> byte list" where "enc_ENUM v = varint_bytes (unat (scast v :: uint64))"

definition dec_INT32 :: "byte list \<Rightarrow> (nat \<times> uint32) option" where "dec_INT32 = decode_varint (\<lambda>w :: uint32. w)"
definition dec_INT64 :: "byte list \<Rightarrow> (nat \<times> uint64) option" where "dec_INT64 = decode_varint (\<lambda>w :: uint64. w)"
definition dec_UINT32 :: "byte list \<Rightarrow> (nat \<times> uint32) option" where "dec_UINT32 = decode_varint (\<lambda>w :: uint32. w)"
definition dec_UINT64 :: "byte list \<Rightarrow> (nat \<times> uint64) option" where "dec_UINT64 = decode_varint (\<lambda>w :: uint64. w)"
definition dec_SINT32 :: "byte list \<Rightarrow> (nat \<times> uint32) option" where "dec_SINT32 = decode_varint ZigZagDecode32"
definition dec_SINT64 :: "byte list \<Rightarrow> (nat \<times> uint64) option" where "dec_SINT64 = decode_varint ZigZagDecode64"
definition dec_FIXED32 :: "byte list \<Rightarrow> (nat \<times> uint32) option" where "dec_FIXED32 = decode_fixed 4 (\<lambda>w :: uint32. w)"
definition dec_FIXED64 :: "byte list \<Rightarrow> (nat \<times> uint64) option" where "dec_FIXED64 = decode_fixed 8 (\<lambda>w :: uint64. w)"
definition dec_SFIXED32 :: "byte list \<Rightarrow> (nat \<times> uint32) option" where "dec_SFIXED32 = decode_fixed 4 (\<lambda>w :: uint32. w)"
definition dec_SFIXED64 :: "byte list \<Rightarrow> (nat \<times> uint64) option" where "dec_SFIXED64 = decode_fixed 8 (\<lambda>w :: uint64. w)"
definition dec_FLOAT :: "byte list \<Rightarrow> (nat \<times> uint32) option" where "dec_FLOAT = decode_fixed 4 (\<lambda>w :: uint32. w)"
definition dec_DOUBLE :: "byte list \<Rightarrow> (nat \<times> uint64) option" where "dec_DOUBLE = decode_fixed 8 (\<lambda>w :: uint64. w)"
definition dec_BOOL :: "byte list \<Rightarrow> (nat \<times> bool) option" where "dec_BOOL = decode_varint (\<lambda>w :: uint64. w \<noteq> 0)"
definition dec_ENUM :: "byte list \<Rightarrow> (nat \<times> uint32) option" where "dec_ENUM = decode_varint (\<lambda>w :: uint32. w)"

lemmas enc_defs = enc_INT32_def enc_INT64_def enc_UINT32_def enc_UINT64_def enc_SINT32_def enc_SINT64_def enc_FIXED32_def enc_FIXED64_def enc_SFIXED32_def enc_SFIXED64_def enc_FLOAT_def enc_DOUBLE_def enc_BOOL_def enc_ENUM_def
lemmas dec_defs = dec_INT32_def dec_INT64_def dec_UINT32_def dec_UINT64_def dec_SINT32_def dec_SINT64_def dec_FIXED32_def dec_FIXED64_def dec_SFIXED32_def dec_SFIXED64_def dec_FLOAT_def dec_DOUBLE_def dec_BOOL_def dec_ENUM_def
lemmas writer_defs = WriteInt32NoTagToArray_def WriteInt32NoTag_def WriteInt64NoTagToArray_def WriteInt64NoTag_def WriteUInt32NoTagToArray_def WriteUInt32NoTag_def WriteUInt64NoTagToArray_def WriteUInt64NoTag_def WriteSInt32NoTagToArray_def WriteSInt32NoTag_def WriteSInt64NoTagToArray_def WriteSInt64NoTag_def WriteFixed32NoTagToArray_def WriteFixed32NoTag_def WriteFixed64NoTagToArray_def WriteFixed64NoTag_def WriteSFixed32NoTagToArray_def WriteSFixed32NoTag_def WriteSFixed64NoTagToArray_def WriteSFixed64NoTag_def WriteFloatNoTagToArray_def WriteFloatNoTag_def WriteDoubleNoTagToArray_def WriteDoubleNoTag_def WriteBoolNoTagToArray_def WriteBoolNoTag_def WriteEnumNoTagToArray_def WriteEnumNoTag_def EncodeFloat_def EncodeDouble_def
lemmas size_defs = Int32Size_def Int64Size_def UInt32Size_def UInt64Size_def SInt32Size_def SInt64Size_def kFixed32Size_def kFixed64Size_def kSFixed32Size_def kSFixed64Size_def kFloatSize_def kDoubleSize_def kBoolSize_def EnumSize_def

interpretation int32: wire_codec enc_INT32 dec_INT32 WriteInt32NoTagToArray WriteInt32NoTag Int32Size
  by unfold_locales (auto simp: enc_defs dec_defs writer_defs size_defs array_puts size_puts decode_puts stream_puts
      dest: decode_varint_bound decode_fixed_bound [rotated])

interpretation int64: wire_codec enc_INT64 dec_INT64 WriteInt64NoTagToArray WriteInt64NoTag Int64Size
  by unfold_locales (auto simp: enc_defs dec_defs writer_defs size_defs array_puts size_puts decode_puts stream_puts
      dest: decode_varint_bound decode_fixed_bound [rotated])

interpretation uint32: wire_codec enc_UINT32 dec_UINT32 WriteUInt32NoTagToArray WriteUInt32NoTag UInt32Size
  by unfold_locales (auto simp: enc_defs dec_defs writer_defs size_defs array_puts size_puts decode_puts stream_puts
      dest: decode_varint_bound decode_fixed_bound [rotated])

interpretation uint64: wire_codec enc_UINT64 dec_UINT64 WriteUInt64NoTagToArray WriteUInt64NoTag UInt64Size
  by unfold_locales (auto simp: enc_defs dec_defs writer_defs size_defs array_puts size_puts decode_puts stream_puts
      dest: decode_varint_bound decode_fixed_bound [rotated])

interpretation sint32: wire_codec enc_SINT32 dec_SINT32 WriteSInt32NoTagToArray WriteSInt32NoTag SInt32Size
  by unfold_locales (auto simp: enc_defs dec_defs writer_defs size_defs array_puts size_puts decode_puts stream_puts
      dest: decode_varint_bound decode_fixed_bound [rotated])

interpretation sint64: wire_codec enc_SINT64 dec_SINT64 WriteSInt64NoTagToArray WriteSInt64NoTag SInt64Size
  by unfold_locales (auto simp: enc_defs dec_defs writer_defs size_defs array_puts size_puts decode_puts stream_puts
      dest: decode_varint_bound decode_fixed_bound [rotated])

interpretation fixed32: wire_codec enc_FIXED32 dec_FIXED32 WriteFixed32NoTagToArray WriteFixed32NoTag "\<lambda>v. kFixed32Size"
  by unfold_locales (auto simp: enc_defs dec_defs writer_defs size_defs array_puts size_puts decode_puts stream_puts
      dest: decode_varint_bound decode_fixed_bound [rotated])

interpretation fixed64: wire_codec enc_FIXED64 dec_FIXED64 WriteFixed64NoTagToArray WriteFixed64NoTag "\<lambda>v. kFixed64Size"
  by unfold_locales (auto simp: enc_defs dec_defs writer_defs size_defs array_puts size_puts decode_puts stream_puts
      dest: decode_varint_bound decode_fixed_bound [rotated])

interpretation sfixed32: wire_codec enc_SFIXED32 dec_SFIXED32 WriteSFixed32NoTagToArray WriteSFixed32NoTag "\<lambda>v. kSFixed32Size"
  by unfold_locales (auto simp: enc_defs dec_defs writer_defs size_defs array_puts size_puts decode_puts stream_puts
      dest: decode_varint_bound decode_fixed_bound [rotated])

interpretation sfixed64: wire_codec enc_SFIXED64 dec_SFIXED64 WriteSFixed64NoTagToArray WriteSFixed64NoTag "\<lambda>v. kSFixed64Size"
  by unfold_locales (auto simp: enc_defs dec_defs writer_defs size_defs array_puts size_puts decode_puts stream_puts
      dest: decode_varint_bound decode_fixed_bound [rotated])

interpretation float: wire_codec enc_FLOAT dec_FLOAT WriteFloatNoTagToArray WriteFloatNoTag "\<lambda>v. kFloatSize"
  by unfold_locales (auto simp: enc_defs dec_defs writer_defs size_defs array_puts size_puts decode_puts stream_puts
      dest: decode_varint_bound decode_fixed_bound [rotated])

interpretation double: wire_codec enc_DOUBLE dec_DOUBLE WriteDoubleNoTagToArray WriteDoubleNoTag "\<lambda>v. kDoubleSize"
  by unfold_locales (auto simp: enc_defs dec_defs writer_defs size_defs array_puts size_puts decode_puts stream_puts
      dest: decode_varint_bound decode_fixed_bound [rotated])

lemma bool_put: "enc_BOOL v = varint_bytes (unat ((if v then 1 else 0) :: uint32))" "length (enc_BOOL v) = 1"
  by (simp_all add: enc_BOOL_def varint_bytes_one)

interpretation bool: wire_codec enc_BOOL dec_BOOL WriteBoolNoTagToArray WriteBoolNoTag "\<lambda>v. kBoolSize"
proof (unfold_locales, goal_cases)
  case (1 v bs)
  then show ?case
    unfolding bool_put(2) using decode_varint_bytes [of "if v then 1 else 0" "\<lambda>w :: uint64. w \<noteq> 0" bs] bool_put(2) [of v]
    by (cases v) (simp_all add: dec_BOOL_def enc_BOOL_def)
next
  case (4 v)
  then show ?case unfolding bool_put(1) WriteBoolNoTag_def by (rule stream_puts(1))
next
  case (5 v)
  show ?case by (simp only: bool_put(2) kBoolSize_def)
qed (auto simp: bool_put(1) dec_BOOL_def writer_defs array_puts dest: decode_varint_bound)

interpretation enum: wire_codec enc_ENUM dec_ENUM WriteEnumNoTagToArray WriteEnumNoTag EnumSize
  by unfold_locales (auto simp: enc_defs dec_defs writer_defs size_defs array_puts size_puts decode_puts stream_puts
      dest: decode_varint_bound decode_fixed_bound [rotated])

end
