(* ===== verification/Wire_Readers.thy ===== *)
theory Wire_Readers
  imports Wire_Codecs
begin

unbundle bit_operations_syntax

text \<open>
  The typed readers over any stream that keeps the contract: every \<^verbatim>\<open>ReadPrimitive\<close> is the
  decoder of its type on the readable bytes, and the readers of packed and repeated fields follow from
  that, for all types at once.
\<close>

locale wire_reader = zero_copy_stream Z ok rest chunk budget + wire_decoder enc dec
  for Z :: "'s zero_copy_input" and ok rest chunk budget and enc :: "'v \<Rightarrow> byte list" and dec +
  fixes read :: "'s coded_input \<Rightarrow> ('v option \<times> 's coded_input) run"
  assumes read_law: "ci_ok ok chunk c \<Longrightarrow>
    \<exists>n c'. read c = ret (map_option snd (dec (ci_readable rest chunk c)), c') \<and> ci_reads ok rest chunk n c c' \<and>
      ci_marks c' = ci_marks c \<and> (\<forall>m v. dec (ci_readable rest chunk c) = Some (m, v) \<longrightarrow> n = m)"

section \<open>The readers of the scalar types\<close>

context zero_copy_stream
begin

lemma varint_reader:
  assumes "number_read c m (value_of (varint_value 10 (readable c)))"
  shows "\<exists>n c'. read_as f m = ret (map_option snd (decode_varint f (readable c)), c') \<and> reads n c c' \<and>
    ci_marks c' = ci_marks c \<and> (\<forall>k v. decode_varint f (readable c) = Some (k, v) \<longrightarrow> n = k)"
  using assms by (cases "varint_value 10 (readable c)") (auto simp: ci_number_def read_as_def decode_varint_def)

lemma fixed_reader:
  assumes "\<exists>c'. m = ret (if k \<le> length (readable c) then Some (word_of_nat (le_value (take k (readable c)))) else None, c') \<and>
    reads (min k (length (readable c))) c c' \<and> ci_marks c' = ci_marks c"
  shows "\<exists>n c'. read_as f m = ret (map_option snd (decode_fixed k f (readable c)), c') \<and> reads n c c' \<and>
    ci_marks c' = ci_marks c \<and> (\<forall>j v. decode_fixed k f (readable c) = Some (j, v) \<longrightarrow> n = j)"
  using assms by (cases "k \<le> length (readable c)") (auto simp: read_as_def decode_fixed_def min_def)

lemma read_as_id: "read_as (\<lambda>v. v) m = m"
  by (auto simp: read_as_def bind_run_def ret_def split: option.splits sum.splits)

lemmas primitive_readers =
  varint_reader [OF ReadVarint32_result] varint_reader [OF ReadVarint64_result]
  fixed_reader [OF ReadLittleEndian32_result] fixed_reader [OF ReadLittleEndian64_result]

end

lemmas reader_defs = ReadPrimitive_INT32_def ReadPrimitive_INT64_def ReadPrimitive_UINT32_def ReadPrimitive_UINT64_def ReadPrimitive_SINT32_def ReadPrimitive_SINT64_def ReadPrimitive_FIXED32_def ReadPrimitive_FIXED64_def ReadPrimitive_SFIXED32_def ReadPrimitive_SFIXED64_def ReadPrimitive_FLOAT_def ReadPrimitive_DOUBLE_def ReadPrimitive_BOOL_def ReadPrimitive_ENUM_def

sublocale zero_copy_stream \<subseteq> int32_reader: wire_reader Z ok rest chunk budget enc_INT32 dec_INT32 "ReadPrimitive_INT32 Z"
  by unfold_locales (use primitive_readers(1) in \<open>simp add: ReadPrimitive_INT32_def dec_INT32_def\<close>)

sublocale zero_copy_stream \<subseteq> int64_reader: wire_reader Z ok rest chunk budget enc_INT64 dec_INT64 "ReadPrimitive_INT64 Z"
  by unfold_locales (use primitive_readers(2) in \<open>simp add: ReadPrimitive_INT64_def dec_INT64_def\<close>)

sublocale zero_copy_stream \<subseteq> uint32_reader: wire_reader Z ok rest chunk budget enc_UINT32 dec_UINT32 "ReadPrimitive_UINT32 Z"
  by unfold_locales (use primitive_readers(1) [where f = "\<lambda>v. v"] in \<open>simp add: read_as_id ReadPrimitive_UINT32_def dec_UINT32_def\<close>)

sublocale zero_copy_stream \<subseteq> uint64_reader: wire_reader Z ok rest chunk budget enc_UINT64 dec_UINT64 "ReadPrimitive_UINT64 Z"
  by unfold_locales (use primitive_readers(2) [where f = "\<lambda>v. v"] in \<open>simp add: read_as_id ReadPrimitive_UINT64_def dec_UINT64_def\<close>)

sublocale zero_copy_stream \<subseteq> sint32_reader: wire_reader Z ok rest chunk budget enc_SINT32 dec_SINT32 "ReadPrimitive_SINT32 Z"
  by unfold_locales (use primitive_readers(1) in \<open>simp add: ReadPrimitive_SINT32_def dec_SINT32_def\<close>)

sublocale zero_copy_stream \<subseteq> sint64_reader: wire_reader Z ok rest chunk budget enc_SINT64 dec_SINT64 "ReadPrimitive_SINT64 Z"
  by unfold_locales (use primitive_readers(2) in \<open>simp add: ReadPrimitive_SINT64_def dec_SINT64_def\<close>)

sublocale zero_copy_stream \<subseteq> fixed32_reader: wire_reader Z ok rest chunk budget enc_FIXED32 dec_FIXED32 "ReadPrimitive_FIXED32 Z"
  by unfold_locales (use primitive_readers(3) [where f = "\<lambda>v. v"] in \<open>simp add: read_as_id ReadPrimitive_FIXED32_def dec_FIXED32_def\<close>)

sublocale zero_copy_stream \<subseteq> fixed64_reader: wire_reader Z ok rest chunk budget enc_FIXED64 dec_FIXED64 "ReadPrimitive_FIXED64 Z"
  by unfold_locales (use primitive_readers(4) [where f = "\<lambda>v. v"] in \<open>simp add: read_as_id ReadPrimitive_FIXED64_def dec_FIXED64_def\<close>)

sublocale zero_copy_stream \<subseteq> sfixed32_reader: wire_reader Z ok rest chunk budget enc_SFIXED32 dec_SFIXED32 "ReadPrimitive_SFIXED32 Z"
  by unfold_locales (use primitive_readers(3) in \<open>simp add: ReadPrimitive_SFIXED32_def dec_SFIXED32_def\<close>)

sublocale zero_copy_stream \<subseteq> sfixed64_reader: wire_reader Z ok rest chunk budget enc_SFIXED64 dec_SFIXED64 "ReadPrimitive_SFIXED64 Z"
  by unfold_locales (use primitive_readers(4) in \<open>simp add: ReadPrimitive_SFIXED64_def dec_SFIXED64_def\<close>)

sublocale zero_copy_stream \<subseteq> float_reader: wire_reader Z ok rest chunk budget enc_FLOAT dec_FLOAT "ReadPrimitive_FLOAT Z"
  by unfold_locales (use primitive_readers(3) [where f = "\<lambda>v. v"] in \<open>simp add: ReadPrimitive_FLOAT_def dec_FLOAT_def DecodeFloat_def [abs_def]\<close>)

sublocale zero_copy_stream \<subseteq> double_reader: wire_reader Z ok rest chunk budget enc_DOUBLE dec_DOUBLE "ReadPrimitive_DOUBLE Z"
  by unfold_locales (use primitive_readers(4) [where f = "\<lambda>v. v"] in \<open>simp add: ReadPrimitive_DOUBLE_def dec_DOUBLE_def DecodeDouble_def [abs_def]\<close>)

sublocale zero_copy_stream \<subseteq> bool_reader: wire_reader Z ok rest chunk budget enc_BOOL dec_BOOL "ReadPrimitive_BOOL Z"
  by unfold_locales (use primitive_readers(2) in \<open>simp add: ReadPrimitive_BOOL_def dec_BOOL_def\<close>)

sublocale zero_copy_stream \<subseteq> enum_reader: wire_reader Z ok rest chunk budget enc_ENUM dec_ENUM "ReadPrimitive_ENUM Z"
  by unfold_locales (use primitive_readers(1) in \<open>simp add: ReadPrimitive_ENUM_def dec_ENUM_def\<close>)

section \<open>Packed fields\<close>

text \<open>
  A length prefix as \<^verbatim>\<open>ReadVarintSizeAsInt\<close> reads it, and as \<^verbatim>\<open>ReadVarint32\<close> followed
  by the conversion to \<^verbatim>\<open>int\<close> does.
\<close>

definition size_prefix :: "nat \<Rightarrow> int option" where
  "size_prefix v =
     (if uint (word_of_nat v :: uint64) > INT_MAX then None else Some (uint (word_of_nat v :: uint64)))"

definition int_prefix :: "nat \<Rightarrow> int option" where
  "int_prefix v = Some (sint (word_of_nat v :: uint32))"

definition size_of_prefix :: "(nat \<times> nat) option \<Rightarrow> int option" where
  "size_of_prefix d = (case d of None \<Rightarrow> None | Some (n, v) \<Rightarrow> size_prefix v)"

lemmas prefix_defs = size_of_prefix_def size_prefix_def

context zero_copy_stream
begin

lemma ReadVarintSizeAsInt_result:
  assumes ok: "cok c"
  shows "\<exists>n c'. Ci_ReadVarintSizeAsInt Z c = ret (size_of_prefix (varint_value 10 (readable c)), c') \<and> reads n c c' \<and>
    ci_marks c' = ci_marks c \<and>
    (size_of_prefix (varint_value 10 (readable c)) \<noteq> None \<longrightarrow> takes (varint_value 10 (readable c)) n)"
proof (cases "0 < BufferSize c \<and> ci_window c ! 0 < 128")
  case True
  then have small: "0 < BufferSize c" "ci_window c ! 0 < 128" by simp_all
  have v: "varint_value 10 (readable c) = Some (1, unat (ci_window c ! 0))" using one_byte(1) [OF ok small] .
  have "uint (ci_window c ! 0) < 128" using small(2) by (simp add: word_less_def)
  moreover from this have up: "uint (ucast (ci_window c ! 0) :: uint64) = uint (ci_window c ! 0)"
      "uint (ucast (ci_window c ! 0) :: uint32) = uint (ci_window c ! 0)"
    by (simp_all add: unsigned_ucast_eq take_bit_int_eq_self)
  ultimately have "size_of_prefix (varint_value 10 (readable c)) = Some (uint (ci_window c ! 0))"
    by (simp add: v prefix_defs INT_MAX_def flip: ucast_byte)
  moreover have "Ci_ReadVarintSizeAsInt Z c = ret (Some (uint (ci_window c ! 0)), Advance 1 c)"
    using first_byte [OF ok] small by (simp add: Ci_ReadVarintSizeAsInt_def less_128_byte up)
  ultimately show ?thesis
    using Advance_reads(1) [OF ok, of 1 rest] Advance_reads(2) [OF ok, of 1] small(1) v by fastforce
next
  case False
  let ?d = "varint_value 10 (readable c)"
  let ?r = "case value_of ?d of None \<Rightarrow> - 1 | Some (v :: uint64) \<Rightarrow> if uint v > INT_MAX then - 1 else uint v"
  have e: "Ci_ReadVarintSizeAsInt Z c =
      bind_run (Ci_ReadVarintSizeAsIntFallback Z c) (\<lambda>(r, c1). ret (if r \<ge> 0 then Some r else None, c1))"
    using first_byte [OF ok] False by (auto simp: Ci_ReadVarintSizeAsInt_def less_128_byte)
  have conv: "(if ?r \<ge> 0 then Some ?r else None) = size_of_prefix ?d"
    by (cases ?d) (auto simp: prefix_defs split: if_splits)
  have "\<exists>n c'. Ci_ReadVarintSizeAsIntFallback Z c = ret (?r, c') \<and> reads n c c' \<and> ci_marks c' = ci_marks c \<and>
      (size_of_prefix ?d \<noteq> None \<longrightarrow> takes ?d n)"
  proof -
    obtain b where b: "varint_in_buffer c = Inr b" "b \<longrightarrow> 0 < BufferSize c \<and> ends_inside (ci_window c)"
      using varint_in_buffer_result [OF ok] by blast
    show ?thesis
    proof (cases b)
      case True
      with b have w: "0 < BufferSize c" "ends_inside (ci_window c)" by simp_all
      have fast: "bind_res (at_buffer c) ReadVarint64FromArray = Inr (varint_word ?d)"
        using fast_value(1) [OF ok w(2,1)] False w(1) by simp
      show ?thesis
      proof (cases ?d)
        case None
        then show ?thesis
          using b(1) True fast ci_reads_refl [OF ok, of rest]
          by (intro exI [of _ 0] exI [of _ c]) (simp add: Ci_ReadVarintSizeAsIntFallback_def varint_word_def)
      next
        case (Some r)
        obtain n v where r: "r = (n, v)" by fastforce
        have n: "int n \<le> BufferSize c" using fast_length [OF ok w(2)] Some r by simp
        let ?v = "word_of_nat v :: uint64"
        have run: "Ci_ReadVarintSizeAsIntFallback Z c =
            ret (if uint ?v > INT_MAX then (- 1, c) else (uint ?v, Advance (int n) c))"
          using b(1) True fast Some r by (simp add: Ci_ReadVarintSizeAsIntFallback_def varint_word_def)
        show ?thesis
        proof (cases "uint ?v > INT_MAX")
          case True
          then show ?thesis
            using run Some r ci_reads_refl [OF ok, of rest]
            by (intro exI [of _ 0] exI [of _ c]) (simp add: prefix_defs)
        next
          case False
          then show ?thesis
            using run Some r Advance_reads(1) [OF ok _ n, of rest] Advance_reads(2) [OF ok _ n]
            by (intro exI [of _ n] exI [of _ "Advance (int n) c"]) (simp add: prefix_defs)
        qed
      qed
    next
      case slow: False
      have big: "0 < BufferSize c \<longrightarrow> \<not> ci_window c ! 0 < 128" using False by simp
      obtain n c' where "Ci_ReadVarint64Fallback Z c = ret (value_of ?d, c')" "reads n c c'" "ci_marks c' = ci_marks c" "takes ?d n"
        using ReadVarint64Fallback_result [OF ok big] unfolding ci_number_def by blast
      then show ?thesis
        using slow b(1) by (intro exI [of _ n] exI [of _ c'])
          (simp add: Ci_ReadVarintSizeAsIntFallback_def Ci_ReadVarintSizeAsIntSlow_def)
    qed
  qed
  then show ?thesis unfolding e using conv by auto
qed

end

text \<open>
  \<open>add\<close> collects the values, fewer than \<open>N\<close>, in a state that \<open>R\<close> describes.
\<close>

definition collects :: "('v \<Rightarrow> 't \<Rightarrow> 't run) \<Rightarrow> ('t \<Rightarrow> 'v list \<Rightarrow> bool) \<Rightarrow> int \<Rightarrow> bool" where
  "collects add R N \<longleftrightarrow> (\<forall>t xs v. R t xs \<and> int (length xs) < N \<longrightarrow> (\<exists>t'. add v t = ret t' \<and> R t' (xs @ [v])))"

lemma collectsD:
  assumes "collects add R N" and "R t xs" and "int (length xs) < N"
  shows "\<exists>t'. add v t = ret t' \<and> R t' (xs @ [v])"
  using assms by (auto simp: collects_def)

lemma collects_Add: "0 < sz \<Longrightarrow> collects (\<lambda>v vs. Some (RF_Add sz v vs)) holds INT_MAX"
  unfolding collects_def using Add_holds by (fastforce simp: becomes_def ret_def)

text \<open>
  The reference for a packed field at position \<open>pos\<close> of a reader with the limit \<open>cur\<close>: the
  values, whether the field is accepted, and the bytes it takes. \<open>room\<close> is what \<^verbatim>\<open>BytesUntilLimit\<close>
  says once the length has been pushed: the enclosing limit when that is closer, and -1 when none is set
  and the length reaches the largest \<^verbatim>\<open>int\<close>, so that nothing is read.
\<close>

definition packed_room :: "int \<Rightarrow> int \<Rightarrow> int \<Rightarrow> int" where
  "packed_room cur pos len =
     (if 0 \<le> len \<and> len < cur - pos then len else if cur = INT_MAX then - 1 else cur - pos)"

definition packed_field ::
    "(nat \<Rightarrow> int option) \<Rightarrow> (byte list \<Rightarrow> (nat \<times> 'v) option) \<Rightarrow> int \<Rightarrow> int \<Rightarrow> byte list \<Rightarrow> 'v list \<times> bool \<times> nat" where
  "packed_field prefix dec cur pos bs =
     (case varint_value 10 bs of
        None \<Rightarrow> ([], False, 0)
      | Some (n, v) \<Rightarrow>
          (case prefix v of
             None \<Rightarrow> ([], False, 0)
           | Some len \<Rightarrow>
               let room = packed_room cur (pos + int n) len;
                   payload = (if len < 0 then drop n bs else take (nat len) (drop n bs)) in
               if room \<le> 0 then ([], True, n)
               else (fst (decode_all dec payload), snd (decode_all dec payload) \<and> int (length payload) = room,
                 n + length payload)))"

context wire_reader
begin

lemma room_readable: "cok c \<Longrightarrow> 0 < Ci_BytesUntilLimit c \<Longrightarrow> int (length (readable c)) \<le> Ci_BytesUntilLimit c"
  using room_nonneg [of ok chunk c] by (auto simp: Ci_BytesUntilLimit_def ci_readable_def ci_closest_def split: if_splits)

lemma reads_room:
  "reads n c c' \<Longrightarrow> Ci_BytesUntilLimit c' = (if ci_current_limit c = INT_MAX then - 1 else Ci_BytesUntilLimit c - int n)"
  by (auto simp: Ci_BytesUntilLimit_def ci_reads_def ci_config_def)

lemma dec_nothing: "dec [] = None"
  using dec_bound [of "[]"] by (cases "dec []") auto

lemma packed_loop_result:
  assumes add: "collects add R N"
  shows "cok c \<Longrightarrow> R t xs \<Longrightarrow> int (length xs) + int (length (readable c)) \<le> N \<Longrightarrow> 0 < Ci_BytesUntilLimit c \<Longrightarrow>
    \<exists>t' c'. packed_loop read add t c =
        ret (snd (decode_all dec (readable c)) \<and> int (length (readable c)) = Ci_BytesUntilLimit c, t', c') \<and>
      R t' (xs @ fst (decode_all dec (readable c))) \<and> ci_marks c' = ci_marks c \<and> cok c' \<and>
      (snd (decode_all dec (readable c)) \<and> int (length (readable c)) = Ci_BytesUntilLimit c \<longrightarrow>
        reads (length (readable c)) c c')"
proof (induction "length (readable c)" arbitrary: c t xs rule: less_induct)
  case less
  let ?bs = "readable c"
  obtain n c1 where rd: "read c = ret (map_option snd (dec ?bs), c1)" "reads n c c1" "ci_marks c1 = ci_marks c"
      "\<forall>m v. dec ?bs = Some (m, v) \<longrightarrow> n = m"
    using read_law [OF less.prems(1)] by blast
  have step: "packed_loop read add t c =
      (case dec ?bs of None \<Rightarrow> ret (False, t, c1) | Some (m, v) \<Rightarrow> bind_run (add v t) (\<lambda>t1. packed_loop read add t1 c1))"
    using less.prems(4) rd(1) by (subst packed_loop.simps) (auto split: option.splits)
  show ?case
  proof (cases "dec ?bs")
    case None
    then have "\<not> (snd (decode_all dec ?bs) \<and> int (length ?bs) = Ci_BytesUntilLimit c)" "fst (decode_all dec ?bs) = []"
      using less.prems(4) by (cases "?bs = []"; simp add: decode_all_step)+
    then show ?thesis using step None less.prems(2) rd(3) ci_reads_ok [OF rd(2)] by auto
  next
    case (Some r)
    obtain v where r: "r = (n, v)" using rd(4) Some by (cases r) auto
    have n: "0 < n" "n \<le> length ?bs" using dec_bound Some r by auto
    have lim: "ci_current_limit c \<noteq> INT_MAX" using less.prems(4) by (auto simp: Ci_BytesUntilLimit_def)
    have room: "Ci_BytesUntilLimit c1 = Ci_BytesUntilLimit c - int n" using reads_room [OF rd(2)] lim by simp
    have rest1: "readable c1 = drop n ?bs" using ci_reads_readable [OF rd(2)] .
    have "int (length xs) < N" using less.prems(3) n by linarith
    then obtain t1 where t1: "add v t = ret t1" "R t1 (xs @ [v])" using collectsD [OF add less.prems(2)] by blast
    have dec: "decode_all dec ?bs = (v # fst (decode_all dec (drop n ?bs)), snd (decode_all dec (drop n ?bs)))"
      using Some r n by (subst decode_all_step) (auto split: prod.splits)
    have run: "packed_loop read add t c = packed_loop read add t1 c1" using step Some r t1(1) by simp
    show ?thesis
    proof (cases "0 < Ci_BytesUntilLimit c1")
      case True
      have "length (readable c1) < length ?bs" "int (length (xs @ [v])) + int (length (readable c1)) \<le> N"
        using n less.prems(3) unfolding rest1 by auto
      from less.hyps [OF this(1) ci_reads_ok [OF rd(2)] t1(2) this(2) True]
      obtain t' c' where h: "packed_loop read add t1 c1 =
            ret (snd (decode_all dec (drop n ?bs)) \<and> int (length ?bs) - int n = Ci_BytesUntilLimit c - int n, t', c')"
          "R t' (xs @ [v] @ fst (decode_all dec (drop n ?bs)))" "ci_marks c' = ci_marks c1" "cok c'"
          "snd (decode_all dec (drop n ?bs)) \<and> int (length ?bs) - int n = Ci_BytesUntilLimit c - int n \<longrightarrow>
            reads (length ?bs - n) c1 c'"
        unfolding rest1 room using n(2) by (auto simp: of_nat_diff)
      have "reads (length ?bs) c c'" if "reads (length ?bs - n) c1 c'" using ci_reads_trans [OF rd(2) that] n(2) by simp
      then show ?thesis using h rd(3) unfolding run dec by auto
    next
      case False
      then have "packed_loop read add t1 c1 = ret (True, t1, c1)" by (subst packed_loop.simps) simp
      moreover have "n = length ?bs" "int (length ?bs) = Ci_BytesUntilLimit c"
        using False room room_readable [OF less.prems(1,4)] n(2) by auto
      ultimately show ?thesis using t1(2) rd(2,3) ci_reads_ok [OF rd(2)] unfolding run dec by simp
    qed
  qed
qed

lemma PushLimit_room:
  assumes "cok c" and "Ci_PushLimit len c = (old, c1)"
  shows "Ci_BytesUntilLimit c1 = packed_room (ci_current_limit c) (CurrentPosition c) len"
proof -
  have pos: "CurrentPosition c1 = CurrentPosition c" using PushLimit_result [OF assms(1), of len] assms(2) by auto
  have "ci_current_limit c \<le> INT_MAX" using assms(1) by (simp add: ci_ok_def)
  then have "ci_current_limit c1 =
      (if 0 \<le> len \<and> len < ci_current_limit c - CurrentPosition c then CurrentPosition c + len else ci_current_limit c)"
    using assms(2) by (auto simp: Ci_PushLimit_def Let_def RecomputeBufferLimits_def)
  then show ?thesis
    using \<open>ci_current_limit c \<le> INT_MAX\<close> by (auto simp: Ci_BytesUntilLimit_def packed_room_def pos)
qed

text \<open>From the length on.\<close>

lemma packed_payload:
  assumes add: "collects add R N"
    and c: "cok c" and push: "Ci_PushLimit len c = (limit, c2)"
    and t: "R t xs" and N: "int (length xs) + int (length (readable c)) \<le> N"
  defines "payload \<equiv> if len < 0 then readable c else take (nat len) (readable c)"
    and "space \<equiv> packed_room (ci_current_limit c) (CurrentPosition c) len"
  defines "good \<equiv> space \<le> 0 \<or> snd (decode_all dec payload) \<and> int (length payload) = space"
  shows "\<exists>t' c'. bind_run (packed_loop read add t c2) (\<lambda>(ok, t, c3).
      if \<not> ok then ret (False, t, c3) else ret (True, t, Ci_PopLimit limit c3)) = ret (good, t', c') \<and>
    R t' (xs @ (if space \<le> 0 then [] else fst (decode_all dec payload))) \<and> cok c' \<and>
    (good \<longrightarrow> reads (if space \<le> 0 then 0 else length payload) c c')"
proof -
  have space: "Ci_BytesUntilLimit c2 = space" using PushLimit_room [OF c push] by (simp add: space_def)
  have c2: "cok c2" "readable c2 = payload" using PushLimit_result [OF c, of len] push by (auto simp: payload_def)
  note pop = PopLimit_result(1) [OF c push]
  show ?thesis
  proof (cases "space \<le> 0")
    case True
    then have "packed_loop read add t c2 = ret (True, t, c2)" using space by (subst packed_loop.simps) simp
    then show ?thesis
      using True t pop [OF ci_reads_refl [OF c2(1)]] ci_reads_ok [OF pop [OF ci_reads_refl [OF c2(1)]]] by (simp add: good_def)
  next
    case False
    have "length payload \<le> length (readable c)" by (simp add: payload_def)
    then have "int (length xs) + int (length (readable c2)) \<le> N" "0 < Ci_BytesUntilLimit c2"
      using N False space unfolding c2(2) by auto
    from packed_loop_result [OF add c2(1) t this] obtain t' c3 where h: "packed_loop read add t c2 = ret (good, t', c3)"
        "R t' (xs @ fst (decode_all dec payload))" "cok c3" "good \<longrightarrow> reads (length payload) c2 c3"
      unfolding c2(2) space using False by (auto simp: good_def)
    then show ?thesis
      using False pop [of "length payload" c3] ci_reads_ok [OF pop [of "length payload" c3]] by (cases good) auto
  qed
qed

text \<open>With the length in front, for either way of reading it.\<close>

lemma packed_result:
  assumes add: "collects add R N"
    and c: "cok c" and t: "R t xs" and N: "int (length xs) + int (length (readable c)) \<le> N"
    and len: "getlen = ret (Option.bind (varint_value 10 (readable c)) (\<lambda>(n, v). prefix v), c1)" "reads n c c1"
      "\<forall>m v l. varint_value 10 (readable c) = Some (m, v) \<longrightarrow> prefix v = Some l \<longrightarrow> n = m"
  defines "pf \<equiv> packed_field prefix dec (ci_current_limit c) (CurrentPosition c) (readable c)"
  shows "\<exists>t' c'. bind_run getlen (\<lambda>(r, c1).
      case r of
        None \<Rightarrow> ret (False, t, c1)
      | Some len \<Rightarrow>
          (case Ci_PushLimit len c1 of
             (limit, c2) \<Rightarrow>
               bind_run (packed_loop read add t c2) (\<lambda>(ok, t, c3).
                 if \<not> ok then ret (False, t, c3) else ret (True, t, Ci_PopLimit limit c3)))) =
      ret (fst (snd pf), t', c') \<and> R t' (xs @ fst pf) \<and> cok c' \<and> (fst (snd pf) \<longrightarrow> reads (snd (snd pf)) c c')"
proof (cases "Option.bind (varint_value 10 (readable c)) (\<lambda>(n, v). prefix v)")
  case None
  then have "pf = ([], False, 0)"
    unfolding pf_def packed_field_def by (auto split: option.splits)
  then show ?thesis using None len(1,2) t ci_reads_ok [OF len(2)] by simp
next
  case (Some l)
  then obtain m v where v: "varint_value 10 (readable c) = Some (m, v)" "prefix v = Some l" by (auto simp: bind_eq_Some_conv)
  have m: "m = n" using len(3) v by simp
  note ok1 = ci_reads_ok [OF len(2)]
  obtain limit c2 where push: "Ci_PushLimit l c1 = (limit, c2)" by fastforce
  have c1: "ci_current_limit c1 = ci_current_limit c" "CurrentPosition c1 = CurrentPosition c + int n"
    "readable c1 = drop n (readable c)"
    using len(2) ci_reads_readable [OF len(2)] by (simp_all add: ci_reads_def ci_config_def)
  have "int (length xs) + int (length (readable c1)) \<le> N" using N unfolding c1(3) by simp
  note P = packed_payload [OF add ok1 push t this, unfolded c1]
  let ?payload = "if l < 0 then drop n (readable c) else take (nat l) (drop n (readable c))"
  let ?space = "packed_room (ci_current_limit c) (CurrentPosition c + int n) l"
  have pf: "pf = (if ?space \<le> 0 then ([], True, n) else (fst (decode_all dec ?payload),
      snd (decode_all dec ?payload) \<and> int (length ?payload) = ?space, n + length ?payload))"
    using v m by (simp add: pf_def packed_field_def Let_def)
  have run: "bind_run getlen (\<lambda>(r, c1).
      case r of
        None \<Rightarrow> ret (False, t, c1)
      | Some len \<Rightarrow>
          (case Ci_PushLimit len c1 of
             (limit, c2) \<Rightarrow>
               bind_run (packed_loop read add t c2) (\<lambda>(ok, t, c3).
                 if \<not> ok then ret (False, t, c3) else ret (True, t, Ci_PopLimit limit c3)))) =
    bind_run (packed_loop read add t c2) (\<lambda>(ok, t, c3).
      if \<not> ok then ret (False, t, c3) else ret (True, t, Ci_PopLimit limit c3))"
    using len(1) Some push by simp
  let ?good = "snd (decode_all dec ?payload) \<and> int (length ?payload) = ?space"
  let ?m = "bind_run (packed_loop read add t c2) (\<lambda>(ok, t, c3).
      if \<not> ok then ret (False, t, c3) else ret (True, t, Ci_PopLimit limit c3))"
  obtain t' c' where h: "?m = ret (?space \<le> 0 \<or> ?good, t', c')"
      "R t' (xs @ (if ?space \<le> 0 then [] else fst (decode_all dec ?payload)))" "cok c'"
      "?space \<le> 0 \<or> ?good \<longrightarrow> reads (if ?space \<le> 0 then 0 else length ?payload) c1 c'"
    using P by (elim exE conjE)
  have "fst (snd pf) = (?space \<le> 0 \<or> ?good)" "fst pf = (if ?space \<le> 0 then [] else fst (decode_all dec ?payload))"
    "snd (snd pf) = n + (if ?space \<le> 0 then 0 else length ?payload)" by (simp_all add: pf)
  then show ?thesis unfolding run using h(1-3) ci_reads_trans [OF len(2) h(4) [rule_format]] by auto
qed

lemma ReadPackedPrimitive_result:
  assumes c: "cok c" and h: "holds values xs" and sz: "0 < sz" and N: "int (length xs) + int (length (readable c)) \<le> INT_MAX"
  defines "pf \<equiv> packed_field size_prefix dec (ci_current_limit c) (CurrentPosition c) (readable c)"
  shows "\<exists>vs c'. ReadPackedPrimitive Z sz read values c = ret (fst (snd pf), vs, c') \<and> holds vs (xs @ fst pf) \<and>
      cok c' \<and> (fst (snd pf) \<longrightarrow> reads (snd (snd pf)) c c')"
proof -
  let ?d = "varint_value 10 (readable c)"
  have d: "size_of_prefix ?d = Option.bind ?d (\<lambda>(n, v). size_prefix v)" by (cases ?d) (auto simp: size_of_prefix_def)
  obtain n c1 where rd: "Ci_ReadVarintSizeAsInt Z c = ret (Option.bind ?d (\<lambda>(n, v). size_prefix v), c1)" "reads n c c1"
      "size_of_prefix ?d \<noteq> None \<longrightarrow> takes ?d n"
    using ReadVarintSizeAsInt_result [OF c] unfolding d by blast
  have n: "\<forall>m v l. ?d = Some (m, v) \<longrightarrow> size_prefix v = Some l \<longrightarrow> n = m" using rd(3) by (auto simp: size_of_prefix_def)
  show ?thesis
    unfolding pf_def ReadPackedPrimitive_def
    by (rule packed_result [OF collects_Add [OF sz] c h N rd(1,2) n])
qed

end

end
