(* ===== verification/Wire_Repeated.thy ===== *)
theory Wire_Repeated
  imports Wire_Readers
begin

unbundle bit_operations_syntax

text \<open>
  Repeated fields of \<open>Wire_Types\<close> as a whole: packed enums with unknown values, packed fixed-size
  values with their two paths, values that follow one another under the same tag, and the writers of
  repeated values, up to the round trips.
\<close>

section \<open>Packed enums\<close>

lemma read_as_bind:
  "bind_run m (\<lambda>(r, c). case r of None \<Rightarrow> f c | Some x \<Rightarrow> g (h x) c) =
    bind_run (read_as h m) (\<lambda>(r, c). case r of None \<Rightarrow> f c | Some x \<Rightarrow> g x c)"
  by (auto simp: read_as_def bind_run_def ret_def split: option.splits sum.splits)

text \<open>Known values go to the field, the others to a set of unknown fields.\<close>

definition enum_set :: "uint32 \<Rightarrow> (uint32 \<Rightarrow> bool) \<Rightarrow> uint32 list \<Rightarrow> fields \<Rightarrow> uint32 repeated_field \<times> fields \<Rightarrow> uint32 list \<Rightarrow> bool" where
  "enum_set number known ys fs t xs \<longleftrightarrow>
     holds (fst t) (ys @ filter known xs) \<and>
     snd t = fs @ map (\<lambda>v. TYPE_VARINT number (scast v)) (filter (\<lambda>v. \<not> known v) xs)"

lemma filter_less: "int (length xs) < INT_MAX - int (length ys) \<Longrightarrow> int (length (ys @ filter P xs)) < INT_MAX"
proof -
  assume "int (length xs) < INT_MAX - int (length ys)"
  moreover have "int (length (filter P xs)) \<le> int (length xs)" by simp
  ultimately have "int (length ys) + int (length (filter P xs)) < INT_MAX" by linarith
  then show ?thesis by simp
qed

lemma collects_enum_set:
  "collects (\<lambda>value (vs, us). if known value then bind_run (Some (RF_Add 4 value vs)) (\<lambda>vs1. ret (vs1, us))
      else ret (vs, AddVarint number (scast value) us)) (enum_set number known ys fs) (INT_MAX - int (length ys))"
  unfolding collects_def
proof (intro allI impI)
  fix t :: "uint32 repeated_field \<times> fields" and xs v
  assume a: "enum_set number known ys fs t xs \<and> int (length xs) < INT_MAX - int (length ys)"
  obtain vs us where t: "t = (vs, us)" by fastforce
  have h: "holds vs (ys @ filter known xs)" using a t by (simp add: enum_set_def)
  obtain vs' where "RF_Add 4 v vs = Inr vs'" "holds vs' ((ys @ filter known xs) @ [v])"
    using Add_holds [OF h, of 4 v] filter_less [of xs ys known] a by (auto simp: becomes_def)
  then show "\<exists>t'. (case t of (vs, us) \<Rightarrow> if known v then bind_run (Some (RF_Add 4 v vs)) (\<lambda>vs1. ret (vs1, us))
      else ret (vs, AddVarint number (scast v) us)) = ret t' \<and> enum_set number known ys fs t' (xs @ [v])"
    using a by (auto simp: t enum_set_def AddVarint_def)
qed

text \<open>Known values go to the field, the others to a stream.\<close>

definition enum_bytes :: "int \<Rightarrow> uint32 \<Rightarrow> byte list" where
  "enum_bytes number v = varint_bytes (unat (MakeTag number WIRETYPE_VARINT)) @ varint_bytes (unat v)"

definition enum_stream ::
    "int \<Rightarrow> (uint32 \<Rightarrow> bool) \<Rightarrow> uint32 list \<Rightarrow> nat \<Rightarrow> byte list \<Rightarrow> uint32 repeated_field \<times> coded_output \<Rightarrow> uint32 list \<Rightarrow> bool" where
  "enum_stream number known ys R bs t xs \<longleftrightarrow>
     holds (fst t) (ys @ filter known xs) \<and>
     co_carries True R (bs @ concat (map (enum_bytes number) (filter (\<lambda>v. \<not> known v) xs))) (snd t)"

lemma collects_enum_stream:
  "collects (\<lambda>value (vs, w). if known value then bind_run (Some (RF_Add 4 value vs)) (\<lambda>vs1. ret (vs1, w))
      else bind_run (Co_WriteVarint32 (MakeTag number WIRETYPE_VARINT) w) (\<lambda>w1.
        bind_run (Co_WriteVarint32 value w1) (\<lambda>w2. ret (vs, w2))))
    (enum_stream number known ys R bs) (INT_MAX - int (length ys))"
  unfolding collects_def
proof (intro allI impI)
  fix t :: "uint32 repeated_field \<times> coded_output" and xs v
  assume a: "enum_stream number known ys R bs t xs \<and> int (length xs) < INT_MAX - int (length ys)"
  obtain vs w where t: "t = (vs, w)" by fastforce
  have h: "holds vs (ys @ filter known xs)"
    and c: "co_carries True R (bs @ concat (map (enum_bytes number) (filter (\<lambda>v. \<not> known v) xs))) w"
    using a t by (simp_all add: enum_stream_def)
  obtain vs' where "RF_Add 4 v vs = Inr vs'" "holds vs' ((ys @ filter known xs) @ [v])"
    using Add_holds [OF h, of 4 v] filter_less [of xs ys known] a by (auto simp: becomes_def)
  moreover obtain w1 where w1: "run_call (Put_Varint32 (MakeTag number WIRETYPE_VARINT)) w = ret w1"
      "co_carries True R ((bs @ concat (map (enum_bytes number) (filter (\<lambda>v. \<not> known v) xs))) @
        call_bytes (Put_Varint32 (MakeTag number WIRETYPE_VARINT))) w1"
    using c by (rule run_call_carries)
  moreover obtain w2 where "run_call (Put_Varint32 v) w1 = ret w2"
      "co_carries True R (((bs @ concat (map (enum_bytes number) (filter (\<lambda>v. \<not> known v) xs))) @
        call_bytes (Put_Varint32 (MakeTag number WIRETYPE_VARINT))) @ call_bytes (Put_Varint32 v)) w2"
    using w1(2) by (rule run_call_carries)
  ultimately show "\<exists>t'. (case t of (vs, w) \<Rightarrow> if known v then bind_run (Some (RF_Add 4 v vs)) (\<lambda>vs1. ret (vs1, w))
      else bind_run (Co_WriteVarint32 (MakeTag number WIRETYPE_VARINT) w) (\<lambda>w1.
        bind_run (Co_WriteVarint32 v w1) (\<lambda>w2. ret (vs, w2)))) = ret t' \<and> enum_stream number known ys R bs t' (xs @ [v])"
    using a by (auto simp: t enum_stream_def enum_bytes_def)
qed

context zero_copy_stream
begin

lemma int_prefix_read:
  assumes "cok c"
  shows "\<exists>n c'. read_as sint (Ci_ReadVarint32 Z c) =
      ret (Option.bind (varint_value 10 (readable c)) (\<lambda>(n, v). int_prefix v), c') \<and> reads n c c' \<and>
    (\<forall>m v l. varint_value 10 (readable c) = Some (m, v) \<longrightarrow> int_prefix v = Some l \<longrightarrow> n = m)"
  using ReadVarint32_result [OF assms] by (cases "varint_value 10 (readable c)") (auto simp: ci_number_def read_as_def int_prefix_def)

lemma ReadPackedEnum_set:
  assumes c: "cok c" and h: "holds values ys" and N: "int (length ys) + int (length (readable c)) \<le> INT_MAX"
  defines "pf \<equiv> packed_field int_prefix dec_ENUM (ci_current_limit c) (CurrentPosition c) (readable c)"
  shows "\<exists>t c'. WF_ReadPackedEnumPreserveUnknowns Z number is_valid fs values c = ret (fst (snd pf), t, c') \<and>
    enum_set number (valid_enum is_valid) ys fs t (fst pf) \<and> cok c' \<and> (fst (snd pf) \<longrightarrow> reads (snd (snd pf)) c c')"
proof -
  obtain n c1 where rd: "read_as sint (Ci_ReadVarint32 Z c) =
        ret (Option.bind (varint_value 10 (readable c)) (\<lambda>(n, v). int_prefix v), c1)" "reads n c c1"
        "\<forall>m v l. varint_value 10 (readable c) = Some (m, v) \<longrightarrow> int_prefix v = Some l \<longrightarrow> n = m"
    using int_prefix_read [OF c] by blast
  have start: "enum_set number (valid_enum is_valid) ys fs (values, fs) []" using h by (simp add: enum_set_def)
  have N': "int (length ([] :: uint32 list)) + int (length (readable c)) \<le> INT_MAX - int (length ys)" using N by simp
  from enum_reader.packed_result [OF collects_enum_set c start N' rd] show ?thesis
    unfolding pf_def WF_ReadPackedEnumPreserveUnknowns_def read_as_bind [symmetric] by simp
qed

lemma ReadPackedEnum_stream:
  assumes c: "cok c" and h: "holds values ys" and w: "co_carries True R bs w"
    and N: "int (length ys) + int (length (readable c)) \<le> INT_MAX"
  defines "pf \<equiv> packed_field int_prefix dec_ENUM (ci_current_limit c) (CurrentPosition c) (readable c)"
  shows "\<exists>t c'. Lite_ReadPackedEnumPreserveUnknowns Z number is_valid w values c = ret (fst (snd pf), t, c') \<and>
    enum_stream number (valid_enum is_valid) ys R bs t (fst pf) \<and> cok c' \<and> (fst (snd pf) \<longrightarrow> reads (snd (snd pf)) c c')"
proof -
  obtain n c1 where rd: "read_as sint (Ci_ReadVarint32 Z c) =
        ret (Option.bind (varint_value 10 (readable c)) (\<lambda>(n, v). int_prefix v), c1)" "reads n c c1"
        "\<forall>m v l. varint_value 10 (readable c) = Some (m, v) \<longrightarrow> int_prefix v = Some l \<longrightarrow> n = m"
    using int_prefix_read [OF c] by blast
  have start: "enum_stream number (valid_enum is_valid) ys R bs (values, w) []" using h w by (simp add: enum_stream_def)
  have N': "int (length ([] :: uint32 list)) + int (length (readable c)) \<le> INT_MAX - int (length ys)" using N by simp
  from enum_reader.packed_result [OF collects_enum_stream c start N' rd] show ?thesis
    unfolding pf_def Lite_ReadPackedEnumPreserveUnknowns_def read_as_bind [symmetric] by simp
qed

end

section \<open>Packed values of a fixed size\<close>

text \<open>
  The reference: \<open>total\<close> and \<open>cur\<close> are the two limits of the reader, \<open>pos\<close> its position. The values
  read before a failure are kept on the slow path only.
\<close>

definition until_limit :: "int \<Rightarrow> int \<Rightarrow> int" where
  "until_limit limit pos = (if limit = INT_MAX then - 1 else limit - pos)"

definition allocation_bound :: "int \<Rightarrow> int \<Rightarrow> int \<Rightarrow> int" where
  "allocation_bound tot cur pos =
     (if until_limit tot pos = - 1 then until_limit cur pos else min (until_limit tot pos) (until_limit cur pos))"

definition packed_fixed ::
    "nat \<Rightarrow> (byte list \<Rightarrow> (nat \<times> 'v) option) \<Rightarrow> int \<Rightarrow> int \<Rightarrow> int \<Rightarrow> byte list \<Rightarrow> 'v list \<times> bool \<times> nat" where
  "packed_fixed k dec tot cur pos bs =
     (case varint_value 10 bs of
        None \<Rightarrow> ([], False, 0)
      | Some (n, v) \<Rightarrow>
          (case size_prefix v of
             None \<Rightarrow> ([], False, 0)
           | Some len \<Rightarrow>
               let payload = take (nat len) (drop n bs); complete = (length payload = nat len) in
               if nat len mod k \<noteq> 0 then ([], False, 0)
               else (if complete \<or> allocation_bound tot cur (pos + int n) < len then fst (decode_all dec payload) else [],
                 complete, n + nat len)))"

locale wire_fixed_reader = wire_reader Z ok rest chunk budget enc dec read
  for Z :: "'s zero_copy_input" and ok rest chunk budget and enc :: "'v \<Rightarrow> byte list" and dec read +
  fixes k :: nat and decode :: "byte list \<Rightarrow> 'v"
  assumes k_pos: "0 < k"
    and dec_law: "dec bs = (if k \<le> length bs then Some (k, decode (take k bs)) else None)"
begin

lemma memory_elements_all: "length bs = e * k \<Longrightarrow> decode_all dec bs = (memory_elements e k decode bs, True)"
proof (induction e arbitrary: bs)
  case 0
  then show ?case by simp
next
  case (Suc e)
  then have "bs \<noteq> []" "k \<le> length bs" "length (drop k bs) = e * k" using k_pos by auto
  then show ?case using Suc.IH [of "drop k bs"] by (simp add: decode_all_step dec_law [of bs])
qed

lemma length_memory_elements: "length (memory_elements e k decode bs) = e"
  by (induction e arbitrary: bs) simp_all

lemma decode_all_chunk:
  "decode_all dec (take (Suc e * k) bs) =
     (if k \<le> length bs
      then (decode (take k bs) # fst (decode_all dec (take (e * k) (drop k bs))), snd (decode_all dec (take (e * k) (drop k bs))))
      else ([], bs = []))"
proof (cases "k \<le> length bs")
  case True
  let ?t = "take (Suc e * k) bs"
  have "?t \<noteq> []" "take k ?t = take k bs" "drop k ?t = take (e * k) (drop k bs)" "k \<le> length ?t"
    using True k_pos by (auto simp: drop_take min_def)
  then show ?thesis using True by (simp add: decode_all_step dec_law [of ?t] split: prod.splits del: mult_Suc)
next
  case False
  then have "dec (take (Suc e * k) bs) = None" by (simp add: dec_law)
  then show ?thesis using False k_pos by (cases "bs = []") (simp_all add: decode_all_step del: mult_Suc)
qed

lemma read_loop_result:
  assumes sz: "0 < sz"
  shows "cok c \<Longrightarrow> holds vs0 xs \<Longrightarrow> int (length xs) + int e \<le> INT_MAX \<Longrightarrow>
    \<exists>vs c'. read_loop sz read e vs0 c = ret (e * k \<le> length (readable c), vs, c') \<and>
      holds vs (xs @ fst (decode_all dec (take (e * k) (readable c)))) \<and> cok c' \<and>
      (e * k \<le> length (readable c) \<longrightarrow> reads (e * k) c c')"
proof (induction e arbitrary: c vs0 xs)
  case 0
  then show ?case by (simp add: ci_reads_refl)
next
  case (Suc e)
  let ?bs = "readable c"
  obtain n c1 where rd: "read c = ret (map_option snd (dec ?bs), c1)" "reads n c c1" "\<forall>m v. dec ?bs = Some (m, v) \<longrightarrow> n = m"
    using read_law [OF Suc.prems(1)] by blast
  show ?case
  proof (cases "k \<le> length ?bs")
    case False
    then show ?thesis using rd Suc.prems(2) ci_reads_ok [OF rd(2)]
      by (simp add: dec_law [of ?bs] decode_all_chunk del: mult_Suc) simp
  next
    case True
    let ?v = "decode (take k ?bs)"
    have n: "n = k" "read c = ret (Some ?v, c1)" using rd True by (simp_all add: dec_law [of ?bs])
    obtain vs1 where vs1: "RF_Add sz ?v vs0 = Inr vs1" "holds vs1 (xs @ [?v])"
      using Add_holds [OF Suc.prems(2) sz, of ?v] Suc.prems(3) by (auto simp: becomes_def)
    have r1: "readable c1 = drop k ?bs" using ci_reads_readable [OF rd(2)] n by simp
    have len: "int (length (xs @ [?v])) + int e \<le> INT_MAX" using Suc.prems(3) by simp
    obtain vs c' where h: "read_loop sz read e vs1 c1 = ret (e * k \<le> length ?bs - k, vs, c')"
        "holds vs ((xs @ [?v]) @ fst (decode_all dec (take (e * k) (drop k ?bs))))" "cok c'"
        "e * k \<le> length ?bs - k \<longrightarrow> reads (e * k) c1 c'"
      using Suc.IH [OF ci_reads_ok [OF rd(2)] vs1(2) len] unfolding r1 by auto
    have "reads (k + e * k) c c'" if "e * k \<le> length ?bs - k" using ci_reads_trans [OF rd(2)] h(4) that n by simp
    then show ?thesis using h(1-3) n(2) vs1(1) True by (auto simp: le_diff_conv2 add.commute mult_Suc [of e k] decode_all_chunk [unfolded mult_Suc])
  qed
qed

lemma holds_same_size:
  "holds (r\<lparr>rf_elements := els, rf_current_size := n\<rparr>) ys \<Longrightarrow> rf_current_size r = n \<Longrightarrow> holds (r\<lparr>rf_elements := els\<rparr>) ys"
  by (simp add: holds_def)

lemma ReadPackedFixedSizePrimitive_result:
  assumes c: "cok c" and h: "holds values xs"
    and N: "\<And>n v l. varint_value 10 (readable c) = Some (n, v) \<Longrightarrow> size_prefix v = Some l \<Longrightarrow> int (length xs) + l div int k \<le> INT_MAX"
  defines "pf \<equiv> packed_fixed k dec (ci_total_bytes_limit c) (ci_current_limit c) (CurrentPosition c) (readable c)"
  shows "\<exists>vs c'. ReadPackedFixedSizePrimitive Z (int k) zero decode read values c = ret (fst (snd pf), vs, c') \<and>
    holds vs (xs @ fst pf) \<and> cok c' \<and> (fst (snd pf) \<longrightarrow> reads (snd (snd pf)) c c')"
proof -
  let ?bs = "readable c"
  obtain n c1 where rd: "Ci_ReadVarintSizeAsInt Z c = ret (size_of_prefix (varint_value 10 ?bs), c1)" "reads n c c1"
      "size_of_prefix (varint_value 10 ?bs) \<noteq> None \<longrightarrow> takes (varint_value 10 ?bs) n"
    using ReadVarintSizeAsInt_result [OF c] by blast
  show ?thesis
  proof (cases "size_of_prefix (varint_value 10 ?bs)")
    case None
    then have "pf = ([], False, 0)"
      unfolding pf_def packed_fixed_def by (auto simp: size_of_prefix_def split: option.splits)
    then show ?thesis using None rd(1) h ci_reads_ok [OF rd(2)] by (simp add: ReadPackedFixedSizePrimitive_def)
  next
    case (Some len)
    then obtain v where v: "varint_value 10 ?bs = Some (n, v)" "size_prefix v = Some len"
      using rd(3) by (auto simp: size_of_prefix_def split: option.splits)
    have len: "0 \<le> len" "len \<le> INT_MAX" using v(2) by (auto simp: size_prefix_def split: if_splits)
    define e where "e = nat len div k"
    have ie: "len div int k = int e" using len(1) by (simp add: e_def nat_div_distrib zdiv_int)
    let ?payload = "take (nat len) (drop n ?bs)"
    have c1: "ci_current_limit c1 = ci_current_limit c" "ci_total_bytes_limit c1 = ci_total_bytes_limit c"
      "CurrentPosition c1 = CurrentPosition c + int n" "readable c1 = drop n ?bs" "cok c1"
      using rd(2) ci_reads_readable [OF rd(2)] by (simp_all add: ci_reads_def ci_config_def)
    let ?bound = "allocation_bound (ci_total_bytes_limit c) (ci_current_limit c) (CurrentPosition c + int n)"
    have bound: "(if BytesUntilTotalBytesLimit c1 = - 1 then Ci_BytesUntilLimit c1
        else min (BytesUntilTotalBytesLimit c1) (Ci_BytesUntilLimit c1)) = ?bound"
      by (simp add: allocation_bound_def until_limit_def BytesUntilTotalBytesLimit_def Ci_BytesUntilLimit_def c1)
    have code: "ReadPackedFixedSizePrimitive Z (int k) zero decode read values c =
        (if int e * int k \<noteq> len then ret (False, values, c1)
         else if ?bound \<ge> len then
           bind_run (Some (bind_res (checked (rf_current_size values + int e)) (\<lambda>n. RF_Resize (int k) n zero values))) (\<lambda>vs.
           bind_run (Ci_ReadRaw Z len c1) (\<lambda>(ok, bs, c2).
             if \<not> ok then ret (False, RF_Truncate (rf_current_size values) vs, c2)
             else
               bind_run (Some (mem_write (rf_elements vs) (rf_current_size values)
                   (map Some (memory_elements e k decode bs)))) (\<lambda>els. ret (True, vs\<lparr>rf_elements := els\<rparr>, c2))))
         else read_loop (int k) read e values c1)"
      using rd(1) Some by (simp add: ReadPackedFixedSizePrimitive_def Let_def ie bound del: of_nat_mult flip: of_nat_mult cong: if_cong)
    have div: "len = int e * int k \<longleftrightarrow> nat len mod k = 0"
      using len(1) ie by (metis dvd_div_mult_self dvd_triv_right e_def int_nat_eq mod_0_imp_dvd mod_mult_self2_is_0 mult.commute nat_int of_nat_mult)
    have pf: "pf = (if nat len mod k \<noteq> 0 then ([], False, 0)
        else (if length ?payload = nat len \<or> ?bound < len then fst (decode_all dec ?payload) else [],
          length ?payload = nat len, n + nat len))"
      unfolding pf_def packed_fixed_def using v by (simp add: Let_def)
    show ?thesis
    proof (cases "nat len mod k = 0")
      case False
      then show ?thesis using code div pf h c1(5) by (simp del: of_nat_mult)
    next
      case True
      then have lk: "len = int e * int k" using div by simp
      have pl: "?payload = take (e * k) (readable c1)" "nat len = e * k"
        using lk c1(4) by (simp_all add: nat_mult_distrib)
      have N': "int (length xs) + int e \<le> INT_MAX"
        using N [OF v] ie by simp
      have sz: "0 < int k" using k_pos by simp
      have pfk: "pf = (if e * k \<le> length (readable c1) \<or> ?bound < len then fst (decode_all dec ?payload) else [],
          e * k \<le> length (readable c1), n + nat len)"
      proof -
        have "length ?payload = nat len \<longleftrightarrow> e * k \<le> length (readable c1)" unfolding pl(1) unfolding pl(2) by auto
        then show ?thesis using pf True pl(2) by (simp only: if_False simp_thms)
      qed
      have code': "ReadPackedFixedSizePrimitive Z (int k) zero decode read values c =
        (if ?bound \<ge> len then
           bind_run (Some (bind_res (checked (rf_current_size values + int e)) (\<lambda>n. RF_Resize (int k) n zero values))) (\<lambda>vs.
           bind_run (Ci_ReadRaw Z len c1) (\<lambda>(ok, bs, c2).
             if \<not> ok then ret (False, RF_Truncate (rf_current_size values) vs, c2)
             else
               bind_run (Some (mem_write (rf_elements vs) (rf_current_size values)
                   (map Some (memory_elements e k decode bs)))) (\<lambda>els. ret (True, vs\<lparr>rf_elements := els\<rparr>, c2))))
         else read_loop (int k) read e values c1)"
        using code unfolding lk [symmetric] by simp
      show ?thesis
      proof (cases "?bound \<ge> len")
        case fast: True
        obtain vs where vs: "RF_Resize (int k) (int (length xs + e)) zero values = Inr vs" "holds vs (xs @ replicate e zero)"
          using Resize_holds [OF h sz, of "length xs + e" zero] N' by (auto simp: becomes_def)
        obtain c2 where c2: "Ci_ReadRaw Z len c1 = ret (len \<le> int (length (readable c1)), take (nat len) (readable c1), c2)"
            "reads (min (nat len) (length (readable c1))) c1 c2"
          using ReadRaw_result [OF c1(5) len(1)] by blast
        have chk: "checked (rf_current_size values + int e) = Inr (int (length xs + e))"
          using holds_size [OF h] N' checked_holds [of "int (length xs) + int e"] by simp
        show ?thesis
        proof (cases "e * k \<le> length (readable c1)")
          case ok: True
          obtain els where els: "mem_write (rf_elements vs) (int (length xs)) (map Some (memory_elements e k decode ?payload)) = Inr els"
              "holds (vs\<lparr>rf_elements := els\<rparr>) (xs @ memory_elements e k decode ?payload)"
            using cells_write [OF vs(2), of "length xs" "memory_elements e k decode ?payload"] holds_fits [OF vs(2)]
              holds_size [OF vs(2)] by (auto simp: length_memory_elements overwrite_def dest: holds_same_size)
          have "fst (decode_all dec ?payload) = memory_elements e k decode ?payload"
            using memory_elements_all [of ?payload e] ok unfolding pl(1) by simp
          moreover have "reads (n + nat len) c c2" using ci_reads_trans [OF rd(2)] c2(2) ok pl by (simp add: min_def)
          moreover have "len \<le> int (length (readable c1))" using ok lk by (simp flip: of_nat_mult)
          ultimately show ?thesis using code' fast vs(1) c2(1) chk els ok holds_size [OF h] ci_reads_ok [OF c2(2)] pl(2) unfolding pfk pl(1) by simp
        next
          case short: False
          have "holds (RF_Truncate (int (length xs)) vs) xs" using Truncate_holds [OF vs(2), of "length xs"] by simp
          then show ?thesis using code' fast vs(1) c2(1) chk short holds_size [OF h] ci_reads_ok [OF c2(2)] lk unfolding pfk by (simp flip: of_nat_mult)
        qed
      next
        case slow: False
        obtain vs c' where r: "read_loop (int k) read e values c1 = ret (e * k \<le> length (readable c1), vs, c')"
            "holds vs (xs @ fst (decode_all dec ?payload))" "cok c'" "e * k \<le> length (readable c1) \<longrightarrow> reads (e * k) c1 c'"
          using read_loop_result [OF sz c1(5) h N'] unfolding pl(1) by auto
        have "reads (n + nat len) c c'" if "e * k \<le> length (readable c1)" using ci_reads_trans [OF rd(2)] r(4) that pl by simp
        then show ?thesis using code' slow r(1-3) unfolding pfk by simp
      qed
    qed
  qed
qed

end

sublocale zero_copy_stream \<subseteq> fixed32_fixed: wire_fixed_reader Z ok rest chunk budget enc_FIXED32 dec_FIXED32 "ReadPrimitive_FIXED32 Z" 4 "\<lambda>bs. word_of_nat (le_value bs)"
  by unfold_locales (simp_all add: dec_FIXED32_def decode_fixed_def)

sublocale zero_copy_stream \<subseteq> fixed64_fixed: wire_fixed_reader Z ok rest chunk budget enc_FIXED64 dec_FIXED64 "ReadPrimitive_FIXED64 Z" 8 "\<lambda>bs. word_of_nat (le_value bs)"
  by unfold_locales (simp_all add: dec_FIXED64_def decode_fixed_def)

sublocale zero_copy_stream \<subseteq> sfixed32_fixed: wire_fixed_reader Z ok rest chunk budget enc_SFIXED32 dec_SFIXED32 "ReadPrimitive_SFIXED32 Z" 4 "\<lambda>bs. word_of_nat (le_value bs)"
  by unfold_locales (simp_all add: dec_SFIXED32_def decode_fixed_def)

sublocale zero_copy_stream \<subseteq> sfixed64_fixed: wire_fixed_reader Z ok rest chunk budget enc_SFIXED64 dec_SFIXED64 "ReadPrimitive_SFIXED64 Z" 8 "\<lambda>bs. word_of_nat (le_value bs)"
  by unfold_locales (simp_all add: dec_SFIXED64_def decode_fixed_def)

sublocale zero_copy_stream \<subseteq> float_fixed: wire_fixed_reader Z ok rest chunk budget enc_FLOAT dec_FLOAT "ReadPrimitive_FLOAT Z" 4 "\<lambda>bs. word_of_nat (le_value bs)"
  by unfold_locales (simp_all add: dec_FLOAT_def decode_fixed_def)

sublocale zero_copy_stream \<subseteq> double_fixed: wire_fixed_reader Z ok rest chunk budget enc_DOUBLE dec_DOUBLE "ReadPrimitive_DOUBLE Z" 8 "\<lambda>bs. word_of_nat (le_value bs)"
  by unfold_locales (simp_all add: dec_DOUBLE_def decode_fixed_def)

end
