(* ===== verification/Wire_Tagged.thy ===== *)
theory Wire_Tagged
  imports Wire_Repeated
begin

unbundle bit_operations_syntax

text \<open>
  Repeated fields that are not packed: values that follow one another, each under the same tag. The
  readers take one value and then further ones while the tag follows in the buffer and the field has
  reserved room; where they stop is up to the buffer, what they have read is not.
\<close>

section \<open>The tag that is expected\<close>

definition tag_code :: "uint32 \<Rightarrow> byte list" where
  "tag_code tag = varint_bytes (unat tag)"

lemma byte_of_tag: "(ucast (tag :: uint32) :: byte) = word_of_nat (unat tag)"
  by simp

lemma tag_one: "tag < 2 ^ 7 \<Longrightarrow> tag_code tag = [ucast tag]"
  by (simp add: tag_code_def varint_bytes.simps word_less_nat_alt)

lemma tag_two:
  assumes "\<not> tag < 2 ^ 7" and "tag < 2 ^ 14"
  shows "tag_code tag = [ucast (tag OR 0x80), ucast (drop_bit 7 tag)]"
proof -
  have n: "128 \<le> unat tag" "unat tag < 16384" using assms by (simp_all add: word_less_nat_alt)
  have a: "(ucast (tag OR 0x80) :: byte) = word_of_nat (unat tag) OR 0x80"
    unfolding ucast_to_byte [symmetric] by (rule bit_word_eqI) (simp add: bit_simps)
  have b: "(word_of_nat (unat tag div 128) :: byte) = ucast (drop_bit 7 tag)"
    unfolding ucast_to_byte by (simp only: unsigned_drop_bit_eq unsigned_take_bit_eq drop_bit_eq_div power_numeral) (simp add: unat_div)
  have "unat tag div 128 < 128" using n by (simp add: less_mult_imp_div_less)
  then show ?thesis
    unfolding tag_code_def varint_bytes_cons [OF n(1)] a by (simp only: varint_bytes_one b)
qed

lemma ucast_byte_back: "(ucast (ucast (b :: byte) :: uint32) :: byte) = b"
  by (rule bit_word_eqI) (simp add: bit_simps)

lemma tag_byte:
  assumes "tag < 2 ^ 7"
  shows "ucast b = tag \<longleftrightarrow> b = (ucast (tag :: uint32) :: byte)"
proof -
  have "ucast (ucast tag :: byte) = take_bit 8 tag" by (rule bit_word_eqI) (auto simp: bit_simps)
  also have "\<dots> = tag"
    using assms by (simp add: word_eq_iff_unsigned [where 'a = nat] word_less_nat_alt unsigned_take_bit_eq take_bit_nat_eq_self)
  finally show ?thesis by (metis ucast_byte_back)
qed

text \<open>
  \<^verbatim>\<open>ExpectTag\<close> says yes only when the bytes of the tag come next, and has then read them.
\<close>

context zero_copy_stream
begin

lemma window_prefix: "cok c \<Longrightarrow> 0 \<le> n \<Longrightarrow> n \<le> BufferSize c \<Longrightarrow> take (nat n) (ci_window c) = take (nat n) (readable c)"
  using window_readable by simp

lemma ExpectTag_result:
  assumes ok: "cok c"
  shows "\<exists>b c'. Ci_ExpectTag tag c = Inr (b, c') \<and> ci_marks c' = ci_marks c \<and>
    (b \<longrightarrow> take (length (tag_code tag)) (readable c) = tag_code tag \<and> reads (length (tag_code tag)) c c') \<and>
    (\<not> b \<longrightarrow> c' = c)"
proof (cases "tag < 2 ^ 7")
  case True
  show ?thesis
  proof (cases "0 < BufferSize c")
    case room: True
    have w: "take 1 (readable c) = [ci_window c ! 0]"
      using window_readable(1) [OF ok, of 1] length_ci_window [OF ok] room by (cases "ci_window c") auto
    have "ucast b = tag \<longleftrightarrow> b = ucast tag" for b :: byte by (rule tag_byte [OF True])
    then show ?thesis
      using True room w first_byte [OF ok] tag_one [OF True] Advance_reads(1) [OF ok, of 1 rest] Advance_reads(2) [OF ok, of 1]
      by (auto simp: Ci_ExpectTag_def)
  qed (use True first_byte [OF ok] in \<open>auto simp: Ci_ExpectTag_def\<close>)
next
  case big: False
  show ?thesis
  proof (cases "tag < 2 ^ 14 \<and> BufferSize c \<ge> 2")
    case True
    have "length (ci_window c) \<ge> 2" using length_ci_window [OF ok] True by arith
    then have w: "take 2 (ci_window c) = [ci_window c ! 0, ci_window c ! 1]"
      by (cases "ci_window c"; cases "tl (ci_window c)") auto
    moreover have "take 2 (readable c) = take 2 (ci_window c)" using window_readable(1) [OF ok, of 2] True by simp
    ultimately show ?thesis
      using True big copy_out_window [OF ok, of 2] tag_two [OF big] Advance_reads(1) [OF ok, of 2 rest] Advance_reads(2) [OF ok, of 2]
      by (auto simp: Ci_ExpectTag_def numeral_2_eq_2)
  qed (use big in \<open>auto simp: Ci_ExpectTag_def\<close>)
qed

end

section \<open>Tagged values\<close>

text \<open>
  The reference: after the values \<open>ws\<close> the reader has taken \<open>n\<close> of the bytes, each value
  after its tag; it stops at any point between two values, or fails at a tag whose value is malformed.
\<close>

inductive tagged :: "(byte list \<Rightarrow> (nat \<times> 'v) option) \<Rightarrow> byte list \<Rightarrow> byte list \<Rightarrow> 'v list \<Rightarrow> bool \<Rightarrow> nat \<Rightarrow> bool"
  for dec tagb where
  tagged_stop: "tagged dec tagb bs [] True 0"
| tagged_fail: "take (length tagb) bs = tagb \<Longrightarrow> dec (drop (length tagb) bs) = None \<Longrightarrow> tagged dec tagb bs [] False n"
| tagged_step: "take (length tagb) bs = tagb \<Longrightarrow> dec (drop (length tagb) bs) = Some (m, v) \<Longrightarrow>
    tagged dec tagb (drop (length tagb + m) bs) ws b n \<Longrightarrow> tagged dec tagb bs (v # ws) b (length tagb + m + n)"

inductive_cases tagged_Cons: "tagged dec tagb bs (v # ws) b n"

text \<open>The values of the writers, each after its tag, are read back in order, as far as the reader goes.\<close>

context wire_decoder
begin

lemma tagged_written:
  "tagged dec tagb (concat (map (\<lambda>v. tagb @ enc v) vs)) ws b n \<Longrightarrow> tagb \<noteq> [] \<Longrightarrow>
    b \<and> ws = take (length ws) vs \<and> drop n (concat (map (\<lambda>v. tagb @ enc v) vs)) = concat (map (\<lambda>v. tagb @ enc v) (drop (length ws) vs))"
proof (induction "concat (map (\<lambda>v. tagb @ enc v) vs)" ws b n arbitrary: vs rule: tagged.induct)
  case tagged_stop
  then show ?case by simp
next
  case (tagged_fail n)
  then show ?case using dec_enc by (cases vs) auto
next
  case (tagged_step m v ws b n)
  then obtain u us where vs: "vs = u # us" by (cases vs) auto
  then have d: "m = length (enc u)" "v = u" using tagged_step.hyps(2) dec_enc [of u "concat (map (\<lambda>v. tagb @ enc v) us)"] by auto
  have "drop (length tagb + m) (concat (map (\<lambda>v. tagb @ enc v) vs)) = concat (map (\<lambda>v. tagb @ enc v) us)" by (simp add: vs d)
  then show ?case
    using tagged_step.hyps(4) [of us] tagged_step.prems by (simp add: vs d add.assoc)
qed

end

context wire_reader
begin

lemma add_same_capacity: "RF_AddAlreadyReserved v r = Inr r' \<Longrightarrow> rf_total_size r' = rf_total_size r"
  by (auto simp: RF_AddAlreadyReserved_def put_element_def bind_res_def split: sum.splits)

lemma repeated_loop_result:
  "cok c \<Longrightarrow> holds vs0 xs \<Longrightarrow> length xs + k \<le> length (rf_elements vs0) \<Longrightarrow>
    \<exists>vs c' ws b n. repeated_loop read tag k vs0 c = ret (b, vs, c') \<and> tagged dec (tag_code tag) (readable c) ws b n \<and>
      holds vs (xs @ ws) \<and> cok c' \<and> (b \<longrightarrow> reads n c c')"
proof (induction k arbitrary: c vs0 xs)
  case 0
  then show ?case using tagged_stop ci_reads_refl by fastforce
next
  case (Suc k)
  let ?tl = "length (tag_code tag)"
  obtain b c1 where e: "Ci_ExpectTag tag c = Inr (b, c1)"
      "b \<longrightarrow> take ?tl (readable c) = tag_code tag \<and> reads ?tl c c1" "\<not> b \<longrightarrow> c1 = c"
    using ExpectTag_result [OF Suc.prems(1)] by blast
  show ?case
  proof (cases b)
    case False
    then show ?thesis using e Suc.prems tagged_stop ci_reads_refl by fastforce
  next
    case True
    have t: "take ?tl (readable c) = tag_code tag" "reads ?tl c c1" "readable c1 = drop ?tl (readable c)"
      using e(2) True ci_reads_readable by auto
    note ok1 = ci_reads_ok [OF t(2)]
    obtain n c2 where rd: "read c1 = ret (map_option snd (dec (readable c1)), c2)" "reads n c1 c2"
        "\<forall>m v. dec (readable c1) = Some (m, v) \<longrightarrow> n = m"
      using read_law [OF ok1] by blast
    show ?thesis
    proof (cases "dec (readable c1)")
      case None
      then have "tagged dec (tag_code tag) (readable c) [] False 0" using t by (intro tagged_fail) simp_all
      then show ?thesis using None e True rd Suc.prems(2) ci_reads_ok [OF rd(2)] by fastforce
    next
      case (Some r)
      then obtain v where r: "dec (readable c1) = Some (n, v)" using rd(3) by (cases r) auto
      obtain vs1 where a: "RF_AddAlreadyReserved v vs0 = Inr vs1" "holds vs1 (xs @ [v])"
        using AddAlreadyReserved_holds [OF Suc.prems(2), of v] Suc.prems(3) by (auto simp: becomes_def)
      have "length (rf_elements vs1) = length (rf_elements vs0)"
        using holds_total [OF Suc.prems(2)] holds_total [OF a(2)] add_same_capacity [OF a(1)] by simp
      then have "length (xs @ [v]) + k \<le> length (rf_elements vs1)" using Suc.prems(3) by simp
      from Suc.IH [OF ci_reads_ok [OF rd(2)] a(2) this]
      obtain vs c' ws b' n' where h: "repeated_loop read tag k vs1 c2 = ret (b', vs, c')"
          "tagged dec (tag_code tag) (readable c2) ws b' n'" "holds vs ((xs @ [v]) @ ws)" "cok c'" "b' \<longrightarrow> reads n' c2 c'"
        by blast
      have c2: "readable c2 = drop (?tl + n) (readable c)" "reads (?tl + n) c c2"
        using ci_reads_readable [OF rd(2)] t(3) ci_reads_trans [OF t(2) rd(2)] by (simp_all add: add.commute)
      have "tagged dec (tag_code tag) (readable c) (v # ws) b' (?tl + n + n')"
        using t r h(2) unfolding c2 by (intro tagged_step) simp_all
      moreover have "b' \<longrightarrow> reads (?tl + n + n') c c'" using ci_reads_trans [OF c2(2)] h(5) by blast
      ultimately show ?thesis using e True rd(1) r a(1) h(1,3,4) by fastforce
    qed
  qed
qed

lemma ReadRepeatedPrimitive_result:
  assumes c: "cok c" and h: "holds values xs" and sz: "0 < sz" and N: "int (length xs) < INT_MAX"
  shows "\<exists>vs c' ok n. ReadRepeatedPrimitive sz read tag values c = ret (ok, vs, c') \<and> cok c' \<and> (ok \<longrightarrow> reads n c c') \<and>
    (case dec (readable c) of
       None \<Rightarrow> \<not> ok \<and> vs = values
     | Some (k, v) \<Rightarrow> \<exists>ws m. tagged dec (tag_code tag) (drop k (readable c)) ws ok m \<and> n = k + m \<and> holds vs (xs @ v # ws))"
proof -
  obtain n c1 where rd: "read c = ret (map_option snd (dec (readable c)), c1)" "reads n c c1"
      "\<forall>m v. dec (readable c) = Some (m, v) \<longrightarrow> n = m"
    using read_law [OF c] by blast
  note ok1 = ci_reads_ok [OF rd(2)]
  show ?thesis
  proof (cases "dec (readable c)")
    case None
    then have "ReadRepeatedPrimitive sz read tag values c = ret (False, values, c1)"
      using rd(1) by (simp add: ReadRepeatedPrimitive_def)
    then show ?thesis using None ok1 by auto
  next
    case (Some r)
    then obtain v where r: "dec (readable c) = Some (n, v)" using rd(3) by (cases r) auto
    obtain vs1 where a: "RF_Add sz v values = Inr vs1" "holds vs1 (xs @ [v])"
      using Add_holds [OF h sz N, of v] by (auto simp: becomes_def)
    let ?k = "nat (rf_total_size vs1 - rf_current_size vs1)"
    have "length (xs @ [v]) + ?k \<le> length (rf_elements vs1)"
      using holds_total [OF a(2)] holds_size [OF a(2)] holds_fits [OF a(2)] by simp
    from repeated_loop_result [OF ok1 a(2) this, of tag]
    obtain vs c' ws b m where l: "repeated_loop read tag ?k vs1 c1 = ret (b, vs, c')"
        "tagged dec (tag_code tag) (drop n (readable c)) ws b m" "holds vs ((xs @ [v]) @ ws)" "cok c'" "b \<longrightarrow> reads m c1 c'"
      unfolding ci_reads_readable [OF rd(2)] by blast
    have "ReadRepeatedPrimitive sz read tag values c = ret (b, vs, c')"
      using rd(1) r a(1) l(1) by (simp add: ReadRepeatedPrimitive_def Let_def)
    moreover have "b \<longrightarrow> reads (n + m) c c'" using ci_reads_trans [OF rd(2)] l(5) by blast
    moreover have "holds vs (xs @ v # ws)" using l(3) by simp
    ultimately show ?thesis using r l(2,4) by auto
  qed
qed

text \<open>The values that the writers put down come back in order.\<close>

lemma ReadRepeatedPrimitive_written:
  assumes c: "cok c" and h: "holds values xs" and sz: "0 < sz" and N: "int (length xs) < INT_MAX"
    and bs: "readable c = enc v @ concat (map (\<lambda>v. tag_code tag @ enc v) vs)"
  shows "\<exists>r c' k n. ReadRepeatedPrimitive sz read tag values c = ret (True, r, c') \<and> holds r (xs @ v # take k vs) \<and>
    reads n c c' \<and> readable c' = concat (map (\<lambda>v. tag_code tag @ enc v) (drop k vs))"
proof -
  have d: "dec (readable c) = Some (length (enc v), v)" "drop (length (enc v)) (readable c) = concat (map (\<lambda>v. tag_code tag @ enc v) vs)"
    using dec_enc by (simp_all add: bs)
  obtain r c' b n ws m where e: "ReadRepeatedPrimitive sz read tag values c = ret (b, r, c')" "b \<longrightarrow> reads n c c'"
      "tagged dec (tag_code tag) (concat (map (\<lambda>v. tag_code tag @ enc v) vs)) ws b m" "n = length (enc v) + m" "holds r (xs @ v # ws)"
    using ReadRepeatedPrimitive_result [OF c h sz N, of tag] unfolding d option.case prod.case by blast
  have ne: "tag_code tag \<noteq> []" by (simp add: tag_code_def)
  from tagged_written [OF e(3) ne] have w: b "ws = take (length ws) vs"
      "drop m (concat (map (\<lambda>v. tag_code tag @ enc v) vs)) = concat (map (\<lambda>v. tag_code tag @ enc v) (drop (length ws) vs))"
    by blast+
  then have "readable c' = concat (map (\<lambda>v. tag_code tag @ enc v) (drop (length ws) vs))"
    using ci_reads_readable [OF e(2) [rule_format, OF w(1)]] e(4) by (simp add: bs)
  then show ?thesis using e(1,2,5) w(1,2) by metis
qed

end

section \<open>Fixed-size values, read from the buffer itself\<close>

lemma ExpectTagFromArray_result:
  assumes "length (tag_code tag) \<le> length p"
  shows "\<exists>t. ExpectTagFromArray p tag = Inr t \<and>
    (\<forall>n. t = Some n \<longrightarrow> n = length (tag_code tag) \<and> take n p = tag_code tag)"
proof -
  consider "tag < 2 ^ 7" | "\<not> tag < 2 ^ 7" "tag < 2 ^ 14" | "\<not> tag < 2 ^ 14" "\<not> tag < 2 ^ 7"
    by (auto simp: word_less_nat_alt)
  then show ?thesis
  proof cases
    case 1
    then obtain b q where "p = b # q" using assms tag_one by (cases p) auto
    then show ?thesis using 1 tag_one tag_byte [OF 1, of b] by (simp add: ExpectTagFromArray_def byte_at_def)
  next
    case 2
    then obtain b0 b1 q where "p = b0 # b1 # q" using assms tag_two by (cases p; cases "tl p") auto
    then show ?thesis using 2 tag_two [OF 2] by (auto simp: ExpectTagFromArray_def byte_at_def)
  next
    case 3
    then show ?thesis by (simp add: ExpectTagFromArray_def)
  qed
qed

text \<open>\<open>f\<close> takes an element of \<open>k\<close> bytes from the buffer.\<close>

definition takes_element :: "nat \<Rightarrow> (byte list \<Rightarrow> 'v) \<Rightarrow> (byte list \<Rightarrow> (nat \<times> 'v) res) \<Rightarrow> bool" where
  "takes_element k decode f \<longleftrightarrow> (\<forall>bs. k \<le> length bs \<longrightarrow> f bs = Inr (k, decode (take k bs)))"

context wire_fixed_reader
begin

lemma from_array_loop_result:
  assumes f: "takes_element k decode f" and p_def: "p = length (tag_code tag) + k"
  shows "holds vs0 xs \<Longrightarrow> length xs + e \<le> length (rf_elements vs0) \<Longrightarrow> e * p \<le> length buf \<Longrightarrow>
    take (e * p) bs = take (e * p) buf \<Longrightarrow> e * p \<le> length bs \<Longrightarrow>
    \<exists>vs ws. from_array_loop f tag e buf num vs0 = Inr (num + int (length ws), vs) \<and> holds vs (xs @ ws) \<and> length ws \<le> e \<and>
      tagged dec (tag_code tag) bs ws True (length ws * p)"
proof (induction e arbitrary: vs0 xs buf bs num)
  case 0
  then show ?case using tagged_stop by fastforce
next
  case (Suc e)
  let ?tl = "length (tag_code tag)"
  have len: "?tl + k \<le> length buf" "?tl + k \<le> length bs" "e * p \<le> length (drop p buf)" "e * p \<le> length (drop p bs)"
    using Suc.prems(3,5) by (simp_all add: p_def)
  have pre: "take (e * p) (drop p bs) = take (e * p) (drop p buf)" "take p bs = take p buf"
    using arg_cong [OF Suc.prems(4), of "drop p"] arg_cong [OF Suc.prems(4), of "take p"] by (simp_all add: drop_take)
  obtain t where t: "ExpectTagFromArray buf tag = Inr t" "\<forall>n. t = Some n \<longrightarrow> n = ?tl \<and> take n buf = tag_code tag"
    using ExpectTagFromArray_result [of tag buf] len(1) by auto
  show ?case
  proof (cases t)
    case None
    then show ?thesis using t(1) Suc.prems(1) tagged_stop by fastforce
  next
    case (Some n)
    then have n: "t = Some ?tl" "take ?tl buf = tag_code tag" using t(2) by auto
    let ?v = "decode (take k (drop ?tl buf))"
    have fv: "f (drop ?tl buf) = Inr (k, ?v)" using f len(1) by (simp add: takes_element_def)
    have "take ?tl (take p bs) = take ?tl (take p buf)" "take k (drop ?tl (take p bs)) = take k (drop ?tl (take p buf))"
      using pre(2) by simp_all
    then have same: "take ?tl bs = tag_code tag" "take k (drop ?tl bs) = take k (drop ?tl buf)"
      using n(2) by (simp_all add: p_def drop_take)
    obtain vs1 where a: "RF_AddAlreadyReserved ?v vs0 = Inr vs1" "holds vs1 (xs @ [?v])"
      using AddAlreadyReserved_holds [OF Suc.prems(1), of ?v] Suc.prems(2) by (auto simp: becomes_def)
    have "length (xs @ [?v]) + e \<le> length (rf_elements vs1)"
      using Suc.prems(2) holds_total [OF Suc.prems(1)] holds_total [OF a(2)] add_same_capacity [OF a(1)] by simp
    from Suc.IH [OF a(2) this len(3) pre(1) len(4), of "num + 1"]
    obtain vs ws where h: "from_array_loop f tag e (drop p buf) (num + 1) vs1 = Inr (num + 1 + int (length ws), vs)"
        "holds vs ((xs @ [?v]) @ ws)" "length ws \<le> e" "tagged dec (tag_code tag) (drop p bs) ws True (length ws * p)" by blast
    have "tagged dec (tag_code tag) bs (?v # ws) True (?tl + k + length ws * p)"
      using same len(2) h(4) by (intro tagged_step) (simp_all add: dec_law p_def add.commute)
    moreover have "from_array_loop f tag (Suc e) buf num vs0 = Inr (num + int (length (?v # ws)), vs)"
      using t(1) n fv a(1) h(1) by (simp add: p_def add.commute)
    ultimately show ?thesis using h(2,3) by (intro exI [of _ vs] exI [of _ "?v # ws"]) (simp add: p_def)
  qed
qed

lemma ReadRepeatedFixedSizePrimitive_result:
  assumes c: "cok c" and h: "holds values xs" and N: "int (length xs) < INT_MAX"
    and f: "takes_element k decode f" and tag_size: "tag_size = int (length (tag_code tag))"
  shows "\<exists>vs c' ok n. ReadRepeatedFixedSizePrimitive Z (int k) read f tag_size tag values c = ret (ok, vs, c') \<and> cok c' \<and>
    (ok \<longrightarrow> reads n c c') \<and>
    (case dec (readable c) of
       None \<Rightarrow> \<not> ok \<and> vs = values
     | Some (k, v) \<Rightarrow> ok \<and> (\<exists>ws m. tagged dec (tag_code tag) (drop k (readable c)) ws True m \<and> n = k + m \<and> holds vs (xs @ v # ws)))"
proof -
  obtain n c1 where rd: "read c = ret (map_option snd (dec (readable c)), c1)" "reads n c c1"
      "\<forall>m v. dec (readable c) = Some (m, v) \<longrightarrow> n = m"
    using read_law [OF c] by blast
  note ok1 = ci_reads_ok [OF rd(2)]
  show ?thesis
  proof (cases "dec (readable c)")
    case None
    then have "ReadRepeatedFixedSizePrimitive Z (int k) read f tag_size tag values c = ret (False, values, c1)"
      using rd(1) by (simp add: ReadRepeatedFixedSizePrimitive_def)
    then show ?thesis using None ok1 by auto
  next
    case (Some r)
    then obtain v where r: "dec (readable c) = Some (n, v)" using rd(3) by (cases r) auto
    obtain vs1 where a: "RF_Add (int k) v values = Inr vs1" "holds vs1 (xs @ [v])"
      using Add_holds [OF h _ N, of "int k" v] k_pos by (auto simp: becomes_def)
    define p where "p = length (tag_code tag) + k"
    have per: "tag_size + int k = int p" "0 < p" using tag_size k_pos by (simp_all add: p_def)
    define e where "e = nat (min (rf_total_size vs1 - rf_current_size vs1) (BufferSize c1 div int p))"
    have rest: "readable c1 = drop n (readable c)" using ci_reads_readable [OF rd(2)] .
    show ?thesis
    proof (cases "0 < BufferSize c1")
      case False
      then have "ReadRepeatedFixedSizePrimitive Z (int k) read f tag_size tag values c = ret (True, vs1, c1)"
        using rd(1) r a(1)
        by (simp add: ReadRepeatedFixedSizePrimitive_def Ci_GetDirectBufferPointerInline_def BufferSize_def)
      then show ?thesis using r a(2) rd(2) ok1 tagged_stop by fastforce
    next
      case True
      obtain q where q: "at_buffer c1 = Inr (ci_window c1 @ q)" using at_buffer_window [OF ok1] by blast
      have room: "rf_total_size vs1 - rf_current_size vs1 = int (length (rf_elements vs1)) - int (length (xs @ [v]))"
        using holds_total [OF a(2)] holds_size [OF a(2)] by simp
      have ie: "int e = min (rf_total_size vs1 - rf_current_size vs1) (BufferSize c1 div int p)"
        using True room holds_fits [OF a(2)] per(2) by (simp add: e_def pos_imp_zdiv_nonneg_iff)
      have "int e * int p \<le> BufferSize c1 div int p * int p" using ie by (intro mult_right_mono) simp_all
      also have "\<dots> \<le> BufferSize c1" using div_mult_mod_eq [of "BufferSize c1" "int p"] pos_mod_sign [of "int p" "BufferSize c1"] per(2) by linarith
      finally have ep: "int (e * p) \<le> BufferSize c1" by simp
      have er: "length (xs @ [v]) + e \<le> length (rf_elements vs1)" using ie room by linarith
      have win: "e * p \<le> length (ci_window c1)" "take (e * p) (ci_window c1) = take (e * p) (readable c1)" "e * p \<le> length (readable c1)"
        using window_readable [OF ok1, of "int (e * p)"] ep(1) length_ci_window [OF ok1]
        by (simp_all only: nat_int of_nat_0_le_iff simp_thms zle_int nat_le_iff le_nat_iff)
      have "e * p \<le> length (ci_window c1 @ q)" "take (e * p) (readable c1) = take (e * p) (ci_window c1 @ q)" using win by simp_all
      from from_array_loop_result [OF f p_def a(2) er this win(3), of 0]
      obtain vs ws where l: "from_array_loop f tag e (ci_window c1 @ q) 0 vs1 = Inr (int (length ws), vs)"
          "holds vs ((xs @ [v]) @ ws)" "length ws \<le> e" "tagged dec (tag_code tag) (readable c1) ws True (length ws * p)" by auto
      have fits: "length ws * p \<le> length (readable c1)" using l(3) win(3) by (meson le_trans mult_le_mono1)
      obtain c2 where s: "Ci_Skip Z (int (length ws * p)) c1 = Inr (True, c2)" "reads (length ws * p) c1 c2"
        using Skip_result [OF ok1, of "int (length ws * p)"] fits by (auto simp del: of_nat_mult)
      let ?c = "if ws = [] then c1 else c2"
      have ne: "nat (min (rf_total_size vs1 - rf_current_size vs1) ((ci_buffer_end c1 - ci_buffer c1) div int p)) = e"
        by (simp add: e_def BufferSize_def)
      let ?next = "\<lambda>(num_read, vs1).
        if num_read * int p > 0 then bind_run (Some (Ci_Skip Z (num_read * int p) c1)) (\<lambda>(_, c2). ret (True, vs1, c2))
        else ret (True, vs1, c1)"
      have "ReadRepeatedFixedSizePrimitive Z (int k) read f tag_size tag values c =
          bind_run (Some (from_array_loop f tag e (ci_window c1 @ q) 0 vs1)) ?next"
        using rd(1) r a(1) True q
        by (simp add: ReadRepeatedFixedSizePrimitive_def Ci_GetDirectBufferPointerInline_def BufferSize_def Let_def ne per(1))
      also have "\<dots> = ?next (int (length ws), vs)" unfolding l(1) by simp
      also have "\<dots> = ret (True, vs, ?c)" using s(1) per(2) by simp
      finally have "ReadRepeatedFixedSizePrimitive Z (int k) read f tag_size tag values c = ret (True, vs, ?c)" .
      moreover have "reads (length ws * p) c1 ?c" using s(2) ci_reads_refl [OF ok1] by simp
      moreover from this have "reads (n + length ws * p) c ?c" "cok ?c" using ci_reads_trans [OF rd(2)] ci_reads_ok by blast+
      moreover have "holds vs (xs @ v # ws)" "tagged dec (tag_code tag) (drop n (readable c)) ws True (length ws * p)"
        using l(2,4) rest by simp_all
      ultimately show ?thesis unfolding r option.case prod.case by blast
    qed
  qed
qed

end

lemma elements_taken:
  "takes_element 4 (\<lambda>bs. word_of_nat (le_value bs)) ReadPrimitiveFromArray_FIXED32"
  "takes_element 8 (\<lambda>bs. word_of_nat (le_value bs)) ReadPrimitiveFromArray_FIXED64"
  "takes_element 4 (\<lambda>bs. word_of_nat (le_value bs)) ReadPrimitiveFromArray_SFIXED32"
  "takes_element 8 (\<lambda>bs. word_of_nat (le_value bs)) ReadPrimitiveFromArray_SFIXED64"
  "takes_element 4 (\<lambda>bs. word_of_nat (le_value bs)) ReadPrimitiveFromArray_FLOAT"
  "takes_element 8 (\<lambda>bs. word_of_nat (le_value bs)) ReadPrimitiveFromArray_DOUBLE"
  by (auto simp: takes_element_def ReadPrimitiveFromArray_FIXED32_def ReadPrimitiveFromArray_FIXED64_def
      ReadPrimitiveFromArray_SFIXED32_def ReadPrimitiveFromArray_SFIXED64_def ReadPrimitiveFromArray_FLOAT_def
      ReadPrimitiveFromArray_DOUBLE_def ReadLittleEndian32FromArray_def ReadLittleEndian64FromArray_def
      DecodeFloat_def DecodeDouble_def mem_read_def window_def)

end
