(* ===== verification/Wire_Fields.thy ===== *)
theory Wire_Fields
  imports Wire_Tagged
begin

unbundle bit_operations_syntax

text \<open>
  \<^verbatim>\<open>WireFormatLite\<close>, \<^verbatim>\<open>wire_format_lite.{h,cc}\<close>, the repeated fields of each scalar type: the
  writers, the sizes and the readers that the code of a message calls, each the instance of a template
  that \<open>Wire_Types\<close> has. The laws of a type are the locale \<open>repeated_type\<close>.
\<close>

section \<open>Writers\<close>

definition WriteInt32sNoTagToArray :: "uint32 repeated_field \<Rightarrow> nat \<Rightarrow> byte list \<Rightarrow> (nat \<times> byte list) res" where
  "WriteInt32sNoTagToArray = WritePrimitiveNoTagToArray WriteInt32NoTagToArray"

definition WriteInt64sNoTagToArray :: "uint64 repeated_field \<Rightarrow> nat \<Rightarrow> byte list \<Rightarrow> (nat \<times> byte list) res" where
  "WriteInt64sNoTagToArray = WritePrimitiveNoTagToArray WriteInt64NoTagToArray"

definition WriteUInt32sNoTagToArray :: "uint32 repeated_field \<Rightarrow> nat \<Rightarrow> byte list \<Rightarrow> (nat \<times> byte list) res" where
  "WriteUInt32sNoTagToArray = WritePrimitiveNoTagToArray WriteUInt32NoTagToArray"

definition WriteUInt64sNoTagToArray :: "uint64 repeated_field \<Rightarrow> nat \<Rightarrow> byte list \<Rightarrow> (nat \<times> byte list) res" where
  "WriteUInt64sNoTagToArray = WritePrimitiveNoTagToArray WriteUInt64NoTagToArray"

definition WriteSInt32sNoTagToArray :: "uint32 repeated_field \<Rightarrow> nat \<Rightarrow> byte list \<Rightarrow> (nat \<times> byte list) res" where
  "WriteSInt32sNoTagToArray = WritePrimitiveNoTagToArray WriteSInt32NoTagToArray"

definition WriteSInt64sNoTagToArray :: "uint64 repeated_field \<Rightarrow> nat \<Rightarrow> byte list \<Rightarrow> (nat \<times> byte list) res" where
  "WriteSInt64sNoTagToArray = WritePrimitiveNoTagToArray WriteSInt64NoTagToArray"

definition WriteFixed32sNoTagToArray :: "uint32 repeated_field \<Rightarrow> nat \<Rightarrow> byte list \<Rightarrow> (nat \<times> byte list) res" where
  "WriteFixed32sNoTagToArray = WriteFixedNoTagToArray (le_bytes 4)"

definition WriteFixed64sNoTagToArray :: "uint64 repeated_field \<Rightarrow> nat \<Rightarrow> byte list \<Rightarrow> (nat \<times> byte list) res" where
  "WriteFixed64sNoTagToArray = WriteFixedNoTagToArray (le_bytes 8)"

definition WriteSFixed32sNoTagToArray :: "uint32 repeated_field \<Rightarrow> nat \<Rightarrow> byte list \<Rightarrow> (nat \<times> byte list) res" where
  "WriteSFixed32sNoTagToArray = WriteFixedNoTagToArray (le_bytes 4)"

definition WriteSFixed64sNoTagToArray :: "uint64 repeated_field \<Rightarrow> nat \<Rightarrow> byte list \<Rightarrow> (nat \<times> byte list) res" where
  "WriteSFixed64sNoTagToArray = WriteFixedNoTagToArray (le_bytes 8)"

definition WriteFloatsNoTagToArray :: "uint32 repeated_field \<Rightarrow> nat \<Rightarrow> byte list \<Rightarrow> (nat \<times> byte list) res" where
  "WriteFloatsNoTagToArray = WriteFixedNoTagToArray (le_bytes 4)"

definition WriteDoublesNoTagToArray :: "uint64 repeated_field \<Rightarrow> nat \<Rightarrow> byte list \<Rightarrow> (nat \<times> byte list) res" where
  "WriteDoublesNoTagToArray = WriteFixedNoTagToArray (le_bytes 8)"

definition WriteBoolsNoTagToArray :: "bool repeated_field \<Rightarrow> nat \<Rightarrow> byte list \<Rightarrow> (nat \<times> byte list) res" where
  "WriteBoolsNoTagToArray = WritePrimitiveNoTagToArray WriteBoolNoTagToArray"

definition WriteEnumsNoTagToArray :: "uint32 repeated_field \<Rightarrow> nat \<Rightarrow> byte list \<Rightarrow> (nat \<times> byte list) res" where
  "WriteEnumsNoTagToArray = WritePrimitiveNoTagToArray WriteEnumNoTagToArray"

definition WriteInt32sToArray :: "int \<Rightarrow> uint32 repeated_field \<Rightarrow> nat \<Rightarrow> byte list \<Rightarrow> (nat \<times> byte list) res" where
  "WriteInt32sToArray = WritePrimitiveToArray WriteInt32ToArray"

definition WriteInt64sToArray :: "int \<Rightarrow> uint64 repeated_field \<Rightarrow> nat \<Rightarrow> byte list \<Rightarrow> (nat \<times> byte list) res" where
  "WriteInt64sToArray = WritePrimitiveToArray WriteInt64ToArray"

definition WriteUInt32sToArray :: "int \<Rightarrow> uint32 repeated_field \<Rightarrow> nat \<Rightarrow> byte list \<Rightarrow> (nat \<times> byte list) res" where
  "WriteUInt32sToArray = WritePrimitiveToArray WriteUInt32ToArray"

definition WriteUInt64sToArray :: "int \<Rightarrow> uint64 repeated_field \<Rightarrow> nat \<Rightarrow> byte list \<Rightarrow> (nat \<times> byte list) res" where
  "WriteUInt64sToArray = WritePrimitiveToArray WriteUInt64ToArray_at"

definition WriteSInt32sToArray :: "int \<Rightarrow> uint32 repeated_field \<Rightarrow> nat \<Rightarrow> byte list \<Rightarrow> (nat \<times> byte list) res" where
  "WriteSInt32sToArray = WritePrimitiveToArray WriteSInt32ToArray"

definition WriteSInt64sToArray :: "int \<Rightarrow> uint64 repeated_field \<Rightarrow> nat \<Rightarrow> byte list \<Rightarrow> (nat \<times> byte list) res" where
  "WriteSInt64sToArray = WritePrimitiveToArray WriteSInt64ToArray"

definition WriteFixed32sToArray :: "int \<Rightarrow> uint32 repeated_field \<Rightarrow> nat \<Rightarrow> byte list \<Rightarrow> (nat \<times> byte list) res" where
  "WriteFixed32sToArray = WritePrimitiveToArray WriteFixed32ToArray_at"

definition WriteFixed64sToArray :: "int \<Rightarrow> uint64 repeated_field \<Rightarrow> nat \<Rightarrow> byte list \<Rightarrow> (nat \<times> byte list) res" where
  "WriteFixed64sToArray = WritePrimitiveToArray WriteFixed64ToArray_at"

definition WriteSFixed32sToArray :: "int \<Rightarrow> uint32 repeated_field \<Rightarrow> nat \<Rightarrow> byte list \<Rightarrow> (nat \<times> byte list) res" where
  "WriteSFixed32sToArray = WritePrimitiveToArray WriteSFixed32ToArray"

definition WriteSFixed64sToArray :: "int \<Rightarrow> uint64 repeated_field \<Rightarrow> nat \<Rightarrow> byte list \<Rightarrow> (nat \<times> byte list) res" where
  "WriteSFixed64sToArray = WritePrimitiveToArray WriteSFixed64ToArray"

definition WriteFloatsToArray :: "int \<Rightarrow> uint32 repeated_field \<Rightarrow> nat \<Rightarrow> byte list \<Rightarrow> (nat \<times> byte list) res" where
  "WriteFloatsToArray = WritePrimitiveToArray WriteFloatToArray"

definition WriteDoublesToArray :: "int \<Rightarrow> uint64 repeated_field \<Rightarrow> nat \<Rightarrow> byte list \<Rightarrow> (nat \<times> byte list) res" where
  "WriteDoublesToArray = WritePrimitiveToArray WriteDoubleToArray"

definition WriteBoolsToArray :: "int \<Rightarrow> bool repeated_field \<Rightarrow> nat \<Rightarrow> byte list \<Rightarrow> (nat \<times> byte list) res" where
  "WriteBoolsToArray = WritePrimitiveToArray WriteBoolToArray"

definition WriteEnumsToArray :: "int \<Rightarrow> uint32 repeated_field \<Rightarrow> nat \<Rightarrow> byte list \<Rightarrow> (nat \<times> byte list) res" where
  "WriteEnumsToArray = WritePrimitiveToArray WriteEnumToArray"

section \<open>Sizes\<close>

text \<open>The loops; under \<^verbatim>\<open>__SSE__\<close> and clang the code uses the vectorised forms below.\<close>

definition Int32sSize :: "uint32 repeated_field \<Rightarrow> nat res" where
  "Int32sSize = repeated_size Int32Size"

definition UInt32sSize :: "uint32 repeated_field \<Rightarrow> nat res" where
  "UInt32sSize = repeated_size UInt32Size"

definition SInt32sSize :: "uint32 repeated_field \<Rightarrow> nat res" where
  "SInt32sSize = repeated_size SInt32Size"

definition EnumsSize :: "uint32 repeated_field \<Rightarrow> nat res" where
  "EnumsSize = repeated_size EnumSize"

definition Int64sSize :: "uint64 repeated_field \<Rightarrow> nat res" where
  "Int64sSize = repeated_size Int64Size"

definition UInt64sSize :: "uint64 repeated_field \<Rightarrow> nat res" where
  "UInt64sSize = repeated_size UInt64Size"

definition SInt64sSize :: "uint64 repeated_field \<Rightarrow> nat res" where
  "SInt64sSize = repeated_size SInt64Size"

text \<open>\<^verbatim>\<open>value.data()\<close> with \<^verbatim>\<open>value.size()\<close> elements, all of them written.\<close>

definition field_data :: "'v repeated_field \<Rightarrow> 'v list res" where
  "field_data value =
     bind_res (mem_read (rf_elements value) 0 (rf_current_size value)) (\<lambda>cells.
       if None \<in> set cells then Inl Uninitialised else Inr (map the cells))"

definition Int32sSize_vector :: "uint32 repeated_field \<Rightarrow> nat res" where
  "Int32sSize_vector value = bind_res (field_data value) (\<lambda>d. Inr (VarintSize False True d))"

definition UInt32sSize_vector :: "uint32 repeated_field \<Rightarrow> nat res" where
  "UInt32sSize_vector value = bind_res (field_data value) (\<lambda>d. Inr (VarintSize False False d))"

definition SInt32sSize_vector :: "uint32 repeated_field \<Rightarrow> nat res" where
  "SInt32sSize_vector value = bind_res (field_data value) (\<lambda>d. Inr (VarintSize True False d))"

definition EnumsSize_vector :: "uint32 repeated_field \<Rightarrow> nat res" where
  "EnumsSize_vector value = bind_res (field_data value) (\<lambda>d. Inr (VarintSize False True d))"

definition Int64sSize_vector :: "uint64 repeated_field \<Rightarrow> nat res" where
  "Int64sSize_vector value = bind_res (field_data value) (\<lambda>d. Inr (Vector_VarintSize64 False d))"

definition UInt64sSize_vector :: "uint64 repeated_field \<Rightarrow> nat res" where
  "UInt64sSize_vector value = bind_res (field_data value) (\<lambda>d. Inr (Vector_VarintSize64 False d))"

definition SInt64sSize_vector :: "uint64 repeated_field \<Rightarrow> nat res" where
  "SInt64sSize_vector value = bind_res (field_data value) (\<lambda>d. Inr (Vector_VarintSize64 True d))"

section \<open>Readers\<close>

text \<open>The argument is the size of an element in memory; a \<^verbatim>\<open>bool\<close> takes one byte.\<close>

definition ReadRepeated_INT32 ::
    "'s zero_copy_input \<Rightarrow> int \<Rightarrow> uint32 \<Rightarrow> uint32 repeated_field \<Rightarrow> 's coded_input \<Rightarrow>
      (bool \<times> uint32 repeated_field \<times> 's coded_input) run"
where
  "ReadRepeated_INT32 Z tag_size tag values c =
     ReadRepeatedPrimitive 4 (ReadPrimitive_INT32 Z) tag values c"

definition ReadRepeated_INT64 ::
    "'s zero_copy_input \<Rightarrow> int \<Rightarrow> uint32 \<Rightarrow> uint64 repeated_field \<Rightarrow> 's coded_input \<Rightarrow>
      (bool \<times> uint64 repeated_field \<times> 's coded_input) run"
where
  "ReadRepeated_INT64 Z tag_size tag values c =
     ReadRepeatedPrimitive 8 (ReadPrimitive_INT64 Z) tag values c"

definition ReadRepeated_UINT32 ::
    "'s zero_copy_input \<Rightarrow> int \<Rightarrow> uint32 \<Rightarrow> uint32 repeated_field \<Rightarrow> 's coded_input \<Rightarrow>
      (bool \<times> uint32 repeated_field \<times> 's coded_input) run"
where
  "ReadRepeated_UINT32 Z tag_size tag values c =
     ReadRepeatedPrimitive 4 (ReadPrimitive_UINT32 Z) tag values c"

definition ReadRepeated_UINT64 ::
    "'s zero_copy_input \<Rightarrow> int \<Rightarrow> uint32 \<Rightarrow> uint64 repeated_field \<Rightarrow> 's coded_input \<Rightarrow>
      (bool \<times> uint64 repeated_field \<times> 's coded_input) run"
where
  "ReadRepeated_UINT64 Z tag_size tag values c =
     ReadRepeatedPrimitive 8 (ReadPrimitive_UINT64 Z) tag values c"

definition ReadRepeated_SINT32 ::
    "'s zero_copy_input \<Rightarrow> int \<Rightarrow> uint32 \<Rightarrow> uint32 repeated_field \<Rightarrow> 's coded_input \<Rightarrow>
      (bool \<times> uint32 repeated_field \<times> 's coded_input) run"
where
  "ReadRepeated_SINT32 Z tag_size tag values c =
     ReadRepeatedPrimitive 4 (ReadPrimitive_SINT32 Z) tag values c"

definition ReadRepeated_SINT64 ::
    "'s zero_copy_input \<Rightarrow> int \<Rightarrow> uint32 \<Rightarrow> uint64 repeated_field \<Rightarrow> 's coded_input \<Rightarrow>
      (bool \<times> uint64 repeated_field \<times> 's coded_input) run"
where
  "ReadRepeated_SINT64 Z tag_size tag values c =
     ReadRepeatedPrimitive 8 (ReadPrimitive_SINT64 Z) tag values c"

definition ReadRepeated_FIXED32 ::
    "'s zero_copy_input \<Rightarrow> int \<Rightarrow> uint32 \<Rightarrow> uint32 repeated_field \<Rightarrow> 's coded_input \<Rightarrow>
      (bool \<times> uint32 repeated_field \<times> 's coded_input) run"
where
  "ReadRepeated_FIXED32 Z tag_size tag values c =
     ReadRepeatedFixedSizePrimitive Z 4 (ReadPrimitive_FIXED32 Z) ReadPrimitiveFromArray_FIXED32 tag_size tag values c"

definition ReadRepeated_FIXED64 ::
    "'s zero_copy_input \<Rightarrow> int \<Rightarrow> uint32 \<Rightarrow> uint64 repeated_field \<Rightarrow> 's coded_input \<Rightarrow>
      (bool \<times> uint64 repeated_field \<times> 's coded_input) run"
where
  "ReadRepeated_FIXED64 Z tag_size tag values c =
     ReadRepeatedFixedSizePrimitive Z 8 (ReadPrimitive_FIXED64 Z) ReadPrimitiveFromArray_FIXED64 tag_size tag values c"

definition ReadRepeated_SFIXED32 ::
    "'s zero_copy_input \<Rightarrow> int \<Rightarrow> uint32 \<Rightarrow> uint32 repeated_field \<Rightarrow> 's coded_input \<Rightarrow>
      (bool \<times> uint32 repeated_field \<times> 's coded_input) run"
where
  "ReadRepeated_SFIXED32 Z tag_size tag values c =
     ReadRepeatedFixedSizePrimitive Z 4 (ReadPrimitive_SFIXED32 Z) ReadPrimitiveFromArray_SFIXED32 tag_size tag values c"

definition ReadRepeated_SFIXED64 ::
    "'s zero_copy_input \<Rightarrow> int \<Rightarrow> uint32 \<Rightarrow> uint64 repeated_field \<Rightarrow> 's coded_input \<Rightarrow>
      (bool \<times> uint64 repeated_field \<times> 's coded_input) run"
where
  "ReadRepeated_SFIXED64 Z tag_size tag values c =
     ReadRepeatedFixedSizePrimitive Z 8 (ReadPrimitive_SFIXED64 Z) ReadPrimitiveFromArray_SFIXED64 tag_size tag values c"

definition ReadRepeated_FLOAT ::
    "'s zero_copy_input \<Rightarrow> int \<Rightarrow> uint32 \<Rightarrow> uint32 repeated_field \<Rightarrow> 's coded_input \<Rightarrow>
      (bool \<times> uint32 repeated_field \<times> 's coded_input) run"
where
  "ReadRepeated_FLOAT Z tag_size tag values c =
     ReadRepeatedFixedSizePrimitive Z 4 (ReadPrimitive_FLOAT Z) ReadPrimitiveFromArray_FLOAT tag_size tag values c"

definition ReadRepeated_DOUBLE ::
    "'s zero_copy_input \<Rightarrow> int \<Rightarrow> uint32 \<Rightarrow> uint64 repeated_field \<Rightarrow> 's coded_input \<Rightarrow>
      (bool \<times> uint64 repeated_field \<times> 's coded_input) run"
where
  "ReadRepeated_DOUBLE Z tag_size tag values c =
     ReadRepeatedFixedSizePrimitive Z 8 (ReadPrimitive_DOUBLE Z) ReadPrimitiveFromArray_DOUBLE tag_size tag values c"

definition ReadRepeated_BOOL ::
    "'s zero_copy_input \<Rightarrow> int \<Rightarrow> uint32 \<Rightarrow> bool repeated_field \<Rightarrow> 's coded_input \<Rightarrow>
      (bool \<times> bool repeated_field \<times> 's coded_input) run"
where
  "ReadRepeated_BOOL Z tag_size tag values c =
     ReadRepeatedPrimitive 1 (ReadPrimitive_BOOL Z) tag values c"

definition ReadRepeated_ENUM ::
    "'s zero_copy_input \<Rightarrow> int \<Rightarrow> uint32 \<Rightarrow> uint32 repeated_field \<Rightarrow> 's coded_input \<Rightarrow>
      (bool \<times> uint32 repeated_field \<times> 's coded_input) run"
where
  "ReadRepeated_ENUM Z tag_size tag values c =
     ReadRepeatedPrimitive 4 (ReadPrimitive_ENUM Z) tag values c"

definition ReadPacked_INT32 ::
    "'s zero_copy_input \<Rightarrow> uint32 repeated_field \<Rightarrow> 's coded_input \<Rightarrow> (bool \<times> uint32 repeated_field \<times> 's coded_input) run"
where
  "ReadPacked_INT32 Z values c =
     ReadPackedPrimitive Z 4 (ReadPrimitive_INT32 Z) values c"

definition ReadPacked_INT64 ::
    "'s zero_copy_input \<Rightarrow> uint64 repeated_field \<Rightarrow> 's coded_input \<Rightarrow> (bool \<times> uint64 repeated_field \<times> 's coded_input) run"
where
  "ReadPacked_INT64 Z values c =
     ReadPackedPrimitive Z 8 (ReadPrimitive_INT64 Z) values c"

definition ReadPacked_UINT32 ::
    "'s zero_copy_input \<Rightarrow> uint32 repeated_field \<Rightarrow> 's coded_input \<Rightarrow> (bool \<times> uint32 repeated_field \<times> 's coded_input) run"
where
  "ReadPacked_UINT32 Z values c =
     ReadPackedPrimitive Z 4 (ReadPrimitive_UINT32 Z) values c"

definition ReadPacked_UINT64 ::
    "'s zero_copy_input \<Rightarrow> uint64 repeated_field \<Rightarrow> 's coded_input \<Rightarrow> (bool \<times> uint64 repeated_field \<times> 's coded_input) run"
where
  "ReadPacked_UINT64 Z values c =
     ReadPackedPrimitive Z 8 (ReadPrimitive_UINT64 Z) values c"

definition ReadPacked_SINT32 ::
    "'s zero_copy_input \<Rightarrow> uint32 repeated_field \<Rightarrow> 's coded_input \<Rightarrow> (bool \<times> uint32 repeated_field \<times> 's coded_input) run"
where
  "ReadPacked_SINT32 Z values c =
     ReadPackedPrimitive Z 4 (ReadPrimitive_SINT32 Z) values c"

definition ReadPacked_SINT64 ::
    "'s zero_copy_input \<Rightarrow> uint64 repeated_field \<Rightarrow> 's coded_input \<Rightarrow> (bool \<times> uint64 repeated_field \<times> 's coded_input) run"
where
  "ReadPacked_SINT64 Z values c =
     ReadPackedPrimitive Z 8 (ReadPrimitive_SINT64 Z) values c"

definition ReadPacked_FIXED32 ::
    "'s zero_copy_input \<Rightarrow> uint32 repeated_field \<Rightarrow> 's coded_input \<Rightarrow> (bool \<times> uint32 repeated_field \<times> 's coded_input) run"
where
  "ReadPacked_FIXED32 Z values c =
     ReadPackedFixedSizePrimitive Z 4 0 (\<lambda>bs. word_of_nat (le_value bs)) (ReadPrimitive_FIXED32 Z) values c"

definition ReadPacked_FIXED64 ::
    "'s zero_copy_input \<Rightarrow> uint64 repeated_field \<Rightarrow> 's coded_input \<Rightarrow> (bool \<times> uint64 repeated_field \<times> 's coded_input) run"
where
  "ReadPacked_FIXED64 Z values c =
     ReadPackedFixedSizePrimitive Z 8 0 (\<lambda>bs. word_of_nat (le_value bs)) (ReadPrimitive_FIXED64 Z) values c"

definition ReadPacked_SFIXED32 ::
    "'s zero_copy_input \<Rightarrow> uint32 repeated_field \<Rightarrow> 's coded_input \<Rightarrow> (bool \<times> uint32 repeated_field \<times> 's coded_input) run"
where
  "ReadPacked_SFIXED32 Z values c =
     ReadPackedFixedSizePrimitive Z 4 0 (\<lambda>bs. word_of_nat (le_value bs)) (ReadPrimitive_SFIXED32 Z) values c"

definition ReadPacked_SFIXED64 ::
    "'s zero_copy_input \<Rightarrow> uint64 repeated_field \<Rightarrow> 's coded_input \<Rightarrow> (bool \<times> uint64 repeated_field \<times> 's coded_input) run"
where
  "ReadPacked_SFIXED64 Z values c =
     ReadPackedFixedSizePrimitive Z 8 0 (\<lambda>bs. word_of_nat (le_value bs)) (ReadPrimitive_SFIXED64 Z) values c"

definition ReadPacked_FLOAT ::
    "'s zero_copy_input \<Rightarrow> uint32 repeated_field \<Rightarrow> 's coded_input \<Rightarrow> (bool \<times> uint32 repeated_field \<times> 's coded_input) run"
where
  "ReadPacked_FLOAT Z values c =
     ReadPackedFixedSizePrimitive Z 4 0 (\<lambda>bs. word_of_nat (le_value bs)) (ReadPrimitive_FLOAT Z) values c"

definition ReadPacked_DOUBLE ::
    "'s zero_copy_input \<Rightarrow> uint64 repeated_field \<Rightarrow> 's coded_input \<Rightarrow> (bool \<times> uint64 repeated_field \<times> 's coded_input) run"
where
  "ReadPacked_DOUBLE Z values c =
     ReadPackedFixedSizePrimitive Z 8 0 (\<lambda>bs. word_of_nat (le_value bs)) (ReadPrimitive_DOUBLE Z) values c"

definition ReadPacked_BOOL ::
    "'s zero_copy_input \<Rightarrow> bool repeated_field \<Rightarrow> 's coded_input \<Rightarrow> (bool \<times> bool repeated_field \<times> 's coded_input) run"
where
  "ReadPacked_BOOL Z values c =
     ReadPackedPrimitive Z 1 (ReadPrimitive_BOOL Z) values c"

definition ReadPacked_ENUM ::
    "'s zero_copy_input \<Rightarrow> uint32 repeated_field \<Rightarrow> 's coded_input \<Rightarrow> (bool \<times> uint32 repeated_field \<times> 's coded_input) run"
where
  "ReadPacked_ENUM Z values c =
     ReadPackedPrimitive Z 4 (ReadPrimitive_ENUM Z) values c"

lemmas repeated_writer_defs = WriteInt32sNoTagToArray_def WriteInt64sNoTagToArray_def WriteUInt32sNoTagToArray_def WriteUInt64sNoTagToArray_def WriteSInt32sNoTagToArray_def WriteSInt64sNoTagToArray_def WriteFixed32sNoTagToArray_def WriteFixed64sNoTagToArray_def WriteSFixed32sNoTagToArray_def WriteSFixed64sNoTagToArray_def WriteFloatsNoTagToArray_def WriteDoublesNoTagToArray_def WriteBoolsNoTagToArray_def WriteEnumsNoTagToArray_def
lemmas tagged_writer_defs = WriteInt32sToArray_def WriteInt64sToArray_def WriteUInt32sToArray_def WriteUInt64sToArray_def WriteSInt32sToArray_def WriteSInt64sToArray_def WriteFixed32sToArray_def WriteFixed64sToArray_def WriteSFixed32sToArray_def WriteSFixed64sToArray_def WriteFloatsToArray_def WriteDoublesToArray_def WriteBoolsToArray_def WriteEnumsToArray_def
lemmas one_tagged_defs = WriteInt32ToArray_def WriteInt64ToArray_def WriteUInt32ToArray_def WriteUInt64ToArray_at_def WriteSInt32ToArray_def WriteSInt64ToArray_def WriteFixed32ToArray_at_def WriteFixed64ToArray_at_def WriteSFixed32ToArray_def WriteSFixed64ToArray_def WriteFloatToArray_def WriteDoubleToArray_def WriteBoolToArray_def WriteEnumToArray_def
lemmas repeated_size_defs = Int32sSize_def UInt32sSize_def SInt32sSize_def EnumsSize_def Int64sSize_def UInt64sSize_def SInt64sSize_def
lemmas repeated_reader_defs = ReadRepeated_INT32_def ReadRepeated_INT64_def ReadRepeated_UINT32_def ReadRepeated_UINT64_def ReadRepeated_SINT32_def ReadRepeated_SINT64_def ReadRepeated_FIXED32_def ReadRepeated_FIXED64_def ReadRepeated_SFIXED32_def ReadRepeated_SFIXED64_def ReadRepeated_FLOAT_def ReadRepeated_DOUBLE_def ReadRepeated_BOOL_def ReadRepeated_ENUM_def
lemmas packed_reader_defs = ReadPacked_INT32_def ReadPacked_INT64_def ReadPacked_UINT32_def ReadPacked_UINT64_def ReadPacked_SINT32_def ReadPacked_SINT64_def ReadPacked_FIXED32_def ReadPacked_FIXED64_def ReadPacked_SFIXED32_def ReadPacked_SFIXED64_def ReadPacked_FLOAT_def ReadPacked_DOUBLE_def ReadPacked_BOOL_def ReadPacked_ENUM_def

section \<open>What the writers write\<close>

lemma put_append: "bind_res (put i xs m) (\<lambda>(j, m1). put j ys m1) = put i (xs @ ys) m"
  by (cases xs) (auto simp: put_def overwrite_def min_def add.commute add.left_commute)

lemma put_nothing: "i \<le> length m \<Longrightarrow> put i [] m = Inr (i, m)"
  by (simp add: put_def overwrite_def)

text \<open>The tag in front of a r.\<close>

lemma WriteTagToArray_put: "WriteTagToArray_at number ty i m = put i (tag_code (MakeTag number ty)) m"
  by (simp add: WriteTagToArray_at_def Co_WriteTagToArray_def WriteVarint32ToArray_def UnsafeVarint_put tag_code_def)

lemma then_write_put:
  assumes "\<And>i m. f i m = put i bs m"
  shows "then_write (WriteTagToArray_at number ty i m) f = put i (tag_code (MakeTag number ty) @ bs) m"
  unfolding WriteTagToArray_put put_append [symmetric] then_write_def by (simp add: assms case_prod_unfold)

lemma write_loop_put:
  assumes w: "\<And>v i m. Writer v i m = put i (f v) m"
  shows "holds r vs \<Longrightarrow> j + k \<le> length vs \<Longrightarrow> i \<le> length m \<Longrightarrow>
    write_loop Writer r (int j) k i m = put i (concat (map f (take k (drop j vs)))) m"
proof (induction k arbitrary: j i m)
  case 0
  then show ?case by (simp add: put_nothing)
next
  case (Suc k)
  have g: "get_element (int j) r = Inr (vs ! j)" using get_holds [OF Suc.prems(1)] Suc.prems(2) by simp
  have e: "take (Suc k) (drop j vs) = vs ! j # take k (drop (Suc j) vs)"
    using Suc.prems(2) by (simp add: take_Suc hd_drop_conv_nth tl_drop drop_Suc)
  show ?case
  proof (cases "i + length (f (vs ! j)) \<le> length m")
    case False
    then show ?thesis using g w e by (simp add: put_def)
  next
    case True
    have "write_loop Writer r (int j) (Suc k) i m =
        write_loop Writer r (int (Suc j)) k (i + length (f (vs ! j))) (overwrite i (f (vs ! j)) m)"
      using g w True by (simp add: put_def add.commute)
    also have "\<dots> = put (i + length (f (vs ! j))) (concat (map f (take k (drop (Suc j) vs)))) (overwrite i (f (vs ! j)) m)"
      using Suc.prems True by (intro Suc.IH) simp_all
    also have "\<dots> = put i (f (vs ! j) @ concat (map f (take k (drop (Suc j) vs)))) m"
      unfolding put_append [symmetric] using True by (simp add: put_def)
    finally show ?thesis by (simp add: e)
  qed
qed

lemma write_loop_all:
  assumes w: "\<And>v i m. Writer v i m = put i (f v) m" and h: "holds r vs" and ne: "vs \<noteq> []"
  shows "write_loop Writer r 0 (nat (max 1 (rf_current_size r))) i m = put i (concat (map f vs)) m"
proof (cases "i \<le> length m")
  case True
  have "nat (max 1 (rf_current_size r)) = length vs" using holds_size [OF h] ne by (cases vs) auto
  then show ?thesis using write_loop_put [OF w h, of 0 "length vs" i m] True by simp
next
  case False
  obtain v us where vs: "vs = v # us" using ne by (cases vs) auto
  have "nat (max 1 (rf_current_size r)) = Suc (length us)" using holds_size [OF h] by (simp add: vs)
  moreover have "get_element 0 r = Inr v" using get_holds [OF h, of 0] by (simp add: vs)
  ultimately show ?thesis using False w by (simp add: vs put_def)
qed

lemma size_loop_sum:
  "holds r vs \<Longrightarrow> j + k \<le> length vs \<Longrightarrow>
    size_loop Size r (int j) k out = Inr (out + sum_list (map Size (take k (drop j vs))))"
proof (induction k arbitrary: j out)
  case 0
  then show ?case by simp
next
  case (Suc k)
  have "RF_Get (int j) r = Inr (vs ! j)" using get_holds [OF Suc.prems(1)] Suc.prems(2) by (simp add: RF_Get_def)
  moreover have "take (Suc k) (drop j vs) = vs ! j # take k (drop (Suc j) vs)"
    using Suc.prems(2) by (simp add: take_Suc hd_drop_conv_nth tl_drop drop_Suc)
  ultimately show ?case using Suc.IH [of "Suc j" "out + Size (vs ! j)"] Suc.prems by (simp add: add.commute)
qed

lemma repeated_size_sum: "holds r vs \<Longrightarrow> repeated_size Size r = Inr (sum_list (map Size vs))"
  using size_loop_sum [of r vs 0 "length vs" Size 0] by (simp add: repeated_size_def holds_size)

lemma field_data_holds: "holds r vs \<Longrightarrow> field_data r = Inr vs"
  using cells_read [of r vs 0 "length vs"] by (simp add: field_data_def holds_size window_def comp_def image_iff)

lemma WriteFixedNoTagToArray_put:
  assumes h: "holds r vs"
  shows "WriteFixedNoTagToArray layout r i m = put i (concat (map layout vs)) m"
  using cells_read [OF h, of 0 "length vs"] holds_size [OF h]
  by (simp add: WriteFixedNoTagToArray_def element_bytes_def window_def comp_def image_iff)

section \<open>What the readers read back\<close>

text \<open>A packed field as the writers lay it out: the length of the values, then the values.\<close>

definition packed_bytes :: "('v \<Rightarrow> byte list) \<Rightarrow> 'v list \<Rightarrow> byte list" where
  "packed_bytes enc vs = varint_bytes (length (concat (map enc vs))) @ concat (map enc vs)"

definition tagged_bytes :: "uint32 \<Rightarrow> ('v \<Rightarrow> byte list) \<Rightarrow> 'v list \<Rightarrow> byte list" where
  "tagged_bytes tag enc vs = concat (map (\<lambda>v. tag_code tag @ enc v) vs)"

lemma prefix_read:
  assumes "int n \<le> INT_MAX"
  shows "varint_value 10 (varint_bytes n @ bs) = Some (length (varint_bytes n), n)" and "size_prefix n = Some (int n)"
proof -
  have n: "n < 2 ^ 31" using assms by (simp add: INT_MAX_def)
  then show "varint_value 10 (varint_bytes n @ bs) = Some (length (varint_bytes n), n)" by (intro varint_value_bytes) simp_all
  have "uint (word_of_nat n :: uint64) = int n" using n by (simp add: unsigned_of_nat take_bit_nat_eq_self)
  then show "size_prefix n = Some (int n)" using assms by (simp add: size_prefix_def)
qed

text \<open>What the client knows of a reader that can take \<open>n\<close> more bytes below its limit.\<close>

definition space_for :: "nat \<Rightarrow> 's coded_input \<Rightarrow> bool" where
  "space_for n c \<longleftrightarrow> CurrentPosition c + int n < ci_current_limit c"

context wire_reader
begin

lemma one_law:
  assumes c: "cok c" and bs: "readable c = enc v @ bs"
  shows "\<exists>c'. read c = ret (Some v, c') \<and> reads (length (enc v)) c c'"
  using read_law [OF c] dec_enc [of v bs] by (auto simp: bs)

lemma packed_law:
  assumes c: "cok c" and h: "holds f xs" and bs: "readable c = packed_bytes enc vs @ rest'" and vs: "vs \<noteq> []"
    and space: "space_for (length (packed_bytes enc vs)) c" and N: "int (length xs) + int (length (readable c)) \<le> INT_MAX"
    and sz: "0 < sz"
  shows "\<exists>f' c'. ReadPackedPrimitive Z sz read f c = ret (True, f', c') \<and> holds f' (xs @ vs) \<and>
    reads (length (packed_bytes enc vs)) c c'"
proof -
  let ?bs = "concat (map enc vs)"
  have l: "int (length ?bs) \<le> INT_MAX" using N unfolding bs by (simp add: packed_bytes_def)
  have pos: "0 < int (length ?bs)" using vs enc_nonempty [of "hd vs"] by (cases vs) (simp_all flip: of_nat_add)
  have "CurrentPosition c + int (length (varint_bytes (length ?bs))) + int (length ?bs) < ci_current_limit c"
    using space by (simp add: space_for_def packed_bytes_def)
  then have "packed_room (ci_current_limit c) (CurrentPosition c + int (length (varint_bytes (length ?bs)))) (int (length ?bs)) = int (length ?bs)"
    by (simp add: packed_room_def)
  then have "packed_field size_prefix dec (ci_current_limit c) (CurrentPosition c) (readable c) =
      (vs, True, length (packed_bytes enc vs))"
    using prefix_read [OF l] pos decode_all_enc [of vs]
    by (simp add: packed_field_def bs packed_bytes_def Let_def del: length_concat concat_eq_Nil_conv) 
  then show ?thesis using ReadPackedPrimitive_result [OF c h sz N] by auto
qed

lemma repeated_law:
  assumes c: "cok c" and h: "holds f xs" and bs: "readable c = enc v @ tagged_bytes tag enc vs"
    and N: "int (length xs) < INT_MAX" and sz: "0 < sz"
  shows "\<exists>f' c' k n. ReadRepeatedPrimitive sz read tag f c = ret (True, f', c') \<and> holds f' (xs @ v # take k vs) \<and>
    reads n c c' \<and> readable c' = tagged_bytes tag enc (drop k vs)"
  using ReadRepeatedPrimitive_written [OF c h sz N] bs unfolding tagged_bytes_def by blast

end

context wire_fixed_reader
begin

lemma length_enc: "length (enc v) = k"
  using dec_enc [of v "[]"] dec_law [of "enc v"] by (simp split: if_splits)

lemma length_encs: "length (concat (map enc vs)) = length vs * k"
  by (induction vs) (simp_all add: length_enc)

lemma fixed_packed_law:
  assumes c: "cok c" and h: "holds f xs" and bs: "readable c = packed_bytes enc vs @ rest'" and vs: "vs \<noteq> []"
    and space: "space_for (length (packed_bytes enc vs)) c" and N: "int (length xs) + int (length (readable c)) \<le> INT_MAX"
  shows "\<exists>f' c'. ReadPackedFixedSizePrimitive Z (int k) zero decode read f c = ret (True, f', c') \<and> holds f' (xs @ vs) \<and>
    reads (length (packed_bytes enc vs)) c c'"
proof -
  let ?bs = "concat (map enc vs)"
  have l: "int (length ?bs) \<le> INT_MAX" using N unfolding bs by (simp add: packed_bytes_def)
  have v: "varint_value 10 (readable c) = Some (length (varint_bytes (length ?bs)), length ?bs)"
    using prefix_read(1) [OF l] by (simp add: bs packed_bytes_def)
  have "int (length xs) + int (length ?bs) div int k \<le> INT_MAX"
  proof -
    have "int (length ?bs) div int k \<le> int (length ?bs)" by (simp only: zdiv_int [symmetric] zle_int div_le_dividend)
    then show ?thesis using N unfolding bs by (simp add: packed_bytes_def)
  qed
  then have N': "\<And>n' v' l'. varint_value 10 (readable c) = Some (n', v') \<Longrightarrow> size_prefix v' = Some l' \<Longrightarrow>
      int (length xs) + l' div int k \<le> INT_MAX"
    using v prefix_read(2) [OF l] by simp
  have "packed_fixed k dec (ci_total_bytes_limit c) (ci_current_limit c) (CurrentPosition c) (readable c) =
      (vs, True, length (packed_bytes enc vs))"
  proof -
    have "length ?bs mod k = 0" unfolding length_encs by simp
    moreover have "take (nat (int (length ?bs))) (drop (length (varint_bytes (length ?bs))) (readable c)) = ?bs"
      by (simp add: bs packed_bytes_def)
    ultimately show ?thesis
      unfolding packed_fixed_def v option.case prod.case prefix_read(2) [OF l] Let_def
      by (simp only: nat_int decode_all_enc fst_conv simp_thms if_True if_False length_append packed_bytes_def)
  qed
  with ReadPackedFixedSizePrimitive_result [OF c h N', where zero = zero] show ?thesis by fastforce
qed

lemma fixed_repeated_law:
  assumes c: "cok c" and h: "holds f xs" and bs: "readable c = enc v @ tagged_bytes tag enc vs"
    and N: "int (length xs) < INT_MAX" and f: "takes_element k decode from_array"
    and tag_size: "tag_size = int (length (tag_code tag))"
  shows "\<exists>f' c' j n. ReadRepeatedFixedSizePrimitive Z (int k) read from_array tag_size tag f c = ret (True, f', c') \<and>
    holds f' (xs @ v # take j vs) \<and> reads n c c' \<and> readable c' = tagged_bytes tag enc (drop j vs)"
proof -
  have d: "dec (readable c) = Some (length (enc v), v)" "drop (length (enc v)) (readable c) = tagged_bytes tag enc vs"
    using dec_enc by (simp_all add: bs)
  obtain f' c' b n ws m where e: "ReadRepeatedFixedSizePrimitive Z (int k) read from_array tag_size tag f c = ret (b, f', c')"
      b "b \<longrightarrow> reads n c c'" "tagged dec (tag_code tag) (tagged_bytes tag enc vs) ws True m" "n = length (enc v) + m"
      "holds f' (xs @ v # ws)"
    using ReadRepeatedFixedSizePrimitive_result [OF c h N f tag_size] unfolding d option.case prod.case by auto
  have ne: "tag_code tag \<noteq> []" by (simp add: tag_code_def)
  have w: "ws = take (length ws) vs" "drop m (tagged_bytes tag enc vs) = tagged_bytes tag enc (drop (length ws) vs)"
    using tagged_written [OF e(4) [unfolded tagged_bytes_def] ne] by (simp_all add: tagged_bytes_def)
  then have "readable c' = tagged_bytes tag enc (drop (length ws) vs)"
    using ci_reads_readable [OF e(3) [rule_format, OF e(2)]] e(5) by (simp add: bs)
  then show ?thesis using e(1-3,6) w(1) by metis
qed

end

section \<open>A reader on a stream of its own\<close>

text \<open>
  \<^verbatim>\<open>{ CodedInputStream input(&stream); r = op(&input); }\<close>: the destructor hands the bytes
  that were not read back to the stream.
\<close>

definition over_stream ::
    "'s zero_copy_input \<Rightarrow> ('s coded_input \<Rightarrow> ('r \<times> 's coded_input) run) \<Rightarrow> 's \<Rightarrow> ('r \<times> 's) run" where
  "over_stream Z op s =
     bind_run (CodedInputStream Z s) (\<lambda>c.
     bind_run (op c) (\<lambda>(r, c1).
     bind_run (Some (CodedInputStream_destroy Z c1)) (\<lambda>s1.
       case s1 of None \<Rightarrow> Some (Inl NullDeref) | Some s' \<Rightarrow> ret (r, s'))))"

definition field_result :: "(bool \<times> 'v repeated_field \<times> 's coded_input) run \<Rightarrow> ((bool \<times> 'v repeated_field) \<times> 's coded_input) run" where
  "field_result m = bind_run m (\<lambda>(ok, f, c). ret ((ok, f), c))"

lemma field_result_ret [simp]: "field_result (ret (ok, f, c)) = ret ((ok, f), c)"
  by (simp add: field_result_def)

definition fresh_input :: "'s coded_input \<Rightarrow> bool" where
  "fresh_input c \<longleftrightarrow> CurrentPosition c = 0 \<and> ci_current_limit c = INT_MAX"

context zero_copy_stream
begin

lemma over_stream_result:
  assumes s: "ok s" and len: "int (length (rest s)) \<le> INT_MAX"
    and op: "\<And>c. cok c \<Longrightarrow> readable c = rest s \<Longrightarrow> fresh_input c \<Longrightarrow> \<exists>r c' n. op c = ret (r, c') \<and> reads n c c' \<and> P r (drop n (rest s))"
  shows "\<exists>r s'. over_stream Z op s = ret (r, s') \<and> P r (rest s')"
proof -
  obtain c where c: "CodedInputStream Z s = ret c" "cok c" "readable c = take (nat INT_MAX) (rest s)" "CurrentPosition c = 0"
      "ci_config c = (INT_MAX, INT_MAX, default_recursion_limit, default_recursion_limit, False, False)"
      "ci_ahead rest chunk c = rest s"
    using CodedInputStream_result [OF s] by blast
  have "readable c = rest s" "fresh_input c" using c len by (simp_all add: fresh_input_def ci_config_def nat_le_iff le_nat_iff)
  from op [OF c(2) this] obtain r c' n where r: "op c = ret (r, c')" "reads n c c'" "P r (drop n (rest s))" by blast
  obtain t where "ci_input c' = Some t" using r(2) c(5) by (auto simp: ci_reads_def ci_config_def)
  then obtain s' where "CodedInputStream_destroy Z c' = Inr (Some s')" "rest s' = drop n (rest s)"
    using CodedInputStream_destroy_result [OF ci_reads_ok [OF r(2)]] r(2) c(6) by (auto simp: ci_reads_def)
  then show ?thesis using c(1) r by (simp add: over_stream_def)
qed

end

lemma put_effect:
  assumes "i + length bs \<le> length m"
  shows "\<exists>m'. put i bs m = Inr (i + length bs, m') \<and> take i m' = take i m \<and> drop (i + length bs) m' = drop (i + length bs) m \<and>
    window i (length bs) m' = bs"
  using assms by (cases bs) (auto simp: put_def overwrite_def window_def min_def)

section \<open>The laws of a type\<close>

locale repeated_type = zero_copy_stream Z ok rest chunk budget + wire_codec enc dec to_array to_stream size_of
  for Z :: "'s zero_copy_input" and ok rest chunk budget
    and enc :: "'v \<Rightarrow> byte list" and dec to_array to_stream size_of +
  fixes ty :: WireType
    and write_all :: "'v repeated_field \<Rightarrow> nat \<Rightarrow> byte list \<Rightarrow> (nat \<times> byte list) res"
    and write_tagged :: "int \<Rightarrow> 'v repeated_field \<Rightarrow> nat \<Rightarrow> byte list \<Rightarrow> (nat \<times> byte list) res"
    and read_one :: "'s coded_input \<Rightarrow> ('v option \<times> 's coded_input) run"
    and read_packed :: "'v repeated_field \<Rightarrow> 's coded_input \<Rightarrow> (bool \<times> 'v repeated_field \<times> 's coded_input) run"
    and read_repeated :: "int \<Rightarrow> uint32 \<Rightarrow> 'v repeated_field \<Rightarrow> 's coded_input \<Rightarrow> (bool \<times> 'v repeated_field \<times> 's coded_input) run"
  assumes write_law: "holds r vs \<Longrightarrow> vs \<noteq> [] \<Longrightarrow> write_all r i m = put i (concat (map enc vs)) m"
    and write_tagged_law: "holds r vs \<Longrightarrow> i \<le> length m \<Longrightarrow>
      write_tagged number r i m = put i (tagged_bytes (MakeTag number ty) enc vs) m"
    and read_one_law: "ci_ok ok chunk c \<Longrightarrow> ci_readable rest chunk c = enc v @ bs \<Longrightarrow>
      \<exists>c'. read_one c = ret (Some v, c') \<and> ci_reads ok rest chunk (length (enc v)) c c'"
    and read_packed_law: "ci_ok ok chunk c \<Longrightarrow> holds f xs \<Longrightarrow> ci_readable rest chunk c = packed_bytes enc vs @ bs \<Longrightarrow> vs \<noteq> [] \<Longrightarrow>
      space_for (length (packed_bytes enc vs)) c \<Longrightarrow> int (length xs) + int (length (ci_readable rest chunk c)) \<le> INT_MAX \<Longrightarrow>
      \<exists>f' c'. read_packed f c = ret (True, f', c') \<and> holds f' (xs @ vs) \<and>
        ci_reads ok rest chunk (length (packed_bytes enc vs)) c c'"
    and read_repeated_law: "ci_ok ok chunk c \<Longrightarrow> holds f xs \<Longrightarrow> ci_readable rest chunk c = enc v @ tagged_bytes tag enc vs \<Longrightarrow>
      int (length xs) < INT_MAX \<Longrightarrow> tag_size = int (length (tag_code tag)) \<Longrightarrow>
      \<exists>f' c' k n. read_repeated tag_size tag f c = ret (True, f', c') \<and> holds f' (xs @ v # take k vs) \<and>
        ci_reads ok rest chunk n c c' \<and> ci_readable rest chunk c' = tagged_bytes tag enc (drop k vs)"
begin

lemma size_sum: "length (concat (map enc vs)) = sum_list (map size_of vs)"
proof -
  have "size_of = (\<lambda>v. length (enc v))" using size_law by (rule ext)
  then show ?thesis by (simp add: length_concat comp_def)
qed

lemma one_back:
  assumes s: "ok s" "rest s = enc v @ bs" and len: "int (length (rest s)) \<le> INT_MAX"
  shows "\<exists>s'. over_stream Z read_one s = ret (Some v, s') \<and> rest s' = bs"
proof -
  have "\<exists>r s'. over_stream Z read_one s = ret (r, s') \<and> r = Some v \<and> rest s' = bs"
    using s read_one_law by (intro over_stream_result [OF s(1) len]) fastforce
  then show ?thesis by blast
qed

lemma packed_field_back:
  assumes s: "ok s" "rest s = packed_bytes enc vs @ bs" and len: "int (length xs) + int (length (rest s)) < INT_MAX"
    and f: "holds f xs" "vs \<noteq> []"
  shows "\<exists>f' s'. over_stream Z (\<lambda>c. field_result (read_packed f c)) s = ret ((True, f'), s') \<and> holds f' (xs @ vs) \<and> rest s' = bs"
proof -
  have "\<exists>r s'. over_stream Z (\<lambda>c. field_result (read_packed f c)) s = ret (r, s') \<and> fst r \<and> holds (snd r) (xs @ vs) \<and> rest s' = bs"
  proof (intro over_stream_result [OF s(1)])
    fix c assume c: "cok c" "readable c = rest s" "fresh_input c"
    have "space_for (length (packed_bytes enc vs)) c" using c(3) len s(2) by (simp add: fresh_input_def space_for_def)
    then obtain f' c' where "read_packed f c = ret (True, f', c')" "holds f' (xs @ vs)" "reads (length (packed_bytes enc vs)) c c'"
      using read_packed_law [OF c(1) f(1) _ f(2), of bs] c(2) s(2) len by auto
    then show "\<exists>r c' n. field_result (read_packed f c) = ret (r, c') \<and> reads n c c' \<and>
        fst r \<and> holds (snd r) (xs @ vs) \<and> drop n (rest s) = bs"
      using s(2) by (intro exI [of _ "(True, f')"] exI [of _ c'] exI [of _ "length (packed_bytes enc vs)"]) simp
  qed (use len in linarith)
  then show ?thesis by auto
qed

lemma tagged_field_back:
  assumes s: "ok s" "rest s = enc v @ tagged_bytes tag enc vs" and len: "int (length xs) + int (length (rest s)) < INT_MAX"
    and f: "holds f xs" and tag_size: "tag_size = int (length (tag_code tag))"
  shows "\<exists>f' s' k. over_stream Z (\<lambda>c. field_result (read_repeated tag_size tag f c)) s = ret ((True, f'), s') \<and>
    holds f' (xs @ v # take k vs) \<and> rest s' = tagged_bytes tag enc (drop k vs)"
proof -
  have "\<exists>r s'. over_stream Z (\<lambda>c. field_result (read_repeated tag_size tag f c)) s = ret (r, s') \<and>
      fst r \<and> (\<exists>k. holds (snd r) (xs @ v # take k vs) \<and> rest s' = tagged_bytes tag enc (drop k vs))"
  proof (intro over_stream_result [OF s(1)])
    fix c assume c: "cok c" "readable c = rest s" "fresh_input c"
    obtain f' c' k n where r: "read_repeated tag_size tag f c = ret (True, f', c')" "holds f' (xs @ v # take k vs)"
        "reads n c c'" "readable c' = tagged_bytes tag enc (drop k vs)"
      using read_repeated_law [OF c(1) f _ _ tag_size, of v vs] c(2) s(2) len by auto
    then show "\<exists>r c' n. field_result (read_repeated tag_size tag f c) = ret (r, c') \<and> reads n c c' \<and>
        fst r \<and> (\<exists>k. holds (snd r) (xs @ v # take k vs) \<and> drop n (rest s) = tagged_bytes tag enc (drop k vs))"
      using ci_reads_readable [OF r(3)] c(2)
      by (intro exI [of _ "(True, f')"] exI [of _ c'] exI [of _ n]) auto
  qed (use len in linarith)
  then show ?thesis by auto
qed

end

text \<open>The tagged writers; \<open>Writer\<close> writes one tag and one value.\<close>

lemma WritePrimitiveToArray_put:
  assumes w: "\<And>v i m. Writer number v i m = put i (tag_code tag @ enc v) m" and h: "holds r vs" and i: "i \<le> length m"
  shows "WritePrimitiveToArray Writer number r i m = put i (tagged_bytes tag enc vs) m"
proof (cases "vs = []")
  case True
  then show ?thesis using holds_size [OF h] put_nothing [OF i] by (simp add: WritePrimitiveToArray_def tagged_bytes_def)
next
  case False
  then have "rf_current_size r \<noteq> 0" using holds_size [OF h] by simp
  then show ?thesis using write_loop_all [OF w h False] by (simp add: WritePrimitiveToArray_def tagged_bytes_def)
qed

lemma WritePrimitiveNoTagToArray_put:
  assumes "\<And>v i m. Writer v i m = put i (enc v) m" and "holds r vs" and "vs \<noteq> []"
  shows "WritePrimitiveNoTagToArray Writer r i m = put i (concat (map enc vs)) m"
  using write_loop_all [OF assms] by (simp add: WritePrimitiveNoTagToArray_def)

lemma fixed_encs:
  "enc_FIXED32 = le_bytes 4" "enc_FIXED64 = le_bytes 8" "enc_SFIXED32 = le_bytes 4" "enc_SFIXED64 = le_bytes 8"
  "enc_FLOAT = le_bytes 4" "enc_DOUBLE = le_bytes 8"
  by (rule ext, simp add: enc_defs)+

section \<open>The types of the protocol\<close>

text \<open>On an array stream that hands out blocks of any size.\<close>

locale array_type = repeated_type array_input_stream array_ok array_rest array_chunk "\<lambda>s. length (array_rest s)"
    enc dec to_array to_stream size_of ty write_all write_tagged read_one read_packed read_repeated
  for enc :: "'v \<Rightarrow> byte list" and dec to_array to_stream size_of ty write_all write_tagged read_one read_packed read_repeated

interpretation int32_type: array_type enc_INT32 dec_INT32
  WriteInt32NoTagToArray WriteInt32NoTag Int32Size WIRETYPE_VARINT WriteInt32sNoTagToArray WriteInt32sToArray
  "ReadPrimitive_INT32 array_input_stream" "ReadPacked_INT32 array_input_stream" "ReadRepeated_INT32 array_input_stream"
proof (unfold_locales, goal_cases)
  case (1 r vs i m)
  then show ?case unfolding WriteInt32sNoTagToArray_def by (intro WritePrimitiveNoTagToArray_put int32.to_array_law)
next
  case (2 r vs i m number)
  then show ?case unfolding WriteInt32sToArray_def WriteInt32ToArray_def
    by (intro WritePrimitiveToArray_put then_write_put int32.to_array_law)
next
  case (3 c v bs)
  then show ?case by (rule array_stream.int32_reader.one_law)
next
  case (4 c f xs vs bs)
  then show ?case unfolding ReadPacked_INT32_def by (intro array_stream.int32_reader.packed_law) simp_all
next
  case (5 c f xs v tag vs tag_size)
  then show ?case unfolding ReadRepeated_INT32_def by (intro array_stream.int32_reader.repeated_law) simp_all
qed

interpretation int64_type: array_type enc_INT64 dec_INT64
  WriteInt64NoTagToArray WriteInt64NoTag Int64Size WIRETYPE_VARINT WriteInt64sNoTagToArray WriteInt64sToArray
  "ReadPrimitive_INT64 array_input_stream" "ReadPacked_INT64 array_input_stream" "ReadRepeated_INT64 array_input_stream"
proof (unfold_locales, goal_cases)
  case (1 r vs i m)
  then show ?case unfolding WriteInt64sNoTagToArray_def by (intro WritePrimitiveNoTagToArray_put int64.to_array_law)
next
  case (2 r vs i m number)
  then show ?case unfolding WriteInt64sToArray_def WriteInt64ToArray_def
    by (intro WritePrimitiveToArray_put then_write_put int64.to_array_law)
next
  case (3 c v bs)
  then show ?case by (rule array_stream.int64_reader.one_law)
next
  case (4 c f xs vs bs)
  then show ?case unfolding ReadPacked_INT64_def by (intro array_stream.int64_reader.packed_law) simp_all
next
  case (5 c f xs v tag vs tag_size)
  then show ?case unfolding ReadRepeated_INT64_def by (intro array_stream.int64_reader.repeated_law) simp_all
qed

interpretation uint32_type: array_type enc_UINT32 dec_UINT32
  WriteUInt32NoTagToArray WriteUInt32NoTag UInt32Size WIRETYPE_VARINT WriteUInt32sNoTagToArray WriteUInt32sToArray
  "ReadPrimitive_UINT32 array_input_stream" "ReadPacked_UINT32 array_input_stream" "ReadRepeated_UINT32 array_input_stream"
proof (unfold_locales, goal_cases)
  case (1 r vs i m)
  then show ?case unfolding WriteUInt32sNoTagToArray_def by (intro WritePrimitiveNoTagToArray_put uint32.to_array_law)
next
  case (2 r vs i m number)
  then show ?case unfolding WriteUInt32sToArray_def WriteUInt32ToArray_def
    by (intro WritePrimitiveToArray_put then_write_put uint32.to_array_law)
next
  case (3 c v bs)
  then show ?case by (rule array_stream.uint32_reader.one_law)
next
  case (4 c f xs vs bs)
  then show ?case unfolding ReadPacked_UINT32_def by (intro array_stream.uint32_reader.packed_law) simp_all
next
  case (5 c f xs v tag vs tag_size)
  then show ?case unfolding ReadRepeated_UINT32_def by (intro array_stream.uint32_reader.repeated_law) simp_all
qed

interpretation uint64_type: array_type enc_UINT64 dec_UINT64
  WriteUInt64NoTagToArray WriteUInt64NoTag UInt64Size WIRETYPE_VARINT WriteUInt64sNoTagToArray WriteUInt64sToArray
  "ReadPrimitive_UINT64 array_input_stream" "ReadPacked_UINT64 array_input_stream" "ReadRepeated_UINT64 array_input_stream"
proof (unfold_locales, goal_cases)
  case (1 r vs i m)
  then show ?case unfolding WriteUInt64sNoTagToArray_def by (intro WritePrimitiveNoTagToArray_put uint64.to_array_law)
next
  case (2 r vs i m number)
  then show ?case unfolding WriteUInt64sToArray_def WriteUInt64ToArray_at_def
    by (intro WritePrimitiveToArray_put then_write_put uint64.to_array_law)
next
  case (3 c v bs)
  then show ?case by (rule array_stream.uint64_reader.one_law)
next
  case (4 c f xs vs bs)
  then show ?case unfolding ReadPacked_UINT64_def by (intro array_stream.uint64_reader.packed_law) simp_all
next
  case (5 c f xs v tag vs tag_size)
  then show ?case unfolding ReadRepeated_UINT64_def by (intro array_stream.uint64_reader.repeated_law) simp_all
qed

interpretation sint32_type: array_type enc_SINT32 dec_SINT32
  WriteSInt32NoTagToArray WriteSInt32NoTag SInt32Size WIRETYPE_VARINT WriteSInt32sNoTagToArray WriteSInt32sToArray
  "ReadPrimitive_SINT32 array_input_stream" "ReadPacked_SINT32 array_input_stream" "ReadRepeated_SINT32 array_input_stream"
proof (unfold_locales, goal_cases)
  case (1 r vs i m)
  then show ?case unfolding WriteSInt32sNoTagToArray_def by (intro WritePrimitiveNoTagToArray_put sint32.to_array_law)
next
  case (2 r vs i m number)
  then show ?case unfolding WriteSInt32sToArray_def WriteSInt32ToArray_def
    by (intro WritePrimitiveToArray_put then_write_put sint32.to_array_law)
next
  case (3 c v bs)
  then show ?case by (rule array_stream.sint32_reader.one_law)
next
  case (4 c f xs vs bs)
  then show ?case unfolding ReadPacked_SINT32_def by (intro array_stream.sint32_reader.packed_law) simp_all
next
  case (5 c f xs v tag vs tag_size)
  then show ?case unfolding ReadRepeated_SINT32_def by (intro array_stream.sint32_reader.repeated_law) simp_all
qed

interpretation sint64_type: array_type enc_SINT64 dec_SINT64
  WriteSInt64NoTagToArray WriteSInt64NoTag SInt64Size WIRETYPE_VARINT WriteSInt64sNoTagToArray WriteSInt64sToArray
  "ReadPrimitive_SINT64 array_input_stream" "ReadPacked_SINT64 array_input_stream" "ReadRepeated_SINT64 array_input_stream"
proof (unfold_locales, goal_cases)
  case (1 r vs i m)
  then show ?case unfolding WriteSInt64sNoTagToArray_def by (intro WritePrimitiveNoTagToArray_put sint64.to_array_law)
next
  case (2 r vs i m number)
  then show ?case unfolding WriteSInt64sToArray_def WriteSInt64ToArray_def
    by (intro WritePrimitiveToArray_put then_write_put sint64.to_array_law)
next
  case (3 c v bs)
  then show ?case by (rule array_stream.sint64_reader.one_law)
next
  case (4 c f xs vs bs)
  then show ?case unfolding ReadPacked_SINT64_def by (intro array_stream.sint64_reader.packed_law) simp_all
next
  case (5 c f xs v tag vs tag_size)
  then show ?case unfolding ReadRepeated_SINT64_def by (intro array_stream.sint64_reader.repeated_law) simp_all
qed

interpretation fixed32_type: array_type enc_FIXED32 dec_FIXED32
  WriteFixed32NoTagToArray WriteFixed32NoTag "\<lambda>v. kFixed32Size" WIRETYPE_FIXED32 WriteFixed32sNoTagToArray WriteFixed32sToArray
  "ReadPrimitive_FIXED32 array_input_stream" "ReadPacked_FIXED32 array_input_stream" "ReadRepeated_FIXED32 array_input_stream"
proof (unfold_locales, goal_cases)
  case (1 r vs i m)
  then show ?case unfolding WriteFixed32sNoTagToArray_def fixed_encs by (intro WriteFixedNoTagToArray_put)
next
  case (2 r vs i m number)
  then show ?case unfolding WriteFixed32sToArray_def WriteFixed32ToArray_at_def
    by (intro WritePrimitiveToArray_put then_write_put fixed32.to_array_law)
next
  case (3 c v bs)
  then show ?case by (rule array_stream.fixed32_reader.one_law)
next
  case (4 c f xs vs bs)
  then show ?case unfolding ReadPacked_FIXED32_def using array_stream.fixed32_fixed.fixed_packed_law [of c f xs vs bs 0] by simp
next
  case (5 c f xs v tag vs tag_size)
  then show ?case unfolding ReadRepeated_FIXED32_def using array_stream.fixed32_fixed.fixed_repeated_law [OF _ _ _ _ elements_taken(1)] by simp
qed

interpretation fixed64_type: array_type enc_FIXED64 dec_FIXED64
  WriteFixed64NoTagToArray WriteFixed64NoTag "\<lambda>v. kFixed64Size" WIRETYPE_FIXED64 WriteFixed64sNoTagToArray WriteFixed64sToArray
  "ReadPrimitive_FIXED64 array_input_stream" "ReadPacked_FIXED64 array_input_stream" "ReadRepeated_FIXED64 array_input_stream"
proof (unfold_locales, goal_cases)
  case (1 r vs i m)
  then show ?case unfolding WriteFixed64sNoTagToArray_def fixed_encs by (intro WriteFixedNoTagToArray_put)
next
  case (2 r vs i m number)
  then show ?case unfolding WriteFixed64sToArray_def WriteFixed64ToArray_at_def
    by (intro WritePrimitiveToArray_put then_write_put fixed64.to_array_law)
next
  case (3 c v bs)
  then show ?case by (rule array_stream.fixed64_reader.one_law)
next
  case (4 c f xs vs bs)
  then show ?case unfolding ReadPacked_FIXED64_def using array_stream.fixed64_fixed.fixed_packed_law [of c f xs vs bs 0] by simp
next
  case (5 c f xs v tag vs tag_size)
  then show ?case unfolding ReadRepeated_FIXED64_def using array_stream.fixed64_fixed.fixed_repeated_law [OF _ _ _ _ elements_taken(2)] by simp
qed

interpretation sfixed32_type: array_type enc_SFIXED32 dec_SFIXED32
  WriteSFixed32NoTagToArray WriteSFixed32NoTag "\<lambda>v. kSFixed32Size" WIRETYPE_FIXED32 WriteSFixed32sNoTagToArray WriteSFixed32sToArray
  "ReadPrimitive_SFIXED32 array_input_stream" "ReadPacked_SFIXED32 array_input_stream" "ReadRepeated_SFIXED32 array_input_stream"
proof (unfold_locales, goal_cases)
  case (1 r vs i m)
  then show ?case unfolding WriteSFixed32sNoTagToArray_def fixed_encs by (intro WriteFixedNoTagToArray_put)
next
  case (2 r vs i m number)
  then show ?case unfolding WriteSFixed32sToArray_def WriteSFixed32ToArray_def
    by (intro WritePrimitiveToArray_put then_write_put sfixed32.to_array_law)
next
  case (3 c v bs)
  then show ?case by (rule array_stream.sfixed32_reader.one_law)
next
  case (4 c f xs vs bs)
  then show ?case unfolding ReadPacked_SFIXED32_def using array_stream.sfixed32_fixed.fixed_packed_law [of c f xs vs bs 0] by simp
next
  case (5 c f xs v tag vs tag_size)
  then show ?case unfolding ReadRepeated_SFIXED32_def using array_stream.sfixed32_fixed.fixed_repeated_law [OF _ _ _ _ elements_taken(3)] by simp
qed

interpretation sfixed64_type: array_type enc_SFIXED64 dec_SFIXED64
  WriteSFixed64NoTagToArray WriteSFixed64NoTag "\<lambda>v. kSFixed64Size" WIRETYPE_FIXED64 WriteSFixed64sNoTagToArray WriteSFixed64sToArray
  "ReadPrimitive_SFIXED64 array_input_stream" "ReadPacked_SFIXED64 array_input_stream" "ReadRepeated_SFIXED64 array_input_stream"
proof (unfold_locales, goal_cases)
  case (1 r vs i m)
  then show ?case unfolding WriteSFixed64sNoTagToArray_def fixed_encs by (intro WriteFixedNoTagToArray_put)
next
  case (2 r vs i m number)
  then show ?case unfolding WriteSFixed64sToArray_def WriteSFixed64ToArray_def
    by (intro WritePrimitiveToArray_put then_write_put sfixed64.to_array_law)
next
  case (3 c v bs)
  then show ?case by (rule array_stream.sfixed64_reader.one_law)
next
  case (4 c f xs vs bs)
  then show ?case unfolding ReadPacked_SFIXED64_def using array_stream.sfixed64_fixed.fixed_packed_law [of c f xs vs bs 0] by simp
next
  case (5 c f xs v tag vs tag_size)
  then show ?case unfolding ReadRepeated_SFIXED64_def using array_stream.sfixed64_fixed.fixed_repeated_law [OF _ _ _ _ elements_taken(4)] by simp
qed

interpretation float_type: array_type enc_FLOAT dec_FLOAT
  WriteFloatNoTagToArray WriteFloatNoTag "\<lambda>v. kFloatSize" WIRETYPE_FIXED32 WriteFloatsNoTagToArray WriteFloatsToArray
  "ReadPrimitive_FLOAT array_input_stream" "ReadPacked_FLOAT array_input_stream" "ReadRepeated_FLOAT array_input_stream"
proof (unfold_locales, goal_cases)
  case (1 r vs i m)
  then show ?case unfolding WriteFloatsNoTagToArray_def fixed_encs by (intro WriteFixedNoTagToArray_put)
next
  case (2 r vs i m number)
  then show ?case unfolding WriteFloatsToArray_def WriteFloatToArray_def
    by (intro WritePrimitiveToArray_put then_write_put float.to_array_law)
next
  case (3 c v bs)
  then show ?case by (rule array_stream.float_reader.one_law)
next
  case (4 c f xs vs bs)
  then show ?case unfolding ReadPacked_FLOAT_def using array_stream.float_fixed.fixed_packed_law [of c f xs vs bs 0] by simp
next
  case (5 c f xs v tag vs tag_size)
  then show ?case unfolding ReadRepeated_FLOAT_def using array_stream.float_fixed.fixed_repeated_law [OF _ _ _ _ elements_taken(5)] by simp
qed

interpretation double_type: array_type enc_DOUBLE dec_DOUBLE
  WriteDoubleNoTagToArray WriteDoubleNoTag "\<lambda>v. kDoubleSize" WIRETYPE_FIXED64 WriteDoublesNoTagToArray WriteDoublesToArray
  "ReadPrimitive_DOUBLE array_input_stream" "ReadPacked_DOUBLE array_input_stream" "ReadRepeated_DOUBLE array_input_stream"
proof (unfold_locales, goal_cases)
  case (1 r vs i m)
  then show ?case unfolding WriteDoublesNoTagToArray_def fixed_encs by (intro WriteFixedNoTagToArray_put)
next
  case (2 r vs i m number)
  then show ?case unfolding WriteDoublesToArray_def WriteDoubleToArray_def
    by (intro WritePrimitiveToArray_put then_write_put double.to_array_law)
next
  case (3 c v bs)
  then show ?case by (rule array_stream.double_reader.one_law)
next
  case (4 c f xs vs bs)
  then show ?case unfolding ReadPacked_DOUBLE_def using array_stream.double_fixed.fixed_packed_law [of c f xs vs bs 0] by simp
next
  case (5 c f xs v tag vs tag_size)
  then show ?case unfolding ReadRepeated_DOUBLE_def using array_stream.double_fixed.fixed_repeated_law [OF _ _ _ _ elements_taken(6)] by simp
qed

interpretation bool_type: array_type enc_BOOL dec_BOOL
  WriteBoolNoTagToArray WriteBoolNoTag "\<lambda>v. kBoolSize" WIRETYPE_VARINT WriteBoolsNoTagToArray WriteBoolsToArray
  "ReadPrimitive_BOOL array_input_stream" "ReadPacked_BOOL array_input_stream" "ReadRepeated_BOOL array_input_stream"
proof (unfold_locales, goal_cases)
  case (1 r vs i m)
  then show ?case unfolding WriteBoolsNoTagToArray_def by (intro WritePrimitiveNoTagToArray_put bool.to_array_law)
next
  case (2 r vs i m number)
  then show ?case unfolding WriteBoolsToArray_def WriteBoolToArray_def
    by (intro WritePrimitiveToArray_put then_write_put bool.to_array_law)
next
  case (3 c v bs)
  then show ?case by (rule array_stream.bool_reader.one_law)
next
  case (4 c f xs vs bs)
  then show ?case unfolding ReadPacked_BOOL_def by (intro array_stream.bool_reader.packed_law) simp_all
next
  case (5 c f xs v tag vs tag_size)
  then show ?case unfolding ReadRepeated_BOOL_def by (intro array_stream.bool_reader.repeated_law) simp_all
qed

interpretation enum_type: array_type enc_ENUM dec_ENUM
  WriteEnumNoTagToArray WriteEnumNoTag EnumSize WIRETYPE_VARINT WriteEnumsNoTagToArray WriteEnumsToArray
  "ReadPrimitive_ENUM array_input_stream" "ReadPacked_ENUM array_input_stream" "ReadRepeated_ENUM array_input_stream"
proof (unfold_locales, goal_cases)
  case (1 r vs i m)
  then show ?case unfolding WriteEnumsNoTagToArray_def by (intro WritePrimitiveNoTagToArray_put enum.to_array_law)
next
  case (2 r vs i m number)
  then show ?case unfolding WriteEnumsToArray_def WriteEnumToArray_def
    by (intro WritePrimitiveToArray_put then_write_put enum.to_array_law)
next
  case (3 c v bs)
  then show ?case by (rule array_stream.enum_reader.one_law)
next
  case (4 c f xs vs bs)
  then show ?case unfolding ReadPacked_ENUM_def by (intro array_stream.enum_reader.packed_law) simp_all
next
  case (5 c f xs v tag vs tag_size)
  then show ?case unfolding ReadRepeated_ENUM_def by (intro array_stream.enum_reader.repeated_law) simp_all
qed


end
