(* ===== verification/Wire_Sizes.thy ===== *)
theory Wire_Sizes
  imports Wire_Fields
begin

unbundle bit_operations_syntax

text \<open>
  The vectorised sizes of repeated varint fields, \<^verbatim>\<open>VarintSize\<close> and \<^verbatim>\<open>VarintSize64\<close> of
  \<^verbatim>\<open>wire_format_lite.cc\<close>: they count comparisons instead of bytes, and agree with the loops over
  the size of one value.
\<close>

section \<open>Counting comparisons\<close>

lemma length_varint_step: "length (varint_bytes n) = (if n < 128 then 1 else Suc (length (varint_bytes (n div 128))))"
  by (subst varint_bytes.simps) simp

text \<open>Up to five bytes for 32 bits; five more when 35 bits have been shifted out.\<close>

lemma length_varint_5:
  assumes "n < 2 ^ 35"
  shows "length (varint_bytes n) =
    1 + (if 0x7F < n then 1 else 0) + (if 0x3FFF < n then 1 else 0) + (if 0x1FFFFF < n then 1 else 0) + (if 0xFFFFFFF < n then 1 else 0)"
proof -
  have d: "n div 128 div 128 = n div 16384" "n div 16384 div 128 = n div 2097152" "n div 2097152 div 128 = n div 268435456"
    by (simp_all add: div_mult2_eq [symmetric])
  consider "n < 128" | "128 \<le> n" "n < 16384" | "16384 \<le> n" "n < 2097152" | "2097152 \<le> n" "n < 268435456" | "268435456 \<le> n"
    by linarith
  then show ?thesis
  proof cases
    case 1 then show ?thesis by (simp add: length_varint_step [of n])
  next
    case 2 then show ?thesis by (simp add: length_varint_step [of n] length_varint_step [of "n div 128"] less_mult_imp_div_less)
  next
    case 3
    then have "\<not> n div 128 < 128" "n div 16384 < 128" by (simp_all add: not_less less_eq_div_iff_mult_less_eq less_mult_imp_div_less)
    then show ?thesis using 3
      by (simp add: length_varint_step [of n] length_varint_step [of "n div 128"] length_varint_step [of "n div 16384"] d)
  next
    case 4
    then have "\<not> n div 128 < 128" "\<not> n div 16384 < 128" "n div 2097152 < 128"
      by (simp_all add: not_less less_eq_div_iff_mult_less_eq less_mult_imp_div_less)
    then show ?thesis using 4
      by (simp add: length_varint_step [of n] length_varint_step [of "n div 128"] length_varint_step [of "n div 16384"]
          length_varint_step [of "n div 2097152"] d)
  next
    case 5
    then have "\<not> n div 128 < 128" "\<not> n div 16384 < 128" "\<not> n div 2097152 < 128" "n div 268435456 < 128"
      using assms by (simp_all add: not_less less_eq_div_iff_mult_less_eq less_mult_imp_div_less)
    then show ?thesis using 5
      by (simp add: length_varint_step [of n] length_varint_step [of "n div 128"] length_varint_step [of "n div 16384"]
          length_varint_step [of "n div 2097152"] length_varint_step [of "n div 268435456"] d)
  qed
qed

lemma length_varint_shift:
  assumes "2 ^ 35 \<le> n"
  shows "length (varint_bytes n) = 5 + length (varint_bytes (n div 2 ^ 35))"
proof -
  have "\<not> n < 128" "\<not> n div 128 < 128" "\<not> n div 16384 < 128" "\<not> n div 2097152 < 128" "\<not> n div 268435456 < 128"
    using assms by (simp_all add: not_less less_eq_div_iff_mult_less_eq)
  moreover have "n div 128 div 128 = n div 16384" "n div 16384 div 128 = n div 2097152"
    "n div 2097152 div 128 = n div 268435456" "n div 268435456 div 128 = n div 2 ^ 35"
    by (simp_all add: div_mult2_eq [symmetric])
  ultimately show ?thesis
    by (simp add: length_varint_step [of n] length_varint_step [of "n div 128"] length_varint_step [of "n div 16384"]
          length_varint_step [of "n div 2097152"] length_varint_step [of "n div 268435456"])
qed

lemma length_varint_pos: "0 < length (varint_bytes n)"
  by simp

lemma size_steps_32: "size_steps (x :: uint32) = word_of_nat (length (varint_bytes (unat x)) - 1)"
proof -
  have "unat x < 2 ^ 35" using unsigned_less [of x, where 'a = nat] by simp
  then show ?thesis by (simp add: size_steps_def length_varint_5 word_less_nat_alt)
qed

lemma size_steps_64:
  assumes "unat (x :: uint64) < 2 ^ 35"
  shows "size_steps x = word_of_nat (length (varint_bytes (unat x)) - 1)"
  using assms by (simp add: size_steps_def length_varint_5 word_less_nat_alt)

text \<open>A negative number takes ten bytes: the sign bit is counted, and five are added for it.\<close>

lemma half_turn:
  "n < 2 ^ 32 \<Longrightarrow> (int n + 2 ^ 31) mod 2 ^ 32 - 2 ^ 31 = (if n < 2 ^ 31 then int n else int n - 2 ^ 32)"
  "n < 2 ^ 32 \<Longrightarrow> (int n - 2 ^ 32) mod 2 ^ 64 = int n + (2 ^ 64 - 2 ^ 32)"
proof -
  assume n: "n < 2 ^ 32"
  show "(int n + 2 ^ 31) mod 2 ^ 32 - 2 ^ 31 = (if n < 2 ^ 31 then int n else int n - 2 ^ 32)"
  proof (cases "n < 2 ^ 31")
    case False
    have "(int n + 2 ^ 31) mod 2 ^ 32 = (int n + 2 ^ 31 - 2 ^ 32) mod 2 ^ 32" by (simp only: minus_mod_self2)
    also have "\<dots> = int n + 2 ^ 31 - 2 ^ 32" using False n by (intro mod_pos_pos_trivial) simp_all
    finally show ?thesis using False by (simp only: if_False)
  qed simp
  have "(int n - 2 ^ 32) mod 2 ^ 64 = (int n - 2 ^ 32 + 2 ^ 64) mod 2 ^ 64" by (simp only: mod_add_self2)
  also have "\<dots> = int n - 2 ^ 32 + 2 ^ 64" using n by (intro mod_pos_pos_trivial) simp_all
  finally show "(int n - 2 ^ 32) mod 2 ^ 64 = int n + (2 ^ 64 - 2 ^ 32)" by simp
qed

lemma sint_halves: "sint (d :: uint32) = (if unat d < 2 ^ 31 then int (unat d) else int (unat d) - 2 ^ 32)"
proof -
  have n: "unat d < 2 ^ 32" using unsigned_less [of d, where 'a = nat] by simp
  have "sint d = (uint d + 2 ^ 31) mod 2 ^ 32 - 2 ^ 31"
    unfolding sint_uint signed_take_bit_eq_take_bit_shift by (simp add: take_bit_eq_mod)
  also have "uint d = int (unat d)" by simp
  finally show ?thesis unfolding half_turn(1) [OF n] .
qed

lemma word_of_int_nat: "unat (word_of_int i :: uint64) = nat (i mod 2 ^ 64)"
  by (simp add: unsigned_of_int take_bit_eq_mod)

lemma sign_bit:
  "drop_bit 31 (d :: uint32) = (if 2 ^ 31 \<le> unat d then 1 else 0)"
  "VarintSize32SignExtended d = length (varint_bytes (unat d)) + (if 2 ^ 31 \<le> unat d then 5 else 0)"
proof -
  have n: "unat d < 2 ^ 32" using unsigned_less [of d, where 'a = nat] by simp
  have "unat (drop_bit 31 d) = unat d div 2 ^ 31" by (simp add: drop_bit_eq_div unat_div)
  also have "\<dots> = (if 2 ^ 31 \<le> unat d then 1 else 0)" using n by auto
  finally show "drop_bit 31 d = (if 2 ^ 31 \<le> unat d then 1 else 0)" by (simp add: word_eq_iff_unsigned [where 'a = nat] split: if_splits)
  have s: "(scast d :: uint64) = word_of_int (sint d)" by simp
  show "VarintSize32SignExtended d = length (varint_bytes (unat d)) + (if 2 ^ 31 \<le> unat d then 5 else 0)"
  proof (cases "unat d < 2 ^ 31")
    case True
    then have "unat (scast d :: uint64) = unat d" unfolding s sint_halves by (simp add: unsigned_of_nat unsigned_ucast_eq take_bit_nat_eq_self)
    then show ?thesis using True by (simp add: VarintSize32SignExtended_def VarintSize64_length)
  next
    case False
    have "unat (scast d :: uint64) = nat ((int (unat d) - 2 ^ 32) mod 2 ^ 64)"
      unfolding s word_of_int_nat using False sint_halves [of d] by (simp only: if_False)
    also have "(int (unat d) - 2 ^ 32) mod 2 ^ 64 = int (unat d + (2 ^ 64 - 2 ^ 32))" unfolding half_turn(2) [OF n] by simp
    finally have big: "unat (scast d :: uint64) = unat d + (2 ^ 64 - 2 ^ 32)" by (simp only: nat_int)
    then have "unat (scast d :: uint64) div 2 ^ 35 = 2 ^ 29 - 1" using False n by simp
    then have "VarintSize32SignExtended d = 5 + length (varint_bytes (2 ^ 29 - 1))"
      using length_varint_shift [of "unat (scast d :: uint64)"] big
      by (simp only: VarintSize32SignExtended_def VarintSize64_length) simp
    then show ?thesis using False n by (simp add: length_varint_5)
  qed
qed

lemma size_sum_words: "word_of_nat (length ds) + (\<Sum>d\<leftarrow>ds. word_of_nat (f d - 1)) = (word_of_nat (\<Sum>d\<leftarrow>ds. f d) :: 'w::len word)"
  if "\<And>d. 0 < f d"
proof (induction ds)
  case (Cons d ds)
  have "word_of_nat (f d) = (1 + word_of_nat (f d - 1) :: 'w word)" using that [of d] by (cases "f d") simp_all
  then show ?case using Cons by (simp add: algebra_simps)
qed simp

lemma varint_size_loop_sum:
  "varint_size_loop zigzag False ds acc 0 = acc + (\<Sum>d\<leftarrow>ds. word_of_nat (VarintSize32 (if zigzag then ZigZagEncode32 d else d) - 1))"
  by (induction ds arbitrary: acc) (simp_all add: Let_def size_steps_32 VarintSize32_length algebra_simps)

lemma varint_size_loop_signed:
  "varint_size_loop False True ds acc msb = acc + msb * 5 + (\<Sum>d\<leftarrow>ds. word_of_nat (VarintSize32SignExtended d - 1))"
proof (induction ds arbitrary: acc msb)
  case (Cons d ds)
  have "word_of_nat (VarintSize32SignExtended d - 1) = size_steps d + drop_bit 31 d * 5"
    using length_varint_pos [of "unat d"] by (cases "length (varint_bytes (unat d))") (simp_all add: sign_bit size_steps_32)
  then show ?case by (simp add: Cons Let_def algebra_simps)
qed simp

lemma varint_size64_loop_sum:
  "varint_size64_loop zigzag ds acc = acc + (\<Sum>d\<leftarrow>ds. word_of_nat (VarintSize64 (if zigzag then ZigZagEncode64 d else d) - 1))"
proof (induction ds arbitrary: acc)
  case (Cons d ds)
  let ?x = "if zigzag then ZigZagEncode64 d else d"
  have "word_of_nat (VarintSize64 ?x - 1) =
      (5 AND (if ?x \<ge> push_bit 35 1 then - 1 else 0)) +
      size_steps (drop_bit (unat (35 AND (if ?x \<ge> push_bit 35 1 then - 1 else 0 :: uint64))) ?x)"
  proof (cases "2 ^ 35 \<le> unat ?x")
    case True
    then have "?x \<ge> push_bit 35 1" by (simp add: word_le_nat_alt push_bit_eq_mult)
    moreover have "unat (drop_bit 35 ?x) = unat ?x div 2 ^ 35" by (simp add: drop_bit_eq_div unat_div)
    moreover from this have "unat (drop_bit 35 ?x) < 2 ^ 35" using unsigned_less [of ?x, where 'a = nat] by (simp add: less_mult_imp_div_less)
    ultimately show ?thesis
      using length_varint_shift [OF True] length_varint_pos [of "unat ?x div 2 ^ 35"]
      by (cases "length (varint_bytes (unat ?x div 2 ^ 35))") (simp_all add: VarintSize64_length size_steps_64)
  next
    case False
    then have "\<not> ?x \<ge> push_bit 35 1" by (simp add: word_le_nat_alt push_bit_eq_mult)
    then show ?thesis using False by (simp add: VarintSize64_length size_steps_64)
  qed
  then show ?case by (simp add: Cons Let_def algebra_simps)
qed simp

section \<open>The sizes of fields\<close>

lemma sum_words:
  assumes "\<And>d. 0 < f d" and "sum_list (map f ds) < 2 ^ LENGTH('w)"
  shows "unat (word_of_nat (length ds) + (\<Sum>d\<leftarrow>ds. word_of_nat (f d - 1)) :: 'w::len word) = sum_list (map f ds)"
  unfolding size_sum_words [of f, OF assms(1)] using assms(2) by (simp add: unsigned_of_nat take_bit_nat_eq_self)

lemma VarintSize_sum:
  "sum_list (map (\<lambda>d. VarintSize32 (if zigzag then ZigZagEncode32 d else d)) ds) < 2 ^ 32 \<Longrightarrow>
    VarintSize zigzag False ds = sum_list (map (\<lambda>d. VarintSize32 (if zigzag then ZigZagEncode32 d else d)) ds)"
  unfolding VarintSize_def varint_size_loop_sum by (rule sum_words) (simp_all add: VarintSize32_length)

lemma VarintSize_signed_sum:
  "sum_list (map VarintSize32SignExtended ds) < 2 ^ 32 \<Longrightarrow>
    VarintSize False True ds = sum_list (map VarintSize32SignExtended ds)"
  unfolding VarintSize_def varint_size_loop_signed mult_zero_left add_0_right
  by (rule sum_words) (simp add: VarintSize32SignExtended_def VarintSize64_length, simp)

lemma Vector_VarintSize64_sum:
  "sum_list (map (\<lambda>d. VarintSize64 (if zigzag then ZigZagEncode64 d else d)) ds) < 2 ^ 64 \<Longrightarrow>
    Vector_VarintSize64 zigzag ds = sum_list (map (\<lambda>d. VarintSize64 (if zigzag then ZigZagEncode64 d else d)) ds)"
  unfolding Vector_VarintSize64_def varint_size64_loop_sum by (rule sum_words) (simp_all add: VarintSize64_length)

text \<open>No value takes more than ten bytes, and a field has at most \<^verbatim>\<open>INT_MAX\<close> of them.\<close>

lemma ten_bytes: "VarintSize64 (v :: uint64) \<le> 10"
proof -
  have "unat v < 128 ^ 10" using word_bounds(2) [of v] by simp
  then show ?thesis by (simp add: VarintSize64_length length_varint_bytes)
qed

lemma sum_ten: "(\<And>d. f d \<le> (10 :: nat)) \<Longrightarrow> sum_list (map f ds) \<le> 10 * length ds"
  by (induction ds) (simp_all add: add_le_mono)

lemma holds_length: "holds r vs \<Longrightarrow> int (length vs) \<le> INT_MAX"
  using holds_fits [of r vs] by (auto simp: holds_def)

lemma sum_64:
  assumes h: "holds r ds" and f: "\<And>d. f d \<le> (10 :: nat)"
  shows "sum_list (map f ds) < 2 ^ 64"
proof -
  have "sum_list (map f ds) \<le> 10 * length ds" by (rule sum_ten [OF f])
  also have "\<dots> \<le> 10 * 2 ^ 31" using holds_length [OF h] by (simp add: INT_MAX_def)
  finally show ?thesis by simp
qed

lemma sizes_10:
  "VarintSize32 (x :: uint32) \<le> 10" "VarintSize32SignExtended x \<le> 10"
proof -
  have "unat x < 128 ^ 10" using word_bounds(1) [of x] by simp
  then show "VarintSize32 x \<le> 10" by (simp add: VarintSize32_length length_varint_bytes)
qed (simp add: VarintSize32SignExtended_def ten_bytes)

lemma sum_32: "10 * length vs < 2 ^ 32 \<Longrightarrow> (\<And>d. f d \<le> (10 :: nat)) \<Longrightarrow> sum_list (map f vs) < 2 ^ 32"
  using sum_ten [of f vs] by simp

section \<open>Properties\<close>

text \<open>
  The vectorised sizes of repeated fields are the sums that the loops over the size of each element
  compute: for the 64-bit types always, for the 32-bit types, whose sum is kept in a
  \<^verbatim>\<open>uint32_t\<close>, as long as ten bytes for each element fit into one.
\<close>

theorem vector_sizes_agree:
  assumes "holds r vs" and "10 * length vs < 2 ^ 32" and "holds s ws"
  shows "Int32sSize_vector r = Int32sSize r \<and> UInt32sSize_vector r = UInt32sSize r \<and>
    SInt32sSize_vector r = SInt32sSize r \<and> EnumsSize_vector r = EnumsSize r \<and>
    Int64sSize_vector s = Int64sSize s \<and> UInt64sSize_vector s = UInt64sSize s \<and> SInt64sSize_vector s = SInt64sSize s"
proof -
  note loops = repeated_size_sum [OF assms(1)] repeated_size_sum [OF assms(3)]
  note data = field_data_holds [OF assms(1)] field_data_holds [OF assms(3)]
  note small = sum_32 [OF assms(2) sizes_10(1)] sum_32 [OF assms(2) sizes_10(2)]
  note big = sum_64 [OF assms(3) ten_bytes]
  have fns: "Int32Size = VarintSize32SignExtended" "EnumSize = VarintSize32SignExtended" "UInt32Size = VarintSize32"
    "SInt32Size = (\<lambda>v. VarintSize32 (ZigZagEncode32 v))" "Int64Size = VarintSize64" "UInt64Size = VarintSize64"
    "SInt64Size = (\<lambda>v. VarintSize64 (ZigZagEncode64 v))"
    by (simp_all add: fun_eq_iff size_defs)
  have "VarintSize False True vs = sum_list (map VarintSize32SignExtended vs)"
    by (rule VarintSize_signed_sum [OF small(2)])
  moreover have "VarintSize False False vs = sum_list (map VarintSize32 vs)"
    using VarintSize_sum [of False vs] small(1) [of "\<lambda>v. v"] by simp
  moreover have "VarintSize True False vs = sum_list (map (\<lambda>v. VarintSize32 (ZigZagEncode32 v)) vs)"
    using VarintSize_sum [of True vs] small(1) [of ZigZagEncode32] by simp
  moreover have "Vector_VarintSize64 False ws = sum_list (map VarintSize64 ws)"
    using Vector_VarintSize64_sum [of False ws] big [of "\<lambda>v. v"] by simp
  moreover have "Vector_VarintSize64 True ws = sum_list (map (\<lambda>v. VarintSize64 (ZigZagEncode64 v)) ws)"
    using Vector_VarintSize64_sum [of True ws] big [of ZigZagEncode64] by simp
  ultimately show ?thesis
    by (simp add: repeated_size_defs loops data fns Int32sSize_vector_def UInt32sSize_vector_def SInt32sSize_vector_def
        EnumsSize_vector_def Int64sSize_vector_def UInt64sSize_vector_def SInt64sSize_vector_def)
qed

lemma three_elements:
  "\<exists>r. holds r [x, y, z]"
proof -
  have "list_calls [Op_AddRange [x, y, z]] [] = Some [x, y, z]" by (simp add: INT_MAX_def)
  from rf_calls_refine [OF holds_start _ this, of 4] show ?thesis by (auto simp: becomes_def)
qed

theorem vector_sizes_agree_witness:
  "\<exists>(r :: uint32 repeated_field) (s :: uint64 repeated_field). items r = [1, 300, 0xFFFFFFFF] \<and> items s = [1, 2 ^ 40, 0xFFFFFFFFFFFFFFFF] \<and>
    Int32sSize_vector r = Inr 13 \<and> SInt32sSize_vector r = Inr 4 \<and> UInt64sSize_vector s = Inr 17"
proof -
  obtain r s where h: "holds r [1, 300, 0xFFFFFFFF :: uint32]" "holds s [1, 2 ^ 40, 0xFFFFFFFFFFFFFFFF :: uint64]" using three_elements by metis
  have len: "10 * length [1, 300, 0xFFFFFFFF :: uint32] < 2 ^ 32" by simp
  have "Int32Size 1 = 1" "Int32Size 300 = 2" "Int32Size 0xFFFFFFFF = 10"
    by (simp_all add: Int32Size_def sign_bit length_varint_5)
  then have "Int32sSize r = Inr 13" using repeated_size_sum [OF h(1)] by (simp add: Int32sSize_def)
  moreover have "SInt32Size 1 = 1" "SInt32Size 300 = 2" "SInt32Size 0xFFFFFFFF = 1"
    by (simp_all add: SInt32Size_def VarintSize32_length ZigZagEncode32_def length_varint_5)
  then have "SInt32sSize r = Inr 4" using repeated_size_sum [OF h(1)] by (simp add: SInt32sSize_def)
  moreover have "UInt64Size 1 = 1" "UInt64Size (2 ^ 40) = 6" "UInt64Size 0xFFFFFFFFFFFFFFFF = 10"
    by (simp_all add: UInt64Size_def VarintSize64_length length_varint_5 length_varint_shift)
  then have "UInt64sSize s = Inr 17" using repeated_size_sum [OF h(2)] by (simp add: UInt64sSize_def)
  moreover note vector_sizes_agree [OF h(1) len h(2)]
  ultimately show ?thesis using holds_items [OF h(1)] holds_items [OF h(2)] by metis
qed

end
