(* ===== verification/Wire_Field_Properties.thy ===== *)
theory Wire_Field_Properties
  imports Wire_Sizes
begin

unbundle bit_operations_syntax

text \<open>
  What the writers and the readers of the scalar types promise each other, type by type: one value, a
  packed field, and values under a tag, all read back from an array stream that is cut into blocks of
  any size.
\<close>

section \<open>The promises\<close>

text \<open>
  \<open>i\<close> is the place in the array \<open>m\<close>, \<open>n\<close> the number of bytes that the size function
  announces: exactly these bytes change, the writer to a stream appends the same ones, and the reader
  takes exactly these, \<open>rest\<close> stays in the stream.
\<close>

definition writes_at :: "(nat \<Rightarrow> byte list \<Rightarrow> (nat \<times> byte list) res) \<Rightarrow> nat \<Rightarrow> nat \<Rightarrow> byte list \<Rightarrow> byte list \<Rightarrow> bool" where
  "writes_at w n i m m' \<longleftrightarrow> w i m = Inr (i + n, m') \<and> take i m' = take i m \<and> drop (i + n) m' = drop (i + n) m"

definition scalar_back ::
    "('v \<Rightarrow> nat) \<Rightarrow> ('v \<Rightarrow> nat \<Rightarrow> byte list \<Rightarrow> (nat \<times> byte list) res) \<Rightarrow> ('v \<Rightarrow> coded_output \<Rightarrow> coded_output run) \<Rightarrow>
      (array_input coded_input \<Rightarrow> ('v option \<times> array_input coded_input) run) \<Rightarrow> bool"
where
  "scalar_back size_of to_array to_stream read \<longleftrightarrow> (\<forall>v i m.
     i + size_of v \<le> length m \<longrightarrow> (\<exists>m'. writes_at (to_array v) (size_of v) i m m' \<and>
       (\<forall>R xs w. co_carries True R xs w \<longrightarrow>
         (\<exists>w'. to_stream v w = ret w' \<and> co_carries True R (xs @ window i (size_of v) m') w')) \<and>
       (\<forall>rest block_size. int (size_of v + length rest) \<le> INT_MAX \<longrightarrow>
         (\<exists>s. over_stream array_input_stream read (ArrayInputStream (window i (size_of v) m' @ rest) block_size) =
            ret (Some v, s) \<and> array_rest s = rest))))"

definition packed_back ::
    "('v \<Rightarrow> nat) \<Rightarrow> ('v repeated_field \<Rightarrow> nat \<Rightarrow> byte list \<Rightarrow> (nat \<times> byte list) res) \<Rightarrow>
      ('v repeated_field \<Rightarrow> array_input coded_input \<Rightarrow> (bool \<times> 'v repeated_field \<times> array_input coded_input) run) \<Rightarrow> bool"
where
  "packed_back size_of write_all read \<longleftrightarrow> (\<forall>r vs i m.
     let n = sum_list (map size_of vs) in
     holds r vs \<and> vs \<noteq> [] \<and> i + n \<le> length m \<longrightarrow> (\<exists>m'. writes_at (write_all r) n i m m' \<and>
       (\<forall>f xs rest block_size. let data = varint_bytes n @ window i n m' @ rest in
         holds f xs \<and> int (length xs + length data) < INT_MAX \<longrightarrow>
         (\<exists>f' s. over_stream array_input_stream (\<lambda>c. field_result (read f c)) (ArrayInputStream data block_size) =
            ret ((True, f'), s) \<and> holds f' (xs @ vs) \<and> array_rest s = rest))))"

definition tagged_back ::
    "WireType \<Rightarrow> ('v \<Rightarrow> nat) \<Rightarrow> (int \<Rightarrow> 'v repeated_field \<Rightarrow> nat \<Rightarrow> byte list \<Rightarrow> (nat \<times> byte list) res) \<Rightarrow>
      (int \<Rightarrow> uint32 \<Rightarrow> 'v repeated_field \<Rightarrow> array_input coded_input \<Rightarrow> (bool \<times> 'v repeated_field \<times> array_input coded_input) run) \<Rightarrow> bool"
where
  "tagged_back ty size_of write_all read \<longleftrightarrow> (\<forall>number r vs i m.
     let tag = MakeTag number ty; t = VarintSize32 tag;
         n = sum_list (map (\<lambda>v. t + size_of v) vs) in
     holds r vs \<and> vs \<noteq> [] \<and> i + n \<le> length m \<longrightarrow> (\<exists>m'. writes_at (write_all number r) n i m m' \<and>
       window i t m' = varint_bytes (unat tag) \<and>
       (\<forall>f xs block_size. holds f xs \<and> int (length xs + n) < INT_MAX \<longrightarrow>
         (\<exists>f' s k. over_stream array_input_stream (\<lambda>c. field_result (read (int t) tag f c))
              (ArrayInputStream (window (i + t) (n - t) m') block_size) = ret ((True, f'), s) \<and>
            0 < k \<and> holds f' (xs @ take k vs) \<and>
            array_rest s = drop (sum_list (map (\<lambda>v. t + size_of v) (take k vs))) (window i n m')))))"

context array_type
begin

lemma scalar_law: "scalar_back size_of to_array to_stream read_one"
  unfolding scalar_back_def
proof (intro allI impI)
  fix v i and m :: "byte list" assume room: "i + size_of v \<le> length m"
  obtain m' where m': "writes_at (to_array v) (size_of v) i m m'" "window i (size_of v) m' = enc v"
    using put_effect [of i "enc v" m] room unfolding size_law writes_at_def to_array_law by auto
  have "\<exists>w'. to_stream v w = ret w' \<and> co_carries True R (xs @ enc v) w'" if "co_carries True R xs w" for R xs w
    using to_stream_carries [OF that, of v] by blast
  moreover have "\<exists>s. over_stream array_input_stream read_one (ArrayInputStream (enc v @ bs) b) = ret (Some v, s) \<and> array_rest s = bs"
    if "int (size_of v + length bs) \<le> INT_MAX" for bs b
  proof -
    have len: "int (length (enc v @ bs)) \<le> INT_MAX" using that by (simp add: size_law)
    from one_back [OF array_ok_start [OF len] array_rest_start] len show ?thesis unfolding array_rest_start by blast
  qed
  ultimately show "\<exists>m'. writes_at (to_array v) (size_of v) i m m' \<and>
       (\<forall>R xs w. co_carries True R xs w \<longrightarrow>
         (\<exists>w'. to_stream v w = ret w' \<and> co_carries True R (xs @ window i (size_of v) m') w')) \<and>
       (\<forall>rest block_size. int (size_of v + length rest) \<le> INT_MAX \<longrightarrow>
         (\<exists>s. over_stream array_input_stream read_one (ArrayInputStream (window i (size_of v) m' @ rest) block_size) =
            ret (Some v, s) \<and> array_rest s = rest))"
    using m' by (intro exI [of _ m']) simp
qed

lemma packed_law: "packed_back size_of write_all read_packed"
  unfolding packed_back_def Let_def
proof (intro allI impI; elim conjE)
  fix r vs i and m :: "byte list"
  assume r: "holds r vs" "vs \<noteq> []" and room: "i + sum_list (map size_of vs) \<le> length m"
  let ?n = "sum_list (map size_of vs)"
  obtain m' where m': "writes_at (write_all r) ?n i m m'" "window i ?n m' = concat (map enc vs)"
    using put_effect [of i "concat (map enc vs)" m] room unfolding size_sum writes_at_def write_law [OF r] by auto
  have bytes: "varint_bytes ?n @ window i ?n m' @ bs = packed_bytes enc vs @ bs" for bs
    unfolding m'(2) by (simp add: packed_bytes_def size_sum)
  have "\<exists>f' s. over_stream array_input_stream (\<lambda>c. field_result (read_packed f c)) (ArrayInputStream (packed_bytes enc vs @ bs) b) =
      ret ((True, f'), s) \<and> holds f' (xs @ vs) \<and> array_rest s = bs"
    if "holds f xs" "int (length xs + length (packed_bytes enc vs @ bs)) < INT_MAX" for f xs bs b
  proof -
    have len: "int (length (packed_bytes enc vs @ bs)) \<le> INT_MAX" using that(2) by simp
    show ?thesis
      using packed_field_back [OF array_ok_start [OF len] array_rest_start _ that(1) r(2)] that(2) unfolding array_rest_start by simp
  qed
  then show "\<exists>m'. writes_at (write_all r) ?n i m m' \<and>
       (\<forall>f xs rest block_size.
         holds f xs \<and> int (length xs + length (varint_bytes ?n @ window i ?n m' @ rest)) < INT_MAX \<longrightarrow>
         (\<exists>f' s. over_stream array_input_stream (\<lambda>c. field_result (read_packed f c))
              (ArrayInputStream (varint_bytes ?n @ window i ?n m' @ rest) block_size) =
            ret ((True, f'), s) \<and> holds f' (xs @ vs) \<and> array_rest s = rest))"
    using m'(1) by (intro exI [of _ m']) (simp only: bytes, blast)
qed

lemma length_tagged: "length (tagged_bytes tag enc vs) = sum_list (map (\<lambda>v. VarintSize32 tag + size_of v) vs)"
  by (induction vs) (simp_all add: tagged_bytes_def tag_code_def VarintSize32_length size_law)

lemma drop_tagged:
  "drop (sum_list (map (\<lambda>v. VarintSize32 tag + size_of v) (take k vs))) (tagged_bytes tag enc vs) = tagged_bytes tag enc (drop k vs)"
proof -
  have "tagged_bytes tag enc vs = tagged_bytes tag enc (take k vs) @ tagged_bytes tag enc (drop k vs)"
    unfolding tagged_bytes_def by (metis append_take_drop_id concat_append map_append)
  then show ?thesis unfolding length_tagged [symmetric] by simp
qed

lemma window_inside: "window (i + t) (n - t) m = drop t (window i n m)"
  by (simp add: window_def drop_take add.commute)

lemma tagged_law: "tagged_back ty size_of write_tagged read_repeated"
  unfolding tagged_back_def Let_def
proof (intro allI impI; elim conjE)
  fix number r vs i and m :: "byte list"
  let ?tag = "MakeTag number ty"
  let ?t = "VarintSize32 ?tag"
  let ?size = "\<lambda>vs. sum_list (map (\<lambda>v. ?t + size_of v) vs)"
  assume r: "holds r vs" "vs \<noteq> []" and room: "i + ?size vs \<le> length m"
  obtain v us where vs: "vs = v # us" using r(2) by (cases vs) auto
  have t: "?t = length (tag_code ?tag)" by (simp add: tag_code_def VarintSize32_length)
  have "i \<le> length m" using room by simp
  then have w: "write_tagged number r i m = put i (tagged_bytes ?tag enc vs) m" by (rule write_tagged_law [OF r(1)])
  obtain m' where m': "writes_at (write_tagged number r) (?size vs) i m m'" "window i (?size vs) m' = tagged_bytes ?tag enc vs"
    using put_effect [of i "tagged_bytes ?tag enc vs" m] room unfolding length_tagged writes_at_def w by auto
  have first: "tagged_bytes ?tag enc vs = tag_code ?tag @ enc v @ tagged_bytes ?tag enc us" by (simp add: vs tagged_bytes_def)
  have le: "?t \<le> ?size vs" by (simp add: vs)
  have tail: "window (i + ?t) (?size vs - ?t) m' = enc v @ tagged_bytes ?tag enc us"
    unfolding window_inside m'(2) first by (simp add: t)
  have "window i ?t m' = take ?t (window i (?size vs) m')" using le by (simp add: window_def min_def)
  then have head: "window i ?t m' = varint_bytes (unat ?tag)" unfolding m'(2) first by (simp add: tag_code_def VarintSize32_length)
  have again: "\<exists>f' s k. over_stream array_input_stream (\<lambda>c. field_result (read_repeated (int ?t) ?tag f c))
        (ArrayInputStream (enc v @ tagged_bytes ?tag enc us) b) = ret ((True, f'), s) \<and>
      0 < k \<and> holds f' (xs @ take k vs) \<and> array_rest s = drop (?size (take k vs)) (tagged_bytes ?tag enc vs)"
    if h: "holds f xs" "int (length xs + ?size vs) < INT_MAX" for f xs b
  proof -
    have n: "length (enc v @ tagged_bytes ?tag enc us) \<le> ?size vs" unfolding length_tagged [symmetric] first by simp
    then have len: "int (length (enc v @ tagged_bytes ?tag enc us)) \<le> INT_MAX"
      "int (length xs) + int (length (enc v @ tagged_bytes ?tag enc us)) < INT_MAX" using h(2) by linarith+
    obtain f' s k where "over_stream array_input_stream (\<lambda>c. field_result (read_repeated (int ?t) ?tag f c))
        (ArrayInputStream (enc v @ tagged_bytes ?tag enc us) b) = ret ((True, f'), s)" "holds f' (xs @ v # take k us)"
        "array_rest s = tagged_bytes ?tag enc (drop k us)"
      using tagged_field_back [OF array_ok_start [OF len(1)] array_rest_start _ h(1), of b "int ?t", unfolded array_rest_start, OF len(2)] t
      by auto
    then show ?thesis
      using drop_tagged [of ?tag "Suc k" vs] by (intro exI [of _ f'] exI [of _ s] exI [of _ "Suc k"]) (simp add: vs)
  qed
  show "\<exists>m'. writes_at (write_tagged number r) (?size vs) i m m' \<and> window i ?t m' = varint_bytes (unat ?tag) \<and>
       (\<forall>f xs block_size. holds f xs \<and> int (length xs + ?size vs) < INT_MAX \<longrightarrow>
         (\<exists>f' s k. over_stream array_input_stream (\<lambda>c. field_result (read_repeated (int ?t) ?tag f c))
              (ArrayInputStream (window (i + ?t) (?size vs - ?t) m') block_size) = ret ((True, f'), s) \<and>
            0 < k \<and> holds f' (xs @ take k vs) \<and> array_rest s = drop (?size (take k vs)) (window i (?size vs) m')))"
    using m'(1) head again by (intro exI [of _ m']) (simp only: tail m'(2), blast)
qed

end

section \<open>Properties\<close>

text \<open>
  C34: A value of each of the fourteen scalar types goes through the wire unchanged. The writer to an
  array changes exactly as many bytes as the size function of the type announces, the writer to a stream
  appends the same bytes, and the reader gets the value back from these bytes and leaves everything after
  them in the stream, however the stream is cut into blocks.
\<close>

theorem scalar_round_trip:
  "scalar_back Int32Size WriteInt32NoTagToArray WriteInt32NoTag (ReadPrimitive_INT32 array_input_stream) \<and>
   scalar_back Int64Size WriteInt64NoTagToArray WriteInt64NoTag (ReadPrimitive_INT64 array_input_stream) \<and>
   scalar_back UInt32Size WriteUInt32NoTagToArray WriteUInt32NoTag (ReadPrimitive_UINT32 array_input_stream) \<and>
   scalar_back UInt64Size WriteUInt64NoTagToArray WriteUInt64NoTag (ReadPrimitive_UINT64 array_input_stream) \<and>
   scalar_back SInt32Size WriteSInt32NoTagToArray WriteSInt32NoTag (ReadPrimitive_SINT32 array_input_stream) \<and>
   scalar_back SInt64Size WriteSInt64NoTagToArray WriteSInt64NoTag (ReadPrimitive_SINT64 array_input_stream) \<and>
   scalar_back (\<lambda>v. kFixed32Size) WriteFixed32NoTagToArray WriteFixed32NoTag (ReadPrimitive_FIXED32 array_input_stream) \<and>
   scalar_back (\<lambda>v. kFixed64Size) WriteFixed64NoTagToArray WriteFixed64NoTag (ReadPrimitive_FIXED64 array_input_stream) \<and>
   scalar_back (\<lambda>v. kSFixed32Size) WriteSFixed32NoTagToArray WriteSFixed32NoTag (ReadPrimitive_SFIXED32 array_input_stream) \<and>
   scalar_back (\<lambda>v. kSFixed64Size) WriteSFixed64NoTagToArray WriteSFixed64NoTag (ReadPrimitive_SFIXED64 array_input_stream) \<and>
   scalar_back (\<lambda>v. kFloatSize) WriteFloatNoTagToArray WriteFloatNoTag (ReadPrimitive_FLOAT array_input_stream) \<and>
   scalar_back (\<lambda>v. kDoubleSize) WriteDoubleNoTagToArray WriteDoubleNoTag (ReadPrimitive_DOUBLE array_input_stream) \<and>
   scalar_back (\<lambda>v. kBoolSize) WriteBoolNoTagToArray WriteBoolNoTag (ReadPrimitive_BOOL array_input_stream) \<and>
   scalar_back EnumSize WriteEnumNoTagToArray WriteEnumNoTag (ReadPrimitive_ENUM array_input_stream)"
  by (intro conjI int32_type.scalar_law int64_type.scalar_law uint32_type.scalar_law uint64_type.scalar_law sint32_type.scalar_law sint64_type.scalar_law fixed32_type.scalar_law fixed64_type.scalar_law sfixed32_type.scalar_law sfixed64_type.scalar_law float_type.scalar_law double_type.scalar_law bool_type.scalar_law enum_type.scalar_law)


text \<open>
  C36: The elements of a repeated field of each of the fourteen scalar types, each written after its tag,
  are read back in order: after the first tag the reader appends at least one element and stops between
  two elements, so that the stream goes on with the tag of the next one and nothing is lost.
\<close>

theorem tagged_round_trip:
  "tagged_back WIRETYPE_VARINT Int32Size WriteInt32sToArray (ReadRepeated_INT32 array_input_stream) \<and>
   tagged_back WIRETYPE_VARINT Int64Size WriteInt64sToArray (ReadRepeated_INT64 array_input_stream) \<and>
   tagged_back WIRETYPE_VARINT UInt32Size WriteUInt32sToArray (ReadRepeated_UINT32 array_input_stream) \<and>
   tagged_back WIRETYPE_VARINT UInt64Size WriteUInt64sToArray (ReadRepeated_UINT64 array_input_stream) \<and>
   tagged_back WIRETYPE_VARINT SInt32Size WriteSInt32sToArray (ReadRepeated_SINT32 array_input_stream) \<and>
   tagged_back WIRETYPE_VARINT SInt64Size WriteSInt64sToArray (ReadRepeated_SINT64 array_input_stream) \<and>
   tagged_back WIRETYPE_FIXED32 (\<lambda>v. kFixed32Size) WriteFixed32sToArray (ReadRepeated_FIXED32 array_input_stream) \<and>
   tagged_back WIRETYPE_FIXED64 (\<lambda>v. kFixed64Size) WriteFixed64sToArray (ReadRepeated_FIXED64 array_input_stream) \<and>
   tagged_back WIRETYPE_FIXED32 (\<lambda>v. kSFixed32Size) WriteSFixed32sToArray (ReadRepeated_SFIXED32 array_input_stream) \<and>
   tagged_back WIRETYPE_FIXED64 (\<lambda>v. kSFixed64Size) WriteSFixed64sToArray (ReadRepeated_SFIXED64 array_input_stream) \<and>
   tagged_back WIRETYPE_FIXED32 (\<lambda>v. kFloatSize) WriteFloatsToArray (ReadRepeated_FLOAT array_input_stream) \<and>
   tagged_back WIRETYPE_FIXED64 (\<lambda>v. kDoubleSize) WriteDoublesToArray (ReadRepeated_DOUBLE array_input_stream) \<and>
   tagged_back WIRETYPE_VARINT (\<lambda>v. kBoolSize) WriteBoolsToArray (ReadRepeated_BOOL array_input_stream) \<and>
   tagged_back WIRETYPE_VARINT EnumSize WriteEnumsToArray (ReadRepeated_ENUM array_input_stream)"
  by (intro conjI int32_type.tagged_law int64_type.tagged_law uint32_type.tagged_law uint64_type.tagged_law sint32_type.tagged_law sint64_type.tagged_law fixed32_type.tagged_law fixed64_type.tagged_law sfixed32_type.tagged_law sfixed64_type.tagged_law float_type.tagged_law double_type.tagged_law bool_type.tagged_law enum_type.tagged_law)

section \<open>Packed fields as they come\<close>

text \<open>
  From any state of a reader of an array stream, with any limits and any bytes ahead: the reader returns,
  and agrees with the reference \<open>packed_field\<close> on the values, on whether the field is accepted, and
  on the bytes it takes.
\<close>

definition packed_reads ::
    "(byte list \<Rightarrow> (nat \<times> 'v) option) \<Rightarrow>
      ('v repeated_field \<Rightarrow> array_input coded_input \<Rightarrow> (bool \<times> 'v repeated_field \<times> array_input coded_input) run) \<Rightarrow> bool"
where
  "packed_reads dec read \<longleftrightarrow> (\<forall>c f xs. ci_ok array_ok array_chunk c \<and> holds f xs \<and>
     int (length xs) + int (length (ci_readable array_rest array_chunk c)) \<le> INT_MAX \<longrightarrow>
     (case packed_field size_prefix dec (ci_current_limit c) (CurrentPosition c) (ci_readable array_rest array_chunk c) of
        (vs, accepted, n) \<Rightarrow>
          \<exists>f' c'. read f c = ret (accepted, f', c') \<and> holds f' (xs @ vs) \<and> ci_ok array_ok array_chunk c' \<and>
            (accepted \<longrightarrow> ci_reads array_ok array_rest array_chunk n c c')))"

text \<open>
  C37: Reading a packed field of varints returns on any bytes, within any limits: the values up to
  the first malformed one are appended, and the field is accepted exactly when they fill the announced
  length, where an enclosing limit that is closer cuts the length short, and fills it too.
\<close>

theorem packed_fields_refine:
  "packed_reads dec_INT32 (ReadPacked_INT32 array_input_stream) \<and> packed_reads dec_INT64 (ReadPacked_INT64 array_input_stream) \<and>
   packed_reads dec_UINT32 (ReadPacked_UINT32 array_input_stream) \<and> packed_reads dec_UINT64 (ReadPacked_UINT64 array_input_stream) \<and>
   packed_reads dec_SINT32 (ReadPacked_SINT32 array_input_stream) \<and> packed_reads dec_SINT64 (ReadPacked_SINT64 array_input_stream) \<and>
   packed_reads dec_BOOL (ReadPacked_BOOL array_input_stream) \<and> packed_reads dec_ENUM (ReadPacked_ENUM array_input_stream)"
  unfolding packed_reads_def packed_reader_defs
  by (intro conjI allI impI; elim conjE)
    (use array_stream.int32_reader.ReadPackedPrimitive_result array_stream.int64_reader.ReadPackedPrimitive_result
      array_stream.uint32_reader.ReadPackedPrimitive_result array_stream.uint64_reader.ReadPackedPrimitive_result
      array_stream.sint32_reader.ReadPackedPrimitive_result array_stream.sint64_reader.ReadPackedPrimitive_result
      array_stream.bool_reader.ReadPackedPrimitive_result array_stream.enum_reader.ReadPackedPrimitive_result in
     \<open>fastforce split: prod.splits\<close>)+

text \<open>
  Without a limit on the reader, a packed field of varints whose announced length reaches up to
  \<^verbatim>\<open>INT_MAX\<close> is accepted as an empty field, whatever follows, and what follows is taken for
  the next field: with the limit at \<^verbatim>\<open>INT_MAX\<close>, \<^verbatim>\<open>BytesUntilLimit\<close> says that
  there is none.
\<close>

theorem packed_length_at_INT_MAX:
  assumes "holds f xs" and "INT_MAX - 5 \<le> int n" and "int n \<le> INT_MAX"
    and "int (length xs + length (varint_bytes n @ bs)) \<le> INT_MAX"
  shows "\<exists>f' s. over_stream array_input_stream (\<lambda>c. field_result (ReadPacked_INT32 array_input_stream f c))
      (ArrayInputStream (varint_bytes n @ bs) block_size) = ret ((True, f'), s) \<and> holds f' xs \<and> array_rest s = bs"
proof -
  let ?data = "varint_bytes n @ bs"
  have len: "int (length ?data) \<le> INT_MAX" using assms(4) by simp
  have five: "length (varint_bytes n) = 5" using assms(2,3) by (simp add: INT_MAX_def length_varint_5)
  have "\<exists>r s. over_stream array_input_stream (\<lambda>c. field_result (ReadPacked_INT32 array_input_stream f c))
      (ArrayInputStream ?data block_size) = ret (r, s) \<and> fst r \<and> holds (snd r) xs \<and> array_rest s = bs"
  proof (intro array_stream.over_stream_result [OF array_ok_start [OF len]], unfold array_rest_start)
    fix c assume c: "ci_ok array_ok array_chunk c" "ci_readable array_rest array_chunk c = ?data" "fresh_input c"
    have pf: "packed_field size_prefix dec_INT32 (ci_current_limit c) (CurrentPosition c) (ci_readable array_rest array_chunk c) =
        ([], True, 5)"
      using prefix_read [OF assms(3)] assms(2) five c(3)
      by (simp add: packed_field_def packed_room_def fresh_input_def c(2) Let_def INT_MAX_def)
    obtain f' c' where "ReadPacked_INT32 array_input_stream f c = ret (True, f', c')" "holds f' xs"
        "ci_reads array_ok array_rest array_chunk 5 c c'"
      using array_stream.int32_reader.ReadPackedPrimitive_result [OF c(1) assms(1), of 4] assms(4)
      unfolding ReadPacked_INT32_def pf unfolding c(2) by auto
    then show "\<exists>r c' k. field_result (ReadPacked_INT32 array_input_stream f c) = ret (r, c') \<and>
        ci_reads array_ok array_rest array_chunk k c c' \<and> fst r \<and> holds (snd r) xs \<and> drop k ?data = bs"
      using five by (intro exI [of _ "(True, f')"] exI [of _ c'] exI [of _ 5]) simp
  qed (use len in simp)
  then show ?thesis by auto
qed

theorem packed_length_at_INT_MAX_witness:
  "\<exists>f' s. over_stream array_input_stream (\<lambda>c. field_result (ReadPacked_INT32 array_input_stream (RepeatedField None) c))
      (ArrayInputStream (varint_bytes 2147483647 @ [8, 1]) 3) = ret ((True, f'), s) \<and> holds f' [] \<and> array_rest s = [8, 1]"
proof (rule packed_length_at_INT_MAX [OF holds_start])
  show "int (length ([] :: uint32 list) + length (varint_bytes 2147483647 @ [8, 1])) \<le> INT_MAX"
    by (simp add: INT_MAX_def length_varint_5)
qed (simp_all add: INT_MAX_def)

section \<open>Enums\<close>

text \<open>
  C38: Reading a packed field of enums keeps every value of the packed field, in order: those that
  the enum knows go to the repeated field, each of the others becomes an unknown varint field with its sign
  extended to 64 bits; the reader for the lite runtime sends these to a stream instead, each as a tag and a
  varint of 32 bits.
\<close>

theorem enum_values_kept:
  assumes "ci_ok array_ok array_chunk c" and "holds r ys"
    and "int (length ys) + int (length (ci_readable array_rest array_chunk c)) \<le> INT_MAX"
    and "packed_field int_prefix dec_ENUM (ci_current_limit c) (CurrentPosition c) (ci_readable array_rest array_chunk c) =
      (vs, accepted, n)"
    and "known = valid_enum is_valid" and "co_carries True R bs w"
  shows "(\<exists>r' c'. WF_ReadPackedEnumPreserveUnknowns array_input_stream number is_valid fs r c =
        ret (accepted, (r', fs @ map (\<lambda>v. TYPE_VARINT number (scast v)) (filter (\<lambda>v. \<not> known v) vs)), c') \<and>
      holds r' (ys @ filter known vs)) \<and>
    (\<exists>r' w' c'. Lite_ReadPackedEnumPreserveUnknowns array_input_stream lite_number is_valid w r c = ret (accepted, (r', w'), c') \<and>
      holds r' (ys @ filter known vs) \<and>
      co_carries True R (bs @ concat (map (\<lambda>v. varint_bytes (unat (MakeTag lite_number WIRETYPE_VARINT)) @ varint_bytes (unat v))
        (filter (\<lambda>v. \<not> known v) vs))) w')"
proof
  obtain t c' where "WF_ReadPackedEnumPreserveUnknowns array_input_stream number is_valid fs r c = ret (accepted, t, c')"
      "enum_set number known ys fs t vs"
    using array_stream.ReadPackedEnum_set [OF assms(1-3), of number is_valid fs] assms(4,5) by auto
  then show "\<exists>r' c'. WF_ReadPackedEnumPreserveUnknowns array_input_stream number is_valid fs r c =
        ret (accepted, (r', fs @ map (\<lambda>v. TYPE_VARINT number (scast v)) (filter (\<lambda>v. \<not> known v) vs)), c') \<and>
      holds r' (ys @ filter known vs)"
    by (cases t) (auto simp: enum_set_def)
  obtain t c' where "Lite_ReadPackedEnumPreserveUnknowns array_input_stream lite_number is_valid w r c = ret (accepted, t, c')"
      "enum_stream lite_number known ys R bs t vs"
    using array_stream.ReadPackedEnum_stream [OF assms(1,2,6,3), of lite_number is_valid] assms(4,5) by auto
  then show "\<exists>r' w' c'. Lite_ReadPackedEnumPreserveUnknowns array_input_stream lite_number is_valid w r c = ret (accepted, (r', w'), c') \<and>
      holds r' (ys @ filter known vs) \<and>
      co_carries True R (bs @ concat (map (\<lambda>v. varint_bytes (unat (MakeTag lite_number WIRETYPE_VARINT)) @ varint_bytes (unat v))
        (filter (\<lambda>v. \<not> known v) vs))) w'"
    by (cases t) (auto simp: enum_stream_def enum_bytes_def [abs_def])
qed

theorem enum_values_kept_witness:
  "\<exists>c r' c' r'' w' c''. CodedInputStream array_input_stream (ArrayInputStream [3, 1, 7, 2] 2) = ret c \<and>
    WF_ReadPackedEnumPreserveUnknowns array_input_stream 5 (Some (\<lambda>v. v < 3)) [] (RepeatedField None) c =
      ret (True, (r', [TYPE_VARINT 5 7]), c') \<and> items r' = [1, 2] \<and>
    Lite_ReadPackedEnumPreserveUnknowns array_input_stream 5 (Some (\<lambda>v. v < 3)) (CodedOutputStream True [10]) (RepeatedField None) c =
      ret (True, (r'', w'), c'') \<and> items r'' = [1, 2]"
proof -
  obtain c where c: "CodedInputStream array_input_stream (ArrayInputStream [3, 1, 7, 2] 2) = ret c" "ci_ok array_ok array_chunk c"
      "ci_readable array_rest array_chunk c = take (nat INT_MAX) (array_rest (ArrayInputStream [3, 1, 7, 2] 2))"
      "CurrentPosition c = 0" "ci_current_limit c = INT_MAX"
    using array_stream.CodedInputStream_result [OF array_ok_start, of "[3, 1, 7, 2]" 2] by (auto simp: INT_MAX_def ci_config_def)
  then have rd: "ci_readable array_rest array_chunk c = [3, 1, 7, 2]" unfolding array_rest_start by (simp add: INT_MAX_def)
  have pf: "packed_field int_prefix dec_ENUM INT_MAX 0 [3, 1, 7, 2] = ([1, 7, 2], True, 4)" by code_simp
  have len: "int (length ([] :: uint32 list)) + int (length (ci_readable array_rest array_chunk c)) \<le> INT_MAX"
    by (simp add: rd INT_MAX_def)
  have pf': "packed_field int_prefix dec_ENUM (ci_current_limit c) (CurrentPosition c) (ci_readable array_rest array_chunk c) =
      ([1, 7, 2], True, 4)"
    unfolding c(4,5) rd by (rule pf)
  obtain r' c' r'' w' c'' where "WF_ReadPackedEnumPreserveUnknowns array_input_stream 5 (Some (\<lambda>v. v < 3)) [] (RepeatedField None) c =
        ret (True, (r', [TYPE_VARINT 5 7]), c')" "holds r' [1, 2]"
      "Lite_ReadPackedEnumPreserveUnknowns array_input_stream 5 (Some (\<lambda>v. v < 3)) (CodedOutputStream True [10]) (RepeatedField None) c =
        ret (True, (r'', w'), c'')" "holds r'' [1, 2]"
    using enum_values_kept [OF c(2) holds_start [of None] len pf' refl CodedOutputStream_start [of "[10]" True],
        where is_valid = "Some (\<lambda>v. v < 3)" and number = 5 and lite_number = 5 and fs = "[]"]
    by (auto simp: valid_enum_def)
  then show ?thesis using c(1) holds_items by metis
qed

end
