(* ===== verification/Spec2Isabelle.thy ===== *)
theory Spec2Isabelle
  imports Game_Invariant Send_Path Wire_Properties Unknown_Properties Eps_Stream Wire_Copy Concat_Input
    Copying_Input Copying_Output Wire_Field_Properties
begin

text \<open>
  \<^bold>\<open>The program.\<close> \<^verbatim>\<open>ServerCore\<close> is a library for servers on Windows: sockets
  driven by an I/O completion port. \<^verbatim>\<open>GameServer\<close> and \<^verbatim>\<open>GameClient\<close> are two
  executables on it that exchange the protobuf messages \<^verbatim>\<open>C_LOGIN\<close> and
  \<^verbatim>\<open>S_LOGIN\<close>. The protobuf library is vendored below
  \<^verbatim>\<open>Libraries/Include/google/protobuf\<close>; the development models the part of its runtime
  that reads and writes such messages, and the readers next to it.

  A completion is taken from the port by \<^verbatim>\<open>IocpCore::ObserveIO\<close> and dispatched to the listener
  or a session. A receive completion moves the write position of the session's \<^verbatim>\<open>RecvBuffer\<close>,
  shows the bytes to \<^verbatim>\<open>PacketSession::OnRecv\<close>, which cuts them into packets, and these go
  through the table of \<^verbatim>\<open>PacketHandler\<close> to a handler that gets the parsed message. A handler
  answers with \<^verbatim>\<open>MakeSendBuffer\<close>, which serializes into a buffer of the
  \<^verbatim>\<open>SendBufferManager\<close>, and \<^verbatim>\<open>Session::Send\<close>, which queues the buffer and starts a
  gathering \<^verbatim>\<open>WSASend\<close> when none is under way.

  \<^bold>\<open>The server library.\<close>

  \<^item> \<open>Prelude\<close>: word types of \<^verbatim>\<open>CorePch.h\<close>; the faults by which the code leaves the defined
    behaviour of C++; \<open>res\<close> (a value or a fault) and \<open>run\<close> (moreover \<open>None\<close>, a call that never
    returns or has no fuel left); checked memory access; the locale \<open>inductive_invariant\<close>.
  \<^item> \<open>Recv_Buffer\<close> (\<^verbatim>\<open>RecvBuffer\<close>): the record has the block and both positions. It is a FIFO
    queue of bytes, the contract \<open>byte_stream\<close>, interpreted for it as \<open>rbs\<close>.
  \<^item> \<open>Packet_Session\<close> (\<^verbatim>\<open>PacketSession::OnRecv\<close>): the framing loop with its \<^verbatim>\<open>size_t\<close>
    comparison of an \<^verbatim>\<open>int\<close>; what it delivers, what it leaves, when it returns and when it
    does not.
  \<^item> \<open>Send_Buffer\<close>, \<open>Send_Buffer_Safety\<close>, \<open>Send_Buffer_Threads\<close> (\<^verbatim>\<open>SendBufferChunk\<close>,
    \<^verbatim>\<open>SendBuffer\<close>, \<^verbatim>\<open>SendBufferManager\<close>): the chunked allocator as a heap with
    explicit holders of every chunk; its invariant, and its operations interleaved by any number of
    threads, as the instance \<open>threads\<close> of \<open>inductive_invariant\<close>.
  \<^item> \<open>Win_Api\<close> (\<^verbatim>\<open>SocketHelper\<close>): calls to the operating system are recorded in a trace and
    answered by an oracle, a parameter of every function that makes one.
  \<^item> \<open>Core_State\<close> (\<^verbatim>\<open>IocpEvent\<close>, \<^verbatim>\<open>Session.h\<close>, \<^verbatim>\<open>Service\<close>): events, sessions,
    the service, and the record \<open>core\<close> that is the state of a process.
  \<^item> \<open>Session\<close>, \<open>Session_Properties\<close>, \<open>Send_Path\<close> (\<^verbatim>\<open>Session.cpp\<close>): one definition for every
    \<^verbatim>\<open>Register\<close> and \<^verbatim>\<open>Process\<close> function and for \<^verbatim>\<open>Connect\<close>, \<^verbatim>\<open>Send\<close>,
    \<^verbatim>\<open>Disconnect\<close>; the virtual functions of a session class are a parameter. Receive rounds
    against the byte queue, at most one disconnect, at most one send in flight.
  \<^item> \<open>Packet_Handler\<close> (\<^verbatim>\<open>PacketHandler\<close>): the table and both templates over the contract
    \<open>message_contract\<close> of a message class.
  \<^item> \<open>Listener\<close>, \<open>Event_Loop\<close> (\<^verbatim>\<open>Listener\<close>, \<^verbatim>\<open>ServerService\<close>,
    \<^verbatim>\<open>ClientService\<close>, \<^verbatim>\<open>IocpCore\<close>): accepting, dispatch of completions, starting a
    service; the step relation of the event loop, and the locale \<open>session_class\<close>, which reduces an
    invariant of an application to its virtual functions.

  \<^bold>\<open>The applications.\<close>

  \<^item> \<open>Game\<close>: session classes, packet handlers, the session manager and both main functions up to the
    worker loop.
  \<^item> \<open>Game_Login\<close>: the server refines an abstract machine that counts logins; the login exchange; what
    a hostile packet id does.
  \<^item> \<open>Game_Invariant\<close>: what holds in all states the worker threads reach (the instance \<open>server\<close> of
    \<open>session_class\<close>), and \<^verbatim>\<open>Broadcast\<close>.

  \<^bold>\<open>The protobuf runtime.\<close>

  \<^item> \<open>Wire_Varint\<close>, \<open>Wire_Writers\<close>, \<open>Wire_Properties\<close> (\<^verbatim>\<open>parse_context\<close>,
    \<^verbatim>\<open>io/coded_stream\<close>, \<^verbatim>\<open>stubs/port.h\<close>, \<^verbatim>\<open>wire_format_lite.h\<close>): every reader
    and writer of variable-length integers against one reference codec, sizes, tags, zigzag.
  \<^item> \<open>Eps_Output\<close>, \<open>Eps_Buffer\<close>, \<open>Eps_Stream\<close>, \<open>Coded_Output\<close>
    (\<^verbatim>\<open>EpsCopyOutputStream\<close>, \<^verbatim>\<open>CodedOutputStream\<close>): writing with a slop region and a
    patch buffer. The blocks of the underlying stream receive what was written, as far as they have
    room; the calculus of writers \<open>raws\<close>, \<open>roomy\<close>, \<open>streams\<close> carries this through every serializer,
    also past the error.
  \<^item> \<open>Unknown_Fields\<close>, \<open>Unknown_Properties\<close> (\<^verbatim>\<open>unknown_field_set\<close>, \<^verbatim>\<open>wire_format.cc\<close>):
    the set of unknown fields, its edits, sizes and serialization.
  \<^item> \<open>Parse_Context\<close>, \<open>Field_Parser\<close>, \<open>Field_Parser_Spec\<close>, \<open>Unknown_Parse\<close> (\<^verbatim>\<open>parse_context\<close>):
    the input stream with its slop region, and the parser of unknown fields over the contract
    \<open>field_sink\<close>, which both helper classes of the source fulfil (\<open>set_sink\<close>, \<open>lite_sink\<close>). It
    refines a parser of lists of bytes.
  \<^item> \<open>Zero_Fields\<close> (\<^verbatim>\<open>ZeroFieldsBase\<close>, \<^verbatim>\<open>message_lite\<close>, \<^verbatim>\<open>metadata_lite.h\<close>): the
    two messages of the protocol and the entry points the applications call; the instance \<open>zero\<close> of
    \<open>message_contract\<close>.
  \<^item> \<open>Zero_Copy_Input\<close> (\<^verbatim>\<open>zero_copy_stream_impl_lite\<close>): streams of blocks, the contract
    \<open>zero_copy_stream\<close> and its instances \<open>array_stream\<close> and \<open>limited_array\<close>.
  \<^item> \<open>Coded_Input\<close>, \<open>Coded_Varint\<close>, \<open>Coded_Input_Spec\<close>, \<open>Coded_Input_Reads\<close>
    (\<^verbatim>\<open>CodedInputStream\<close>): the buffered reader over any stream that keeps the contract is a cursor
    on a list of bytes, whatever the blocks.
  \<^item> \<open>Wire_Skip\<close>, \<open>Wire_Skip_Spec\<close>, \<open>Wire_Skip_Properties\<close>, \<open>Wire_Copy\<close> (\<^verbatim>\<open>wire_format.cc\<close>,
    \<^verbatim>\<open>wire_format_lite.cc\<close>): the older parser of unknown fields, over \<^verbatim>\<open>CodedInputStream\<close>;
    how it relates to the newer one, and the variant that copies fields to an output stream.

  \<^item> \<open>Concat_Input\<close> (\<^verbatim>\<open>zero_copy_stream_impl\<close>): the stream that reads several streams one
    after the other, again an instance of \<open>zero_copy_stream\<close>, also below a limit; what a limit leaves behind.
  \<^item> \<open>Copying_Input\<close> (\<^verbatim>\<open>CopyingInputStreamAdaptor\<close>, \<^verbatim>\<open>IstreamInputStream\<close>): blocks over a
    stream that copies. Whatever keeps the contract \<open>copying_source\<close>, as a \<^verbatim>\<open>std::istream\<close> does,
    gives an instance of \<open>zero_copy_stream\<close>, so all the readers above read from it.
  \<^item> \<open>Zero_Copy_Output\<close>, \<open>Copying_Output\<close> (\<^verbatim>\<open>ArrayOutputStream\<close>, \<^verbatim>\<open>StringOutputStream\<close>,
    \<^verbatim>\<open>CopyingOutputStreamAdaptor\<close>, \<^verbatim>\<open>OstreamOutputStream\<close>): output streams that lend blocks of their
    memory, with the contract \<open>zero_copy_sink\<close>, which all of them keep, the adaptor also after an error;
    what reaches a \<^verbatim>\<open>std::ostream\<close> and what the results of the calls say about it.
  \<^item> \<open>Repeated_Field\<close> (\<^verbatim>\<open>repeated_field.h\<close>): the array behind a repeated field, with
    its cells that were never written, its growth and its arena; every operation is one on lists.
  \<^item> \<open>Wire_Types\<close>, \<open>Wire_Fields\<close> (\<^verbatim>\<open>wire_format_lite.{h,cc}\<close>): the readers, writers and sizes of
    the fourteen scalar types, one value, repeated under a tag or packed; strings and nested messages, packed
    enums with unknown values, the field skippers.
  \<^item> \<open>Wire_Codecs\<close>, \<open>Wire_Readers\<close>, \<open>Wire_Repeated\<close>, \<open>Wire_Tagged\<close>: the laws of a type as locales,
    \<open>wire_decoder\<close> and \<open>wire_codec\<close> (an encoding that writers write and a decoder inverts), \<open>wire_reader\<close>
    (a reader that decodes what a \<open>zero_copy_stream\<close> has ahead), \<open>wire_fixed_reader\<close> (elements of one
    width); the loops over packed and tagged values are proved once in them. \<open>Wire_Fields\<close> gathers what
    a message needs of a type in \<open>repeated_type\<close>, with an instance for each type.
  \<^item> \<open>Wire_Field_Properties\<close>, \<open>Wire_Sizes\<close>: round trips for all types, malformed packed fields, enums, and
    the vectorised sizes.

  \<^bold>\<open>Bounds and fuel.\<close> Machine integers are words of their width, or \<open>int\<close> with the wrap-around
  written out where the code converts. The loops of the source whose end is not
  in their syntax, as \<^verbatim>\<open>PacketSession::OnRecv\<close>, \<^verbatim>\<open>Listener::RegisterAccept\<close> and the loop
  over a packed field, are partial functions whose
  value \<open>None\<close> is divergence; for the first both outcomes are
  characterised, the last always returns. The parsers of unknown fields
  recurse through groups and carry fuel \<open>k\<close>. Every turn consumes a byte of the input or closes a
  group that consumed one when it was opened, so \<open>2 * length bs < k\<close> is enough for the input \<open>bs\<close>;
  \<open>zero_message_class\<close> starts with that much, and the theorems say that the parse returns.
  Sizes of inputs are limited by \<^verbatim>\<open>INT_MAX\<close> where the code holds them in an \<^verbatim>\<open>int\<close>, the depth
  of groups by the code's own limit of 100.

  \<^bold>\<open>Assumptions.\<close> A function of the library runs as one atomic step with respect to other threads,
  except in \<open>Send_Buffer_Threads\<close>, which interleaves the operations of the allocator, and \<open>Send_Path\<close>,
  which cuts \<^verbatim>\<open>Session::Send\<close> where it leaves its lock. \<^verbatim>\<open>RegisterSend\<close> is a step there
  although the code does not lock it. Nothing is assumed of the operating system but what a theorem
  names. Assertions of debug builds are left out. Objects are numbered; the lifetime
  of a session is not modelled, that of a send buffer and its chunk is.

  \<^bold>\<open>Not modelled.\<close> Code that \<^verbatim>\<open>protoc\<close> generates; arenas; descriptors, reflection, extensions,
  maps, the text and JSON formats and the compiler: the applications do not reach them. Of the runtime:
  the packed readers of \<^verbatim>\<open>parse_context.h\<close>, aliased writes of \<^verbatim>\<open>EpsCopyOutputStream\<close>, pointers in
  repeated fields, and the streams on files and on zlib. \<^verbatim>\<open>EpsCopyOutputStream\<close> writes to blocks
  of given sizes, not to the streams of \<open>Zero_Copy_Output\<close>. Elements of repeated fields are values: floats are
  their bit patterns, and the allocation of the array never fails. Console and log output appears as
  a list of texts or not at all.
\<close>

end
